(* ===== verification/LucenePrelude.thy ===== *)
theory LucenePrelude imports Main "HOL-Library.Word" begin

text \<open>
  Shared vocabulary of the development: the machine types of the C++ code, the errors it
  throws as values, the array accesses with their out-of-range behaviour, and the two
  helpers of \<^verbatim>\<open>MiscUtils\<close> that nearly every component calls
  (\<^verbatim>\<open>unsignedShift\<close> and \<^verbatim>\<open>getNextSize\<close>).

  Conventions. \<^verbatim>\<open>int32_t\<close> and \<^verbatim>\<open>int64_t\<close> are words where bits or wrap-around
  matter and \<open>nat\<close> or \<open>int\<close> where they are sizes and positions of arrays that exist in
  memory. A C++ access outside an array is undefined behaviour; where the code does not
  guard against it, the model returns \<open>Inl OutOfRange\<close>. \<open>Inl NoReturn\<close> is the result of a
  call that never ends, where a caller of the model has to pass it on.
\<close>

unbundle bit_operations_syntax

type_synonym byte = "8 word"
type_synonym int32 = "32 word"
type_synonym int64 = "64 word"

datatype lucene_error =
    IOException
  | FileNotFound
  | IllegalArgument
  | IndexOutOfBounds
  | NumberFormat
  | RuntimeError
  | AlreadyClosed
  | OutOfRange
  | CorruptIndex
  | IllegalState
  | NoReturn

type_synonym 'a result = "lucene_error + 'a"

named_theorems bit_laws \<open>how the bits of a result depend on the bits of the arguments\<close>
named_theorems stream_laws \<open>one step of a byte stream, seen through its abstraction\<close>

subsection \<open>Sequencing of operations that may throw\<close>

definition bind_r :: "'a result \<Rightarrow> ('a \<Rightarrow> 'b result) \<Rightarrow> 'b result" where
  "bind_r m f = (case m of Inl e \<Rightarrow> Inl e | Inr x \<Rightarrow> f x)"

lemma bind_r_simps [simp]:
  "bind_r (Inl e) f = Inl e"
  "bind_r (Inr x) f = f x"
  by (simp_all add: bind_r_def)

lemma bind_r_Inr_iff:
  "bind_r m f = Inr y \<longleftrightarrow> (\<exists>x. m = Inr x \<and> f x = Inr y)"
  by (cases m) simp_all

lemma bind_r_assoc: "bind_r (bind_r m f) g = bind_r m (\<lambda>x. bind_r (f x) g)"
  by (cases m) simp_all

text \<open>The result of a loop that may not end.\<close>

fun returns :: "'a result option \<Rightarrow> 'a result" where
  "returns None = Inl NoReturn"
| "returns (Some r) = r"

subsection \<open>Arrays\<close>

definition arr_get :: "'a list \<Rightarrow> nat \<Rightarrow> 'a result" where
  "arr_get xs i = (if i < length xs then Inr (xs ! i) else Inl OutOfRange)"

definition arr_set :: "'a list \<Rightarrow> nat \<Rightarrow> 'a \<Rightarrow> 'a list result" where
  "arr_set xs i v = (if i < length xs then Inr (xs[i := v]) else Inl OutOfRange)"

lemma arr_get_in [simp]: "i < length xs \<Longrightarrow> arr_get xs i = Inr (xs ! i)"
  by (simp add: arr_get_def)

lemma arr_set_in [simp]: "i < length xs \<Longrightarrow> arr_set xs i v = Inr (xs[i := v])"
  by (simp add: arr_set_def)

text \<open>\<^verbatim>\<open>MiscUtils::arrayFill(dest, from, to, value)\<close>.\<close>

definition arrayFill :: "'a list \<Rightarrow> nat \<Rightarrow> nat \<Rightarrow> 'a \<Rightarrow> 'a list" where
  "arrayFill xs from to v = map (\<lambda>i. if from \<le> i \<and> i < to then v else xs ! i) [0..<length xs]"

lemma length_arrayFill [simp]: "length (arrayFill xs from to v) = length xs"
  by (simp add: arrayFill_def)

lemma nth_arrayFill [simp]:
  "i < length xs \<Longrightarrow> arrayFill xs from to v ! i = (if from \<le> i \<and> i < to then v else xs ! i)"
  by (simp add: arrayFill_def)

text \<open>\<^verbatim>\<open>MiscUtils::arrayCopy(source, sourceOffset, dest, destOffset, length)\<close>.\<close>

definition arrayCopy :: "'a list \<Rightarrow> nat \<Rightarrow> 'a list \<Rightarrow> nat \<Rightarrow> nat \<Rightarrow> 'a list" where
  "arrayCopy src so dst do len =
     map (\<lambda>i. if do \<le> i \<and> i < do + len then src ! (so + (i - do)) else dst ! i) [0..<length dst]"

lemma length_arrayCopy [simp]: "length (arrayCopy src so dst do len) = length dst"
  by (simp add: arrayCopy_def)

lemma nth_arrayCopy [simp]:
  "i < length dst \<Longrightarrow>
     arrayCopy src so dst do len ! i =
       (if do \<le> i \<and> i < do + len then src ! (so + (i - do)) else dst ! i)"
  by (simp add: arrayCopy_def)

lemma arrayCopy_zero [simp]: "arrayCopy src so dst do 0 = dst"
  by (rule nth_equalityI) auto

lemma arrayCopy_blocks:
  assumes "so + len \<le> length src" "do + len \<le> length dst"
  shows "arrayCopy src so dst do len = take do dst @ take len (drop so src) @ drop (do + len) dst"
  using assms by (intro nth_equalityI) (auto simp: nth_append)

subsection \<open>Shifts and array growth of MiscUtils\<close>

definition unsignedShift64 :: "int64 \<Rightarrow> int64 \<Rightarrow> int64" where
  "unsignedShift64 num shift =
     (if shift AND 0x3f = 0 then num
      else drop_bit (unat ((shift AND 0x3f) - 1)) (drop_bit 1 num AND 0x7fffffffffffffff))"

definition unsignedShift32 :: "int32 \<Rightarrow> int32 \<Rightarrow> int32" where
  "unsignedShift32 num shift =
     (if shift AND 0x1f = 0 then num
      else drop_bit (unat ((shift AND 0x1f) - 1)) (drop_bit 1 num AND 0x7fffffff))"

lemma drop_bit_split:
  assumes "0 < n" and "Suc m = LENGTH('a)"
  shows "drop_bit (n - 1) (drop_bit 1 x AND mask m) = drop_bit n (x :: 'a::len word)"
  using assms by (intro bit_word_eqI) (auto simp: bit_simps dest: bit_imp_le_length)

lemma unat_pred: "x \<noteq> 0 \<Longrightarrow> unat (x - 1) = unat x - 1" for x :: "'a::len word"
  by (simp add: unat_minus_one)

lemma unsignedShift64_drop [bit_laws]:
  "unsignedShift64 num shift = drop_bit (unat (shift AND 0x3f)) num"
proof -
  have m: "(0x7fffffffffffffff :: int64) = mask 63"
    by (simp add: mask_eq_exp_minus_1)
  show ?thesis
  proof (cases "shift AND 0x3f = 0")
    case False
    then have "0 < unat (shift AND 0x3f)" by (simp add: unat_gt_0)
    with False show ?thesis
      unfolding unsignedShift64_def m unat_pred [OF False]
      by (simp only: if_False) (rule drop_bit_split, simp_all)
  qed (simp add: unsignedShift64_def)
qed

lemma unsignedShift32_drop [bit_laws]:
  "unsignedShift32 num shift = drop_bit (unat (shift AND 0x1f)) num"
proof -
  have m: "(0x7fffffff :: int32) = mask 31"
    by (simp add: mask_eq_exp_minus_1)
  show ?thesis
  proof (cases "shift AND 0x1f = 0")
    case False
    then have "0 < unat (shift AND 0x1f)" by (simp add: unat_gt_0)
    with False show ?thesis
      unfolding unsignedShift32_def m unat_pred [OF False]
      by (simp only: if_False) (rule drop_bit_split, simp_all)
  qed (simp add: unsignedShift32_def)
qed

lemma word_zero_iff: "w = 0 \<longleftrightarrow> (\<forall>j. \<not> bit w j)" for w :: "'a::len word"
  by (auto intro: bit_word_eqI)

text \<open>A cast of a 64-bit integer to \<^verbatim>\<open>int32_t\<close>.\<close>

definition trunc32 :: "int \<Rightarrow> int" where
  "trunc32 x = signed_take_bit 31 x"

lemma trunc32_id [simp]: "- (2 ^ 31) \<le> x \<Longrightarrow> x < 2 ^ 31 \<Longrightarrow> trunc32 x = x"
  by (simp add: trunc32_def signed_take_bit_int_eq_self)

lemma trunc32_of_nat [simp]: "n < 2 ^ 31 \<Longrightarrow> trunc32 (int n) = int n"
  by simp

text \<open>\<^verbatim>\<open>MiscUtils::getNextSize\<close>: the over-allocated size for a target size, an \<^verbatim>\<open>int32_t\<close>.\<close>

definition getNextSize :: "int \<Rightarrow> int" where
  "getNextSize targetSize = trunc32 (targetSize div 8 + (if targetSize < 9 then 3 else 6) + targetSize)"

lemma getNextSize_ge: "0 \<le> n \<Longrightarrow> n \<le> 2 ^ 30 \<Longrightarrow> n \<le> getNextSize n"
  by (subst getNextSize_def, subst trunc32_id) auto

text \<open>
  The size an array is resized to. A size that has wrapped below zero leaves no array whose
  elements may be touched, which is what every caller does next.
\<close>

definition new_size :: "int \<Rightarrow> nat result" where
  "new_size n = (if n < 0 then Inl OutOfRange else Inr (nat n))"

lemma new_size_in [simp]: "0 \<le> n \<Longrightarrow> new_size n = Inr (nat n)"
  by (simp add: new_size_def)

end
