(* ===== verification/BitUtil.thy ===== *)
theory BitUtil imports LucenePrelude begin

text \<open>
  The bit kernels of \<^verbatim>\<open>src/core/util/BitUtil.cpp\<close>: the population count of a word
  (\<^verbatim>\<open>pop\<close>), the carry-save (Harley-Seal) population counts of word arrays
  (\<^verbatim>\<open>pop_array\<close>, \<^verbatim>\<open>pop_intersect\<close>, \<^verbatim>\<open>pop_union\<close>, \<^verbatim>\<open>pop_andnot\<close>,
  \<^verbatim>\<open>pop_xor\<close>), the number of trailing zeros (\<^verbatim>\<open>ntz\<close>, \<^verbatim>\<open>ntz2\<close>,
  \<^verbatim>\<open>ntz3\<close>) and the powers of two. The five array counts are the same text up to the
  expression that yields word \<open>i\<close>; that expression is the argument \<open>g\<close> of
  \<open>pop_words\<close>. Reference definition: \<open>bit_count\<close>, the number of set bits.
\<close>

subsection \<open>Reference: the number of set bits\<close>

definition bit_count :: "'a::len word \<Rightarrow> nat" where
  "bit_count x = (\<Sum>i<LENGTH('a). of_bool (bit x i))"

lemma bit_count_card: "bit_count x = card {i. bit x i}"
proof -
  have "bit_count (x :: 'a word) = card {i \<in> {..<LENGTH('a)}. bit x i}"
    by (simp add: bit_count_def Int_def flip: sum.inter_filter)
  also have "{i \<in> {..<LENGTH('a)}. bit x i} = {i. bit x i}"
    by (auto dest: bit_imp_le_length)
  finally show ?thesis .
qed

lemma bit_count_0 [simp]: "bit_count 0 = 0"
  by (simp add: bit_count_def)

lemma bit_count_eq_0_iff [simp]: "bit_count x = 0 \<longleftrightarrow> x = 0" for x :: "'a::len word"
proof
  assume *: "bit_count x = 0"
  show "x = 0"
    by (rule bit_word_eqI) (use * in \<open>auto simp: bit_count_def sum_eq_0_iff\<close>)
qed simp

lemma bit_count_le: "bit_count (x :: 'a::len word) \<le> LENGTH('a)"
  using sum_bounded_above [of "{..<LENGTH('a)}" "\<lambda>i. of_bool (bit x i) :: nat" 1]
  by (simp add: bit_count_def del: sum_of_bool_eq)

subsection \<open>pop: the population count of one word\<close>

definition pop :: "int64 \<Rightarrow> int32" where
  "pop x =
     (let x = x - (unsignedShift64 x 1 AND 0x5555555555555555);
          x = (x AND 0x3333333333333333) + (unsignedShift64 x 2 AND 0x3333333333333333);
          x = (x + unsignedShift64 x 4) AND 0x0f0f0f0f0f0f0f0f;
          x = x + unsignedShift64 x 8;
          x = x + unsignedShift64 x 16;
          x = x + unsignedShift64 x 32
      in (ucast x :: int32) AND 0x7f)"

text \<open>
  The words in the computation are read as lists of digits (least significant first) in
  base \<open>2 ^ k\<close>; masking, shifting by a digit, adding and subtracting then work digit by
  digit as long as no digit overflows.
\<close>

primrec digits :: "nat \<Rightarrow> nat list \<Rightarrow> nat" where
  "digits k [] = 0"
| "digits k (d # ds) = d + 2 ^ k * digits k ds"

lemma digits_less: "list_all (\<lambda>d. d < 2 ^ k) ds \<Longrightarrow> digits k ds < 2 ^ (k * length ds)"
proof (induction ds)
  case (Cons d ds)
  then have "Suc (digits k ds) \<le> 2 ^ (k * length ds)" and "d < 2 ^ k" by simp_all
  then have "2 ^ k * Suc (digits k ds) \<le> (2 ^ k * 2 ^ (k * length ds) :: nat)"
    by (intro mult_le_mono2)
  with \<open>d < 2 ^ k\<close> show ?case by (simp add: power_add)
qed simp

lemma bit_digit_split:
  fixes u v :: nat
  assumes "u < 2 ^ k"
  shows "bit (u + 2 ^ k * v) n \<longleftrightarrow> (if n < k then bit u n else bit v (n - k))"
proof -
  have u: "take_bit k u = u"
    using assms by (simp add: take_bit_nat_eq_self)
  then have low: "bit u m \<Longrightarrow> m < k" for m
    by (metis bit_take_bit_iff)
  have "u + push_bit k v = u OR push_bit k v"
    by (rule disjunctive_add_eq_or)
      (auto simp: bit_eq_iff bit_simps dest: low)
  then have "u + 2 ^ k * v = u OR push_bit k v"
    by (simp add: push_bit_eq_mult ac_simps)
  then show ?thesis
    by (auto simp: bit_simps dest: low)
qed

lemma and_split:
  fixes a b c d :: nat
  assumes "a < 2 ^ k" "b < 2 ^ k"
  shows "(a + 2 ^ k * c) AND (b + 2 ^ k * d) = (a AND b) + 2 ^ k * (c AND d)"
proof (rule bit_eqI)
  fix n
  have "take_bit k (a AND b) = a AND b"
    using assms by (simp add: take_bit_nat_eq_self)
  then have "a AND b < 2 ^ k"
    by (simp only: take_bit_nat_eq_self_iff)
  then show "bit ((a + 2 ^ k * c) AND (b + 2 ^ k * d)) n = bit ((a AND b) + 2 ^ k * (c AND d)) n"
    using assms by (simp add: bit_digit_split bit_and_iff)
qed

lemma and_low_digit: "a < 2 ^ k \<Longrightarrow> (a + 2 ^ k * b) AND (2 ^ k - 1) = a" for a b :: nat
  by (simp add: take_bit_eq_mod del: One_nat_def flip: take_bit_eq_mask mask_eq_exp_minus_1)

fun evens :: "nat list \<Rightarrow> nat list" where
  "evens (a # b # r) = a # evens r"
| "evens r = r"

fun odds :: "nat list \<Rightarrow> nat list" where
  "odds (a # b # r) = b # odds r"
| "odds r = []"

fun addpairs :: "nat list \<Rightarrow> nat list" where
  "addpairs (a # b # r) = (a + b) # addpairs r"
| "addpairs r = r"

abbreviation low_mask :: "nat \<Rightarrow> nat \<Rightarrow> nat" where
  "low_mask k n \<equiv> digits (2 * k) (replicate n (2 ^ k - 1))"

lemma sum_list_addpairs [simp]: "sum_list (addpairs xs) = sum_list xs"
  by (induction xs rule: addpairs.induct) simp_all

lemma length_addpairs [simp]: "even (length xs) \<Longrightarrow> length (addpairs xs) = length xs div 2"
  by (induction xs rule: addpairs.induct) simp_all

lemma addpairs_bound: "list_all (\<lambda>d. d \<le> m) xs \<Longrightarrow> list_all (\<lambda>d. d \<le> 2 * m) (addpairs xs)"
  by (induction xs rule: addpairs.induct) auto

lemma exp_double: "(2 :: nat) ^ (2 * k) = 2 ^ k * 2 ^ k"
  by (simp add: mult_2 power_add)

lemma two_digits_less:
  "a < 2 ^ k \<Longrightarrow> b < 2 ^ k \<Longrightarrow> a + 2 ^ k * b < 2 ^ (2 * k)" for a b :: nat
  using digits_less [of k "[a, b]"] by (simp add: mult_2_right mult_2)

lemma digits_evens_odds:
  "digits k xs = digits (2 * k) (evens xs) + 2 ^ k * digits (2 * k) (odds xs)"
  by (induction xs rule: evens.induct) (simp_all add: exp_double distrib_left mult.assoc)

lemma digits_addpairs:
  "digits k (evens xs) + digits k (odds xs) = digits k (addpairs xs)"
proof (induction xs rule: evens.induct)
  case (1 a b r)
  then have "2 ^ k * digits k (addpairs r) = 2 ^ k * digits k (evens r) + 2 ^ k * digits k (odds r)"
    by (simp flip: distrib_left)
  then show ?case by simp
qed simp_all

lemma digits_snoc_0 [simp]: "digits k (xs @ [0]) = digits k xs"
  by (induction xs) simp_all

lemma evens_shift: "even (length s) \<Longrightarrow> evens (b # s @ [0]) = b # odds s"
  by (induction s arbitrary: b rule: odds.induct) simp_all

lemma digits_and_low:
  assumes "list_all (\<lambda>d. d < 2 ^ k) xs" "even (length xs)"
  shows "digits k xs AND low_mask k (length xs div 2) = digits (2 * k) (evens xs)"
  using assms
proof (induction xs rule: evens.induct)
  case (1 a b r)
  have "digits k (a # b # r) = (a + 2 ^ k * b) + 2 ^ (2 * k) * digits k r"
    by (simp add: exp_double distrib_left mult.assoc)
  moreover have "low_mask k (length (a # b # r) div 2) =
      (2 ^ k - 1) + 2 ^ (2 * k) * low_mask k (length r div 2)"
    by simp
  moreover have "a + 2 ^ k * b < 2 ^ (2 * k)" and "2 ^ k - 1 < (2 ^ (2 * k) :: nat)"
    using 1 two_digits_less [of "2 ^ k - 1" k 0] by (auto intro: two_digits_less)
  ultimately have "digits k (a # b # r) AND low_mask k (length (a # b # r) div 2) =
      ((a + 2 ^ k * b) AND (2 ^ k - 1)) +
        2 ^ (2 * k) * (digits k r AND low_mask k (length r div 2))"
    by (simp only: and_split)
  also have "(a + 2 ^ k * b) AND (2 ^ k - 1) = a"
    using 1 by (intro and_low_digit) simp
  finally show ?case using 1 by simp
qed simp_all

lemma digits_and_high:
  assumes "list_all (\<lambda>d. d < 2 ^ k) xs" "even (length xs)"
  shows "drop_bit k (digits k xs) AND low_mask k (length xs div 2) = digits (2 * k) (odds xs)"
proof (cases xs)
  case (Cons a r)
  from assms Cons obtain b s where r: "r = b # s" by (cases r) auto
  have "drop_bit k (digits k xs) = digits k ((b # s) @ [0])"
    using assms by (simp only: digits_snoc_0) (simp add: Cons r drop_bit_eq_div)
  moreover have "digits k ((b # s) @ [0]) AND low_mask k (length ((b # s) @ [0]) div 2) =
      digits (2 * k) (evens ((b # s) @ [0]))"
    using assms by (intro digits_and_low) (auto simp: Cons r)
  moreover have "evens ((b # s) @ [0]) = odds xs"
    using assms by (simp add: Cons r evens_shift)
  ultimately show ?thesis using assms by (simp add: Cons r del: digits_snoc_0)
qed simp

text \<open>Adding a number to itself shifted by one digit: every digit plus its neighbour.\<close>

definition neighbours :: "nat list \<Rightarrow> nat list" where
  "neighbours xs = map2 (+) xs (tl xs @ [0])"

lemma length_neighbours [simp]: "length (neighbours xs) = length xs"
  by (cases xs) (simp_all add: neighbours_def)

lemma digits_map2_add:
  "length xs = length ys \<Longrightarrow> digits k (map2 (+) xs ys) = digits k xs + digits k ys"
  by (induction xs ys rule: list_induct2) (simp_all add: distrib_left)

lemma digits_neighbours:
  assumes "list_all (\<lambda>d. d < 2 ^ k) xs"
  shows "digits k xs + drop_bit k (digits k xs) = digits k (neighbours xs)"
proof (cases xs)
  case (Cons a r)
  with assms have "drop_bit k (digits k xs) = digits k (r @ [0])"
    by (simp only: digits_snoc_0) (simp add: drop_bit_eq_div)
  moreover have "neighbours xs = map2 (+) xs (r @ [0])"
    by (simp add: neighbours_def Cons)
  then have "digits k (neighbours xs) = digits k xs + digits k (r @ [0])"
    by (simp only:) (rule digits_map2_add, simp add: Cons)
  ultimately show ?thesis by simp
qed (simp add: neighbours_def)

lemma neighbours_bound:
  assumes "list_all (\<lambda>d. d \<le> m) xs"
  shows "list_all (\<lambda>d. d \<le> 2 * m) (neighbours xs)"
proof -
  have "a + b \<le> 2 * m" if "(a, b) \<in> set (zip xs (tl xs @ [0]))" for a b
  proof -
    have "a \<in> set xs" and "b \<in> set (tl xs) \<union> {0}"
      using set_zip_leftD [OF that] set_zip_rightD [OF that] by auto
    then have "a \<le> m" and "b \<le> m"
      using assms by (auto simp: list_all_iff dest: list.set_sel(2) [rotated])
    then show ?thesis by simp
  qed
  then show ?thesis by (auto simp: neighbours_def list_all_iff)
qed

lemma evens_neighbours: "even (length xs) \<Longrightarrow> evens (neighbours xs) = addpairs xs"
proof (induction xs rule: addpairs.induct)
  case (1 a b r)
  then show ?case by (cases r) (simp_all add: neighbours_def)
qed (simp_all add: neighbours_def)

text \<open>The same three SWAR steps, on the numbers.\<close>

lemma swar_first:
  assumes "list_all (\<lambda>d. d \<le> 1) xs" "even (length xs)"
  shows "digits 1 xs - (drop_bit 1 (digits 1 xs) AND low_mask 1 (length xs div 2)) = digits 2 (addpairs xs)"
proof -
  have "list_all (\<lambda>d. d < 2 ^ 1) xs" using assms(1) by (auto simp: list_all_iff)
  from digits_and_high [OF this assms(2)] show ?thesis
    using digits_evens_odds [of 1 xs] digits_addpairs [of 2 xs] by simp
qed

lemma swar_second:
  assumes "list_all (\<lambda>d. d < 2 ^ k) xs" "even (length xs)"
  shows "(digits k xs AND low_mask k (length xs div 2)) + (drop_bit k (digits k xs) AND low_mask k (length xs div 2))
    = digits (2 * k) (addpairs xs)"
  using assms by (simp only: digits_and_low digits_and_high digits_addpairs)

lemma swar_third:
  assumes "list_all (\<lambda>d. 2 * d < 2 ^ k) xs" "even (length xs)"
  shows "(digits k xs + drop_bit k (digits k xs)) AND low_mask k (length xs div 2) = digits (2 * k) (addpairs xs)"
proof -
  define m where "m = ((2 :: nat) ^ k - 1) div 2"
  have "list_all (\<lambda>d. d \<le> m) xs" using assms(1) by (auto simp: list_all_iff m_def)
  then have "list_all (\<lambda>d. d \<le> 2 * m) (neighbours xs)" by (rule neighbours_bound)
  moreover have "2 * ((n - 1) div 2) < n" if "0 < n" for n :: nat
    using that by linarith
  from this [of "2 ^ k"] have "2 * m < 2 ^ k" by (simp add: m_def)
  ultimately have "list_all (\<lambda>d. d < 2 ^ k) (neighbours xs)"
    by (auto simp: list_all_iff)
  moreover have "list_all (\<lambda>d. d < 2 ^ k) xs"
    using assms(1) by (auto simp: list_all_iff)
  ultimately show ?thesis
    using assms(2) digits_and_low [of k "neighbours xs"]
    by (simp add: digits_neighbours evens_neighbours)
qed

lemma unat_bits: "unat x = digits 1 (map (\<lambda>i. of_bool (bit x i)) [0..<LENGTH('a)])" for x :: "'a::len word"
proof -
  have "digits 1 (map of_bool bs) = horner_sum of_bool 2 bs" for bs
    by (induction bs) simp_all
  from this [of "map (bit (unat x)) [0..<LENGTH('a)]"]
  have "digits 1 (map (\<lambda>i. of_bool (bit (unat x) i)) [0..<LENGTH('a)]) = take_bit LENGTH('a) (unat x)"
    by (simp add: horner_sum_bit_eq_take_bit comp_def)
  also have "\<dots> = unat x" by (simp add: take_bit_nat_eq_self)
  finally show ?thesis by (simp add: bit_unsigned_iff cong: map_cong)
qed

lemma unat_ushr64: "unat (unsignedShift64 x s) = drop_bit (unat (s AND 0x3f)) (unat x)"
proof -
  have "take_bit 64 (unat x) = unat x"
    using unsigned_less [of x] by (intro take_bit_nat_eq_self) simp
  then show ?thesis by (simp only: unsignedShift64_drop unsigned_drop_bit_eq) simp
qed

lemma unat_ushr64_literals:
  "unat (unsignedShift64 x 1) = drop_bit 1 (unat x)"
  "unat (unsignedShift64 x 2) = drop_bit 2 (unat x)"
  "unat (unsignedShift64 x 4) = drop_bit 4 (unat x)"
  "unat (unsignedShift64 x 8) = drop_bit 8 (unat x)"
  "unat (unsignedShift64 x 16) = drop_bit 16 (unat x)"
  "unat (unsignedShift64 x 32) = drop_bit 32 (unat x)"
  by (simp_all add: unat_ushr64)

lemma unat_add_small: "unat a + unat b < 2 ^ LENGTH('a) \<Longrightarrow> unat (a + b) = unat a + unat b" for a b :: "'a::len word"
  by (simp add: unat_word_ariths)

lemma digits_replicate: "digits k (replicate n d) * (2 ^ k - 1) = d * (2 ^ (k * n) - 1)"
proof (induction n)
  case (Suc n)
  have "int (digits k (replicate (Suc n) d)) * (2 ^ k - 1) =
      int d * (2 ^ k - 1) + 2 ^ k * (int (digits k (replicate n d)) * (2 ^ k - 1))"
    by (simp add: algebra_simps)
  also have "int (digits k (replicate n d)) * (2 ^ k - 1) = int (digits k (replicate n d) * (2 ^ k - 1))"
    by (simp add: of_nat_diff)
  also have "\<dots> = int (d * (2 ^ (k * n) - 1))" by (simp only: Suc.IH)
  also have "\<dots> = int d * (2 ^ (k * n) - 1)" by (simp add: of_nat_diff)
  also have "int d * (2 ^ k - 1) + 2 ^ k * (int d * (2 ^ (k * n) - 1)) = int d * (2 ^ (k * Suc n) - 1)"
    by (simp add: power_add algebra_simps)
  finally have "int (digits k (replicate (Suc n) d) * (2 ^ k - 1)) = int (d * (2 ^ (k * Suc n) - 1))"
    by (simp add: of_nat_diff)
  then show ?case by (simp only: of_nat_eq_iff)
qed simp

lemma low_mask_values:
  "unat (0x5555555555555555 :: int64) = low_mask 1 32"
  "unat (0x3333333333333333 :: int64) = low_mask 2 16"
  "unat (0x0f0f0f0f0f0f0f0f :: int64) = low_mask 4 8"
  using digits_replicate [of "2 * 1" 32 "2 ^ 1 - 1"] digits_replicate [of "2 * 2" 16 "2 ^ 2 - 1"]
    digits_replicate [of "2 * 4" 8 "2 ^ 4 - 1"]
  by simp_all

text \<open>One lemma per line of \<^verbatim>\<open>pop\<close>.\<close>

lemma pop_line_1:
  assumes "unat x = digits 1 bs" "list_all (\<lambda>d. d \<le> 1) bs" "length bs = 64"
  shows "unat (x - (unsignedShift64 x 1 AND 0x5555555555555555)) = digits 2 (addpairs bs)"
proof -
  have "list_all (\<lambda>d. d < 2 ^ 1) bs" using assms(2) by (auto simp: list_all_iff)
  from digits_and_high [OF this] assms(3)
  have hi: "drop_bit 1 (digits 1 bs) AND low_mask 1 32 = digits 2 (odds bs)" by simp
  have shr: "unat (unsignedShift64 x 1 AND 0x5555555555555555) = digits 2 (odds bs)"
    by (simp only: unsigned_and_eq unat_ushr64_literals assms(1) low_mask_values hi)
  have "digits 2 (odds bs) \<le> digits 1 bs"
    using digits_evens_odds [of 1 bs] by simp
  then have "unsignedShift64 x 1 AND 0x5555555555555555 \<le> x"
    by (simp only: word_le_nat_alt shr assms(1))
  then have "unat (x - (unsignedShift64 x 1 AND 0x5555555555555555)) = digits 1 bs - digits 2 (odds bs)"
    by (simp only: unat_sub shr assms(1))
  also have "\<dots> = digits 2 (addpairs bs)"
    using swar_first [OF assms(2)] assms(3) hi by simp
  finally show ?thesis .
qed

lemma pop_line_2:
  assumes "unat x = digits 2 p" "list_all (\<lambda>d. d \<le> 2) p" "length p = 32"
  shows "unat ((x AND 0x3333333333333333) + (unsignedShift64 x 2 AND 0x3333333333333333)) = digits 4 (addpairs p)"
proof -
  have b: "list_all (\<lambda>d. d < 2 ^ 2) p" using assms(2) by (auto simp: list_all_iff)
  have "unat (x AND 0x3333333333333333) + unat (unsignedShift64 x 2 AND 0x3333333333333333) = digits 4 (addpairs p)"
    using swar_second [OF b] assms(3)
    by (simp only: unsigned_and_eq unat_ushr64_literals assms(1) low_mask_values) simp
  moreover have "digits 4 (addpairs p) < 2 ^ 64"
    using digits_less [of 4 "addpairs p"] addpairs_bound [OF assms(2)] assms(3)
    by (force simp: list_all_iff)
  ultimately show ?thesis by (subst unat_add_small) simp_all
qed

lemma pop_line_3:
  assumes "unat x = digits 4 p" "list_all (\<lambda>d. d \<le> 4) p" "length p = 16"
  shows "unat ((x + unsignedShift64 x 4) AND 0x0f0f0f0f0f0f0f0f) = digits 8 (addpairs p)"
proof -
  have b: "list_all (\<lambda>d. 2 * d < 2 ^ 4) p" using assms(2) by (auto simp: list_all_iff)
  have n: "digits 4 p + drop_bit 4 (digits 4 p) = digits 4 (neighbours p)"
    using assms(2) by (intro digits_neighbours) (auto simp: list_all_iff)
  have "list_all (\<lambda>d. d < 2 ^ 4) (neighbours p)"
    using neighbours_bound [OF assms(2)] by (auto simp: list_all_iff)
  then have "digits 4 (neighbours p) < 2 ^ 64"
    using digits_less [of 4 "neighbours p"] assms(3) by simp
  then have "unat (x + unsignedShift64 x 4) = digits 4 p + drop_bit 4 (digits 4 p)"
    by (subst unat_add_small) (simp_all only: unat_ushr64_literals assms(1) n, simp)
  then show ?thesis
    using swar_third [OF b] assms(3)
    by (simp only: unsigned_and_eq low_mask_values) simp
qed

lemma drop_digit: "z < 256 \<Longrightarrow> drop_bit 8 (digits 8 (z # zs)) = digits 8 zs"
  by (simp add: drop_bit_eq_div)

lemma pop_line_4:
  assumes "unat x = digits 8 [a, b, c, d, e, f, g, h]"
    and le: "a \<le> 8" "b \<le> 8" "c \<le> 8" "d \<le> 8" "e \<le> 8" "f \<le> 8" "g \<le> 8" "h \<le> 8"
  shows "unat (x + unsignedShift64 x 8) = digits 8 [a + b, b + c, c + d, d + e, e + f, f + g, g + h, h]"
proof -
  have "unat x + drop_bit 8 (unat x) = digits 8 [a + b, b + c, c + d, d + e, e + f, f + g, g + h, h]"
    unfolding assms(1) using le by (subst drop_digit) simp_all
  moreover have "digits 8 [a + b, b + c, c + d, d + e, e + f, f + g, g + h, h] < 2 ^ 64"
    using le by simp
  ultimately show ?thesis
    by (subst unat_add_small) (simp_all only: unat_ushr64_literals, simp)
qed

lemma pop_line_5:
  assumes "unat x = digits 8 [a, b, c, d, e, f, g, h]"
    and le: "a \<le> 16" "b \<le> 16" "c \<le> 16" "d \<le> 16" "e \<le> 16" "f \<le> 16" "g \<le> 16" "h \<le> 16"
  shows "unat (x + unsignedShift64 x 16) = digits 8 [a + c, b + d, c + e, d + f, e + g, f + h, g, h]"
proof -
  have "drop_bit 16 (unat x) = drop_bit 8 (drop_bit 8 (unat x))" by simp
  also have "\<dots> = digits 8 [c, d, e, f, g, h]"
    unfolding assms(1) using le by (subst drop_digit, simp, subst drop_digit) simp_all
  finally have "unat x + drop_bit 16 (unat x) = digits 8 [a + c, b + d, c + e, d + f, e + g, f + h, g, h]"
    unfolding assms(1) by simp
  moreover have "digits 8 [a + c, b + d, c + e, d + f, e + g, f + h, g, h] < 2 ^ 64"
    using le by simp
  ultimately show ?thesis
    by (subst unat_add_small) (simp_all only: unat_ushr64_literals, simp)
qed

lemma pop_line_6:
  assumes "unat x = digits 8 [a, b, c, d, e, f, g, h]"
    and le: "a \<le> 32" "b \<le> 32" "c \<le> 32" "d \<le> 32" "e \<le> 32" "f \<le> 32" "g \<le> 32" "h \<le> 32"
  shows "unat (x + unsignedShift64 x 32) mod 256 = a + e"
proof -
  have "drop_bit 32 (unat x) = drop_bit 8 (drop_bit 8 (drop_bit 8 (drop_bit 8 (unat x))))" by simp
  also have "\<dots> = digits 8 [e, f, g, h]"
    unfolding assms(1) using le
    by (subst drop_digit, simp, subst drop_digit, simp, subst drop_digit, simp, subst drop_digit) simp_all
  finally have "unat x + drop_bit 32 (unat x) = digits 8 [a + e, b + f, c + g, d + h, e, f, g, h]"
    unfolding assms(1) by simp
  moreover have "digits 8 [a + e, b + f, c + g, d + h, e, f, g, h] < 2 ^ 64"
    using le by simp
  ultimately have "unat (x + unsignedShift64 x 32) = digits 8 [a + e, b + f, c + g, d + h, e, f, g, h]"
    by (subst unat_add_small) (simp_all only: unat_ushr64_literals, simp)
  then have "unat (x + unsignedShift64 x 32) = (a + e) + 256 * digits 8 [b + f, c + g, d + h, e, f, g, h]"
    by simp
  then show ?thesis using le by (simp only: mod_mult_self2) simp
qed

lemma unat_low_7_bits: "unat ((ucast x :: int32) AND 0x7f) = unat x mod 256 mod 128" for x :: int64
proof -
  have "(0x7f :: int32) = mask 7" by (simp add: mask_eq_exp_minus_1)
  then have "unat ((ucast x :: int32) AND 0x7f) = unat (take_bit 7 (ucast x :: int32))"
    by (simp only: take_bit_eq_mask)
  also have "\<dots> = take_bit 7 (take_bit 32 (unat x))"
    by (simp only: unsigned_take_bit_eq unsigned_ucast_eq) simp
  also have "\<dots> = unat x mod 256 mod 128"
    by (simp add: take_bit_eq_mod mod_mod_cancel)
  finally show ?thesis .
qed

lemma pop_bit_count: "unat (pop x) = bit_count x"
proof -
  define bs where "bs = map (\<lambda>i. of_bool (bit x i) :: nat) [0..<64]"
  define p where "p = addpairs (addpairs (addpairs bs))"
  have x0: "unat x = digits 1 bs" and len: "length bs = 64" and b0: "list_all (\<lambda>d. d \<le> 1) bs"
    by (simp_all add: bs_def unat_bits list_all_iff)
  have b1: "list_all (\<lambda>d. d \<le> 2) (addpairs bs)"
    using addpairs_bound [OF b0] by simp
  have b2: "list_all (\<lambda>d. d \<le> 4) (addpairs (addpairs bs))"
    using addpairs_bound [OF b1] by simp
  have b3: "list_all (\<lambda>d. d \<le> 8) p"
    using addpairs_bound [OF b2] by (simp add: p_def)
  have sum: "sum_list p = bit_count x"
    by (simp add: p_def bs_def bit_count_def interv_sum_list_conv_sum_set_nat atLeast0LessThan del: sum_of_bool_eq)
  have "length p = 8" by (simp add: p_def len)
  then obtain a b c d e f g h where p: "p = [a, b, c, d, e, f, g, h]"
    by (auto simp: numeral_eq_Suc length_Suc_conv)
  have le: "a \<le> 8" "b \<le> 8" "c \<le> 8" "d \<le> 8" "e \<le> 8" "f \<le> 8" "g \<le> 8" "h \<le> 8"
    using b3 by (simp_all add: p)
  note x1 = pop_line_1 [OF x0 b0 len]
  have l1: "length (addpairs bs) = 32" and l2: "length (addpairs (addpairs bs)) = 16"
    by (simp_all add: len)
  note x2 = pop_line_2 [OF x1 b1 l1]
  note x3 = pop_line_3 [OF x2 b2 l2, folded p_def, unfolded p]
  note x4 = pop_line_4 [OF x3 le]
  note x5 = pop_line_5 [OF x4]
  note x6 = pop_line_6 [OF x5]
  have "unat (pop x) = (a + b + (c + d) + (e + f + (g + h))) mod 128"
    unfolding pop_def Let_def unat_low_7_bits
    by (subst x6) (use le in \<open>simp_all add: len\<close>)
  then show ?thesis using sum le by (simp add: p)
qed

subsection \<open>Population counts of arrays with carry-save adders\<close>

definition CSA :: "int64 \<Rightarrow> int64 \<Rightarrow> int64 \<Rightarrow> int64 \<times> int64" where
  "CSA a b c =
     (let u = a XOR b;
          h = (a AND b) OR (u AND c);
          l = u XOR c
      in (h, l))"

record pop_state =
  tot8 :: int64
  ones :: int64
  twos :: int64
  fours :: int64

definition pop_init :: pop_state where
  "pop_init = \<lparr>tot8 = 0, ones = 0, twos = 0, fours = 0\<rparr>"

text \<open>The body of the loop over eight words.\<close>

definition pop_block8 :: "(nat \<Rightarrow> int64) \<Rightarrow> nat \<Rightarrow> pop_state \<Rightarrow> pop_state" where
  "pop_block8 g i st =
     (let (twosA, one) = CSA (ones st) (g i) (g (i + 1));
          (twosB, one) = CSA one (g (i + 2)) (g (i + 3));
          (foursA, two) = CSA (twos st) twosA twosB;
          (twosA, one) = CSA one (g (i + 4)) (g (i + 5));
          (twosB, one) = CSA one (g (i + 6)) (g (i + 7));
          (foursB, two) = CSA two twosA twosB;
          (eights, four) = CSA (fours st) foursA foursB
      in \<lparr>tot8 = tot8 st + scast (pop eights), ones = one, twos = two, fours = four\<rparr>)"

function pop_loop8 :: "(nat \<Rightarrow> int64) \<Rightarrow> nat \<Rightarrow> nat \<Rightarrow> pop_state \<Rightarrow> nat \<times> pop_state" where
  "pop_loop8 g n i st = (if i + 8 \<le> n then pop_loop8 g n (i + 8) (pop_block8 g i st) else (i, st))"
  by pat_completeness auto
termination by (relation "measure (\<lambda>(g, n, i, st). n - i)") auto

declare pop_loop8.simps [simp del]

definition pop_tail4 :: "(nat \<Rightarrow> int64) \<Rightarrow> nat \<Rightarrow> nat \<times> pop_state \<Rightarrow> nat \<times> pop_state" where
  "pop_tail4 g n s =
     (let (i, st) = s in
      if i + 4 \<le> n then
        let (twosA, one) = CSA (ones st) (g i) (g (i + 1));
            (twosB, one) = CSA one (g (i + 2)) (g (i + 3));
            (foursA, two) = CSA (twos st) twosA twosB;
            eights = fours st AND foursA;
            four = fours st XOR foursA
        in (i + 4, \<lparr>tot8 = tot8 st + scast (pop eights), ones = one, twos = two, fours = four\<rparr>)
      else (i, st))"

definition pop_tail2 :: "(nat \<Rightarrow> int64) \<Rightarrow> nat \<Rightarrow> nat \<times> pop_state \<Rightarrow> nat \<times> pop_state" where
  "pop_tail2 g n s =
     (let (i, st) = s in
      if i + 2 \<le> n then
        let (twosA, one) = CSA (ones st) (g i) (g (i + 1));
            foursA = twos st AND twosA;
            two = twos st XOR twosA;
            eights = fours st AND foursA;
            four = fours st XOR foursA
        in (i + 2, \<lparr>tot8 = tot8 st + scast (pop eights), ones = one, twos = two, fours = four\<rparr>)
      else (i, st))"

definition pop_words :: "(nat \<Rightarrow> int64) \<Rightarrow> nat \<Rightarrow> nat \<Rightarrow> int64" where
  "pop_words g wordOffset numWords =
     (let n = wordOffset + numWords;
          (i, st) = pop_tail2 g n (pop_tail4 g n (pop_loop8 g n wordOffset pop_init));
          tot = (if i < n then scast (pop (g i)) else 0)
      in tot + (scast (push_bit 2 (pop (fours st)) + push_bit 1 (pop (twos st)) + pop (ones st))
                 + push_bit 3 (tot8 st)))"

definition pop_array :: "int64 list \<Rightarrow> nat \<Rightarrow> nat \<Rightarrow> int64" where
  "pop_array A = pop_words (\<lambda>i. A ! i)"

definition pop_intersect :: "int64 list \<Rightarrow> int64 list \<Rightarrow> nat \<Rightarrow> nat \<Rightarrow> int64" where
  "pop_intersect A B = pop_words (\<lambda>i. A ! i AND B ! i)"

definition pop_union :: "int64 list \<Rightarrow> int64 list \<Rightarrow> nat \<Rightarrow> nat \<Rightarrow> int64" where
  "pop_union A B = pop_words (\<lambda>i. A ! i OR B ! i)"

definition pop_andnot :: "int64 list \<Rightarrow> int64 list \<Rightarrow> nat \<Rightarrow> nat \<Rightarrow> int64" where
  "pop_andnot A B = pop_words (\<lambda>i. A ! i AND NOT (B ! i))"

definition pop_xor :: "int64 list \<Rightarrow> int64 list \<Rightarrow> nat \<Rightarrow> nat \<Rightarrow> int64" where
  "pop_xor A B = pop_words (\<lambda>i. A ! i XOR B ! i)"

text \<open>A carry-save adder keeps the weighted number of bits.\<close>

lemma CSA_count:
  assumes "CSA a b c = (h, l)"
  shows "2 * bit_count h + bit_count l = bit_count a + bit_count b + bit_count c"
proof -
  have "2 * of_bool (bit h i) + of_bool (bit l i) =
      (of_bool (bit a i) + of_bool (bit b i) + of_bool (bit c i) :: nat)" for i
    using assms by (auto simp: CSA_def Let_def bit_simps)
  then have "(\<Sum>i<64. 2 * of_bool (bit h i) + of_bool (bit l i)) =
      (\<Sum>i<64. of_bool (bit a i) + of_bool (bit b i) + of_bool (bit c i) :: nat)"
    by (simp only:)
  then show ?thesis
    by (simp add: bit_count_def sum.distrib sum_distrib_left del: sum_of_bool_eq)
qed

lemma half_add_count: "2 * bit_count (a AND b) + bit_count (a XOR b) = bit_count a + bit_count b" for a b :: int64
  using CSA_count [of a b 0 "a AND b" "a XOR b"] by (simp add: CSA_def)

text \<open>The number of set bits a state stands for, modulo the width of the counter.\<close>

definition pop_value :: "pop_state \<Rightarrow> int64" where
  "pop_value st = 8 * tot8 st + of_nat (4 * bit_count (fours st) + 2 * bit_count (twos st) + bit_count (ones st))"

lemma scast_of_nat_small: "m < 2 ^ 31 \<Longrightarrow> (scast (of_nat m :: int32) :: int64) = of_nat m"
proof -
  assume "m < 2 ^ 31"
  then have "sint (of_nat m :: int32) = int m"
    by (simp add: signed_of_nat signed_take_bit_int_eq_self)
  then show ?thesis
    by (metis of_int_of_nat_eq of_int_sint)
qed

lemma pop_of_nat: "pop x = of_nat (bit_count x)"
  by (simp flip: pop_bit_count)

lemma scast_pop: "(scast (pop x) :: int64) = of_nat (bit_count x)"
  using bit_count_le [of x] by (simp add: pop_of_nat scast_of_nat_small)

lemma pop_value_step:
  assumes "8 * bit_count e + 4 * bit_count f + 2 * bit_count t + bit_count u =
    4 * bit_count (fours st) + 2 * bit_count (twos st) + bit_count (ones st) + d"
  shows "pop_value \<lparr>tot8 = tot8 st + scast (pop e), ones = u, twos = t, fours = f\<rparr> = pop_value st + of_nat d"
proof -
  have "(of_nat (8 * bit_count e + 4 * bit_count f + 2 * bit_count t + bit_count u) :: int64) =
      of_nat (4 * bit_count (fours st) + 2 * bit_count (twos st) + bit_count (ones st) + d)"
    by (simp only: assms)
  then show ?thesis
    by (simp add: pop_value_def scast_pop algebra_simps)
qed

lemma sum_range_8: "(\<Sum>k = i..<i + 8. f k) = f i + f (i + 1) + f (i + 2) + f (i + 3) + f (i + 4) + f (i + 5) + f (i + 6) + f (i + 7)" for f :: "nat \<Rightarrow> nat"
  by (simp add: numeral_eq_Suc)

lemma pop_value_block8:
  "pop_value (pop_block8 g i st) = pop_value st + of_nat (\<Sum>k = i..<i + 8. bit_count (g k))"
proof -
  obtain tA oA where 1: "CSA (ones st) (g i) (g (i + 1)) = (tA, oA)" by fastforce
  obtain tB oB where 2: "CSA oA (g (i + 2)) (g (i + 3)) = (tB, oB)" by fastforce
  obtain fA wA where 3: "CSA (twos st) tA tB = (fA, wA)" by fastforce
  obtain tC oC where 4: "CSA oB (g (i + 4)) (g (i + 5)) = (tC, oC)" by fastforce
  obtain tD oD where 5: "CSA oC (g (i + 6)) (g (i + 7)) = (tD, oD)" by fastforce
  obtain fB wB where 6: "CSA wA tC tD = (fB, wB)" by fastforce
  obtain e f where 7: "CSA (fours st) fA fB = (e, f)" by fastforce
  show ?thesis
    unfolding pop_block8_def 1 2 3 4 5 6 7 Let_def prod.case
    by (rule pop_value_step)
      (use CSA_count [OF 1] CSA_count [OF 2] CSA_count [OF 3] CSA_count [OF 4] CSA_count [OF 5]
        CSA_count [OF 6] CSA_count [OF 7] sum_range_8 [of "\<lambda>k. bit_count (g k)" i] in linarith)
qed

lemma pop_value_loop8:
  assumes "pop_loop8 g n i st = (j, st')" "i \<le> n"
  shows "i \<le> j \<and> j \<le> n \<and> n < j + 8 \<and>
    pop_value st' = pop_value st + of_nat (\<Sum>k = i..<j. bit_count (g k))"
  using assms
proof (induction g n i st rule: pop_loop8.induct)
  case (1 g n i st)
  show ?case
  proof (cases "i + 8 \<le> n")
    case True
    with 1 have j: "i + 8 \<le> j" "j \<le> n" "n < j + 8"
      and v: "pop_value st' = pop_value (pop_block8 g i st) + of_nat (\<Sum>k = i + 8..<j. bit_count (g k))"
      by (simp_all add: pop_loop8.simps [of g n i st])
    have "(\<Sum>k = i..<j. bit_count (g k)) = (\<Sum>k = i..<i + 8. bit_count (g k)) + (\<Sum>k = i + 8..<j. bit_count (g k))"
      using j by (simp add: sum.atLeastLessThan_concat)
    with j v show ?thesis
      by (simp only: pop_value_block8) simp
  next
    case False
    with 1 show ?thesis by (auto simp: pop_loop8.simps [of g n i st])
  qed
qed

lemma pop_value_tail4:
  assumes "pop_tail4 g n (i, st) = (j, st')" "i \<le> n" "n < i + 8"
  shows "i \<le> j \<and> j \<le> n \<and> n < j + 4 \<and>
    pop_value st' = pop_value st + of_nat (\<Sum>k = i..<j. bit_count (g k))"
proof (cases "i + 4 \<le> n")
  case True
  obtain tA oA where 1: "CSA (ones st) (g i) (g (i + 1)) = (tA, oA)" by fastforce
  obtain tB oB where 2: "CSA oA (g (i + 2)) (g (i + 3)) = (tB, oB)" by fastforce
  obtain fA wA where 3: "CSA (twos st) tA tB = (fA, wA)" by fastforce
  have "pop_tail4 g n (i, st) =
      (i + 4, \<lparr>tot8 = tot8 st + scast (pop (fours st AND fA)), ones = oB, twos = wA, fours = fours st XOR fA\<rparr>)"
    unfolding pop_tail4_def Let_def prod.case 1 2 3 using True by (simp only: if_True)
  with assms(1) have j: "j = i + 4"
    and st': "st' = \<lparr>tot8 = tot8 st + scast (pop (fours st AND fA)), ones = oB, twos = wA, fours = fours st XOR fA\<rparr>"
    by simp_all
  have "(\<Sum>k = i..<i + 4. bit_count (g k)) = bit_count (g i) + bit_count (g (i + 1)) + bit_count (g (i + 2)) + bit_count (g (i + 3))"
    by (simp add: numeral_eq_Suc)
  then have "pop_value st' = pop_value st + of_nat (\<Sum>k = i..<j. bit_count (g k))"
    unfolding st' j
    by (intro pop_value_step)
      (use CSA_count [OF 1] CSA_count [OF 2] CSA_count [OF 3] half_add_count [of "fours st" fA] in linarith)
  with True assms j show ?thesis by simp
next
  case False
  with assms show ?thesis by (auto simp: pop_tail4_def)
qed

lemma pop_value_tail2:
  assumes "pop_tail2 g n (i, st) = (j, st')" "i \<le> n" "n < i + 4"
  shows "i \<le> j \<and> j \<le> n \<and> n < j + 2 \<and>
    pop_value st' = pop_value st + of_nat (\<Sum>k = i..<j. bit_count (g k))"
proof (cases "i + 2 \<le> n")
  case True
  obtain tA oA where 1: "CSA (ones st) (g i) (g (i + 1)) = (tA, oA)" by fastforce
  define fA where "fA = twos st AND tA"
  have "pop_tail2 g n (i, st) = (i + 2, \<lparr>tot8 = tot8 st + scast (pop (fours st AND fA)), ones = oA,
      twos = twos st XOR tA, fours = fours st XOR fA\<rparr>)"
    unfolding pop_tail2_def Let_def prod.case 1 fA_def using True by (simp only: if_True)
  with assms(1) have j: "j = i + 2"
    and st': "st' = \<lparr>tot8 = tot8 st + scast (pop (fours st AND fA)), ones = oA,
      twos = twos st XOR tA, fours = fours st XOR fA\<rparr>"
    by simp_all
  have "(\<Sum>k = i..<i + 2. bit_count (g k)) = bit_count (g i) + bit_count (g (i + 1))"
    by (simp add: numeral_eq_Suc)
  then have "pop_value st' = pop_value st + of_nat (\<Sum>k = i..<j. bit_count (g k))"
    unfolding st' j
    by (intro pop_value_step)
      (use CSA_count [OF 1] half_add_count [of "twos st" tA, folded fA_def] half_add_count [of "fours st" fA] in linarith)
  with True assms j show ?thesis by simp
next
  case False
  with assms show ?thesis by (auto simp: pop_tail2_def)
qed

lemma pop_sum_bound: "bit_count x \<le> 64 \<and> bit_count y \<le> 64 \<and> bit_count z \<le> 64" for x y z :: int64
  using bit_count_le [of x] bit_count_le [of y] bit_count_le [of z] by simp

lemma scast_pop_sum:
  "(scast (push_bit 2 (pop x) + push_bit 1 (pop y) + pop z) :: int64) =
     of_nat (4 * bit_count x + 2 * bit_count y + bit_count z)"
proof -
  have "push_bit 2 (pop x) + push_bit 1 (pop y) + pop z = (of_nat (4 * bit_count x + 2 * bit_count y + bit_count z) :: int32)"
    by (simp add: pop_of_nat push_bit_eq_mult)
  moreover have "4 * bit_count x + 2 * bit_count y + bit_count z < 2 ^ 31"
    using pop_sum_bound [of x y z] by simp
  ultimately show ?thesis
    by (simp only: scast_of_nat_small)
qed

lemma pop_words_count:
  "pop_words g off num = of_nat (\<Sum>k = off..<off + num. bit_count (g k))"
proof -
  define n where "n = off + num"
  obtain i1 s1 where 1: "pop_loop8 g n off pop_init = (i1, s1)" by fastforce
  obtain i2 s2 where 2: "pop_tail4 g n (i1, s1) = (i2, s2)" by fastforce
  obtain i3 s3 where 3: "pop_tail2 g n (i2, s2) = (i3, s3)" by fastforce
  have a: "off \<le> i1" "i1 \<le> n" "n < i1 + 8"
    and va: "pop_value s1 = pop_value pop_init + of_nat (\<Sum>k = off..<i1. bit_count (g k))"
    using pop_value_loop8 [OF 1] by (simp_all add: n_def)
  have b: "i1 \<le> i2" "i2 \<le> n" "n < i2 + 4"
    and vb: "pop_value s2 = pop_value s1 + of_nat (\<Sum>k = i1..<i2. bit_count (g k))"
    using pop_value_tail4 [OF 2 a(2,3)] by simp_all
  have c: "i2 \<le> i3" "i3 \<le> n" "n < i3 + 2"
    and vc: "pop_value s3 = pop_value s2 + of_nat (\<Sum>k = i2..<i3. bit_count (g k))"
    using pop_value_tail2 [OF 3 b(2,3)] by simp_all
  have last: "(if i3 < n then scast (pop (g i3)) else 0 :: int64) = of_nat (\<Sum>k = i3..<n. bit_count (g k))"
  proof (cases "i3 < n")
    case True
    with c have "n = Suc i3" by simp
    then show ?thesis by (simp add: scast_pop)
  qed (use c in simp)
  have "pop_words g off num = of_nat (\<Sum>k = i3..<n. bit_count (g k)) + pop_value s3"
    unfolding pop_words_def Let_def n_def [symmetric] 1 2 3 prod.case last scast_pop_sum
    by (simp add: pop_value_def push_bit_eq_mult)
  also have "\<dots> = of_nat ((\<Sum>k = off..<i1. bit_count (g k)) + (\<Sum>k = i1..<i2. bit_count (g k))
      + (\<Sum>k = i2..<i3. bit_count (g k)) + (\<Sum>k = i3..<n. bit_count (g k)))"
  proof -
    have "pop_value pop_init = 0" by (simp add: pop_value_def pop_init_def)
    then show ?thesis by (simp only: vc vb va of_nat_add) simp
  qed
  also have "(\<Sum>k = off..<i1. bit_count (g k)) + (\<Sum>k = i1..<i2. bit_count (g k))
      + (\<Sum>k = i2..<i3. bit_count (g k)) + (\<Sum>k = i3..<n. bit_count (g k)) = (\<Sum>k = off..<n. bit_count (g k))"
    using a b c by (simp add: sum.atLeastLessThan_concat)
  finally show ?thesis by (simp only: n_def)
qed

subsection \<open>Number of trailing zeros\<close>

definition ntzTable :: "nat list" where
  "ntzTable =
    [8, 0, 1, 0, 2, 0, 1, 0, 3, 0, 1, 0, 2, 0, 1, 0, 4, 0, 1, 0, 2, 0, 1, 0, 3, 0, 1, 0, 2, 0, 1, 0,
     5, 0, 1, 0, 2, 0, 1, 0, 3, 0, 1, 0, 2, 0, 1, 0, 4, 0, 1, 0, 2, 0, 1, 0, 3, 0, 1, 0, 2, 0, 1, 0,
     6, 0, 1, 0, 2, 0, 1, 0, 3, 0, 1, 0, 2, 0, 1, 0, 4, 0, 1, 0, 2, 0, 1, 0, 3, 0, 1, 0, 2, 0, 1, 0,
     5, 0, 1, 0, 2, 0, 1, 0, 3, 0, 1, 0, 2, 0, 1, 0, 4, 0, 1, 0, 2, 0, 1, 0, 3, 0, 1, 0, 2, 0, 1, 0,
     7, 0, 1, 0, 2, 0, 1, 0, 3, 0, 1, 0, 2, 0, 1, 0, 4, 0, 1, 0, 2, 0, 1, 0, 3, 0, 1, 0, 2, 0, 1, 0,
     5, 0, 1, 0, 2, 0, 1, 0, 3, 0, 1, 0, 2, 0, 1, 0, 4, 0, 1, 0, 2, 0, 1, 0, 3, 0, 1, 0, 2, 0, 1, 0,
     6, 0, 1, 0, 2, 0, 1, 0, 3, 0, 1, 0, 2, 0, 1, 0, 4, 0, 1, 0, 2, 0, 1, 0, 3, 0, 1, 0, 2, 0, 1, 0,
     5, 0, 1, 0, 2, 0, 1, 0, 3, 0, 1, 0, 2, 0, 1, 0, 4, 0, 1, 0, 2, 0, 1, 0, 3, 0, 1, 0, 2, 0, 1, 0]"

definition ntz64 :: "int64 \<Rightarrow> nat" where
  "ntz64 val =
     (let lower = (ucast val :: int32);
          lowByte = lower AND 0xff
      in if lowByte \<noteq> 0 then ntzTable ! unat lowByte
      else if lower \<noteq> 0 then
        (let lowByte = unsignedShift32 lower 8 AND 0xff
         in if lowByte \<noteq> 0 then ntzTable ! unat lowByte + 8
         else let lowByte = unsignedShift32 lower 16 AND 0xff
         in if lowByte \<noteq> 0 then ntzTable ! unat lowByte + 16
         else ntzTable ! unat (unsignedShift32 lower 24) + 24)
      else
        (let upper = (ucast (signed_drop_bit 32 val) :: int32);
             lowByte = upper AND 0xff
         in if lowByte \<noteq> 0 then ntzTable ! unat lowByte + 32
         else let lowByte = unsignedShift32 upper 8 AND 0xff
         in if lowByte \<noteq> 0 then ntzTable ! unat lowByte + 40
         else let lowByte = unsignedShift32 upper 16 AND 0xff
         in if lowByte \<noteq> 0 then ntzTable ! unat lowByte + 48
         else ntzTable ! unat (unsignedShift32 upper 24) + 56))"

definition ntz32 :: "int32 \<Rightarrow> nat" where
  "ntz32 val =
     (let lowByte = val AND 0xff
      in if lowByte \<noteq> 0 then ntzTable ! unat lowByte
      else let lowByte = unsignedShift32 val 8 AND 0xff
      in if lowByte \<noteq> 0 then ntzTable ! unat lowByte + 8
      else let lowByte = unsignedShift32 val 16 AND 0xff
      in if lowByte \<noteq> 0 then ntzTable ! unat lowByte + 16
      else ntzTable ! unat (unsignedShift32 val 24) + 24)"

text \<open>The two alternatives narrow the word in steps; \<open>n\<close> is the number of zeros passed.\<close>

definition ntz2 :: "int64 \<Rightarrow> nat" where
  "ntz2 x =
     (let n = 0; y = (ucast x :: int32);
          (n, y) = (if y = 0 then (n + 32, ucast (unsignedShift64 x 32)) else (n, y));
          (n, y) = (if y AND 0x0000ffff = 0 then (n + 16, unsignedShift32 y 16) else (n, y));
          (n, y) = (if y AND 0x000000ff = 0 then (n + 8, unsignedShift32 y 8) else (n, y))
      in ntzTable ! unat (y AND 0xff) + n)"

definition ntz3 :: "int64 \<Rightarrow> nat" where
  "ntz3 x =
     (let n = 1; y = (ucast x :: int32);
          (n, y) = (if y = 0 then (n + 32, ucast (unsignedShift64 x 32)) else (n, y));
          (n, y) = (if y AND 0x0000ffff = 0 then (n + 16, unsignedShift32 y 16) else (n, y));
          (n, y) = (if y AND 0x000000ff = 0 then (n + 8, unsignedShift32 y 8) else (n, y));
          (n, y) = (if y AND 0x0000000f = 0 then (n + 4, unsignedShift32 y 4) else (n, y));
          (n, y) = (if y AND 0x00000003 = 0 then (n + 2, unsignedShift32 y 2) else (n, y))
      in n - unat (y AND 1))"

text \<open>Reference: the position of the least set bit.\<close>

definition first_bit :: "'a::semiring_bit_operations \<Rightarrow> nat \<Rightarrow> bool" where
  "first_bit x n \<longleftrightarrow> bit x n \<and> (\<forall>j<n. \<not> bit x j)"

lemma first_bit_unique: "first_bit x m \<Longrightarrow> first_bit x n \<Longrightarrow> m = n"
  by (meson first_bit_def linorder_neqE_nat)

lemma first_bit_exists:
  assumes "x \<noteq> 0"
  shows "\<exists>n. first_bit x n"
proof -
  obtain i where "bit x i" using assms by (auto simp: bit_eq_iff)
  then have "first_bit x (LEAST n. bit x n)"
    unfolding first_bit_def by (metis LeastI not_less_Least)
  then show ?thesis ..
qed

lemma first_bit_less: "first_bit x n \<Longrightarrow> n < LENGTH('a)" for x :: "'a::len word"
  by (auto simp: first_bit_def dest: bit_imp_le_length)

lemma first_bit_drop:
  "first_bit (drop_bit k x) n \<Longrightarrow> (\<forall>j<k. \<not> bit x j) \<Longrightarrow> first_bit x (n + k)"
  unfolding first_bit_def bit_drop_bit_eq comp_def
  by (metis add.commute le_add_diff_inverse2 less_diff_conv2 not_le)

lemma first_bit_natI: "b mod 2 ^ Suc t = 2 ^ t \<Longrightarrow> first_bit b t" for b :: nat
proof -
  assume "b mod 2 ^ Suc t = 2 ^ t"
  then have "take_bit (Suc t) b = 2 ^ t" by (simp only: take_bit_eq_mod)
  then have "j < Suc t \<and> bit b j \<longleftrightarrow> j = t" for j
    by (metis bit_exp_iff bit_take_bit_iff possible_bit_nat)
  then show ?thesis unfolding first_bit_def by (metis less_SucI lessI less_irrefl)
qed

fun table_ok :: "nat \<Rightarrow> nat list \<Rightarrow> bool" where
  "table_ok b [] = True"
| "table_ok b (t # ts) = ((b = 0 \<or> t < 8 \<and> b mod 2 ^ Suc t = 2 ^ t) \<and> table_ok (Suc b) ts)"

lemma table_okD: "table_ok b ts \<Longrightarrow> i < length ts \<Longrightarrow> b + i \<noteq> 0 \<Longrightarrow>
    ts ! i < 8 \<and> (b + i) mod 2 ^ Suc (ts ! i) = 2 ^ (ts ! i)"
proof (induction b ts arbitrary: i rule: table_ok.induct)
  case (2 b t ts)
  show ?case
  proof (cases i)
    case (Suc j)
    with 2 show ?thesis by (auto dest: "2.IH" [of j])
  qed (use 2 in auto)
qed simp

lemma ntzTable_ok: "table_ok 0 ntzTable"
  unfolding ntzTable_def by simp

lemma length_ntzTable [simp]: "length ntzTable = 256"
  by (simp add: ntzTable_def)

lemma ntzTable_0 [simp]: "ntzTable ! 0 = 8"
  by (simp add: ntzTable_def)

lemma ntzTable_spec: "b < 256 \<Longrightarrow> b \<noteq> 0 \<Longrightarrow> ntzTable ! b < 8 \<and> first_bit b (ntzTable ! b)"
  using table_okD [OF ntzTable_ok, of b] by (auto intro: first_bit_natI)

lemma bit_low_byte: "bit (y AND 0xff) j \<longleftrightarrow> j < 8 \<and> bit y j" for y :: "'a::len word"
proof -
  have "y AND 0xff = take_bit 8 y" by (simp add: take_bit_eq_mask mask_eq_exp_minus_1)
  then show ?thesis by (simp add: bit_take_bit_iff)
qed

lemma low_byte_less: "unat (y AND 0xff) < 256" for y :: "'a::len word"
proof -
  have "y AND 0xff = take_bit 8 y" by (simp add: take_bit_eq_mask mask_eq_exp_minus_1)
  then have "unat (y AND 0xff) = take_bit 8 (unat y)" by (simp only: unsigned_take_bit_eq)
  then show ?thesis using take_bit_nat_less_exp [of 8 "unat y"] by simp
qed

lemma first_bit_byte:
  assumes "y AND 0xff \<noteq> 0"
  shows "first_bit y (ntzTable ! unat (y AND 0xff))"
proof -
  define b where "b = unat (y AND 0xff)"
  have "b \<noteq> 0" using assms by (simp add: b_def unat_gt_0)
  then have t: "ntzTable ! b < 8" "first_bit b (ntzTable ! b)"
    using ntzTable_spec [of b] low_byte_less [of y] by (simp_all add: b_def)
  have "bit b j \<longleftrightarrow> j < 8 \<and> bit y j" for j
    by (simp add: b_def bit_unsigned_iff bit_low_byte)
  with t show ?thesis unfolding first_bit_def b_def [symmetric] by auto
qed

lemma low_byte_0: "y AND 0xff = 0 \<Longrightarrow> \<forall>j<8. \<not> bit y j" for y :: "'a::len word"
  using bit_low_byte [of y] by simp

lemma first_byte_above:
  assumes "drop_bit k y AND 0xff \<noteq> 0" "\<forall>j<k. \<not> bit y j"
  shows "first_bit y (ntzTable ! unat (drop_bit k y AND 0xff) + k)"
  using first_bit_drop [OF first_bit_byte [OF assms(1)] assms(2)] .

lemma zeros_extend:
  "(\<forall>j<k. \<not> bit y j) \<Longrightarrow> drop_bit k y AND 0xff = 0 \<Longrightarrow> \<forall>j<k + 8. \<not> bit y j" for y :: "'a::len word"
  using low_byte_0 [of "drop_bit k y"] unfolding bit_drop_bit_eq comp_def
  by (metis add.commute less_diff_conv2 le_add_diff_inverse not_le)

lemma ushr32_literals:
  "unsignedShift32 x 2 = drop_bit 2 x" "unsignedShift32 x 4 = drop_bit 4 x"
  "unsignedShift32 x 8 = drop_bit 8 x" "unsignedShift32 x 16 = drop_bit 16 x" "unsignedShift32 x 24 = drop_bit 24 x"
  by (simp_all add: unsignedShift32_drop)

lemma ushr64_32: "unsignedShift64 x 32 = drop_bit 32 x"
  by (simp add: unsignedShift64_drop)

lemma drop_24_low: "drop_bit 24 x AND 0xff = drop_bit 24 x" for x :: int32
  by (intro bit_word_eqI, simp only: bit_low_byte) (auto simp: bit_drop_bit_eq dest: bit_imp_le_length)

lemma ntz32_first_bit: "val \<noteq> 0 \<Longrightarrow> first_bit val (ntz32 val)"
proof -
  assume nz: "val \<noteq> 0"
  have z0: "\<forall>j<0. \<not> bit val j" by simp
  have s0: "drop_bit 0 val = val" by simp
  note step = zeros_extend [where y = val]
  show ?thesis
  proof (cases "val AND 0xff = 0")
    case b0: True
    from step [OF z0] b0 have z8: "\<forall>j<8. \<not> bit val j" by simp
    show ?thesis
    proof (cases "drop_bit 8 val AND 0xff = 0")
      case b8: True
      from step [OF z8 b8] have z16: "\<forall>j<16. \<not> bit val j" by simp
      show ?thesis
      proof (cases "drop_bit 16 val AND 0xff = 0")
        case b16: True
        from step [OF z16 b16] have z24: "\<forall>j<24. \<not> bit val j" by simp
        have "drop_bit 24 val AND 0xff \<noteq> 0"
        proof
          assume "drop_bit 24 val AND 0xff = 0"
          from step [OF z24 this] have "val = 0" by (intro bit_word_eqI) auto
          with nz show False by simp
        qed
        from first_byte_above [OF this z24] show ?thesis
          by (simp add: ntz32_def Let_def b0 b8 b16 ushr32_literals drop_24_low)
      next
        case False
        from first_byte_above [OF this z16] show ?thesis
          by (simp add: ntz32_def Let_def b0 b8 False ushr32_literals)
      qed
    next
      case False
      from first_byte_above [OF this z8] show ?thesis
        by (simp add: ntz32_def Let_def b0 False ushr32_literals)
    qed
  next
    case False
    from first_bit_byte [OF this] show ?thesis by (simp add: ntz32_def Let_def False)
  qed
qed

lemma ntz64_by_halves:
  "ntz64 val = (if (ucast val :: int32) \<noteq> 0 then ntz32 (ucast val) else ntz32 (ucast (signed_drop_bit 32 val)) + 32)"
proof -
  have "(ucast val :: int32) AND 0xff \<noteq> 0 \<Longrightarrow> (ucast val :: int32) \<noteq> 0" by auto
  then show ?thesis
    unfolding ntz64_def ntz32_def Let_def by (auto simp: add.assoc)
qed

lemma bit_low_half: "bit (ucast val :: int32) j \<longleftrightarrow> j < 32 \<and> bit (val :: int64) j"
  by (auto simp: bit_simps)

lemma bit_high_half: "bit (ucast (signed_drop_bit 32 val) :: int32) j \<longleftrightarrow> bit (val :: int64) (j + 32)"
  by (auto simp: bit_simps add.commute dest: bit_imp_le_length)

lemma first_bit_halves:
  assumes "val \<noteq> (0 :: int64)"
  shows "(ucast val :: int32) \<noteq> 0 \<Longrightarrow> first_bit (ucast val :: int32) n \<Longrightarrow> first_bit val n"
    and "(ucast val :: int32) = 0 \<Longrightarrow> (ucast (signed_drop_bit 32 val) :: int32) \<noteq> 0"
    and "(ucast val :: int32) = 0 \<Longrightarrow> first_bit (ucast (signed_drop_bit 32 val) :: int32) n \<Longrightarrow> first_bit val (n + 32)"
proof -
  show "first_bit (ucast val :: int32) n \<Longrightarrow> first_bit val n"
    by (auto simp: first_bit_def bit_low_half)
  have z: "\<forall>j<32. \<not> bit val j" if "(ucast val :: int32) = 0"
    using that bit_low_half [of val] by simp
  show "(ucast (signed_drop_bit 32 val) :: int32) \<noteq> 0" if 0: "(ucast val :: int32) = 0"
  proof
    assume "(ucast (signed_drop_bit 32 val) :: int32) = 0"
    then have "\<not> bit val (j + 32)" for j by (simp flip: bit_high_half)
    with z [OF 0] have "\<not> bit val j" for j
      by (metis le_add_diff_inverse2 not_le)
    then have "val = 0" by (intro bit_word_eqI) simp
    with assms show False by simp
  qed
  show "first_bit (ucast (signed_drop_bit 32 val) :: int32) n \<Longrightarrow> first_bit val (n + 32)"
    if 0: "(ucast val :: int32) = 0"
    using z [OF 0] unfolding first_bit_def bit_high_half
    by (metis add_less_cancel_right le_add_diff_inverse2 not_le)
qed

lemma ntz64_first_bit: "val \<noteq> 0 \<Longrightarrow> first_bit val (ntz64 val)"
  unfolding ntz64_by_halves using first_bit_halves ntz32_first_bit by simp

text \<open>
  The narrowing searches: the first bit of \<open>x\<close> is \<open>n\<close> above the first bit of \<open>y\<close>, which
  is among the low \<open>m\<close> bits of \<open>y\<close>.
\<close>

definition located :: "nat \<Rightarrow> int64 \<Rightarrow> nat \<Rightarrow> int32 \<Rightarrow> bool" where
  "located m x n y \<longleftrightarrow> (\<exists>j<m. bit y j) \<and> (\<forall>k. first_bit y k \<longrightarrow> first_bit x (k + n))"

lemma located_step:
  assumes "located (h + h) x n y" "m = mask h"
  shows "y AND m = 0 \<Longrightarrow> located h x (n + h) (drop_bit h y)"
    and "y AND m \<noteq> 0 \<Longrightarrow> located h x n y"
proof -
  have low: "y AND m = 0 \<longleftrightarrow> (\<forall>j<h. \<not> bit y j)"
  proof -
    have "bit y j \<Longrightarrow> j < 32" for j using bit_imp_le_length [of y j] by simp
    then show ?thesis unfolding assms(2) by (auto simp: bit_eq_iff bit_simps)
  qed
  show "located h x (n + h) (drop_bit h y)" if "y AND m = 0"
  proof -
    have z: "\<forall>j<h. \<not> bit y j" using that low by simp
    from assms(1) obtain j where j: "j < h + h" "bit y j" by (auto simp: located_def)
    with z have "h \<le> j" by (metis not_le)
    with j have "j - h < h" "bit (drop_bit h y) (j - h)" by (simp_all add: bit_drop_bit_eq)
    moreover have "first_bit x (k + (n + h))" if "first_bit (drop_bit h y) k" for k
      using assms(1) first_bit_drop [OF that z] unfolding located_def by (metis add.assoc add.commute)
    ultimately show ?thesis unfolding located_def by blast
  qed
  show "located h x n y" if "y AND m \<noteq> 0"
    using that low assms(1) by (auto simp: located_def)
qed

lemma located_start:
  assumes "x \<noteq> 0"
  shows "(ucast x :: int32) = 0 \<Longrightarrow> located 32 x 32 (ucast (unsignedShift64 x 32))"
    and "(ucast x :: int32) \<noteq> 0 \<Longrightarrow> located 32 x 0 (ucast x)"
proof -
  have some: "\<exists>j<32. bit y j" if "y \<noteq> 0" for y :: int32
    using first_bit_exists [OF that] first_bit_less by (fastforce simp: first_bit_def)
  have "(ucast (unsignedShift64 x 32) :: int32) = ucast (signed_drop_bit 32 x)"
    by (intro bit_word_eqI) (simp only: bit_high_half, auto simp: ushr64_32 bit_simps add.commute dest: bit_imp_le_length)
  then show "(ucast x :: int32) = 0 \<Longrightarrow> located 32 x 32 (ucast (unsignedShift64 x 32))"
    using first_bit_halves(2,3) [OF assms] some by (simp add: located_def)
  show "(ucast x :: int32) \<noteq> 0 \<Longrightarrow> located 32 x 0 (ucast x)"
    using first_bit_halves(1) [OF assms] some by (simp add: located_def)
qed

lemma narrow_masks:
  "(0x0000ffff :: int32) = mask 16" "(0x000000ff :: int32) = mask 8"
  "(0x0000000f :: int32) = mask 4" "(0x00000003 :: int32) = mask 2"
  by (simp_all add: mask_eq_exp_minus_1)

lemma located_narrow:
  assumes "located (h + h) x n y" "m = mask h" "unsignedShift32 y s = drop_bit h y"
  obtains n' y' where "(if y AND m = 0 then (n + h, unsignedShift32 y s) else (n, y)) = (n', y')"
    and "located h x n' y'"
  using located_step [OF assms(1,2)] assms(3) by (cases "y AND m = 0") auto

lemma located_narrow_Suc:
  assumes "located (h + h) x n y" "m = mask h" "unsignedShift32 y s = drop_bit h y"
  obtains n' y' where "(if y AND m = 0 then (Suc n + h, unsignedShift32 y s) else (Suc n, y)) = (Suc n', y')"
    and "located h x n' y'"
  using located_step [OF assms(1,2)] assms(3) by (cases "y AND m = 0") auto

lemma ntz2_first_bit:
  assumes "x \<noteq> 0"
  shows "first_bit x (ntz2 x)"
proof -
  obtain n1 y1 where 1: "(if (ucast x :: int32) = 0 then (0 + 32, ucast (unsignedShift64 x 32)) else (0 :: nat, ucast x)) = (n1, y1)"
    and l1: "located (16 + 16) x n1 y1"
    using located_start [OF assms] by (cases "(ucast x :: int32) = 0") auto
  obtain n2 y2 where 2: "(if y1 AND 0x0000ffff = 0 then (n1 + 16, unsignedShift32 y1 16) else (n1, y1)) = (n2, y2)"
    and l2: "located (8 + 8) x n2 y2"
    using located_narrow [OF l1 narrow_masks(1) ushr32_literals(4)] by auto
  obtain n3 y3 where 3: "(if y2 AND 0x000000ff = 0 then (n2 + 8, unsignedShift32 y2 8) else (n2, y2)) = (n3, y3)"
    and l3: "located 8 x n3 y3"
    using located_narrow [OF l2 narrow_masks(2) ushr32_literals(3)] by auto
  from l3 have "y3 AND 0xff \<noteq> 0" using low_byte_0 [of y3] by (auto simp: located_def)
  from first_bit_byte [OF this] l3 have "first_bit x (ntzTable ! unat (y3 AND 0xff) + n3)"
    by (simp add: located_def)
  then show ?thesis unfolding ntz2_def Let_def 1 prod.case 2 3 .
qed

lemma ntz3_first_bit:
  assumes "x \<noteq> 0"
  shows "first_bit x (ntz3 x)"
proof -
  obtain n1 y1 where 1: "(if (ucast x :: int32) = 0 then (1 + 32, ucast (unsignedShift64 x 32)) else (1 :: nat, ucast x)) = (Suc n1, y1)"
    and l1: "located (16 + 16) x n1 y1"
    using located_start [OF assms] by (cases "(ucast x :: int32) = 0") auto
  obtain n2 y2 where 2: "(if y1 AND 0x0000ffff = 0 then (Suc n1 + 16, unsignedShift32 y1 16) else (Suc n1, y1)) = (Suc n2, y2)"
    and l2: "located (8 + 8) x n2 y2"
    using located_narrow_Suc [OF l1 narrow_masks(1) ushr32_literals(4)] by auto
  obtain n3 y3 where 3: "(if y2 AND 0x000000ff = 0 then (Suc n2 + 8, unsignedShift32 y2 8) else (Suc n2, y2)) = (Suc n3, y3)"
    and l3: "located (4 + 4) x n3 y3"
    using located_narrow_Suc [OF l2 narrow_masks(2) ushr32_literals(3)] by auto
  obtain n4 y4 where 4: "(if y3 AND 0x0000000f = 0 then (Suc n3 + 4, unsignedShift32 y3 4) else (Suc n3, y3)) = (Suc n4, y4)"
    and l4: "located (2 + 2) x n4 y4"
    using located_narrow_Suc [OF l3 narrow_masks(3) ushr32_literals(2)] by auto
  obtain n5 y5 where 5: "(if y4 AND 0x00000003 = 0 then (Suc n4 + 2, unsignedShift32 y4 2) else (Suc n4, y4)) = (Suc n5, y5)"
    and l5: "located 2 x n5 y5"
    using located_narrow_Suc [OF l4 narrow_masks(4) ushr32_literals(1)] by auto
  have "first_bit x (Suc n5 - unat (y5 AND 1))"
  proof (cases "bit y5 0")
    case True
    then have "first_bit y5 0" by (simp add: first_bit_def)
    with l5 have "first_bit x n5" unfolding located_def by (metis add_0)
    moreover have "y5 AND 1 = 1" using True by (simp add: and_one_eq mod2_eq_if bit_0)
    ultimately show ?thesis by simp
  next
    case False
    with l5 have "bit y5 1" by (auto simp: located_def less_2_cases_iff)
    with False have "first_bit y5 1" by (simp add: first_bit_def)
    with l5 have "first_bit x (Suc n5)" unfolding located_def by (metis Suc_eq_plus1_left)
    moreover have "y5 AND 1 = 0" using False by (simp add: and_one_eq mod2_eq_if bit_0)
    ultimately show ?thesis by simp
  qed
  then show ?thesis unfolding ntz3_def Let_def 1 prod.case 2 3 4 5 .
qed

subsection \<open>Powers of two\<close>

definition isPowerOfTwo32 :: "int32 \<Rightarrow> bool" where
  "isPowerOfTwo32 v \<longleftrightarrow> v AND (v - 1) = 0"

definition isPowerOfTwo64 :: "int64 \<Rightarrow> bool" where
  "isPowerOfTwo64 v \<longleftrightarrow> v AND (v - 1) = 0"

definition nextHighestPowerOfTwo32 :: "int32 \<Rightarrow> int32" where
  "nextHighestPowerOfTwo32 v =
     (let v = v - 1;
          v = v OR signed_drop_bit 1 v;
          v = v OR signed_drop_bit 2 v;
          v = v OR signed_drop_bit 4 v;
          v = v OR signed_drop_bit 8 v;
          v = v OR signed_drop_bit 16 v
      in v + 1)"

definition nextHighestPowerOfTwo64 :: "int64 \<Rightarrow> int64" where
  "nextHighestPowerOfTwo64 v =
     (let v = v - 1;
          v = v OR signed_drop_bit 1 v;
          v = v OR signed_drop_bit 2 v;
          v = v OR signed_drop_bit 4 v;
          v = v OR signed_drop_bit 8 v;
          v = v OR signed_drop_bit 16 v;
          v = v OR signed_drop_bit 32 v
      in v + 1)"

text \<open>\<open>v AND (v - 1)\<close> removes the least set bit.\<close>

lemma and_pred_removes_first:
  fixes v :: "'a::len word"
  assumes "first_bit v n"
  shows "v AND (v - 1) = unset_bit n v"
proof -
  have n: "n < LENGTH('a)" using assms by (rule first_bit_less)
  have odd: "bit v n" using assms by (simp add: first_bit_def)
  define u where "u = unset_bit n v"
  have bu: "bit u j \<longleftrightarrow> bit v j \<and> n < j" for j
    using assms by (auto simp: u_def bit_simps first_bit_def) (metis linorder_neqE_nat)
  have dis: "u AND mask n = 0" and dis': "u AND 2 ^ n = 0"
    by (intro bit_word_eqI; simp add: bit_and_iff bit_mask_iff bit_exp_iff bu)+
  have "v = u + 2 ^ n"
  proof -
    have "v = u OR 2 ^ n"
    proof (rule bit_word_eqI)
      fix j assume "j < LENGTH('a)"
      show "bit v j \<longleftrightarrow> bit (u OR 2 ^ n) j"
        using n odd assms unfolding bit_or_iff bit_exp_iff bu first_bit_def
        by (cases j n rule: linorder_cases) auto
    qed
    with dis' show ?thesis by (simp add: disjunctive_add_eq_or)
  qed
  then have "v - 1 = u + mask n"
    by (simp add: mask_eq_exp_minus_1)
  also have "\<dots> = u OR mask n"
    using dis by (simp add: disjunctive_add_eq_or)
  finally show ?thesis
    unfolding u_def [symmetric]
    using assms by (intro bit_word_eqI) (auto simp: bit_simps bu first_bit_def)
qed

lemma and_pred_eq_0_iff: "v AND (v - 1) = 0 \<longleftrightarrow> v = 0 \<or> (\<exists>k<LENGTH('a). v = 2 ^ k)" for v :: "'a::len word"
proof (cases "v = 0")
  case False
  then obtain n where n: "first_bit v n" using first_bit_exists by blast
  have "unset_bit n v = 0 \<longleftrightarrow> v = 2 ^ n"
  proof
    assume *: "unset_bit n v = 0"
    have "bit (unset_bit n v) j \<longleftrightarrow> bit v j \<and> n \<noteq> j" for j
      by (auto simp: bit_unset_bit_iff)
    then have "bit v j \<longleftrightarrow> j = n" for j
      using n unfolding * first_bit_def by auto
    then show "v = 2 ^ n"
      using first_bit_less [OF n] by (intro bit_word_eqI) (auto simp: bit_simps)
  next
    assume "v = 2 ^ n"
    then show "unset_bit n v = 0"
      by (intro bit_word_eqI) (auto simp: bit_simps)
  qed
  moreover have "v = 2 ^ k \<Longrightarrow> k < LENGTH('a) \<Longrightarrow> k = n" for k
    using n by (auto simp: first_bit_def bit_simps)
  ultimately show ?thesis
    using False first_bit_less [OF n] by (auto simp: and_pred_removes_first [OF n])
qed simp

text \<open>Smearing: after the steps up to \<open>h\<close>, a bit is set when one of the \<open>2 * h\<close> bits from it on was.\<close>

definition smeared :: "nat \<Rightarrow> 'a::len word \<Rightarrow> 'a word \<Rightarrow> bool" where
  "smeared d w v \<longleftrightarrow> (\<forall>j. bit v j \<longleftrightarrow> (\<exists>i. j \<le> i \<and> i < j + d \<and> bit w i))"

lemma smeared_start: "smeared 1 w w"
  by (auto simp: smeared_def less_Suc_eq_le dest: le_antisym)

lemma smeared_step:
  fixes v w :: "'a::len word"
  assumes "smeared d w v" "\<not> bit w (LENGTH('a) - 1)" "m = d + d"
  shows "smeared m w (v OR signed_drop_bit d v)"
proof -
  have "\<not> bit v (LENGTH('a) - 1)"
  proof
    assume "bit v (LENGTH('a) - 1)"
    with assms(1) obtain i where "LENGTH('a) - 1 \<le> i" "bit w i" by (auto simp: smeared_def)
    with assms(2) show False
      by (metis One_nat_def Suc_pred bit_imp_le_length le_antisym len_gt_0 less_Suc_eq_le)
  qed
  then have "signed_drop_bit d v = drop_bit d v"
    by (intro bit_word_eqI) (auto simp: bit_simps not_le dest: bit_imp_le_length)
  then have "bit (v OR signed_drop_bit d v) j \<longleftrightarrow> bit v j \<or> bit v (j + d)" for j
    by (simp add: bit_simps add.commute)
  moreover have "j \<le> i \<and> i < j + (d + d) \<longleftrightarrow> (j \<le> i \<and> i < j + d) \<or> (j + d \<le> i \<and> i < j + d + d)" for i j
    by auto
  ultimately show ?thesis
    using assms(1) unfolding smeared_def assms(3) by (simp only: conj_disj_distribR ex_disj_distrib flip: conj_assoc) blast
qed

lemma smeared_all:
  fixes v w :: "'a::len word"
  assumes "smeared LENGTH('a) w v" "w \<noteq> 0"
  obtains n where "bit w n" "\<forall>i>n. \<not> bit w i" "v = mask (Suc n)"
proof -
  obtain i where "bit w i" using first_bit_exists [OF assms(2)] by (auto simp: first_bit_def)
  define n where "n = Greatest (bit w)"
  have bound: "\<And>y. bit w y \<Longrightarrow> y \<le> LENGTH('a)"
    by (meson bit_imp_le_length less_imp_le)
  have n1: "bit w n"
    unfolding n_def by (rule GreatestI_nat [of "bit w" i, OF \<open>bit w i\<close> bound])
  have n2: "j \<le> n" if "bit w j" for j
    unfolding n_def by (rule Greatest_le_nat [of "bit w" j, OF that bound])
  have iff: "bit v j \<longleftrightarrow> (\<exists>i. j \<le> i \<and> i < j + LENGTH('a) \<and> bit w i)" for j
    using assms(1) by (simp only: smeared_def)
  have vn: "bit v j \<longleftrightarrow> j \<le> n" for j
  proof
    assume "bit v j"
    then obtain i where "j \<le> i" "bit w i" unfolding iff by auto
    then show "j \<le> n" using n2 [of i] by simp
  next
    assume "j \<le> n"
    then show "bit v j"
      unfolding iff using n1 bit_imp_le_length [OF n1] by (intro exI [of _ n]) simp
  qed
  have "v = mask (Suc n)"
    by (rule bit_word_eqI) (simp only: vn bit_mask_iff possible_bit_word less_Suc_eq_le, blast)
  moreover have "\<forall>i>n. \<not> bit w i" using n2 by (meson not_le)
  ultimately show thesis using n1 that by blast
qed

lemma top_bit_bounds:
  fixes w :: "'a::len word"
  assumes "bit w n" "\<forall>i>n. \<not> bit w i"
  shows "2 ^ n \<le> unat w" and "unat w < 2 ^ Suc n"
proof -
  have "take_bit (Suc n) w = w"
    using assms(2) by (intro bit_word_eqI) (auto simp: bit_simps less_Suc_eq_le, meson not_le)
  then have "take_bit (Suc n) (unat w) = unat w"
    by (metis unsigned_take_bit_eq)
  then show "unat w < 2 ^ Suc n" by (simp only: take_bit_nat_eq_self_iff)
  show "2 ^ n \<le> unat w"
  proof (rule ccontr)
    assume "\<not> 2 ^ n \<le> unat w"
    then have "take_bit n (unat w) = unat w" by (simp add: take_bit_nat_eq_self)
    then have "\<not> bit (unat w) n" by (metis bit_take_bit_iff less_irrefl)
    with assms(1) show False by (simp add: bit_unsigned_iff)
  qed
qed

lemma unat_exp: "k < LENGTH('a) \<Longrightarrow> unat (2 ^ k :: 'a::len word) = 2 ^ k"
  by (intro bit_eqI) (auto simp: bit_unsigned_iff bit_exp_iff)

text \<open>The result of the smearing plus one is the least power of two above \<open>w\<close>.\<close>

lemma smeared_next_power:
  fixes v w :: "'a::len word"
  assumes "smeared LENGTH('a) w v" "w \<noteq> 0" "unat w < 2 ^ (LENGTH('a) - 1)"
  shows "\<exists>k. unat (v + 1) = 2 ^ k \<and> unat w < 2 ^ k \<and> (\<forall>j. unat w < 2 ^ j \<longrightarrow> k \<le> j)"
proof -
  obtain n where n: "bit w n" "\<forall>i>n. \<not> bit w i" and v: "v = mask (Suc n)"
    using smeared_all [OF assms(1,2)] .
  note b = top_bit_bounds [OF n]
  have "(2 :: nat) ^ n < 2 ^ (LENGTH('a) - 1)" using b(1) assms(3) by (rule le_less_trans)
  then have "n < LENGTH('a) - 1" by simp
  then have "Suc n < LENGTH('a)" by simp
  moreover have "v + 1 = 2 ^ Suc n" by (simp add: v mask_eq_exp_minus_1 del: power_Suc)
  ultimately have "unat (v + 1) = 2 ^ Suc n" by (simp add: unat_exp del: power_Suc)
  moreover have "Suc n \<le> j" if "unat w < 2 ^ j" for j
  proof -
    have "(2 :: nat) ^ n < 2 ^ j" using b(1) that by (rule le_less_trans)
    then show ?thesis by simp
  qed
  ultimately show ?thesis using b(2) by blast
qed

lemma next_power_of_pred:
  fixes v r :: "'a::len word"
  assumes "smeared LENGTH('a) (v - 1) r" "0 < unat v" "unat v \<le> 2 ^ (LENGTH('a) - 2)" "2 \<le> LENGTH('a)"
  shows "\<exists>k. unat (r + 1) = 2 ^ k \<and> unat v \<le> 2 ^ k \<and> (\<forall>j. unat v \<le> 2 ^ j \<longrightarrow> k \<le> j)"
proof (cases "v = 1")
  case True
  with assms(1) have "r = 0" by (intro bit_word_eqI) (simp add: smeared_def)
  then show ?thesis using True by (intro exI [of _ 0]) simp
next
  case False
  have "v \<noteq> 0" using assms(2) by (simp add: unat_gt_0)
  then have p: "unat (v - 1) = unat v - 1" by (simp add: unat_minus_one)
  have "v - 1 \<noteq> 0" using False by simp
  moreover have "unat (v - 1) < 2 ^ (LENGTH('a) - 1)"
  proof -
    have "(2 :: nat) ^ (LENGTH('a) - 2) \<le> 2 ^ (LENGTH('a) - 1)" by simp
    with assms(2,3) p show ?thesis by linarith
  qed
  ultimately obtain k where k: "unat (r + 1) = 2 ^ k" "unat (v - 1) < 2 ^ k" "\<forall>j. unat (v - 1) < 2 ^ j \<longrightarrow> k \<le> j"
    using smeared_next_power [OF assms(1)] by blast
  have "unat (v - 1) < m \<longleftrightarrow> unat v \<le> m" if "0 < m" for m
    using assms(2) p by linarith
  with k show ?thesis by (intro exI [of _ k]) simp
qed

lemma top_clear:
  fixes v :: "'a::len word"
  assumes "0 < unat v" "unat v \<le> 2 ^ (LENGTH('a) - 2)" "2 \<le> LENGTH('a)"
  shows "\<not> bit (v - 1) (LENGTH('a) - 1)"
proof
  assume "bit (v - 1) (LENGTH('a) - 1)"
  moreover have "\<not> bit (v - 1) (LENGTH('a) - 1)" if "unat (v - 1) < 2 ^ (LENGTH('a) - 1)"
  proof -
    have "take_bit (LENGTH('a) - 1) (unat (v - 1)) = unat (v - 1)"
      using that by (rule take_bit_nat_eq_self)
    then have "\<not> bit (unat (v - 1)) (LENGTH('a) - 1)" by (metis bit_take_bit_iff less_irrefl)
    then show ?thesis by (simp add: bit_unsigned_iff)
  qed
  ultimately have "\<not> unat (v - 1) < 2 ^ (LENGTH('a) - 1)" by blast
  moreover have "unat (v - 1) = unat v - 1"
    using assms(1) by (simp add: unat_minus_one unat_gt_0)
  moreover have "(2 :: nat) ^ (LENGTH('a) - 2) \<le> 2 ^ (LENGTH('a) - 1)" by simp
  ultimately show False using assms(1,2) by linarith
qed

lemma double_facts: "1 + 1 = (2 :: nat)" "2 + 2 = (4 :: nat)" "4 + 4 = (8 :: nat)" "8 + 8 = (16 :: nat)"
    "16 + 16 = (32 :: nat)" "32 + 32 = (64 :: nat)"
  by simp_all

lemma nextHighestPowerOfTwo32_least:
  assumes "0 < unat v" "unat v \<le> 2 ^ 30"
  shows "\<exists>k. unat (nextHighestPowerOfTwo32 v) = 2 ^ k \<and> unat v \<le> 2 ^ k \<and> (\<forall>j. unat v \<le> 2 ^ j \<longrightarrow> k \<le> j)"
proof -
  have top: "\<not> bit (v - 1) (LENGTH(32) - 1)" using assms by (intro top_clear) simp_all
  note s2 = smeared_step [OF smeared_start top, of 2, unfolded double_facts, OF refl]
  note s4 = smeared_step [OF s2 top, of 4, unfolded double_facts, OF refl]
  note s8 = smeared_step [OF s4 top, of 8, unfolded double_facts, OF refl]
  note s16 = smeared_step [OF s8 top, of 16, unfolded double_facts, OF refl]
  note s32 = smeared_step [OF s16 top, of 32, unfolded double_facts, OF refl]
  from s32 assms show ?thesis
    unfolding nextHighestPowerOfTwo32_def Let_def by (intro next_power_of_pred) simp_all
qed

lemma nextHighestPowerOfTwo64_least:
  assumes "0 < unat v" "unat v \<le> 2 ^ 62"
  shows "\<exists>k. unat (nextHighestPowerOfTwo64 v) = 2 ^ k \<and> unat v \<le> 2 ^ k \<and> (\<forall>j. unat v \<le> 2 ^ j \<longrightarrow> k \<le> j)"
proof -
  have top: "\<not> bit (v - 1) (LENGTH(64) - 1)" using assms by (intro top_clear) simp_all
  note s2 = smeared_step [OF smeared_start top, of 2, unfolded double_facts, OF refl]
  note s4 = smeared_step [OF s2 top, of 4, unfolded double_facts, OF refl]
  note s8 = smeared_step [OF s4 top, of 8, unfolded double_facts, OF refl]
  note s16 = smeared_step [OF s8 top, of 16, unfolded double_facts, OF refl]
  note s32 = smeared_step [OF s16 top, of 32, unfolded double_facts, OF refl]
  note s64 = smeared_step [OF s32 top, of 64, unfolded double_facts, OF refl]
  from s64 assms show ?thesis
    unfolding nextHighestPowerOfTwo64_def Let_def by (intro next_power_of_pred) simp_all
qed

lemma power_result:
  fixes r :: "'a::len word"
  assumes "\<exists>k. unat r = 2 ^ k \<and> m \<le> 2 ^ k \<and> (\<forall>j. m \<le> 2 ^ j \<longrightarrow> k \<le> j)"
  shows "unat r = (LEAST p. \<exists>k. p = 2 ^ k \<and> m \<le> p) \<and> r AND (r - 1) = 0"
proof -
  from assms obtain k where k: "unat r = 2 ^ k" "m \<le> 2 ^ k" "\<forall>j. m \<le> 2 ^ j \<longrightarrow> k \<le> j"
    by blast
  have "unat r = (LEAST p. \<exists>k. p = 2 ^ k \<and> m \<le> p)"
    by (rule Least_equality [symmetric]) (use k in auto)
  moreover have "r AND (r - 1) = 0"
  proof -
    have "(2 :: nat) ^ k < 2 ^ LENGTH('a)" by (metis k(1) unsigned_less)
    then have "k < LENGTH('a)" by simp
    moreover from this k(1) have "r = 2 ^ k" by (metis unat_exp word_unat_eq_iff)
    ultimately show ?thesis by (auto simp: and_pred_eq_0_iff)
  qed
  ultimately show ?thesis by blast
qed

subsection \<open>Properties\<close>

text \<open>
  C25. \<^verbatim>\<open>BitUtil::pop\<close> counts: for every 64-bit word the SWAR computation returns the
  number of its set bits.
\<close>

theorem pop_counts_set_bits: "unat (pop x) = card {i. bit x i}"
  by (simp only: pop_bit_count bit_count_card)

text \<open>
  C26. The five carry-save array counts are exact: each returns, modulo the width of its
  64-bit result, the number of set bits of the words it combines, for every range of words inside the arrays
  (so for every remainder of the length modulo the unrolling by eight, four and two).
\<close>

theorem pop_arrays_count_set_bits:
  assumes "off + n \<le> length A" "off + n \<le> length B" "off + n < 2 ^ 31"
  shows "pop_array A off n = of_nat (\<Sum>k = off..<off + n. card {i. bit (A ! k) i}) \<and>
   pop_intersect A B off n = of_nat (\<Sum>k = off..<off + n. card {i. bit (A ! k) i \<and> bit (B ! k) i}) \<and>
   pop_union A B off n = of_nat (\<Sum>k = off..<off + n. card {i. bit (A ! k) i \<or> bit (B ! k) i}) \<and>
   pop_andnot A B off n = of_nat (\<Sum>k = off..<off + n. card {i. bit (A ! k) i \<and> \<not> bit (B ! k) i}) \<and>
   pop_xor A B off n = of_nat (\<Sum>k = off..<off + n. card {i. bit (A ! k) i \<noteq> bit (B ! k) i})"
proof -
  have "{i. bit (A ! k AND B ! k) i} = {i. bit (A ! k) i \<and> bit (B ! k) i}"
    and "{i. bit (A ! k OR B ! k) i} = {i. bit (A ! k) i \<or> bit (B ! k) i}"
    and "{i. bit (A ! k AND NOT (B ! k)) i} = {i. bit (A ! k) i \<and> \<not> bit (B ! k) i}"
    and "{i. bit (A ! k XOR B ! k) i} = {i. bit (A ! k) i \<noteq> bit (B ! k) i}" for k
    by (auto simp: bit_simps dest: bit_imp_le_length)
  then show ?thesis
    unfolding pop_array_def pop_intersect_def pop_union_def pop_andnot_def pop_xor_def
      pop_words_count bit_count_card
    by (simp only:)
qed

theorem pop_arrays_count_set_bits_witness:
  "pop_array [1, 3, 7] 1 2 = of_nat (card {i. bit (3 :: int64) i} + card {i. bit (7 :: int64) i}) \<and> pop_array [1, 3, 7] 1 2 = 5 \<and>
   pop_xor [1, 3, 7] [1, 1, 8] 1 2 = of_nat (card {i. bit (3 :: int64) i \<noteq> bit (1 :: int64) i} + card {i. bit (7 :: int64) i \<noteq> bit (8 :: int64) i}) \<and>
   pop_xor [1, 3, 7] [1, 1, 8] 1 2 = 5"
proof -
  have e: "pop_array [1, 3, 7] 1 2 = 5" "pop_xor [1, 3, 7] [1, 1, 8] 1 2 = 5" by code_simp+
  have r: "{1..<1 + 2} = {1, 2 :: nat}" by auto
  have n: "(1 :: nat) + 2 \<le> length [1, 3, 7 :: int64]" "(1 :: nat) + 2 \<le> length [1, 1, 8 :: int64]" "(1 :: nat) + 2 < 2 ^ 31" by simp_all
  have at: "[1, 3, 7 :: int64] ! 1 = 3" "[1, 3, 7 :: int64] ! 2 = 7" "[1, 1, 8 :: int64] ! 1 = 1" "[1, 1, 8 :: int64] ! 2 = 8" by simp_all
  have two: "(\<Sum>k\<in>{1, 2 :: nat}. f k) = f 1 + f 2" for f :: "nat \<Rightarrow> nat" by simp
  note c = pop_arrays_count_set_bits [OF n, unfolded r two at]
  show ?thesis by (intro conjI e) (use c in blast)+
qed

text \<open>
  The three trailing-zero counts agree with each other and with the position of the
  least set bit, except at zero, where \<^verbatim>\<open>ntz\<close> and \<^verbatim>\<open>ntz2\<close> return 64 and
  \<^verbatim>\<open>ntz3\<close> returns 63.
\<close>

theorem ntz_variants_least_set_bit:
  "if x = 0 then ntz64 x = 64 \<and> ntz2 x = 64 \<and> ntz3 x = 63
   else ntz64 x = (LEAST i. bit x i) \<and> ntz2 x = (LEAST i. bit x i) \<and> ntz3 x = (LEAST i. bit x i)"
proof (cases "x = 0")
  case True
  then show ?thesis
    by (simp add: ntz64_by_halves ntz32_def ntz2_def ntz3_def unsignedShift32_drop unsignedShift64_drop)
next
  case False
  have "n = (LEAST i. bit x i)" if "first_bit x n" for n
    using that unfolding first_bit_def by (metis (mono_tags, lifting) LeastI Least_le le_neq_implies_less)
  then show ?thesis
    using False ntz64_first_bit ntz2_first_bit ntz3_first_bit by (simp only: if_False) blast
qed

text \<open>
  \<^verbatim>\<open>nextHighestPowerOfTwo\<close> returns the least power of two that is not below its
  argument, for every positive 32-bit argument up to \<open>2 ^ 30\<close> and 64-bit argument up to
  \<open>2 ^ 62\<close>, and the result passes \<^verbatim>\<open>isPowerOfTwo\<close>.
\<close>

theorem nextHighestPowerOfTwo_least:
  assumes "0 < unat v" "unat v \<le> 2 ^ 30" "0 < unat w" "unat w \<le> 2 ^ 62"
  shows "unat (nextHighestPowerOfTwo32 v) = (LEAST p. \<exists>k. p = 2 ^ k \<and> unat v \<le> p) \<and>
    isPowerOfTwo32 (nextHighestPowerOfTwo32 v) \<and>
    unat (nextHighestPowerOfTwo64 w) = (LEAST p. \<exists>k. p = 2 ^ k \<and> unat w \<le> p) \<and>
    isPowerOfTwo64 (nextHighestPowerOfTwo64 w)"
  using power_result [OF nextHighestPowerOfTwo32_least [OF assms(1,2)]]
    power_result [OF nextHighestPowerOfTwo64_least [OF assms(3,4)]]
  unfolding isPowerOfTwo32_def isPowerOfTwo64_def by simp

theorem nextHighestPowerOfTwo_least_witness:
  "unat (nextHighestPowerOfTwo32 5) = (LEAST p. \<exists>k. p = 2 ^ k \<and> 5 \<le> p)"
  using nextHighestPowerOfTwo_least [of 5 7] by simp

end
