(* ===== verification/OpenBitSet.thy ===== *)
theory OpenBitSet imports BitUtil begin

text \<open>
  The growable bit set of \<^verbatim>\<open>src/core/util/OpenBitSet.cpp\<close>, the set of documents most
  filters are made of. The state is the array of 64-bit words and \<^verbatim>\<open>wlen\<close>, the number
  of words in use. Indices are integers, so that \<open>div 64\<close> and \<open>mod 64\<close> are the code's
  \<^verbatim>\<open>>> 6\<close> and \<^verbatim>\<open>& 0x3f\<close> for negative indices too; the overloads that take a 64-bit
  index truncate the word number to 32 bits (\<open>trunc32\<close>). The abstraction \<open>bset\<close> is the set
  of indices of set bits. The invariant \<open>obs_ok\<close> says that \<^verbatim>\<open>wlen\<close> words exist and that
  the words behind them are zero; the code relies on it when it grows \<^verbatim>\<open>wlen\<close>.
\<close>

record obs =
  bits :: "int64 list"
  wlen :: nat

subsection \<open>Construction and growth\<close>

definition bits2words :: "int \<Rightarrow> int" where
  "bits2words numBits = trunc32 (uint (unsignedShift64 (of_int (numBits - 1)) 6 + 1))"

definition newOpenBitSet :: "int \<Rightarrow> obs" where
  "newOpenBitSet numBits =
     (let bs = replicate (nat (bits2words numBits)) 0
      in \<lparr>bits = bs, wlen = length bs\<rparr>)"

definition ensureCapacityWords :: "int \<Rightarrow> obs \<Rightarrow> obs result" where
  "ensureCapacityWords numWords s =
     (let len = length (bits s)
      in if int len < numWords
         then bind_r (new_size (getNextSize numWords)) (\<lambda>n.
              Inr (s\<lparr>bits := take n (bits s) @ replicate (n - len) 0\<rparr>))
         else Inr s)"

definition ensureCapacity :: "int \<Rightarrow> obs \<Rightarrow> obs result" where
  "ensureCapacity numBits s = ensureCapacityWords (bits2words numBits) s"

definition expandingWordNum :: "int \<Rightarrow> obs \<Rightarrow> (int \<times> obs) result" where
  "expandingWordNum index s =
     (let wordNum = trunc32 (index div 64)
      in if int (wlen s) \<le> wordNum
         then bind_r (ensureCapacity (index + 1) s) (\<lambda>s. Inr (wordNum, s\<lparr>wlen := nat (wordNum + 1)\<rparr>))
         else Inr (wordNum, s))"

text \<open>\<^verbatim>\<open>bits.size() << 6\<close> is a 32-bit shift, also where the result is 64 bits wide.\<close>

definition capacity :: "obs \<Rightarrow> int" where
  "capacity s = trunc32 (64 * int (length (bits s)))"

subsection \<open>Reading single bits\<close>

definition bitmask :: "int \<Rightarrow> int64" where
  "bitmask index = push_bit (nat (index mod 64)) 1"

definition word_at :: "obs \<Rightarrow> int \<Rightarrow> int64 result" where
  "word_at s i = (if 0 \<le> i \<and> nat i < length (bits s) then Inr (bits s ! nat i) else Inl OutOfRange)"

definition obs_get32 :: "int \<Rightarrow> obs \<Rightarrow> bool result" where
  "obs_get32 index s =
     (let i = index div 64
      in if int (length (bits s)) \<le> i then Inr False
         else bind_r (word_at s i) (\<lambda>w. Inr (w AND bitmask index \<noteq> 0)))"

definition obs_fastGet32 :: "int \<Rightarrow> obs \<Rightarrow> bool result" where
  "obs_fastGet32 index s = bind_r (word_at s (index div 64)) (\<lambda>w. Inr (w AND bitmask index \<noteq> 0))"

definition obs_get64 :: "int \<Rightarrow> obs \<Rightarrow> bool result" where
  "obs_get64 index s =
     (let i = trunc32 (index div 64)
      in if int (length (bits s)) \<le> i then Inr False
         else bind_r (word_at s i) (\<lambda>w. Inr (w AND bitmask index \<noteq> 0)))"

definition obs_fastGet64 :: "int \<Rightarrow> obs \<Rightarrow> bool result" where
  "obs_fastGet64 index s =
     bind_r (word_at s (trunc32 (index div 64))) (\<lambda>w. Inr (w AND bitmask index \<noteq> 0))"

definition obs_getBit :: "int \<Rightarrow> obs \<Rightarrow> int32 result" where
  "obs_getBit index s =
     bind_r (word_at s (index div 64))
       (\<lambda>w. Inr ((ucast (unsignedShift64 w (of_int (index mod 64))) :: int32) AND 0x01))"

subsection \<open>Writing single bits\<close>

text \<open>\<^verbatim>\<open>bits[wordNum] op= mask\<close>, with the state that reads the word first.\<close>

definition modify_word :: "int \<Rightarrow> (int64 \<Rightarrow> int64) \<Rightarrow> obs \<Rightarrow> obs result" where
  "modify_word i f s =
     (if 0 \<le> i \<and> nat i < length (bits s) then Inr (s\<lparr>bits := (bits s)[nat i := f (bits s ! nat i)]\<rparr>)
      else Inl OutOfRange)"

definition obs_set :: "int \<Rightarrow> obs \<Rightarrow> obs result" where
  "obs_set index s =
     bind_r (expandingWordNum index s) (\<lambda>(wordNum, s).
     modify_word wordNum (\<lambda>w. w OR bitmask index) s)"

definition obs_fastSet32 :: "int \<Rightarrow> obs \<Rightarrow> obs result" where
  "obs_fastSet32 index s = modify_word (index div 64) (\<lambda>w. w OR bitmask index) s"

definition obs_fastSet64 :: "int \<Rightarrow> obs \<Rightarrow> obs result" where
  "obs_fastSet64 index s = modify_word (trunc32 (index div 64)) (\<lambda>w. w OR bitmask index) s"

definition obs_fastClear32 :: "int \<Rightarrow> obs \<Rightarrow> obs result" where
  "obs_fastClear32 index s = modify_word (index div 64) (\<lambda>w. w AND NOT (bitmask index)) s"

definition obs_fastClear64 :: "int \<Rightarrow> obs \<Rightarrow> obs result" where
  "obs_fastClear64 index s = modify_word (trunc32 (index div 64)) (\<lambda>w. w AND NOT (bitmask index)) s"

definition obs_clear :: "int \<Rightarrow> obs \<Rightarrow> obs result" where
  "obs_clear index s =
     (let wordNum = trunc32 (index div 64)
      in if int (wlen s) \<le> wordNum then Inr s
         else modify_word wordNum (\<lambda>w. w AND NOT (bitmask index)) s)"

definition obs_getAndSet32 :: "int \<Rightarrow> obs \<Rightarrow> (bool \<times> obs) result" where
  "obs_getAndSet32 index s =
     bind_r (word_at s (index div 64)) (\<lambda>w.
     bind_r (modify_word (index div 64) (\<lambda>w. w OR bitmask index) s) (\<lambda>s'.
     Inr (w AND bitmask index \<noteq> 0, s')))"

definition obs_getAndSet64 :: "int \<Rightarrow> obs \<Rightarrow> (bool \<times> obs) result" where
  "obs_getAndSet64 index s =
     (let wordNum = trunc32 (index div 64)
      in bind_r (word_at s wordNum) (\<lambda>w.
         bind_r (modify_word wordNum (\<lambda>w. w OR bitmask index) s) (\<lambda>s'.
         Inr (w AND bitmask index \<noteq> 0, s'))))"

definition obs_fastFlip32 :: "int \<Rightarrow> obs \<Rightarrow> obs result" where
  "obs_fastFlip32 index s = modify_word (index div 64) (\<lambda>w. w XOR bitmask index) s"

definition obs_fastFlip64 :: "int \<Rightarrow> obs \<Rightarrow> obs result" where
  "obs_fastFlip64 index s = modify_word (trunc32 (index div 64)) (\<lambda>w. w XOR bitmask index) s"

definition obs_flip :: "int \<Rightarrow> obs \<Rightarrow> obs result" where
  "obs_flip index s =
     bind_r (expandingWordNum index s) (\<lambda>(wordNum, s).
     modify_word wordNum (\<lambda>w. w XOR bitmask index) s)"

definition obs_flipAndGet32 :: "int \<Rightarrow> obs \<Rightarrow> (bool \<times> obs) result" where
  "obs_flipAndGet32 index s =
     bind_r (modify_word (index div 64) (\<lambda>w. w XOR bitmask index) s) (\<lambda>s'.
     bind_r (word_at s' (index div 64)) (\<lambda>w.
     Inr (w AND bitmask index \<noteq> 0, s')))"

definition obs_flipAndGet64 :: "int \<Rightarrow> obs \<Rightarrow> (bool \<times> obs) result" where
  "obs_flipAndGet64 index s =
     (let wordNum = trunc32 (index div 64)
      in bind_r (modify_word wordNum (\<lambda>w. w XOR bitmask index) s) (\<lambda>s'.
         bind_r (word_at s' wordNum) (\<lambda>w.
         Inr (w AND bitmask index \<noteq> 0, s'))))"

subsection \<open>Ranges\<close>

definition range_startmask :: "int \<Rightarrow> int64" where
  "range_startmask startIndex = push_bit (nat (startIndex mod 64)) (-1)"

definition range_endmask :: "int \<Rightarrow> int64" where
  "range_endmask endIndex = unsignedShift64 (-1) (of_int (- endIndex))"

definition obs_setRange :: "int \<Rightarrow> int \<Rightarrow> obs \<Rightarrow> obs result" where
  "obs_setRange startIndex endIndex s =
     (if endIndex \<le> startIndex then Inr s
      else
        let startWord = trunc32 (startIndex div 64)
        in bind_r (expandingWordNum (endIndex - 1) s) (\<lambda>(endWord, s).
        let startmask = range_startmask startIndex;
            endmask = range_endmask endIndex
        in if startWord = endWord then modify_word startWord (\<lambda>w. w OR (startmask AND endmask)) s
           else
             bind_r (modify_word startWord (\<lambda>w. w OR startmask) s) (\<lambda>s.
             modify_word endWord (\<lambda>w. w OR endmask)
               (s\<lparr>bits := arrayFill (bits s) (nat (startWord + 1)) (nat endWord) (-1)\<rparr>))))"

definition obs_clearRange32 :: "int \<Rightarrow> int \<Rightarrow> obs \<Rightarrow> obs result" where
  "obs_clearRange32 startIndex endIndex s =
     (if endIndex \<le> startIndex then Inr s
      else
        let startWord = startIndex div 64
        in if int (wlen s) \<le> startWord then Inr s
        else
        let endWord = (endIndex - 1) div 64;
            startmask = NOT (range_startmask startIndex);
            endmask = NOT (range_endmask endIndex)
        in if startWord = endWord then modify_word startWord (\<lambda>w. w AND (startmask OR endmask)) s
           else
             bind_r (modify_word startWord (\<lambda>w. w AND startmask) s) (\<lambda>s.
             let middle = min (int (wlen s)) endWord;
                 s = s\<lparr>bits := arrayFill (bits s) (nat (startWord + 1)) (nat middle) 0\<rparr>
             in if endWord < int (wlen s) then modify_word endWord (\<lambda>w. w AND endmask) s else Inr s))"

definition obs_clearRange64 :: "int \<Rightarrow> int \<Rightarrow> obs \<Rightarrow> obs result" where
  "obs_clearRange64 startIndex endIndex s =
     (if endIndex \<le> startIndex then Inr s
      else
        let startWord = trunc32 (startIndex div 64)
        in if int (wlen s) \<le> startWord then Inr s
        else
        let endWord = trunc32 ((endIndex - 1) div 64);
            startmask = NOT (range_startmask startIndex);
            endmask = NOT (range_endmask endIndex)
        in if startWord = endWord then modify_word startWord (\<lambda>w. w AND (startmask OR endmask)) s
           else
             bind_r (modify_word startWord (\<lambda>w. w AND startmask) s) (\<lambda>s.
             let middle = min (int (wlen s)) endWord;
                 s = s\<lparr>bits := arrayFill (bits s) (nat (startWord + 1)) (nat middle) 0\<rparr>
             in if endWord < int (wlen s) then modify_word endWord (\<lambda>w. w AND endmask) s else Inr s))"

text \<open>The loop of \<^verbatim>\<open>flip(start, end)\<close> over the inner words.\<close>

function invert_words :: "nat \<Rightarrow> nat \<Rightarrow> int64 list \<Rightarrow> int64 list" where
  "invert_words i end ws = (if i < end then invert_words (i + 1) end (ws[i := NOT (ws ! i)]) else ws)"
  by pat_completeness auto
termination by (relation "measure (\<lambda>(i, end, ws). end - i)") auto

declare invert_words.simps [simp del]

definition obs_flipRange :: "int \<Rightarrow> int \<Rightarrow> obs \<Rightarrow> obs result" where
  "obs_flipRange startIndex endIndex s =
     (if endIndex \<le> startIndex then Inr s
      else
        let startWord = trunc32 (startIndex div 64)
        in bind_r (expandingWordNum (endIndex - 1) s) (\<lambda>(endWord, s).
        let startmask = range_startmask startIndex;
            endmask = range_endmask endIndex
        in if startWord = endWord then modify_word startWord (\<lambda>w. w XOR (startmask AND endmask)) s
           else
             bind_r (modify_word startWord (\<lambda>w. w XOR startmask) s) (\<lambda>s.
             modify_word endWord (\<lambda>w. w XOR endmask)
               (s\<lparr>bits := invert_words (nat (startWord + 1)) (nat endWord) (bits s)\<rparr>))))"

subsection \<open>Counting\<close>

definition cardinality :: "obs \<Rightarrow> int" where
  "cardinality s = sint (pop_array (bits s) 0 (wlen s))"

definition obs_isEmpty :: "obs \<Rightarrow> bool" where
  "obs_isEmpty s \<longleftrightarrow> cardinality s = 0"

definition intersectionCount :: "obs \<Rightarrow> obs \<Rightarrow> int" where
  "intersectionCount a b = sint (pop_intersect (bits a) (bits b) 0 (min (wlen a) (wlen b)))"

definition unionCount :: "obs \<Rightarrow> obs \<Rightarrow> int" where
  "unionCount a b =
     (let tot = pop_union (bits a) (bits b) 0 (min (wlen a) (wlen b))
      in sint (if wlen a < wlen b then tot + pop_array (bits b) (wlen a) (wlen b - wlen a)
               else if wlen b < wlen a then tot + pop_array (bits a) (wlen b) (wlen a - wlen b)
               else tot))"

definition andNotCount :: "obs \<Rightarrow> obs \<Rightarrow> int" where
  "andNotCount a b =
     (let tot = pop_andnot (bits a) (bits b) 0 (min (wlen a) (wlen b))
      in sint (if wlen b < wlen a then tot + pop_array (bits a) (wlen b) (wlen a - wlen b) else tot))"

definition xorCount :: "obs \<Rightarrow> obs \<Rightarrow> int" where
  "xorCount a b =
     (let tot = pop_xor (bits a) (bits b) 0 (min (wlen a) (wlen b))
      in sint (if wlen a < wlen b then tot + pop_array (bits b) (wlen a) (wlen b - wlen a)
               else if wlen b < wlen a then tot + pop_array (bits a) (wlen b) (wlen a - wlen b)
               else tot))"

subsection \<open>Searching\<close>

text \<open>\<^verbatim>\<open>while (++i < wlen)\<close>: the next non-zero word from \<open>i\<close> on.\<close>

function scanWords :: "int64 list \<Rightarrow> nat \<Rightarrow> nat \<Rightarrow> nat option" where
  "scanWords ws n i =
     (if i < n then if ws ! i \<noteq> 0 then Some i else scanWords ws n (i + 1) else None)"
  by pat_completeness auto
termination by (relation "measure (\<lambda>(ws, n, i). n - i)") auto

declare scanWords.simps [simp del]

definition nextSetBit32 :: "int \<Rightarrow> obs \<Rightarrow> int" where
  "nextSetBit32 index s =
     (let i = uint (unsignedShift32 (of_int index) 6)
      in if int (wlen s) \<le> i then -1
         else
           let subIndex = index mod 64;
               word = unsignedShift64 (bits s ! nat i) (of_int subIndex)
           in if word \<noteq> 0 then trunc32 (64 * i + subIndex + int (ntz64 word))
              else (case scanWords (bits s) (wlen s) (nat i + 1) of
                      Some k \<Rightarrow> trunc32 (64 * int k + int (ntz64 (bits s ! k)))
                    | None \<Rightarrow> -1))"

definition nextSetBit64 :: "int \<Rightarrow> obs \<Rightarrow> int result" where
  "nextSetBit64 index s =
     (let i = trunc32 (index div 64)
      in if int (wlen s) \<le> i then Inr (-1)
         else
           let subIndex = index mod 64
           in bind_r (word_at s i) (\<lambda>w.
              let word = signed_drop_bit (nat subIndex) w
              in if word \<noteq> 0 then Inr (64 * i + (subIndex + int (ntz64 word)))
                 else (case scanWords (bits s) (wlen s) (nat (i + 1)) of
                         Some k \<Rightarrow> Inr (64 * int k + int (ntz64 (bits s ! k)))
                       | None \<Rightarrow> Inr (-1))))"

subsection \<open>Set operations\<close>

text \<open>\<^verbatim>\<open>while (--pos >= 0) thisArr[pos] op= otherArr[pos]\<close>.\<close>

fun word_loop :: "(int64 \<Rightarrow> int64 \<Rightarrow> int64) \<Rightarrow> nat \<Rightarrow> int64 list \<Rightarrow> int64 list \<Rightarrow> int64 list" where
  "word_loop f 0 this other = this"
| "word_loop f (Suc pos) this other = word_loop f pos (this[pos := f (this ! pos) (other ! pos)]) other"

definition intersect :: "obs \<Rightarrow> obs \<Rightarrow> obs" where
  "intersect s other =
     (let newLen = min (wlen s) (wlen other);
          thisArr = word_loop (AND) newLen (bits s) (bits other);
          thisArr = (if newLen < wlen s then arrayFill thisArr newLen (wlen s) 0 else thisArr)
      in \<lparr>bits = thisArr, wlen = newLen\<rparr>)"

definition obs_union :: "obs \<Rightarrow> obs \<Rightarrow> obs result" where
  "obs_union s other =
     (let newLen = max (wlen s) (wlen other)
      in bind_r (ensureCapacityWords (int newLen) s) (\<lambda>s.
      let thisArr = word_loop (OR) (min (wlen s) (wlen other)) (bits s) (bits other);
          thisArr = (if wlen s < newLen
                     then arrayCopy (bits other) (wlen s) thisArr (wlen s) (newLen - wlen s) else thisArr)
      in Inr \<lparr>bits = thisArr, wlen = newLen\<rparr>))"

definition obs_remove :: "obs \<Rightarrow> obs \<Rightarrow> obs" where
  "obs_remove s other =
     s\<lparr>bits := word_loop (\<lambda>a b. a AND NOT b) (min (wlen s) (wlen other)) (bits s) (bits other)\<rparr>"

definition obs_xor :: "obs \<Rightarrow> obs \<Rightarrow> obs result" where
  "obs_xor s other =
     (let newLen = max (wlen s) (wlen other)
      in bind_r (ensureCapacityWords (int newLen) s) (\<lambda>s.
      let thisArr = word_loop (XOR) (min (wlen s) (wlen other)) (bits s) (bits other);
          thisArr = (if wlen s < newLen
                     then arrayCopy (bits other) (wlen s) thisArr (wlen s) (newLen - wlen s) else thisArr)
      in Inr \<lparr>bits = thisArr, wlen = newLen\<rparr>))"

fun intersects_loop :: "nat \<Rightarrow> int64 list \<Rightarrow> int64 list \<Rightarrow> bool" where
  "intersects_loop 0 this other = False"
| "intersects_loop (Suc pos) this other =
     (if this ! pos AND other ! pos \<noteq> 0 then True else intersects_loop pos this other)"

definition intersects :: "obs \<Rightarrow> obs \<Rightarrow> bool" where
  "intersects s other = intersects_loop (min (wlen s) (wlen other)) (bits s) (bits other)"

fun trim_loop :: "int64 list \<Rightarrow> nat \<Rightarrow> nat" where
  "trim_loop ws 0 = 0"
| "trim_loop ws (Suc n) = (if ws ! n = 0 then trim_loop ws n else Suc n)"

definition trimTrailingZeros :: "obs \<Rightarrow> obs" where
  "trimTrailingZeros s = s\<lparr>wlen := trim_loop (bits s) (wlen s)\<rparr>"

subsection \<open>Equality and hash\<close>

text \<open>The two loops of \<^verbatim>\<open>equals\<close> run downwards to a bound and stop at the first difference.\<close>

fun all_zero_down :: "nat \<Rightarrow> nat \<Rightarrow> int64 list \<Rightarrow> bool" where
  "all_zero_down lo 0 ws = True"
| "all_zero_down lo (Suc i) ws = (if lo \<le> i then if ws ! i \<noteq> 0 then False else all_zero_down lo i ws else True)"

fun all_equal_down :: "nat \<Rightarrow> int64 list \<Rightarrow> int64 list \<Rightarrow> bool" where
  "all_equal_down 0 v w = True"
| "all_equal_down (Suc i) v w = (if v ! i \<noteq> w ! i then False else all_equal_down i v w)"

definition obs_equals :: "obs \<Rightarrow> obs \<Rightarrow> bool" where
  "obs_equals this other =
     (let (a, b) = (if wlen this < wlen other then (other, this) else (this, other))
      in if all_zero_down (wlen b) (wlen a) (bits a) then all_equal_down (wlen b) (bits a) (bits b)
         else False)"

fun hash_loop :: "nat \<Rightarrow> int64 list \<Rightarrow> int64 \<Rightarrow> int64" where
  "hash_loop 0 ws hash = hash"
| "hash_loop (Suc i) ws hash =
     (let hash = hash XOR ws ! i;
          hash = push_bit 1 hash OR unsignedShift64 hash 63
      in hash_loop i ws hash)"

definition obs_hashCode :: "obs \<Rightarrow> int32" where
  "obs_hashCode s =
     (let hash = hash_loop (length (bits s)) (bits s) 0
      in (ucast (signed_drop_bit 32 hash XOR hash) :: int32) + 0x98761234)"

subsection \<open>The abstraction\<close>

definition obs_bit :: "obs \<Rightarrow> nat \<Rightarrow> bool" where
  "obs_bit s i \<longleftrightarrow> i div 64 < wlen s \<and> bit (bits s ! (i div 64)) (i mod 64)"

definition bset :: "obs \<Rightarrow> nat set" where
  "bset s = {i. obs_bit s i}"

definition obs_ok :: "obs \<Rightarrow> bool" where
  "obs_ok s \<longleftrightarrow> wlen s \<le> length (bits s) \<and> (\<forall>k<length (bits s). wlen s \<le> k \<longrightarrow> bits s ! k = 0)"

lemma obs_okD:
  assumes "obs_ok s"
  shows "wlen s \<le> length (bits s)" "wlen s \<le> k \<Longrightarrow> k < length (bits s) \<Longrightarrow> bits s ! k = 0"
  using assms by (auto simp: obs_ok_def)

lemma bset_iff: "i \<in> bset s \<longleftrightarrow> i div 64 < wlen s \<and> bit (bits s ! (i div 64)) (i mod 64)"
  by (simp add: bset_def obs_bit_def)

lemma bset_eqI: "(\<And>k j. j < 64 \<Longrightarrow> 64 * k + j \<in> bset s \<longleftrightarrow> 64 * k + j \<in> S) \<Longrightarrow> bset s = S"
proof (rule set_eqI)
  fix i
  assume "\<And>k j. j < 64 \<Longrightarrow> 64 * k + j \<in> bset s \<longleftrightarrow> 64 * k + j \<in> S"
  from this [of "i mod 64" "i div 64"] show "i \<in> bset s \<longleftrightarrow> i \<in> S" by simp
qed

lemma bset_word_iff [simp]:
  "j < 64 \<Longrightarrow> 64 * k + j \<in> bset s \<longleftrightarrow> k < wlen s \<and> bit (bits s ! k) j"
  by (simp add: bset_iff)

lemma finite_bset [simp]: "finite (bset s)"
proof (rule finite_subset)
  show "bset s \<subseteq> {..<64 * wlen s}" by (auto simp: bset_iff div_less_iff_less_mult mult.commute)
qed simp

text \<open>Indices for which the 32-bit numbers of words, and the sizes the array grows to, do not wrap.\<close>

definition index_ok :: "int \<Rightarrow> bool" where
  "index_ok i \<longleftrightarrow> 0 \<le> i \<and> i < 2 ^ 36"

lemma index_okD:
  assumes "index_ok i"
  shows "0 \<le> i" "trunc32 (i div 64) = i div 64" "trunc32 (i div 64 + 1) = i div 64 + 1"
    "nat (i div 64) = nat i div 64" "nat (i mod 64) = nat i mod 64"
  using assms by (auto simp: index_ok_def nat_div_distrib nat_mod_distrib)

lemma word_number_le:
  assumes "index_ok i"
  shows "int n \<le> i div 64 \<longleftrightarrow> n \<le> nat i div 64"
proof -
  have "int n \<le> i div 64 \<longleftrightarrow> n \<le> nat (i div 64)"
    using index_okD(1) [OF assms] by (simp add: le_nat_iff pos_imp_zdiv_nonneg_iff)
  then show ?thesis by (simp only: index_okD(4) [OF assms])
qed

lemma bit_bitmask: "bit (bitmask i) j \<longleftrightarrow> j = nat (i mod 64)"
proof -
  have "nat (i mod 64) < 64" by (simp add: nat_less_iff)
  then show ?thesis by (auto simp: bitmask_def bit_simps)
qed

lemma and_bitmask: "w AND bitmask i \<noteq> 0 \<longleftrightarrow> bit w (nat (i mod 64))"
proof -
  have "bit (w AND bitmask i) j \<longleftrightarrow> bit w j \<and> j = nat (i mod 64)" for j
    by (simp add: bit_and_iff bit_bitmask)
  then show ?thesis by (simp add: word_zero_iff)
qed

lemma bits2words_eq: "index_ok n \<Longrightarrow> bits2words (n + 1) = n div 64 + 1"
proof -
  assume n: "index_ok n"
  then have u: "uint (of_int n :: int64) = n"
    by (simp add: index_ok_def unsigned_of_int take_bit_int_eq_self)
  have "unsignedShift64 (of_int n) 6 = drop_bit 6 (of_int n :: int64)"
    by (simp add: unsignedShift64_drop)
  moreover have "uint (drop_bit 6 (of_int n :: int64) + 1) = n div 64 + 1"
  proof -
    have d: "uint (drop_bit 6 (of_int n :: int64)) = n div 64"
      using n by (simp only: unsigned_drop_bit_eq u) (simp add: drop_bit_eq_div take_bit_int_eq_self index_ok_def)
    have "0 \<le> n div 64" "n div 64 < 2 ^ 63" using n by (auto simp: index_ok_def)
    then show ?thesis by (simp add: uint_word_ariths d)
  qed
  ultimately show ?thesis
    using index_okD [OF n] by (simp add: bits2words_def)
qed

subsection \<open>Growth keeps the set and the invariant\<close>

lemma nth_append_zeros: "(xs @ replicate m 0) ! k = (if k < length xs then xs ! k else 0)" if "k < length xs + m"
  using that by (auto simp: nth_append)

lemma ensureCapacityWords_facts:
  assumes "obs_ok s" "n \<le> 2 ^ 30"
  obtains u where "ensureCapacityWords n s = Inr u" "wlen u = wlen s" "n \<le> int (length (bits u))" "obs_ok u" "bset u = bset s"
    "\<And>k. k < wlen s \<Longrightarrow> bits u ! k = bits s ! k"
    "\<And>k. wlen s \<le> k \<Longrightarrow> k < length (bits u) \<Longrightarrow> bits u ! k = 0"
proof (cases "int (length (bits s)) < n")
  case False
  then show thesis using that [of s] assms(1) obs_okD [OF assms(1)] by (simp add: ensureCapacityWords_def)
next
  case True
  note ok = obs_okD [OF assms(1)]
  define m where "m = nat (getNextSize n)"
  have m: "n \<le> int m" "new_size (getNextSize n) = Inr m"
    using True getNextSize_ge [of n] assms(2) by (simp_all add: m_def new_size_def)
  let ?u = "s\<lparr>bits := bits s @ replicate (m - length (bits s)) 0\<rparr>"
  have z: "wlen s \<le> k \<Longrightarrow> k < length (bits ?u) \<Longrightarrow> bits ?u ! k = 0" for k using ok by (auto simp: nth_append)
  have b: "k < wlen s \<Longrightarrow> bits ?u ! k = bits s ! k" for k using ok(1) by (auto simp: nth_append)
  have "ensureCapacityWords n s = Inr ?u" using True m by (simp add: ensureCapacityWords_def)
  moreover have "n \<le> int (length (bits ?u))" using True m(1) by simp
  moreover have "obs_ok ?u" using z ok(1) by (auto simp: obs_ok_def)
  moreover have "bset ?u = bset s" by (rule bset_eqI) (auto simp: b [simplified])
  ultimately show thesis using that [of ?u] z b by simp
qed

lemma expandingWordNum_facts:
  assumes "obs_ok s" "index_ok i"
  obtains t where "expandingWordNum i s = Inr (i div 64, t)" "obs_ok t" "bset t = bset s" "nat (i div 64) < wlen t"
    "wlen t = max (wlen s) (nat (i div 64) + 1)"
proof -
  note i = index_okD [OF assms(2)]
  have k0: "0 \<le> i div 64" "i div 64 + 1 \<le> 2 ^ 30"
    using assms(2) zdiv_mono1 [of i "2 ^ 36 - 1" 64] by (simp_all add: index_ok_def pos_imp_zdiv_nonneg_iff)
  show thesis
  proof (cases "int (wlen s) \<le> i div 64")
    case True
    obtain u where u: "ensureCapacityWords (i div 64 + 1) s = Inr u" "wlen u = wlen s" "i div 64 + 1 \<le> int (length (bits u))"
      "obs_ok u" "bset u = bset s" "\<And>k. k < wlen s \<Longrightarrow> bits u ! k = bits s ! k"
      "\<And>k. wlen s \<le> k \<Longrightarrow> k < length (bits u) \<Longrightarrow> bits u ! k = 0"
      using ensureCapacityWords_facts [OF assms(1) k0(2)] by metis
    let ?t = "u\<lparr>wlen := nat (i div 64 + 1)\<rparr>"
    have len: "nat (i div 64 + 1) \<le> length (bits u)" "wlen s \<le> nat (i div 64 + 1)" using u(3) True by linarith+
    have e: "expandingWordNum i s = Inr (i div 64, ?t)"
      using True u(1) by (simp add: expandingWordNum_def ensureCapacity_def Let_def i(2) bits2words_eq [OF assms(2)])
    have ok: "obs_ok ?t" using len u(7) by (auto simp: obs_ok_def)
    have "bset ?t = bset u"
    proof (rule bset_eqI)
      fix q j :: nat
      assume j: "j < 64"
      show "64 * q + j \<in> bset ?t \<longleftrightarrow> 64 * q + j \<in> bset u"
        using j len u(2) u(7) [of q] by (cases "q < wlen s") auto
    qed
    then show thesis using that [OF e ok] u(5) k0(1) True by simp
  next
    case False
    then have e: "expandingWordNum i s = Inr (i div 64, s)" by (simp add: expandingWordNum_def Let_def i(2))
    have "nat (i div 64) < wlen s" using False k0(1) by simp
    then show thesis using that [OF e assms(1) refl] by simp
  qed
qed

subsection \<open>Writing one word\<close>

lemma modify_word_in:
  assumes "obs_ok s" "0 \<le> i" "nat i < wlen s"
  shows "modify_word i f s = Inr (s\<lparr>bits := (bits s)[nat i := f (bits s ! nat i)]\<rparr>)"
  using assms obs_okD(1) [OF assms(1)] by (simp add: modify_word_def)

lemma modify_word_facts:
  assumes "obs_ok s" "nat i < wlen s" "t = s\<lparr>bits := (bits s)[nat i := w]\<rparr>"
  shows "obs_ok t" "wlen t = wlen s" "length (bits t) = length (bits s)"
    "j < 64 \<Longrightarrow> 64 * k + j \<in> bset t \<longleftrightarrow> (if k = nat i then bit w j else 64 * k + j \<in> bset s)"
  using assms obs_okD [OF assms(1)] by (auto simp: obs_ok_def nth_list_update)

lemma nat_split_64: "nat i = 64 * (nat i div 64) + nat i mod 64"
  by simp

lemma nat_eq_split: "64 * k + j = nat i \<longleftrightarrow> k = nat i div 64 \<and> j = nat i mod 64" if "j < 64"
proof
  assume *: "64 * k + j = nat i"
  have "(64 * k + j) div 64 = k" "(64 * k + j) mod 64 = j" using that by simp_all
  then show "k = nat i div 64 \<and> j = nat i mod 64" by (simp add: *)
qed simp

text \<open>One word changed in one bit.\<close>

lemma modify_bit:
  assumes ok: "obs_ok s" and i: "index_ok i" and lt: "nat (i div 64) < wlen s"
    and f: "\<And>w j. bit (f w) j \<longleftrightarrow> (if j = nat (i mod 64) then g (bit w j) else bit w j)"
  shows "\<exists>t. modify_word (i div 64) f s = Inr t \<and> obs_ok t \<and> wlen t = wlen s \<and>
    (\<forall>m. m \<in> bset t \<longleftrightarrow> (if m = nat i then g (m \<in> bset s) else m \<in> bset s))"
proof -
  note n = index_okD [OF i]
  define t where "t = s\<lparr>bits := (bits s)[nat (i div 64) := f (bits s ! nat (i div 64))]\<rparr>"
  note t = modify_word_facts [OF ok lt t_def]
  have "64 * k + j \<in> bset t \<longleftrightarrow> (if 64 * k + j = nat i then g (64 * k + j \<in> bset s) else 64 * k + j \<in> bset s)"
    if "j < 64" for k j
  proof -
    have m: "nat i \<in> bset s \<longleftrightarrow> bit (bits s ! (nat i div 64)) (nat i mod 64)"
      using lt by (simp add: bset_iff n)
    show ?thesis
      unfolding t(4) [OF that] nat_eq_split [OF that] using that lt m by (auto simp: f n)
  qed
  from this [of "m mod 64" "m div 64" for m]
  have "m \<in> bset t \<longleftrightarrow> (if m = nat i then g (m \<in> bset s) else m \<in> bset s)" for m
    by simp
  then show ?thesis
    using modify_word_in [OF ok _ lt, of f] n(1) t(1,2) by (auto simp: t_def)
qed

lemma bit_or_bitmask: "bit (w OR bitmask i) j \<longleftrightarrow> (if j = nat (i mod 64) then True else bit w j)"
  by (simp add: bit_or_iff bit_bitmask)

lemma bit_andnot_bitmask: "bit (w AND NOT (bitmask i)) j \<longleftrightarrow> (if j = nat (i mod 64) then False else bit w j)"
  by (auto simp: bit_and_iff bit_not_iff bit_bitmask dest: bit_imp_le_length)

lemma bit_xor_bitmask: "bit (w XOR bitmask i) j \<longleftrightarrow> (if j = nat (i mod 64) then \<not> bit w j else bit w j)"
  by (simp add: bit_xor_iff bit_bitmask)

text \<open>Reading.\<close>

lemma get_bset:
  assumes "obs_ok s" "index_ok i"
  shows "obs_get32 i s = Inr (nat i \<in> bset s)" and "obs_get64 i s = Inr (nat i \<in> bset s)"
proof -
  note n = index_okD [OF assms(2)]
  have "(if int (length (bits s)) \<le> i div 64 then Inr False
      else bind_r (word_at s (i div 64)) (\<lambda>w. Inr (w AND bitmask i \<noteq> 0))) = Inr (nat i \<in> bset s)"
  proof (cases "int (length (bits s)) \<le> i div 64")
    case True
    then have "\<not> nat (i div 64) < wlen s" using obs_okD(1) [OF assms(1)] by linarith
    then show ?thesis using True by (simp add: bset_iff n)
  next
    case False
    then have lt: "nat (i div 64) < length (bits s)" using n(1) by linarith
    have "bit (bits s ! nat (i div 64)) (nat (i mod 64)) \<longleftrightarrow> nat i \<in> bset s"
      using lt obs_okD(2) [OF assms(1), of "nat (i div 64)"] by (auto simp: bset_iff n not_le [symmetric])
    then show ?thesis using False lt n(1) by (simp add: word_at_def and_bitmask)
  qed
  then show "obs_get32 i s = Inr (nat i \<in> bset s)" and "obs_get64 i s = Inr (nat i \<in> bset s)"
    by (simp_all add: obs_get32_def obs_get64_def Let_def n)
qed

lemma fast_read:
  assumes "obs_ok s" "index_ok i" "nat i div 64 < wlen s"
  shows "word_at s (i div 64) = Inr (bits s ! (nat i div 64))"
    and "bits s ! (nat i div 64) AND bitmask i \<noteq> 0 \<longleftrightarrow> nat i \<in> bset s"
proof -
  note n = index_okD [OF assms(2)]
  show "word_at s (i div 64) = Inr (bits s ! (nat i div 64))"
    using assms(3) n obs_okD(1) [OF assms(1)] by (simp add: word_at_def pos_imp_zdiv_nonneg_iff)
  show "bits s ! (nat i div 64) AND bitmask i \<noteq> 0 \<longleftrightarrow> nat i \<in> bset s"
    using assms(3) by (simp add: and_bitmask bset_iff n)
qed

lemma getBit_bset:
  assumes "obs_ok s" "index_ok i" "nat i div 64 < wlen s"
  shows "obs_getBit i s = Inr (if nat i \<in> bset s then 1 else 0)"
proof -
  note n = index_okD [OF assms(2)]
  have m: "nat i mod 64 < 64" by simp
  have "unat (of_int (i mod 64) AND (0x3f :: int64)) = nat (i mod 64)"
  proof -
    define m where "m = nat (i mod 64)"
    have m: "m < 64" "of_int (i mod 64) = (of_nat m :: int64)" by (simp_all add: m_def nat_less_iff)
    have "(0x3f :: int64) = mask 6" by (simp add: mask_eq_exp_minus_1)
    then have "of_int (i mod 64) AND (0x3f :: int64) = take_bit 6 (of_nat m)"
      by (simp only: take_bit_eq_mask m(2))
    then have "unat (of_int (i mod 64) AND (0x3f :: int64)) = take_bit 6 (take_bit 64 m)"
      by (simp only: unsigned_take_bit_eq unsigned_of_nat) simp
    also have "\<dots> = m" using m(1) by (simp add: take_bit_nat_eq_self)
    finally show ?thesis by (simp only: m_def)
  qed
  then have shift: "unsignedShift64 w (of_int (i mod 64)) = drop_bit (nat i mod 64) w" for w
    by (simp add: unsignedShift64_drop n)
  have "(ucast v :: int32) AND 1 = (if bit v 0 then 1 else 0)" for v :: int64
    by (rule bit_word_eqI) (auto simp: bit_and_iff bit_ucast_iff bit_1_iff intro: gr0I)
  then have "(ucast (unsignedShift64 w (of_int (i mod 64))) :: int32) AND 1 = (if bit w (nat i mod 64) then 1 else 0)" for w
    by (simp only: shift bit_drop_bit_eq o_apply) simp
  then show ?thesis
    using fast_read [OF assms] assms(3) by (simp add: obs_getBit_def bset_iff)
qed

subsection \<open>Single-bit writes\<close>

lemma modify_at:
  assumes ok: "obs_ok s" and i: "index_ok i" and lt: "nat i div 64 < wlen s"
    and f: "\<And>w j. bit (f w) j \<longleftrightarrow> (if j = nat (i mod 64) then g (bit w j) else bit w j)"
  obtains t where "modify_word (i div 64) f s = Inr t" "obs_ok t" "wlen t = wlen s"
    "bset t = {m. if m = nat i then g (m \<in> bset s) else m \<in> bset s}"
proof -
  have "nat (i div 64) < wlen s" using lt by (simp add: index_okD [OF i])
  from modify_bit [OF ok i this, of f g] f obtain t where
    t: "modify_word (i div 64) f s = Inr t" "obs_ok t" "wlen t = wlen s"
    "\<forall>m. m \<in> bset t \<longleftrightarrow> (if m = nat i then g (m \<in> bset s) else m \<in> bset s)" by blast
  then have "bset t = {m. if m = nat i then g (m \<in> bset s) else m \<in> bset s}" by blast
  with t(1-3) show thesis by (rule that)
qed

lemma update_set:
  "{m. if m = n then True else m \<in> A} = insert n A"
  "{m. if m = n then False else m \<in> A} = A - {n}"
  "{m. if m = n then \<not> m \<in> A else m \<in> A} = (if n \<in> A then A - {n} else insert n A)"
  by auto

lemma grown_write:
  assumes ok: "obs_ok s" and i: "index_ok i"
    and f: "\<And>w j. bit (f w) j \<longleftrightarrow> (if j = nat (i mod 64) then g (bit w j) else bit w j)"
  shows "\<exists>t. bind_r (expandingWordNum i s) (\<lambda>(k, s'). modify_word k f s') = Inr t \<and> obs_ok t \<and>
    wlen t = max (wlen s) (nat i div 64 + 1) \<and>
    bset t = {m. if m = nat i then g (m \<in> bset s) else m \<in> bset s}"
proof -
  obtain s' where e: "expandingWordNum i s = Inr (i div 64, s')" "obs_ok s'" "bset s' = bset s" "nat (i div 64) < wlen s'"
    "wlen s' = max (wlen s) (nat (i div 64) + 1)" by (rule expandingWordNum_facts [OF ok i])
  have lt: "nat i div 64 < wlen s'" using e(4) by (simp add: index_okD [OF i])
  obtain t where t: "modify_word (i div 64) f s' = Inr t" "obs_ok t" "wlen t = wlen s'"
    "bset t = {m. if m = nat i then g (m \<in> bset s') else m \<in> bset s'}"
    by (rule modify_at [OF e(2) i lt, of f g]) (rule f)
  have "wlen t = max (wlen s) (nat i div 64 + 1)"
    using e(5) unfolding t(3) index_okD(4) [OF i] .
  then show ?thesis using t(1,2,4) unfolding e(1,3) by simp
qed

lemma set_adds:
  assumes "obs_ok s" "index_ok i"
  obtains t where "obs_set i s = Inr t" "obs_ok t" "bset t = insert (nat i) (bset s)"
  using grown_write [where g = "\<lambda>_. True", OF assms bit_or_bitmask]
  by (force simp: obs_set_def Let_def update_set)

lemma flip_toggles:
  assumes "obs_ok s" "index_ok i"
  obtains t where "obs_flip i s = Inr t" "obs_ok t"
    "bset t = (if nat i \<in> bset s then bset s - {nat i} else insert (nat i) (bset s))"
  using grown_write [where g = "\<lambda>b. \<not> b", OF assms bit_xor_bitmask]
  by (force simp: obs_flip_def Let_def update_set)

lemma fast_writes:
  assumes "obs_ok s" "index_ok i" "nat i div 64 < wlen s"
  shows "\<exists>t. obs_fastSet32 i s = Inr t \<and> obs_fastSet64 i s = Inr t \<and> obs_ok t \<and> wlen t = wlen s \<and> bset t = insert (nat i) (bset s)"
    and "\<exists>t. obs_fastClear32 i s = Inr t \<and> obs_fastClear64 i s = Inr t \<and> obs_ok t \<and> wlen t = wlen s \<and> bset t = bset s - {nat i}"
    and "\<exists>t. obs_fastFlip32 i s = Inr t \<and> obs_fastFlip64 i s = Inr t \<and> obs_ok t \<and> wlen t = wlen s \<and>
       bset t = (if nat i \<in> bset s then bset s - {nat i} else insert (nat i) (bset s))"
  unfolding obs_fastSet32_def obs_fastSet64_def obs_fastClear32_def obs_fastClear64_def
    obs_fastFlip32_def obs_fastFlip64_def index_okD(2) [OF assms(2)]
  by (rule modify_at [where g = "\<lambda>_. True", OF assms bit_or_bitmask], simp add: update_set)
    (rule modify_at [where g = "\<lambda>_. False", OF assms bit_andnot_bitmask], simp add: update_set,
     rule modify_at [where g = "\<lambda>b. \<not> b", OF assms bit_xor_bitmask], simp add: update_set)

lemma clear_removes:
  assumes "obs_ok s" "index_ok i"
  obtains t where "obs_clear i s = Inr t" "obs_ok t" "bset t = bset s - {nat i}"
proof (cases "nat i div 64 < wlen s")
  case True
  then have "\<not> int (wlen s) \<le> i div 64" by (simp add: word_number_le [OF assms(2)])
  then have "obs_clear i s = obs_fastClear64 i s"
    by (simp add: obs_clear_def obs_fastClear64_def index_okD [OF assms(2)])
  then show ?thesis using fast_writes(2) [OF assms True] that by force
next
  case False
  then have "int (wlen s) \<le> i div 64" by (simp add: word_number_le [OF assms(2)])
  then have "obs_clear i s = Inr s"
    by (simp add: obs_clear_def index_okD [OF assms(2)])
  moreover have "bset s = bset s - {nat i}" using False by (simp add: bset_iff)
  ultimately show ?thesis using assms(1) that by blast
qed

lemma word_at_in:
  assumes "obs_ok s" "index_ok i" "nat i div 64 < wlen s"
  shows "word_at s (i div 64) = Inr (bits s ! (nat i div 64))"
    "bits s ! (nat i div 64) AND bitmask i \<noteq> 0 \<longleftrightarrow> nat i \<in> bset s"
  by (fact fast_read [OF assms])+

lemma test_and_write:
  assumes "obs_ok s" "index_ok i" "nat i div 64 < wlen s"
  shows "\<exists>t. obs_getAndSet32 i s = Inr (nat i \<in> bset s, t) \<and> obs_getAndSet64 i s = Inr (nat i \<in> bset s, t) \<and>
      obs_ok t \<and> bset t = insert (nat i) (bset s)"
    and "\<exists>t. obs_flipAndGet32 i s = Inr (nat i \<notin> bset s, t) \<and> obs_flipAndGet64 i s = Inr (nat i \<notin> bset s, t) \<and>
      obs_ok t \<and> bset t = (if nat i \<in> bset s then bset s - {nat i} else insert (nat i) (bset s))"
proof -
  note [simp] = obs_getAndSet32_def obs_getAndSet64_def obs_flipAndGet32_def obs_flipAndGet64_def
    index_okD(2) [OF assms(2)]
  obtain t where t: "obs_fastSet32 i s = Inr t" "obs_ok t" "bset t = insert (nat i) (bset s)"
    using fast_writes(1) [OF assms] by blast
  then show "\<exists>t. obs_getAndSet32 i s = Inr (nat i \<in> bset s, t) \<and> obs_getAndSet64 i s = Inr (nat i \<in> bset s, t) \<and>
      obs_ok t \<and> bset t = insert (nat i) (bset s)"
    using word_at_in [OF assms] by (simp add: obs_fastSet32_def)
  obtain t where t: "obs_fastFlip32 i s = Inr t" "obs_ok t" "wlen t = wlen s"
    "bset t = (if nat i \<in> bset s then bset s - {nat i} else insert (nat i) (bset s))"
    using fast_writes(3) [OF assms] by blast
  have "nat i \<in> bset t \<longleftrightarrow> nat i \<notin> bset s" by (simp add: t(4))
  then show "\<exists>t. obs_flipAndGet32 i s = Inr (nat i \<notin> bset s, t) \<and> obs_flipAndGet64 i s = Inr (nat i \<notin> bset s, t) \<and>
      obs_ok t \<and> bset t = (if nat i \<in> bset s then bset s - {nat i} else insert (nat i) (bset s))"
    using word_at_in [OF t(2) assms(2)] t assms(3) by (simp add: obs_fastFlip32_def)
qed

subsection \<open>Writing ranges\<close>

lemma neg_mod_64:
  assumes "0 < b"
  shows "nat ((- b) mod 64) = 63 - (nat b - 1) mod 64"
proof -
  define q r where "q = (b - 1) div 64" and "r = (b - 1) mod 64"
  have r: "0 \<le> r" "r < 64" by (simp_all add: r_def)
  have "b - 1 = 64 * q + r" by (simp add: q_def r_def)
  then have "- b = (63 - r) + 64 * (- q - 1)" by simp
  then have "(- b) mod 64 = (63 - r) mod 64" by (simp only: mod_mult_self2)
  also have "\<dots> = 63 - r" using r by (simp add: mod_pos_pos_trivial)
  finally have m: "(- b) mod 64 = 63 - r" .
  have "(nat b - 1) mod 64 = nat r"
    using assms by (simp add: r_def nat_mod_distrib nat_diff_distrib)
  then show ?thesis using r by (simp add: m nat_diff_distrib)
qed

lemma range_masks:
  assumes "0 \<le> a" "0 < b" "j < 64"
  shows "bit (range_startmask a) j \<longleftrightarrow> nat a mod 64 \<le> j"
    and "bit (range_endmask b) j \<longleftrightarrow> j \<le> (nat b - 1) mod 64"
proof -
  have a: "nat (a mod 64) = nat a mod 64" using assms(1) by (simp add: nat_mod_distrib)
  show "bit (range_startmask a) j \<longleftrightarrow> nat a mod 64 \<le> j"
    unfolding range_startmask_def a bit_push_bit_iff bit_minus_1_iff using assms(3) by auto
  have u: "unat (of_int (- b) AND (0x3f :: int64)) = nat ((- b) mod 64)"
  proof -
    have "(0x3f :: int64) = mask 6" by (simp add: mask_eq_exp_minus_1)
    then have "of_int (- b) AND (0x3f :: int64) = take_bit 6 (of_int (- b))"
      by (simp only: take_bit_eq_mask)
    then have "uint (of_int (- b) AND (0x3f :: int64)) = take_bit 6 (take_bit 64 (- b))"
      by (simp only: unsigned_take_bit_eq unsigned_of_int) simp
    also have "\<dots> = (- b) mod 64" by (simp only: take_bit_take_bit) (simp add: take_bit_eq_mod)
    finally show ?thesis by (metis nat_uint_eq)
  qed
  have "(nat b - 1) mod 64 < 64" by simp
  then show "bit (range_endmask b) j \<longleftrightarrow> j \<le> (nat b - 1) mod 64"
    unfolding range_endmask_def unsignedShift64_drop u neg_mod_64 [OF assms(2)] bit_drop_bit_eq o_apply bit_minus_1_iff
    using assms(3) by auto
qed

lemma le_word_split:
  assumes "j < 64"
  shows "a \<le> 64 * k + j \<longleftrightarrow> a div 64 < k \<or> a div 64 = k \<and> a mod 64 \<le> (j :: nat)"
    and "64 * k + j \<le> a \<longleftrightarrow> k < a div 64 \<or> k = a div 64 \<and> j \<le> a mod 64"
proof -
  define q r where "q = a div 64" and "r = a mod 64"
  have "a = 64 * q + r" "r < 64" by (simp_all add: q_def r_def)
  with assms show "a \<le> 64 * k + j \<longleftrightarrow> a div 64 < k \<or> a div 64 = k \<and> a mod 64 \<le> j"
    and "64 * k + j \<le> a \<longleftrightarrow> k < a div 64 \<or> k = a div 64 \<and> j \<le> a mod 64"
    unfolding q_def [symmetric] r_def [symmetric] by arith+
qed

lemma in_range_word:
  assumes "j < 64" "a < (b :: nat)"
  shows "a \<le> 64 * k + j \<and> 64 * k + j < b \<longleftrightarrow>
    (a div 64 < k \<or> a div 64 = k \<and> a mod 64 \<le> j) \<and>
    (k < (b - 1) div 64 \<or> k = (b - 1) div 64 \<and> j \<le> (b - 1) mod 64)"
proof -
  have "64 * k + j < b \<longleftrightarrow> 64 * k + j \<le> b - 1" using assms(2) by linarith
  then show ?thesis by (simp only: le_word_split [OF assms(1)])
qed

text \<open>What a range operation does to every word, and what follows for the set.\<close>

lemma range_edit:
  assumes ok: "obs_ok s" and t: "t = s\<lparr>bits := ws\<rparr>" and len: "length ws = length (bits s)"
    and same: "\<And>k. wlen s \<le> k \<Longrightarrow> k < length ws \<Longrightarrow> ws ! k = bits s ! k"
    and edit: "\<And>k j. k < wlen s \<Longrightarrow> j < 64 \<Longrightarrow>
      bit (ws ! k) j \<longleftrightarrow> (if a \<le> 64 * k + j \<and> 64 * k + j < b then g (bit (bits s ! k) j) else bit (bits s ! k) j)"
  shows "obs_ok t \<and> wlen t = wlen s \<and>
    bset t = {m. if a \<le> m \<and> m < b \<and> m < 64 * wlen s then g (m \<in> bset s) else m \<in> bset s}"
proof (intro conjI)
  show "obs_ok t" using obs_okD [OF ok] len same by (auto simp: obs_ok_def t)
  show "wlen t = wlen s" by (simp add: t)
  show "bset t = {m. if a \<le> m \<and> m < b \<and> m < 64 * wlen s then g (m \<in> bset s) else m \<in> bset s}"
  proof (rule bset_eqI)
    fix k j :: nat
    assume j: "j < 64"
    have "64 * k + j < 64 * wlen s \<longleftrightarrow> k < wlen s" using j by linarith
    then show "64 * k + j \<in> bset t \<longleftrightarrow>
        64 * k + j \<in> {m. if a \<le> m \<and> m < b \<and> m < 64 * wlen s then g (m \<in> bset s) else m \<in> bset s}"
      using j edit [of k j] by (auto simp: t)
  qed
qed

lemma nth_invert_words:
  "length (invert_words i end ws) = length ws \<and>
   (end \<le> length ws \<longrightarrow> k < length ws \<longrightarrow>
     invert_words i end ws ! k = (if i \<le> k \<and> k < end then NOT (ws ! k) else ws ! k))"
proof (induction i "end" ws rule: invert_words.induct)
  case (1 i "end" ws)
  show ?case
    using 1 by (subst (1 2) invert_words.simps) (auto simp: nth_list_update Suc_le_eq)
qed

text \<open>The words after a range operation: the first and the last word under their masks, the
  words between them completely. \<open>f w m\<close> is the word \<open>w\<close> with \<open>g\<close> applied to the bits of \<open>m\<close>.\<close>

definition pieces :: "(int64 \<Rightarrow> int64 \<Rightarrow> int64) \<Rightarrow> int \<Rightarrow> int \<Rightarrow> nat \<Rightarrow> int64 \<Rightarrow> int64" where
  "pieces f a b k w =
     (let sw = nat a div 64; ew = (nat b - 1) div 64
      in if sw = ew then (if k = sw then f w (range_startmask a AND range_endmask b) else w)
         else if k = sw then f w (range_startmask a)
         else if k = ew then f w (range_endmask b)
         else if sw < k \<and> k < ew then f w (-1) else w)"

lemma bit_pieces:
  assumes ab: "0 \<le> a" "a < b" and j: "j < 64"
    and f: "\<And>w m. bit (f w m) j \<longleftrightarrow> (if bit m j then g (bit w j) else bit w j)"
  shows "bit (pieces f a b k w) j \<longleftrightarrow> (if nat a \<le> 64 * k + j \<and> 64 * k + j < nat b then g (bit w j) else bit w j)"
proof -
  have b0: "0 < b" using ab by linarith
  have lt: "nat a < nat b" using ab by linarith
  have le: "nat a div 64 \<le> (nat b - 1) div 64" using lt by (intro div_le_mono) linarith
  have one: "bit (-1 :: int64) j" using j by simp
  define sw ew aj bj where "sw = nat a div 64" and "ew = (nat b - 1) div 64"
    and "aj = nat a mod 64" and "bj = (nat b - 1) mod 64"
  note d = this
  have sm: "bit (range_startmask a) j \<longleftrightarrow> aj \<le> j" and em: "bit (range_endmask b) j \<longleftrightarrow> j \<le> bj"
    using range_masks [OF ab(1) b0 j] by (simp_all add: d)
  have r: "nat a \<le> 64 * k + j \<and> 64 * k + j < nat b \<longleftrightarrow>
      (sw < k \<or> sw = k \<and> aj \<le> j) \<and> (k < ew \<or> k = ew \<and> j \<le> bj)"
    unfolding d by (rule in_range_word [OF j lt])
  have "sw \<le> ew" using le by (simp add: d)
  then consider "sw = ew" "k = sw" | "sw = ew" "k \<noteq> sw" | "sw < ew" "k = sw" | "sw < ew" "k = ew"
    | "sw < ew" "k \<noteq> sw" "k \<noteq> ew" by linarith
  then show ?thesis
    unfolding r pieces_def d(1,2) [symmetric] Let_def
    by cases (auto simp: f bit_and_iff one sm em j)
qed

lemma pieces_edit:
  assumes ok: "obs_ok s" and ab: "0 \<le> a" "a < b"
    and f: "\<And>w m j. j < 64 \<Longrightarrow> bit (f w m) j \<longleftrightarrow> (if bit m j then g (bit w j) else bit w j)"
    and len: "length ws = length (bits s)"
    and nth: "\<And>k. k < wlen s \<Longrightarrow> ws ! k = pieces f a b k (bits s ! k)"
    and same: "\<And>k. wlen s \<le> k \<Longrightarrow> k < length ws \<Longrightarrow> ws ! k = bits s ! k"
  shows "obs_ok (s\<lparr>bits := ws\<rparr>) \<and> wlen (s\<lparr>bits := ws\<rparr>) = wlen s \<and>
    bset (s\<lparr>bits := ws\<rparr>) = {m. if nat a \<le> m \<and> m < nat b \<and> m < 64 * wlen s then g (m \<in> bset s) else m \<in> bset s}"
proof (rule range_edit [OF ok refl len same])
  fix k j :: nat
  assume kj: "k < wlen s" "j < 64"
  show "bit (ws ! k) j \<longleftrightarrow>
      (if nat a \<le> 64 * k + j \<and> 64 * k + j < nat b then g (bit (bits s ! k) j) else bit (bits s ! k) j)"
    unfolding nth [OF kj(1)] by (rule bit_pieces [OF ab kj(2) f [OF kj(2)]])
qed

lemma range_ops:
  "j < 64 \<Longrightarrow> bit (w OR m) j \<longleftrightarrow> (if bit m j then True else bit w j)"
  "j < 64 \<Longrightarrow> bit (w XOR m) j \<longleftrightarrow> (if bit m j then \<not> bit w j else bit w j)"
  "j < 64 \<Longrightarrow> bit (w AND NOT m) j \<longleftrightarrow> (if bit m j then False else bit w j)" for w m :: int64
  by (auto simp: bit_or_iff bit_xor_iff bit_and_iff bit_not_iff)

lemma range_words:
  assumes "index_ok a" "index_ok (b - 1)" "a < b"
  shows "nat a div 64 \<le> (nat b - 1) div 64" "trunc32 (a div 64) = int (nat a div 64)"
    "(b - 1) div 64 = int ((nat b - 1) div 64)" "a div 64 = int (nat a div 64)"
proof -
  note a = index_okD [OF assms(1)] and b = index_okD [OF assms(2)]
  have nb: "nat (b - 1) = nat b - 1" by simp
  show "nat a div 64 \<le> (nat b - 1) div 64" using assms(3) a(1) by (intro div_le_mono) linarith
  show q: "a div 64 = int (nat a div 64)" using a(1) by (simp add: zdiv_int)
  then show "trunc32 (a div 64) = int (nat a div 64)" using a(2) by simp
  show "(b - 1) div 64 = int ((nat b - 1) div 64)" using b(1) by (simp add: zdiv_int flip: nb)
qed

text \<open>The grown state of \<^verbatim>\<open>set\<close> and \<^verbatim>\<open>flip\<close> over a range has all the words of the range.\<close>

lemma grow_for_range:
  assumes ok: "obs_ok s" and ab: "index_ok a" "index_ok (b - 1)" "a < b"
  obtains t where "expandingWordNum (b - 1) s = Inr (int ((nat b - 1) div 64), t)" "obs_ok t" "bset t = bset s"
    "(nat b - 1) div 64 < wlen t" "wlen t \<le> length (bits t)"
    "\<forall>m<nat b. m < 64 * wlen t"
proof -
  note r = range_words [OF ab]
  obtain t where e: "expandingWordNum (b - 1) s = Inr (int ((nat b - 1) div 64), t)" "obs_ok t" "bset t = bset s"
    "nat (int ((nat b - 1) div 64)) < wlen t" using expandingWordNum_facts [OF ok ab(2)] unfolding r(3) by metis
  have w: "(nat b - 1) div 64 < wlen t" using e(4) by simp
  have "nat b - 1 < wlen t * 64" using w by (rule iffD1 [OF div_less_iff_less_mult, rotated]) simp
  then have lt: "\<forall>m<nat b. m < 64 * wlen t" by auto
  show thesis by (rule that [OF e(1-3) w obs_okD(1) [OF e(2)] lt])
qed

text \<open>The three updates of a range operation, on words that all exist.\<close>

lemma range_steps:
  fixes mid :: "int64 list \<Rightarrow> int64 list"
  assumes a: "sw = nat a div 64" "ew = (nat b - 1) div 64" "sw \<le> ew" "ew < length (bits u)" "ew < wlen u"
    and mid: "\<And>xs. length (mid xs) = length xs"
      "\<And>xs k. length xs = length (bits u) \<Longrightarrow> k < length xs \<Longrightarrow> mid xs ! k = (if sw < k \<and> k < ew then f (xs ! k) (-1) else xs ! k)"
  shows "\<exists>ws. (if int sw = int ew then modify_word (int sw) (\<lambda>w. f w (range_startmask a AND range_endmask b)) u
       else bind_r (modify_word (int sw) (\<lambda>w. f w (range_startmask a)) u) (\<lambda>s.
            modify_word (int ew) (\<lambda>w. f w (range_endmask b)) (s\<lparr>bits := mid (bits s)\<rparr>)))
       = Inr (u\<lparr>bits := ws\<rparr>) \<and> length ws = length (bits u) \<and>
       (\<forall>k<wlen u. k < length ws \<longrightarrow> ws ! k = pieces f a b k (bits u ! k)) \<and>
       (\<forall>k<length ws. wlen u \<le> k \<longrightarrow> ws ! k = bits u ! k)"
proof (cases "sw = ew")
  case True
  show ?thesis
    unfolding modify_word_def pieces_def Let_def a(1,2) [symmetric] using True a(4,5)
    by (intro exI [where x = "(bits u)[sw := f (bits u ! sw) (range_startmask a AND range_endmask b)]"])
      (auto simp: nth_list_update)
next
  case False
  let ?v = "(bits u)[sw := f (bits u ! sw) (range_startmask a)]"
  have sw: "sw < length (bits u)" "sw < wlen u" "sw < ew" using a(3-5) False by linarith+
  show ?thesis
    unfolding modify_word_def pieces_def Let_def a(1,2) [symmetric] using False a(4,5) sw
    by (intro exI [where x = "(mid ?v)[ew := f (mid ?v ! ew) (range_endmask b)]"])
      (auto simp: nth_list_update mid)
qed

lemma range_result:
  fixes mid :: "int64 list \<Rightarrow> int64 list"
  assumes ok: "obs_ok u" and ab: "index_ok a" "index_ok (b - 1)" "a < b"
    and d: "sw = nat a div 64" "ew = (nat b - 1) div 64" and lt: "ew < wlen u"
    and mid: "\<And>xs. length (mid xs) = length xs"
      "\<And>xs k. length xs = length (bits u) \<Longrightarrow> k < length xs \<Longrightarrow> mid xs ! k = (if sw < k \<and> k < ew then f (xs ! k) (-1) else xs ! k)"
    and f: "\<And>w m j. j < 64 \<Longrightarrow> bit (f w m) j \<longleftrightarrow> (if bit m j then g (bit w j) else bit w j)"
  shows "\<exists>t. (if int sw = int ew then modify_word (int sw) (\<lambda>w. f w (range_startmask a AND range_endmask b)) u
       else bind_r (modify_word (int sw) (\<lambda>w. f w (range_startmask a)) u) (\<lambda>s.
            modify_word (int ew) (\<lambda>w. f w (range_endmask b)) (s\<lparr>bits := mid (bits s)\<rparr>)))
       = Inr t \<and> obs_ok t \<and> wlen t = wlen u \<and>
       bset t = {m. if nat a \<le> m \<and> m < nat b \<and> m < 64 * wlen u then g (m \<in> bset u) else m \<in> bset u}"
proof -
  note r = range_words [OF ab]
  have le: "sw \<le> ew" using r(1) d by simp
  have len: "ew < length (bits u)" using lt obs_okD(1) [OF ok] by linarith
  from range_steps [where f = f and mid = mid, OF d le len lt mid] obtain ws where
    ws: "(if int sw = int ew then modify_word (int sw) (\<lambda>w. f w (range_startmask a AND range_endmask b)) u
       else bind_r (modify_word (int sw) (\<lambda>w. f w (range_startmask a)) u) (\<lambda>s.
            modify_word (int ew) (\<lambda>w. f w (range_endmask b)) (s\<lparr>bits := mid (bits s)\<rparr>))) = Inr (u\<lparr>bits := ws\<rparr>)"
    "length ws = length (bits u)" "\<And>k. k < wlen u \<Longrightarrow> k < length ws \<Longrightarrow> ws ! k = pieces f a b k (bits u ! k)"
    "\<And>k. wlen u \<le> k \<Longrightarrow> k < length ws \<Longrightarrow> ws ! k = bits u ! k" by blast
  have "ws ! k = pieces f a b k (bits u ! k)" if "k < wlen u" for k
    using ws(2,3) that obs_okD(1) [OF ok] by simp
  from pieces_edit [OF ok index_okD(1) [OF ab(1)] ab(3) f ws(2) this ws(4)] ws(1)
  show ?thesis by blast
qed

lemma word_edits:
  "w OR -1 = (-1 :: int64)" "w XOR -1 = NOT w" "w AND NOT (-1) = (0 :: int64)"
  "NOT (v :: int64) OR NOT m = NOT (v AND m)" for w :: int64
  by (auto intro!: bit_word_eqI simp: bit_or_iff bit_xor_iff bit_and_iff bit_not_iff)

lemma setRange_adds:
  assumes "obs_ok s" "index_ok a" "index_ok (b - 1)" "a < b"
  obtains t where "obs_setRange a b s = Inr t" "obs_ok t" "bset t = bset s \<union> {nat a..<nat b}"
proof -
  obtain u where u: "expandingWordNum (b - 1) s = Inr (int ((nat b - 1) div 64), u)" "obs_ok u" "bset u = bset s"
    "(nat b - 1) div 64 < wlen u" "wlen u \<le> length (bits u)" "\<forall>m<nat b. m < 64 * wlen u"
    by (rule grow_for_range [OF assms])
  note r = range_words [OF assms(2-4)]
  define sw ew where d: "sw = nat a div 64" "ew = (nat b - 1) div 64"
  note lt = u(4) [folded d(2)]
  let ?mid = "\<lambda>xs. arrayFill xs (nat (int sw + 1)) (nat (int ew)) (-1)"
  have "?mid xs ! k = (if sw < k \<and> k < ew then xs ! k OR -1 else xs ! k)"
    if "length xs = length (bits u)" "k < length xs" for xs :: "int64 list" and k
    using that by (simp add: word_edits nat_add_distrib Suc_le_eq)
  from range_result [where g = "\<lambda>_. True" and f = "(OR)" and mid = ?mid, OF u(2) assms(2-4) d lt _ this range_ops(1)]
  obtain t where t: "obs_setRange a b s = Inr t" "obs_ok t"
    "bset t = {m. if nat a \<le> m \<and> m < nat b \<and> m < 64 * wlen u then True else m \<in> bset u}"
    unfolding obs_setRange_def u(1) r(2) Let_def prod.case bind_r_simps d [symmetric] using assms(4) by (force split: if_splits)
  have "bset t = bset s \<union> {nat a..<nat b}" using u(3,6) unfolding t(3) by auto
  with t(1,2) show thesis by (rule that)
qed

lemma flipRange_toggles:
  assumes "obs_ok s" "index_ok a" "index_ok (b - 1)" "a < b"
  obtains t where "obs_flipRange a b s = Inr t" "obs_ok t"
    "bset t = {m. if m \<in> {nat a..<nat b} then m \<notin> bset s else m \<in> bset s}"
proof -
  obtain u where u: "expandingWordNum (b - 1) s = Inr (int ((nat b - 1) div 64), u)" "obs_ok u" "bset u = bset s"
    "(nat b - 1) div 64 < wlen u" "wlen u \<le> length (bits u)" "\<forall>m<nat b. m < 64 * wlen u"
    by (rule grow_for_range [OF assms])
  note r = range_words [OF assms(2-4)]
  define sw ew where d: "sw = nat a div 64" "ew = (nat b - 1) div 64"
  note lt = u(4) [folded d(2)]
  let ?mid = "\<lambda>xs. invert_words (nat (int sw + 1)) (nat (int ew)) xs"
  have "?mid xs ! k = (if sw < k \<and> k < ew then xs ! k XOR -1 else xs ! k)"
    if "length xs = length (bits u)" "k < length xs" for xs :: "int64 list" and k
    using that lt u(5) nth_invert_words [of "Suc sw" ew xs k] by (simp add: word_edits nat_add_distrib Suc_le_eq)
  from range_result [where g = "\<lambda>b. \<not> b" and f = "(XOR)" and mid = ?mid, OF u(2) assms(2-4) d lt _ this range_ops(2)]
  obtain t where t: "obs_flipRange a b s = Inr t" "obs_ok t"
    "bset t = {m. if nat a \<le> m \<and> m < nat b \<and> m < 64 * wlen u then \<not> m \<in> bset u else m \<in> bset u}"
    unfolding obs_flipRange_def u(1) r(2) Let_def prod.case bind_r_simps d [symmetric] using assms(4)
    by (force simp: nth_invert_words split: if_splits)
  have "bset t = {m. if m \<in> {nat a..<nat b} then m \<notin> bset s else m \<in> bset s}" using u(3,6) unfolding t(3) by auto
  with t(1,2) show thesis by (rule that)
qed

lemma clear_beyond:
  assumes ok: "obs_ok s" and ab: "index_ok a" "index_ok (b - 1)" "a < b"
    and d: "sw = nat a div 64" "ew = (nat b - 1) div 64" and lt: "sw < wlen s" "wlen s \<le> ew"
  shows "\<exists>t. bind_r (modify_word (int sw) (\<lambda>w. w AND NOT (range_startmask a)) s)
      (\<lambda>s. Inr (s\<lparr>bits := arrayFill (bits s) (Suc sw) (wlen s) 0\<rparr>)) = Inr t \<and> obs_ok t \<and>
      bset t = bset s - {nat a..<nat b}"
proof -
  note r = range_words [OF ab]
  have sw: "sw < length (bits s)" using lt(1) obs_okD(1) [OF ok] by linarith
  let ?ws = "arrayFill ((bits s)[sw := bits s ! sw AND NOT (range_startmask a)]) (Suc sw) (wlen s) 0"
  have w: "?ws ! k = pieces (\<lambda>w m. w AND NOT m) a b k (bits s ! k)" if "k < wlen s" for k
    unfolding pieces_def Let_def d [symmetric] using lt that obs_okD(1) [OF ok]
    by (auto simp: nth_list_update word_edits)
  have z: "?ws ! k = bits s ! k" if "wlen s \<le> k" "k < length ?ws" for k
    using that lt by (simp add: nth_list_update)
  have "bind_r (modify_word (int sw) (\<lambda>w. w AND NOT (range_startmask a)) s)
      (\<lambda>s. Inr (s\<lparr>bits := arrayFill (bits s) (Suc sw) (wlen s) 0\<rparr>)) = Inr (s\<lparr>bits := ?ws\<rparr>)"
    using sw by (simp add: modify_word_def)
  moreover from pieces_edit [where g = "\<lambda>_. False" and f = "\<lambda>w m. w AND NOT m" and ws = ?ws,
      OF ok index_okD(1) [OF ab(1)] ab(3) range_ops(3) _ w z]
  have "obs_ok (s\<lparr>bits := ?ws\<rparr>)" "bset (s\<lparr>bits := ?ws\<rparr>) = bset s - {nat a..<nat b}"
    by (auto simp: bset_iff)
  ultimately show ?thesis by blast
qed

lemma bset_bound: "m \<in> bset s \<Longrightarrow> m < 64 * wlen s"
  unfolding bset_iff by (metis div_less_iff_less_mult mult.commute zero_less_numeral)

lemma clearRange_removes:
  assumes ok: "obs_ok s" and ab: "index_ok a" "index_ok (b - 1)" "a < b"
  shows "\<exists>t. obs_clearRange64 a b s = Inr t \<and> obs_clearRange32 a b s = Inr t \<and> obs_ok t \<and>
    bset t = bset s - {nat a..<nat b}"
proof -
  note r = range_words [OF ab]
  define sw ew where d: "sw = nat a div 64" "ew = (nat b - 1) div 64"
  have aw: "a div 64 = int sw" "trunc32 (int sw) = int sw" "(b - 1) div 64 = int ew" "trunc32 (int ew) = int ew"
    using r(2-4) index_okD(2) [OF ab(2)] unfolding r(3,4) d by (simp_all only:)
  have same: "obs_clearRange64 a b s = obs_clearRange32 a b s"
    by (simp only: obs_clearRange64_def obs_clearRange32_def aw)
  have ex: "\<exists>t. obs_clearRange32 a b s = Inr t \<and> obs_ok t \<and> bset t = bset s - {nat a..<nat b}"
  proof (cases "sw < wlen s")
    case False
    have "m < nat a" if "m \<in> bset s" for m
    proof -
      have "m div 64 < nat a div 64" using that False by (simp add: bset_iff d)
      then show ?thesis by (meson div_le_mono not_le)
    qed
    then have "bset s = bset s - {nat a..<nat b}" by force
    then show ?thesis using False ok ab(3) by (simp add: obs_clearRange32_def aw)
  next
    case True
    show ?thesis
    proof (cases "ew < wlen s")
      case lt: True
      let ?mid = "\<lambda>xs. arrayFill xs (nat (int sw + 1)) (nat (int ew)) 0"
      have "?mid xs ! k = (if sw < k \<and> k < ew then xs ! k AND NOT (-1) else xs ! k)"
        if "length xs = length (bits s)" "k < length xs" for xs :: "int64 list" and k
        using that by (simp add: word_edits nat_add_distrib Suc_le_eq)
      then have mid: "?mid xs ! k = (if sw < k \<and> k < ew then xs ! k AND NOT (-1) else xs ! k)"
        if "length xs = length (bits s)" "k < length xs" for xs :: "int64 list" and k using that by blast
      have eq: "obs_clearRange32 a b s =
          (if int sw = int ew then modify_word (int sw) (\<lambda>w. w AND NOT (range_startmask a AND range_endmask b)) s
           else bind_r (modify_word (int sw) (\<lambda>w. w AND NOT (range_startmask a)) s) (\<lambda>s.
                modify_word (int ew) (\<lambda>w. w AND NOT (range_endmask b)) (s\<lparr>bits := ?mid (bits s)\<rparr>)))"
        using ab(3) True lt unfolding obs_clearRange32_def aw Let_def word_edits(4)
        by (simp add: modify_word_def min_absorb2)
      from range_result [where g = "\<lambda>_. False" and f = "\<lambda>w m. w AND NOT m" and mid = ?mid,
          OF ok ab d lt length_arrayFill mid range_ops(3)]
      obtain t where t: "obs_clearRange32 a b s = Inr t" "obs_ok t"
        "bset t = {m. if nat a \<le> m \<and> m < nat b \<and> m < 64 * wlen s then False else m \<in> bset s}"
        unfolding eq by blast
      have "bset t = bset s - {nat a..<nat b}" unfolding t(3) using bset_bound [of _ s] by auto
      with t(1,2) show ?thesis by blast
    next
      case False
      then have ne: "sw \<noteq> ew" using True by simp
      have "obs_clearRange32 a b s = bind_r (modify_word (int sw) (\<lambda>w. w AND NOT (range_startmask a)) s)
          (\<lambda>s. Inr (s\<lparr>bits := arrayFill (bits s) (Suc sw) (wlen s) 0\<rparr>))"
        using True False ab(3) ne
        by (simp add: obs_clearRange32_def aw modify_word_def nat_add_distrib min_def)
      with clear_beyond [OF ok ab d True] False show ?thesis by simp
    qed
  qed
  then show ?thesis using same by auto
qed

subsection \<open>Set algebra\<close>

lemma length_word_loop [simp]: "length (word_loop f n a b) = length a"
  by (induction f n a b rule: word_loop.induct) simp_all

lemma nth_word_loop:
  "n \<le> length a \<Longrightarrow> word_loop f n a b ! k = (if k < n then f (a ! k) (b ! k) else a ! k)"
proof (induction f n a b arbitrary: k rule: word_loop.induct)
  case (2 f pos this other)
  then show ?case by (auto simp: nth_list_update less_Suc_eq)
qed simp

lemma obs_ok_nth:
  assumes "obs_ok s" "k < length (bits s)"
  shows "j < 64 \<Longrightarrow> bit (bits s ! k) j \<longleftrightarrow> 64 * k + j \<in> bset s"
  using obs_okD(2) [OF assms(1) _ assms(2)] by (cases "k < wlen s") auto

lemma words_set:
  assumes "wlen t \<le> length (bits t)" "\<And>k. wlen t \<le> k \<Longrightarrow> k < length (bits t) \<Longrightarrow> bits t ! k = 0"
    and "\<And>k j. k < wlen t \<Longrightarrow> j < 64 \<Longrightarrow> bit (bits t ! k) j \<longleftrightarrow> 64 * k + j \<in> S"
    and "\<And>k j. wlen t \<le> k \<Longrightarrow> j < 64 \<Longrightarrow> 64 * k + j \<notin> S"
  shows "obs_ok t \<and> bset t = S"
proof
  show "obs_ok t" using assms(1,2) by (auto simp: obs_ok_def)
  show "bset t = S"
  proof (rule bset_eqI)
    fix k j :: nat
    assume j: "j < 64"
    show "64 * k + j \<in> bset t \<longleftrightarrow> 64 * k + j \<in> S"
      using assms(3,4) [of k j] j by (cases "k < wlen t") auto
  qed
qed

lemma intersect_set:
  assumes "obs_ok s" "obs_ok t"
  shows "obs_ok (intersect s t) \<and> bset (intersect s t) = bset s \<inter> bset t"
proof (rule words_set)
  note ok = obs_okD [OF assms(1)] obs_okD [OF assms(2)]
  let ?n = "min (wlen s) (wlen t)"
  have w: "wlen (intersect s t) = ?n" "length (bits (intersect s t)) = length (bits s)"
    by (simp_all add: intersect_def Let_def)
  have n: "?n \<le> length (bits s)" using ok(1) by simp
  have nth: "bits (intersect s t) ! k = (if k < ?n then bits s ! k AND bits t ! k else 0)"
    if "k < length (bits s)" for k
    using that n ok(1,2) by (auto simp: intersect_def Let_def nth_word_loop)
  show "wlen (intersect s t) \<le> length (bits (intersect s t))" using n by (simp add: w)
  show "bits (intersect s t) ! k = 0" if "wlen (intersect s t) \<le> k" "k < length (bits (intersect s t))" for k
    using that unfolding w by (auto simp: nth min_le_iff_disj)
  show "bit (bits (intersect s t) ! k) j \<longleftrightarrow> 64 * k + j \<in> bset s \<inter> bset t"
    if "k < wlen (intersect s t)" "j < 64" for k j
  proof -
    have "k < length (bits s)" using that(1) n unfolding w by linarith
    then show ?thesis using that by (simp add: w nth bit_and_iff)
  qed
  show "64 * k + j \<notin> bset s \<inter> bset t" if "wlen (intersect s t) \<le> k" "j < 64" for k j
    using that by (auto simp: w)
qed

text \<open>Union and symmetric difference grow the receiver and copy the longer tail.\<close>

lemma grown_words:
  fixes f :: "int64 \<Rightarrow> int64 \<Rightarrow> int64"
  assumes "obs_ok s" "obs_ok t" and g: "wlen v = wlen s" "int (max (wlen s) (wlen t)) \<le> int (length (bits v))" "obs_ok v"
      "\<And>k. k < wlen s \<Longrightarrow> bits v ! k = bits s ! k" "\<And>k. wlen s \<le> k \<Longrightarrow> k < length (bits v) \<Longrightarrow> bits v ! k = 0"
    and f: "\<And>a b j. bit (f a b) j \<longleftrightarrow> F (bit a j) (bit b j)"
    and F: "\<And>x. F x False = x" "\<And>x. F False x = x"
    and u: "u = (let thisArr = word_loop f (min (wlen v) (wlen t)) (bits v) (bits t);
          thisArr = (if wlen v < max (wlen s) (wlen t)
                     then arrayCopy (bits t) (wlen v) thisArr (wlen v) (max (wlen s) (wlen t) - wlen v) else thisArr)
      in \<lparr>bits = thisArr, wlen = max (wlen s) (wlen t)\<rparr>)"
  shows "obs_ok u \<and> bset u = {m. F (m \<in> bset s) (m \<in> bset t)}"
proof (rule words_set)
  let ?N = "max (wlen s) (wlen t)"
  note ok = obs_okD [OF g(3)]
  have N: "?N \<le> length (bits v)" using g(2) by simp
  have w: "wlen u = ?N" "length (bits u) = length (bits v)"
    unfolding u Let_def by (simp_all add: g(1))
  have n: "min (wlen s) (wlen t) \<le> length (bits v)" using N by linarith
  have nth: "bits u ! k = (if k < wlen s then if k < wlen t then f (bits v ! k) (bits t ! k) else bits v ! k
      else if k < wlen t then bits t ! k else bits v ! k)" if "k < length (bits v)" for k
    using that n unfolding u Let_def by (auto simp: g(1) nth_word_loop)
  show "wlen u \<le> length (bits u)" using N by (simp add: w)
  show "bits u ! k = 0" if "wlen u \<le> k" "k < length (bits u)" for k
    using that g(5) [of k] unfolding w by (simp add: nth g(1))
  show "bit (bits u ! k) j \<longleftrightarrow> 64 * k + j \<in> {m. F (m \<in> bset s) (m \<in> bset t)}"
    if "k < wlen u" "j < 64" for k j
  proof -
    have "k < length (bits v)" using that(1) N unfolding w by linarith
    then show ?thesis using that g(4) [of k] unfolding w by (auto simp: nth f F)
  qed
  show "64 * k + j \<notin> {m. F (m \<in> bset s) (m \<in> bset t)}" if "wlen u \<le> k" "j < 64" for k j
    using that F(1) [of False] by (simp add: w)
qed

lemma grow_combine:
  fixes f :: "int64 \<Rightarrow> int64 \<Rightarrow> int64"
  assumes "obs_ok s" "obs_ok t" "wlen s \<le> 2 ^ 30" "wlen t \<le> 2 ^ 30"
    and f: "\<And>a b j. bit (f a b) j \<longleftrightarrow> F (bit a j) (bit b j)"
    and F: "\<And>x. F x False = x" "\<And>x. F False x = x"
  shows "\<exists>u. (let newLen = max (wlen s) (wlen t)
      in bind_r (ensureCapacityWords (int newLen) s) (\<lambda>s.
      let thisArr = word_loop f (min (wlen s) (wlen t)) (bits s) (bits t);
          thisArr = (if wlen s < newLen
                     then arrayCopy (bits t) (wlen s) thisArr (wlen s) (newLen - wlen s) else thisArr)
      in Inr \<lparr>bits = thisArr, wlen = newLen\<rparr>)) = Inr u \<and> obs_ok u \<and> bset u = {m. F (m \<in> bset s) (m \<in> bset t)}"
proof -
  let ?N = "max (wlen s) (wlen t)"
  have "int ?N \<le> 2 ^ 30" using assms(3,4) by simp
  then obtain v where v: "ensureCapacityWords (int ?N) s = Inr v" "wlen v = wlen s" "int ?N \<le> int (length (bits v))" "obs_ok v"
    "\<And>k. k < wlen s \<Longrightarrow> bits v ! k = bits s ! k" "\<And>k. wlen s \<le> k \<Longrightarrow> k < length (bits v) \<Longrightarrow> bits v ! k = 0"
    using ensureCapacityWords_facts [OF assms(1)] by metis
  define u where "u = (let thisArr = word_loop f (min (wlen v) (wlen t)) (bits v) (bits t);
          thisArr = (if wlen v < ?N then arrayCopy (bits t) (wlen v) thisArr (wlen v) (?N - wlen v) else thisArr)
      in \<lparr>bits = thisArr, wlen = ?N\<rparr>)"
  have run: "(let newLen = max (wlen s) (wlen t)
      in bind_r (ensureCapacityWords (int newLen) s) (\<lambda>s.
      let thisArr = word_loop f (min (wlen s) (wlen t)) (bits s) (bits t);
          thisArr = (if wlen s < newLen
                     then arrayCopy (bits t) (wlen s) thisArr (wlen s) (newLen - wlen s) else thisArr)
      in Inr \<lparr>bits = thisArr, wlen = newLen\<rparr>)) = Inr u"
    unfolding Let_def v(1) bind_r_simps u_def ..
  have "obs_ok u \<and> bset u = {m. F (m \<in> bset s) (m \<in> bset t)}"
    by (rule grown_words [OF assms(1,2) v(2-6) f F u_def])
  then show ?thesis using run by blast
qed
lemma union_set:
  assumes "obs_ok s" "obs_ok t" "wlen s \<le> 2 ^ 30" "wlen t \<le> 2 ^ 30"
  shows "\<exists>u. obs_union s t = Inr u \<and> obs_ok u \<and> bset u = bset s \<union> bset t"
  using grow_combine [OF assms, where f = "(OR)" and F = "(\<or>)", OF bit_or_iff]
  unfolding obs_union_def by (simp add: Un_def)

lemma xor_set:
  assumes "obs_ok s" "obs_ok t" "wlen s \<le> 2 ^ 30" "wlen t \<le> 2 ^ 30"
  shows "\<exists>u. obs_xor s t = Inr u \<and> obs_ok u \<and> bset u = (bset s - bset t) \<union> (bset t - bset s)"
proof -
  have "{m. (m \<in> bset s) \<noteq> (m \<in> bset t)} = (bset s - bset t) \<union> (bset t - bset s)" by auto
  then show ?thesis
    using grow_combine [OF assms, where f = "(XOR)" and F = "(\<noteq>)", OF bit_xor_iff]
    unfolding obs_xor_def by simp
qed

lemma remove_set:
  assumes "obs_ok s" "obs_ok t"
  shows "obs_ok (obs_remove s t) \<and> bset (obs_remove s t) = bset s - bset t"
proof (rule words_set)
  note ok = obs_okD [OF assms(1)] obs_okD [OF assms(2)]
  have n: "min (wlen s) (wlen t) \<le> length (bits s)" using ok(1) by simp
  have w: "wlen (obs_remove s t) = wlen s" "length (bits (obs_remove s t)) = length (bits s)"
    by (simp_all add: obs_remove_def)
  have nth: "bits (obs_remove s t) ! k = (if k < min (wlen s) (wlen t) then bits s ! k AND NOT (bits t ! k) else bits s ! k)" for k
    using n by (simp add: obs_remove_def nth_word_loop)
  show "wlen (obs_remove s t) \<le> length (bits (obs_remove s t))" using ok(1) by (simp add: w)
  show "bits (obs_remove s t) ! k = 0" if "wlen (obs_remove s t) \<le> k" "k < length (bits (obs_remove s t))" for k
    using that ok(2) unfolding w by (simp add: nth)
  show "bit (bits (obs_remove s t) ! k) j \<longleftrightarrow> 64 * k + j \<in> bset s - bset t"
    if "k < wlen (obs_remove s t)" "j < 64" for k j
    using that unfolding w by (auto simp: nth bit_and_iff bit_not_iff)
  show "64 * k + j \<notin> bset s - bset t" if "wlen (obs_remove s t) \<le> k" "j < 64" for k j
    using that by (simp add: w)
qed

lemma intersects_loop_iff:
  "intersects_loop n a b \<longleftrightarrow> (\<exists>k<n. a ! k AND b ! k \<noteq> 0)"
  by (induction n a b rule: intersects_loop.induct) (auto simp: less_Suc_eq)

lemma intersects_set: "intersects s t \<longleftrightarrow> bset s \<inter> bset t \<noteq> {}"
proof -
  have "bits s ! k AND bits t ! k \<noteq> 0 \<longleftrightarrow> (\<exists>j<64. bit (bits s ! k) j \<and> bit (bits t ! k) j)" for k
    unfolding word_zero_iff bit_and_iff using bit_imp_le_length by fastforce
  then have "intersects s t \<longleftrightarrow>
      (\<exists>k<min (wlen s) (wlen t). \<exists>j<64. bit (bits s ! k) j \<and> bit (bits t ! k) j)"
    by (simp add: intersects_def intersects_loop_iff)
  also have "\<dots> \<longleftrightarrow> (\<exists>k. \<exists>j<64. 64 * k + j \<in> bset s \<inter> bset t)"
    by (rule iff_exI) auto
  also have "\<dots> \<longleftrightarrow> bset s \<inter> bset t \<noteq> {}"
  proof
    assume "bset s \<inter> bset t \<noteq> {}"
    then obtain m where "m \<in> bset s \<inter> bset t" by blast
    then have "64 * (m div 64) + m mod 64 \<in> bset s \<inter> bset t" by simp
    moreover have "m mod 64 < 64" by simp
    ultimately show "\<exists>k. \<exists>j<64. 64 * k + j \<in> bset s \<inter> bset t" by blast
  qed blast
  finally show ?thesis .
qed

subsection \<open>Counts are cardinalities\<close>

definition chunk :: "nat set \<Rightarrow> nat \<Rightarrow> nat \<Rightarrow> nat set" where
  "chunk S a b = {m \<in> S. 64 * a \<le> m \<and> m < 64 * b}"

lemma card_chunk_one:
  assumes "\<And>j. j < 64 \<Longrightarrow> bit w j \<longleftrightarrow> 64 * k + j \<in> S"
  shows "card (chunk S k (Suc k)) = bit_count (w :: int64)"
proof -
  have "chunk S k (Suc k) = (\<lambda>j. 64 * k + j) ` {j. bit w j}"
  proof (rule set_eqI)
    fix m
    have "m \<in> chunk S k (Suc k) \<longleftrightarrow> (\<exists>j<64. m = 64 * k + j \<and> 64 * k + j \<in> S)"
      unfolding chunk_def by (auto intro!: exI [where x = "m - 64 * k"])
    also have "\<dots> \<longleftrightarrow> m \<in> (\<lambda>j. 64 * k + j) ` {j. bit w j}"
      using assms bit_imp_le_length [of w] by fastforce
    finally show "m \<in> chunk S k (Suc k) \<longleftrightarrow> m \<in> (\<lambda>j. 64 * k + j) ` {j. bit w j}" .
  qed
  then show ?thesis by (simp add: card_image inj_on_def bit_count_card)
qed

lemma sum_bit_count:
  assumes "\<And>k j. a \<le> k \<Longrightarrow> k < a + n \<Longrightarrow> j < 64 \<Longrightarrow> bit (g k) j \<longleftrightarrow> 64 * k + j \<in> S"
  shows "(\<Sum>k = a..<a + n. bit_count (g k :: int64)) = card (chunk S a (a + n))"
  using assms
proof (induction n)
  case 0
  then show ?case by (auto simp: chunk_def)
next
  case (Suc n)
  have "chunk S a (a + Suc n) = chunk S a (a + n) \<union> chunk S (a + n) (Suc (a + n))"
    by (auto simp: chunk_def)
  moreover have "chunk S a (a + n) \<inter> chunk S (a + n) (Suc (a + n)) = {}" by (auto simp: chunk_def)
  moreover have "finite (chunk S x y)" for x y
    by (rule finite_subset [of _ "{..<64 * y}"]) (auto simp: chunk_def)
  ultimately have "card (chunk S a (a + Suc n)) = card (chunk S a (a + n)) + card (chunk S (a + n) (Suc (a + n)))"
    by (simp add: card_Un_disjoint)
  also have "card (chunk S (a + n) (Suc (a + n))) = bit_count (g (a + n))"
    by (rule card_chunk_one) (use Suc.prems in simp)
  finally show ?case using Suc by simp
qed

lemma pop_words_chunk:
  assumes "\<And>k j. a \<le> k \<Longrightarrow> k < a + n \<Longrightarrow> j < 64 \<Longrightarrow> bit (g k) j \<longleftrightarrow> 64 * k + j \<in> S"
  shows "pop_words g a n = of_nat (card (chunk S a (a + n)))"
  unfolding pop_words_count by (simp only: sum_bit_count [OF assms])

text \<open>The size of the sets for which the 64-bit totals are exact, far above what an array can hold.\<close>

definition count_ok :: "obs \<Rightarrow> bool" where
  "count_ok s \<longleftrightarrow> obs_ok s \<and> wlen s \<le> 2 ^ 30"

lemma sint_card:
  fixes S :: "nat set"
  assumes "\<And>m. m \<in> S \<Longrightarrow> m < 64 * n" "n < 2 ^ 31"
  shows "sint (of_nat (card S) :: int64) = int (card S)"
proof -
  have "card S \<le> card {..<64 * n}" by (rule card_mono) (use assms in auto)
  then have "int (card S) < 2 ^ 62" using assms(2) by simp
  then show ?thesis by (simp add: signed_of_nat signed_take_bit_int_eq_self)
qed

lemma chunk_split:
  assumes "\<And>m. m \<in> S \<Longrightarrow> m < 64 * n" "finite S" "k \<le> n"
  shows "of_nat (card (chunk S 0 k)) + of_nat (card (chunk S k n)) = (of_nat (card S) :: int64)"
proof -
  have "chunk S 0 k \<union> chunk S k n = S" "chunk S 0 k \<inter> chunk S k n = {}"
    using assms(1,3) by (auto simp: chunk_def)
  moreover have "finite (chunk S x y)" for x y using assms(2) by (simp add: chunk_def)
  ultimately have "card (chunk S 0 k) + card (chunk S k n) = card S"
    using card_Un_disjoint [of "chunk S 0 k" "chunk S k n"] by simp
  then show ?thesis by (simp flip: of_nat_add)
qed

lemma chunk_all: "(\<And>m. m \<in> S \<Longrightarrow> m < 64 * n) \<Longrightarrow> chunk S 0 n = S"
  by (auto simp: chunk_def)

lemma cardinality_card: "count_ok s \<Longrightarrow> cardinality s = int (card (bset s))"
  unfolding cardinality_def pop_array_def
  using pop_words_chunk [where a = 0 and n = "wlen s" and g = "(!) (bits s)" and S = "bset s"]
  by (simp add: chunk_all [OF bset_bound] sint_card [OF bset_bound] count_ok_def)


lemma intersectionCount_card:
  assumes "count_ok s" "count_ok t"
  shows "intersectionCount s t = int (card (bset s \<inter> bset t))"
proof -
  have b: "m \<in> bset s \<inter> bset t \<Longrightarrow> m < 64 * min (wlen s) (wlen t)" for m
    using bset_bound by (auto simp: min_def)
  have "pop_intersect (bits s) (bits t) 0 (min (wlen s) (wlen t)) = of_nat (card (bset s \<inter> bset t))"
    unfolding pop_intersect_def
    using pop_words_chunk [where a = 0 and n = "min (wlen s) (wlen t)" and S = "bset s \<inter> bset t"
        and g = "\<lambda>i. bits s ! i AND bits t ! i"]
    by (simp only: add_0 chunk_all [OF b]) (simp add: bit_and_iff)
  moreover have "min (wlen s) (wlen t) < 2 ^ 31" using assms by (simp add: count_ok_def min_less_iff_disj)
  from sint_card [OF b this]
  have "sint (of_nat (card (bset s \<inter> bset t)) :: int64) = int (card (bset s \<inter> bset t))" by blast
  ultimately show ?thesis by (simp add: intersectionCount_def)
qed

lemma tail_chunk:
  assumes "\<And>k j. n \<le> k \<Longrightarrow> k < wlen s \<Longrightarrow> j < 64 \<Longrightarrow> 64 * k + j \<in> bset s \<longleftrightarrow> 64 * k + j \<in> S" "n \<le> wlen s"
  shows "pop_array (bits s) n (wlen s - n) = of_nat (card (chunk S n (wlen s)))"
proof -
  have "pop_array (bits s) n (wlen s - n) = of_nat (card (chunk S n (n + (wlen s - n))))"
    unfolding pop_array_def
  proof (rule pop_words_chunk)
    fix k j :: nat
    assume "n \<le> k" "k < n + (wlen s - n)" "j < 64"
    then show "bit (bits s ! k) j \<longleftrightarrow> 64 * k + j \<in> S"
      using assms(1) [of k j] by simp
  qed
  then show ?thesis using assms(2) by simp
qed

text \<open>The totals over the common words and over the longer tail.\<close>

lemma two_part_count:
  fixes F :: "bool \<Rightarrow> bool \<Rightarrow> bool" and g :: "nat \<Rightarrow> int64"
  assumes ok: "count_ok s" "count_ok t"
    and g: "\<And>k j. j < 64 \<Longrightarrow> bit (g k) j \<longleftrightarrow> F (bit (bits s ! k) j) (bit (bits t ! k) j)"
    and F: "\<And>x. F x False = x" "\<And>x. F False x = (R \<and> x)"
  shows "sint (if wlen s < wlen t \<and> R then pop_words g 0 (min (wlen s) (wlen t)) + pop_array (bits t) (wlen s) (wlen t - wlen s)
               else if wlen t < wlen s then pop_words g 0 (min (wlen s) (wlen t)) + pop_array (bits s) (wlen t) (wlen s - wlen t)
               else pop_words g 0 (min (wlen s) (wlen t))) = int (card {m. F (m \<in> bset s) (m \<in> bset t)})"
proof -
  define S where "S = {m. F (m \<in> bset s) (m \<in> bset t)}"
  define l where "l = (if R then max (wlen s) (wlen t) else wlen s)"
  have S: "m \<in> bset s \<or> R \<and> m \<in> bset t" if "m \<in> S" for m
    using that F(1) [of False] F(2) [of True] unfolding S_def by (cases "m \<in> bset s"; cases "m \<in> bset t") auto
  have b: "m < 64 * l" if "m \<in> S" for m
    using S [OF that] bset_bound [of m s] bset_bound [of m t] by (auto simp: l_def max_def)
  have fin: "finite S" using S by (rule_tac finite_subset [of _ "bset s \<union> bset t"]) auto
  have head: "pop_words g 0 (min (wlen s) (wlen t)) = of_nat (card (chunk S 0 (min (wlen s) (wlen t))))"
    using pop_words_chunk [where a = 0 and n = "min (wlen s) (wlen t)" and S = S and g = g]
    by (simp add: S_def g)
  have tt: "pop_array (bits t) (wlen s) (wlen t - wlen s) = of_nat (card (chunk S (wlen s) (wlen t)))"
    if "wlen s \<le> wlen t" "R"
    by (rule tail_chunk) (use that in \<open>auto simp: S_def F\<close>)
  have ts: "pop_array (bits s) (wlen t) (wlen s - wlen t) = of_nat (card (chunk S (wlen t) (wlen s)))"
    if "wlen t \<le> wlen s"
    by (rule tail_chunk) (use that in \<open>auto simp: S_def F\<close>)
  have "(if wlen s < wlen t \<and> R then pop_words g 0 (min (wlen s) (wlen t)) + pop_array (bits t) (wlen s) (wlen t - wlen s)
               else if wlen t < wlen s then pop_words g 0 (min (wlen s) (wlen t)) + pop_array (bits s) (wlen t) (wlen s - wlen t)
               else pop_words g 0 (min (wlen s) (wlen t))) = of_nat (card S)"
  proof -
    consider "wlen s < wlen t" "R" | "wlen t < wlen s" | "wlen s \<le> wlen t" "wlen s = wlen t \<or> \<not> R" by linarith
    then show ?thesis
    proof cases
      case 1
      then show ?thesis using tt head chunk_split [OF b fin, of "wlen s"] by (simp add: l_def)
    next
      case 2
      then have "l = wlen s" by (simp add: l_def)
      with 2 show ?thesis using ts head chunk_split [OF b fin, of "wlen t"] by simp
    next
      case 3
      then have "l = wlen s" by (auto simp: l_def)
      then have "chunk S 0 (wlen s) = S" using chunk_all [of S l] b by blast
      with 3 show ?thesis using head by (auto simp: min_absorb1)
    qed
  qed
  moreover have "l < 2 ^ 31" using ok by (simp add: l_def count_ok_def)
  from sint_card [OF b this] have "sint (of_nat (card S) :: int64) = int (card S)" by blast
  ultimately show ?thesis unfolding S_def by (simp only:)
qed

lemma set_counts:
  assumes "count_ok s" "count_ok t"
  shows "unionCount s t = int (card (bset s \<union> bset t))"
    and "andNotCount s t = int (card (bset s - bset t))"
    and "xorCount s t = int (card ((bset s - bset t) \<union> (bset t - bset s)))"
proof -
  show "unionCount s t = int (card (bset s \<union> bset t))"
    using two_part_count [OF assms, of "\<lambda>i. bits s ! i OR bits t ! i" "(\<or>)" True]
    by (simp add: unionCount_def pop_union_def bit_or_iff Let_def Un_def)
  show "andNotCount s t = int (card (bset s - bset t))"
    using two_part_count [OF assms, of "\<lambda>i. bits s ! i AND NOT (bits t ! i)" "\<lambda>a b. a \<and> \<not> b" False]
    by (simp add: andNotCount_def pop_andnot_def bit_and_iff bit_not_iff Let_def set_diff_eq)
  have "(bset s - bset t) \<union> (bset t - bset s) = {m. (m \<in> bset s) \<noteq> (m \<in> bset t)}" by auto
  then show "xorCount s t = int (card ((bset s - bset t) \<union> (bset t - bset s)))"
    using two_part_count [OF assms, of "\<lambda>i. bits s ! i XOR bits t ! i" "(\<noteq>)" True]
    by (simp add: xorCount_def pop_xor_def bit_xor_iff Let_def)
qed

subsection \<open>Searching for the next set bit\<close>

definition least_from :: "nat set \<Rightarrow> nat \<Rightarrow> nat option \<Rightarrow> bool" where
  "least_from S i r \<longleftrightarrow> (case r of None \<Rightarrow> \<forall>m\<in>S. m < i
     | Some n \<Rightarrow> n \<in> S \<and> i \<le> n \<and> (\<forall>m\<in>S. i \<le> m \<longrightarrow> n \<le> m))"

definition next_result :: "nat option \<Rightarrow> int" where
  "next_result r = (case r of None \<Rightarrow> -1 | Some n \<Rightarrow> int n)"

lemma scanWords_spec:
  "case scanWords ws n i of None \<Rightarrow> \<forall>k. i \<le> k \<and> k < n \<longrightarrow> ws ! k = 0
   | Some k \<Rightarrow> i \<le> k \<and> k < n \<and> ws ! k \<noteq> 0 \<and> (\<forall>j. i \<le> j \<and> j < k \<longrightarrow> ws ! j = 0)"
proof (induction ws n i rule: scanWords.induct)
  case (1 ws n i)
  show ?case
  proof (cases "i < n \<and> ws ! i = 0")
    case True
    then have s: "scanWords ws n i = scanWords ws n (i + 1)" by (subst scanWords.simps) simp
    have "i \<le> j \<longleftrightarrow> j = i \<or> i + 1 \<le> j" for j by auto
    then show ?thesis using 1 True unfolding s by (auto split: option.splits)
  next
    case False
    then show ?thesis by (subst scanWords.simps) (auto split: option.splits)
  qed
qed

lemma least_in_word:
  assumes w: "k < wlen s" "first_bit (bits s ! k) n" "n < 64"
    and i: "i \<le> 64 * k + n" and z: "\<And>m. m \<in> bset s \<Longrightarrow> i \<le> m \<Longrightarrow> 64 * k \<le> m"
  shows "least_from (bset s) i (Some (64 * k + n))"
  unfolding least_from_def
proof (simp, intro conjI ballI impI)
  show "64 * k + n \<in> bset s" using w by (simp add: first_bit_def)
  show "i \<le> 64 * k + n" by (fact i)
next
  fix m assume m: "m \<in> bset s" "i \<le> m"
  then have ge: "64 * k \<le> m" by (rule z)
  show "64 * k + n \<le> m"
  proof (rule ccontr)
    assume "\<not> 64 * k + n \<le> m"
    then obtain j where j: "m = 64 * k + j" "j < n" using ge by (metis add_less_cancel_left le_Suc_ex not_le)
    then show False using m(1) w by (simp add: first_bit_def)
  qed
qed

lemma scan_least:
  assumes z: "\<And>m. m \<in> bset s \<Longrightarrow> i \<le> m \<Longrightarrow> 64 * k \<le> m" and i: "i \<le> 64 * k"
  shows "least_from (bset s) i
    (case scanWords (bits s) (wlen s) k of Some q \<Rightarrow> Some (64 * q + ntz64 (bits s ! q)) | None \<Rightarrow> None)"
proof (cases "scanWords (bits s) (wlen s) k")
  case None
  then have zero: "\<And>q. k \<le> q \<Longrightarrow> q < wlen s \<Longrightarrow> bits s ! q = 0"
    using scanWords_spec [where ws = "bits s" and n = "wlen s" and i = k] by simp
  have "m < i" if "m \<in> bset s" for m
  proof (rule ccontr)
    assume "\<not> m < i"
    then have "64 * k \<le> m" using z that by simp
    then have "k \<le> m div 64" by (simp add: less_eq_div_iff_mult_less_eq mult.commute)
    then show False using that zero [of "m div 64"] by (auto simp: bset_iff)
  qed
  then show ?thesis by (simp add: None least_from_def)
next
  case (Some q)
  then have q: "k \<le> q" "q < wlen s" "bits s ! q \<noteq> 0" "\<And>j. k \<le> j \<Longrightarrow> j < q \<Longrightarrow> bits s ! j = 0"
    using scanWords_spec [where ws = "bits s" and n = "wlen s" and i = k] by simp_all
  have f: "first_bit (bits s ! q) (ntz64 (bits s ! q))" by (rule ntz64_first_bit [OF q(3)])
  have n: "ntz64 (bits s ! q) < 64" using first_bit_less [OF f] by simp
  have "64 * q \<le> m" if "m \<in> bset s" "i \<le> m" for m
  proof -
    have "64 * k \<le> m" using z that by simp
    then have k: "k \<le> m div 64" by (simp add: less_eq_div_iff_mult_less_eq mult.commute)
    have "\<not> m div 64 < q" using that(1) q(4) [OF k] by (auto simp: bset_iff)
    then show ?thesis by (simp add: less_eq_div_iff_mult_less_eq mult.commute)
  qed
  then have "least_from (bset s) i (Some (64 * q + ntz64 (bits s ! q)))"
    using i q(1) by (intro least_in_word [OF q(2) f n]) auto
  then show ?thesis by (simp add: Some)
qed

text \<open>Both shifts, logical and arithmetic, keep the lowest set bit of the rest of the word.\<close>

lemma shifted_first_bit:
  fixes w :: int64
  assumes n: "k < 64" and v: "\<And>j. bit v j \<longleftrightarrow> (if j + k < 64 then bit w (j + k) else c \<and> j < 64 \<and> bit w 63)"
  shows "v \<noteq> 0 \<longleftrightarrow> (\<exists>j\<ge>k. bit w j)"
    and "v \<noteq> 0 \<Longrightarrow> bit w (ntz64 v + k) \<and> ntz64 v + k < 64 \<and> (\<forall>j. k \<le> j \<and> j < ntz64 v + k \<longrightarrow> \<not> bit w j)"
proof -
  have b64: "bit w j \<Longrightarrow> j < 64" for j using bit_imp_le_length [of w j] by simp
  have v63: "bit v j \<Longrightarrow> \<not> j + k < 64 \<Longrightarrow> bit v (63 - k) \<and> 63 - k < j" for j
    using v [of j] v [of "63 - k"] n by auto
  have "v \<noteq> 0 \<longleftrightarrow> (\<exists>j. bit v j)" using word_zero_iff [of v] by blast
  also have "\<dots> \<longleftrightarrow> (\<exists>j. j + k < 64 \<and> bit w (j + k))"
  proof
    assume "\<exists>j. bit v j"
    then obtain j where "bit v j" by blast
    then show "\<exists>j. j + k < 64 \<and> bit w (j + k)"
      using v [of j] v63 [of j] v [of "63 - k"] n by (cases "j + k < 64") (auto intro: exI [where x = "63 - k"])
  qed (use v in auto)
  also have "\<dots> \<longleftrightarrow> (\<exists>j\<ge>k. bit w j)"
    using b64 by (metis add.commute le_add2 le_Suc_ex)
  finally show "v \<noteq> 0 \<longleftrightarrow> (\<exists>j\<ge>k. bit w j)" .
  assume "v \<noteq> 0"
  then have f: "first_bit v (ntz64 v)" by (rule ntz64_first_bit)
  then have lt: "ntz64 v + k < 64" using v63 [of "ntz64 v"] unfolding first_bit_def by blast
  have "\<not> bit w j" if "k \<le> j" "j < ntz64 v + k" for j
    using f v [of "j - k"] that lt by (auto simp: first_bit_def)
  then show "bit w (ntz64 v + k) \<and> ntz64 v + k < 64 \<and> (\<forall>j. k \<le> j \<and> j < ntz64 v + k \<longrightarrow> \<not> bit w j)"
    using f v [of "ntz64 v"] lt by (auto simp: first_bit_def)
qed

lemma bit_less_64: "bit (w :: int64) j \<Longrightarrow> j < 64"
  using bit_imp_le_length [of w j] by simp

lemma bit_sdrop:
  fixes w :: int64
  assumes "k < 64"
  shows "bit (signed_drop_bit k w) j \<longleftrightarrow> (if j + k < 64 then bit w (j + k) else True \<and> j < 64 \<and> bit w 63)"
proof -
  have "LENGTH(64) - k \<le> j \<longleftrightarrow> \<not> j + k < 64" using assms by auto
  then show ?thesis
    using bit_less_64 [of w "k + j"] unfolding bit_signed_drop_bit_iff by (auto simp: add.commute numeral_eq_Suc)
qed

lemma shift_amount:
  assumes "0 \<le> m" "m < 64"
  shows "unat (of_int m AND (0x3f :: int64)) = nat m"
proof -
  have "(0x3f :: int64) = mask 6" by (simp add: mask_eq_exp_minus_1)
  then have "of_int m AND (0x3f :: int64) = take_bit 6 (of_int m)" by (simp only: take_bit_eq_mask)
  then have "uint (of_int m AND (0x3f :: int64)) = take_bit 6 (take_bit 64 m)"
    by (simp only: unsigned_take_bit_eq unsigned_of_int) simp
  also have "\<dots> = m" using assms by (simp add: take_bit_int_eq_self)
  finally show ?thesis by (metis nat_uint_eq)
qed

text \<open>One step of the search: the rest of the word of the index, then the words behind it.\<close>

lemma next_step:
  assumes q: "i div 64 < wlen s"
    and v: "\<And>j. bit v j \<longleftrightarrow> (if j + i mod 64 < 64 then bit (bits s ! (i div 64)) (j + i mod 64) else c \<and> j < 64 \<and> bit (bits s ! (i div 64)) 63)"
  shows "least_from (bset s) i
    (if v \<noteq> (0 :: int64) then Some (64 * (i div 64) + (ntz64 v + i mod 64))
     else case scanWords (bits s) (wlen s) (i div 64 + 1) of
       Some q \<Rightarrow> Some (64 * q + ntz64 (bits s ! q)) | None \<Rightarrow> None)"
proof -
  define k r where "k = i div 64" and "r = i mod 64"
  have i: "i = 64 * k + r" and r: "r < 64" by (simp_all add: k_def r_def)
  have v': "bit v j \<longleftrightarrow> (if j + r < 64 then bit (bits s ! k) (j + r) else c \<and> j < 64 \<and> bit (bits s ! k) 63)" for j
    using v by (simp add: k_def r_def)
  note sh = shifted_first_bit [OF r v']
  show ?thesis
  proof (cases "v = 0")
    case False
    note f = sh(2) [OF False]
    show ?thesis
      unfolding least_from_def k_def [symmetric] r_def [symmetric] using False
    proof (simp, intro conjI ballI impI)
      show "64 * k + (ntz64 v + r) \<in> bset s" using f q by (simp add: k_def)
      show "i \<le> 64 * k + (ntz64 v + r)" by (simp add: i)
    next
      fix m assume m: "m \<in> bset s" "i \<le> m"
      show "64 * k + (ntz64 v + r) \<le> m"
      proof (rule ccontr)
        assume a: "\<not> 64 * k + (ntz64 v + r) \<le> m"
        obtain j where j: "m = 64 * k + j" using m(2) i by (metis le_Suc_ex add.assoc)
        then have "r \<le> j" "j < ntz64 v + r" using a m(2) i by simp_all
        then show False using f m(1) j by simp
      qed
    qed
  next
    case True
    have "64 * (k + 1) \<le> m" if m: "m \<in> bset s" "i \<le> m" for m
    proof (rule ccontr)
      assume a: "\<not> 64 * (k + 1) \<le> m"
      obtain j where j: "m = 64 * k + j" using m(2) i by (metis le_Suc_ex add.assoc)
      then have "r \<le> j" "j < 64" using a m(2) i by simp_all
      then show False using True sh(1) m(1) j by auto
    qed
    from scan_least [OF this] have "least_from (bset s) i (case scanWords (bits s) (wlen s) (k + 1) of
       Some q \<Rightarrow> Some (64 * q + ntz64 (bits s ! q)) | None \<Rightarrow> None)" using i r by simp
    then show ?thesis unfolding k_def using True by simp
  qed
qed

lemma none_left: "wlen s \<le> i div 64 \<Longrightarrow> least_from (bset s) i None"
proof -
  assume a: "wlen s \<le> i div 64"
  have "m < i" if "m \<in> bset s" for m
  proof -
    have "m < 64 * wlen s" using that by (rule bset_bound)
    also have "\<dots> \<le> 64 * (i div 64)" using a by simp
    also have "\<dots> \<le> i" by simp
    finally show ?thesis .
  qed
  then show ?thesis by (simp add: least_from_def)
qed

lemma nextSetBit64_least:
  assumes ok: "obs_ok s" and i: "index_ok i"
  obtains r where "nextSetBit64 i s = Inr (next_result r)" "least_from (bset s) (nat i) r"
proof (cases "nat i div 64 < wlen s")
  case False
  then have "int (wlen s) \<le> i div 64" by (simp add: word_number_le [OF i])
  then have "nextSetBit64 i s = Inr (next_result None)"
    by (simp add: nextSetBit64_def index_okD [OF i] next_result_def)
  with none_left [of s "nat i"] False that show thesis by simp
next
  case True
  note n = index_okD [OF i]
  let ?v = "signed_drop_bit (nat (i mod 64)) (bits s ! (nat i div 64))"
  have i': "i div 64 = int (nat i div 64)" "i mod 64 = int (nat i mod 64)" using n(1) by (simp_all add: zdiv_int zmod_int)
  define K R where K_def: "K = nat i div 64" and R_def: "R = nat i mod 64"
  have tk: "trunc32 (int K) = int K" using n(2) unfolding i'(1) K_def .
  have "bit ?v j \<longleftrightarrow> (if j + nat i mod 64 < 64 then bit (bits s ! (nat i div 64)) (j + nat i mod 64)
      else True \<and> j < 64 \<and> bit (bits s ! (nat i div 64)) 63)" for j
    unfolding n(5) by (rule bit_sdrop) simp
  note l = next_step [OF True this]
  have "nextSetBit64 i s = Inr (next_result (if ?v \<noteq> 0 then Some (64 * (nat i div 64) + (ntz64 ?v + nat i mod 64))
     else case scanWords (bits s) (wlen s) (nat i div 64 + 1) of
       Some q \<Rightarrow> Some (64 * q + ntz64 (bits s ! q)) | None \<Rightarrow> None))"
    using True obs_okD(1) [OF ok]
    unfolding nextSetBit64_def Let_def n(2) i' K_def [symmetric] R_def [symmetric]
    by (simp add: tk word_at_def next_result_def nat_add_distrib split: option.splits)
  with l that show thesis by blast
qed

lemma nextSetBit32_least:
  assumes i: "0 \<le> i" "i < 2 ^ 31"
  obtains r where "nextSetBit32 i s = trunc32 (next_result r)" "least_from (bset s) (nat i) r"
proof -
  have u: "uint (unsignedShift32 (of_int i) 6) = int (nat i div 64)"
  proof -
    have "uint (of_int i :: int32) = i" using i by (simp add: unsigned_of_int take_bit_int_eq_self)
    then have "uint (drop_bit 6 (of_int i :: int32)) = i div 64"
      using i by (simp only: unsigned_drop_bit_eq) (simp add: drop_bit_eq_div take_bit_int_eq_self)
    then show ?thesis using i(1) by (simp add: unsignedShift32_drop zdiv_int)
  qed
  have n: "nat (i mod 64) = nat i mod 64" "i mod 64 = int (nat i mod 64)" using i(1) by (simp_all add: nat_mod_distrib zmod_int)
  define K R where K_def: "K = nat i div 64" and R_def: "R = nat i mod 64"
  show thesis
  proof (cases "nat i div 64 < wlen s")
    case False
    then have "nextSetBit32 i s = trunc32 (next_result None)" by (simp add: nextSetBit32_def u next_result_def)
    with none_left [of s "nat i"] False that show thesis by simp
  next
    case True
    let ?v = "unsignedShift64 (bits s ! (nat i div 64)) (of_int (i mod 64))"
    have m: "unat (of_int (i mod 64) AND (0x3f :: int64)) = nat i mod 64"
      using shift_amount [of "i mod 64"] n by simp
    have "bit ?v j \<longleftrightarrow> (if j + nat i mod 64 < 64 then bit (bits s ! (nat i div 64)) (j + nat i mod 64)
        else False \<and> j < 64 \<and> bit (bits s ! (nat i div 64)) 63)" for j
      unfolding unsignedShift64_drop m by (auto simp: bit_drop_bit_eq add.commute dest: bit_imp_le_length)
    note l = next_step [OF True this]
    have "nextSetBit32 i s = trunc32 (next_result (if ?v \<noteq> 0 then Some (64 * (nat i div 64) + (ntz64 ?v + nat i mod 64))
       else case scanWords (bits s) (wlen s) (nat i div 64 + 1) of
         Some q \<Rightarrow> Some (64 * q + ntz64 (bits s ! q)) | None \<Rightarrow> None))"
      using True unfolding nextSetBit32_def Let_def u n(2) K_def [symmetric] R_def [symmetric]
      by (simp add: next_result_def add.commute add.left_commute split: option.splits)
    with l that show thesis by blast
  qed
qed

subsection \<open>Equality, hash and trimming\<close>

lemma all_zero_down_iff: "all_zero_down lo n ws \<longleftrightarrow> (\<forall>k. lo \<le> k \<and> k < n \<longrightarrow> ws ! k = 0)"
  by (induction lo n ws rule: all_zero_down.induct) (auto simp: less_Suc_eq)

lemma all_equal_down_iff: "all_equal_down n v w \<longleftrightarrow> (\<forall>k<n. v ! k = w ! k)"
  by (induction n v w rule: all_equal_down.induct) (auto simp: less_Suc_eq)

lemma word_bits_eq: "v = w \<longleftrightarrow> (\<forall>j<64. bit v j \<longleftrightarrow> bit w j)" for v w :: int64
  by (auto intro: bit_word_eqI)

lemma word_bits_zero: "w = 0 \<longleftrightarrow> (\<forall>j<64. \<not> bit w j)" for w :: int64
  by (auto intro: bit_word_eqI)

lemma words_of_equal_sets:
  assumes "bset s = bset t" "k < wlen s"
  shows "bits s ! k = (if k < wlen t then bits t ! k else 0)"
proof -
  have "bit (bits s ! k) j \<longleftrightarrow> k < wlen t \<and> bit (bits t ! k) j" if "j < 64" for j
    using assms that bset_word_iff [OF that, of k s] bset_word_iff [OF that, of k t] by simp
  then show ?thesis by (cases "k < wlen t") (simp_all add: word_bits_eq [of "bits s ! k"])
qed

lemma obs_equals_ordered:
  assumes "wlen t \<le> wlen s"
  shows "all_zero_down (wlen t) (wlen s) (bits s) \<and> all_equal_down (wlen t) (bits s) (bits t) \<longleftrightarrow> bset s = bset t"
proof
  assume a: "all_zero_down (wlen t) (wlen s) (bits s) \<and> all_equal_down (wlen t) (bits s) (bits t)"
  show "bset s = bset t"
  proof (rule bset_eqI)
    fix k j :: nat
    assume "j < 64"
    then show "64 * k + j \<in> bset s \<longleftrightarrow> 64 * k + j \<in> bset t"
      using a assms by (cases "k < wlen t"; cases "k < wlen s") (auto simp: all_zero_down_iff all_equal_down_iff)
  qed
next
  assume "bset s = bset t"
  from words_of_equal_sets [OF this] show "all_zero_down (wlen t) (wlen s) (bits s) \<and> all_equal_down (wlen t) (bits s) (bits t)"
    using assms by (auto simp: all_zero_down_iff all_equal_down_iff)
qed

lemma obs_equals_iff: "obs_equals s t \<longleftrightarrow> bset s = bset t"
proof (cases "wlen s < wlen t")
  case True
  then show ?thesis using obs_equals_ordered [of s t] by (auto simp: obs_equals_def)
next
  case False
  then show ?thesis using obs_equals_ordered [of t s] by (auto simp: obs_equals_def)
qed

lemma hash_loop_cong: "(\<forall>k<n. v ! k = w ! k) \<Longrightarrow> hash_loop n v h = hash_loop n w h"
  by (induction n arbitrary: h) (simp_all add: Let_def)

lemma hash_loop_zeros: "(\<forall>k. n \<le> k \<and> k < n + m \<longrightarrow> ws ! k = 0) \<Longrightarrow> hash_loop (n + m) ws 0 = hash_loop n ws 0"
  by (induction m) (simp_all add: Let_def unsignedShift64_drop)

lemma hash_short:
  assumes "obs_ok s" "bset s = bset t" "obs_ok t" "length (bits s) \<le> length (bits t)"
  shows "obs_hashCode s = obs_hashCode t"
proof -
  have eq: "bits s ! k = bits t ! k" if "k < length (bits s)" for k
  proof (cases "k < wlen s")
    case True
    then show ?thesis
      using words_of_equal_sets [OF assms(2) True] obs_okD(2) [OF assms(3), of k] that assms(4) by simp
  next
    case False
    then have "bits s ! k = 0" using obs_okD(2) [OF assms(1), of k] that by simp
    moreover have "bits t ! k = 0"
      using words_of_equal_sets [OF assms(2) [symmetric], of k] obs_okD(2) [OF assms(3), of k] that assms(4) False
      by (cases "k < wlen t") simp_all
    ultimately show ?thesis by simp
  qed
  have zero: "bits t ! k = 0" if "length (bits s) \<le> k" "k < length (bits t)" for k
    using that obs_okD(2) [OF assms(3), of k] words_of_equal_sets [OF assms(2) [symmetric], of k] obs_okD(1) [OF assms(1)]
    by (cases "k < wlen t") simp_all
  have "hash_loop (length (bits t)) (bits t) 0 = hash_loop (length (bits s)) (bits t) 0"
    using hash_loop_zeros [of "length (bits s)" "length (bits t) - length (bits s)" "bits t"] zero assms(4) by simp
  also have "\<dots> = hash_loop (length (bits s)) (bits s) 0" by (rule hash_loop_cong) (simp add: eq)
  finally show ?thesis by (simp add: obs_hashCode_def)
qed

lemma trim_loop_facts:
  "trim_loop ws n \<le> n \<and> (\<forall>k. trim_loop ws n \<le> k \<and> k < n \<longrightarrow> ws ! k = 0) \<and>
   (0 < trim_loop ws n \<longrightarrow> ws ! (trim_loop ws n - 1) \<noteq> 0)"
  by (induction ws n rule: trim_loop.induct) (auto simp: less_Suc_eq)

lemma trim_facts:
  assumes "obs_ok s"
  shows "obs_ok (trimTrailingZeros s)" "bset (trimTrailingZeros s) = bset s"
    "0 < wlen (trimTrailingZeros s) \<Longrightarrow> bits s ! (wlen (trimTrailingZeros s) - 1) \<noteq> 0"
proof -
  note f = trim_loop_facts [of "bits s" "wlen s"] and ok = obs_okD [OF assms]
  have z: "bits s ! k = 0" if "trim_loop (bits s) (wlen s) \<le> k" "k < length (bits s)" for k
    using f ok that by (cases "k < wlen s") simp_all
  show "obs_ok (trimTrailingZeros s)"
    using z f ok(1) by (auto simp: obs_ok_def trimTrailingZeros_def)
  show "bset (trimTrailingZeros s) = bset s"
  proof (rule bset_eqI)
    fix k j :: nat
    assume "j < 64"
    then show "64 * k + j \<in> bset (trimTrailingZeros s) \<longleftrightarrow> 64 * k + j \<in> bset s"
      using f by (cases "k < wlen s") (auto simp: trimTrailingZeros_def not_less [symmetric])
  qed
  show "0 < wlen (trimTrailingZeros s) \<Longrightarrow> bits s ! (wlen (trimTrailingZeros s) - 1) \<noteq> 0"
    using f by (simp add: trimTrailingZeros_def)
qed

lemma least_from_unique: "least_from S i q \<Longrightarrow> least_from S i r \<Longrightarrow> q = r"
  unfolding least_from_def by (cases q; cases r) (auto intro: antisym simp: not_less [symmetric])

subsection \<open>The properties\<close>

text \<open>
  Single bits. In every reachable state (\<open>obs_ok\<close>), \<^verbatim>\<open>get\<close> answers membership for
  every index, also beyond the array; \<^verbatim>\<open>set\<close>, \<^verbatim>\<open>clear\<close> and \<^verbatim>\<open>flip\<close> insert,
  remove and toggle exactly the bit of their index, growing the set where needed, and keep the
  invariant, so that no word is ever accessed out of range.
\<close>

theorem obs_single_bits:
  assumes "obs_ok s" "index_ok i"
  shows "obs_get32 i s = Inr (nat i \<in> bset s) \<and> obs_get64 i s = Inr (nat i \<in> bset s) \<and>
    (\<exists>t. obs_set i s = Inr t \<and> obs_ok t \<and> bset t = insert (nat i) (bset s)) \<and>
    (\<exists>t. obs_clear i s = Inr t \<and> obs_ok t \<and> bset t = bset s - {nat i}) \<and>
    (\<exists>t. obs_flip i s = Inr t \<and> obs_ok t \<and>
      bset t = (if nat i \<in> bset s then bset s - {nat i} else insert (nat i) (bset s)))"
proof (intro conjI)
  show "\<exists>t. obs_set i s = Inr t \<and> obs_ok t \<and> bset t = insert (nat i) (bset s)"
    by (rule set_adds [OF assms]) blast
  show "\<exists>t. obs_clear i s = Inr t \<and> obs_ok t \<and> bset t = bset s - {nat i}"
    by (rule clear_removes [OF assms]) blast
  show "\<exists>t. obs_flip i s = Inr t \<and> obs_ok t \<and>
      bset t = (if nat i \<in> bset s then bset s - {nat i} else insert (nat i) (bset s))"
    by (rule flip_toggles [OF assms]) blast
qed (rule get_bset [OF assms])+

lemma empty_obs_ok: "obs_ok \<lparr>bits = [], wlen = 0\<rparr>" "bset \<lparr>bits = [], wlen = 0\<rparr> = {}"
  by (simp_all add: obs_ok_def bset_def obs_bit_def)

theorem obs_single_bits_witness:
  "\<exists>t. obs_set 700 \<lparr>bits = [], wlen = 0\<rparr> = Inr t \<and> bset t = {700}"
  using obs_single_bits [OF empty_obs_ok(1), of 700] by (auto simp: index_ok_def empty_obs_ok)

text \<open>
  C14. Ranges. \<^verbatim>\<open>set\<close>, \<^verbatim>\<open>clear\<close> (both overloads) and \<^verbatim>\<open>flip\<close> over \<open>[a, b)\<close> change
  exactly the indices of the range, in any number of words, and keep the invariant, for ranges
  within the first \<open>2 ^ 36\<close> indices, where the 32-bit sizes the array grows to cannot wrap.
\<close>

theorem obs_ranges:
  assumes "obs_ok s" "index_ok a" "index_ok (b - 1)" "a < b"
  shows "(\<exists>t. obs_setRange a b s = Inr t \<and> obs_ok t \<and> bset t = bset s \<union> {nat a..<nat b}) \<and>
    (\<exists>t. obs_clearRange64 a b s = Inr t \<and> obs_clearRange32 a b s = Inr t \<and> obs_ok t \<and>
      bset t = bset s - {nat a..<nat b}) \<and>
    (\<exists>t. obs_flipRange a b s = Inr t \<and> obs_ok t \<and>
      bset t = {m. if m \<in> {nat a..<nat b} then m \<notin> bset s else m \<in> bset s})"
proof (intro conjI)
  show "\<exists>t. obs_setRange a b s = Inr t \<and> obs_ok t \<and> bset t = bset s \<union> {nat a..<nat b}"
    by (rule setRange_adds [OF assms]) blast
  show "\<exists>t. obs_flipRange a b s = Inr t \<and> obs_ok t \<and>
      bset t = {m. if m \<in> {nat a..<nat b} then m \<notin> bset s else m \<in> bset s}"
    by (rule flipRange_toggles [OF assms]) blast
qed (rule clearRange_removes [OF assms])

theorem obs_ranges_witness:
  "\<exists>t. obs_setRange 60 200 \<lparr>bits = [], wlen = 0\<rparr> = Inr t \<and> bset t = {60..<200}"
  using obs_ranges [OF empty_obs_ok(1), of 60 200] by (auto simp: index_ok_def empty_obs_ok)

text \<open>
  C17. Set algebra and counts. For sets of at most \<open>2 ^ 30\<close> words, where the 32-bit sizes the
  array grows to cannot wrap, the bulk operations never fail and are intersection, union,
  difference and symmetric difference of the sets, \<^verbatim>\<open>intersects\<close> decides overlap, and every
  count that is computed without building the result is its cardinality.
\<close>

theorem obs_algebra:
  assumes "count_ok s" "count_ok t"
  shows "bset (intersect s t) = bset s \<inter> bset t \<and> obs_ok (intersect s t) \<and>
    (\<exists>u. obs_union s t = Inr u \<and> obs_ok u \<and> bset u = bset s \<union> bset t) \<and>
    bset (obs_remove s t) = bset s - bset t \<and> obs_ok (obs_remove s t) \<and>
    (\<exists>u. obs_xor s t = Inr u \<and> obs_ok u \<and> bset u = (bset s - bset t) \<union> (bset t - bset s)) \<and>
    (intersects s t \<longleftrightarrow> bset s \<inter> bset t \<noteq> {}) \<and>
    cardinality s = int (card (bset s)) \<and>
    intersectionCount s t = int (card (bset s \<inter> bset t)) \<and>
    unionCount s t = int (card (bset s \<union> bset t)) \<and>
    andNotCount s t = int (card (bset s - bset t)) \<and>
    xorCount s t = int (card ((bset s - bset t) \<union> (bset t - bset s)))"
proof -
  have ok: "obs_ok s" "obs_ok t" "wlen s \<le> 2 ^ 30" "wlen t \<le> 2 ^ 30" using assms by (simp_all add: count_ok_def)
  show ?thesis
    using intersect_set [OF ok(1,2)] union_set [OF ok] remove_set [OF ok(1,2)] xor_set [OF ok] intersects_set [of s t]
      cardinality_card [OF assms(1)] intersectionCount_card [OF assms] set_counts [OF assms] by blast
qed

theorem obs_algebra_witness:
  "\<exists>u. obs_xor \<lparr>bits = [6], wlen = 1\<rparr> \<lparr>bits = [3, 1], wlen = 2\<rparr> = Inr u \<and>
     bset u = (bset \<lparr>bits = [6], wlen = 1\<rparr> - bset \<lparr>bits = [3, 1], wlen = 2\<rparr>) \<union>
     (bset \<lparr>bits = [3, 1], wlen = 2\<rparr> - bset \<lparr>bits = [6], wlen = 1\<rparr>)"
  using obs_algebra [of "\<lparr>bits = [6], wlen = 1\<rparr>" "\<lparr>bits = [3, 1], wlen = 2\<rparr>"]
  by (auto simp: count_ok_def obs_ok_def)



text \<open>
  \<^verbatim>\<open>equals\<close> compares the sets and not the arrays: it ignores capacity and trailing zero
  words. Equal sets have the same \<^verbatim>\<open>hashCode\<close>, and trimming trailing zeros changes neither.
\<close>

theorem obs_equality:
  assumes "obs_ok s" "obs_ok t"
  shows "(obs_equals s t \<longleftrightarrow> bset s = bset t) \<and>
    (obs_equals s t \<longrightarrow> obs_hashCode s = obs_hashCode t) \<and>
    obs_equals s (trimTrailingZeros s) \<and> obs_hashCode (trimTrailingZeros s) = obs_hashCode s"
proof -
  have h: "obs_hashCode u = obs_hashCode v" if "obs_ok u" "obs_ok v" "bset u = bset v" for u v
    using hash_short [of u v] hash_short [of v u] that by (metis nat_le_linear)
  show ?thesis
    using h [OF assms] h [OF trim_facts(1) [OF assms(1)] assms(1)] trim_facts(2) [OF assms(1)]
    by (auto simp: obs_equals_iff)
qed

theorem obs_equality_witness:
  "obs_hashCode \<lparr>bits = [6, 0, 0], wlen = 2\<rparr> = obs_hashCode \<lparr>bits = [6], wlen = 1\<rparr>"
proof -
  have "obs_ok \<lparr>bits = [6, 0, 0], wlen = 2\<rparr>" "obs_ok \<lparr>bits = [6], wlen = 1\<rparr>"
    by (auto simp: obs_ok_def nth_Cons')
  moreover have "obs_equals \<lparr>bits = [6, 0, 0], wlen = 2\<rparr> \<lparr>bits = [6], wlen = 1\<rparr>"
    by (simp add: obs_equals_def numeral_2_eq_2)
  ultimately show ?thesis using obs_equality by blast
qed

end
