(* ===== verification/AccentFilters.thy ===== *)
theory AccentFilters imports LucenePrelude begin

text \<open>
  The two token filters that replace accented characters:
  \<^verbatim>\<open>ASCIIFoldingFilter.cpp\<close> and \<^verbatim>\<open>ISOLatin1AccentFilter.cpp\<close>. The \<^verbatim>\<open>switch\<close> of
  each is a table of (case labels, characters appended), in the order and the grouping of the
  source; a \<^verbatim>\<open>wchar_t\<close> is an \<open>int\<close>. The output array is the object's growable array,
  written through a raw pointer: a write behind its end is \<open>OutOfRange\<close> in the model. What the
  array holds before the writes does not matter. The interface \<open>char_folding\<close> is what the shared
  append loop needs: a bound on the characters one input character becomes.
\<close>

subsection \<open>Appending to the output array\<close>

text \<open>\<^verbatim>\<open>output[outputPos++] = x\<close>, for the characters of one \<^verbatim>\<open>case\<close>.\<close>

fun emit :: "int list \<Rightarrow> int list \<times> nat \<Rightarrow> (int list \<times> nat) result" where
  "emit [] s = Inr s"
| "emit (x # xs) (out, p) = bind_r (arr_set out p x) (\<lambda>out. emit xs (out, Suc p))"

fun fold_loop :: "(int \<Rightarrow> int list) \<Rightarrow> int list \<Rightarrow> int list \<times> nat \<Rightarrow> (int list \<times> nat) result" where
  "fold_loop f [] s = Inr s"
| "fold_loop f (c # cs) s = bind_r (emit (f c) s) (fold_loop f cs)"

text \<open>The entry of the \<^verbatim>\<open>switch\<close> for a character; the default case keeps it.\<close>

definition switch_char :: "(int list \<times> int list) list \<Rightarrow> int \<Rightarrow> int list" where
  "switch_char table c = (case List.find (\<lambda>(cs, out). c \<in> set cs) table of Some (cs, out) \<Rightarrow> out | None \<Rightarrow> [c])"

record fold_state =
  f_output :: "int list"
  f_pos :: nat

subsection \<open>ASCIIFoldingFilter\<close>

definition fold_cases_1 :: "(int list \<times> int list) list" where
  "fold_cases_1 = [
    ([0x00C0, 0x00C1, 0x00C2, 0x00C3, 0x00C4, 0x00C5, 0x0100, 0x0102, 0x0104, 0x018F, 0x01CD, 0x01DE,
      0x01E0, 0x01FA, 0x0200, 0x0202, 0x0226, 0x023A, 0x1D00, 0x1E00, 0x1EA0, 0x1EA2, 0x1EA4, 0x1EA6,
      0x1EA8, 0x1EAA, 0x1EAC, 0x1EAE, 0x1EB0, 0x1EB2, 0x1EB4, 0x1EB6, 0x24B6, 0xFF21], [0x41]),
    ([0x00E0, 0x00E1, 0x00E2, 0x00E3, 0x00E4, 0x00E5, 0x0101, 0x0103, 0x0105, 0x01CE, 0x01DF, 0x01E1,
      0x01FB, 0x0201, 0x0203, 0x0227, 0x0250, 0x0259, 0x025A, 0x1D8F, 0x1D95, 0x1E01, 0x1E9A, 0x1EA1,
      0x1EA3, 0x1EA5, 0x1EA7, 0x1EA9, 0x1EAB, 0x1EAD, 0x1EAF, 0x1EB1, 0x1EB3, 0x1EB5, 0x1EB7, 0x2090,
      0x2094, 0x24D0, 0x2C65, 0x2C6F, 0xFF41], [0x61]),
    ([0xA732], [0x41, 0x41]),
    ([0x00C6, 0x01E2, 0x01FC, 0x1D01], [0x41, 0x45]),
    ([0xA734], [0x41, 0x4F]),
    ([0xA736], [0x41, 0x55]),
    ([0xA738, 0xA73A], [0x41, 0x56]),
    ([0xA73C], [0x41, 0x59]),
    ([0x249C], [0x28, 0x61, 0x29]),
    ([0xA733], [0x61, 0x61]),
    ([0x00E6, 0x01E3, 0x01FD, 0x1D02], [0x61, 0x65]),
    ([0xA735], [0x61, 0x6F]),
    ([0xA737], [0x61, 0x75]),
    ([0xA739, 0xA73B], [0x61, 0x76]),
    ([0xA73D], [0x61, 0x79])]"

definition fold_cases_2 :: "(int list \<times> int list) list" where
  "fold_cases_2 = [
    ([0x0181, 0x0182, 0x0243, 0x0299, 0x1D03, 0x1E02, 0x1E04, 0x1E06, 0x24B7, 0xFF22], [0x42]),
    ([0x0180, 0x0183, 0x0253, 0x1D6C, 0x1D80, 0x1E03, 0x1E05, 0x1E07, 0x24D1, 0xFF42], [0x62]),
    ([0x249D], [0x28, 0x62, 0x29]),
    ([0x00C7, 0x0106, 0x0108, 0x010A, 0x010C, 0x0187, 0x023B, 0x0297, 0x1D04, 0x1E08, 0x24B8, 0xFF23],
      [0x43]),
    ([0x00E7, 0x0107, 0x0109, 0x010B, 0x010D, 0x0188, 0x023C, 0x0255, 0x1E09, 0x2184, 0x24D2, 0xA73E,
      0xA73F, 0xFF43], [0x63]),
    ([0x249E], [0x28, 0x63, 0x29]),
    ([0x00D0, 0x010E, 0x0110, 0x0189, 0x018A, 0x018B, 0x1D05, 0x1D06, 0x1E0A, 0x1E0C, 0x1E0E, 0x1E10,
      0x1E12, 0x24B9, 0xA779, 0xFF24], [0x44]),
    ([0x00F0, 0x010F, 0x0111, 0x018C, 0x0221, 0x0256, 0x0257, 0x1D6D, 0x1D81, 0x1D91, 0x1E0B, 0x1E0D,
      0x1E0F, 0x1E11, 0x1E13, 0x24D3, 0xA77A, 0xFF44], [0x64]),
    ([0x01C4, 0x01F1], [0x44, 0x5A]),
    ([0x01C5, 0x01F2], [0x44, 0x7A]),
    ([0x249F], [0x28, 0x64, 0x29]),
    ([0x0238], [0x64, 0x62]),
    ([0x01C6, 0x01F3, 0x02A3, 0x02A5], [0x64, 0x7A])]"

definition fold_cases_3 :: "(int list \<times> int list) list" where
  "fold_cases_3 = [
    ([0x00C8, 0x00C9, 0x00CA, 0x00CB, 0x0112, 0x0114, 0x0116, 0x0118, 0x011A, 0x018E, 0x0190, 0x0204,
      0x0206, 0x0228, 0x0246, 0x1D07, 0x1E14, 0x1E16, 0x1E18, 0x1E1A, 0x1E1C, 0x1EB8, 0x1EBA, 0x1EBC,
      0x1EBE, 0x1EC0, 0x1EC2, 0x1EC4, 0x1EC6, 0x24BA, 0x2C7B, 0xFF25], [0x45]),
    ([0x00E8, 0x00E9, 0x00EA, 0x00EB, 0x0113, 0x0115, 0x0117, 0x0119, 0x011B, 0x01DD, 0x0205, 0x0207,
      0x0229, 0x0247, 0x0258, 0x025B, 0x025C, 0x025D, 0x025E, 0x029A, 0x1D08, 0x1D92, 0x1D93, 0x1D94,
      0x1E15, 0x1E17, 0x1E19, 0x1E1B, 0x1E1D, 0x1EB9, 0x1EBB, 0x1EBD, 0x1EBF, 0x1EC1, 0x1EC3, 0x1EC5,
      0x1EC7, 0x2091, 0x24D4, 0x2C78, 0xFF45], [0x65]),
    ([0x24A0], [0x28, 0x65, 0x29]),
    ([0x0191, 0x1E1E, 0x24BB, 0xA730, 0xA77B, 0xA7FB, 0xFF26], [0x46]),
    ([0x0192, 0x1D6E, 0x1D82, 0x1E1F, 0x1E9B, 0x24D5, 0xA77C, 0xFF46], [0x66]),
    ([0x24A1], [0x28, 0x66, 0x29]),
    ([0xFB00], [0x66, 0x66]),
    ([0xFB03], [0x66, 0x66, 0x69]),
    ([0xFB04], [0x66, 0x66, 0x6C]),
    ([0xFB01], [0x66, 0x69]),
    ([0xFB02], [0x66, 0x6C])]"

definition fold_cases_4 :: "(int list \<times> int list) list" where
  "fold_cases_4 = [
    ([0x011C, 0x011E, 0x0120, 0x0122, 0x0193, 0x01E4, 0x01E5, 0x01E6, 0x01E7, 0x01F4, 0x0262, 0x029B,
      0x1E20, 0x24BC, 0xA77D, 0xA77E, 0xFF27], [0x47]),
    ([0x011D, 0x011F, 0x0121, 0x0123, 0x01F5, 0x0260, 0x0261, 0x1D77, 0x1D79, 0x1D83, 0x1E21, 0x24D6,
      0xA77F, 0xFF47], [0x67]),
    ([0x24A2], [0x28, 0x67, 0x29]),
    ([0x0124, 0x0126, 0x021E, 0x029C, 0x1E22, 0x1E24, 0x1E26, 0x1E28, 0x1E2A, 0x24BD, 0x2C67, 0x2C75,
      0xFF28], [0x48]),
    ([0x0125, 0x0127, 0x021F, 0x0265, 0x0266, 0x02AE, 0x02AF, 0x1E23, 0x1E25, 0x1E27, 0x1E29, 0x1E2B,
      0x1E96, 0x24D7, 0x2C68, 0x2C76, 0xFF48], [0x68]),
    ([0x01F6], [0x48, 0x56]),
    ([0x24A3], [0x28, 0x68, 0x29]),
    ([0x0195], [0x68, 0x76]),
    ([0x00CC, 0x00CD, 0x00CE, 0x00CF, 0x0128, 0x012A, 0x012C, 0x012E, 0x0130, 0x0196, 0x0197, 0x01CF,
      0x0208, 0x020A, 0x026A, 0x1D7B, 0x1E2C, 0x1E2E, 0x1EC8, 0x1ECA, 0x24BE, 0xA7FE, 0xFF29], [0x49]),
    ([0x00EC, 0x00ED, 0x00EE, 0x00EF, 0x0129, 0x012B, 0x012D, 0x012F, 0x0131, 0x01D0, 0x0209, 0x020B,
      0x0268, 0x1D09, 0x1D62, 0x1D7C, 0x1D96, 0x1E2D, 0x1E2F, 0x1EC9, 0x1ECB, 0x2071, 0x24D8, 0xFF49],
      [0x69]),
    ([0x0132], [0x49, 0x4A])]"

definition fold_cases_5 :: "(int list \<times> int list) list" where
  "fold_cases_5 = [
    ([0x24A4], [0x28, 0x69, 0x29]),
    ([0x0133], [0x69, 0x6A]),
    ([0x0134, 0x0248, 0x1D0A, 0x24BF, 0xFF2A], [0x4A]),
    ([0x0135, 0x01F0, 0x0237, 0x0249, 0x025F, 0x0284, 0x029D, 0x24D9, 0x2C7C, 0xFF4A], [0x6A]),
    ([0x24A5], [0x28, 0x6A, 0x29]),
    ([0x0136, 0x0198, 0x01E8, 0x1D0B, 0x1E30, 0x1E32, 0x1E34, 0x24C0, 0x2C69, 0xA740, 0xA742, 0xA744,
      0xFF2B], [0x4B]),
    ([0x0137, 0x0199, 0x01E9, 0x029E, 0x1D84, 0x1E31, 0x1E33, 0x1E35, 0x24DA, 0x2C6A, 0xA741, 0xA743,
      0xA745, 0xFF4B], [0x6B]),
    ([0x24A6], [0x28, 0x6B, 0x29]),
    ([0x0139, 0x013B, 0x013D, 0x013F, 0x0141, 0x023D, 0x029F, 0x1D0C, 0x1E36, 0x1E38, 0x1E3A, 0x1E3C,
      0x24C1, 0x2C60, 0x2C62, 0xA746, 0xA748, 0xA780, 0xFF2C], [0x4C]),
    ([0x013A, 0x013C, 0x013E, 0x0140, 0x0142, 0x019A, 0x0234, 0x026B, 0x026C, 0x026D, 0x1D85, 0x1E37,
      0x1E39, 0x1E3B, 0x1E3D, 0x24DB, 0x2C61, 0xA747, 0xA749, 0xA781, 0xFF4C], [0x6C]),
    ([0x01C7], [0x4C, 0x4A]),
    ([0x1EFA], [0x4C, 0x4C]),
    ([0x01C8], [0x4C, 0x6A]),
    ([0x24A7], [0x28, 0x6C, 0x29]),
    ([0x01C9], [0x6C, 0x6A]),
    ([0x1EFB], [0x6C, 0x6C]),
    ([0x02AA], [0x6C, 0x73])]"

definition fold_cases_6 :: "(int list \<times> int list) list" where
  "fold_cases_6 = [
    ([0x02AB], [0x6C, 0x7A]),
    ([0x019C, 0x1D0D, 0x1E3E, 0x1E40, 0x1E42, 0x24C2, 0x2C6E, 0xA7FD, 0xA7FF, 0xFF2D], [0x4D]),
    ([0x026F, 0x0270, 0x0271, 0x1D6F, 0x1D86, 0x1E3F, 0x1E41, 0x1E43, 0x24DC, 0xFF4D], [0x6D]),
    ([0x24A8], [0x28, 0x6D, 0x29]),
    ([0x00D1, 0x0143, 0x0145, 0x0147, 0x014A, 0x019D, 0x01F8, 0x0220, 0x0274, 0x1D0E, 0x1E44, 0x1E46,
      0x1E48, 0x1E4A, 0x24C3, 0xFF2E], [0x4E]),
    ([0x00F1, 0x0144, 0x0146, 0x0148, 0x0149, 0x014B, 0x019E, 0x01F9, 0x0235, 0x0272, 0x0273, 0x1D70,
      0x1D87, 0x1E45, 0x1E47, 0x1E49, 0x1E4B, 0x207F, 0x24DD, 0xFF4E], [0x6E]),
    ([0x01CA], [0x4E, 0x4A]),
    ([0x01CB], [0x4E, 0x6A]),
    ([0x24A9], [0x28, 0x6E, 0x29]),
    ([0x01CC], [0x6E, 0x6A]),
    ([0x00D2, 0x00D3, 0x00D4, 0x00D5, 0x00D6, 0x00D8, 0x014C, 0x014E, 0x0150, 0x0186, 0x019F, 0x01A0,
      0x01D1, 0x01EA, 0x01EC, 0x01FE, 0x020C, 0x020E, 0x022A, 0x022C, 0x022E, 0x0230, 0x1D0F, 0x1D10,
      0x1E4C, 0x1E4E, 0x1E50, 0x1E52, 0x1ECC, 0x1ECE, 0x1ED0, 0x1ED2, 0x1ED4, 0x1ED6, 0x1ED8, 0x1EDA,
      0x1EDC, 0x1EDE, 0x1EE0, 0x1EE2, 0x24C4, 0xA74A, 0xA74C, 0xFF2F], [0x4F])]"

definition fold_cases_7 :: "(int list \<times> int list) list" where
  "fold_cases_7 = [
    ([0x00F2, 0x00F3, 0x00F4, 0x00F5, 0x00F6, 0x00F8, 0x014D, 0x014F, 0x0151, 0x01A1, 0x01D2, 0x01EB,
      0x01ED, 0x01FF, 0x020D, 0x020F, 0x022B, 0x022D, 0x022F, 0x0231, 0x0254, 0x0275, 0x1D16, 0x1D17,
      0x1D97, 0x1E4D, 0x1E4F, 0x1E51, 0x1E53, 0x1ECD, 0x1ECF, 0x1ED1, 0x1ED3, 0x1ED5, 0x1ED7, 0x1ED9,
      0x1EDB, 0x1EDD, 0x1EDF, 0x1EE1, 0x1EE3, 0x2092, 0x24DE, 0x2C7A, 0xA74B, 0xA74D, 0xFF4F], [0x6F]),
    ([0x0152, 0x0276], [0x4F, 0x45]),
    ([0xA74E], [0x4F, 0x4F]),
    ([0x0222, 0x1D15], [0x4F, 0x55]),
    ([0x24AA], [0x28, 0x6F, 0x29]),
    ([0x0153, 0x1D14], [0x6F, 0x65]),
    ([0xA74F], [0x6F, 0x6F]),
    ([0x0223], [0x6F, 0x75]),
    ([0x01A4, 0x1D18, 0x1E54, 0x1E56, 0x24C5, 0x2C63, 0xA750, 0xA752, 0xA754, 0xFF30], [0x50]),
    ([0x01A5, 0x1D71, 0x1D7D, 0x1D88, 0x1E55, 0x1E57, 0x24DF, 0xA751, 0xA753, 0xA755, 0xA7FC, 0xFF50],
      [0x70]),
    ([0x24AB], [0x28, 0x70, 0x29]),
    ([0x024A, 0x24C6, 0xA756, 0xA758, 0xFF31], [0x51]),
    ([0x0138, 0x024B, 0x02A0, 0x24E0, 0xA757, 0xA759, 0xFF51], [0x71]),
    ([0x24AC], [0x28, 0x71, 0x29]),
    ([0x0239], [0x71, 0x70])]"

definition fold_cases_8 :: "(int list \<times> int list) list" where
  "fold_cases_8 = [
    ([0x0154, 0x0156, 0x0158, 0x0210, 0x0212, 0x024C, 0x0280, 0x0281, 0x1D19, 0x1D1A, 0x1E58, 0x1E5A,
      0x1E5C, 0x1E5E, 0x24C7, 0x2C64, 0xA75A, 0xA782, 0xFF32], [0x52]),
    ([0x0155, 0x0157, 0x0159, 0x0211, 0x0213, 0x024D, 0x027C, 0x027D, 0x027E, 0x027F, 0x1D63, 0x1D72,
      0x1D73, 0x1D89, 0x1E59, 0x1E5B, 0x1E5D, 0x1E5F, 0x24E1, 0xA75B, 0xA783, 0xFF52], [0x72]),
    ([0x24AD], [0x28, 0x72, 0x29]),
    ([0x015A, 0x015C, 0x015E, 0x0160, 0x0218, 0x1E60, 0x1E62, 0x1E64, 0x1E66, 0x1E68, 0x24C8, 0xA731,
      0xA785, 0xFF33], [0x53]),
    ([0x015B, 0x015D, 0x015F, 0x0161, 0x017F, 0x0219, 0x023F, 0x0282, 0x1D74, 0x1D8A, 0x1E61, 0x1E63,
      0x1E65, 0x1E67, 0x1E69, 0x1E9C, 0x1E9D, 0x24E2, 0xA784, 0xFF53], [0x73]),
    ([0x1E9E], [0x53, 0x53]),
    ([0x24AE], [0x28, 0x73, 0x29]),
    ([0x00DF], [0x73, 0x73]),
    ([0xFB06], [0x73, 0x74]),
    ([0x0162, 0x0164, 0x0166, 0x01AC, 0x01AE, 0x021A, 0x023E, 0x1D1B, 0x1E6A, 0x1E6C, 0x1E6E, 0x1E70,
      0x24C9, 0xA786, 0xFF34], [0x54]),
    ([0x0163, 0x0165, 0x0167, 0x01AB, 0x01AD, 0x021B, 0x0236, 0x0287, 0x0288, 0x1D75, 0x1E6B, 0x1E6D,
      0x1E6F, 0x1E71, 0x1E97, 0x24E3, 0x2C66, 0xFF54], [0x74])]"

definition fold_cases_9 :: "(int list \<times> int list) list" where
  "fold_cases_9 = [
    ([0x00DE, 0xA766], [0x54, 0x48]),
    ([0xA728], [0x54, 0x5A]),
    ([0x24AF], [0x28, 0x74, 0x29]),
    ([0x02A8], [0x74, 0x63]),
    ([0x00FE, 0x1D7A, 0xA767], [0x74, 0x68]),
    ([0x02A6], [0x74, 0x73]),
    ([0xA729], [0x74, 0x7A]),
    ([0x00D9, 0x00DA, 0x00DB, 0x00DC, 0x0168, 0x016A, 0x016C, 0x016E, 0x0170, 0x0172, 0x01AF, 0x01D3,
      0x01D5, 0x01D7, 0x01D9, 0x01DB, 0x0214, 0x0216, 0x0244, 0x1D1C, 0x1D7E, 0x1E72, 0x1E74, 0x1E76,
      0x1E78, 0x1E7A, 0x1EE4, 0x1EE6, 0x1EE8, 0x1EEA, 0x1EEC, 0x1EEE, 0x1EF0, 0x24CA, 0xFF35], [0x55]),
    ([0x00F9, 0x00FA, 0x00FB, 0x00FC, 0x0169, 0x016B, 0x016D, 0x016F, 0x0171, 0x0173, 0x01B0, 0x01D4,
      0x01D6, 0x01D8, 0x01DA, 0x01DC, 0x0215, 0x0217, 0x0289, 0x1D64, 0x1D99, 0x1E73, 0x1E75, 0x1E77,
      0x1E79, 0x1E7B, 0x1EE5, 0x1EE7, 0x1EE9, 0x1EEB, 0x1EED, 0x1EEF, 0x1EF1, 0x24E4, 0xFF55], [0x75]),
    ([0x24B0], [0x28, 0x75, 0x29]),
    ([0x1D6B], [0x75, 0x65]),
    ([0x01B2, 0x0245, 0x1D20, 0x1E7C, 0x1E7E, 0x1EFC, 0x24CB, 0xA75E, 0xA768, 0xFF36], [0x56]),
    ([0x028B, 0x028C, 0x1D65, 0x1D8C, 0x1E7D, 0x1E7F, 0x24E5, 0x2C71, 0x2C74, 0xA75F, 0xFF56], [0x76]),
    ([0xA760], [0x56, 0x59])]"

definition fold_cases_10 :: "(int list \<times> int list) list" where
  "fold_cases_10 = [
    ([0x24B1], [0x28, 0x76, 0x29]),
    ([0xA761], [0x76, 0x79]),
    ([0x0174, 0x01F7, 0x1D21, 0x1E80, 0x1E82, 0x1E84, 0x1E86, 0x1E88, 0x24CC, 0x2C72, 0xFF37], [0x57]),
    ([0x0175, 0x01BF, 0x028D, 0x1E81, 0x1E83, 0x1E85, 0x1E87, 0x1E89, 0x1E98, 0x24E6, 0x2C73, 0xFF57],
      [0x77]),
    ([0x24B2], [0x28, 0x77, 0x29]),
    ([0x1E8A, 0x1E8C, 0x24CD, 0xFF38], [0x58]),
    ([0x1D8D, 0x1E8B, 0x1E8D, 0x2093, 0x24E7, 0xFF58], [0x78]),
    ([0x24B3], [0x28, 0x78, 0x29]),
    ([0x00DD, 0x0176, 0x0178, 0x01B3, 0x0232, 0x024E, 0x028F, 0x1E8E, 0x1EF2, 0x1EF4, 0x1EF6, 0x1EF8,
      0x1EFE, 0x24CE, 0xFF39], [0x59]),
    ([0x00FD, 0x00FF, 0x0177, 0x01B4, 0x0233, 0x024F, 0x028E, 0x1E8F, 0x1E99, 0x1EF3, 0x1EF5, 0x1EF7,
      0x1EF9, 0x1EFF, 0x24E8, 0xFF59], [0x79]),
    ([0x24B4], [0x28, 0x79, 0x29]),
    ([0x0179, 0x017B, 0x017D, 0x01B5, 0x021C, 0x0224, 0x1D22, 0x1E90, 0x1E92, 0x1E94, 0x24CF, 0x2C6B,
      0xA762, 0xFF3A], [0x5A]),
    ([0x017A, 0x017C, 0x017E, 0x01B6, 0x021D, 0x0225, 0x0240, 0x0290, 0x0291, 0x1D76, 0x1D8E, 0x1E91,
      0x1E93, 0x1E95, 0x24E9, 0x2C6C, 0xA763, 0xFF5A], [0x7A]),
    ([0x24B5], [0x28, 0x7A, 0x29])]"

definition fold_cases_11 :: "(int list \<times> int list) list" where
  "fold_cases_11 = [
    ([0x2070, 0x2080, 0x24EA, 0x24FF, 0xFF10], [0x30]),
    ([0x00B9, 0x2081, 0x2460, 0x24F5, 0x2776, 0x2780, 0x278A, 0xFF11], [0x31]),
    ([0x2488], [0x31, 0x2E]),
    ([0x2474], [0x28, 0x31, 0x29]),
    ([0x00B2, 0x2082, 0x2461, 0x24F6, 0x2777, 0x2781, 0x278B, 0xFF12], [0x32]),
    ([0x2489], [0x32, 0x2E]),
    ([0x2475], [0x28, 0x32, 0x29]),
    ([0x00B3, 0x2083, 0x2462, 0x24F7, 0x2778, 0x2782, 0x278C, 0xFF13], [0x33]),
    ([0x248A], [0x33, 0x2E]),
    ([0x2476], [0x28, 0x33, 0x29]),
    ([0x2074, 0x2084, 0x2463, 0x24F8, 0x2779, 0x2783, 0x278D, 0xFF14], [0x34]),
    ([0x248B], [0x34, 0x2E]),
    ([0x2477], [0x28, 0x34, 0x29]),
    ([0x2075, 0x2085, 0x2464, 0x24F9, 0x277A, 0x2784, 0x278E, 0xFF15], [0x35]),
    ([0x248C], [0x35, 0x2E]),
    ([0x2478], [0x28, 0x35, 0x29]),
    ([0x2076, 0x2086, 0x2465, 0x24FA, 0x277B, 0x2785, 0x278F, 0xFF16], [0x36]),
    ([0x248D], [0x36, 0x2E]),
    ([0x2479], [0x28, 0x36, 0x29]),
    ([0x2077, 0x2087, 0x2466, 0x24FB, 0x277C, 0x2786, 0x2790, 0xFF17], [0x37]),
    ([0x248E], [0x37, 0x2E]),
    ([0x247A], [0x28, 0x37, 0x29])]"

definition fold_cases_12 :: "(int list \<times> int list) list" where
  "fold_cases_12 = [
    ([0x2078, 0x2088, 0x2467, 0x24FC, 0x277D, 0x2787, 0x2791, 0xFF18], [0x38]),
    ([0x248F], [0x38, 0x2E]),
    ([0x247B], [0x28, 0x38, 0x29]),
    ([0x2079, 0x2089, 0x2468, 0x24FD, 0x277E, 0x2788, 0x2792, 0xFF19], [0x39]),
    ([0x2490], [0x39, 0x2E]),
    ([0x247C], [0x28, 0x39, 0x29]),
    ([0x2469, 0x24FE, 0x277F, 0x2789, 0x2793], [0x31, 0x30]),
    ([0x2491], [0x31, 0x30, 0x2E]),
    ([0x247D], [0x28, 0x31, 0x30, 0x29]),
    ([0x246A, 0x24EB], [0x31, 0x31]),
    ([0x2492], [0x31, 0x31, 0x2E]),
    ([0x247E], [0x28, 0x31, 0x31, 0x29]),
    ([0x246B, 0x24EC], [0x31, 0x32]),
    ([0x2493], [0x31, 0x32, 0x2E]),
    ([0x247F], [0x28, 0x31, 0x32, 0x29]),
    ([0x246C, 0x24ED], [0x31, 0x33]),
    ([0x2494], [0x31, 0x33, 0x2E]),
    ([0x2480], [0x28, 0x31, 0x33, 0x29]),
    ([0x246D, 0x24EE], [0x31, 0x34]),
    ([0x2495], [0x31, 0x34, 0x2E]),
    ([0x2481], [0x28, 0x31, 0x34, 0x29]),
    ([0x246E, 0x24EF], [0x31, 0x35]),
    ([0x2496], [0x31, 0x35, 0x2E]),
    ([0x2482], [0x28, 0x31, 0x35, 0x29]),
    ([0x246F, 0x24F0], [0x31, 0x36])]"

definition fold_cases_13 :: "(int list \<times> int list) list" where
  "fold_cases_13 = [
    ([0x2497], [0x31, 0x36, 0x2E]),
    ([0x2483], [0x28, 0x31, 0x36, 0x29]),
    ([0x2470, 0x24F1], [0x31, 0x37]),
    ([0x2498], [0x31, 0x37, 0x2E]),
    ([0x2484], [0x28, 0x31, 0x37, 0x29]),
    ([0x2471, 0x24F2], [0x31, 0x38]),
    ([0x2499], [0x31, 0x38, 0x2E]),
    ([0x2485], [0x28, 0x31, 0x38, 0x29]),
    ([0x2472, 0x24F3], [0x31, 0x39]),
    ([0x249A], [0x31, 0x39, 0x2E]),
    ([0x2486], [0x28, 0x31, 0x39, 0x29]),
    ([0x2473, 0x24F4], [0x32, 0x30]),
    ([0x249B], [0x32, 0x30, 0x2E]),
    ([0x2487], [0x28, 0x32, 0x30, 0x29]),
    ([0x00AB, 0x00BB, 0x201C, 0x201D, 0x201E, 0x2033, 0x2036, 0x275D, 0x275E, 0x276E, 0x276F, 0xFF02],
      [0x22]),
    ([0x2018, 0x2019, 0x201A, 0x201B, 0x2032, 0x2035, 0x2039, 0x203A, 0x275B, 0x275C, 0xFF07], [0x27]),
    ([0x2010, 0x2011, 0x2012, 0x2013, 0x2014, 0x207B, 0x208B, 0xFF0D], [0x2D]),
    ([0x2045, 0x2772, 0xFF3B], [0x5B]),
    ([0x2046, 0x2773, 0xFF3D], [0x5D]),
    ([0x207D, 0x208D, 0x2768, 0x276A, 0xFF08], [0x28]),
    ([0x2E28], [0x28, 0x28]),
    ([0x207E, 0x208E, 0x2769, 0x276B, 0xFF09], [0x29]),
    ([0x2E29], [0x29, 0x29])]"

definition fold_cases_14 :: "(int list \<times> int list) list" where
  "fold_cases_14 = [
    ([0x276C, 0x2770, 0xFF1C], [0x3C]),
    ([0x276D, 0x2771, 0xFF1E], [0x3E]),
    ([0x2774, 0xFF5B], [0x7B]),
    ([0x2775, 0xFF5D], [0x7D]),
    ([0x207A, 0x208A, 0xFF0B], [0x2B]),
    ([0x207C, 0x208C, 0xFF1D], [0x3D]),
    ([0xFF01], [0x21]),
    ([0x203C], [0x21, 0x21]),
    ([0x2049], [0x21, 0x3F]),
    ([0xFF03], [0x23]),
    ([0xFF04], [0x24]),
    ([0x2052, 0xFF05], [0x25]),
    ([0xFF06], [0x26]),
    ([0x204E, 0xFF0A], [0x2A]),
    ([0xFF0C], [0x2C]),
    ([0xFF0E], [0x2E]),
    ([0x2044, 0xFF0F], [0x2F]),
    ([0xFF1A], [0x3A]),
    ([0x204F, 0xFF1B], [0x3B]),
    ([0xFF1F], [0x3F]),
    ([0x2047], [0x3F, 0x3F]),
    ([0x2048], [0x3F, 0x21]),
    ([0xFF20], [0x40]),
    ([0xFF3C], [0x5C]),
    ([0x2038, 0xFF3E], [0x5E]),
    ([0xFF3F], [0x5F]),
    ([0x2053, 0xFF5E], [0x7E])]"

definition fold_cases :: "(int list \<times> int list) list" where
  "fold_cases = fold_cases_1 @ fold_cases_2 @ fold_cases_3 @ fold_cases_4 @ fold_cases_5 @ fold_cases_6 @ fold_cases_7 @ fold_cases_8 @ fold_cases_9 @ fold_cases_10 @ fold_cases_11 @ fold_cases_12 @ fold_cases_13 @ fold_cases_14"

definition fold_char :: "int \<Rightarrow> int list" where
  "fold_char c = (if c < 0x80 then [c] else switch_char fold_cases c)"

definition resized :: "int list \<Rightarrow> nat \<Rightarrow> int list" where
  "resized xs n = take n xs @ replicate (n - length xs) 0"

definition newASCIIFoldingFilter :: fold_state where
  "newASCIIFoldingFilter = \<lparr>f_output = replicate 512 0, f_pos = 0\<rparr>"

definition foldToASCII :: "int list \<Rightarrow> fold_state \<Rightarrow> fold_state result" where
  "foldToASCII input s =
     (let maxSizeNeeded = trunc32 (4 * int (length input))
      in bind_r (if int (length (f_output s)) < maxSizeNeeded
                 then bind_r (new_size (getNextSize maxSizeNeeded)) (\<lambda>n. Inr (resized (f_output s) n))
                 else Inr (f_output s)) (\<lambda>out.
         bind_r (fold_loop fold_char input (out, 0)) (\<lambda>(out, p). Inr \<lparr>f_output = out, f_pos = p\<rparr>)))"

text \<open>
  \<^verbatim>\<open>incrementToken\<close>, given what the wrapped stream delivers: its next term or the end. The
  term becomes \<^verbatim>\<open>output[0..outputPos)\<close> if any character needs rewriting.
\<close>

definition asciiIncrementToken :: "int list option \<Rightarrow> fold_state \<Rightarrow> (int list option \<times> fold_state) result" where
  "asciiIncrementToken next s =
     (case next of None \<Rightarrow> Inr (None, s)
      | Some buffer \<Rightarrow>
          if \<exists>c\<in>set buffer. 0x80 \<le> c
          then bind_r (foldToASCII buffer s) (\<lambda>s. Inr (Some (take (f_pos s) (f_output s)), s))
          else Inr (Some buffer, s))"

subsection \<open>ISOLatin1AccentFilter\<close>

definition iso_cases :: "(int list \<times> int list) list" where
  "iso_cases = [
    ([0x00C0, 0x00C1, 0x00C2, 0x00C3, 0x00C4, 0x00C5], [0x41]),
    ([0x00C6], [0x41, 0x45]),
    ([0x00C7], [0x43]),
    ([0x00C8, 0x00C9, 0x00CA, 0x00CB], [0x45]),
    ([0x00CC, 0x00CD, 0x00CE, 0x00CF], [0x49]),
    ([0x0132], [0x49, 0x4A]),
    ([0x00D0], [0x44]),
    ([0x00D1], [0x4E]),
    ([0x00D2, 0x00D3, 0x00D4, 0x00D5, 0x00D6, 0x00D8], [0x4F]),
    ([0x0152], [0x4F, 0x45]),
    ([0x00DE], [0x54, 0x48]),
    ([0x00D9, 0x00DA, 0x00DB, 0x00DC], [0x55]),
    ([0x00DD, 0x0178], [0x59]),
    ([0x00E0, 0x00E1, 0x00E2, 0x00E3, 0x00E4, 0x00E5], [0x61]),
    ([0x00E6], [0x61, 0x65]),
    ([0x00E7], [0x63]),
    ([0x00E8, 0x00E9, 0x00EA, 0x00EB], [0x65]),
    ([0x00EC, 0x00ED, 0x00EE, 0x00EF], [0x69]),
    ([0x0133], [0x69, 0x6A]),
    ([0x00F0], [0x64]),
    ([0x00F1], [0x6E]),
    ([0x00F2, 0x00F3, 0x00F4, 0x00F5, 0x00F6, 0x00F8], [0x6F]),
    ([0x0153], [0x6F, 0x65]),
    ([0x00DF], [0x73, 0x73]),
    ([0x00FE], [0x74, 0x68]),
    ([0x00F9, 0x00FA, 0x00FB, 0x00FC], [0x75]),
    ([0x00FD, 0x00FF], [0x79]),
    ([0xFB00], [0x66, 0x66]),
    ([0xFB01], [0x66, 0x69]),
    ([0xFB02], [0x66, 0x6C]),
    ([0xFB05], [0x66, 0x74]),
    ([0xFB06], [0x73, 0x74])]"

definition iso_char :: "int \<Rightarrow> int list" where
  "iso_char c = (if c < 0xC0 \<or> 0xFB06 < c then [c] else switch_char iso_cases c)"

definition newISOLatin1AccentFilter :: fold_state where
  "newISOLatin1AccentFilter = \<lparr>f_output = replicate 256 0, f_pos = 0\<rparr>"

text \<open>
  \<^verbatim>\<open>while (size < maxSizeNeeded) size *= 2\<close> in \<^verbatim>\<open>int32_t\<close>; it would not end on an empty
  array, nor once the size has wrapped to zero.
\<close>

partial_function (option) iso_grow :: "int \<Rightarrow> int \<Rightarrow> int option" where
  "iso_grow sz need = (if sz < need then iso_grow (trunc32 (sz * 2)) need else Some sz)"

definition removeAccents :: "int list \<Rightarrow> fold_state \<Rightarrow> fold_state result option" where
  "removeAccents input s =
     (case iso_grow (int (length (f_output s))) (trunc32 (2 * int (length input))) of None \<Rightarrow> None
      | Some sz \<Rightarrow>
          Some (bind_r (if sz \<noteq> int (length (f_output s))
                        then bind_r (new_size sz) (\<lambda>n. Inr (resized (f_output s) n)) else Inr (f_output s)) (\<lambda>out.
                bind_r (fold_loop iso_char input (out, 0)) (\<lambda>(out, p). Inr \<lparr>f_output = out, f_pos = p\<rparr>))))"

definition isoIncrementToken :: "int list option \<Rightarrow> fold_state \<Rightarrow> (int list option \<times> fold_state) result option" where
  "isoIncrementToken next s =
     (case next of None \<Rightarrow> Some (Inr (None, s))
      | Some buffer \<Rightarrow>
          if \<exists>c\<in>set buffer. 0xC0 \<le> c \<and> c \<le> 0xFB06
          then map_option (\<lambda>r. bind_r r (\<lambda>s. Inr (Some (take (f_pos s) (f_output s)), s))) (removeAccents buffer s)
          else Some (Inr (Some buffer, s)))"

subsection \<open>The append loop\<close>

lemma emit_ok:
  "p + length xs \<le> length out \<Longrightarrow>
     \<exists>out'. emit xs (out, p) = Inr (out', p + length xs) \<and> length out' = length out \<and>
       take (p + length xs) out' = take p out @ xs"
proof (induction xs arbitrary: out p)
  case (Cons x xs)
  from Cons.IH [of "Suc p" "out[p := x]"] Cons.prems
  obtain out' where "emit xs (out[p := x], Suc p) = Inr (out', Suc p + length xs)" "length out' = length out"
    "take (Suc p + length xs) out' = take (Suc p) (out[p := x]) @ xs" by auto
  then show ?case using Cons.prems by (simp add: take_Suc_conv_app_nth)
qed simp

locale char_folding =
  fixes f :: "int \<Rightarrow> int list" and k :: nat
  assumes expand: "length (f c) \<le> k"
begin

lemma concat_bound: "length (concat (map f cs)) \<le> k * length cs"
  by (induction cs) (simp_all add: expand add_mono)

lemma fold_loop_ok:
  "p + k * length cs \<le> length out \<Longrightarrow>
     \<exists>out'. fold_loop f cs (out, p) = Inr (out', p + length (concat (map f cs))) \<and> length out' = length out \<and>
       take (p + length (concat (map f cs))) out' = take p out @ concat (map f cs)"
proof (induction cs arbitrary: out p)
  case (Cons c cs)
  have len: "length (f c) \<le> k" by (rule expand)
  obtain o1 where o1: "emit (f c) (out, p) = Inr (o1, p + length (f c))" "length o1 = length out"
    "take (p + length (f c)) o1 = take p out @ f c"
    using emit_ok [of p "f c" out] Cons.prems len by auto
  have "p + length (f c) + k * length cs \<le> length o1" using Cons.prems len o1(2) by simp
  from Cons.IH [OF this] o1 show ?case by (auto simp: add.assoc)
qed simp

lemma fold_result:
  assumes "k * length cs \<le> length out"
  obtains out' where "fold_loop f cs (out, 0) = Inr (out', length (concat (map f cs)))"
    "length out' = length out" "take (length (concat (map f cs))) out' = concat (map f cs)"
  using fold_loop_ok [of 0 cs out] assms by auto

end

subsection \<open>The tables\<close>

text \<open>Every case of the \<^verbatim>\<open>switch\<close> is for a character behind ASCII and appends one to four ASCII characters.\<close>

definition cases_ok :: "(int list \<times> int list) list \<Rightarrow> bool" where
  "cases_ok table = list_all (\<lambda>(cs, out). list_all (\<lambda>c. 0x80 \<le> c \<and> c \<le> 0xFF5E) cs \<and>
     out \<noteq> [] \<and> length out \<le> 4 \<and> list_all (\<lambda>x. 0 \<le> x \<and> x < 0x80) out) table"

lemma cases_ok_append: "cases_ok (xs @ ys) \<longleftrightarrow> cases_ok xs \<and> cases_ok ys"
  by (simp add: cases_ok_def)

lemma fold_cases_1_ok: "cases_ok fold_cases_1"
  by (simp add: fold_cases_1_def cases_ok_def)

lemma fold_cases_2_ok: "cases_ok fold_cases_2"
  by (simp add: fold_cases_2_def cases_ok_def)

lemma fold_cases_3_ok: "cases_ok fold_cases_3"
  by (simp add: fold_cases_3_def cases_ok_def)

lemma fold_cases_4_ok: "cases_ok fold_cases_4"
  by (simp add: fold_cases_4_def cases_ok_def)

lemma fold_cases_5_ok: "cases_ok fold_cases_5"
  by (simp add: fold_cases_5_def cases_ok_def)

lemma fold_cases_6_ok: "cases_ok fold_cases_6"
  by (simp add: fold_cases_6_def cases_ok_def)

lemma fold_cases_7_ok: "cases_ok fold_cases_7"
  by (simp add: fold_cases_7_def cases_ok_def)

lemma fold_cases_8_ok: "cases_ok fold_cases_8"
  by (simp add: fold_cases_8_def cases_ok_def)

lemma fold_cases_9_ok: "cases_ok fold_cases_9"
  by (simp add: fold_cases_9_def cases_ok_def)

lemma fold_cases_10_ok: "cases_ok fold_cases_10"
  by (simp add: fold_cases_10_def cases_ok_def)

lemma fold_cases_11_ok: "cases_ok fold_cases_11"
  by (simp add: fold_cases_11_def cases_ok_def)

lemma fold_cases_12_ok: "cases_ok fold_cases_12"
  by (simp add: fold_cases_12_def cases_ok_def)

lemma fold_cases_13_ok: "cases_ok fold_cases_13"
  by (simp add: fold_cases_13_def cases_ok_def)

lemma fold_cases_14_ok: "cases_ok fold_cases_14"
  by (simp add: fold_cases_14_def cases_ok_def)

lemma fold_cases_ok: "cases_ok fold_cases"
  unfolding fold_cases_def cases_ok_append by (simp only: fold_cases_1_ok fold_cases_2_ok fold_cases_3_ok fold_cases_4_ok fold_cases_5_ok fold_cases_6_ok fold_cases_7_ok fold_cases_8_ok fold_cases_9_ok fold_cases_10_ok fold_cases_11_ok fold_cases_12_ok fold_cases_13_ok fold_cases_14_ok)

lemma iso_cases_ok: "cases_ok iso_cases" and iso_cases_two: "list_all (\<lambda>(cs, out). length out \<le> 2) iso_cases"
  by (simp_all add: iso_cases_def cases_ok_def)

lemma switch_char_cases:
  obtains "switch_char table c = [c]" | cs out where "(cs, out) \<in> set table" "c \<in> set cs" "switch_char table c = out"
proof (cases "List.find (\<lambda>(cs, out). c \<in> set cs) table")
  case None
  then show thesis using that(1) by (simp add: switch_char_def)
next
  case (Some r)
  obtain cs out where r: "r = (cs, out)" by (cases r)
  with Some have "(cs, out) \<in> set table" "c \<in> set cs" by (auto simp: find_Some_iff) (metis nth_mem)
  then show thesis using that(2) Some r by (simp add: switch_char_def)
qed

lemma switch_char_ok:
  assumes "cases_ok table"
  shows "switch_char table c = [c] \<or>
    switch_char table c \<noteq> [] \<and> length (switch_char table c) \<le> 4 \<and> (\<forall>x\<in>set (switch_char table c). 0 \<le> x \<and> x < 0x80)"
proof (cases rule: switch_char_cases [of table c])
  case (2 cs out)
  then show ?thesis using assms by (auto simp: cases_ok_def list_all_iff)
qed simp

lemma fold_char_ok:
  "fold_char c = [c] \<or>
   fold_char c \<noteq> [] \<and> length (fold_char c) \<le> 4 \<and> (\<forall>x\<in>set (fold_char c). 0 \<le> x \<and> x < 0x80)"
  using switch_char_ok [OF fold_cases_ok, of c] by (simp add: fold_char_def)

lemma iso_char_short: "length (iso_char c) \<le> 2"
proof (cases rule: switch_char_cases [of iso_cases c])
  case (2 cs out)
  then show ?thesis using iso_cases_two by (auto simp: iso_char_def list_all_iff)
qed (simp add: iso_char_def)

interpretation ascii_folding: char_folding fold_char 4
proof
  show "length (fold_char c) \<le> 4" for c using fold_char_ok [of c] by auto
qed

interpretation iso_folding: char_folding iso_char 2
  by unfold_locales (rule iso_char_short)

subsection \<open>The properties\<close>

lemma fold_char_ascii: "c < 0x80 \<Longrightarrow> fold_char c = [c]"
  by (simp add: fold_char_def)

lemma concat_map_fixed: "(\<forall>c\<in>set t. f c = [c]) \<Longrightarrow> concat (map f t) = t"
  by (induction t) simp_all

lemma asciiIncrementToken_folds:
  assumes "length t \<le> 2 ^ 28"
  shows "\<exists>s'. asciiIncrementToken (Some t) s = Inr (Some (concat (map fold_char t)), s')"
proof (cases "\<exists>c\<in>set t. 0x80 \<le> c")
  case True
  define n where "n = 4 * int (length t)"
  have n: "trunc32 (4 * int (length t)) = n" "0 \<le> n" "n \<le> 2 ^ 30" using assms by (simp_all add: n_def)
  define out where "out = (if int (length (f_output s)) < n then resized (f_output s) (nat (getNextSize n)) else f_output s)"
  have g: "n \<le> getNextSize n" by (rule getNextSize_ge [OF n(2,3)])
  then have "4 * length t \<le> length out" using n(2) by (auto simp: out_def resized_def n_def)
  from ascii_folding.fold_result [OF this] obtain out' where
    o: "fold_loop fold_char t (out, 0) = Inr (out', length (concat (map fold_char t)))"
      "take (length (concat (map fold_char t))) out' = concat (map fold_char t)" by metis
  have "(if int (length (f_output s)) < n then bind_r (new_size (getNextSize n)) (\<lambda>n. Inr (resized (f_output s) n))
      else Inr (f_output s)) = Inr out" using n(2) g by (simp add: out_def)
  then show ?thesis using True o n(1) by (simp add: asciiIncrementToken_def foldToASCII_def Let_def)
next
  case False
  then have "concat (map fold_char t) = t" by (intro concat_map_fixed) (auto simp: not_le intro: fold_char_ascii)
  with False show ?thesis by (auto simp: asciiIncrementToken_def)
qed

text \<open>
  C24. \<^verbatim>\<open>ASCIIFoldingFilter::incrementToken\<close> replaces every character of the term by its
  entry of the \<^verbatim>\<open>switch\<close> and keeps the others, for every term of at most \<open>2 ^ 28\<close>
  characters and whatever state an earlier token left: the output array is always large enough for
  the unchecked writes, and a term of ASCII characters is left alone. (From \<open>2 ^ 29\<close> characters on
  the size the code asks for is a wrapped 32-bit number.)
\<close>

theorem ascii_filter_folds:
  assumes "length t \<le> 2 ^ 28"
  shows "(\<exists>s'. asciiIncrementToken (Some t) s = Inr (Some (concat (map fold_char t)), s')) \<and>
    ((\<forall>c\<in>set t. c < 0x80) \<longrightarrow> asciiIncrementToken (Some t) s = Inr (Some t, s))"
  using asciiIncrementToken_folds [OF assms] by (auto simp: asciiIncrementToken_def)

theorem ascii_filter_folds_witness:
  "\<exists>s'. asciiIncrementToken (Some [0x41, 0xC6, 0x42]) newASCIIFoldingFilter = Inr (Some [0x41, 0x41, 0x45, 0x42], s')"
  using ascii_filter_folds [of "[0x41, 0xC6, 0x42]" newASCIIFoldingFilter]
  by (simp add: fold_char_def switch_char_def fold_cases_def fold_cases_1_def)

lemma iso_grow_ends:
  "0 < n \<Longrightarrow> n < 2 ^ 31 \<Longrightarrow> need \<le> 2 ^ 30 \<Longrightarrow> \<exists>m. iso_grow n need = Some m \<and> need \<le> m \<and> n \<le> m"
proof (induction "nat (need - n)" arbitrary: n rule: less_induct)
  case less
  show ?case
  proof (cases "n < need")
    case True
    then have t: "trunc32 (n * 2) = n * 2" "nat (need - n * 2) < nat (need - n)" "0 < n * 2" "n * 2 < 2 ^ 31"
      using less.prems by auto
    from less.hyps [OF t(2-4) less.prems(3)] obtain m where "iso_grow (n * 2) need = Some m" "need \<le> m" "n * 2 \<le> m" by blast
    then show ?thesis using True t(1) less.prems(1) by (subst iso_grow.simps) auto
  next
    case False
    then show ?thesis by (subst iso_grow.simps) auto
  qed
qed

text \<open>
  \<^verbatim>\<open>ISOLatin1AccentFilter::incrementToken\<close> returns for every term of at most \<open>2 ^ 29\<close>
  characters: the loop that doubles the array ends because the array is never empty, the array it
  finds holds two characters for every character of the term, and the term becomes the replacement
  of each of its characters.
\<close>

theorem iso_filter_replaces:
  assumes "f_output s \<noteq> []" "length (f_output s) < 2 ^ 31" "length t \<le> 2 ^ 29"
  shows "\<exists>s'. isoIncrementToken (Some t) s = Some (Inr (Some (concat (map iso_char t)), s')) \<and> f_output s' \<noteq> []"
proof (cases "\<exists>c\<in>set t. 0xC0 \<le> c \<and> c \<le> 0xFB06")
  case True
  define n where "n = 2 * int (length t)"
  have n: "trunc32 (2 * int (length t)) = n" "n \<le> 2 ^ 30" using assms(3) by (simp_all add: n_def)
  obtain k where k: "iso_grow (int (length (f_output s))) n = Some k" "n \<le> k" "int (length (f_output s)) \<le> k"
    using iso_grow_ends [of "int (length (f_output s))" n] assms(1,2) n(2) by auto
  define out where "out = (if k \<noteq> int (length (f_output s)) then resized (f_output s) (nat k) else f_output s)"
  have len: "length out = nat k" using k(3) by (auto simp: resized_def out_def)
  then have "2 * length t \<le> length out" using k(2) by (simp add: n_def)
  from iso_folding.fold_result [OF this] obtain out' where
    o: "fold_loop iso_char t (out, 0) = Inr (out', length (concat (map iso_char t)))" "length out' = length out"
      "take (length (concat (map iso_char t))) out' = concat (map iso_char t)" by metis
  have "out' \<noteq> []" using o(2) len k(3) assms(1) by (cases "f_output s") auto
  moreover have "(if k \<noteq> int (length (f_output s)) then bind_r (new_size k) (\<lambda>n. Inr (resized (f_output s) n))
      else Inr (f_output s)) = Inr out" using k(3) by (simp add: out_def)
  ultimately show ?thesis using True o k(1) n(1) by (simp add: isoIncrementToken_def removeAccents_def)
next
  case False
  then have "concat (map iso_char t) = t" by (intro concat_map_fixed) (auto simp: iso_char_def)
  with False assms show ?thesis by (auto simp: isoIncrementToken_def)
qed

theorem iso_filter_replaces_witness:
  "\<exists>s'. isoIncrementToken (Some [0xC6, 0x41]) newISOLatin1AccentFilter = Some (Inr (Some (concat (map iso_char [0xC6, 0x41])), s'))"
  using iso_filter_replaces [where s = newISOLatin1AccentFilter and t = "[0xC6, 0x41]"] by (auto simp: newISOLatin1AccentFilter_def)

text \<open>The two tables against each other: equal where both have a case, and the labels of the one
  are among those of the other.\<close>

definition iso_agrees :: "(int list \<times> int list) list \<Rightarrow> bool" where
  "iso_agrees table = list_all (\<lambda>(cs, out). list_all (\<lambda>c.
     if 0x178 < c \<and> c < 0xFB00 \<or> 0xFB06 < c then True
     else switch_char iso_cases c = [c] \<or> switch_char iso_cases c = out) cs) table"

definition labels :: "(int list \<times> int list) list \<Rightarrow> int set" where
  "labels table = (\<Union>(cs, out)\<in>set table. set cs)"

lemma iso_agrees_1: "iso_agrees fold_cases_1"
  by (simp add: iso_agrees_def fold_cases_1_def switch_char_def iso_cases_def)

lemma iso_agrees_2: "iso_agrees fold_cases_2"
  by (simp add: iso_agrees_def fold_cases_2_def switch_char_def iso_cases_def)

lemma iso_agrees_3: "iso_agrees fold_cases_3"
  by (simp add: iso_agrees_def fold_cases_3_def switch_char_def iso_cases_def)

lemma iso_agrees_4: "iso_agrees fold_cases_4"
  by (simp add: iso_agrees_def fold_cases_4_def switch_char_def iso_cases_def)

lemma iso_agrees_5: "iso_agrees fold_cases_5"
  by (simp add: iso_agrees_def fold_cases_5_def switch_char_def iso_cases_def)

lemma iso_agrees_6: "iso_agrees fold_cases_6"
  by (simp add: iso_agrees_def fold_cases_6_def switch_char_def iso_cases_def)

lemma iso_agrees_7: "iso_agrees fold_cases_7"
  by (simp add: iso_agrees_def fold_cases_7_def switch_char_def iso_cases_def)

lemma iso_agrees_8: "iso_agrees fold_cases_8"
  by (simp add: iso_agrees_def fold_cases_8_def switch_char_def iso_cases_def)

lemma iso_agrees_9: "iso_agrees fold_cases_9"
  by (simp add: iso_agrees_def fold_cases_9_def switch_char_def iso_cases_def)

lemma iso_agrees_10: "iso_agrees fold_cases_10"
  by (simp add: iso_agrees_def fold_cases_10_def switch_char_def iso_cases_def)

lemma iso_agrees_11: "iso_agrees fold_cases_11"
  by (simp add: iso_agrees_def fold_cases_11_def switch_char_def iso_cases_def)

lemma iso_agrees_12: "iso_agrees fold_cases_12"
  by (simp add: iso_agrees_def fold_cases_12_def switch_char_def iso_cases_def)

lemma iso_agrees_13: "iso_agrees fold_cases_13"
  by (simp add: iso_agrees_def fold_cases_13_def switch_char_def iso_cases_def)

lemma iso_agrees_14: "iso_agrees fold_cases_14"
  by (simp add: iso_agrees_def fold_cases_14_def switch_char_def iso_cases_def)

lemma iso_labels_1: "{0x00C0, 0x00C1, 0x00C2, 0x00C3, 0x00C4, 0x00C5, 0x00E0, 0x00E1, 0x00E2, 0x00E3, 0x00E4, 0x00E5, 0x00C6, 0x00E6} \<subseteq> labels fold_cases_1"
  by (simp add: labels_def fold_cases_1_def)

lemma iso_labels_2: "{0x00C7, 0x00E7, 0x00D0, 0x00F0} \<subseteq> labels fold_cases_2"
  by (simp add: labels_def fold_cases_2_def)

lemma iso_labels_3: "{0x00C8, 0x00C9, 0x00CA, 0x00CB, 0x00E8, 0x00E9, 0x00EA, 0x00EB, 0xFB00, 0xFB01, 0xFB02} \<subseteq> labels fold_cases_3"
  by (simp add: labels_def fold_cases_3_def)

lemma iso_labels_4: "{0x00CC, 0x00CD, 0x00CE, 0x00CF, 0x00EC, 0x00ED, 0x00EE, 0x00EF, 0x0132} \<subseteq> labels fold_cases_4"
  by (simp add: labels_def fold_cases_4_def)

lemma iso_labels_5: "{0x0133} \<subseteq> labels fold_cases_5"
  by (simp add: labels_def fold_cases_5_def)

lemma iso_labels_6: "{0x00D1, 0x00F1, 0x00D2, 0x00D3, 0x00D4, 0x00D5, 0x00D6, 0x00D8} \<subseteq> labels fold_cases_6"
  by (simp add: labels_def fold_cases_6_def)

lemma iso_labels_7: "{0x00F2, 0x00F3, 0x00F4, 0x00F5, 0x00F6, 0x00F8, 0x0152, 0x0153} \<subseteq> labels fold_cases_7"
  by (simp add: labels_def fold_cases_7_def)

lemma iso_labels_8: "{0x00DF, 0xFB06} \<subseteq> labels fold_cases_8"
  by (simp add: labels_def fold_cases_8_def)

lemma iso_labels_9: "{0x00DE, 0x00FE, 0x00D9, 0x00DA, 0x00DB, 0x00DC, 0x00F9, 0x00FA, 0x00FB, 0x00FC} \<subseteq> labels fold_cases_9"
  by (simp add: labels_def fold_cases_9_def)

lemma iso_labels_10: "{0x00DD, 0x0178, 0x00FD, 0x00FF} \<subseteq> labels fold_cases_10"
  by (simp add: labels_def fold_cases_10_def)

lemma iso_agrees_all: "iso_agrees fold_cases"
  using iso_agrees_1 iso_agrees_2 iso_agrees_3 iso_agrees_4 iso_agrees_5 iso_agrees_6 iso_agrees_7 iso_agrees_8 iso_agrees_9 iso_agrees_10 iso_agrees_11 iso_agrees_12 iso_agrees_13 iso_agrees_14
  by (simp add: iso_agrees_def fold_cases_def)

lemma labels_append: "labels (xs @ ys) = labels xs \<union> labels ys"
  by (simp add: labels_def)

lemma iso_labels_list: "labels iso_cases = {0xFB06, 0xFB05, 0xFB02, 0xFB01, 0xFB00, 0x00FD, 0x00FF, 0x00F9, 0x00FA, 0x00FB, 0x00FC, 0x00FE, 0x00DF, 0x0153, 0x00F2, 0x00F3, 0x00F4, 0x00F5, 0x00F6, 0x00F8, 0x00F1, 0x00F0, 0x0133, 0x00EC, 0x00ED, 0x00EE, 0x00EF, 0x00E8, 0x00E9, 0x00EA, 0x00EB, 0x00E7, 0x00E6, 0x00E0, 0x00E1, 0x00E2, 0x00E3, 0x00E4, 0x00E5, 0x00DD, 0x0178, 0x00D9, 0x00DA, 0x00DB, 0x00DC, 0x00DE, 0x0152, 0x00D2, 0x00D3, 0x00D4, 0x00D5, 0x00D6, 0x00D8, 0x00D1, 0x00D0, 0x0132, 0x00CC, 0x00CD, 0x00CE, 0x00CF, 0x00C8, 0x00C9, 0x00CA, 0x00CB, 0x00C7, 0x00C6, 0x00C0, 0x00C1, 0x00C2, 0x00C3, 0x00C4, 0x00C5}"
  by (simp add: labels_def iso_cases_def)

lemma iso_labels_all: "labels iso_cases \<subseteq> insert 0xFB05 (labels fold_cases)"
proof -
  have 1: "{0x00C0, 0x00C1, 0x00C2, 0x00C3, 0x00C4, 0x00C5, 0x00E0, 0x00E1, 0x00E2, 0x00E3, 0x00E4, 0x00E5, 0x00C6, 0x00E6} \<subseteq> labels fold_cases"
    by (rule order_trans [OF iso_labels_1]) (unfold fold_cases_def labels_append, blast)
  have 2: "{0x00C7, 0x00E7, 0x00D0, 0x00F0} \<subseteq> labels fold_cases"
    by (rule order_trans [OF iso_labels_2]) (unfold fold_cases_def labels_append, blast)
  have 3: "{0x00C8, 0x00C9, 0x00CA, 0x00CB, 0x00E8, 0x00E9, 0x00EA, 0x00EB, 0xFB00, 0xFB01, 0xFB02} \<subseteq> labels fold_cases"
    by (rule order_trans [OF iso_labels_3]) (unfold fold_cases_def labels_append, blast)
  have 4: "{0x00CC, 0x00CD, 0x00CE, 0x00CF, 0x00EC, 0x00ED, 0x00EE, 0x00EF, 0x0132} \<subseteq> labels fold_cases"
    by (rule order_trans [OF iso_labels_4]) (unfold fold_cases_def labels_append, blast)
  have 5: "{0x0133} \<subseteq> labels fold_cases"
    by (rule order_trans [OF iso_labels_5]) (unfold fold_cases_def labels_append, blast)
  have 6: "{0x00D1, 0x00F1, 0x00D2, 0x00D3, 0x00D4, 0x00D5, 0x00D6, 0x00D8} \<subseteq> labels fold_cases"
    by (rule order_trans [OF iso_labels_6]) (unfold fold_cases_def labels_append, blast)
  have 7: "{0x00F2, 0x00F3, 0x00F4, 0x00F5, 0x00F6, 0x00F8, 0x0152, 0x0153} \<subseteq> labels fold_cases"
    by (rule order_trans [OF iso_labels_7]) (unfold fold_cases_def labels_append, blast)
  have 8: "{0x00DF, 0xFB06} \<subseteq> labels fold_cases"
    by (rule order_trans [OF iso_labels_8]) (unfold fold_cases_def labels_append, blast)
  have 9: "{0x00DE, 0x00FE, 0x00D9, 0x00DA, 0x00DB, 0x00DC, 0x00F9, 0x00FA, 0x00FB, 0x00FC} \<subseteq> labels fold_cases"
    by (rule order_trans [OF iso_labels_9]) (unfold fold_cases_def labels_append, blast)
  have 10: "{0x00DD, 0x0178, 0x00FD, 0x00FF} \<subseteq> labels fold_cases"
    by (rule order_trans [OF iso_labels_10]) (unfold fold_cases_def labels_append, blast)
  show ?thesis using 1 2 3 4 5 6 7 8 9 10 by (simp add: iso_labels_list)
qed

lemma iso_labels_range: "\<forall>c\<in>labels iso_cases. c \<le> 0x178 \<or> 0xFB00 \<le> c \<and> c \<le> 0xFB06"
  by (simp add: labels_def iso_cases_def)

lemma iso_agreesD:
  assumes "iso_agrees table" "(cs, out) \<in> set table" "c \<in> set cs"
  shows "if 0x178 < c \<and> c < 0xFB00 \<or> 0xFB06 < c then True
     else switch_char iso_cases c = [c] \<or> switch_char iso_cases c = out"
proof -
  from bspec [OF assms(1) [unfolded iso_agrees_def list_all_iff] assms(2)]
  have "\<forall>c\<in>set cs. if 0x178 < c \<and> c < 0xFB00 \<or> 0xFB06 < c then True
     else switch_char iso_cases c = [c] \<or> switch_char iso_cases c = out" by (simp only: prod.case)
  then show ?thesis using assms(3) by (rule bspec)
qed

lemma tables_agree:
  assumes "c \<in> labels iso_cases" "c \<noteq> 0xFB05" "switch_char iso_cases c \<noteq> [c]"
  shows "switch_char fold_cases c = switch_char iso_cases c"
proof -
  have "c \<in> labels fold_cases" using assms(1,2) iso_labels_all by blast
  then have "List.find (\<lambda>(cs, out). c \<in> set cs) fold_cases \<noteq> None"
    by (auto simp: find_None_iff labels_def)
  then obtain cs out where f: "List.find (\<lambda>(cs, out). c \<in> set cs) fold_cases = Some (cs, out)" by auto
  then have m: "(cs, out) \<in> set fold_cases" "c \<in> set cs"
    by (auto simp: find_Some_iff) (metis nth_mem)
  have "\<not> (0x178 < c \<and> c < 0xFB00 \<or> 0xFB06 < c)" using bspec [OF iso_labels_range assms(1)] by linarith
  with iso_agreesD [OF iso_agrees_all m] have "switch_char iso_cases c = [c] \<or> switch_char iso_cases c = out"
    by (simp only: if_False)
  then show ?thesis using assms(3) f by (simp add: switch_char_def)
qed

text \<open>
  The filter that replaced the other agrees with it: every character that
  \<^verbatim>\<open>ISOLatin1AccentFilter\<close> rewrites is rewritten to the same letters by
  \<^verbatim>\<open>ASCIIFoldingFilter\<close>, except the ligature U+FB05, which only the former knows.
\<close>

theorem folding_extends_iso:
  assumes "iso_char c \<noteq> [c]" "c \<noteq> 0xFB05"
  shows "fold_char c = iso_char c"
proof -
  have iso: "iso_char c = switch_char iso_cases c" "\<not> c < 0x80"
    using assms(1) by (auto simp: iso_char_def split: if_splits)
  show ?thesis
  proof (cases rule: switch_char_cases [of iso_cases c])
    case 1
    then show ?thesis using assms(1) iso by simp
  next
    case (2 cs out)
    then have "c \<in> labels iso_cases" by (auto simp: labels_def)
    from tables_agree [OF this assms(2)] assms(1) iso show ?thesis by (simp add: fold_char_def)
  qed
qed

theorem folding_extends_iso_witness: "fold_char 0xC6 = iso_char 0xC6"
  using folding_extends_iso [where c = "0xC6"] by (simp add: iso_char_def switch_char_def iso_cases_def)

end
