(* ===== verification/ByteCodec.thy ===== *)
theory ByteCodec imports LucenePrelude begin

text \<open>
  The primitive encodings of index files: \<^verbatim>\<open>store/IndexOutput.cpp\<close> and
  \<^verbatim>\<open>store/IndexInput.cpp\<close>, the two abstract base classes whose methods are written against
  the virtual \<^verbatim>\<open>readByte\<close>, \<^verbatim>\<open>writeByte\<close>, \<^verbatim>\<open>readBytes\<close> and \<^verbatim>\<open>writeBytes\<close>. The
  definitions take these as arguments; what a stream class must promise is the interface
  \<open>byte_source\<close>, \<open>byte_sink\<close>. A loop that shifts by the width of the type or more is
  undefined behaviour in C++ and \<open>OutOfRange\<close> in the model.
\<close>

type_synonym 's reader = "'s \<Rightarrow> (byte \<times> 's) result"
type_synonym 's writer = "byte \<Rightarrow> 's \<Rightarrow> 's result"

subsection \<open>IndexOutput\<close>

definition writeInt :: "'s writer \<Rightarrow> int32 \<Rightarrow> 's \<Rightarrow> 's result" where
  "writeInt wb i s =
     bind_r (wb (ucast (signed_drop_bit 24 i)) s) (\<lambda>s.
     bind_r (wb (ucast (signed_drop_bit 16 i)) s) (\<lambda>s.
     bind_r (wb (ucast (signed_drop_bit 8 i)) s) (\<lambda>s.
     wb (ucast i) s)))"

function writeVInt :: "'s writer \<Rightarrow> int32 \<Rightarrow> 's \<Rightarrow> 's result" where
  "writeVInt wb i s =
     (if i AND NOT 0x7f \<noteq> 0
      then bind_r (wb (ucast ((i AND 0x7f) OR 0x80)) s) (\<lambda>s. writeVInt wb (unsignedShift32 i 7) s)
      else wb (ucast i) s)"
  by pat_completeness auto

definition writeLong :: "'s writer \<Rightarrow> int64 \<Rightarrow> 's \<Rightarrow> 's result" where
  "writeLong wb i s =
     bind_r (writeInt wb (ucast (signed_drop_bit 32 i)) s) (\<lambda>s. writeInt wb (ucast i) s)"

function writeVLong :: "'s writer \<Rightarrow> int64 \<Rightarrow> 's \<Rightarrow> 's result" where
  "writeVLong wb i s =
     (if i AND NOT 0x7f \<noteq> 0
      then bind_r (wb (ucast ((i AND 0x7f) OR 0x80)) s) (\<lambda>s. writeVLong wb (unsignedShift64 i 7) s)
      else wb (ucast i) s)"
  by pat_completeness auto

text \<open>Every round of the two loops shifts the value to the right, so they end.\<close>

lemma unat_drop7: "unat (drop_bit 7 w) = unat w div 128"
proof -
  have "unat (drop_bit 7 w) = drop_bit 7 (unat w)" by (rule unat_drop_bit_eq)
  also have "\<dots> = unat w div 128" by (simp add: drop_bit_eq_div)
  finally show ?thesis .
qed

lemma mask7_zero_iff:
  fixes i :: "'a::len word"
  assumes "7 < LENGTH('a)"
  shows "i AND NOT 0x7f = 0 \<longleftrightarrow> unat i < 128"
proof -
  have m: "(0x7f :: 'a word) = mask 7" by (simp add: mask_eq_exp_minus_1)
  have "bit (i AND NOT (mask 7)) j \<longleftrightarrow> bit i j \<and> 7 \<le> j" for j
  proof (cases "bit i j")
    case True
    then have "j < LENGTH('a)" by (rule bit_imp_le_length)
    then show ?thesis by (simp add: bit_and_iff bit_not_iff bit_mask_iff not_less)
  qed (simp add: bit_and_iff)
  then have "i AND NOT 0x7f = 0 \<longleftrightarrow> (\<forall>j. \<not> (bit i j \<and> 7 \<le> j))"
    unfolding m word_zero_iff by (simp only:)
  also have "\<dots> \<longleftrightarrow> drop_bit 7 i = 0"
    unfolding word_zero_iff bit_drop_bit_eq o_apply by (metis le_add1 le_Suc_ex)
  also have "\<dots> \<longleftrightarrow> unat i div 128 = 0"
    by (simp only: word_unat_eq_iff unat_drop7 unat_0)
  also have "\<dots> \<longleftrightarrow> unat i < 128" by (auto simp: div_eq_0_iff)
  finally show ?thesis .
qed

lemma shift7_32: "unat (unsignedShift32 i 7) = unat i div 128"
proof -
  have "unsignedShift32 i 7 = drop_bit 7 i" by (simp add: unsignedShift32_drop)
  then show ?thesis by (simp only: unat_drop7)
qed

lemma shift7_64: "unat (unsignedShift64 i 7) = unat i div 128"
proof -
  have "unsignedShift64 i 7 = drop_bit 7 i" by (simp add: unsignedShift64_drop)
  then show ?thesis by (simp only: unat_drop7)
qed

termination writeVInt
proof (relation "measure (\<lambda>(wb, i, s). unat i)")
  fix wb :: "'a writer" and i :: int32 and s x :: 'a
  assume "i AND NOT 0x7f \<noteq> 0"
  moreover from this have "128 \<le> unat i" using mask7_zero_iff [of i] by (simp add: not_less)
  ultimately show "((wb, unsignedShift32 i 7, x), (wb, i, s)) \<in> measure (\<lambda>(wb, i, s). unat i)"
    by (simp add: shift7_32)
qed simp

termination writeVLong
proof (relation "measure (\<lambda>(wb, i, s). unat i)")
  fix wb :: "'a writer" and i :: int64 and s x :: 'a
  assume "i AND NOT 0x7f \<noteq> 0"
  moreover from this have "128 \<le> unat i" using mask7_zero_iff [of i] by (simp add: not_less)
  ultimately show "((wb, unsignedShift64 i 7, x), (wb, i, s)) \<in> measure (\<lambda>(wb, i, s). unat i)"
    by (simp add: shift7_64)
qed simp

declare writeVInt.simps [simp del] writeVLong.simps [simp del]

subsection \<open>IndexInput\<close>

definition readInt :: "'s reader \<Rightarrow> 's \<Rightarrow> (int32 \<times> 's) result" where
  "readInt rb s =
     bind_r (rb s) (\<lambda>(b, s). let i = push_bit 24 (ucast b AND 0xff) in
     bind_r (rb s) (\<lambda>(b, s). let i = i OR push_bit 16 (ucast b AND 0xff) in
     bind_r (rb s) (\<lambda>(b, s). let i = i OR push_bit 8 (ucast b AND 0xff) in
     bind_r (rb s) (\<lambda>(b, s). Inr (i OR (ucast b AND 0xff), s)))))"

text \<open>The loops, with the byte read last; \<open>shift\<close> grows by 7 in every round.\<close>

function readVInt_loop :: "'s reader \<Rightarrow> nat \<Rightarrow> int32 \<Rightarrow> byte \<Rightarrow> 's \<Rightarrow> (int32 \<times> 's) result" where
  "readVInt_loop rb shift i b s =
     (if b AND 0x80 \<noteq> 0
      then bind_r (rb s) (\<lambda>(b, s).
           if shift < 32 then readVInt_loop rb (shift + 7) (i OR push_bit shift (ucast (b AND 0x7f))) b s
           else Inl OutOfRange)
      else Inr (i, s))"
  by pat_completeness auto
termination by (relation "measure (\<lambda>(rb, shift, i, b, s). 39 - shift)") auto

definition readVInt :: "'s reader \<Rightarrow> 's \<Rightarrow> (int32 \<times> 's) result" where
  "readVInt rb s = bind_r (rb s) (\<lambda>(b, s). readVInt_loop rb 7 (ucast (b AND 0x7f)) b s)"

definition readLong :: "'s reader \<Rightarrow> 's \<Rightarrow> (int64 \<times> 's) result" where
  "readLong rb s =
     bind_r (readInt rb s) (\<lambda>(hi, s). let i = push_bit 32 (scast hi) in
     bind_r (readInt rb s) (\<lambda>(lo, s). Inr (i OR (scast lo AND 0xffffffff), s)))"

function readVLong_loop :: "'s reader \<Rightarrow> nat \<Rightarrow> int64 \<Rightarrow> byte \<Rightarrow> 's \<Rightarrow> (int64 \<times> 's) result" where
  "readVLong_loop rb shift i b s =
     (if b AND 0x80 \<noteq> 0
      then bind_r (rb s) (\<lambda>(b, s).
           if shift < 64 then readVLong_loop rb (shift + 7) (i OR push_bit shift (ucast (b AND 0x7f))) b s
           else Inl OutOfRange)
      else Inr (i, s))"
  by pat_completeness auto
termination by (relation "measure (\<lambda>(rb, shift, i, b, s). 71 - shift)") auto

definition readVLong :: "'s reader \<Rightarrow> 's \<Rightarrow> (int64 \<times> 's) result" where
  "readVLong rb s = bind_r (rb s) (\<lambda>(b, s). readVLong_loop rb 7 (ucast (b AND 0x7f)) b s)"

declare readVInt_loop.simps [simp del] readVLong_loop.simps [simp del]

text \<open>Characters of the modified UTF-8 of old indexes; a \<^verbatim>\<open>wchar_t\<close> is 32 bits wide.\<close>

definition writeChar :: "'s writer \<Rightarrow> int32 \<Rightarrow> 's \<Rightarrow> 's result" where
  "writeChar wb code s =
     (if 1 \<le> sint code \<and> sint code \<le> 0x7f then wb (ucast code) s
      else if (0x80 \<le> sint code \<and> sint code \<le> 0x7ff) \<or> code = 0
      then bind_r (wb (ucast (0xc0 OR signed_drop_bit 6 code)) s) (\<lambda>s.
           wb (ucast (0x80 OR (code AND 0x3f))) s)
      else bind_r (wb (ucast (0xe0 OR unsignedShift32 code 12)) s) (\<lambda>s.
           bind_r (wb (ucast (0x80 OR (signed_drop_bit 6 code AND 0x3f))) s) (\<lambda>s.
           wb (ucast (0x80 OR (code AND 0x3f))) s)))"

fun writeChars :: "'s writer \<Rightarrow> int32 list \<Rightarrow> 's \<Rightarrow> 's result" where
  "writeChars wb [] s = Inr s"
| "writeChars wb (c # cs) s = bind_r (writeChar wb c s) (writeChars wb cs)"

text \<open>The first half of \<^verbatim>\<open>readChars\<close>: the loop that fills the array of UTF-16 units.\<close>

definition readUnit :: "'s reader \<Rightarrow> 's \<Rightarrow> (16 word \<times> 's) result" where
  "readUnit rb s =
     bind_r (rb s) (\<lambda>(b, s).
     if b AND 0x80 = 0 then Inr (ucast (b AND 0x7f), s)
     else if b AND 0xe0 \<noteq> 0xe0
     then bind_r (rb s) (\<lambda>(b2, s). Inr (push_bit 6 (ucast (b AND 0x1f)) OR ucast (b2 AND 0x3f), s))
     else let ch = push_bit 12 (ucast (b AND 0x0f) :: int32) in
          bind_r (rb s) (\<lambda>(b2, s). let ch = ch OR push_bit 6 (ucast (b2 AND 0x3f)) in
          bind_r (rb s) (\<lambda>(b3, s). Inr (ucast (ch OR ucast (b3 AND 0x3f)), s))))"

fun readUnits :: "'s reader \<Rightarrow> nat \<Rightarrow> 's \<Rightarrow> (16 word list \<times> 's) result" where
  "readUnits rb 0 s = Inr ([], s)"
| "readUnits rb (Suc n) s =
     bind_r (readUnit rb s) (\<lambda>(c, s). bind_r (readUnits rb n s) (\<lambda>(cs, s). Inr (c # cs, s)))"

fun skipChars :: "'s reader \<Rightarrow> nat \<Rightarrow> 's \<Rightarrow> 's result" where
  "skipChars rb 0 s = Inr s"
| "skipChars rb (Suc n) s =
     bind_r (rb s) (\<lambda>(b, s).
     if b AND 0x80 = 0 then skipChars rb n s
     else if b AND 0xe0 \<noteq> 0xe0 then bind_r (rb s) (\<lambda>(_, s). skipChars rb n s)
     else bind_r (rb s) (\<lambda>(_, s). bind_r (rb s) (\<lambda>(_, s). skipChars rb n s)))"

text \<open>\<^verbatim>\<open>copyBytes\<close> moves the bytes in pieces of the copy buffer.\<close>

definition COPY_BUFFER_SIZE :: nat where
  "COPY_BUFFER_SIZE = 16384"

function copyBytes :: "(nat \<Rightarrow> 'i \<Rightarrow> (byte list \<times> 'i) result) \<Rightarrow> (byte list \<Rightarrow> 'o \<Rightarrow> 'o result) \<Rightarrow> nat \<Rightarrow> 'i \<Rightarrow> 'o \<Rightarrow> ('i \<times> 'o) result" where
  "copyBytes rbs wbs left i out =
     (if 0 < left
      then let toCopy = (if COPY_BUFFER_SIZE < left then COPY_BUFFER_SIZE else left)
           in bind_r (rbs toCopy i) (\<lambda>(bs, i). bind_r (wbs bs out) (\<lambda>out. copyBytes rbs wbs (left - toCopy) i out))
      else Inr (i, out))"
  by pat_completeness auto
termination
  by (relation "measure (\<lambda>(rbs, wbs, left, i, out). left)") (auto simp: COPY_BUFFER_SIZE_def split: if_splits)

declare copyBytes.simps [simp del]

subsection \<open>The wire format\<close>

definition int_wire :: "int32 \<Rightarrow> byte list" where
  "int_wire i = [ucast (signed_drop_bit 24 i), ucast (signed_drop_bit 16 i), ucast (signed_drop_bit 8 i), ucast i]"

definition long_wire :: "int64 \<Rightarrow> byte list" where
  "long_wire i = int_wire (ucast (signed_drop_bit 32 i)) @ int_wire (ucast i)"

text \<open>Seven bits per byte, the lowest first; the high bit says that another byte follows.\<close>

fun nat_wire :: "nat \<Rightarrow> byte list" where
  "nat_wire n = (if n < 128 then [of_nat n] else (of_nat (n mod 128) OR 0x80) # nat_wire (n div 128))"

declare nat_wire.simps [simp del]

lemma nat_wire_small: "n < 128 \<Longrightarrow> nat_wire n = [of_nat n]"
  and nat_wire_large: "128 \<le> n \<Longrightarrow> nat_wire n = (of_nat (n mod 128) OR 0x80) # nat_wire (n div 128)"
  by (simp_all add: nat_wire.simps [of n])

subsection \<open>Bytes of seven bits\<close>

lemma bit_80: "bit (0x80 :: 'a::len word) j \<longleftrightarrow> j = 7 \<and> 7 < LENGTH('a)"
proof -
  have "(0x80 :: 'a word) = push_bit 7 1" by simp
  then show ?thesis by (simp only: bit_push_bit_iff bit_1_iff) auto
qed

lemma bit_7f: "bit (0x7f :: 'a::len word) j \<longleftrightarrow> j < 7 \<and> j < LENGTH('a)"
proof -
  have "(0x7f :: 'a word) = mask 7" by (simp add: mask_eq_exp_minus_1)
  then show ?thesis by (simp only: bit_mask_iff) auto
qed

lemma bit_ff: "bit (0xff :: 'a::len word) j \<longleftrightarrow> j < 8 \<and> j < LENGTH('a)"
proof -
  have "(0xff :: 'a word) = mask 8" by (simp add: mask_eq_exp_minus_1)
  then show ?thesis by (simp only: bit_mask_iff) auto
qed

lemma bit_ffffffff: "bit (0xffffffff :: 'a::len word) j \<longleftrightarrow> j < 32 \<and> j < LENGTH('a)"
proof -
  have "(0xffffffff :: 'a word) = mask 32" by (simp add: mask_eq_exp_minus_1)
  then show ?thesis by (simp only: bit_mask_iff) auto
qed

lemma bit_consts_int:
  "bit (0x80 :: int) j \<longleftrightarrow> j = 7" "bit (0x7f :: int) j \<longleftrightarrow> j < 7" "bit (0xff :: int) j \<longleftrightarrow> j < 8"
  "bit (0xffffffff :: int) j \<longleftrightarrow> j < 32"
proof -
  have "(0x80 :: int) = push_bit 7 1" by simp
  then show "bit (0x80 :: int) j \<longleftrightarrow> j = 7" by (simp only: bit_push_bit_iff bit_1_iff) auto
  have "(0x7f :: int) = mask 7" "(0xff :: int) = mask 8" "(0xffffffff :: int) = mask 32"
    by (simp_all add: mask_eq_exp_minus_1)
  then show "bit (0x7f :: int) j \<longleftrightarrow> j < 7" "bit (0xff :: int) j \<longleftrightarrow> j < 8" "bit (0xffffffff :: int) j \<longleftrightarrow> j < 32"
    by (simp_all only: bit_mask_iff) auto
qed

lemmas bit_consts = bit_80 bit_7f bit_ff bit_ffffffff bit_consts_int

lemma high_bit_iff: "b AND 0x80 = 0 \<longleftrightarrow> \<not> bit b 7" for b :: byte
  unfolding word_zero_iff bit_and_iff bit_80 by auto

lemma bit_of_nat_byte: "bit (of_nat m :: byte) j \<longleftrightarrow> j < 8 \<and> bit m j"
  by (simp add: bit_of_nat_iff)

lemma small_byte:
  assumes "m < 128"
  shows "(of_nat m :: byte) AND 0x80 = 0" "(of_nat m OR 0x80 :: byte) AND 0x80 \<noteq> 0"
    "ucast ((of_nat m :: byte) AND 0x7f) = (of_nat m :: 'a::len word)"
    "ucast ((of_nat m OR 0x80 :: byte) AND 0x7f) = (of_nat m :: 'a::len word)"
proof -
  have t: "take_bit 7 m = m" using assms by (simp add: take_bit_nat_eq_self)
  have b: "bit m j \<Longrightarrow> j < 7" for j using t by (metis bit_take_bit_iff)
  show "(of_nat m :: byte) AND 0x80 = 0" unfolding high_bit_iff using b [of 7] by (auto simp: bit_of_nat_byte)
  show "(of_nat m OR 0x80 :: byte) AND 0x80 \<noteq> 0"
    unfolding high_bit_iff by (simp add: bit_or_iff bit_consts)
  show 1: "ucast ((of_nat m :: byte) AND 0x7f) = (of_nat m :: 'a::len word)"
    by (rule bit_word_eqI) (auto simp: bit_ucast_iff bit_and_iff bit_consts bit_of_nat_byte bit_of_nat_iff dest: b)
  have "(of_nat m OR 0x80 :: byte) AND 0x7f = of_nat m AND 0x7f"
    by (rule bit_word_eqI) (auto simp: bit_or_iff bit_and_iff bit_consts)
  with 1 show "ucast ((of_nat m OR 0x80 :: byte) AND 0x7f) = (of_nat m :: 'a::len word)" by simp
qed

lemma low_byte:
  fixes i :: "'a::len word"
  assumes "7 < LENGTH('a)"
  shows "ucast ((i AND 0x7f) OR 0x80) = (of_nat (unat i mod 128) OR 0x80 :: byte)"
    "unat i < 128 \<Longrightarrow> ucast i = (of_nat (unat i) :: byte)"
proof -
  have u: "bit (unat i) j \<longleftrightarrow> bit i j" for j by (simp add: bit_unsigned_iff bit_imp_le_length)
  have m: "unat i mod 128 = take_bit 7 (unat i)" by (simp add: take_bit_eq_mod)
  show "ucast ((i AND 0x7f) OR 0x80) = (of_nat (unat i mod 128) OR 0x80 :: byte)"
    unfolding m
    by (rule bit_word_eqI)
      (use assms in \<open>auto simp: bit_ucast_iff bit_or_iff bit_and_iff bit_consts bit_of_nat_byte bit_take_bit_iff u\<close>)
  show "unat i < 128 \<Longrightarrow> ucast i = (of_nat (unat i) :: byte)" by simp
qed

lemma word_split7:
  "(of_nat n :: 'a::len word) = of_nat (n mod 128) OR push_bit 7 (of_nat (n div 128))"
proof -
  have m: "n mod 128 = take_bit 7 n" "n div 128 = drop_bit 7 n" by (simp_all add: take_bit_eq_mod drop_bit_eq_div)
  show ?thesis
    unfolding m
    by (rule bit_word_eqI) (auto simp: bit_of_nat_iff bit_or_iff bit_push_bit_iff bit_take_bit_iff bit_drop_bit_eq not_less)
qed

subsection \<open>Reassembling fixed-width integers\<close>

lemma int_parts:
  fixes i :: int32
  shows "((push_bit 24 (ucast (ucast (signed_drop_bit 24 i) :: byte) AND 0xff)
    OR push_bit 16 (ucast (ucast (signed_drop_bit 16 i) :: byte) AND 0xff))
    OR push_bit 8 (ucast (ucast (signed_drop_bit 8 i) :: byte) AND 0xff))
    OR (ucast (ucast i :: byte) AND 0xff) = i" (is "?w = i")
proof (rule bit_word_eqI)
  fix j
  assume "j < LENGTH(32)"
  then have "j < 8 \<or> (\<exists>k<8. j = k + 8) \<or> (\<exists>k<8. j = k + 16) \<or> (\<exists>k<8. j = k + 24)"
    by simp presburger
  then consider "j < 8" | k where "j = k + 8" "k < 8" | k where "j = k + 16" "k < 8" | k where "j = k + 24" "k < 8"
    by blast
  then show "bit ?w j = bit i j"
    unfolding bit_or_iff bit_push_bit_iff bit_and_iff bit_ucast_iff bit_signed_drop_bit_iff bit_ff
    by cases (simp_all add: add.commute)
qed

lemma long_parts:
  fixes i :: int64
  shows "push_bit 32 (scast (ucast (signed_drop_bit 32 i) :: int32)) OR (scast (ucast i :: int32) AND 0xffffffff) = i"
    (is "?w = i")
proof (rule bit_word_eqI)
  fix j
  assume "j < LENGTH(64)"
  then have "j < 31 \<or> j = 31 \<or> (\<exists>k<31. j = k + 32) \<or> j = 63"
    by simp presburger
  then consider "j < 31" | "j = 31" | k where "j = k + 32" "k < 31" | "j = 63" by blast
  then show "bit ?w j = bit i j"
    unfolding bit_or_iff bit_push_bit_iff bit_and_iff bit_ucast_iff bit_signed_drop_bit_iff bit_signed_iff bit_ffffffff
    by (cases, simp_all add: add.commute min_def) (simp add: numeral_eq_Suc)
qed

subsection \<open>What a stream class promises\<close>

text \<open>
  A source is seen as the bytes that are left: a read takes the first, or throws an IO error at
  the end. \<open>gets f bs v\<close> says that \<open>f\<close> turns the bytes \<open>bs\<close> into the value \<open>v\<close>.
\<close>

locale byte_source =
  fixes rb :: "'s reader" and inv :: "'s \<Rightarrow> bool" and left :: "'s \<Rightarrow> byte list"
  assumes read_some: "inv s \<Longrightarrow> left s = b # bs \<Longrightarrow> \<exists>s'. rb s = Inr (b, s') \<and> inv s' \<and> left s' = bs"
    and read_eof: "inv s \<Longrightarrow> left s = [] \<Longrightarrow> rb s = Inl IOException"
begin

definition gets :: "('s \<Rightarrow> ('v \<times> 's) result) \<Rightarrow> byte list \<Rightarrow> 'v \<Rightarrow> bool" where
  "gets f bs v \<longleftrightarrow> (\<forall>s r. inv s \<longrightarrow> left s = bs @ r \<longrightarrow> (\<exists>s'. f s = Inr (v, s') \<and> inv s' \<and> left s' = r))"

lemma getsI: "(\<And>s r. inv s \<Longrightarrow> left s = bs @ r \<Longrightarrow> \<exists>s'. f s = Inr (v, s') \<and> inv s' \<and> left s' = r) \<Longrightarrow> gets f bs v"
  by (simp add: gets_def)

lemma getsD: "gets f bs v \<Longrightarrow> inv s \<Longrightarrow> left s = bs @ r \<Longrightarrow> \<exists>s'. f s = Inr (v, s') \<and> inv s' \<and> left s' = r"
  by (simp add: gets_def)

lemma gets_return: "gets (\<lambda>s. Inr (v, s)) [] v"
  by (simp add: gets_def)

lemma gets_byte: "gets rb [b] b"
  by (rule getsI) (use read_some in auto)

lemma gets_bind: "gets f xs v \<Longrightarrow> gets (g v) ys w \<Longrightarrow> gets (\<lambda>s. bind_r (f s) (\<lambda>(v, s). g v s)) (xs @ ys) w"
  by (rule getsI) (fastforce dest: getsD)

lemma gets_step: "gets (g b) ys w \<Longrightarrow> gets (\<lambda>s. bind_r (rb s) (\<lambda>(v, s). g v s)) (b # ys) w"
  using gets_bind [OF gets_byte] by fastforce

lemma gets_int: "gets (readInt rb) (int_wire i) i"
proof -
  have "gets (\<lambda>s. bind_r (rb s) (\<lambda>(b1, s). bind_r (rb s) (\<lambda>(b2, s). bind_r (rb s) (\<lambda>(b3, s).
      bind_r (rb s) (\<lambda>(b4, s). Inr (((push_bit 24 (ucast b1 AND 0xff) OR push_bit 16 (ucast b2 AND 0xff)) OR
        push_bit 8 (ucast b3 AND 0xff)) OR (ucast b4 AND 0xff), s)))))) (int_wire i) i"
    unfolding int_wire_def
    by (rule gets_step, rule gets_step, rule gets_step, rule gets_step) (simp only: int_parts gets_return)
  then show ?thesis unfolding readInt_def [abs_def] Let_def .
qed

lemma gets_long: "gets (readLong rb) (long_wire i) i"
proof -
  have "gets (\<lambda>s. bind_r (readInt rb s) (\<lambda>(hi, s). bind_r (readInt rb s) (\<lambda>(lo, s).
      Inr (push_bit 32 (scast hi) OR (scast lo AND 0xffffffff), s)))) (long_wire i) i"
    unfolding long_wire_def
  proof (rule gets_bind [OF gets_int])
    show "gets (\<lambda>s. bind_r (readInt rb s) (\<lambda>(lo, s).
        Inr (push_bit 32 (scast (ucast (signed_drop_bit 32 i) :: int32)) OR (scast lo AND 0xffffffff), s)))
        (int_wire (ucast i)) i"
      using gets_bind [OF gets_int, of "\<lambda>lo s. Inr (push_bit 32 (scast (ucast (signed_drop_bit 32 i) :: int32)) OR (scast lo AND 0xffffffff), s)" "ucast i" "[]" i]
      by (simp add: long_parts gets_return)
  qed
  then show ?thesis unfolding readLong_def [abs_def] Let_def .
qed

end

text \<open>A sink is seen as the bytes written so far: a write appends one.\<close>

locale byte_sink =
  fixes wb :: "'s writer" and inv :: "'s \<Rightarrow> bool" and written :: "'s \<Rightarrow> byte list"
  assumes write_one: "inv s \<Longrightarrow> \<exists>s'. wb b s = Inr s' \<and> inv s' \<and> written s' = written s @ [b]"
begin

definition puts :: "('s \<Rightarrow> 's result) \<Rightarrow> byte list \<Rightarrow> bool" where
  "puts f bs \<longleftrightarrow> (\<forall>s. inv s \<longrightarrow> (\<exists>s'. f s = Inr s' \<and> inv s' \<and> written s' = written s @ bs))"

lemma putsD: "puts f bs \<Longrightarrow> inv s \<Longrightarrow> \<exists>s'. f s = Inr s' \<and> inv s' \<and> written s' = written s @ bs"
  by (simp add: puts_def)

lemma puts_return: "puts (\<lambda>s. Inr s) []"
  by (simp add: puts_def)

lemma puts_byte: "puts (wb b) [b]"
  using write_one by (simp add: puts_def)

lemma puts_bind: "puts f xs \<Longrightarrow> puts g ys \<Longrightarrow> puts (\<lambda>s. bind_r (f s) (\<lambda>s. g s)) (xs @ ys)"
  unfolding puts_def by fastforce

lemma puts_step: "puts g ys \<Longrightarrow> puts (\<lambda>s. bind_r (wb b s) (\<lambda>s. g s)) (b # ys)"
  using puts_bind [OF puts_byte] by fastforce

lemma puts_int: "puts (writeInt wb i) (int_wire i)"
  unfolding writeInt_def [abs_def] int_wire_def
  by (rule puts_step, rule puts_step, rule puts_step) (rule puts_byte)

lemma puts_long: "puts (writeLong wb i) (long_wire i)"
  unfolding writeLong_def [abs_def] long_wire_def by (rule puts_bind) (rule puts_int)+

end

subsection \<open>Variable-length integers\<close>

lemma nat_wire_not_Nil [simp]: "nat_wire n \<noteq> []"
  by (subst nat_wire.simps) simp

lemma length_nat_wire: "n < 128 ^ Suc k \<Longrightarrow> length (nat_wire n) \<le> Suc k"
proof (induction k arbitrary: n)
  case (Suc k)
  then show ?case
  proof (cases "n < 128")
    case False
    then have "n div 128 < 128 ^ Suc k" using Suc.prems by (simp add: less_mult_imp_div_less mult.commute)
    then show ?thesis using Suc.IH [of "n div 128"] False by (simp add: nat_wire_large)
  qed (simp add: nat_wire_small)
qed (simp add: nat_wire_small)

lemma length_nat_wire_le: "length (nat_wire n) \<le> n + 1"
proof (induction n rule: nat_wire.induct)
  case (1 n)
  have "\<not> n < 128 \<Longrightarrow> n div 128 < n" by simp
  with 1 show ?case by (subst nat_wire.simps) force
qed

lemma nat_wire_head:
  assumes "nat_wire n = b # bs"
  shows "ucast (b AND 0x7f) = (of_nat (n mod 128) :: 'a::len word)" "b AND 0x80 \<noteq> 0 \<longleftrightarrow> 128 \<le> n"
    "n < 128 \<Longrightarrow> bs = []" "128 \<le> n \<Longrightarrow> bs = nat_wire (n div 128)"
proof -
  have "ucast (b AND 0x7f) = (of_nat (n mod 128) :: 'a word) \<and> (b AND 0x80 \<noteq> 0 \<longleftrightarrow> 128 \<le> n) \<and>
      (n < 128 \<longrightarrow> bs = []) \<and> (128 \<le> n \<longrightarrow> bs = nat_wire (n div 128))"
  proof (cases "n < 128")
    case True
    then show ?thesis using assms small_byte [OF True] by (simp add: nat_wire_small)
  next
    case False
    have "n mod 128 < 128" by simp
    note sb = small_byte [OF this]
    have b: "b = of_nat (n mod 128) OR 0x80" "bs = nat_wire (n div 128)"
      using assms False by (simp_all add: nat_wire_large)
    show ?thesis unfolding b using False sb(2,4) by simp
  qed
  then show "ucast (b AND 0x7f) = (of_nat (n mod 128) :: 'a word)" "b AND 0x80 \<noteq> 0 \<longleftrightarrow> 128 \<le> n"
    "n < 128 \<Longrightarrow> bs = []" "128 \<le> n \<Longrightarrow> bs = nat_wire (n div 128)" by blast+
qed

text \<open>One more group of seven bits, at its place.\<close>

lemma group_step:
  fixes a :: "'a::len word"
  assumes "7 \<le> k"
  shows "(a OR push_bit (k - 7) (of_nat (n mod 128))) OR push_bit k (of_nat (n div 128)) = a OR push_bit (k - 7) (of_nat n)"
proof -
  have "push_bit k w = push_bit (k - 7) (push_bit 7 w)" for w :: "'a word"
    using assms by (simp add: push_bit_push_bit)
  then have "push_bit (k - 7) (of_nat (n mod 128)) OR push_bit k (of_nat (n div 128)) =
      push_bit (k - 7) (of_nat (n mod 128) OR push_bit 7 (of_nat (n div 128)) :: 'a word)"
    by (simp only: push_bit_or)
  then show ?thesis by (simp only: or.assoc flip: word_split7)
qed

text \<open>The shift of a group that fits stays below the width.\<close>

lemma shift_fits:
  assumes "128 \<le> n" "n * 2 ^ (k - 7) < 2 ^ w" "7 \<le> k"
  shows "k < w" "(n div 128) * 2 ^ (k + 7 - 7) < (2::nat) ^ w"
proof -
  have p: "(2::nat) ^ k = 128 * 2 ^ (k - 7)" using assms(3) power_add [of "2::nat" 7 "k - 7"] by simp
  have "2 ^ k \<le> n * 2 ^ (k - 7)" unfolding p using assms(1) by simp
  then have "(2::nat) ^ k < 2 ^ w" using assms(2) by linarith
  then show "k < w" by (simp add: power_strict_increasing_iff)
  have "(n div 128) * 2 ^ k = ((n div 128) * 128) * 2 ^ (k - 7)" unfolding p by simp
  also have "\<dots> \<le> n * 2 ^ (k - 7)" by simp
  finally show "(n div 128) * 2 ^ (k + 7 - 7) < (2::nat) ^ w" using assms(2) by simp
qed

context byte_source begin

lemma gets_vint_loop:
  "7 \<le> k \<Longrightarrow> n * 2 ^ (k - 7) < 2 ^ 32 \<Longrightarrow> nat_wire n = b # bs \<Longrightarrow>
   gets (readVInt_loop rb k (a OR push_bit (k - 7) (of_nat (n mod 128))) b) bs (a OR push_bit (k - 7) (of_nat n))"
proof (induction n arbitrary: k a b bs rule: nat_wire.induct)
  case (1 n)
  note h = nat_wire_head [OF "1.prems"(3)]
  show ?case
  proof (cases "n < 128")
    case True
    then show ?thesis using h(2,3) by (subst readVInt_loop.simps [abs_def]) (simp add: gets_return)
  next
    case False
    then have n: "128 \<le> n" by simp
    obtain b' bs' where w: "nat_wire (n div 128) = b' # bs'" by (cases "nat_wire (n div 128)") simp_all
    note f = shift_fits [OF n "1.prems"(2,1)]
    have "7 \<le> k + 7" by simp
    from "1.IH" [OF False this f(2) w, of "a OR push_bit (k - 7) (of_nat (n mod 128))"]
    have "gets (readVInt_loop rb (k + 7) ((a OR push_bit (k - 7) (of_nat (n mod 128))) OR
        push_bit k (of_nat (n div 128 mod 128))) b') bs' (a OR push_bit (k - 7) (of_nat n))"
      by (simp only: diff_add_inverse2 group_step [OF "1.prems"(1)])
    then have "gets (\<lambda>s. bind_r (rb s) (\<lambda>(b, s). if k < 32 then readVInt_loop rb (k + 7)
        ((a OR push_bit (k - 7) (of_nat (n mod 128))) OR push_bit k (ucast (b AND 0x7f))) b s else Inl OutOfRange))
        (b' # bs') (a OR push_bit (k - 7) (of_nat n))"
      by (intro gets_step) (use f(1) in \<open>simp add: nat_wire_head(1) [OF w]\<close>)
    then show ?thesis using h(2,4) n w by (subst readVInt_loop.simps [abs_def]) simp
  qed
qed

lemma gets_vint: "gets (readVInt rb) (nat_wire (unat i)) i"
proof -
  obtain b bs where w: "nat_wire (unat i) = b # bs" by (cases "nat_wire (unat i)") simp_all
  have "unat i < 2 ^ 32" using unsigned_less [of i] by simp
  with gets_vint_loop [OF _ _ w, of 7 0] have "gets (readVInt_loop rb 7 (ucast (b AND 0x7f)) b) bs i"
    by (simp add: nat_wire_head(1) [OF w])
  from gets_step [where g = "\<lambda>b s. readVInt_loop rb 7 (ucast (b AND 0x7f)) b s", OF this]
  show ?thesis unfolding readVInt_def [abs_def] w .
qed

lemma gets_vlong_loop:
  "7 \<le> k \<Longrightarrow> n * 2 ^ (k - 7) < 2 ^ 64 \<Longrightarrow> nat_wire n = b # bs \<Longrightarrow>
   gets (readVLong_loop rb k (a OR push_bit (k - 7) (of_nat (n mod 128))) b) bs (a OR push_bit (k - 7) (of_nat n))"
proof (induction n arbitrary: k a b bs rule: nat_wire.induct)
  case (1 n)
  note h = nat_wire_head [OF "1.prems"(3)]
  show ?case
  proof (cases "n < 128")
    case True
    then show ?thesis using h(2,3) by (subst readVLong_loop.simps [abs_def]) (simp add: gets_return)
  next
    case False
    then have n: "128 \<le> n" by simp
    obtain b' bs' where w: "nat_wire (n div 128) = b' # bs'" by (cases "nat_wire (n div 128)") simp_all
    note f = shift_fits [OF n "1.prems"(2,1)]
    have "7 \<le> k + 7" by simp
    from "1.IH" [OF False this f(2) w, of "a OR push_bit (k - 7) (of_nat (n mod 128))"]
    have "gets (readVLong_loop rb (k + 7) ((a OR push_bit (k - 7) (of_nat (n mod 128))) OR
        push_bit k (of_nat (n div 128 mod 128))) b') bs' (a OR push_bit (k - 7) (of_nat n))"
      by (simp only: diff_add_inverse2 group_step [OF "1.prems"(1)])
    then have "gets (\<lambda>s. bind_r (rb s) (\<lambda>(b, s). if k < 64 then readVLong_loop rb (k + 7)
        ((a OR push_bit (k - 7) (of_nat (n mod 128))) OR push_bit k (ucast (b AND 0x7f))) b s else Inl OutOfRange))
        (b' # bs') (a OR push_bit (k - 7) (of_nat n))"
      by (intro gets_step) (use f(1) in \<open>simp add: nat_wire_head(1) [OF w]\<close>)
    then show ?thesis using h(2,4) n w by (subst readVLong_loop.simps [abs_def]) simp
  qed
qed

lemma gets_vlong: "gets (readVLong rb) (nat_wire (unat i)) i"
proof -
  obtain b bs where w: "nat_wire (unat i) = b # bs" by (cases "nat_wire (unat i)") simp_all
  have "unat i < 2 ^ 64" using unsigned_less [of i] by simp
  with gets_vlong_loop [OF _ _ w, of 7 0] have "gets (readVLong_loop rb 7 (ucast (b AND 0x7f)) b) bs i"
    by (simp add: nat_wire_head(1) [OF w])
  from gets_step [where g = "\<lambda>b s. readVLong_loop rb 7 (ucast (b AND 0x7f)) b s", OF this]
  show ?thesis unfolding readVLong_def [abs_def] w .
qed

end

context byte_sink begin

lemma puts_vint: "puts (writeVInt wb i) (nat_wire (unat i))"
proof (induction "unat i" arbitrary: i rule: less_induct)
  case less
  show ?case
  proof (cases "unat i < 128")
    case True
    then have "i AND NOT 0x7f = 0" using mask7_zero_iff [of i] by simp
    then have "writeVInt wb i = wb (of_nat (unat i))"
      using True low_byte(2) [of i] by (intro ext) (subst writeVInt.simps, simp)
    then show ?thesis using True puts_byte by (simp add: nat_wire_small)
  next
    case False
    then have "i AND NOT 0x7f \<noteq> 0" using mask7_zero_iff [of i] by simp
    then have w: "writeVInt wb i = (\<lambda>s. bind_r (wb (of_nat (unat i mod 128) OR 0x80) s)
        (\<lambda>s. writeVInt wb (unsignedShift32 i 7) s))"
      using low_byte(1) [of i] by (intro ext) (subst writeVInt.simps, simp)
    have "unat (unsignedShift32 i 7) < unat i" using False by (simp add: shift7_32)
    from puts_step [OF less [OF this]] show ?thesis
      using False unfolding w shift7_32 by (simp add: nat_wire_large not_less)
  qed
qed

lemma puts_vlong: "puts (writeVLong wb i) (nat_wire (unat i))"
proof (induction "unat i" arbitrary: i rule: less_induct)
  case less
  show ?case
  proof (cases "unat i < 128")
    case True
    then have "i AND NOT 0x7f = 0" using mask7_zero_iff [of i] by simp
    then have "writeVLong wb i = wb (of_nat (unat i))"
      using True low_byte(2) [of i] by (intro ext) (subst writeVLong.simps, simp)
    then show ?thesis using True puts_byte by (simp add: nat_wire_small)
  next
    case False
    then have "i AND NOT 0x7f \<noteq> 0" using mask7_zero_iff [of i] by simp
    then have w: "writeVLong wb i = (\<lambda>s. bind_r (wb (of_nat (unat i mod 128) OR 0x80) s)
        (\<lambda>s. writeVLong wb (unsignedShift64 i 7) s))"
      using low_byte(1) [of i] by (intro ext) (subst writeVLong.simps, simp)
    have "unat (unsignedShift64 i 7) < unat i" using False by (simp add: shift7_64)
    from puts_step [OF less [OF this]] show ?thesis
      using False unfolding w shift7_64 by (simp add: nat_wire_large not_less)
  qed
qed

end

subsection \<open>Characters\<close>

definition char_wire :: "int32 \<Rightarrow> byte list" where
  "char_wire code =
     (if 1 \<le> sint code \<and> sint code \<le> 0x7f then [ucast code]
      else if (0x80 \<le> sint code \<and> sint code \<le> 0x7ff) \<or> code = 0
      then [ucast (0xc0 OR signed_drop_bit 6 code), ucast (0x80 OR (code AND 0x3f))]
      else [ucast (0xe0 OR unsignedShift32 code 12), ucast (0x80 OR (signed_drop_bit 6 code AND 0x3f)),
            ucast (0x80 OR (code AND 0x3f))])"

lemma bit_masks:
  "bit (0x3f :: 'a::len word) j \<longleftrightarrow> j < 6 \<and> j < LENGTH('a)"
  "bit (0x1f :: 'a::len word) j \<longleftrightarrow> j < 5 \<and> j < LENGTH('a)"
  "bit (0x0f :: 'a::len word) j \<longleftrightarrow> j < 4 \<and> j < LENGTH('a)"
proof -
  have "(0x3f :: 'a word) = mask 6" "(0x1f :: 'a word) = mask 5" "(0x0f :: 'a word) = mask 4"
    by (simp_all add: mask_eq_exp_minus_1)
  then show "bit (0x3f :: 'a word) j \<longleftrightarrow> j < 6 \<and> j < LENGTH('a)" "bit (0x1f :: 'a word) j \<longleftrightarrow> j < 5 \<and> j < LENGTH('a)"
    "bit (0x0f :: 'a word) j \<longleftrightarrow> j < 4 \<and> j < LENGTH('a)"
    by (simp_all only: bit_mask_iff) auto
qed

lemma bit_leads:
  "bit (0xc0 :: 'a::len word) j \<longleftrightarrow> (j = 6 \<or> j = 7) \<and> j < LENGTH('a)"
  "bit (0xe0 :: 'a::len word) j \<longleftrightarrow> (j = 5 \<or> j = 6 \<or> j = 7) \<and> j < LENGTH('a)"
proof -
  have c: "(0xc0 :: int) = push_bit 6 (mask 2)" and e: "(0xe0 :: int) = push_bit 5 (mask 3)"
    by (simp_all add: mask_eq_exp_minus_1)
  have "bit (0xc0 :: int) j \<longleftrightarrow> j = 6 \<or> j = 7" "bit (0xe0 :: int) j \<longleftrightarrow> j = 5 \<or> j = 6 \<or> j = 7"
    unfolding c e bit_push_bit_iff bit_mask_iff by auto
  then show "bit (0xc0 :: 'a word) j \<longleftrightarrow> (j = 6 \<or> j = 7) \<and> j < LENGTH('a)"
    "bit (0xe0 :: 'a word) j \<longleftrightarrow> (j = 5 \<or> j = 6 \<or> j = 7) \<and> j < LENGTH('a)" by auto
qed

lemma nonneg_bits:
  fixes c :: int32
  assumes "0 \<le> sint c" "sint c < 2 ^ k" "bit c j"
  shows "j < k"
proof (rule ccontr)
  assume "\<not> j < k"
  have "bit (sint c) j"
    using assms(3) bit_imp_le_length [OF assms(3)] by (cases "j = 31") (simp_all add: bit_signed_iff min_def)
  moreover have "take_bit k (sint c) = sint c" using assms(1,2) by (simp add: take_bit_int_eq_self)
  ultimately show False using \<open>\<not> j < k\<close> by (metis bit_take_bit_iff)
qed

lemma lead_bits:
  fixes b :: byte
  shows "b AND 0xe0 = 0xe0 \<longleftrightarrow> bit b 5 \<and> bit b 6 \<and> bit b 7"
proof
  assume "b AND 0xe0 = 0xe0"
  then have "bit (b AND 0xe0) j \<longleftrightarrow> bit (0xe0 :: byte) j" for j by simp
  from this [of 5] this [of 6] this [of 7] show "bit b 5 \<and> bit b 6 \<and> bit b 7"
    unfolding bit_and_iff bit_leads by simp
next
  assume "bit b 5 \<and> bit b 6 \<and> bit b 7"
  then show "b AND 0xe0 = 0xe0" by (intro bit_word_eqI) (auto simp only: bit_and_iff bit_leads)
qed

lemma char1:
  fixes c :: int32
  assumes "0 \<le> sint c" "sint c \<le> 0x7f"
  shows "(ucast c :: byte) AND 0x80 = 0" "ucast ((ucast c :: byte) AND 0x7f) = (ucast c :: 16 word)"
proof -
  have b: "bit c j \<Longrightarrow> j < 7" for j by (rule nonneg_bits [of c 7]) (use assms in simp_all)
  show "(ucast c :: byte) AND 0x80 = 0" unfolding high_bit_iff bit_ucast_iff using b [of 7] by auto
  show "ucast ((ucast c :: byte) AND 0x7f) = (ucast c :: 16 word)"
  proof (rule bit_word_eqI)
    fix j
    assume "j < LENGTH(16)"
    then show "bit (ucast ((ucast c :: byte) AND 0x7f) :: 16 word) j = bit (ucast c :: 16 word) j"
      unfolding bit_ucast_iff bit_and_iff bit_7f using b [of j] by auto
  qed
qed

lemma char2:
  fixes c :: int32
  assumes "0 \<le> sint c" "sint c \<le> 0x7ff"
  defines "b1 \<equiv> ucast (0xc0 OR signed_drop_bit 6 c) :: byte" and "b2 \<equiv> ucast (0x80 OR (c AND 0x3f)) :: byte"
  shows "b1 AND 0x80 \<noteq> 0" "b1 AND 0xe0 \<noteq> 0xe0"
    "push_bit 6 (ucast (b1 AND 0x1f)) OR ucast (b2 AND 0x3f) = (ucast c :: 16 word)"
proof -
  have b: "bit c j \<Longrightarrow> j < 11" for j by (rule nonneg_bits [of c 11]) (use assms in simp_all)
  have sd: "bit (signed_drop_bit 6 c) j \<longleftrightarrow> bit c (j + 6)" for j
    using b [of 31] b [of "j + 6"] unfolding bit_signed_drop_bit_iff by (auto simp: add.commute numeral_eq_Suc)
  show "b1 AND 0x80 \<noteq> 0" unfolding high_bit_iff b1_def bit_ucast_iff bit_or_iff bit_leads by simp
  show "b1 AND 0xe0 \<noteq> 0xe0"
    unfolding lead_bits b1_def bit_ucast_iff bit_or_iff bit_leads sd using b [of "5 + 6"] by auto
  show "push_bit 6 (ucast (b1 AND 0x1f)) OR ucast (b2 AND 0x3f) = (ucast c :: 16 word)"
  proof (rule bit_word_eqI)
    fix j
    assume "j < LENGTH(16)"
    show "bit (push_bit 6 (ucast (b1 AND 0x1f)) OR ucast (b2 AND 0x3f) :: 16 word) j = bit (ucast c :: 16 word) j"
      unfolding b1_def b2_def bit_or_iff bit_push_bit_iff bit_ucast_iff bit_and_iff bit_masks bit_leads bit_80 sd
      using \<open>j < LENGTH(16)\<close> b [of j] by auto
  qed
qed

lemma char3:
  fixes c :: int32
  defines "b1 \<equiv> ucast (0xe0 OR unsignedShift32 c 12) :: byte"
    and "b2 \<equiv> ucast (0x80 OR (signed_drop_bit 6 c AND 0x3f)) :: byte" and "b3 \<equiv> ucast (0x80 OR (c AND 0x3f)) :: byte"
  shows "b1 AND 0x80 \<noteq> 0" "b1 AND 0xe0 = 0xe0"
    "ucast ((push_bit 12 (ucast (b1 AND 0x0f) :: int32) OR push_bit 6 (ucast (b2 AND 0x3f))) OR ucast (b3 AND 0x3f))
       = (ucast c :: 16 word)"
proof -
  have us: "unsignedShift32 c 12 = drop_bit 12 c" by (simp add: unsignedShift32_drop)
  have sd: "j < 6 \<Longrightarrow> bit (signed_drop_bit 6 c) j \<longleftrightarrow> bit c (j + 6)" for j
    unfolding bit_signed_drop_bit_iff by (auto simp: add.commute)
  show "b1 AND 0x80 \<noteq> 0" unfolding high_bit_iff b1_def bit_ucast_iff bit_or_iff bit_leads by simp
  show "b1 AND 0xe0 = 0xe0" unfolding lead_bits b1_def bit_ucast_iff bit_or_iff bit_leads by simp
  show "ucast ((push_bit 12 (ucast (b1 AND 0x0f) :: int32) OR push_bit 6 (ucast (b2 AND 0x3f))) OR ucast (b3 AND 0x3f))
       = (ucast c :: 16 word)"
  proof (rule bit_word_eqI)
    fix j
    assume "j < LENGTH(16)"
    then have "j < 6 \<or> (\<exists>k<6. j = k + 6) \<or> (\<exists>k<4. j = k + 12)" by simp presburger
    then consider "j < 6" | k where "j = k + 6" "k < 6" | k where "j = k + 12" "k < 4" by blast
    then show "bit (ucast ((push_bit 12 (ucast (b1 AND 0x0f) :: int32) OR push_bit 6 (ucast (b2 AND 0x3f))) OR ucast (b3 AND 0x3f)) :: 16 word) j
        = bit (ucast c :: 16 word) j"
      unfolding b1_def b2_def b3_def us bit_or_iff bit_push_bit_iff bit_ucast_iff bit_and_iff bit_masks bit_leads bit_80 bit_drop_bit_eq o_apply
      by cases (auto simp: sd add.commute)
  qed
qed

lemma char_cases:
  fixes c :: int32
  obtains "1 \<le> sint c \<and> sint c \<le> 0x7f"
    | "\<not> (1 \<le> sint c \<and> sint c \<le> 0x7f)" "(0x80 \<le> sint c \<and> sint c \<le> 0x7ff) \<or> c = 0"
    | "\<not> (1 \<le> sint c \<and> sint c \<le> 0x7f)" "\<not> ((0x80 \<le> sint c \<and> sint c \<le> 0x7ff) \<or> c = 0)"
  by blast

context byte_source begin

lemma gets_return_eq: "v = w \<Longrightarrow> gets (\<lambda>s. Inr (v, s)) [] w"
  by (simp add: gets_return)

lemma gets_unit: "gets (readUnit rb) (char_wire c) (ucast c)"
proof (cases rule: char_cases [of c])
  case 1
  then have "0 \<le> sint c" "sint c \<le> 0x7f" by auto
  note f = char1 [OF this]
  show ?thesis unfolding readUnit_def [abs_def] char_wire_def if_P [OF 1]
    by (rule gets_step) (simp only: f(1) simp_thms if_True, rule gets_return_eq, rule f(2))
next
  case 2
  then have "0 \<le> sint c" "sint c \<le> 0x7ff" by auto
  note f = char2 [OF this]
  show ?thesis unfolding readUnit_def [abs_def] char_wire_def if_not_P [OF 2(1)] if_P [OF 2(2)]
    by (rule gets_step, simp only: f(1,2) simp_thms if_False if_True, rule gets_step)
      (rule gets_return_eq, rule f(3))
next
  case 3
  note f = char3 [of c]
  show ?thesis unfolding readUnit_def [abs_def] char_wire_def if_not_P [OF 3(1)] if_not_P [OF 3(2)] Let_def
    by (rule gets_step, simp only: f(1,2) simp_thms if_False, rule gets_step, rule gets_step)
      (rule gets_return_eq, rule f(3))
qed

lemma gets_units: "gets (readUnits rb (length cs)) (concat (map char_wire cs)) (map ucast cs)"
proof (induction cs)
  case Nil
  have "readUnits rb 0 = (\<lambda>s. Inr ([], s))" by (intro ext) simp
  then show ?case by (simp add: gets_return)
next
  case (Cons c cs)
  have "gets (\<lambda>s. bind_r (readUnits rb (length cs) s) (\<lambda>(us, s). Inr (ucast c # us, s))) (concat (map char_wire cs)) (map ucast (c # cs))"
    using gets_bind [OF Cons, of "\<lambda>us s. Inr (ucast c # us, s)" "[]" "map ucast (c # cs)"] by (simp add: gets_return)
  from gets_bind [where g = "\<lambda>u s. bind_r (readUnits rb (length cs) s) (\<lambda>(us, s). Inr (u # us, s))", OF gets_unit this]
  have "gets (\<lambda>s. readUnits rb (Suc (length cs)) s) (char_wire c @ concat (map char_wire cs)) (map ucast (c # cs))"
    by (simp only: readUnits.simps)
  then show ?case by simp
qed

text \<open>Skipping consumes the same bytes.\<close>

lemma skip_one:
  assumes "inv s" "left s = char_wire c @ r"
  shows "\<exists>s'. skipChars rb (Suc n) s = skipChars rb n s' \<and> inv s' \<and> left s' = r"
proof (cases rule: char_cases [of c])
  case 1
  then have "0 \<le> sint c" "sint c \<le> 0x7f" by auto
  note f = char1 [OF this]
  obtain s1 where "rb s = Inr (ucast c, s1)" "inv s1" "left s1 = r"
    using read_some [OF assms(1)] assms(2) 1 by (auto simp: char_wire_def)
  then show ?thesis using f by auto
next
  case 2
  then have "0 \<le> sint c" "sint c \<le> 0x7ff" by auto
  note f = char2 [OF this]
  let ?b1 = "ucast (0xc0 OR signed_drop_bit 6 c) :: byte" and ?b2 = "ucast (0x80 OR (c AND 0x3f)) :: byte"
  have "left s = ?b1 # ?b2 # r" using assms(2) unfolding char_wire_def if_not_P [OF 2(1)] if_P [OF 2(2)] by (simp only: append.simps)
  with read_some [OF assms(1) this] obtain s1 where s1: "rb s = Inr (?b1, s1)" "inv s1" "left s1 = ?b2 # r" by blast
  with read_some [OF s1(2,3)] obtain s2 where "rb s1 = Inr (?b2, s2)" "inv s2" "left s2 = r" by blast
  then show ?thesis using f s1 by (simp only: skipChars.simps bind_r_simps prod.case simp_thms if_False if_True) blast
next
  case 3
  note f = char3 [of c]
  let ?b1 = "ucast (0xe0 OR unsignedShift32 c 12) :: byte" and ?b2 = "ucast (0x80 OR (signed_drop_bit 6 c AND 0x3f)) :: byte"
    and ?b3 = "ucast (0x80 OR (c AND 0x3f)) :: byte"
  have "left s = ?b1 # ?b2 # ?b3 # r" using assms(2) unfolding char_wire_def if_not_P [OF 3(1)] if_not_P [OF 3(2)] by (simp only: append.simps)
  with read_some [OF assms(1) this] obtain s1 where s1: "rb s = Inr (?b1, s1)" "inv s1" "left s1 = ?b2 # ?b3 # r" by blast
  with read_some [OF s1(2,3)] obtain s2 where s2: "rb s1 = Inr (?b2, s2)" "inv s2" "left s2 = ?b3 # r" by blast
  with read_some [OF s2(2,3)] obtain s3 where "rb s2 = Inr (?b3, s3)" "inv s3" "left s3 = r" by blast
  then show ?thesis using f s1 s2 by (simp only: skipChars.simps bind_r_simps prod.case simp_thms if_False) blast
qed

lemma skip_chars:
  "inv s \<Longrightarrow> left s = concat (map char_wire cs) @ r \<Longrightarrow>
     \<exists>s'. skipChars rb (length cs) s = Inr s' \<and> inv s' \<and> left s' = r"
proof (induction cs arbitrary: s)
  case (Cons c cs)
  from Cons.prems have "left s = char_wire c @ (concat (map char_wire cs) @ r)" by simp
  from skip_one [OF Cons.prems(1) this] obtain s1 where
    s1: "skipChars rb (Suc (length cs)) s = skipChars rb (length cs) s1" "inv s1" "left s1 = concat (map char_wire cs) @ r" by blast
  from Cons.IH [OF s1(2,3)] s1(1) show ?case by (simp del: skipChars.simps)
qed simp

end

context byte_sink begin

lemma puts_char: "puts (writeChar wb c) (char_wire c)"
proof (cases rule: char_cases [of c])
  case 1
  show ?thesis unfolding writeChar_def [abs_def] char_wire_def if_P [OF 1] by (rule puts_byte)
next
  case 2
  show ?thesis unfolding writeChar_def [abs_def] char_wire_def if_not_P [OF 2(1)] if_P [OF 2(2)]
    by (rule puts_step) (rule puts_byte)
next
  case 3
  show ?thesis unfolding writeChar_def [abs_def] char_wire_def if_not_P [OF 3(1)] if_not_P [OF 3(2)]
    by (rule puts_step, rule puts_step) (rule puts_byte)
qed

lemma puts_chars: "puts (writeChars wb cs) (concat (map char_wire cs))"
proof (induction cs)
  case Nil
  have "writeChars wb [] = (\<lambda>s. Inr s)" by (intro ext) simp
  then show ?case by (simp add: puts_return)
next
  case (Cons c cs)
  have "writeChars wb (c # cs) = (\<lambda>s. bind_r (writeChar wb c s) (\<lambda>s. writeChars wb cs s))" by (intro ext) simp
  then show ?case using puts_bind [OF puts_char Cons] by simp
qed

end

subsection \<open>Records of several fields\<close>

text \<open>The sequence of writes of a file format, and the reads that mirror it.\<close>

datatype field = FByte byte | FInt int32 | FVInt int32 | FLong int64 | FVLong int64

fun put_field :: "'s writer \<Rightarrow> field \<Rightarrow> 's \<Rightarrow> 's result" where
  "put_field wb (FByte b) = wb b"
| "put_field wb (FInt i) = writeInt wb i"
| "put_field wb (FVInt i) = writeVInt wb i"
| "put_field wb (FLong i) = writeLong wb i"
| "put_field wb (FVLong i) = writeVLong wb i"

fun get_field :: "'s reader \<Rightarrow> field \<Rightarrow> 's \<Rightarrow> (field \<times> 's) result" where
  "get_field rb (FByte _) s = bind_r (rb s) (\<lambda>(b, s). Inr (FByte b, s))"
| "get_field rb (FInt _) s = bind_r (readInt rb s) (\<lambda>(i, s). Inr (FInt i, s))"
| "get_field rb (FVInt _) s = bind_r (readVInt rb s) (\<lambda>(i, s). Inr (FVInt i, s))"
| "get_field rb (FLong _) s = bind_r (readLong rb s) (\<lambda>(i, s). Inr (FLong i, s))"
| "get_field rb (FVLong _) s = bind_r (readVLong rb s) (\<lambda>(i, s). Inr (FVLong i, s))"

fun put_fields :: "'s writer \<Rightarrow> field list \<Rightarrow> 's \<Rightarrow> 's result" where
  "put_fields wb [] s = Inr s"
| "put_fields wb (f # fs) s = bind_r (put_field wb f s) (put_fields wb fs)"

fun get_fields :: "'s reader \<Rightarrow> field list \<Rightarrow> 's \<Rightarrow> (field list \<times> 's) result" where
  "get_fields rb [] s = Inr ([], s)"
| "get_fields rb (f # fs) s = bind_r (get_field rb f s) (\<lambda>(v, s). bind_r (get_fields rb fs s) (\<lambda>(vs, s). Inr (v # vs, s)))"

fun field_wire :: "field \<Rightarrow> byte list" where
  "field_wire (FByte b) = [b]"
| "field_wire (FInt i) = int_wire i"
| "field_wire (FVInt i) = nat_wire (unat i)"
| "field_wire (FLong i) = long_wire i"
| "field_wire (FVLong i) = nat_wire (unat i)"

context byte_sink begin

lemma puts_field: "puts (put_field wb f) (field_wire f)"
  by (cases f) (simp_all add: puts_byte puts_int puts_vint puts_long puts_vlong)

lemma puts_fields: "puts (put_fields wb fs) (concat (map field_wire fs))"
proof (induction fs)
  case Nil
  have "put_fields wb [] = (\<lambda>s. Inr s)" by (intro ext) simp
  then show ?case by (simp add: puts_return)
next
  case (Cons f fs)
  have "put_fields wb (f # fs) = (\<lambda>s. bind_r (put_field wb f s) (\<lambda>s. put_fields wb fs s))" by (intro ext) simp
  then show ?case using puts_bind [OF puts_field Cons] by simp
qed

end

context byte_source begin

lemma gets_map: "gets g bs v \<Longrightarrow> gets (\<lambda>s. bind_r (g s) (\<lambda>(v, s). Inr (h v, s))) bs (h v)"
  using gets_bind [where g = "\<lambda>v s. Inr (h v, s)", OF _ gets_return] by fastforce

lemma gets_field: "gets (get_field rb f) (field_wire f) f"
  using gets_map [OF gets_byte] gets_map [OF gets_int] gets_map [OF gets_vint] gets_map [OF gets_long] gets_map [OF gets_vlong]
  by (cases f) (simp_all only: get_field.simps [abs_def] field_wire.simps)

lemma gets_fields: "gets (get_fields rb fs) (concat (map field_wire fs)) fs"
proof (induction fs)
  case Nil
  have "get_fields rb [] = (\<lambda>s. Inr ([], s))" by (intro ext) simp
  then show ?case by (simp add: gets_return)
next
  case (Cons f fs)
  from gets_bind [where g = "\<lambda>v s. bind_r (get_fields rb fs s) (\<lambda>(vs, s). Inr (v # vs, s))", OF gets_field gets_map [OF Cons]]
  show ?case by (simp only: get_fields.simps [abs_def] list.map concat.simps)
qed

end

end
