(* ===== verification/RamStore.thy ===== *)
theory RamStore imports ByteCodec begin

text \<open>
  Files in memory: \<^verbatim>\<open>RAMFile.cpp\<close>, \<^verbatim>\<open>RAMOutputStream.cpp\<close> and
  \<^verbatim>\<open>RAMInputStream.cpp\<close>. A file is a list of buffers of 1024 bytes and a length; a stream
  holds the file, the index of the buffer it is in, a position in that buffer, and the buffer itself
  as a shared pointer, which is the index of the buffer it points to (\<open>None\<close> for null). The stream
  fields keep their names with the prefixes \<open>ro_\<close> and \<open>ri_\<close>. Time stamps and locks are left out.
  A fresh buffer comes from \<^verbatim>\<open>malloc\<close> and holds unknown bytes; the model writes zeros
  for them, and no property says what they are.

  A file is abstracted to the bytes of its buffers in order. An output stream is a byte sink over
  the bytes before its pointer, an input stream a byte source over those between its pointer and
  the length of the file.
\<close>

definition BUFFER_SIZE :: nat where
  "BUFFER_SIZE = 1024"

record ram_file =
  rf_buffers :: "byte list list"
  rf_length :: nat
  rf_sizeInBytes :: nat

definition newRAMFile :: ram_file where
  "newRAMFile = \<lparr>rf_buffers = [], rf_length = 0, rf_sizeInBytes = 0\<rparr>"

definition addBuffer :: "nat \<Rightarrow> ram_file \<Rightarrow> ram_file" where
  "addBuffer n f = f\<lparr>rf_buffers := rf_buffers f @ [replicate n 0], rf_sizeInBytes := rf_sizeInBytes f + n\<rparr>"

definition numBuffers :: "ram_file \<Rightarrow> nat" where
  "numBuffers f = length (rf_buffers f)"

definition getBuffer :: "int \<Rightarrow> ram_file \<Rightarrow> nat result" where
  "getBuffer index f = (if 0 \<le> index \<and> nat index < length (rf_buffers f) then Inr (nat index) else Inl OutOfRange)"

subsection \<open>RAMOutputStream\<close>

record ram_out =
  ro_file :: ram_file
  ro_buffer :: "nat option"
  ro_index :: int
  ro_position :: nat
  ro_start :: nat
  ro_length :: nat

definition newRAMOutputStream :: "ram_file \<Rightarrow> ram_out" where
  "newRAMOutputStream f = \<lparr>ro_file = f, ro_buffer = None, ro_index = -1, ro_position = 0, ro_start = 0, ro_length = 0\<rparr>"

definition ro_switch :: "ram_out \<Rightarrow> ram_out result" where
  "ro_switch s =
     (let f = (if ro_index s = int (numBuffers (ro_file s)) then addBuffer BUFFER_SIZE (ro_file s) else ro_file s)
      in bind_r (getBuffer (ro_index s) f) (\<lambda>b.
         Inr (s\<lparr>ro_file := f, ro_buffer := Some b, ro_position := 0, ro_start := BUFFER_SIZE * nat (ro_index s),
                ro_length := length (rf_buffers f ! b)\<rparr>)))"

definition ro_next :: "ram_out \<Rightarrow> ram_out result" where
  "ro_next s = (if ro_position s = ro_length s then ro_switch (s\<lparr>ro_index := ro_index s + 1\<rparr>) else Inr s)"

definition ro_writeByte :: "byte \<Rightarrow> ram_out \<Rightarrow> ram_out result" where
  "ro_writeByte b s =
     bind_r (ro_next s) (\<lambda>s.
     case ro_buffer s of None \<Rightarrow> Inl OutOfRange
     | Some k \<Rightarrow> bind_r (arr_set (rf_buffers (ro_file s) ! k) (ro_position s) b) (\<lambda>buf.
         Inr (s\<lparr>ro_file := (ro_file s)\<lparr>rf_buffers := (rf_buffers (ro_file s))[k := buf]\<rparr>,
                ro_position := ro_position s + 1\<rparr>)))"

text \<open>The loop of \<^verbatim>\<open>writeBytes\<close> over the bytes that are left; nothing in it bounds the rounds.\<close>

partial_function (option) ro_writeBytes :: "byte list \<Rightarrow> ram_out \<Rightarrow> ram_out result option" where
  "ro_writeBytes bs s =
     (if bs = [] then Some (Inr s)
      else case ro_next s of Inl e \<Rightarrow> Some (Inl e)
      | Inr s \<Rightarrow>
        (case ro_buffer s of None \<Rightarrow> Some (Inl OutOfRange)
         | Some k \<Rightarrow>
           let remainInBuffer = length (rf_buffers (ro_file s) ! k) - ro_position s;
               bytesToCopy = (if length bs < remainInBuffer then length bs else remainInBuffer);
               buf = arrayCopy bs 0 (rf_buffers (ro_file s) ! k) (ro_position s) bytesToCopy
           in ro_writeBytes (drop bytesToCopy bs)
                (s\<lparr>ro_file := (ro_file s)\<lparr>rf_buffers := (rf_buffers (ro_file s))[k := buf]\<rparr>,
                   ro_position := ro_position s + bytesToCopy\<rparr>)))"

definition ro_setFileLength :: "ram_out \<Rightarrow> ram_out" where
  "ro_setFileLength s =
     (let pointer = ro_start s + ro_position s
      in if rf_length (ro_file s) < pointer then s\<lparr>ro_file := (ro_file s)\<lparr>rf_length := pointer\<rparr>\<rparr> else s)"

definition ro_flush :: "ram_out \<Rightarrow> ram_out" where
  "ro_flush s = ro_setFileLength s"

definition ro_close :: "ram_out \<Rightarrow> ram_out" where
  "ro_close s = ro_flush s"

definition ro_reset :: "ram_out \<Rightarrow> ram_out" where
  "ro_reset s = s\<lparr>ro_buffer := None, ro_index := -1, ro_position := 0, ro_start := 0, ro_length := 0,
      ro_file := (ro_file s)\<lparr>rf_length := 0\<rparr>\<rparr>"

definition ro_seek :: "nat \<Rightarrow> ram_out \<Rightarrow> ram_out result" where
  "ro_seek pos s =
     (let s = ro_setFileLength s
      in bind_r (if pos < ro_start s \<or> ro_start s + ro_length s \<le> pos
                 then ro_switch (s\<lparr>ro_index := trunc32 (int (pos div BUFFER_SIZE))\<rparr>) else Inr s)
           (\<lambda>s. Inr (s\<lparr>ro_position := pos mod BUFFER_SIZE\<rparr>)))"

definition ro_getFilePointer :: "ram_out \<Rightarrow> nat" where
  "ro_getFilePointer s = (if ro_index s < 0 then 0 else ro_start s + ro_position s)"

definition ro_size :: "ram_out \<Rightarrow> nat" where
  "ro_size s = numBuffers (ro_file s) * BUFFER_SIZE"

text \<open>\<^verbatim>\<open>writeTo\<close> copies the file, buffer by buffer, to another output.\<close>

function ro_copy :: "(byte list \<Rightarrow> 'o \<Rightarrow> 'o result) \<Rightarrow> ram_file \<Rightarrow> nat \<Rightarrow> nat \<Rightarrow> nat \<Rightarrow> 'o \<Rightarrow> 'o result" where
  "ro_copy wbs f end pos buffer out =
     (if pos < end
      then let nextPos = pos + BUFFER_SIZE;
               len = (if end < nextPos then end - pos else BUFFER_SIZE)
           in bind_r (getBuffer (int buffer) f) (\<lambda>b.
              bind_r (wbs (take len (rf_buffers f ! b)) out) (\<lambda>out.
              ro_copy wbs f end nextPos (buffer + 1) out))
      else Inr out)"
  by pat_completeness auto
termination by (relation "measure (\<lambda>(wbs, f, end, pos, buffer, out). end - pos)") (auto simp: BUFFER_SIZE_def)

declare ro_copy.simps [simp del]

definition ro_writeTo :: "(byte list \<Rightarrow> 'o \<Rightarrow> 'o result) \<Rightarrow> ram_out \<Rightarrow> 'o \<Rightarrow> (ram_out \<times> 'o) result" where
  "ro_writeTo wbs s out =
     (let s = ro_flush s
      in bind_r (ro_copy wbs (ro_file s) (rf_length (ro_file s)) 0 0 out) (\<lambda>out. Inr (s, out)))"

subsection \<open>RAMInputStream\<close>

record ram_in =
  ri_file :: ram_file
  ri_total :: nat
  ri_buffer :: "nat option"
  ri_index :: int
  ri_position :: nat
  ri_start :: nat
  ri_blen :: int

definition newRAMInputStream :: "ram_file \<Rightarrow> ram_in result" where
  "newRAMInputStream f =
     (if 2 ^ 31 - 1 \<le> rf_length f div BUFFER_SIZE then Inl IOException
      else Inr \<lparr>ri_file = f, ri_total = rf_length f, ri_buffer = None, ri_index = -1, ri_position = 0,
                ri_start = 0, ri_blen = 0\<rparr>)"

definition ri_switch :: "bool \<Rightarrow> ram_in \<Rightarrow> ram_in result" where
  "ri_switch enforceEOF s =
     (if int (numBuffers (ri_file s)) \<le> ri_index s
      then if enforceEOF then Inl IOException
           else Inr (s\<lparr>ri_index := ri_index s - 1, ri_position := BUFFER_SIZE\<rparr>)
      else bind_r (getBuffer (ri_index s) (ri_file s)) (\<lambda>b.
           let start = BUFFER_SIZE * nat (ri_index s);
               buflen = int (ri_total s) - int start
           in Inr (s\<lparr>ri_buffer := Some b, ri_position := 0, ri_start := start,
                     ri_blen := (if int BUFFER_SIZE < buflen then int BUFFER_SIZE else buflen)\<rparr>)))"

definition ri_next :: "ram_in \<Rightarrow> ram_in result" where
  "ri_next s = (if ri_blen s \<le> int (ri_position s) then ri_switch True (s\<lparr>ri_index := ri_index s + 1\<rparr>) else Inr s)"

definition ri_readByte :: "ram_in \<Rightarrow> (byte \<times> ram_in) result" where
  "ri_readByte s =
     bind_r (ri_next s) (\<lambda>s.
     case ri_buffer s of None \<Rightarrow> Inl OutOfRange
     | Some k \<Rightarrow> bind_r (arr_get (rf_buffers (ri_file s) ! k) (ri_position s)) (\<lambda>b.
         Inr (b, s\<lparr>ri_position := ri_position s + 1\<rparr>)))"

text \<open>The loop of \<^verbatim>\<open>readBytes\<close>; \<open>acc\<close> is what it has copied into the caller's array.\<close>

partial_function (option) ri_readBytes :: "nat \<Rightarrow> byte list \<Rightarrow> ram_in \<Rightarrow> (byte list \<times> ram_in) result option" where
  "ri_readBytes len acc s =
     (if len = 0 then Some (Inr (acc, s))
      else case ri_next s of Inl e \<Rightarrow> Some (Inl e)
      | Inr s \<Rightarrow>
        (case ri_buffer s of None \<Rightarrow> Some (Inl OutOfRange)
         | Some k \<Rightarrow>
           let remainInBuffer = ri_blen s - int (ri_position s);
               bytesToCopy = (if int len < remainInBuffer then len else nat remainInBuffer)
           in ri_readBytes (len - bytesToCopy)
                (acc @ take bytesToCopy (drop (ri_position s) (rf_buffers (ri_file s) ! k)))
                (s\<lparr>ri_position := ri_position s + bytesToCopy\<rparr>)))"

definition ri_getFilePointer :: "ram_in \<Rightarrow> nat" where
  "ri_getFilePointer s = (if ri_index s < 0 then 0 else ri_start s + ri_position s)"

definition ri_seek :: "nat \<Rightarrow> ram_in \<Rightarrow> ram_in result" where
  "ri_seek pos s =
     bind_r (if ri_buffer s = None \<or> trunc32 (int pos) < int (ri_start s) \<or> int (ri_start s + BUFFER_SIZE) \<le> trunc32 (int pos)
             then ri_switch False (s\<lparr>ri_index := trunc32 (int (pos div BUFFER_SIZE))\<rparr>) else Inr s)
       (\<lambda>s. Inr (s\<lparr>ri_position := pos mod BUFFER_SIZE\<rparr>))"

subsection \<open>Files as byte sequences\<close>

definition content :: "ram_file \<Rightarrow> byte list" where
  "content f = concat (rf_buffers f)"

definition blocks_ok :: "ram_file \<Rightarrow> bool" where
  "blocks_ok f \<longleftrightarrow> (\<forall>b\<in>set (rf_buffers f). length b = BUFFER_SIZE)"

lemma BUFFER_SIZE_pos [simp]: "0 < BUFFER_SIZE" "BUFFER_SIZE \<noteq> 0"
  by (simp_all add: BUFFER_SIZE_def)

lemma length_concat_blocks: "(\<forall>b\<in>set bs. length b = n) \<Longrightarrow> length (concat bs) = n * length bs"
  by (induction bs) simp_all

lemma concat_split:
  assumes "\<forall>b\<in>set bs. length b = n" "k < length bs"
  shows "concat bs = concat (take k bs) @ bs ! k @ concat (drop (Suc k) bs)" "length (concat (take k bs)) = n * k"
proof -
  have "bs = take k bs @ bs ! k # drop (Suc k) bs" using assms(2) by (rule id_take_nth_drop)
  then show "concat bs = concat (take k bs) @ bs ! k @ concat (drop (Suc k) bs)"
    by (metis concat.simps(2) concat_append)
  have "\<forall>b\<in>set (take k bs). length b = n" using assms(1) by (meson in_set_takeD)
  from length_concat_blocks [OF this] assms(2) show "length (concat (take k bs)) = n * k" by simp
qed

lemma concat_update:
  assumes "\<forall>b\<in>set bs. length b = n" "k < length bs"
  shows "concat (bs[k := c]) = concat (take k bs) @ c @ concat (drop (Suc k) bs)"
  using assms(2) by (simp add: upd_conv_take_nth_drop)

lemma block_slice:
  assumes "\<forall>b\<in>set bs. length b = n" "k < length bs" "j + m \<le> n"
  shows "take m (drop (n * k + j) (concat bs)) = take m (drop j (bs ! k))"
proof -
  have "length (bs ! k) = n" using assms(1,2) by simp
  then show ?thesis
    using concat_split [OF assms(1,2)] assms(3) by simp
qed

subsection \<open>The output stream as a byte sink\<close>

definition ro_ok :: "ram_out \<Rightarrow> bool" where
  "ro_ok s \<longleftrightarrow> blocks_ok (ro_file s) \<and>
     (ro_buffer s = None \<and> ro_index s = -1 \<and> ro_position s = 0 \<and> ro_start s = 0 \<and> ro_length s = 0 \<or>
      (\<exists>k<numBuffers (ro_file s). ro_buffer s = Some k \<and> ro_index s = int k \<and> ro_start s = BUFFER_SIZE * k \<and>
         ro_length s = BUFFER_SIZE \<and> ro_position s \<le> BUFFER_SIZE))"

definition ro_pointer :: "ram_out \<Rightarrow> nat" where
  "ro_pointer s = ro_start s + ro_position s"

definition ro_written :: "ram_out \<Rightarrow> byte list" where
  "ro_written s = take (ro_pointer s) (content (ro_file s))"

text \<open>The stream stands inside buffer \<open>k\<close>.\<close>

definition ro_in :: "nat \<Rightarrow> ram_out \<Rightarrow> bool" where
  "ro_in k s \<longleftrightarrow> blocks_ok (ro_file s) \<and> k < numBuffers (ro_file s) \<and> ro_buffer s = Some k \<and> ro_index s = int k \<and>
     ro_start s = BUFFER_SIZE * k \<and> ro_length s = BUFFER_SIZE"

lemma ro_in_ok: "ro_in k s \<Longrightarrow> ro_position s \<le> BUFFER_SIZE \<Longrightarrow> ro_ok s"
  by (auto simp: ro_in_def ro_ok_def)

lemma ro_ok_cases:
  assumes "ro_ok s"
  obtains "blocks_ok (ro_file s)" "ro_buffer s = None" "ro_index s = -1" "ro_position s = 0" "ro_start s = 0" "ro_length s = 0"
  | k where "ro_in k s" "ro_position s \<le> BUFFER_SIZE"
  using assms by (auto simp: ro_ok_def ro_in_def)

lemma content_add: "content (addBuffer n f) = content f @ replicate n 0"
  by (simp add: content_def addBuffer_def)

lemma blocks_add: "blocks_ok f \<Longrightarrow> blocks_ok (addBuffer BUFFER_SIZE f)"
  by (simp add: blocks_ok_def addBuffer_def)

lemma length_content: "blocks_ok f \<Longrightarrow> length (content f) = BUFFER_SIZE * numBuffers f"
  by (simp add: content_def numBuffers_def blocks_ok_def length_concat_blocks)

text \<open>Switching to buffer \<open>k\<close>, which exists or is the next one.\<close>

lemma ro_switch_to:
  assumes "blocks_ok (ro_file s)" "ro_index s = int k" "k \<le> numBuffers (ro_file s)"
  shows "\<exists>t zs. ro_switch s = Inr t \<and> ro_in k t \<and> ro_position t = 0 \<and> content (ro_file t) = content (ro_file s) @ zs \<and>
    rf_length (ro_file t) = rf_length (ro_file s)"
proof (cases "k = numBuffers (ro_file s)")
  case True
  then show ?thesis
    using assms(1,2) blocks_add [OF assms(1)]
    by (auto simp: ro_switch_def getBuffer_def ro_in_def numBuffers_def addBuffer_def nth_append content_def)
next
  case False
  then have "k < numBuffers (ro_file s)" using assms(3) by simp
  then show ?thesis
    using assms(1,2) by (auto simp: ro_switch_def getBuffer_def ro_in_def numBuffers_def blocks_ok_def)
qed

lemma ro_next_in:
  assumes "ro_ok s"
  shows "\<exists>t k zs. ro_next s = Inr t \<and> ro_in k t \<and> ro_position t < BUFFER_SIZE \<and> ro_pointer t = ro_pointer s \<and>
    content (ro_file t) = content (ro_file s) @ zs \<and> ro_pointer s \<le> length (content (ro_file s)) \<and>
    rf_length (ro_file t) = rf_length (ro_file s)"
proof (cases rule: ro_ok_cases [OF assms])
  case 1
  let ?s = "s\<lparr>ro_index := ro_index s + 1\<rparr>"
  have "blocks_ok (ro_file ?s)" "ro_index ?s = int 0" "0 \<le> numBuffers (ro_file ?s)" using 1 by simp_all
  from ro_switch_to [OF this] obtain t zs where
    "ro_switch ?s = Inr t" "ro_in 0 t" "ro_position t = 0" "content (ro_file t) = content (ro_file s) @ zs"
    "rf_length (ro_file t) = rf_length (ro_file s)" by auto
  then show ?thesis using 1 by (auto simp: ro_next_def ro_pointer_def ro_in_def)
next
  case (2 k)
  note k = 2(1) [unfolded ro_in_def]
  have le: "ro_pointer s \<le> length (content (ro_file s))"
  proof -
    have "Suc k \<le> numBuffers (ro_file s)" using k by simp
    then have "BUFFER_SIZE * k + BUFFER_SIZE \<le> BUFFER_SIZE * numBuffers (ro_file s)"
      by (metis mult_Suc_right add.commute mult_le_mono2)
    then show ?thesis using k 2(2) by (simp add: ro_pointer_def length_content)
  qed
  show ?thesis
  proof (cases "ro_position s = BUFFER_SIZE")
    case True
    let ?s = "s\<lparr>ro_index := ro_index s + 1\<rparr>"
    have "blocks_ok (ro_file ?s)" "ro_index ?s = int (Suc k)" "Suc k \<le> numBuffers (ro_file ?s)" using k by simp_all
    from ro_switch_to [OF this] obtain t zs where
      "ro_switch ?s = Inr t" "ro_in (Suc k) t" "ro_position t = 0" "content (ro_file t) = content (ro_file s) @ zs"
      "rf_length (ro_file t) = rf_length (ro_file s)" by auto
    then show ?thesis using k True le by (auto simp: ro_next_def ro_pointer_def ro_in_def)
  next
    case False
    then show ?thesis using 2 k le by (auto simp: ro_next_def)
  qed
qed

text \<open>One chunk written inside a buffer.\<close>

definition ro_put :: "byte list \<Rightarrow> ram_out \<Rightarrow> ram_out" where
  "ro_put bs s = (case ro_buffer s of None \<Rightarrow> s | Some k \<Rightarrow>
     s\<lparr>ro_file := (ro_file s)\<lparr>rf_buffers := (rf_buffers (ro_file s))[k :=
         arrayCopy bs 0 (rf_buffers (ro_file s) ! k) (ro_position s) (length bs)]\<rparr>,
       ro_position := ro_position s + length bs\<rparr>)"

lemma ro_put_facts:
  assumes s: "ro_in k s" and fit: "ro_position s + length bs \<le> BUFFER_SIZE"
  shows "ro_in k (ro_put bs s)" "ro_pointer (ro_put bs s) = ro_pointer s + length bs"
    "content (ro_file (ro_put bs s)) =
       take (ro_pointer s) (content (ro_file s)) @ bs @ drop (ro_pointer s + length bs) (content (ro_file s))"
    "rf_length (ro_file (ro_put bs s)) = rf_length (ro_file s)"
proof -
  note k = s [unfolded ro_in_def]
  let ?bufs = "rf_buffers (ro_file s)"
  have b: "\<forall>b\<in>set ?bufs. length b = BUFFER_SIZE" "k < length ?bufs"
    using k by (simp_all add: blocks_ok_def numBuffers_def)
  have len: "length (?bufs ! k) = BUFFER_SIZE" using b by simp
  have "\<forall>b\<in>set (?bufs[k := arrayCopy bs 0 (?bufs ! k) (ro_position s) (length bs)]). length b = BUFFER_SIZE"
    using b len by (auto dest!: set_update_subset_insert [THEN subsetD])
  then show "ro_in k (ro_put bs s)"
    using k by (simp add: ro_in_def ro_put_def blocks_ok_def numBuffers_def)
  show "ro_pointer (ro_put bs s) = ro_pointer s + length bs"
    "rf_length (ro_file (ro_put bs s)) = rf_length (ro_file s)" using k by (simp_all add: ro_pointer_def ro_put_def)
  have "arrayCopy bs 0 (?bufs ! k) (ro_position s) (length bs) =
      take (ro_position s) (?bufs ! k) @ bs @ drop (ro_position s + length bs) (?bufs ! k)"
    using arrayCopy_blocks [of 0 "length bs" bs "ro_position s" "?bufs ! k"] fit len by simp
  then show "content (ro_file (ro_put bs s)) =
       take (ro_pointer s) (content (ro_file s)) @ bs @ drop (ro_pointer s + length bs) (content (ro_file s))"
    using k fit concat_split [OF b] concat_update [OF b] len
    by (simp add: content_def ro_put_def ro_pointer_def)
qed

lemma ro_writeByte_put: "ro_next s = Inr t \<Longrightarrow> ro_in k t \<Longrightarrow> ro_position t < BUFFER_SIZE \<Longrightarrow> ro_writeByte b s = Inr (ro_put [b] t)"
proof -
  assume a: "ro_next s = Inr t" "ro_in k t" "ro_position t < BUFFER_SIZE"
  note k = a(2) [unfolded ro_in_def]
  have len: "length (rf_buffers (ro_file t) ! k) = BUFFER_SIZE" using k by (simp add: blocks_ok_def numBuffers_def)
  have "arrayCopy [b] 0 (rf_buffers (ro_file t) ! k) (ro_position t) (Suc 0) = (rf_buffers (ro_file t) ! k)[ro_position t := b]"
    by (rule nth_equalityI) (auto simp: nth_list_update)
  then show ?thesis using a k len by (simp add: ro_writeByte_def ro_put_def)
qed


lemma ro_writeByte_written:
  assumes "ro_ok s"
  shows "\<exists>t. ro_writeByte b s = Inr t \<and> ro_ok t \<and> ro_written t = ro_written s @ [b]"
proof -
  obtain t k zs where t: "ro_next s = Inr t" "ro_in k t" "ro_position t < BUFFER_SIZE" "ro_pointer t = ro_pointer s"
    "content (ro_file t) = content (ro_file s) @ zs" "ro_pointer s \<le> length (content (ro_file s))"
    using ro_next_in [OF assms] by blast
  have "ro_position t + length [b] \<le> BUFFER_SIZE" using t(3) by simp
  note p = ro_put_facts [OF t(2) this]
  have "ro_position (ro_put [b] t) \<le> BUFFER_SIZE"
    using t(2,3) by (simp add: ro_put_def ro_in_def)
  then have "ro_ok (ro_put [b] t)" using p(1) by (rule ro_in_ok [rotated])
  moreover have "ro_written (ro_put [b] t) = ro_written s @ [b]"
    unfolding ro_written_def p(2,3) t(4,5) using t(6) by simp
  ultimately show ?thesis using ro_writeByte_put [OF t(1-3)] by blast
qed

interpretation ram_sink: byte_sink ro_writeByte ro_ok ro_written
  by unfold_locales (rule ro_writeByte_written)

text \<open>\<^verbatim>\<open>writeBytes\<close> is \<^verbatim>\<open>writeByte\<close> for every byte.\<close>

fun ro_writeEach :: "byte list \<Rightarrow> ram_out \<Rightarrow> ram_out result" where
  "ro_writeEach [] s = Inr s"
| "ro_writeEach (b # bs) s = bind_r (ro_writeByte b s) (ro_writeEach bs)"

lemma ro_writeEach_append: "ro_writeEach (xs @ ys) s = bind_r (ro_writeEach xs s) (ro_writeEach ys)"
proof (induction xs arbitrary: s)
  case (Cons x xs)
  then show ?case by (cases "ro_writeByte x s") simp_all
qed simp

lemma ro_next_here: "ro_in k s \<Longrightarrow> ro_position s < BUFFER_SIZE \<Longrightarrow> ro_next s = Inr s"
  by (simp add: ro_next_def ro_in_def)

lemma ro_put_put:
  assumes "ro_in k s" "ro_position s + length xs + length ys \<le> BUFFER_SIZE"
  shows "ro_put ys (ro_put xs s) = ro_put (xs @ ys) s"
proof -
  note k = assms(1) [unfolded ro_in_def]
  let ?b = "rf_buffers (ro_file s) ! k"
  have len: "length ?b = BUFFER_SIZE" "k < length (rf_buffers (ro_file s))"
    using k by (simp_all add: blocks_ok_def numBuffers_def)
  have "arrayCopy ys 0 (arrayCopy xs 0 ?b (ro_position s) (length xs)) (ro_position s + length xs) (length ys) =
      arrayCopy (xs @ ys) 0 ?b (ro_position s) (length xs + length ys)"
    by (rule nth_equalityI) (auto simp: nth_append)
  then show ?thesis using k len by (simp add: ro_put_def add.assoc)
qed

lemma ro_writeEach_put:
  "ro_in k s \<Longrightarrow> ro_position s + length bs \<le> BUFFER_SIZE \<Longrightarrow> bs \<noteq> [] \<Longrightarrow> ro_writeEach bs s = Inr (ro_put bs s)"
proof (induction bs arbitrary: s)
  case (Cons b bs)
  have lt: "ro_position s < BUFFER_SIZE" using Cons.prems by simp
  have w: "ro_writeByte b s = Inr (ro_put [b] s)"
    by (rule ro_writeByte_put [OF ro_next_here [OF Cons.prems(1) lt] Cons.prems(1) lt])
  show ?case
  proof (cases "bs = []")
    case True
    then show ?thesis by (simp add: w)
  next
    case False
    have "ro_in k (ro_put [b] s)" by (rule ro_put_facts [OF Cons.prems(1)]) (use lt in simp)
    moreover have "ro_position (ro_put [b] s) + length bs \<le> BUFFER_SIZE"
      using Cons.prems by (simp add: ro_put_def ro_in_def)
    ultimately have "ro_writeEach bs (ro_put [b] s) = Inr (ro_put bs (ro_put [b] s))" using Cons.IH False by blast
    then show ?thesis using ro_put_put [OF Cons.prems(1), of "[b]" bs] Cons.prems(2) by (simp add: w)
  qed
qed simp

lemma ro_writeEach_ok: "ro_ok s \<Longrightarrow> \<exists>t. ro_writeEach bs s = Inr t \<and> ro_ok t \<and> ro_written t = ro_written s @ bs"
proof (induction bs arbitrary: s)
  case (Cons b bs)
  obtain t where t: "ro_writeByte b s = Inr t" "ro_ok t" "ro_written t = ro_written s @ [b]"
    using ro_writeByte_written [OF Cons.prems] by blast
  from Cons.IH [OF t(2)] t show ?case by auto
qed simp

lemma ro_writeBytes_each:
  assumes "ro_ok s"
  shows "ro_writeBytes bs s = Some (ro_writeEach bs s)"
  using assms
proof (induction "length bs" arbitrary: bs s rule: less_induct)
  case less
  show ?case
  proof (cases "bs = []")
    case True
    then show ?thesis by (subst ro_writeBytes.simps) simp
  next
    case False
    obtain t k zs where t: "ro_next s = Inr t" "ro_in k t" "ro_position t < BUFFER_SIZE"
      using ro_next_in [OF less.prems] by blast
    note k = t(2) [unfolded ro_in_def]
    have len: "length (rf_buffers (ro_file t) ! k) = BUFFER_SIZE" using k by (simp add: blocks_ok_def numBuffers_def)
    define n where "n = (if length bs < BUFFER_SIZE - ro_position t then length bs else BUFFER_SIZE - ro_position t)"
    have n: "0 < n" "n \<le> length bs" "ro_position t + n \<le> BUFFER_SIZE" using t(3) False by (auto simp: n_def)
    have tk: "length (take n bs) = n" using n(2) by simp
    have put: "ro_put (take n bs) t = t\<lparr>ro_file := (ro_file t)\<lparr>rf_buffers := (rf_buffers (ro_file t))[k :=
        arrayCopy bs 0 (rf_buffers (ro_file t) ! k) (ro_position t) n]\<rparr>, ro_position := ro_position t + n\<rparr>"
    proof -
      have "arrayCopy (take n bs) 0 b p n = arrayCopy bs 0 b p n" for b p
        by (rule nth_equalityI) auto
      then show ?thesis using k tk by (simp add: ro_put_def)
    qed
    have step: "ro_writeBytes bs s = ro_writeBytes (drop n bs) (ro_put (take n bs) t)"
      using False t k len unfolding put unfolding n_def by (subst (1) ro_writeBytes.simps) (simp add: Let_def)
    have ok: "ro_ok (ro_put (take n bs) t)"
    proof (rule ro_in_ok)
      show "ro_in k (ro_put (take n bs) t)" by (rule ro_put_facts [OF t(2)]) (use n tk in simp)
      show "ro_position (ro_put (take n bs) t) \<le> BUFFER_SIZE" using n k by (simp add: ro_put_def)
    qed
    have each: "ro_writeEach (take n bs) t = Inr (ro_put (take n bs) t)"
      by (rule ro_writeEach_put [OF t(2)]) (use n tk False in auto)
    have "ro_writeEach (take n bs) s = ro_writeEach (take n bs) t"
    proof -
      obtain b bs' where "take n bs = b # bs'" using n(1) False by (cases "take n bs") auto
      moreover have "ro_writeByte b s = ro_writeByte b t"
        using ro_writeByte_put [OF t] ro_writeByte_put [OF ro_next_here [OF t(2,3)] t(2,3)] by simp
      ultimately show ?thesis by simp
    qed
    then have "ro_writeEach bs s = ro_writeEach (drop n bs) (ro_put (take n bs) t)"
      using ro_writeEach_append [of "take n bs" "drop n bs" s] each by simp
    moreover have "length (drop n bs) < length bs" using n(1) False by simp
    ultimately show ?thesis using less.hyps [OF _ ok] step by simp
  qed
qed


subsection \<open>The input stream as a byte source\<close>

text \<open>A file is complete when its buffers are as many as its length needs.\<close>

definition complete :: "ram_file \<Rightarrow> bool" where
  "complete f \<longleftrightarrow> blocks_ok f \<and> rf_length f \<le> BUFFER_SIZE * numBuffers f \<and>
     BUFFER_SIZE * numBuffers f < rf_length f + BUFFER_SIZE"

definition file_bytes :: "ram_file \<Rightarrow> byte list" where
  "file_bytes f = take (rf_length f) (content f)"

definition ri_ok :: "ram_in \<Rightarrow> bool" where
  "ri_ok s \<longleftrightarrow> complete (ri_file s) \<and> ri_total s = rf_length (ri_file s) \<and>
     (ri_buffer s = None \<and> ri_index s = -1 \<and> ri_position s = 0 \<and> ri_start s = 0 \<and> ri_blen s = 0 \<or>
      (\<exists>k<numBuffers (ri_file s). ri_buffer s = Some k \<and> ri_index s = int k \<and> ri_start s = BUFFER_SIZE * k \<and>
         ri_blen s = int (min BUFFER_SIZE (ri_total s - BUFFER_SIZE * k)) \<and>
         int (ri_position s) \<le> ri_blen s))"

definition ri_in :: "nat \<Rightarrow> ram_in \<Rightarrow> bool" where
  "ri_in k s \<longleftrightarrow> complete (ri_file s) \<and> ri_total s = rf_length (ri_file s) \<and> k < numBuffers (ri_file s) \<and>
     ri_buffer s = Some k \<and> ri_index s = int k \<and> ri_start s = BUFFER_SIZE * k \<and>
     ri_blen s = int (min BUFFER_SIZE (ri_total s - BUFFER_SIZE * k))"

definition ri_left :: "ram_in \<Rightarrow> byte list" where
  "ri_left s = drop (ri_start s + ri_position s) (file_bytes (ri_file s))"

lemma ri_in_ok: "ri_in k s \<Longrightarrow> int (ri_position s) \<le> ri_blen s \<Longrightarrow> ri_ok s"
  by (auto simp: ri_in_def ri_ok_def)

lemma ri_ok_cases:
  assumes "ri_ok s"
  obtains "complete (ri_file s)" "ri_total s = rf_length (ri_file s)" "ri_buffer s = None" "ri_index s = -1" "ri_position s = 0"
    "ri_start s = 0" "ri_blen s = 0"
  | k where "ri_in k s" "int (ri_position s) \<le> ri_blen s"
  using assms by (auto simp: ri_ok_def ri_in_def)

lemma length_file_bytes: "complete f \<Longrightarrow> length (file_bytes f) = rf_length f"
  by (simp add: complete_def file_bytes_def length_content)

text \<open>In a complete file the bytes before the last buffer all belong to the file.\<close>

lemma complete_block:
  assumes "complete f" "k < numBuffers f"
  shows "BUFFER_SIZE * k < rf_length f" "k = numBuffers f - 1 \<or> BUFFER_SIZE * k + BUFFER_SIZE \<le> rf_length f"
proof -
  have "BUFFER_SIZE * Suc k \<le> BUFFER_SIZE * numBuffers f" using assms(2) by (intro mult_le_mono2) simp
  then have "BUFFER_SIZE * k + BUFFER_SIZE \<le> BUFFER_SIZE * numBuffers f" by simp
  then show "BUFFER_SIZE * k < rf_length f" using assms(1) by (simp add: complete_def)
  show "k = numBuffers f - 1 \<or> BUFFER_SIZE * k + BUFFER_SIZE \<le> rf_length f"
  proof (cases "k = numBuffers f - 1")
    case False
    then have "Suc (Suc k) \<le> numBuffers f" using assms(2) by simp
    then have "BUFFER_SIZE * Suc (Suc k) \<le> BUFFER_SIZE * numBuffers f" by (intro mult_le_mono2)
    then show ?thesis using assms(1) by (simp add: complete_def)
  qed simp
qed

lemma ri_switch_to:
  assumes "complete (ri_file s)" "ri_total s = rf_length (ri_file s)" "ri_index s = int k" "k < numBuffers (ri_file s)"
  shows "\<exists>t. ri_switch e s = Inr t \<and> ri_in k t \<and> ri_position t = 0 \<and> ri_file t = ri_file s \<and> 0 < ri_blen t"
proof -
  have lt: "BUFFER_SIZE * k < ri_total s" using complete_block [OF assms(1,4)] assms(2) by simp
  then have "int (ri_total s) - int (BUFFER_SIZE * k) = int (ri_total s - BUFFER_SIZE * k)" by (simp add: of_nat_diff)
  then have "(if int BUFFER_SIZE < int (ri_total s) - int (BUFFER_SIZE * k) then int BUFFER_SIZE
      else int (ri_total s) - int (BUFFER_SIZE * k)) = int (min BUFFER_SIZE (ri_total s - BUFFER_SIZE * k))"
    by (simp only: of_nat_less_iff) (simp add: min_def)
  moreover have "k < length (rf_buffers (ri_file s))" using assms(4) by (simp add: numBuffers_def)
  ultimately have "ri_switch e s = Inr (s\<lparr>ri_buffer := Some k, ri_position := 0, ri_start := BUFFER_SIZE * k,
      ri_blen := int (min BUFFER_SIZE (ri_total s - BUFFER_SIZE * k))\<rparr>)"
    using assms(3,4) unfolding ri_switch_def getBuffer_def by (simp add: Let_def del: of_nat_mult)
  then show ?thesis using assms lt by (simp add: ri_in_def)
qed

lemma ri_next_in:
  assumes "ri_ok s" "ri_left s \<noteq> []"
  shows "\<exists>t k. ri_next s = Inr t \<and> ri_in k t \<and> int (ri_position t) < ri_blen t \<and> ri_left t = ri_left s"
proof (cases rule: ri_ok_cases [OF assms(1)])
  case 1
  let ?s = "s\<lparr>ri_index := ri_index s + 1\<rparr>"
  have "0 < rf_length (ri_file s)" using assms(2) 1 by (auto simp: ri_left_def length_file_bytes [OF 1(1), symmetric])
  then have "0 < numBuffers (ri_file s)" using 1(1) by (cases "numBuffers (ri_file s)") (auto simp: complete_def)
  then obtain t where "ri_switch True ?s = Inr t" "ri_in 0 t" "ri_position t = 0" "ri_file t = ri_file s" "0 < ri_blen t"
    using ri_switch_to [of ?s 0 True] 1 by auto
  then show ?thesis using 1 by (auto simp: ri_next_def ri_left_def ri_in_def)
next
  case (2 k)
  note k = 2(1) [unfolded ri_in_def]
  show ?thesis
  proof (cases "int (ri_position s) < ri_blen s")
    case True
    then show ?thesis using 2 by (auto simp: ri_next_def)
  next
    case False
    then have eq: "int (ri_position s) = ri_blen s" using 2(2) by simp
    have "ri_start s + ri_position s < rf_length (ri_file s)"
      using assms(2) k by (auto simp: ri_left_def length_file_bytes)
    then have full: "ri_position s = BUFFER_SIZE" using eq k by (simp add: min_def split: if_splits)
    let ?s = "s\<lparr>ri_index := ri_index s + 1\<rparr>"
    have "Suc k < numBuffers (ri_file s)"
    proof (rule ccontr)
      assume "\<not> Suc k < numBuffers (ri_file s)"
      then have "numBuffers (ri_file s) = Suc k" using k by simp
      then show False using \<open>ri_start s + ri_position s < rf_length (ri_file s)\<close> full k by (simp add: complete_def)
    qed
    then obtain t where "ri_switch True ?s = Inr t" "ri_in (Suc k) t" "ri_position t = 0" "ri_file t = ri_file s" "0 < ri_blen t"
      using ri_switch_to [of ?s "Suc k" True] k by auto
    then show ?thesis using eq full k by (auto simp: ri_next_def ri_left_def ri_in_def add.commute)
  qed
qed

lemma ri_next_eof:
  assumes "ri_ok s" "ri_left s = []"
  shows "ri_next s = Inl IOException"
proof (cases rule: ri_ok_cases [OF assms(1)])
  case 1
  have "rf_length (ri_file s) = 0" using assms(2) 1 by (auto simp: ri_left_def length_file_bytes [OF 1(1), symmetric])
  then have "numBuffers (ri_file s) = 0" using 1(1) by (cases "numBuffers (ri_file s)") (auto simp: complete_def)
  then show ?thesis using 1 by (simp add: ri_next_def ri_switch_def)
next
  case (2 k)
  note k = 2(1) [unfolded ri_in_def]
  have past: "rf_length (ri_file s) \<le> ri_start s + ri_position s"
    using assms(2) k by (auto simp: ri_left_def length_file_bytes)
  then have eq: "int (ri_position s) = ri_blen s" using 2(2) k by (simp add: min_def split: if_splits)
  have "\<not> Suc k < numBuffers (ri_file s)"
  proof
    assume "Suc k < numBuffers (ri_file s)"
    with complete_block(1) [of "ri_file s" "Suc k"] k past eq show False by (simp add: min_def split: if_splits)
  qed
  then show ?thesis using k eq by (simp add: ri_next_def ri_switch_def)
qed

lemma ri_byte:
  assumes "ri_in k t" "int (ri_position t) < ri_blen t"
  shows "ri_position t < length (rf_buffers (ri_file t) ! k)"
    "ri_left t = rf_buffers (ri_file t) ! k ! ri_position t # ri_left (t\<lparr>ri_position := ri_position t + 1\<rparr>)"
proof -
  note k = assms(1) [unfolded ri_in_def]
  have b: "\<forall>b\<in>set (rf_buffers (ri_file t)). length b = BUFFER_SIZE" "k < length (rf_buffers (ri_file t))"
    using k by (simp_all add: complete_def blocks_ok_def numBuffers_def)
  have len: "length (rf_buffers (ri_file t) ! k) = BUFFER_SIZE" using b by simp
  then show lt: "ri_position t < length (rf_buffers (ri_file t) ! k)" using assms(2) k by simp
  have in_file: "BUFFER_SIZE * k + ri_position t < rf_length (ri_file t)"
    using assms(2) k by (simp add: less_diff_conv add.commute)
  have "content (ri_file t) ! (BUFFER_SIZE * k + ri_position t) = rf_buffers (ri_file t) ! k ! ri_position t"
    using concat_split [OF b] lt len by (simp add: content_def nth_append)
  then show "ri_left t = rf_buffers (ri_file t) ! k ! ri_position t # ri_left (t\<lparr>ri_position := ri_position t + 1\<rparr>)"
    using in_file k length_file_bytes [of "ri_file t"] Cons_nth_drop_Suc [of "BUFFER_SIZE * k + ri_position t" "file_bytes (ri_file t)"]
    by (simp add: ri_left_def file_bytes_def)
qed

lemma ri_readByte_left:
  assumes "ri_ok s" "ri_left s = b # bs"
  shows "\<exists>t. ri_readByte s = Inr (b, t) \<and> ri_ok t \<and> ri_left t = bs"
proof -
  obtain t k where t: "ri_next s = Inr t" "ri_in k t" "int (ri_position t) < ri_blen t" "ri_left t = ri_left s"
    using ri_next_in [OF assms(1)] assms(2) by auto
  note b = ri_byte [OF t(2,3)]
  let ?u = "t\<lparr>ri_position := ri_position t + 1\<rparr>"
  have u: "ri_ok ?u" by (rule ri_in_ok [of k]) (use t in \<open>auto simp: ri_in_def\<close>)
  have "ri_readByte s = Inr (rf_buffers (ri_file t) ! k ! ri_position t, ?u)"
    using t b(1) by (simp add: ri_readByte_def ri_in_def)
  then show ?thesis using u b(2) t(4) assms(2) by simp
qed

interpretation ram_source: byte_source ri_readByte ri_ok ri_left
  by unfold_locales (use ri_readByte_left ri_next_eof in \<open>auto simp: ri_readByte_def\<close>)

subsection \<open>Appending to a new file\<close>

text \<open>The state of a stream that has only appended: the file is as long as it has buffers for.\<close>

definition ro_appending :: "ram_out \<Rightarrow> bool" where
  "ro_appending s \<longleftrightarrow> ro_ok s \<and> rf_length (ro_file s) \<le> ro_pointer s \<and>
     BUFFER_SIZE * numBuffers (ro_file s) < ro_pointer s + BUFFER_SIZE"

lemma numBuffers_put: "numBuffers (ro_file (ro_put bs s)) = numBuffers (ro_file s)"
  by (simp add: ro_put_def numBuffers_def split: option.splits)

lemma ro_next_buffers:
  assumes "ro_ok s" "ro_next s = Inr t"
  shows "numBuffers (ro_file t) = numBuffers (ro_file s) \<or>
    numBuffers (ro_file t) = Suc (numBuffers (ro_file s)) \<and> ro_pointer s = BUFFER_SIZE * numBuffers (ro_file s)"
proof (cases rule: ro_ok_cases [OF assms(1)])
  case 1
  then show ?thesis using assms(2)
    by (cases "numBuffers (ro_file s) = 0")
      (auto simp: ro_next_def ro_switch_def ro_pointer_def numBuffers_def addBuffer_def getBuffer_def bind_r_Inr_iff split: if_splits)
next
  case (2 k)
  have e: "1 + int k = int n \<longleftrightarrow> n = Suc k" for n by auto
  show ?thesis using 2 assms(2)
    by (auto simp: e ro_next_def ro_switch_def ro_pointer_def ro_in_def numBuffers_def addBuffer_def getBuffer_def bind_r_Inr_iff
      Let_def algebra_simps split: if_splits)
qed

lemma ro_append_byte:
  assumes "ro_appending s"
  shows "\<exists>t. ro_writeByte b s = Inr t \<and> ro_appending t \<and> ro_written t = ro_written s @ [b]"
proof -
  have ok: "ro_ok s" using assms by (simp add: ro_appending_def)
  obtain t k zs where t: "ro_next s = Inr t" "ro_in k t" "ro_position t < BUFFER_SIZE" "ro_pointer t = ro_pointer s"
    "rf_length (ro_file t) = rf_length (ro_file s)"
    using ro_next_in [OF ok] by blast
  obtain u where u: "ro_writeByte b s = Inr u" "ro_ok u" "ro_written u = ro_written s @ [b]"
    using ro_writeByte_written [OF ok] by blast
  have up: "u = ro_put [b] t" using ro_writeByte_put [OF t(1-3)] u(1) by simp
  have "ro_position t + length [b] \<le> BUFFER_SIZE" using t(3) by simp
  note p = ro_put_facts [OF t(2) this]
  have "BUFFER_SIZE * numBuffers (ro_file u) < ro_pointer u + BUFFER_SIZE"
    using ro_next_buffers [OF ok t(1)] assms p(2) t(4) by (auto simp: up numBuffers_put ro_appending_def)
  moreover have "rf_length (ro_file u) \<le> ro_pointer u"
    using assms p(2,4) t(4,5) by (simp add: up ro_appending_def)
  ultimately have "ro_appending u" using u(2) by (simp add: ro_appending_def)
  with u show ?thesis by blast
qed

interpretation ram_append: byte_sink ro_writeByte ro_appending ro_written
  by unfold_locales (rule ro_append_byte)

lemma new_appending: "ro_appending (newRAMOutputStream newRAMFile)" "ro_written (newRAMOutputStream newRAMFile) = []"
  by (simp_all add: ro_appending_def ro_ok_def newRAMOutputStream_def newRAMFile_def blocks_ok_def numBuffers_def ro_pointer_def
      ro_written_def content_def)

lemma ro_ok_pointer: "ro_ok s \<Longrightarrow> ro_pointer s \<le> length (content (ro_file s))"
  using ro_next_in by blast

lemma flushed_file:
  assumes "ro_appending s"
  shows "complete (ro_file (ro_flush s))" "file_bytes (ro_file (ro_flush s)) = ro_written s"
    "rf_length (ro_file (ro_flush s)) = ro_pointer s"
proof -
  have ok: "ro_ok s" and le: "rf_length (ro_file s) \<le> ro_pointer s"
    and n: "BUFFER_SIZE * numBuffers (ro_file s) < ro_pointer s + BUFFER_SIZE"
    using assms by (simp_all add: ro_appending_def)
  have b: "blocks_ok (ro_file s)" using ok by (simp add: ro_ok_def)
  have p: "ro_pointer s \<le> BUFFER_SIZE * numBuffers (ro_file s)" using ro_ok_pointer [OF ok] length_content [OF b] by simp
  have f: "rf_buffers (ro_file (ro_flush s)) = rf_buffers (ro_file s)"
    by (simp add: ro_flush_def ro_setFileLength_def Let_def)
  show l: "rf_length (ro_file (ro_flush s)) = ro_pointer s"
    using le by (auto simp: ro_flush_def ro_setFileLength_def ro_pointer_def Let_def)
  show "complete (ro_file (ro_flush s))"
    using b p n by (simp add: complete_def l blocks_ok_def numBuffers_def f)
  show "file_bytes (ro_file (ro_flush s)) = ro_written s"
    by (simp add: file_bytes_def l ro_written_def content_def f)
qed

lemma opened_stream:
  assumes "complete f" "rf_length f < 2 ^ 40"
  shows "\<exists>r. newRAMInputStream f = Inr r \<and> ri_ok r \<and> ri_left r = file_bytes f"
proof -
  have "rf_length f div BUFFER_SIZE < 2 ^ 31 - 1"
    using assms(2) by (simp add: BUFFER_SIZE_def div_less_iff_less_mult)
  then show ?thesis using assms(1) by (simp add: newRAMInputStream_def ri_ok_def ri_left_def)
qed

text \<open>What one append puts into a new file, a stream on the flushed file has in front of it.\<close>

lemma ram_stored:
  assumes "ram_append.puts put bs" "length bs < 2 ^ 40"
  shows "\<exists>w r. put (newRAMOutputStream newRAMFile) = Inr w \<and> newRAMInputStream (ro_file (ro_flush w)) = Inr r \<and>
    ri_ok r \<and> ri_left r = bs"
proof -
  obtain w where w: "put (newRAMOutputStream newRAMFile) = Inr w" "ro_appending w" "ro_written w = bs"
    using ram_append.putsD [OF assms(1) new_appending(1)] new_appending(2) by auto
  note f = flushed_file [OF w(2)]
  have "rf_length (ro_file (ro_flush w)) < 2 ^ 40"
    using assms(2) f length_file_bytes [OF f(1)] w(3) by simp
  from opened_stream [OF f(1) this] show ?thesis using f(2) w by auto
qed

lemma ram_roundtrip:
  assumes "ram_append.puts put bs" "length bs < 2 ^ 40" "ram_source.gets get bs v"
  shows "\<exists>w r r'. put (newRAMOutputStream newRAMFile) = Inr w \<and> newRAMInputStream (ro_file (ro_flush w)) = Inr r \<and>
    get r = Inr (v, r') \<and> ri_readByte r' = Inl IOException"
proof -
  obtain w r where w: "put (newRAMOutputStream newRAMFile) = Inr w" "newRAMInputStream (ro_file (ro_flush w)) = Inr r"
    and r: "ri_ok r" "ri_left r = bs @ []" using ram_stored [OF assms(1,2)] by auto
  from ram_source.getsD [OF assms(3) r] obtain r' where "get r = Inr (v, r')" "ri_ok r'" "ri_left r' = []" by blast
  with ram_source.read_eof w show ?thesis by blast
qed

subsection \<open>The properties\<close>

text \<open>
  C13. What is written to a new file in memory is read back: any sequence of bytes, ints, longs
  and variable-length ints and longs, written through \<^verbatim>\<open>RAMOutputStream\<close> and flushed, is the
  sequence that a \<^verbatim>\<open>RAMInputStream\<close> on that file returns, after which the next read throws.
  Values at the limits of their types and negative ones are included.
\<close>

theorem ram_fields_roundtrip:
  assumes "length (concat (map field_wire fs)) < 2 ^ 40"
  shows "\<exists>w r r'. put_fields ro_writeByte fs (newRAMOutputStream newRAMFile) = Inr w \<and>
    newRAMInputStream (ro_file (ro_flush w)) = Inr r \<and>
    get_fields ri_readByte fs r = Inr (fs, r') \<and> ri_readByte r' = Inl IOException"
  using ram_roundtrip [OF ram_append.puts_fields assms ram_source.gets_fields] .

theorem ram_fields_roundtrip_witness:
  "\<exists>w r r'. put_fields ro_writeByte [FVInt (-1), FLong (-2), FVLong 300] (newRAMOutputStream newRAMFile) = Inr w \<and>
    newRAMInputStream (ro_file (ro_flush w)) = Inr r \<and>
    get_fields ri_readByte [FVInt (-1), FLong (-2), FVLong 300] r = Inr ([FVInt (-1), FLong (-2), FVLong 300], r') \<and>
    ri_readByte r' = Inl IOException"
proof (rule ram_fields_roundtrip)
  have "unat (-1 :: int32) < 2 ^ 32" using unsigned_less [where 'a = nat, of "-1 :: int32"] by simp
  then have "length (nat_wire (unat (-1 :: int32))) \<le> 2 ^ 32" "length (nat_wire 300) \<le> 301"
    using length_nat_wire_le [of "unat (-1 :: int32)"] length_nat_wire_le [of 300] by linarith+
  then show "length (concat (map field_wire [FVInt (-1), FLong (-2), FVLong 300])) < 2 ^ 40"
    by (simp add: long_wire_def int_wire_def)
qed

text \<open>
  \<^verbatim>\<open>writeBytes\<close> returns and is \<^verbatim>\<open>writeByte\<close> for each byte of the array, in every
  state and whatever the number of buffers the bytes span.
\<close>

theorem ram_writeBytes_each:
  assumes "ro_ok s"
  shows "\<exists>t. ro_writeBytes bs s = Some (Inr t) \<and> ro_writeEach bs s = Inr t \<and> ro_ok t \<and> ro_written t = ro_written s @ bs"
  using ro_writeBytes_each [OF assms, of bs] ro_writeEach_ok [OF assms, of bs] by auto

theorem ram_writeBytes_each_witness:
  "\<exists>t. ro_writeBytes [1, 2, 3] (newRAMOutputStream newRAMFile) = Some (Inr t) \<and> ro_written t = [1, 2, 3]"
proof -
  have "ro_ok (newRAMOutputStream newRAMFile)" using new_appending(1) by (simp add: ro_appending_def)
  from ram_writeBytes_each [OF this, of "[1, 2, 3]"] show ?thesis using new_appending(2) by auto
qed

subsection \<open>Seeking and overwriting\<close>

lemma ro_flush_ok: "ro_ok s \<Longrightarrow> ro_ok (ro_setFileLength s)"
  by (auto simp: ro_ok_def ro_setFileLength_def Let_def blocks_ok_def numBuffers_def)

lemma ro_setFileLength_facts:
  "rf_buffers (ro_file (ro_setFileLength s)) = rf_buffers (ro_file s)"
  "rf_length (ro_file (ro_setFileLength s)) = max (rf_length (ro_file s)) (ro_pointer s)"
  "ro_start (ro_setFileLength s) = ro_start s" "ro_length (ro_setFileLength s) = ro_length s"
  "ro_buffer (ro_setFileLength s) = ro_buffer s" "ro_position (ro_setFileLength s) = ro_position s"
  by (auto simp: ro_setFileLength_def Let_def ro_pointer_def)

lemma ro_seek_to:
  assumes ok: "ro_ok s" and pos: "pos \<le> BUFFER_SIZE * numBuffers (ro_file s)" "pos < 2 ^ 40"
  shows "\<exists>t k zs. ro_seek pos s = Inr t \<and> ro_in k t \<and> ro_position t < BUFFER_SIZE \<and> ro_pointer t = pos \<and>
    content (ro_file t) = content (ro_file s) @ zs \<and>
    rf_length (ro_file t) = max (rf_length (ro_file s)) (ro_pointer s)"
proof -
  let ?s = "ro_setFileLength s"
  note f = ro_setFileLength_facts [of s]
  have ok': "ro_ok ?s" by (rule ro_flush_ok [OF ok])
  have pm: "pos = BUFFER_SIZE * (pos div BUFFER_SIZE) + pos mod BUFFER_SIZE" by simp
  have c: "content (ro_file ?s) = content (ro_file s)" by (simp add: content_def f)
  show ?thesis
  proof (cases "pos < ro_start ?s \<or> ro_start ?s + ro_length ?s \<le> pos")
    case True
    let ?u = "?s\<lparr>ro_index := trunc32 (int (pos div BUFFER_SIZE))\<rparr>"
    have "pos div BUFFER_SIZE < 2 ^ 31" using pos(2) by (simp add: BUFFER_SIZE_def div_less_iff_less_mult)
    then have "ro_index ?u = int (pos div BUFFER_SIZE)" by simp
    moreover have "pos div BUFFER_SIZE \<le> numBuffers (ro_file ?u)"
      using div_le_mono [OF pos(1), of BUFFER_SIZE] by (simp add: numBuffers_def f)
    moreover have "blocks_ok (ro_file ?u)" using ok' by (simp add: ro_ok_def)
    ultimately obtain t zs where t: "ro_switch ?u = Inr t" "ro_in (pos div BUFFER_SIZE) t"
      "content (ro_file t) = content (ro_file ?u) @ zs" "rf_length (ro_file t) = rf_length (ro_file ?u)"
      using ro_switch_to [of ?u "pos div BUFFER_SIZE"] by blast
    have "ro_seek pos s = Inr (t\<lparr>ro_position := pos mod BUFFER_SIZE\<rparr>)"
      using True t(1) by (simp add: ro_seek_def Let_def)
    moreover have "ro_in (pos div BUFFER_SIZE) (t\<lparr>ro_position := pos mod BUFFER_SIZE\<rparr>)"
      using t(2) by (simp add: ro_in_def)
    ultimately show ?thesis using t f(2) c pm by (force simp: ro_pointer_def ro_in_def)
  next
    case False
    obtain k where k: "ro_in k ?s" by (rule ro_ok_cases [OF ok']) (use False in auto)
    note k' = k [unfolded ro_in_def]
    have "pos div BUFFER_SIZE = k"
      using False k' by (intro div_nat_eqI) (simp_all add: mult.commute)
    then have "pos = BUFFER_SIZE * k + pos mod BUFFER_SIZE" using pm by simp
    moreover have "ro_seek pos s = Inr (?s\<lparr>ro_position := pos mod BUFFER_SIZE\<rparr>)"
      using False by (simp add: ro_seek_def Let_def)
    moreover have "ro_in k (?s\<lparr>ro_position := pos mod BUFFER_SIZE\<rparr>)" using k by (simp add: ro_in_def)
    ultimately show ?thesis using k' f(2) c by (force simp: ro_pointer_def)
  qed
qed

text \<open>What bytes written one after the other do to the content.\<close>

lemma ro_writeEach_content:
  "ro_ok s \<Longrightarrow> \<exists>t zs. ro_writeEach bs s = Inr t \<and> ro_ok t \<and> ro_pointer t = ro_pointer s + length bs \<and>
     take (ro_pointer s + length bs) (content (ro_file t)) = take (ro_pointer s) (content (ro_file s)) @ bs \<and>
     drop (ro_pointer s + length bs) (content (ro_file t)) = drop (ro_pointer s + length bs) (content (ro_file s)) @ zs \<and>
     rf_length (ro_file t) = rf_length (ro_file s)"
proof (induction bs arbitrary: s)
  case Nil
  then show ?case by (auto intro: exI [where x = "[]"])
next
  case (Cons b bs)
  obtain t k zs where t: "ro_next s = Inr t" "ro_in k t" "ro_position t < BUFFER_SIZE" "ro_pointer t = ro_pointer s"
    "content (ro_file t) = content (ro_file s) @ zs" "ro_pointer s \<le> length (content (ro_file s))"
    "rf_length (ro_file t) = rf_length (ro_file s)"
    using ro_next_in [OF Cons.prems] by blast
  have w: "ro_writeByte b s = Inr (ro_put [b] t)" by (rule ro_writeByte_put [OF t(1-3)])
  have "ro_position t + length [b] \<le> BUFFER_SIZE" using t(3) by simp
  note p = ro_put_facts [OF t(2) this]
  have "ro_position (ro_put [b] t) \<le> BUFFER_SIZE" using t(2,3) by (simp add: ro_put_def ro_in_def)
  then have ok: "ro_ok (ro_put [b] t)" using p(1) by (rule ro_in_ok [rotated])
  have len: "ro_pointer t < length (content (ro_file t))"
  proof -
    note k = t(2) [unfolded ro_in_def]
    have "BUFFER_SIZE * Suc k \<le> BUFFER_SIZE * numBuffers (ro_file t)" using k by (intro mult_le_mono2) simp
    then show ?thesis using k t(3) by (simp add: ro_pointer_def length_content)
  qed
  obtain u ys where u: "ro_writeEach bs (ro_put [b] t) = Inr u" "ro_ok u" "ro_pointer u = ro_pointer (ro_put [b] t) + length bs"
    "take (ro_pointer (ro_put [b] t) + length bs) (content (ro_file u)) =
       take (ro_pointer (ro_put [b] t)) (content (ro_file (ro_put [b] t))) @ bs"
    "drop (ro_pointer (ro_put [b] t) + length bs) (content (ro_file u)) =
       drop (ro_pointer (ro_put [b] t) + length bs) (content (ro_file (ro_put [b] t))) @ ys"
    "rf_length (ro_file u) = rf_length (ro_file (ro_put [b] t))"
    using Cons.IH [OF ok] by blast
  have "take (ro_pointer s + length (b # bs)) (content (ro_file u)) = take (ro_pointer s) (content (ro_file s)) @ b # bs"
    using u(4) p(2,3) t(4-6) by simp
  moreover have "drop (ro_pointer s + length (b # bs)) (content (ro_file u)) =
      drop (ro_pointer s + length (b # bs)) (content (ro_file s)) @ drop (ro_pointer s + length (b # bs) - length (content (ro_file s))) zs @ ys"
  proof -
    have "ro_pointer s + length (b # bs) - length (content (ro_file s)) =
        Suc (ro_pointer s) - length (content (ro_file s)) + (length bs - (length (content (ro_file s)) - Suc (ro_pointer s)))"
      using t(6) by simp
    then show ?thesis using u(5) len t(6) unfolding p(2,3) t(4,5) by (simp add: add.commute)
  qed
  ultimately show ?case using u(1,2,3,6) p(2,4) t(4,7) w by auto
qed

text \<open>
  C15. Seeking back and overwriting: after \<^verbatim>\<open>seek(pos)\<close> the bytes before \<open>pos\<close> stay, the
  written bytes replace those from \<open>pos\<close> on, the ones behind stay, and the length of the file
  after the next flush is the furthest position ever reached.
\<close>

theorem ram_seek_overwrite:
  assumes "ro_ok s" "pos \<le> BUFFER_SIZE * numBuffers (ro_file s)" "pos < 2 ^ 40"
  shows "\<exists>t u zs. ro_seek pos s = Inr t \<and> ro_writeBytes bs t = Some (Inr u) \<and>
    content (ro_file u) = take pos (content (ro_file s)) @ bs @ drop (pos + length bs) (content (ro_file s)) @ zs \<and>
    rf_length (ro_file (ro_flush u)) = max (max (rf_length (ro_file s)) (ro_getFilePointer s)) (pos + length bs)"
proof -
  obtain t k zs where t: "ro_seek pos s = Inr t" "ro_in k t" "ro_position t < BUFFER_SIZE" "ro_pointer t = pos"
    "content (ro_file t) = content (ro_file s) @ zs" "rf_length (ro_file t) = max (rf_length (ro_file s)) (ro_pointer s)"
    using ro_seek_to [OF assms] by blast
  have ok: "ro_ok t" using t(2,3) by (intro ro_in_ok) simp_all
  obtain u ys where u: "ro_writeEach bs t = Inr u" "ro_pointer u = pos + length bs"
    "take (pos + length bs) (content (ro_file u)) = take pos (content (ro_file t)) @ bs"
    "drop (pos + length bs) (content (ro_file u)) = drop (pos + length bs) (content (ro_file t)) @ ys"
    "rf_length (ro_file u) = rf_length (ro_file t)"
    using ro_writeEach_content [OF ok, of bs] t(4) by auto
  have p: "ro_getFilePointer s = ro_pointer s"
    by (rule ro_ok_cases [OF assms(1)]) (auto simp: ro_getFilePointer_def ro_pointer_def ro_in_def)
  have "pos \<le> length (content (ro_file s))" using assms by (simp add: length_content ro_ok_def)
  then have "content (ro_file u) = take pos (content (ro_file s)) @ bs @ drop (pos + length bs) (content (ro_file s)) @
      drop (pos + length bs - length (content (ro_file s))) zs @ ys"
    using append_take_drop_id [of "pos + length bs" "content (ro_file u)"] u(3,4) t(5) by simp
  moreover have "rf_length (ro_file (ro_flush u)) = max (max (rf_length (ro_file s)) (ro_getFilePointer s)) (pos + length bs)"
    using ro_setFileLength_facts(2) [of u] u(2,5) t(6) p by (simp add: ro_flush_def)
  ultimately show ?thesis using t(1) u(1) ro_writeBytes_each [OF ok, of bs] by auto
qed

theorem ram_seek_overwrite_witness:
  "\<exists>t u zs. ro_seek 0 (newRAMOutputStream newRAMFile) = Inr t \<and> ro_writeBytes [7, 8] t = Some (Inr u) \<and>
    content (ro_file u) = [7, 8] @ zs"
  using ram_seek_overwrite [of "newRAMOutputStream newRAMFile" 0 "[7, 8]"] new_appending(1)
  by (auto simp: ro_appending_def content_def newRAMOutputStream_def newRAMFile_def)

subsection \<open>Bulk reads\<close>

fun ri_readEach :: "nat \<Rightarrow> ram_in \<Rightarrow> (byte list \<times> ram_in) result" where
  "ri_readEach 0 s = Inr ([], s)"
| "ri_readEach (Suc n) s = bind_r (ri_readByte s) (\<lambda>(b, s). bind_r (ri_readEach n s) (\<lambda>(bs, s). Inr (b # bs, s)))"

lemma ri_readEach_left:
  "ri_ok s \<Longrightarrow> n \<le> length (ri_left s) \<Longrightarrow>
     \<exists>t. ri_readEach n s = Inr (take n (ri_left s), t) \<and> ri_ok t \<and> ri_left t = drop n (ri_left s)"
proof (induction n arbitrary: s)
  case (Suc n)
  then obtain b bs where l: "ri_left s = b # bs" by (cases "ri_left s") auto
  from ri_readByte_left [OF Suc.prems(1) l] obtain t where t: "ri_readByte s = Inr (b, t)" "ri_ok t" "ri_left t = bs" by blast
  with Suc.IH [OF t(2)] Suc.prems(2) l show ?case by auto
qed simp

lemma ri_readBytes_left:
  "ri_ok s \<Longrightarrow> n \<le> length (ri_left s) \<Longrightarrow>
     \<exists>t. ri_readBytes n acc s = Some (Inr (acc @ take n (ri_left s), t)) \<and> ri_ok t \<and> ri_left t = drop n (ri_left s)"
proof (induction n arbitrary: acc s rule: less_induct)
  case (less n)
  show ?case
  proof (cases "n = 0")
    case True
    then show ?thesis using less.prems by (subst ri_readBytes.simps) simp
  next
    case False
    then have "ri_left s \<noteq> []" using less.prems(2) by auto
    from ri_next_in [OF less.prems(1) this] obtain t k where
      t: "ri_next s = Inr t" "ri_in k t" "int (ri_position t) < ri_blen t" "ri_left t = ri_left s" by blast
    note k = t(2) [unfolded ri_in_def]
    define m where "m = (if int n < ri_blen t - int (ri_position t) then n else nat (ri_blen t - int (ri_position t)))"
    have m: "0 < m" "m \<le> n" "int (ri_position t + m) \<le> ri_blen t" using t(3) False by (auto simp: m_def)
    let ?u = "t\<lparr>ri_position := ri_position t + m\<rparr>"
    have blk: "\<forall>b\<in>set (rf_buffers (ri_file t)). length b = BUFFER_SIZE" "k < length (rf_buffers (ri_file t))"
      using k by (simp_all add: complete_def blocks_ok_def numBuffers_def)
    have fit: "ri_position t + m \<le> BUFFER_SIZE" "BUFFER_SIZE * k + ri_position t + m \<le> rf_length (ri_file t)"
    proof -
      have "ri_position t + m \<le> min BUFFER_SIZE (ri_total t - BUFFER_SIZE * k)" using m(3) k by (simp only: of_nat_le_iff)
      moreover have "BUFFER_SIZE * k < rf_length (ri_file t)" "ri_total t = rf_length (ri_file t)"
        using k complete_block(1) [of "ri_file t" k] by simp_all
      ultimately show "ri_position t + m \<le> BUFFER_SIZE" "BUFFER_SIZE * k + ri_position t + m \<le> rf_length (ri_file t)"
        by linarith+
    qed
    have chunk: "take m (drop (ri_position t) (rf_buffers (ri_file t) ! k)) = take m (ri_left t)"
    proof -
      have "take m (ri_left t) = take m (drop (BUFFER_SIZE * k + ri_position t) (content (ri_file t)))"
        using fit(2) k by (simp add: ri_left_def file_bytes_def take_drop min_absorb1)
      then show ?thesis using block_slice [OF blk fit(1)] by (simp add: content_def)
    qed
    have step: "ri_readBytes n acc s = ri_readBytes (n - m) (acc @ take m (ri_left t)) ?u"
    proof -
      have "ri_buffer t = Some k" using k by simp
      then show ?thesis
        by (subst ri_readBytes.simps) (simp only: False t(1) if_False sum.case option.case Let_def chunk flip: m_def)
    qed
    have ok: "ri_ok ?u" by (rule ri_in_ok [of k]) (use t m in \<open>auto simp: ri_in_def\<close>)
    have left: "ri_left ?u = drop m (ri_left s)" unfolding t(4) [symmetric] by (simp add: ri_left_def ac_simps)
    have "n - m < n" "n - m \<le> length (ri_left ?u)" using m less.prems(2) left by auto
    from less.IH [OF this(1) ok this(2), of "acc @ take m (ri_left t)"] show ?thesis
      using step left t(4) m(2) take_add [of m "n - m" "ri_left s"] by auto
  qed
qed

text \<open>
  Reading in bulk: from every position of a complete file \<^verbatim>\<open>readBytes\<close> returns, copies
  exactly the next bytes, as many calls of \<^verbatim>\<open>readByte\<close> would, and leaves the rest.
\<close>

theorem ram_readBytes_each:
  assumes "ri_ok s" "n \<le> length (ri_left s)"
  shows "\<exists>t u. ri_readBytes n [] s = Some (Inr (take n (ri_left s), t)) \<and> ri_left t = drop n (ri_left s) \<and>
    ri_readEach n s = Inr (take n (ri_left s), u) \<and> ri_left u = drop n (ri_left s)"
  using ri_readBytes_left [OF assms, of "[]"] ri_readEach_left [OF assms] by auto

lemma one_block_ok:
  assumes "length b = BUFFER_SIZE"
  shows "complete \<lparr>rf_buffers = [b], rf_length = BUFFER_SIZE, rf_sizeInBytes = BUFFER_SIZE\<rparr>"
  using assms by (simp add: complete_def blocks_ok_def numBuffers_def)

theorem ram_readBytes_each_witness:
  "\<exists>s t. newRAMInputStream \<lparr>rf_buffers = [replicate BUFFER_SIZE 9], rf_length = BUFFER_SIZE, rf_sizeInBytes = BUFFER_SIZE\<rparr> = Inr s \<and>
    ri_readBytes 3 [] s = Some (Inr ([9, 9, 9], t))"
proof -
  let ?f = "\<lparr>rf_buffers = [replicate BUFFER_SIZE 9 :: byte list], rf_length = BUFFER_SIZE, rf_sizeInBytes = BUFFER_SIZE\<rparr>"
  have "complete ?f" by (rule one_block_ok) simp
  moreover have "rf_length ?f < 2 ^ 40" by (simp add: BUFFER_SIZE_def)
  ultimately obtain s where s: "newRAMInputStream ?f = Inr s" "ri_ok s" "ri_left s = file_bytes ?f"
    using opened_stream by blast
  have l: "ri_left s = replicate BUFFER_SIZE 9" by (simp add: s(3) file_bytes_def content_def)
  have "(3 :: nat) \<le> BUFFER_SIZE" "take 3 (replicate BUFFER_SIZE (9 :: byte)) = [9, 9, 9]"
    by (simp_all add: BUFFER_SIZE_def take_replicate numeral_3_eq_3)
  with ram_readBytes_each [OF s(2), of 3] s(1) l show ?thesis by auto
qed

subsection \<open>Seeking in an input stream\<close>

lemma ri_seek_in:
  assumes ok: "ri_ok s" and pos: "pos < rf_length (ri_file s)" "pos < 2 ^ 31"
  shows "\<exists>t k. ri_seek pos s = Inr t \<and> ri_in k t \<and> ri_ok t \<and> ri_left t = drop pos (file_bytes (ri_file s))"
proof -
  have c: "complete (ri_file s)" "ri_total s = rf_length (ri_file s)" using ok by (simp_all add: ri_ok_def)
  have tp: "trunc32 (int pos) = int pos" using pos(2) by simp
  have pm: "pos = BUFFER_SIZE * (pos div BUFFER_SIZE) + pos mod BUFFER_SIZE" "pos mod BUFFER_SIZE < BUFFER_SIZE" by simp_all
  have fin: "\<exists>t k. ri_seek pos s = Inr t \<and> ri_in k t \<and> ri_ok t \<and> ri_left t = drop pos (file_bytes (ri_file s))"
    if u: "ri_in (pos div BUFFER_SIZE) u" "ri_file u = ri_file s"
      and eq: "ri_seek pos s = Inr (u\<lparr>ri_position := pos mod BUFFER_SIZE\<rparr>)" for u
  proof -
    have i: "ri_in (pos div BUFFER_SIZE) (u\<lparr>ri_position := pos mod BUFFER_SIZE\<rparr>)" using u(1) by (simp add: ri_in_def)
    moreover have "pos mod BUFFER_SIZE \<le> rf_length (ri_file s) - BUFFER_SIZE * (pos div BUFFER_SIZE)"
      using pos(1) pm(1) by linarith
    then have "int (ri_position (u\<lparr>ri_position := pos mod BUFFER_SIZE\<rparr>)) \<le> ri_blen (u\<lparr>ri_position := pos mod BUFFER_SIZE\<rparr>)"
      using u pm(2) c(2) by (simp add: ri_in_def)
    ultimately have "ri_ok (u\<lparr>ri_position := pos mod BUFFER_SIZE\<rparr>)" by (rule ri_in_ok)
    moreover have "ri_left (u\<lparr>ri_position := pos mod BUFFER_SIZE\<rparr>) = drop pos (file_bytes (ri_file s))"
      using u pm(1) by (simp add: ri_left_def ri_in_def)
    ultimately show ?thesis using eq i by blast
  qed
  show ?thesis
  proof (cases "ri_buffer s = None \<or> trunc32 (int pos) < int (ri_start s) \<or> int (ri_start s + BUFFER_SIZE) \<le> trunc32 (int pos)")
    case True
    let ?s = "s\<lparr>ri_index := trunc32 (int (pos div BUFFER_SIZE))\<rparr>"
    have "pos div BUFFER_SIZE \<le> pos" by simp
    then have "pos div BUFFER_SIZE < 2 ^ 31" using pos(2) by linarith
    then have ix: "ri_index ?s = int (pos div BUFFER_SIZE)" by simp
    have "pos < BUFFER_SIZE * numBuffers (ri_file s)" using pos(1) c(1) by (simp add: complete_def)
    then have "pos div BUFFER_SIZE < numBuffers (ri_file ?s)"
      by (simp add: div_less_iff_less_mult mult.commute)
    from ri_switch_to [of ?s, OF _ _ ix this, of False] c obtain u where
      "ri_switch False ?s = Inr u" "ri_in (pos div BUFFER_SIZE) u" "ri_file u = ri_file s" by auto
    then show ?thesis using True by (intro fin [of u]) (simp_all add: ri_seek_def)
  next
    case False
    obtain k where k: "ri_in k s" by (rule ri_ok_cases [OF ok]) (use False in auto)
    have b: "BUFFER_SIZE * k \<le> pos" "pos < BUFFER_SIZE * k + BUFFER_SIZE" using False k tp by (auto simp: ri_in_def simp flip: of_nat_add of_nat_mult)
    have "pos div BUFFER_SIZE = k" by (rule div_nat_eqI) (use b in \<open>simp_all add: mult.commute\<close>)
    then show ?thesis using False k by (intro fin [of s]) (auto simp add: ri_seek_def)
  qed
qed

text \<open>
  \<^verbatim>\<open>seek\<close> to any position inside the file, from wherever the stream stands, makes the
  following reads return the bytes from that position on.
\<close>

theorem ram_seek_reads:
  assumes "ri_ok s" "pos + n \<le> rf_length (ri_file s)" "0 < n" "pos + n < 2 ^ 31"
  shows "\<exists>t u. ri_seek pos s = Inr t \<and> ri_getFilePointer t = pos \<and>
    ri_readBytes n [] t = Some (Inr (take n (drop pos (file_bytes (ri_file s))), u))"
proof -
  have "pos < rf_length (ri_file s)" "pos < 2 ^ 31" using assms by auto
  from ri_seek_in [OF assms(1) this] obtain t k where t: "ri_seek pos s = Inr t" "ri_in k t" "ri_ok t"
    "ri_left t = drop pos (file_bytes (ri_file s))" by blast
  have c: "complete (ri_file s)" using assms(1) by (simp add: ri_ok_def)
  have "n \<le> length (ri_left t)" using assms(2) by (simp add: t(4) length_file_bytes [OF c])
  from ri_readBytes_left [OF t(3) this, of "[]"] obtain u where
    "ri_readBytes n [] t = Some (Inr (take n (ri_left t), u))" by auto
  moreover have "ri_getFilePointer t = pos"
  proof -
    have "length (ri_left t) = rf_length (ri_file s) - pos" by (simp add: t(4) length_file_bytes [OF c])
    moreover have f: "ri_file t = ri_file s" using t(1) by (auto simp: ri_seek_def ri_switch_def bind_r_Inr_iff Let_def split: if_splits)
    moreover have "length (ri_left t) = rf_length (ri_file s) - (ri_start t + ri_position t)"
      using t(2) by (simp add: ri_left_def f length_file_bytes [OF c])
    ultimately show ?thesis using t(2) assms(2,3) by (simp add: ri_getFilePointer_def ri_in_def)
  qed
  ultimately show ?thesis using t(1,4) by auto
qed

theorem ram_seek_reads_witness:
  "\<exists>s t u. newRAMInputStream \<lparr>rf_buffers = [replicate 1023 9 @ [5]], rf_length = BUFFER_SIZE, rf_sizeInBytes = BUFFER_SIZE\<rparr> = Inr s \<and>
    ri_seek 1022 s = Inr t \<and> ri_readBytes 2 [] t = Some (Inr ([9, 5], u))"
proof -
  let ?f = "\<lparr>rf_buffers = [replicate 1023 9 @ [5] :: byte list], rf_length = BUFFER_SIZE, rf_sizeInBytes = BUFFER_SIZE\<rparr>"
  have "complete ?f" by (rule one_block_ok) (simp add: BUFFER_SIZE_def)
  moreover have "rf_length ?f < 2 ^ 40" by (simp add: BUFFER_SIZE_def)
  ultimately obtain s where s: "newRAMInputStream ?f = Inr s" "ri_ok s" "ri_left s = file_bytes ?f"
    using opened_stream by blast
  have f: "ri_file s = ?f" using s(1) by (auto simp: newRAMInputStream_def bind_r_Inr_iff Let_def split: if_splits)
  have "file_bytes ?f = replicate 1023 9 @ [5]" by (simp add: file_bytes_def content_def BUFFER_SIZE_def)
  then have "take 2 (drop 1022 (file_bytes (ri_file s))) = [9, 5]"
    unfolding f by (simp add: drop_replicate numeral_2_eq_2)
  with ram_seek_reads [OF s(2), of 1022 2] s(1) f show ?thesis by (auto simp: BUFFER_SIZE_def)
qed

text \<open>
  C28. At the end of a file that fills its last buffer, \<^verbatim>\<open>seek(length)\<close> from inside that buffer does
  not leave it: the position becomes 0 within the buffer, the file pointer reads as the start
  of the buffer, and \<^verbatim>\<open>readByte\<close> returns that stale byte where the end of the file
  should be reported.
\<close>

theorem ram_seek_end_stale:
  assumes "ri_in k s" "ri_total s = BUFFER_SIZE * Suc k" "ri_total s < 2 ^ 31"
  shows "\<exists>t u. ri_seek (ri_total s) s = Inr t \<and> ri_getFilePointer t = BUFFER_SIZE * k \<and>
    ri_readByte t = Inr (file_bytes (ri_file s) ! (BUFFER_SIZE * k), u)"
proof -
  note k = assms(1) [unfolded ri_in_def]
  have sk: "ri_seek (ri_total s) s = Inr (s\<lparr>ri_position := 0\<rparr>)"
  proof -
    have "trunc32 (int (ri_total s)) = int (ri_total s)" using assms(3) by simp
    moreover have "ri_total s div BUFFER_SIZE = Suc k" unfolding assms(2) by (simp add: BUFFER_SIZE_def)
    moreover have "Suc k < 2 ^ 31" using assms(2,3) by (simp add: BUFFER_SIZE_def)
    then have "trunc32 (int (Suc k)) = int (Suc k)" by (intro trunc32_id) simp_all
    moreover have "numBuffers (ri_file s) \<le> Suc k" "ri_total s mod BUFFER_SIZE = 0"
    proof -
      have "BUFFER_SIZE * (numBuffers (ri_file s) - 1) < BUFFER_SIZE * Suc k"
        using k complete_block(1) [of "ri_file s" "numBuffers (ri_file s) - 1"] assms(2) by simp
      then have "numBuffers (ri_file s) - 1 < Suc k" by (simp only: mult_less_cancel1)
      then show "numBuffers (ri_file s) \<le> Suc k" by simp
      show "ri_total s mod BUFFER_SIZE = 0" unfolding assms(2) by (rule mod_mult_self1_is_0)
    qed
    moreover have "int (ri_start s + BUFFER_SIZE) \<le> int (ri_total s)"
      unfolding of_nat_le_iff using k assms(2) by simp
    ultimately show ?thesis using k by (simp add: ri_seek_def ri_switch_def)
  qed
  have blk: "\<forall>b\<in>set (rf_buffers (ri_file s)). length b = BUFFER_SIZE" "k < length (rf_buffers (ri_file s))"
    using k by (simp_all add: complete_def blocks_ok_def numBuffers_def)
  have "ri_blen s = int BUFFER_SIZE" using k assms(2) by simp
  then have nx: "ri_next (s\<lparr>ri_position := 0\<rparr>) = Inr (s\<lparr>ri_position := 0\<rparr>)"
    by (simp add: ri_next_def BUFFER_SIZE_def)
  have "take 1 (drop (BUFFER_SIZE * k + 0) (concat (rf_buffers (ri_file s)))) = take 1 (drop 0 (rf_buffers (ri_file s) ! k))"
    by (rule block_slice [OF blk]) (simp add: BUFFER_SIZE_def)
  moreover have "BUFFER_SIZE * k < length (content (ri_file s))" "BUFFER_SIZE * k < rf_length (ri_file s)"
    "length (rf_buffers (ri_file s) ! k) = BUFFER_SIZE"
    using blk k complete_block(1) [of "ri_file s" k] by (simp_all add: length_content complete_def BUFFER_SIZE_def)
  moreover from this(3) have "rf_buffers (ri_file s) ! k \<noteq> []" by (auto simp: BUFFER_SIZE_def)
  ultimately have "content (ri_file s) ! (BUFFER_SIZE * k) = rf_buffers (ri_file s) ! k ! 0"
    by (simp add: content_def take_Suc hd_drop_conv_nth hd_conv_nth)
  then have "file_bytes (ri_file s) ! (BUFFER_SIZE * k) = rf_buffers (ri_file s) ! k ! 0"
    using k complete_block(1) [of "ri_file s" k] by (simp add: file_bytes_def)
  moreover have "arr_get (rf_buffers (ri_file s) ! k) 0 = Inr (rf_buffers (ri_file s) ! k ! 0)"
    using blk by (simp add: arr_get_def BUFFER_SIZE_def)
  ultimately show ?thesis using k unfolding sk
    by (simp add: ri_getFilePointer_def ri_readByte_def nx)
qed

theorem ram_seek_end_stale_witness:
  "\<exists>s t u. newRAMInputStream \<lparr>rf_buffers = [7 # replicate 1023 9], rf_length = BUFFER_SIZE, rf_sizeInBytes = BUFFER_SIZE\<rparr> = Inr s \<and>
    (\<exists>s'. ri_seek 1 s = Inr s' \<and> ri_seek 1024 s' = Inr t \<and> ri_readByte t = Inr (7, u))"
proof -
  let ?f = "\<lparr>rf_buffers = [7 # replicate 1023 9 :: byte list], rf_length = BUFFER_SIZE, rf_sizeInBytes = BUFFER_SIZE\<rparr>"
  have c: "complete ?f" by (rule one_block_ok) (simp add: BUFFER_SIZE_def)
  moreover have "rf_length ?f < 2 ^ 40" by (simp add: BUFFER_SIZE_def)
  ultimately obtain s where s: "newRAMInputStream ?f = Inr s" "ri_ok s" using opened_stream by blast
  have f: "ri_file s = ?f" using s(1) by (auto simp: newRAMInputStream_def bind_r_Inr_iff Let_def split: if_splits)
  obtain t k where t: "ri_seek 1 s = Inr t" "ri_in k t"
    using ri_seek_in [OF s(2), of 1] f by (auto simp: BUFFER_SIZE_def)
  have tf: "ri_file t = ?f" using t(1) f by (auto simp: ri_seek_def ri_switch_def bind_r_Inr_iff Let_def split: if_splits)
  have i: "ri_in 0 t" using t(2) tf by (auto simp: ri_in_def numBuffers_def)
  have "ri_total t = BUFFER_SIZE" using i tf by (simp add: ri_in_def)
  moreover have "file_bytes ?f ! 0 = 7" by (simp add: file_bytes_def content_def BUFFER_SIZE_def)
  ultimately show ?thesis using ram_seek_end_stale [OF i] s(1) t(1) tf by (auto simp: BUFFER_SIZE_def)
qed

subsection \<open>Copying a file out\<close>

lemma ro_copy_rest:
  assumes "blocks_ok f" "n \<le> length (content f)" "pos = BUFFER_SIZE * k"
  shows "ro_copy (\<lambda>bs out. Inr (out @ bs)) f n pos k out = Inr (out @ drop pos (take n (content f)))"
  using assms(3)
proof (induction "n - pos" arbitrary: pos k out rule: less_induct)
  case less
  show ?case
  proof (cases "pos < n")
    case True
    have "pos < BUFFER_SIZE * numBuffers f" using True assms(1,2) by (simp add: length_content)
    then have k: "k < length (rf_buffers f)" unfolding less.prems by (simp add: numBuffers_def)
    define m where "m = (if n < pos + BUFFER_SIZE then n - pos else BUFFER_SIZE)"
    have m: "m \<le> BUFFER_SIZE" "pos + m \<le> n" using True by (auto simp: m_def)
    have "take m (drop (BUFFER_SIZE * k + 0) (concat (rf_buffers f))) = take m (drop 0 (rf_buffers f ! k))"
      by (rule block_slice) (use assms(1) k m in \<open>simp_all add: blocks_ok_def\<close>)
    then have b: "take m (rf_buffers f ! k) = take m (drop pos (take n (content f)))"
      using less.prems m(2) by (simp add: content_def take_drop min_absorb1)
    have "n - (pos + BUFFER_SIZE) < n - pos" using True by (simp add: BUFFER_SIZE_def)
    note IH = less.hyps [OF this, of "Suc k" "out @ take m (rf_buffers f ! k)"]
    have "take m (drop pos (take n (content f))) @ drop (pos + BUFFER_SIZE) (take n (content f)) = drop pos (take n (content f))"
    proof (cases "n < pos + BUFFER_SIZE")
      case False
      then show ?thesis using append_take_drop_id [of BUFFER_SIZE "drop pos (take n (content f))"]
        by (simp add: m_def add.commute)
    qed (simp add: m_def)
    then have "ro_copy (\<lambda>bs out. Inr (out @ bs)) f n (pos + BUFFER_SIZE) (Suc k) (out @ take m (rf_buffers f ! k)) =
        Inr (out @ drop pos (take n (content f)))"
      using IH less.prems b by simp
    moreover have "getBuffer (int k) f = Inr k" using k by (simp add: getBuffer_def)
    ultimately show ?thesis using True unfolding m_def
      by (subst ro_copy.simps) (simp only: Let_def if_True bind_r_simps Suc_eq_plus1)
  qed (simp add: ro_copy.simps)
qed

lemma ro_pointer_in: "ro_ok s \<Longrightarrow> ro_pointer s \<le> length (content (ro_file s))"
proof (erule ro_ok_cases)
  fix k assume k: "ro_in k s" "ro_position s \<le> BUFFER_SIZE"
  then have "BUFFER_SIZE * Suc k \<le> BUFFER_SIZE * numBuffers (ro_file s)" by (intro mult_le_mono2) (simp add: ro_in_def)
  then show ?thesis using k by (simp add: ro_pointer_def ro_in_def length_content)
qed (simp add: ro_pointer_def)

text \<open>
  \<^verbatim>\<open>writeTo\<close> flushes the stream and copies exactly the bytes of the file, up to its
  length, to the other output.
\<close>

theorem ram_writeTo_copies:
  assumes "ro_ok s" "rf_length (ro_file s) \<le> BUFFER_SIZE * numBuffers (ro_file s)"
  shows "ro_writeTo (\<lambda>bs out. Inr (out @ bs)) s out = Inr (ro_flush s, out @ file_bytes (ro_file (ro_flush s)))"
proof -
  note f = ro_setFileLength_facts [of s]
  have "blocks_ok (ro_file (ro_flush s))" using ro_flush_ok [OF assms(1)] by (simp add: ro_flush_def ro_ok_def)
  moreover have "rf_length (ro_file (ro_flush s)) \<le> length (content (ro_file (ro_flush s)))"
    using assms ro_pointer_in [OF assms(1)] f by (auto simp: ro_flush_def content_def numBuffers_def length_content [unfolded content_def] ro_ok_def)
  ultimately show ?thesis by (simp add: ro_writeTo_def Let_def ro_copy_rest file_bytes_def)
qed

theorem ram_writeTo_copies_witness:
  "ro_writeTo (\<lambda>bs out. Inr (out @ bs)) (newRAMOutputStream newRAMFile) [1] = Inr (newRAMOutputStream newRAMFile, [1])"
  using ram_writeTo_copies [of "newRAMOutputStream newRAMFile" "[1]"] new_appending(1)
  by (simp add: ro_appending_def newRAMOutputStream_def newRAMFile_def ro_flush_def ro_setFileLength_def file_bytes_def content_def)

end
