(* ===== verification/TextCodec.thy ===== *)
theory TextCodec imports RamStore begin

text \<open>
  Text in index files: \<^verbatim>\<open>util/UTF8Stream.cpp\<close>, the conversions \<^verbatim>\<open>toUTF8\<close> and
  \<^verbatim>\<open>toUnicode\<close> of \<^verbatim>\<open>util/StringUtils.cpp\<close>, and the strings of
  \<^verbatim>\<open>store/IndexOutput.cpp\<close> and \<^verbatim>\<open>store/IndexInput.cpp\<close>. Code units and code points
  are words of 32 bits, as \<^verbatim>\<open>uint32_t\<close> (and \<^verbatim>\<open>wchar_t\<close> of builds without
  \<^verbatim>\<open>LPP_UNICODE_CHAR_SIZE_2\<close>, to which the conversions are specialised). A result of a
  conversion is the returned count and what the buffer holds; the capacity of the buffer is an
  argument, and a write past it is \<open>OutOfRange\<close>. The size of the buffer for an encoding is
  computed in \<^verbatim>\<open>int32_t\<close>.
\<close>

type_synonym uchar = "32 word"

subsection \<open>UTF8Base\<close>

definition LEAD_SURROGATE_MIN :: uchar where "LEAD_SURROGATE_MIN = 0xd800"
definition LEAD_SURROGATE_MAX :: uchar where "LEAD_SURROGATE_MAX = 0xdbff"
definition TRAIL_SURROGATE_MIN :: uchar where "TRAIL_SURROGATE_MIN = 0xdc00"
definition TRAIL_SURROGATE_MAX :: uchar where "TRAIL_SURROGATE_MAX = 0xdfff"
definition LEAD_OFFSET :: uchar where "LEAD_OFFSET = (LEAD_SURROGATE_MIN - drop_bit 10 0x10000) AND 0xffff"
definition SURROGATE_OFFSET :: uchar where "SURROGATE_OFFSET = 0x10000 - push_bit 10 LEAD_SURROGATE_MIN - TRAIL_SURROGATE_MIN"
definition CODE_POINT_MAX :: uchar where "CODE_POINT_MAX = 0x0010ffff"
definition UNICODE_TERMINATOR :: uchar where "UNICODE_TERMINATOR = 0x0001ffff"

lemmas utf_consts = LEAD_SURROGATE_MIN_def LEAD_SURROGATE_MAX_def TRAIL_SURROGATE_MIN_def TRAIL_SURROGATE_MAX_def
  CODE_POINT_MAX_def UNICODE_TERMINATOR_def

definition mask8 :: "uchar \<Rightarrow> uchar" where "mask8 b = 0xff AND b"
definition mask16 :: "uchar \<Rightarrow> uchar" where "mask16 c = 0xffff AND c"

definition isTrail :: "uchar \<Rightarrow> bool" where
  "isTrail b \<longleftrightarrow> drop_bit 6 (mask8 b) = 2"

definition isSurrogate :: "uchar \<Rightarrow> bool" where
  "isSurrogate cp \<longleftrightarrow> LEAD_SURROGATE_MIN \<le> cp \<and> cp \<le> TRAIL_SURROGATE_MAX"

definition isLeadSurrogate :: "uchar \<Rightarrow> bool" where
  "isLeadSurrogate cp \<longleftrightarrow> LEAD_SURROGATE_MIN \<le> cp \<and> cp \<le> LEAD_SURROGATE_MAX"

definition isTrailSurrogate :: "uchar \<Rightarrow> bool" where
  "isTrailSurrogate cp \<longleftrightarrow> TRAIL_SURROGATE_MIN \<le> cp \<and> cp \<le> TRAIL_SURROGATE_MAX"

definition isValidCodePoint :: "uchar \<Rightarrow> bool" where
  "isValidCodePoint cp \<longleftrightarrow> cp \<le> CODE_POINT_MAX \<and> \<not> isSurrogate cp \<and> cp \<noteq> 0xfffe \<and> cp \<noteq> 0xffff"

definition isOverlongSequence :: "uchar \<Rightarrow> nat \<Rightarrow> bool" where
  "isOverlongSequence cp len \<longleftrightarrow>
     (if cp < 0x80 then len \<noteq> 1 else if cp < 0x800 then len \<noteq> 2 else if cp < 0x10000 then len \<noteq> 3 else False)"

subsection \<open>The encoder\<close>

definition appendChar :: "uchar \<Rightarrow> byte list" where
  "appendChar cp =
     (if cp < 0x80 then [ucast cp]
      else if cp < 0x800 then [ucast (drop_bit 6 cp OR 0xc0), ucast ((cp AND 0x3f) OR 0x80)]
      else if cp < 0x10000 then
        [ucast (drop_bit 12 cp OR 0xe0), ucast ((drop_bit 6 cp AND 0x3f) OR 0x80), ucast ((cp AND 0x3f) OR 0x80)]
      else
        [ucast (drop_bit 18 cp OR 0xf0), ucast ((drop_bit 12 cp AND 0x3f) OR 0x80),
         ucast ((drop_bit 6 cp AND 0x3f) OR 0x80), ucast ((cp AND 0x3f) OR 0x80)])"

text \<open>What the loops return when the input is at its end, and when the buffer is full.\<close>

definition conv_end :: "'a list \<Rightarrow> (int \<times> 'a list) result" where
  "conv_end out = Inr (if out = [] then -1 else int (length out), out)"

fun utf32to8 :: "nat \<Rightarrow> uchar list \<Rightarrow> byte list \<Rightarrow> (int \<times> byte list) result" where
  "utf32to8 cap [] out = conv_end out"
| "utf32to8 cap (next # rest) out =
     (if next = UNICODE_TERMINATOR then conv_end out
      else if \<not> isValidCodePoint next then Inr (0, out)
      else
        let out = out @ appendChar next in
        if cap < length out then Inl OutOfRange
        else if cap \<le> length out then Inr (int (length out), out)
        else utf32to8 cap rest out)"

fun utf16to8 :: "nat \<Rightarrow> uchar list \<Rightarrow> byte list \<Rightarrow> (int \<times> byte list) result" where
  "utf16to8 cap [] out = conv_end out"
| "utf16to8 cap (next # rest) out =
     (if next = UNICODE_TERMINATOR then conv_end out
      else
        let cp = mask16 next in
        case (if isLeadSurrogate cp then
                (case rest of [] \<Rightarrow> None
                 | trail # rest \<Rightarrow>
                     if trail = UNICODE_TERMINATOR \<or> \<not> isTrailSurrogate (mask16 trail) then None
                     else Some (push_bit 10 cp + mask16 trail + SURROGATE_OFFSET, True))
              else if isTrailSurrogate cp then None else Some (cp, False)) of
          None \<Rightarrow> Inr (0, out)
        | Some (cp, pair) \<Rightarrow>
            if \<not> isValidCodePoint cp then Inr (0, out)
            else
              let out = out @ appendChar cp in
              if cap < length out then Inl OutOfRange
              else if cap \<le> length out then Inr (int (length out), out)
              else utf16to8 cap (if pair then tl rest else rest) out)"

subsection \<open>The decoder\<close>

definition sequenceLength :: "uchar \<Rightarrow> nat" where
  "sequenceLength cp =
     (let lead = mask8 cp in
      if lead < 0x80 then 1 else if drop_bit 5 lead = 0x6 then 2 else if drop_bit 4 lead = 0xe then 3
      else if drop_bit 3 lead = 0x1e then 4 else 0)"

text \<open>\<^verbatim>\<open>getSequence\<close>: \<open>None\<close> when the sequence is cut off or a byte is no trail byte. The
  caller stops then, so the bytes consumed do not matter.\<close>

fun next_trail :: "byte list \<Rightarrow> (uchar \<times> byte list) option" where
  "next_trail [] = None"
| "next_trail (b # bs) = (if isTrail (ucast b) then Some (ucast b, bs) else None)"

definition getSequence :: "uchar \<Rightarrow> nat \<Rightarrow> byte list \<Rightarrow> (uchar \<times> byte list) option" where
  "getSequence cp len bs =
     (let cp = mask8 cp in
      if len = 1 then Some (cp, bs)
      else case next_trail bs of None \<Rightarrow> None
        | Some (n, bs) \<Rightarrow>
            if len = 2 then Some ((push_bit 6 cp AND 0x7ff) + (n AND 0x3f), bs)
            else
              let cp = (if len = 3 then (push_bit 12 cp AND 0xffff) + (push_bit 6 (mask8 n) AND 0xfff)
                        else (push_bit 18 cp AND 0x1fffff) + (push_bit 12 (mask8 n) AND 0x3ffff)) in
              case next_trail bs of None \<Rightarrow> None
              | Some (n, bs) \<Rightarrow>
                  if len = 3 then Some (cp + (n AND 0x3f), bs)
                  else
                    let cp = cp + (push_bit 6 (mask8 n) AND 0xfff) in
                    (case next_trail bs of None \<Rightarrow> None
                     | Some (n, bs) \<Rightarrow> Some (cp + (n AND 0x3f), bs)))"

definition isValidNext :: "uchar \<Rightarrow> byte list \<Rightarrow> (uchar \<times> byte list) option" where
  "isValidNext next bs =
     (let len = sequenceLength next in
      if len < 1 \<or> 4 < len then None
      else case getSequence next len bs of None \<Rightarrow> None
        | Some (cp, bs) \<Rightarrow> if isValidCodePoint cp \<and> \<not> isOverlongSequence cp len then Some (cp, bs) else None)"

lemma next_trail_length: "next_trail bs = Some (n, cs) \<Longrightarrow> length bs = Suc (length cs)"
  by (cases bs) (auto split: if_splits)

lemma getSequence_length: "getSequence cp len bs = Some (n, cs) \<Longrightarrow> length cs \<le> length bs"
  by (auto simp: getSequence_def Let_def split: if_splits option.splits dest!: next_trail_length)

lemma isValidNext_length: "isValidNext cp bs = Some (n, cs) \<Longrightarrow> length cs \<le> length bs"
  by (auto simp: isValidNext_def Let_def split: if_splits option.splits dest!: getSequence_length)

function utf8to32 :: "nat \<Rightarrow> byte list \<Rightarrow> uchar list \<Rightarrow> (int \<times> uchar list) result" where
  "utf8to32 cap [] out = conv_end out"
| "utf8to32 cap (b # bs) out =
     (case isValidNext (ucast b) bs of None \<Rightarrow> Inr (0, out)
      | Some (cp, bs) \<Rightarrow>
          let out = out @ [cp] in
          if cap < length out then Inl OutOfRange
          else if cap \<le> length out then Inr (int (length out), out)
          else utf8to32 cap bs out)"
  by pat_completeness auto

termination utf8to32
  by (relation "measure (\<lambda>(_, bs, _). length bs)") (auto dest: isValidNext_length)

function utf8to16 :: "nat \<Rightarrow> byte list \<Rightarrow> uchar list \<Rightarrow> (int \<times> uchar list) result" where
  "utf8to16 cap [] out = conv_end out"
| "utf8to16 cap (b # bs) out =
     (case isValidNext (ucast b) bs of None \<Rightarrow> Inr (0, out)
      | Some (cp, bs) \<Rightarrow>
          let out = out @ (if cp > 0xffff then [mask16 (drop_bit 10 cp + LEAD_OFFSET), mask16 ((cp AND 0x3ff) + TRAIL_SURROGATE_MIN)]
                           else [mask16 cp]) in
          if cap < length out then Inl OutOfRange
          else if cap \<le> length out then Inr (int (length out), out)
          else utf8to16 cap bs out)"
  by pat_completeness auto

termination utf8to16
  by (relation "measure (\<lambda>(_, bs, _). length bs)") (auto dest: isValidNext_length)

fun utf16to32 :: "nat \<Rightarrow> 16 word list \<Rightarrow> uchar list \<Rightarrow> (int \<times> uchar list) result" where
  "utf16to32 cap [] out = conv_end out"
| "utf16to32 cap (u # rest) out =
     (let cp = mask16 (ucast u) in
      case (if isLeadSurrogate cp then
              (case rest of [] \<Rightarrow> None
               | trail # _ \<Rightarrow>
                   if \<not> isTrailSurrogate (mask16 (ucast trail)) then None
                   else Some (push_bit 10 (cp - LEAD_SURROGATE_MIN) + (mask16 (ucast trail) - TRAIL_SURROGATE_MIN) + 0x10000, True))
            else if isTrailSurrogate cp then None else Some (cp, False)) of
        None \<Rightarrow> Inr (0, out)
      | Some (cp, pair) \<Rightarrow>
          let out = out @ [cp] in
          if cap < length out then Inl OutOfRange
          else if cap \<le> length out then Inr (int (length out), out)
          else utf16to32 cap (if pair then tl rest else rest) out)"

subsection \<open>Conversions of strings\<close>

definition MAX_ENCODING_UTF8_SIZE :: nat where "MAX_ENCODING_UTF8_SIZE = 4"

definition conv_count :: "(int \<times> 'a list) \<Rightarrow> 'a list" where
  "conv_count = (\<lambda>(n, out). take (nat (if n = -1 then 0 else n)) out)"

text \<open>The bytes go to a new array of four bytes for each character, a product in \<^verbatim>\<open>int32_t\<close>. The form of \<^verbatim>\<open>toUTF8\<close> with a
  \<^verbatim>\<open>UTF8Result\<close> keeps a larger array of an earlier call, into which the encoder writes the same bytes.\<close>

definition toUTF8 :: "uchar list \<Rightarrow> byte list result" where
  "toUTF8 s = (if s = [] then Inr []
     else bind_r (new_size (trunc32 (int (length s) * int MAX_ENCODING_UTF8_SIZE))) (\<lambda>cap.
          bind_r (utf32to8 cap s []) (\<lambda>r. Inr (conv_count r))))"

definition toUnicode :: "byte list \<Rightarrow> uchar list result" where
  "toUnicode bs = (if bs = [] then Inr [] else bind_r (utf8to32 (length bs) bs []) (\<lambda>r. Inr (conv_count r)))"

subsection \<open>Groups of six bits\<close>

lemma mask6: "(0x3f :: uchar) = mask 6" "(0xff :: uchar) = mask 8" "(0xffff :: uchar) = mask 16" "(0x7ff :: uchar) = mask 11"
  "(0xfff :: uchar) = mask 12" "(0x1fffff :: uchar) = mask 21" "(0x3ffff :: uchar) = mask 18"
  by (simp_all add: mask_eq_exp_minus_1)

lemma less_bit: "w < 2 ^ k \<Longrightarrow> bit w j \<Longrightarrow> j < k" for w :: uchar
  by (metis bit_take_bit_iff less_mask_eq take_bit_eq_mask)

lemma six_join:
  fixes x y :: uchar
  assumes "x < 2 ^ 26" "y < 0x40"
  shows "drop_bit 6 (push_bit 6 x + y) = x" "(push_bit 6 x + y) AND 0x3f = y"
proof -
  have y: "bit y j \<Longrightarrow> j < 6" and x: "bit x j \<Longrightarrow> j < 26" for j using assms less_bit [of y 6] less_bit [of x 26] by auto
  have "push_bit 6 x AND y = 0" by (rule bit_word_eqI) (auto simp: bit_simps dest: y)
  then have e: "push_bit 6 x + y = push_bit 6 x OR y" by (simp add: disjunctive_add_eq_or)
  show "drop_bit 6 (push_bit 6 x + y) = x" unfolding e by (rule bit_word_eqI) (auto simp: bit_simps dest: y x)
  show "(push_bit 6 x + y) AND 0x3f = y" unfolding e mask6 by (rule bit_word_eqI) (auto simp: bit_simps dest: y)
qed

lemma six_split: "push_bit 6 (drop_bit 6 w) + (w AND 0x3f) = w" for w :: uchar
  unfolding mask6 take_bit_eq_mask [symmetric] by (rule bits_ident)

text \<open>Trail bytes are the bytes \<open>0x80 OR y\<close> for the 64 values of \<open>y\<close>.\<close>

lemma below_cases:
  fixes w :: uchar
  assumes "\<forall>n\<in>{0..<k}. P (of_nat n)" "unat w < k"
  shows "P w"
proof -
  have "P (of_nat (unat w))" using assms by (metis atLeastLessThan_iff zero_le)
  then show ?thesis by simp
qed

definition trail_byte :: "uchar \<Rightarrow> byte" where
  "trail_byte y = ucast ((y AND 0x3f) OR 0x80)"

lemma trail_table:
  assumes "y < 0x40"
  shows "isTrail (ucast (trail_byte y)) \<and> ucast (trail_byte y) AND 0x3f = y \<and> push_bit 6 (mask8 (ucast (trail_byte y))) AND 0xfff = push_bit 6 y \<and>
    push_bit 12 (mask8 (ucast (trail_byte y))) AND 0x3ffff = push_bit 12 y"
proof (rule below_cases [where k = 64 and w = y])
  show "unat y < 64" using assms by (simp add: word_less_nat_alt)
  show "\<forall>n\<in>{0..<64}. isTrail (ucast (trail_byte (of_nat n))) \<and> ucast (trail_byte (of_nat n)) AND 0x3f = (of_nat n :: uchar) \<and>
      push_bit 6 (mask8 (ucast (trail_byte (of_nat n)))) AND 0xfff = push_bit 6 (of_nat n :: uchar) \<and>
      push_bit 12 (mask8 (ucast (trail_byte (of_nat n)))) AND 0x3ffff = push_bit 12 (of_nat n :: uchar)"
    by (simp add: atLeastLessThan_nat_numeral isTrail_def trail_byte_def mask8_def)
qed

definition lead_byte :: "uchar \<Rightarrow> uchar \<Rightarrow> byte" where
  "lead_byte tag x = ucast (x OR tag)"

lemma lead_table:
  "x < 0x20 \<Longrightarrow> sequenceLength (ucast (lead_byte 0xc0 x)) = 2 \<and> push_bit 6 (mask8 (ucast (lead_byte 0xc0 x))) AND 0x7ff = push_bit 6 x"
  "x < 0x10 \<Longrightarrow> sequenceLength (ucast (lead_byte 0xe0 x)) = 3 \<and> push_bit 12 (mask8 (ucast (lead_byte 0xe0 x))) AND 0xffff = push_bit 12 x"
  "x < 0x08 \<Longrightarrow> sequenceLength (ucast (lead_byte 0xf0 x)) = 4 \<and> push_bit 18 (mask8 (ucast (lead_byte 0xf0 x))) AND 0x1fffff = push_bit 18 x"
  "x < 0x80 \<Longrightarrow> sequenceLength (ucast (ucast x :: byte)) = 1 \<and> mask8 (ucast (ucast x :: byte)) = x"
proof -
  show "x < 0x20 \<Longrightarrow> sequenceLength (ucast (lead_byte 0xc0 x)) = 2 \<and> push_bit 6 (mask8 (ucast (lead_byte 0xc0 x))) AND 0x7ff = push_bit 6 x"
    by (rule below_cases [where k = 32 and w = x])
      (simp_all add: atLeastLessThan_nat_numeral sequenceLength_def lead_byte_def mask8_def word_less_nat_alt)
  show "x < 0x10 \<Longrightarrow> sequenceLength (ucast (lead_byte 0xe0 x)) = 3 \<and> push_bit 12 (mask8 (ucast (lead_byte 0xe0 x))) AND 0xffff = push_bit 12 x"
    by (rule below_cases [where k = 16 and w = x])
      (simp_all add: atLeastLessThan_nat_numeral sequenceLength_def lead_byte_def mask8_def word_less_nat_alt)
  show "x < 0x08 \<Longrightarrow> sequenceLength (ucast (lead_byte 0xf0 x)) = 4 \<and> push_bit 18 (mask8 (ucast (lead_byte 0xf0 x))) AND 0x1fffff = push_bit 18 x"
    by (rule below_cases [where k = 8 and w = x])
      (simp_all add: atLeastLessThan_nat_numeral sequenceLength_def lead_byte_def mask8_def word_less_nat_alt)
  show "x < 0x80 \<Longrightarrow> sequenceLength (ucast (ucast x :: byte)) = 1 \<and> mask8 (ucast (ucast x :: byte)) = x"
    by (rule below_cases [where k = 128 and w = x])
      (simp_all add: atLeastLessThan_nat_numeral sequenceLength_def mask8_def word_less_nat_alt)
qed

text \<open>The other way round: what a byte that passes the tests of the decoder is.\<close>

lemma mask8_byte: "mask8 (ucast b) = ucast b" for b :: byte
  unfolding mask8_def mask6 by (rule bit_word_eqI) (use bit_imp_le_length [of b] in \<open>auto simp: bit_simps\<close>)

lemma byte_top:
  fixes b :: byte
  shows "drop_bit 5 (mask8 (ucast b)) = 0x6 \<Longrightarrow> bit b 7 \<and> bit b 6 \<and> \<not> bit b 5"
    "drop_bit 4 (mask8 (ucast b)) = 0xe \<Longrightarrow> bit b 7 \<and> bit b 6 \<and> bit b 5 \<and> \<not> bit b 4"
    "drop_bit 3 (mask8 (ucast b)) = 0x1e \<Longrightarrow> bit b 7 \<and> bit b 6 \<and> bit b 5 \<and> bit b 4 \<and> \<not> bit b 3"
    "drop_bit 6 (mask8 (ucast b)) = 2 \<Longrightarrow> bit b 7 \<and> \<not> bit b 6"
proof -
  note m = mask8_byte [of b]
  have d: "drop_bit n (mask8 (ucast b)) = w \<Longrightarrow> bit b (n + j) \<longleftrightarrow> bit w j" if "n + j < 8" for n j w
    unfolding m using that by (auto simp: bit_simps)
  show "drop_bit 5 (mask8 (ucast b)) = 0x6 \<Longrightarrow> bit b 7 \<and> bit b 6 \<and> \<not> bit b 5"
    using d [of 5 0] d [of 5 1] d [of 5 2] by (simp add: bit_simps)
  show "drop_bit 4 (mask8 (ucast b)) = 0xe \<Longrightarrow> bit b 7 \<and> bit b 6 \<and> bit b 5 \<and> \<not> bit b 4"
    using d [of 4 0] d [of 4 1] d [of 4 2] d [of 4 3] by (simp add: bit_simps)
  show "drop_bit 3 (mask8 (ucast b)) = 0x1e \<Longrightarrow> bit b 7 \<and> bit b 6 \<and> bit b 5 \<and> bit b 4 \<and> \<not> bit b 3"
    using d [of 3 0] d [of 3 1] d [of 3 2] d [of 3 3] d [of 3 4] by (simp add: bit_simps)
  show "drop_bit 6 (mask8 (ucast b)) = 2 \<Longrightarrow> bit b 7 \<and> \<not> bit b 6"
    using d [of 6 0] d [of 6 1] by (simp add: bit_simps)
qed

lemma byte_eqI: "(\<And>j. j \<in> {0, 1, 2, 3, 4, 5, 6, 7} \<Longrightarrow> bit a j = bit b j) \<Longrightarrow> a = b" for a b :: byte
  by (rule bit_word_eqI) (auto simp: numeral_eq_Suc less_Suc_eq)

lemma byte_table:
  fixes b :: byte
  shows "sequenceLength (ucast b) = 1 \<Longrightarrow> ucast b < (0x80 :: uchar) \<and> ucast (ucast b :: uchar) = b"
    "sequenceLength (ucast b) = 2 \<Longrightarrow> lead_byte 0xc0 (ucast b AND 0x1f) = b"
    "sequenceLength (ucast b) = 3 \<Longrightarrow> lead_byte 0xe0 (ucast b AND 0xf) = b"
    "sequenceLength (ucast b) = 4 \<Longrightarrow> lead_byte 0xf0 (ucast b AND 0x7) = b"
    "isTrail (ucast b) \<Longrightarrow> trail_byte (ucast b AND 0x3f) = b"
proof -
  note m = mask8_byte [of b]
  show "ucast b < (0x80 :: uchar) \<and> ucast (ucast b :: uchar) = b" if "sequenceLength (ucast b) = 1"
  proof
    show "ucast b < (0x80 :: uchar)" using that by (simp add: sequenceLength_def Let_def m split: if_splits)
    show "ucast (ucast b :: uchar) = b" by (rule byte_eqI) (auto simp: bit_simps)
  qed
  show "lead_byte 0xc0 (ucast b AND 0x1f) = b" if "sequenceLength (ucast b) = 2"
  proof (rule byte_eqI)
    have t: "bit b 7 \<and> bit b 6 \<and> \<not> bit b 5" using that byte_top(1) [of b] by (simp add: sequenceLength_def Let_def split: if_splits)
    show "j \<in> {0, 1, 2, 3, 4, 5, 6, 7} \<Longrightarrow> bit (lead_byte 0xc0 (ucast b AND 0x1f)) j = bit b j" for j
      using t by (auto simp: lead_byte_def bit_simps)
  qed
  show "lead_byte 0xe0 (ucast b AND 0xf) = b" if "sequenceLength (ucast b) = 3"
  proof (rule byte_eqI)
    have t: "bit b 7 \<and> bit b 6 \<and> bit b 5 \<and> \<not> bit b 4" using that byte_top(2) [of b] by (simp add: sequenceLength_def Let_def split: if_splits)
    show "j \<in> {0, 1, 2, 3, 4, 5, 6, 7} \<Longrightarrow> bit (lead_byte 0xe0 (ucast b AND 0xf)) j = bit b j" for j
      using t by (auto simp: lead_byte_def bit_simps)
  qed
  show "lead_byte 0xf0 (ucast b AND 0x7) = b" if "sequenceLength (ucast b) = 4"
  proof (rule byte_eqI)
    have t: "bit b 7 \<and> bit b 6 \<and> bit b 5 \<and> bit b 4 \<and> \<not> bit b 3" using that byte_top(3) [of b] by (simp add: sequenceLength_def Let_def split: if_splits)
    show "j \<in> {0, 1, 2, 3, 4, 5, 6, 7} \<Longrightarrow> bit (lead_byte 0xf0 (ucast b AND 0x7)) j = bit b j" for j
      using t by (auto simp: lead_byte_def bit_simps)
  qed
  show "trail_byte (ucast b AND 0x3f) = b" if "isTrail (ucast b)"
  proof (rule byte_eqI)
    have t: "bit b 7 \<and> \<not> bit b 6" using that byte_top(4) [of b] by (simp add: isTrail_def)
    show "j \<in> {0, 1, 2, 3, 4, 5, 6, 7} \<Longrightarrow> bit (trail_byte (ucast b AND 0x3f)) j = bit b j" for j
      using t by (auto simp: trail_byte_def bit_simps)
  qed
qed

subsection \<open>One code point\<close>

text \<open>The four lengths, in terms of the value of the lead byte and of the trail bytes.\<close>

lemma getSequence_2:
  "x < 0x20 \<Longrightarrow> y < 0x40 \<Longrightarrow> getSequence (ucast (lead_byte 0xc0 x)) 2 (trail_byte y # r) = Some (push_bit 6 x + y, r)"
  using lead_table(1) [of x] trail_table [of y] by (simp add: getSequence_def)

lemma getSequence_3:
  "x < 0x10 \<Longrightarrow> y < 0x40 \<Longrightarrow> z < 0x40 \<Longrightarrow> getSequence (ucast (lead_byte 0xe0 x)) 3 (trail_byte y # trail_byte z # r) =
    Some (push_bit 6 (push_bit 6 x + y) + z, r)"
  using lead_table(2) [of x] trail_table [of y] trail_table [of z] by (simp add: getSequence_def push_bit_add)

lemma getSequence_4:
  "x < 0x08 \<Longrightarrow> y < 0x40 \<Longrightarrow> z < 0x40 \<Longrightarrow> u < 0x40 \<Longrightarrow>
    getSequence (ucast (lead_byte 0xf0 x)) 4 (trail_byte y # trail_byte z # trail_byte u # r) =
    Some (push_bit 6 (push_bit 6 (push_bit 6 x + y) + z) + u, r)"
  using lead_table(3) [of x] trail_table [of y] trail_table [of z] trail_table [of u] by (simp add: getSequence_def push_bit_add add.assoc)

lemma trail_byte_mask: "trail_byte (w AND 0x3f) = trail_byte w"
  by (simp add: trail_byte_def and.assoc)

lemma appendChar_cases:
  "cp < 0x80 \<Longrightarrow> appendChar cp = [ucast cp]"
  "0x80 \<le> cp \<Longrightarrow> cp < 0x800 \<Longrightarrow> appendChar cp = [lead_byte 0xc0 (drop_bit 6 cp), trail_byte (cp AND 0x3f)]"
  "0x800 \<le> cp \<Longrightarrow> cp < 0x10000 \<Longrightarrow> appendChar cp =
     [lead_byte 0xe0 (drop_bit 6 (drop_bit 6 cp)), trail_byte (drop_bit 6 cp AND 0x3f), trail_byte (cp AND 0x3f)]"
  "0x10000 \<le> cp \<Longrightarrow> appendChar cp =
     [lead_byte 0xf0 (drop_bit 6 (drop_bit 6 (drop_bit 6 cp))), trail_byte (drop_bit 6 (drop_bit 6 cp) AND 0x3f),
      trail_byte (drop_bit 6 cp AND 0x3f), trail_byte (cp AND 0x3f)]"
proof -
  show "cp < 0x80 \<Longrightarrow> appendChar cp = [ucast cp]" by (simp add: appendChar_def)
  show "appendChar cp = [lead_byte 0xc0 (drop_bit 6 cp), trail_byte (cp AND 0x3f)]" if "0x80 \<le> cp" "cp < 0x800"
    using that by (simp add: appendChar_def lead_byte_def trail_byte_def and.assoc not_less)
  show "appendChar cp = [lead_byte 0xe0 (drop_bit 6 (drop_bit 6 cp)), trail_byte (drop_bit 6 cp AND 0x3f), trail_byte (cp AND 0x3f)]"
    if "0x800 \<le> cp" "cp < 0x10000"
  proof -
    have "\<not> cp < 0x80" "\<not> cp < 0x800" using that by (auto simp: word_less_nat_alt word_le_nat_alt)
    then show ?thesis using that by (simp add: appendChar_def lead_byte_def trail_byte_def and.assoc)
  qed
  show "appendChar cp = [lead_byte 0xf0 (drop_bit 6 (drop_bit 6 (drop_bit 6 cp))), trail_byte (drop_bit 6 (drop_bit 6 cp) AND 0x3f),
      trail_byte (drop_bit 6 cp AND 0x3f), trail_byte (cp AND 0x3f)]" if "0x10000 \<le> cp"
  proof -
    have "\<not> cp < 0x80" "\<not> cp < 0x800" "\<not> cp < 0x10000" using that by (auto simp: word_less_nat_alt word_le_nat_alt)
    then show ?thesis by (simp add: appendChar_def lead_byte_def trail_byte_def and.assoc)
  qed
qed

lemma six_bound: "w AND 0x3f < 0x40" for w :: uchar
proof -
  have "unat (w AND mask 6) < 2 ^ 6" by (metis (no_types) take_bit_eq_mask unsigned_take_bit_eq take_bit_nat_less_exp)
  then show ?thesis by (simp add: word_less_nat_alt mask6)
qed

lemma unat_drop6: "unat (drop_bit 6 w) = unat w div 64" for w :: uchar
proof -
  have "unat (drop_bit 6 w) = drop_bit 6 (unat w)" by (rule unat_drop_bit_eq)
  then show ?thesis by (simp add: drop_bit_eq_div)
qed

lemma drop6_bounds:
  fixes cp :: uchar
  shows "cp < 0x800 \<Longrightarrow> drop_bit 6 cp < 0x20" "cp < 0x10000 \<Longrightarrow> drop_bit 6 (drop_bit 6 cp) < 0x10"
    "cp \<le> CODE_POINT_MAX \<Longrightarrow> drop_bit 6 (drop_bit 6 (drop_bit 6 cp)) < 0x8"
  by (simp_all add: word_less_nat_alt word_le_nat_alt unat_drop6 CODE_POINT_MAX_def del: drop_bit_drop_bit)

lemma sequence_lead:
  "x < 0x20 \<Longrightarrow> sequenceLength (ucast (lead_byte 0xc0 x)) = 2" "x < 0x10 \<Longrightarrow> sequenceLength (ucast (lead_byte 0xe0 x)) = 3"
  "x < 0x08 \<Longrightarrow> sequenceLength (ucast (lead_byte 0xf0 x)) = 4"
  by (simp_all add: lead_table)

lemma decode_char:
  assumes "isValidCodePoint cp"
  shows "\<exists>b bs. appendChar cp = b # bs \<and> (\<forall>r. isValidNext (ucast b) (bs @ r) = Some (cp, r))"
proof -
  have max: "cp \<le> CODE_POINT_MAX" using assms by (simp add: isValidCodePoint_def)
  consider "cp < 0x80" | "0x80 \<le> cp" "cp < 0x800" | "0x800 \<le> cp" "cp < 0x10000" | "0x10000 \<le> cp" by fastforce
  then show ?thesis
  proof cases
    case 1
    then show ?thesis using assms lead_table(4) [OF 1]
      by (simp add: appendChar_cases(1) isValidNext_def getSequence_def Let_def isOverlongSequence_def)
  next
    case 2
    then have "getSequence (ucast (lead_byte 0xc0 (drop_bit 6 cp))) 2 (trail_byte (cp AND 0x3f) # r) = Some (cp, r)" for r
      using getSequence_2 [OF drop6_bounds(1) six_bound] by (simp add: six_split)
    then show ?thesis using 2 assms sequence_lead(1) [OF drop6_bounds(1)] 
      by (simp add: appendChar_cases(2) isValidNext_def Let_def isOverlongSequence_def not_less)
  next
    case 3
    then have "getSequence (ucast (lead_byte 0xe0 (drop_bit 6 (drop_bit 6 cp)))) 3
        (trail_byte (drop_bit 6 cp AND 0x3f) # trail_byte (cp AND 0x3f) # r) = Some (cp, r)" for r
      using getSequence_3 [OF drop6_bounds(2) six_bound six_bound] by (simp add: six_split del: drop_bit_drop_bit)
    moreover have "\<not> cp < 0x80" "\<not> cp < 0x800" using 3 by (auto simp: word_less_nat_alt word_le_nat_alt)
    ultimately show ?thesis using 3 assms sequence_lead(2) [OF drop6_bounds(2)]
      by (simp add: appendChar_cases(3) isValidNext_def Let_def isOverlongSequence_def del: drop_bit_drop_bit)
  next
    case 4
    have "getSequence (ucast (lead_byte 0xf0 (drop_bit 6 (drop_bit 6 (drop_bit 6 cp))))) 4
        (trail_byte (drop_bit 6 (drop_bit 6 cp) AND 0x3f) # trail_byte (drop_bit 6 cp AND 0x3f) # trail_byte (cp AND 0x3f) # r) = Some (cp, r)" for r
      using getSequence_4 [OF drop6_bounds(3) [OF max] six_bound six_bound six_bound] by (simp add: six_split del: drop_bit_drop_bit)
    moreover have "\<not> cp < 0x80" "\<not> cp < 0x800" "\<not> cp < 0x10000" using 4 by (auto simp: word_less_nat_alt word_le_nat_alt)
    ultimately show ?thesis using 4 assms sequence_lead(3) [OF drop6_bounds(3) [OF max]]
      by (simp add: appendChar_cases(4) isValidNext_def Let_def isOverlongSequence_def del: drop_bit_drop_bit)
  qed
qed

lemma low_bounds:
  fixes b :: byte
  shows "ucast b AND 0x1f < (0x20 :: uchar)" "ucast b AND 0xf < (0x10 :: uchar)" "ucast b AND 0x7 < (0x8 :: uchar)"
    "ucast b AND 0x3f < (0x40 :: uchar)"
proof -
  have "unat (w AND mask k) < 2 ^ k" for w :: uchar and k
    by (metis (no_types) take_bit_eq_mask unsigned_take_bit_eq take_bit_nat_less_exp)
  from this [of "ucast b" 5] this [of "ucast b" 4] this [of "ucast b" 3] this [of "ucast b" 6]
  show "ucast b AND 0x1f < (0x20 :: uchar)" "ucast b AND 0xf < (0x10 :: uchar)" "ucast b AND 0x7 < (0x8 :: uchar)"
    "ucast b AND 0x3f < (0x40 :: uchar)"
    by (simp_all add: word_less_nat_alt mask_eq_exp_minus_1)
qed

lemma next_trailE:
  assumes "next_trail bs = Some (n, cs)"
  obtains y where "y < 0x40" "bs = trail_byte y # cs"
proof (cases bs)
  case (Cons b bs')
  then have "isTrail (ucast b)" "bs' = cs" using assms by (auto split: if_splits)
  then show ?thesis using that [of "ucast b AND 0x3f"] byte_table(5) [of b] low_bounds(4) [of b] Cons by simp
qed (use assms in simp)

text \<open>What the decoder accepts is what the encoder writes.\<close>

lemma decode_only:
  assumes "isValidNext (ucast b) bs = Some (cp, r)"
  shows "isValidCodePoint cp \<and> b # bs = appendChar cp @ r"
proof -
  define len where "len = sequenceLength (ucast b)"
  have seq: "getSequence (ucast b) len bs = Some (cp, r)" "isValidCodePoint cp" "\<not> isOverlongSequence cp len" "len \<in> {1, 2, 3, 4}"
    using assms by (auto simp: isValidNext_def Let_def len_def split: if_splits option.splits)
  consider "len = 1" | "len = 2" | "len = 3" | "len = 4" using seq(4) by auto
  then have "b # bs = appendChar cp @ r"
  proof cases
    case 1
    then have b: "ucast b < (0x80 :: uchar)" "ucast (ucast b :: uchar) = b" using byte_table(1) [of b] by (auto simp: len_def)
    then show ?thesis using seq(1) 1 by (auto simp: getSequence_def mask8_byte appendChar_cases(1))
  next
    case 2
    define x where "x = (ucast b AND 0x1f :: uchar)"
    have b: "b = lead_byte 0xc0 x" "x < 0x20" using 2 byte_table(2) [of b] low_bounds(1) [of b] by (simp_all add: len_def x_def)
    obtain n where "next_trail bs = Some (n, r)" using seq(1) 2 by (auto simp: getSequence_def Let_def split: option.splits)
    then obtain y where y: "y < 0x40" "bs = trail_byte y # r" by (rule next_trailE)
    have cp: "cp = push_bit 6 x + y" using seq(1) getSequence_2 [OF b(2) y(1)] unfolding 2 y(2) b(1) by simp
    have x: "x < 2 ^ 26" using b(2) by (simp add: word_less_nat_alt)
    have d: "drop_bit 6 cp = x" "cp AND 0x3f = y" using six_join [OF x y(1)] cp by simp_all
    have "cp < 0x800" using b(2) unat_drop6 [of cp] unfolding d by (simp add: word_less_nat_alt)
    moreover have "0x80 \<le> cp" using seq(3) unfolding 2 by (auto simp: isOverlongSequence_def not_less split: if_splits)
    ultimately show ?thesis using d y(2) b(1) by (simp add: appendChar_cases(2))
  next
    case 3
    define x where "x = (ucast b AND 0xf :: uchar)"
    have b: "b = lead_byte 0xe0 x" "x < 0x10" using 3 byte_table(3) [of b] low_bounds(2) [of b] by (simp_all add: len_def x_def)
    obtain n cs n' where "next_trail bs = Some (n, cs)" "next_trail cs = Some (n', r)"
      using seq(1) 3 by (auto simp: getSequence_def Let_def split: option.splits)
    then obtain y z where y: "y < 0x40" "z < 0x40" "bs = trail_byte y # trail_byte z # r" by (metis next_trailE)
    have cp: "cp = push_bit 6 (push_bit 6 x + y) + z" using seq(1) getSequence_3 [OF b(2) y(1,2)] unfolding 3 y(3) b(1) by simp
    have x: "x < 2 ^ 26" using b(2) by (simp add: word_less_nat_alt)
    note j = six_join [OF x y(1)]
    have v: "push_bit 6 x + y < 2 ^ 26" using b(2) unat_drop6 [of "push_bit 6 x + y"] unfolding j by (simp add: word_less_nat_alt)
    have d: "drop_bit 6 cp = push_bit 6 x + y" "cp AND 0x3f = z" using six_join [OF v y(2)] cp by simp_all
    have "cp < 0x10000" using b(2) unat_drop6 [of "push_bit 6 x + y"] unat_drop6 [of cp] unfolding d j by (simp add: word_less_nat_alt)
    moreover have "0x800 \<le> cp" using seq(3) unfolding 3 by (auto simp: isOverlongSequence_def not_less split: if_splits)
    ultimately show ?thesis using d j y(3) b(1) by (simp add: appendChar_cases(3) del: drop_bit_drop_bit)
  next
    case 4
    define x where "x = (ucast b AND 0x7 :: uchar)"
    have b: "b = lead_byte 0xf0 x" "x < 0x8" using 4 byte_table(4) [of b] low_bounds(3) [of b] by (simp_all add: len_def x_def)
    obtain n cs n' ds n'' where "next_trail bs = Some (n, cs)" "next_trail cs = Some (n', ds)" "next_trail ds = Some (n'', r)"
      using seq(1) 4 by (auto simp: getSequence_def Let_def split: option.splits)
    then obtain y z u where y: "y < 0x40" "z < 0x40" "u < 0x40" "bs = trail_byte y # trail_byte z # trail_byte u # r" by (metis next_trailE)
    have cp: "cp = push_bit 6 (push_bit 6 (push_bit 6 x + y) + z) + u"
      using seq(1) getSequence_4 [OF b(2) y(1,2,3)] unfolding 4 y(4) b(1) by simp
    have x: "x < 2 ^ 26" using b(2) by (simp add: word_less_nat_alt)
    note j = six_join [OF x y(1)]
    have v: "push_bit 6 x + y < 2 ^ 26" using b(2) unat_drop6 [of "push_bit 6 x + y"] unfolding j by (simp add: word_less_nat_alt)
    note k = six_join [OF v y(2)]
    have w: "push_bit 6 (push_bit 6 x + y) + z < 2 ^ 26"
      using b(2) unat_drop6 [of "push_bit 6 x + y"] unat_drop6 [of "push_bit 6 (push_bit 6 x + y) + z"] unfolding j k by (simp add: word_less_nat_alt)
    have d: "drop_bit 6 cp = push_bit 6 (push_bit 6 x + y) + z" "cp AND 0x3f = u" using six_join [OF w y(3)] cp by simp_all
    have "0x10000 \<le> cp" using seq(3) unfolding 4 by (auto simp: isOverlongSequence_def not_less split: if_splits)
    then show ?thesis using d j k y(4) b(1) by (simp add: appendChar_cases(4) del: drop_bit_drop_bit)
  qed
  then show ?thesis using seq(2) by blast
qed

subsection \<open>Whole strings\<close>

definition text_ok :: "uchar list \<Rightarrow> bool" where
  "text_ok s \<longleftrightarrow> (\<forall>c\<in>set s. isValidCodePoint c \<and> c \<noteq> UNICODE_TERMINATOR)"

definition utf8_bytes :: "uchar list \<Rightarrow> byte list" where
  "utf8_bytes s = concat (map appendChar s)"

lemma length_appendChar: "1 \<le> length (appendChar c)" "length (appendChar c) \<le> 4"
  by (simp_all add: appendChar_def)

lemma length_utf8_bytes: "length s \<le> length (utf8_bytes s)" "length (utf8_bytes s) \<le> 4 * length s"
proof (induction s)
  case (Cons c s)
  { case 1 show ?case using Cons(1) length_appendChar(1) [of c] by (simp add: utf8_bytes_def) }
  { case 2 show ?case using Cons(2) length_appendChar(2) [of c] by (simp add: utf8_bytes_def) }
qed (simp_all add: utf8_bytes_def)

lemma utf8_bytes_Nil [simp]: "utf8_bytes s = [] \<longleftrightarrow> s = []"
proof -
  have "appendChar c \<noteq> []" for c using length_appendChar(1) [of c] by auto
  then show ?thesis by (cases s) (auto simp: utf8_bytes_def)
qed

lemma utf32to8_bytes:
  "text_ok s \<Longrightarrow> length out + 4 * length s \<le> cap \<Longrightarrow> utf32to8 cap s out = conv_end (out @ utf8_bytes s)"
proof (induction s arbitrary: out)
  case (Cons c s)
  have l: "1 \<le> length (appendChar c)" "length (appendChar c) \<le> 4" by (rule length_appendChar)+
  show ?case
  proof (cases "cap \<le> length out + length (appendChar c)")
    case True
    then have "s = []" using Cons.prems(2) l by (cases s) auto
    moreover have "appendChar c \<noteq> []" using l(1) by auto
    ultimately show ?thesis using True Cons.prems l by (simp add: text_ok_def conv_end_def utf8_bytes_def Let_def)
  next
    case False
    then show ?thesis using Cons.IH [of "out @ appendChar c"] Cons.prems l by (simp add: text_ok_def utf8_bytes_def Let_def)
  qed
qed (simp add: utf8_bytes_def)

text \<open>A text for which the size of the buffer is an \<^verbatim>\<open>int32_t\<close>.\<close>

definition string_ok :: "uchar list \<Rightarrow> bool" where
  "string_ok s \<longleftrightarrow> text_ok s \<and> 4 * length s < 2 ^ 31"

lemma utf8_capacity:
  "4 * length s < 2 ^ 31 \<Longrightarrow> new_size (trunc32 (int (length s) * int MAX_ENCODING_UTF8_SIZE)) = Inr (length s * MAX_ENCODING_UTF8_SIZE)"
  using trunc32_of_nat [of "length s * MAX_ENCODING_UTF8_SIZE"] by (simp add: MAX_ENCODING_UTF8_SIZE_def new_size_def)

lemma toUTF8_bytes: "string_ok s \<Longrightarrow> toUTF8 s = Inr (utf8_bytes s)"
proof -
  assume "string_ok s"
  then have s: "text_ok s" "4 * length s < 2 ^ 31" by (simp_all add: string_ok_def)
  have "utf32to8 (length s * MAX_ENCODING_UTF8_SIZE) s [] = conv_end (utf8_bytes s)"
    using utf32to8_bytes [OF s(1), of "[]" "length s * MAX_ENCODING_UTF8_SIZE"] by (simp add: MAX_ENCODING_UTF8_SIZE_def)
  then show ?thesis by (simp add: toUTF8_def utf8_capacity [OF s(2)] conv_end_def conv_count_def utf8_bytes_def)
qed

lemma utf8to32_text:
  "\<forall>c\<in>set s. isValidCodePoint c \<Longrightarrow> length out + length (utf8_bytes s) \<le> cap \<Longrightarrow>
   utf8to32 cap (utf8_bytes s) out = conv_end (out @ s)"
proof (induction s arbitrary: out)
  case (Cons c s)
  obtain b bs where b: "appendChar c = b # bs" "\<And>r. isValidNext (ucast b) (bs @ r) = Some (c, r)"
    using decode_char [of c] Cons.prems(1) by auto
  have e: "utf8_bytes (c # s) = b # (bs @ utf8_bytes s)" using b(1) by (simp add: utf8_bytes_def)
  show ?case
  proof (cases "cap \<le> length out + 1")
    case True
    moreover have "length out + 1 + length bs + length (utf8_bytes s) \<le> cap" using Cons.prems(2) unfolding e by simp
    ultimately have "length (utf8_bytes s) = 0" by linarith
    then have "s = []" by simp
    then show ?thesis using True Cons.prems(2) unfolding e by (simp add: b(2) conv_end_def)
  next
    case False
    then show ?thesis using Cons.IH [of "out @ [c]"] Cons.prems unfolding e by (simp add: b(2))
  qed
qed (simp add: utf8_bytes_def)

lemma toUnicode_text: "\<forall>c\<in>set s. isValidCodePoint c \<Longrightarrow> toUnicode (utf8_bytes s) = Inr s"
proof -
  assume s: "\<forall>c\<in>set s. isValidCodePoint c"
  show ?thesis using utf8to32_text [OF s, of "[]" "length (utf8_bytes s)"] by (simp add: toUnicode_def conv_end_def conv_count_def)
qed

lemma utf8to32_only:
  "length out + length bs \<le> cap \<Longrightarrow> \<exists>n out'. utf8to32 cap bs out = Inr (n, out') \<and>
     (n = 0 \<or> (\<exists>s. out' = out @ s \<and> bs = utf8_bytes s \<and> (\<forall>c\<in>set s. isValidCodePoint c) \<and> n = (if out' = [] then -1 else int (length out'))))"
proof (induction "length bs" arbitrary: bs out rule: less_induct)
  case less
  show ?case
  proof (cases bs)
    case Nil
    then show ?thesis by (auto simp: conv_end_def utf8_bytes_def intro: exI [of _ "[]"])
  next
    case (Cons b bs')
    show ?thesis
    proof (cases "isValidNext (ucast b) bs'")
      case (Some p)
      then obtain c r where p: "isValidNext (ucast b) bs' = Some (c, r)" by (cases p) auto
      note d = decode_only [OF p]
      have r: "length r \<le> length bs'" by (rule isValidNext_length [OF p])
      show ?thesis
      proof (cases "cap \<le> length out + 1")
        case True
        moreover have "length out + 1 + length bs' \<le> cap" using less.prems Cons by simp
        ultimately have "length bs' = 0" by linarith
        then have "bs' = []" "r = []" using r by auto
        have "utf8to32 cap bs out = Inr (int (length (out @ [c])), out @ [c])" using True less.prems p Cons by auto
        moreover have "bs = utf8_bytes [c]" using d Cons \<open>r = []\<close> by (simp add: utf8_bytes_def)
        moreover have "\<forall>c\<in>set [c]. isValidCodePoint c" using d by simp
        ultimately show ?thesis by (metis Nil_is_append_conv list.distinct(1))
      next
        case False
        have "length r < length bs" "length (out @ [c]) + length r \<le> cap" using r less.prems Cons by auto
        from less.hyps [OF this] obtain n out' where o: "utf8to32 cap r (out @ [c]) = Inr (n, out')"
          "n = 0 \<or> (\<exists>s. out' = (out @ [c]) @ s \<and> r = utf8_bytes s \<and> (\<forall>c\<in>set s. isValidCodePoint c) \<and> n = (if out' = [] then -1 else int (length out')))"
          by blast
        have "utf8to32 cap bs out = Inr (n, out')" using o(1) False p Cons by simp
        moreover have "bs = utf8_bytes (c # s)" if "r = utf8_bytes s" for s using d Cons that by (simp add: utf8_bytes_def)
        ultimately show ?thesis using o(2) d by (metis append_Cons append_Nil append_assoc set_ConsD)
      qed
    qed (simp add: Cons)
  qed
qed

lemma toUnicode_only: "\<exists>s. toUnicode bs = Inr s \<and> (s = [] \<or> bs = utf8_bytes s \<and> (\<forall>c\<in>set s. isValidCodePoint c))"
  using utf8to32_only [of "[]" bs "length bs"] by (auto simp: toUnicode_def conv_count_def)

lemma utf32to8_invalid:
  "text_ok s \<Longrightarrow> \<not> isValidCodePoint c \<Longrightarrow> length out + 4 * length s < cap \<Longrightarrow> \<exists>out'. utf32to8 cap (s @ c # r) out = Inr (0, out')"
proof (induction s arbitrary: out)
  case Nil
  have "isValidCodePoint UNICODE_TERMINATOR" by (simp add: isValidCodePoint_def isSurrogate_def utf_consts)
  then show ?case using Nil.prems(2) by auto
next
  case (Cons a s)
  have l: "length (out @ appendChar a) + 4 * length s < cap" using Cons.prems(3) length_appendChar(2) [of a] by simp
  then have "\<not> cap \<le> length (out @ appendChar a)" by linarith
  then show ?case using Cons.IH [OF _ Cons.prems(2) l] Cons.prems(1) by (simp add: text_ok_def Let_def)
qed

subsection \<open>Strings in a stream\<close>

text \<open>What a stream promises beyond single bytes: the virtual \<^verbatim>\<open>writeBytes\<close> and
  \<^verbatim>\<open>readBytes\<close> move the same bytes.\<close>

locale bulk_sink = byte_sink wb inv written for wb :: "'s writer" and inv written +
  fixes wbs :: "byte list \<Rightarrow> 's \<Rightarrow> 's result"
  assumes puts_bytes: "puts (wbs bs) bs"

locale bulk_source = byte_source rb inv left for rb :: "'s reader" and inv left +
  fixes rbs :: "nat \<Rightarrow> 's \<Rightarrow> (byte list \<times> 's) result"
  assumes gets_bytes: "gets (rbs (length bs)) bs bs"

definition writeString :: "'s writer \<Rightarrow> (byte list \<Rightarrow> 's \<Rightarrow> 's result) \<Rightarrow> uchar list \<Rightarrow> 's \<Rightarrow> 's result" where
  "writeString wb wbs text s =
     bind_r (toUTF8 text) (\<lambda>bs. bind_r (writeVInt wb (of_nat (length bs)) s) (\<lambda>s. wbs bs s))"

definition readString_new :: "'s reader \<Rightarrow> (nat \<Rightarrow> 's \<Rightarrow> (byte list \<times> 's) result) \<Rightarrow> 's \<Rightarrow> (uchar list \<times> 's) result" where
  "readString_new rb rbs s =
     bind_r (readVInt rb s) (\<lambda>(len, s).
       if sint len < 0 then Inl OutOfRange
       else bind_r (rbs (nat (sint len)) s) (\<lambda>(bs, s). bind_r (toUnicode bs) (\<lambda>text. Inr (text, s))))"

text \<open>The old format: \<^verbatim>\<open>readChars\<close> turns the units read into code points.\<close>

definition readChars :: "'s reader \<Rightarrow> nat \<Rightarrow> 's \<Rightarrow> (uchar list \<times> 's) result" where
  "readChars rb n s =
     bind_r (readUnits rb n s) (\<lambda>(units, s). bind_r (utf16to32 n units []) (\<lambda>r. Inr (conv_count r, s)))"

definition readModifiedUTF8String :: "'s reader \<Rightarrow> 's \<Rightarrow> (uchar list \<times> 's) result" where
  "readModifiedUTF8String rb s =
     bind_r (readVInt rb s) (\<lambda>(len, s). if sint len < 0 then Inl OutOfRange else readChars rb (nat (sint len)) s)"

definition readString :: "bool \<Rightarrow> 's reader \<Rightarrow> (nat \<Rightarrow> 's \<Rightarrow> (byte list \<times> 's) result) \<Rightarrow> 's \<Rightarrow> (uchar list \<times> 's) result" where
  "readString preUTF8Strings rb rbs s = (if preUTF8Strings then readModifiedUTF8String rb s else readString_new rb rbs s)"

text \<open>Maps of strings, in the order in which the map is iterated over; \<open>None\<close> is no map.\<close>

fun writePairs :: "'s writer \<Rightarrow> (byte list \<Rightarrow> 's \<Rightarrow> 's result) \<Rightarrow> (uchar list \<times> uchar list) list \<Rightarrow> 's \<Rightarrow> 's result" where
  "writePairs wb wbs [] s = Inr s"
| "writePairs wb wbs ((k, v) # m) s =
     bind_r (writeString wb wbs k s) (\<lambda>s. bind_r (writeString wb wbs v s) (\<lambda>s. writePairs wb wbs m s))"

definition writeStringStringMap ::
  "'s writer \<Rightarrow> (byte list \<Rightarrow> 's \<Rightarrow> 's result) \<Rightarrow> (uchar list \<times> uchar list) list option \<Rightarrow> 's \<Rightarrow> 's result" where
  "writeStringStringMap wb wbs m s =
     (case m of None \<Rightarrow> writeInt wb 0 s
      | Some kvs \<Rightarrow> bind_r (writeInt wb (of_nat (length kvs)) s) (\<lambda>s. writePairs wb wbs kvs s))"

fun readPairs ::
  "('s \<Rightarrow> (uchar list \<times> 's) result) \<Rightarrow> nat \<Rightarrow> (uchar list \<rightharpoonup> uchar list) \<Rightarrow> 's \<Rightarrow> ((uchar list \<rightharpoonup> uchar list) \<times> 's) result" where
  "readPairs rs 0 m s = Inr (m, s)"
| "readPairs rs (Suc n) m s =
     bind_r (rs s) (\<lambda>(k, s). bind_r (rs s) (\<lambda>(v, s). readPairs rs n (m(k \<mapsto> v)) s))"

definition readStringStringMap ::
  "bool \<Rightarrow> 's reader \<Rightarrow> (nat \<Rightarrow> 's \<Rightarrow> (byte list \<times> 's) result) \<Rightarrow> 's \<Rightarrow> ((uchar list \<rightharpoonup> uchar list) \<times> 's) result" where
  "readStringStringMap pre rb rbs s =
     bind_r (readInt rb s) (\<lambda>(count, s). readPairs (readString pre rb rbs) (nat (sint count)) Map.empty s)"

definition string_wire :: "uchar list \<Rightarrow> byte list" where
  "string_wire s = nat_wire (length (utf8_bytes s)) @ utf8_bytes s"

definition pairs_wire :: "(uchar list \<times> uchar list) list \<Rightarrow> byte list" where
  "pairs_wire kvs = concat (map (\<lambda>(k, v). string_wire k @ string_wire v) kvs)"

definition map_put :: "('k \<rightharpoonup> 'v) \<Rightarrow> 'k \<times> 'v \<Rightarrow> ('k \<rightharpoonup> 'v)" where
  "map_put m p = m(fst p \<mapsto> snd p)"

lemma string_length:
  assumes "string_ok s"
  shows "unat (of_nat (length (utf8_bytes s)) :: int32) = length (utf8_bytes s)"
    "sint (of_nat (length (utf8_bytes s)) :: int32) = int (length (utf8_bytes s))"
proof -
  have l: "length (utf8_bytes s) < 2 ^ 31" using assms length_utf8_bytes(2) [of s] by (simp add: string_ok_def)
  then show u: "unat (of_nat (length (utf8_bytes s)) :: int32) = length (utf8_bytes s)" by (simp add: unat_of_nat)
  show "sint (of_nat (length (utf8_bytes s)) :: int32) = int (length (utf8_bytes s))"
    using l by (simp add: signed_of_nat signed_take_bit_int_eq_self)
qed

context bulk_sink begin

lemma puts_string: "string_ok s \<Longrightarrow> puts (writeString wb wbs s) (string_wire s)"
proof -
  assume s: "string_ok s"
  then have e: "writeString wb wbs s = (\<lambda>t. bind_r (writeVInt wb (of_nat (length (utf8_bytes s))) t) (\<lambda>t. wbs (utf8_bytes s) t))"
    by (intro ext) (simp add: writeString_def toUTF8_bytes)
  show ?thesis unfolding e string_wire_def
    using puts_bind [OF puts_vint puts_bytes, of "of_nat (length (utf8_bytes s))" "utf8_bytes s"] by (simp add: string_length(1) [OF s])
qed

lemma puts_pairs: "\<forall>(k, v)\<in>set kvs. string_ok k \<and> string_ok v \<Longrightarrow> puts (writePairs wb wbs kvs) (pairs_wire kvs)"
proof (induction kvs)
  case Nil
  have "writePairs wb wbs [] = (\<lambda>s. Inr s)" by (intro ext) simp
  then show ?case by (simp add: puts_return pairs_wire_def)
next
  case (Cons p kvs)
  obtain k v where p: "p = (k, v)" by (cases p)
  have "writePairs wb wbs (p # kvs) =
      (\<lambda>s. bind_r (writeString wb wbs k s) (\<lambda>s. bind_r (writeString wb wbs v s) (\<lambda>s. writePairs wb wbs kvs s)))"
    by (intro ext) (simp add: p)
  then show ?case using Cons puts_bind [OF puts_string puts_bind [OF puts_string], of k v "writePairs wb wbs kvs" "pairs_wire kvs"]
    by (simp add: p pairs_wire_def)
qed

lemma puts_map:
  assumes "\<forall>(k, v)\<in>set kvs. string_ok k \<and> string_ok v"
  shows "puts (writeStringStringMap wb wbs (Some kvs)) (int_wire (of_nat (length kvs)) @ pairs_wire kvs)"
proof -
  have "writeStringStringMap wb wbs (Some kvs) = (\<lambda>s. bind_r (writeInt wb (of_nat (length kvs)) s) (\<lambda>s. writePairs wb wbs kvs s))"
    by (intro ext) (simp add: writeStringStringMap_def)
  then show ?thesis using puts_bind [OF puts_int puts_pairs [OF assms]] by simp
qed

end

context bulk_source begin

lemma gets_string: "string_ok s \<Longrightarrow> gets (readString False rb rbs) (string_wire s) s"
proof -
  assume s: "string_ok s"
  have u: "toUnicode (utf8_bytes s) = Inr s" using s by (intro toUnicode_text) (auto simp: string_ok_def text_ok_def)
  let ?n = "of_nat (length (utf8_bytes s)) :: int32"
  have t: "gets (\<lambda>s. bind_r (toUnicode (utf8_bytes s')) (\<lambda>text. Inr (text, s))) [] s" if "s' = s" for s'
    using that by (simp add: u gets_return)
  have "gets (\<lambda>t. bind_r (rbs (length (utf8_bytes s)) t) (\<lambda>(bs, t). bind_r (toUnicode bs) (\<lambda>text. Inr (text, t)))) (utf8_bytes s @ []) s"
    by (rule gets_bind [OF gets_bytes]) (simp add: u gets_return)
  then have "gets (\<lambda>t. if sint ?n < 0 then Inl OutOfRange
      else bind_r (rbs (nat (sint ?n)) t) (\<lambda>(bs, t). bind_r (toUnicode bs) (\<lambda>text. Inr (text, t)))) (utf8_bytes s) s"
    by (simp add: string_length(2) [OF s])
  from gets_bind [where g = "\<lambda>n t. if sint n < 0 then Inl OutOfRange
      else bind_r (rbs (nat (sint n)) t) (\<lambda>(bs, t). bind_r (toUnicode bs) (\<lambda>text. Inr (text, t)))", OF gets_vint this]
  show ?thesis
    unfolding string_wire_def string_length(1) [OF s] readString_def [abs_def] readString_new_def [abs_def] by simp
qed

lemma gets_pairs:
  "\<forall>(k, v)\<in>set kvs. string_ok k \<and> string_ok v \<Longrightarrow>
   gets (readPairs (readString False rb rbs) (length kvs) m) (pairs_wire kvs) (foldl map_put m kvs)"
proof (induction kvs arbitrary: m)
  case Nil
  have "readPairs (readString False rb rbs) 0 m = (\<lambda>s. Inr (m, s))" by (intro ext) simp
  then show ?case by (simp add: gets_return pairs_wire_def)
next
  case (Cons p kvs)
  obtain k v where p: "p = (k, v)" by (cases p)
  have ok: "string_ok k" "string_ok v" "\<forall>(k, v)\<in>set kvs. string_ok k \<and> string_ok v" using Cons.prems p by auto
  have "gets (\<lambda>s. bind_r (readString False rb rbs s) (\<lambda>(k, s). bind_r (readString False rb rbs s) (\<lambda>(v, s).
      readPairs (readString False rb rbs) (length kvs) (m(k \<mapsto> v)) s)))
      (string_wire k @ string_wire v @ pairs_wire kvs) (foldl map_put (m(k \<mapsto> v)) kvs)"
    by (rule gets_bind [OF gets_string [OF ok(1)]], rule gets_bind [OF gets_string [OF ok(2)] Cons.IH [OF ok(3)]])
  moreover have "readPairs (readString False rb rbs) (length (p # kvs)) m = (\<lambda>s. bind_r (readString False rb rbs s)
      (\<lambda>(k, s). bind_r (readString False rb rbs s) (\<lambda>(v, s). readPairs (readString False rb rbs) (length kvs) (m(k \<mapsto> v)) s)))"
    by (intro ext) simp
  moreover have "pairs_wire (p # kvs) = string_wire k @ string_wire v @ pairs_wire kvs" by (simp add: p pairs_wire_def)
  moreover have "foldl map_put m (p # kvs) = foldl map_put (m(k \<mapsto> v)) kvs"
    by (simp only: p foldl_Cons map_put_def fst_conv snd_conv)
  ultimately show ?case by (simp only:)
qed

lemma gets_string_map:
  assumes "\<forall>(k, v)\<in>set kvs. string_ok k \<and> string_ok v" "length kvs < 2 ^ 31"
  shows "gets (readStringStringMap False rb rbs) (int_wire (of_nat (length kvs)) @ pairs_wire kvs) (foldl map_put Map.empty kvs)"
proof -
  have "sint (of_nat (length kvs) :: int32) = int (length kvs)"
    using assms(2) by (simp add: signed_of_nat signed_take_bit_int_eq_self)
  then have "gets (\<lambda>s. readPairs (readString False rb rbs) (nat (sint (of_nat (length kvs) :: int32))) Map.empty s)
      (pairs_wire kvs) (foldl map_put Map.empty kvs)"
    using gets_pairs [OF assms(1)] by simp
  from gets_bind [where g = "\<lambda>count s. readPairs (readString False rb rbs) (nat (sint count)) Map.empty s", OF gets_int this] show ?thesis unfolding readStringStringMap_def [abs_def] by simp
qed

end

lemma foldl_puts_map_of: "distinct (map fst kvs) \<Longrightarrow> foldl map_put m kvs = m ++ map_of kvs"
proof (induction kvs arbitrary: m)
  case (Cons p kvs)
  obtain k v where p: "p = (k, v)" by (cases p)
  then have "map_of kvs k = None" using Cons.prems by (force simp: map_of_eq_None_iff)
  then have "m(k \<mapsto> v) ++ map_of kvs = m ++ (map_of kvs)(k \<mapsto> v)" by (auto simp: map_add_def fun_eq_iff split: option.splits)
  moreover have "map_put m p = m(k \<mapsto> v)" using p by (simp add: map_put_def)
  moreover have "foldl map_put (map_put m p) kvs = map_put m p ++ map_of kvs" using Cons by simp
  ultimately show ?case unfolding p by (simp only: foldl_Cons map_of.simps fst_conv snd_conv)
qed simp

subsection \<open>The streams of RAM files\<close>

definition ram_writeBytes :: "byte list \<Rightarrow> ram_out \<Rightarrow> ram_out result" where
  "ram_writeBytes bs s = returns (ro_writeBytes bs s)"

definition ram_readBytes :: "nat \<Rightarrow> ram_in \<Rightarrow> (byte list \<times> ram_in) result" where
  "ram_readBytes n s = returns (ri_readBytes n [] s)"

lemma ram_append_bytes:
  "ro_appending s \<Longrightarrow> \<exists>t. ro_writeEach bs s = Inr t \<and> ro_appending t \<and> ro_written t = ro_written s @ bs"
proof (induction bs arbitrary: s)
  case (Cons b bs)
  from ro_append_byte [OF Cons.prems, of b] obtain t where t: "ro_writeByte b s = Inr t" "ro_appending t" "ro_written t = ro_written s @ [b]" by blast
  then show ?case using Cons.IH [OF t(2)] by auto
qed simp

interpretation ram_text_sink: bulk_sink ro_writeByte ro_appending ro_written ram_writeBytes
proof unfold_locales
  fix bs
  show "ram_append.puts (ram_writeBytes bs) bs"
    unfolding ram_append.puts_def ram_writeBytes_def
    using ram_append_bytes ro_writeBytes_each by (fastforce simp: ro_appending_def)
qed

interpretation ram_text_source: bulk_source ri_readByte ri_ok ri_left ram_readBytes
proof unfold_locales
  fix bs
  show "ram_source.gets (ram_readBytes (length bs)) bs bs"
    unfolding ram_source.gets_def ram_readBytes_def
  proof (intro allI impI)
    fix s r assume "ri_ok s" "ri_left s = bs @ r"
    then show "\<exists>s'. returns (ri_readBytes (length bs) [] s) = Inr (bs, s') \<and> ri_ok s' \<and> ri_left s' = r"
      using ri_readBytes_left [of s "length bs" "[]"] by auto
  qed
qed

subsection \<open>The properties\<close>

text \<open>
  C32. Text is read back: a string of valid code points other than U+1FFFF, at which the encoder
  stops, is encoded in at most four bytes for each, within the buffer the code allocates, and
  decoding the bytes gives the string. The string has fewer than \<open>2 ^ 29\<close> code points, so that the
  size of the buffer is an \<^verbatim>\<open>int32_t\<close>.
\<close>

theorem utf8_roundtrip:
  assumes "\<forall>c\<in>set s. isValidCodePoint c \<and> c \<noteq> UNICODE_TERMINATOR" "length s < 2 ^ 29"
  shows "\<exists>bs. toUTF8 s = Inr bs \<and> length bs \<le> 4 * length s \<and> toUnicode bs = Inr s"
proof -
  have "string_ok s" using assms by (simp add: string_ok_def text_ok_def)
  then show ?thesis using toUTF8_bytes [of s] toUnicode_text [of s] length_utf8_bytes(2) [of s] assms(1) by auto
qed

theorem utf8_roundtrip_witness: "\<exists>bs. toUTF8 [0x41, 0xe9, 0x20ac, 0x10400] = Inr bs \<and> toUnicode bs = Inr [0x41, 0xe9, 0x20ac, 0x10400]"
proof -
  have "\<forall>c\<in>set [0x41, 0xe9, 0x20ac, 0x10400]. isValidCodePoint c \<and> c \<noteq> UNICODE_TERMINATOR"
    by (simp add: isValidCodePoint_def isSurrogate_def utf_consts)
  from utf8_roundtrip [OF this] show ?thesis by simp blast
qed

text \<open>
  C33. The decoder accepts nothing else: on any bytes whatever it returns, without writing past its
  buffer, and when the text is not empty the bytes are the encoding of that text, the only one: no
  overlong form, no cut-off sequence, no value above the range is let through.
\<close>

theorem utf8_canonical:
  "\<exists>s. toUnicode bs = Inr s \<and> (s \<noteq> [] \<longrightarrow> bs = utf8_bytes s \<and> (\<forall>c\<in>set s. isValidCodePoint c) \<and>
     (UNICODE_TERMINATOR \<notin> set s \<and> length s < 2 ^ 29 \<longrightarrow> toUTF8 s = Inr bs))"
  using toUnicode_only [of bs] toUTF8_bytes by (fastforce simp: text_ok_def string_ok_def)

theorem utf8_canonical_witness: "toUnicode (utf8_bytes [0x41, 0xe9]) = Inr [0x41, 0xe9] \<and> toUTF8 [0x41, 0xe9] = Inr (utf8_bytes [0x41, 0xe9])"
proof -
  have v: "\<forall>c\<in>set [0x41, 0xe9]. isValidCodePoint c" by (simp add: isValidCodePoint_def isSurrogate_def utf_consts)
  have t: "UNICODE_TERMINATOR \<notin> set [0x41, 0xe9]" by (simp add: UNICODE_TERMINATOR_def)
  show ?thesis using utf8_canonical [of "utf8_bytes [0x41, 0xe9]"] toUnicode_text [OF v] t by auto
qed

text \<open>
  C34. A code point that is not valid (a surrogate, \<open>U+FFFE\<close>, \<open>U+FFFF\<close>, a value above
  \<open>U+10FFFF\<close>) loses the text: when the code points in front of it are valid and none of them is
  U+1FFFF, at which the encoder stops before it sees the rest, the encoder returns 0 and the whole
  string, the valid prefix too, is written as the empty string, without an error.
\<close>

theorem utf8_invalid_loses_text:
  assumes "\<forall>c\<in>set s. isValidCodePoint c \<and> c \<noteq> UNICODE_TERMINATOR" "\<not> isValidCodePoint c" "length (s @ c # r) < 2 ^ 29"
  shows "toUTF8 (s @ c # r) = Inr []"
proof -
  have s: "text_ok s" using assms(1) by (simp add: text_ok_def)
  have "length [] + 4 * length s < length (s @ c # r) * MAX_ENCODING_UTF8_SIZE" by (simp add: MAX_ENCODING_UTF8_SIZE_def)
  from utf32to8_invalid [OF s assms(2) this, of r] obtain out' where
    "utf32to8 (length (s @ c # r) * MAX_ENCODING_UTF8_SIZE) (s @ c # r) [] = Inr (0, out')" by blast
  moreover have "4 * length (s @ c # r) < 2 ^ 31" using assms(3) by simp
  ultimately show ?thesis by (simp add: toUTF8_def utf8_capacity conv_count_def del: length_append)
qed

theorem utf8_invalid_loses_text_witness: "toUTF8 [0x41, 0xfffe, 0x42] = Inr []"
  using utf8_invalid_loses_text [of "[0x41]" "0xfffe" "[0x42]"]
  by (simp add: isValidCodePoint_def isSurrogate_def utf_consts)

lemma unit_value: "mask16 (ucast (ucast c :: 16 word)) = mask16 c" for c :: uchar
  unfolding mask16_def mask6 by (rule bit_word_eqI) (auto simp: bit_simps)

lemma utf16to32_plain:
  "\<forall>c\<in>set cs. \<not> isSurrogate (mask16 c) \<Longrightarrow> length out + length cs \<le> cap \<Longrightarrow>
   utf16to32 cap (map ucast cs) out = conv_end (out @ map mask16 cs)"
proof (induction cs arbitrary: out)
  case (Cons c cs)
  have s: "\<not> isLeadSurrogate (mask16 c)" "\<not> isTrailSurrogate (mask16 c)"
    using Cons.prems(1) by (auto simp: isSurrogate_def isLeadSurrogate_def isTrailSurrogate_def utf_consts word_le_nat_alt)
  show ?case
  proof (cases "cap \<le> Suc (length out)")
    case True
    then have "cs = []" using Cons.prems(2) by (cases cs) auto
    then show ?thesis using True s Cons.prems(2) by (simp add: unit_value conv_end_def Let_def)
  next
    case False
    then show ?thesis using Cons.IH [of "out @ [mask16 c]"] Cons.prems s by (simp add: unit_value Let_def)
  qed
qed simp

text \<open>
  C27. Old characters: a text in the modified UTF-8 of \<^verbatim>\<open>writeChars\<close> whose characters have
  low halves that are not surrogates is read back by \<^verbatim>\<open>readChars\<close>, with the sixteen-bit units
  turned into code points, as these low halves, and \<^verbatim>\<open>skipChars\<close> stops at the same byte, the
  end of the file. So every such text of the basic plane survives, and a character behind it,
  which a 32-bit \<^verbatim>\<open>wchar_t\<close> can hold, comes back as another character.
\<close>

theorem ram_chars_roundtrip:
  assumes "length (concat (map char_wire cs)) < 2 ^ 40" "\<forall>c\<in>set cs. \<not> isSurrogate (mask16 c)"
  shows "\<exists>w r r1 r2. writeChars ro_writeByte cs (newRAMOutputStream newRAMFile) = Inr w \<and>
    newRAMInputStream (ro_file (ro_flush w)) = Inr r \<and>
    readChars ri_readByte (length cs) r = Inr (map mask16 cs, r1) \<and> ri_readByte r1 = Inl IOException \<and>
    ((\<forall>c\<in>set cs. c < 0x10000) \<longrightarrow> map mask16 cs = cs) \<and>
    skipChars ri_readByte (length cs) r = Inr r2 \<and> ri_readByte r2 = Inl IOException"
proof -
  obtain w r where w: "writeChars ro_writeByte cs (newRAMOutputStream newRAMFile) = Inr w" "newRAMInputStream (ro_file (ro_flush w)) = Inr r"
    and r: "ri_ok r" "ri_left r = concat (map char_wire cs) @ []" using ram_stored [OF ram_append.puts_chars assms(1)] by auto
  from ram_source.getsD [OF ram_source.gets_units r] obtain r1 where
    r1: "readUnits ri_readByte (length cs) r = Inr (map ucast cs, r1)" "ri_ok r1" "ri_left r1 = []" by blast
  have "readChars ri_readByte (length cs) r = Inr (map mask16 cs, r1)"
    using utf16to32_plain [OF assms(2), of "[]" "length cs"] by (simp add: readChars_def r1(1) conv_end_def conv_count_def)
  moreover from ram_source.skip_chars [OF r] obtain r2 where
    "skipChars ri_readByte (length cs) r = Inr r2" "ri_ok r2" "ri_left r2 = []" by blast
  moreover have "map mask16 cs = cs" if "\<forall>c\<in>set cs. c < 0x10000"
  proof (rule map_idI)
    fix c assume "c \<in> set cs"
    then have "bit c j \<Longrightarrow> j < 16" for j using that less_bit [of c 16 j] by simp
    then show "mask16 c = c" unfolding mask16_def mask6 by (intro bit_word_eqI) (auto simp: bit_simps)
  qed
  ultimately show ?thesis using ram_source.read_eof w r1(2,3) by blast
qed

theorem ram_chars_roundtrip_witness:
  "\<exists>w r r1. writeChars ro_writeByte [0x41, 0x20ac, 0x10400] (newRAMOutputStream newRAMFile) = Inr w \<and>
    newRAMInputStream (ro_file (ro_flush w)) = Inr r \<and>
    readChars ri_readByte 3 r = Inr ([0x41, 0x20ac, 0x400], r1)"
proof -
  have "length (concat (map char_wire [0x41, 0x20ac, 0x10400])) < 2 ^ 40" by (simp add: char_wire_def)
  moreover have "\<forall>c\<in>set [0x41, 0x20ac, 0x10400]. \<not> isSurrogate (mask16 c)" by (simp add: isSurrogate_def mask16_def utf_consts)
  moreover have "length [0x41 :: uchar, 0x20ac, 0x10400] = 3" by simp
  moreover have "map mask16 [0x41, 0x20ac, 0x10400] = [0x41, 0x20ac, 0x400]" by (simp add: mask16_def)
  ultimately show ?thesis using ram_chars_roundtrip [of "[0x41, 0x20ac, 0x10400]"] by metis
qed

text \<open>
  A map of strings written to a file in memory by \<^verbatim>\<open>writeStringStringMap\<close> and flushed is
  the map that \<^verbatim>\<open>readStringStringMap\<close> reads from it, after which the file is at its end.
\<close>

theorem string_map_roundtrip:
  assumes "\<forall>(k, v)\<in>set kvs. string_ok k \<and> string_ok v" "distinct (map fst kvs)"
    and "length kvs < 2 ^ 31" "length (pairs_wire kvs) < 2 ^ 39"
  shows "\<exists>w r r'. writeStringStringMap ro_writeByte ram_writeBytes (Some kvs) (newRAMOutputStream newRAMFile) = Inr w \<and>
    newRAMInputStream (ro_file (ro_flush w)) = Inr r \<and>
    readStringStringMap False ri_readByte ram_readBytes r = Inr (map_of kvs, r') \<and> ri_readByte r' = Inl IOException"
proof -
  have "length (int_wire (of_nat (length kvs)) @ pairs_wire kvs) < 2 ^ 40" using assms(4) by (simp add: int_wire_def)
  from ram_roundtrip [OF ram_text_sink.puts_map [OF assms(1)] this ram_text_source.gets_string_map [OF assms(1,3)]]
  show ?thesis using foldl_puts_map_of [OF assms(2), of Map.empty] by (simp only: empty_map_add)
qed

theorem string_map_roundtrip_witness:
  "\<exists>w r r'. writeStringStringMap ro_writeByte ram_writeBytes (Some [([0x6b], [0xe9]), ([], [])]) (newRAMOutputStream newRAMFile) = Inr w \<and>
    newRAMInputStream (ro_file (ro_flush w)) = Inr r \<and>
    readStringStringMap False ri_readByte ram_readBytes r = Inr ([[0x6b] \<mapsto> [0xe9], [] \<mapsto> []], r')"
proof -
  have k: "string_ok [0x6b]" "string_ok [0xe9]" "string_ok []"
    by (simp_all add: string_ok_def text_ok_def isValidCodePoint_def isSurrogate_def utf_consts)
  have l: "length (string_wire [0x6b]) \<le> 5" "length (string_wire [0xe9]) \<le> 5" "length (string_wire []) \<le> 5"
    by (simp_all add: string_wire_def utf8_bytes_def appendChar_def nat_wire_small)
  then have "length (pairs_wire [([0x6b], [0xe9]), ([], [])]) < 2 ^ 39" by (simp add: pairs_wire_def)
  from string_map_roundtrip [OF _ _ _ this] k show ?thesis by (simp add: fun_upd_twist) blast
qed

end
