(* ===== verification/BitVector.thy ===== *)
theory BitVector imports TextCodec begin

text \<open>
  \<^verbatim>\<open>util/BitVector.cpp\<close>: the vector of deleted documents of a segment, with its two file
  formats, the plain bits and the gaps between the bytes that are not zero. The vector caches its
  count, -1 when it has changed. The abstraction is the set of the bits that are set.
\<close>

record bit_vector =
  bv_size :: int
  bv_bits :: "byte list"
  bv_count :: int

definition BYTE_COUNTS :: "nat list" where
  "BYTE_COUNTS = [
    0, 1, 1, 2, 1, 2, 2, 3, 1, 2, 2, 3, 2, 3, 3, 4, 1, 2, 2, 3, 2, 3, 3, 4, 2, 3, 3, 4, 3, 4, 4, 5,
     1, 2, 2, 3, 2, 3, 3, 4, 2, 3, 3, 4, 3, 4, 4, 5, 2, 3, 3, 4, 3, 4, 4, 5, 3, 4, 4, 5, 4, 5, 5, 6,
     1, 2, 2, 3, 2, 3, 3, 4, 2, 3, 3, 4, 3, 4, 4, 5, 2, 3, 3, 4, 3, 4, 4, 5, 3, 4, 4, 5, 4, 5, 5, 6,
     2, 3, 3, 4, 3, 4, 4, 5, 3, 4, 4, 5, 4, 5, 5, 6, 3, 4, 4, 5, 4, 5, 5, 6, 4, 5, 5, 6, 5, 6, 6, 7,
     1, 2, 2, 3, 2, 3, 3, 4, 2, 3, 3, 4, 3, 4, 4, 5, 2, 3, 3, 4, 3, 4, 4, 5, 3, 4, 4, 5, 4, 5, 5, 6,
     2, 3, 3, 4, 3, 4, 4, 5, 3, 4, 4, 5, 4, 5, 5, 6, 3, 4, 4, 5, 4, 5, 5, 6, 4, 5, 5, 6, 5, 6, 6, 7,
     2, 3, 3, 4, 3, 4, 4, 5, 3, 4, 4, 5, 4, 5, 5, 6, 3, 4, 4, 5, 4, 5, 5, 6, 4, 5, 5, 6, 5, 6, 6, 7,
     3, 4, 4, 5, 4, 5, 5, 6, 4, 5, 5, 6, 5, 6, 6, 7, 4, 5, 5, 6, 5, 6, 6, 7, 5, 6, 6, 7, 6, 7, 7, 8]"

definition byte_count :: "byte \<Rightarrow> nat" where
  "byte_count b = BYTE_COUNTS ! unat b"

text \<open>The arrays of \<open>(n >> 3) + 1\<close> zero bytes; a negative length cannot be allocated.\<close>

definition bv_alloc :: "int \<Rightarrow> byte list result" where
  "bv_alloc n = (if n div 8 + 1 < 0 then Inl OutOfRange else Inr (replicate (nat (n div 8 + 1)) 0))"

definition newBitVector :: "int \<Rightarrow> bit_vector result" where
  "newBitVector n = bind_r (bv_alloc n) (\<lambda>bytes. Inr \<lparr>bv_size = n, bv_bits = bytes, bv_count = 0\<rparr>)"

definition bitVectorOf :: "byte list \<Rightarrow> int \<Rightarrow> bit_vector" where
  "bitVectorOf bytes n = \<lparr>bv_size = n, bv_bits = bytes, bv_count = -1\<rparr>"

text \<open>The byte of a bit that is below the size; a negative bit is outside the array.\<close>

definition bv_modify :: "int \<Rightarrow> (byte \<Rightarrow> byte) \<Rightarrow> bit_vector \<Rightarrow> bit_vector result" where
  "bv_modify i f v =
     (if bv_size v \<le> i then Inl IndexOutOfBounds
      else if i < 0 then Inl OutOfRange
      else bind_r (arr_get (bv_bits v) (nat i div 8)) (\<lambda>b.
           bind_r (arr_set (bv_bits v) (nat i div 8) (f b)) (\<lambda>bytes. Inr (v\<lparr>bv_bits := bytes, bv_count := -1\<rparr>))))"

definition bv_set :: "int \<Rightarrow> bit_vector \<Rightarrow> bit_vector result" where
  "bv_set i = bv_modify i (\<lambda>b. b OR push_bit (nat i mod 8) 1)"

definition bv_clear :: "int \<Rightarrow> bit_vector \<Rightarrow> bit_vector result" where
  "bv_clear i = bv_modify i (\<lambda>b. b AND NOT (push_bit (nat i mod 8) 1))"

definition bv_getAndSet :: "int \<Rightarrow> bit_vector \<Rightarrow> (bool \<times> bit_vector) result" where
  "bv_getAndSet i v =
     (if bv_size v \<le> i then Inl IndexOutOfBounds
      else if i < 0 then Inl OutOfRange
      else let pos = nat i div 8; flag = push_bit (nat i mod 8) 1 in
        bind_r (arr_get (bv_bits v) pos) (\<lambda>b.
          if flag AND b \<noteq> 0 then Inr (True, v)
          else bind_r (arr_set (bv_bits v) pos (b OR flag)) (\<lambda>bytes.
            Inr (False, v\<lparr>bv_bits := bytes, bv_count := if bv_count v \<noteq> -1 then bv_count v + 1 else -1\<rparr>))))"

definition bv_get :: "int \<Rightarrow> bit_vector \<Rightarrow> bool result" where
  "bv_get i v =
     (if i < 0 then Inl OutOfRange
      else bind_r (arr_get (bv_bits v) (nat i div 8)) (\<lambda>b. Inr (b AND push_bit (nat i mod 8) 1 \<noteq> 0)))"

definition bv_getRecomputedCount :: "bit_vector \<Rightarrow> nat" where
  "bv_getRecomputedCount v = sum_list (map byte_count (bv_bits v))"

definition bv_countBits :: "bit_vector \<Rightarrow> int \<times> bit_vector" where
  "bv_countBits v =
     (let v = (if bv_count v = -1 then v\<lparr>bv_count := int (sum_list (map byte_count (bv_bits v)))\<rparr> else v)
      in (bv_count v, v))"

definition bv_clone :: "bit_vector \<Rightarrow> bit_vector" where
  "bv_clone v = (bitVectorOf (bv_bits v) (bv_size v))\<lparr>bv_count := bv_count v\<rparr>"

definition bv_isSparse :: "bit_vector \<Rightarrow> bool \<times> bit_vector" where
  "bv_isSparse v =
     (let n = length (bv_bits v); (c, v) = bv_countBits v; factor = 10;
          cost = (\<lambda>bitsPer. trunc32 (factor * trunc32 (4 + trunc32 (bitsPer * c))))
      in (cost (if n < 2 ^ 7 then 8 + 8 else if n < 2 ^ 14 then 8 + 16 else if n < 2 ^ 21 then 8 + 24
                else if n < 2 ^ 28 then 8 + 32 else 8 + 40) < bv_size v, v))"

definition bv_writeBits ::
  "'s writer \<Rightarrow> (byte list \<Rightarrow> 's \<Rightarrow> 's result) \<Rightarrow> bit_vector \<Rightarrow> 's \<Rightarrow> 's result" where
  "bv_writeBits wb wbs v s =
     bind_r (writeInt wb (of_int (bv_size v)) s) (\<lambda>s.
     bind_r (writeInt wb (of_int (fst (bv_countBits v))) s) (\<lambda>s. wbs (bv_bits v) s))"

text \<open>The loop of \<^verbatim>\<open>writeDgaps\<close> over the bytes from index \<open>i\<close> on.\<close>

fun bv_gaps :: "'s writer \<Rightarrow> nat \<Rightarrow> nat \<Rightarrow> int \<Rightarrow> byte list \<Rightarrow> 's \<Rightarrow> 's result" where
  "bv_gaps wb i prev n [] s = Inr s"
| "bv_gaps wb i prev n (b # bs) s =
     (if n \<le> 0 then Inr s
      else if b \<noteq> 0 then
        bind_r (writeVInt wb (of_nat (i - prev)) s) (\<lambda>s.
        bind_r (wb b s) (\<lambda>s. bv_gaps wb (i + 1) i (n - int (byte_count b)) bs s))
      else bv_gaps wb (i + 1) prev n bs s)"

definition bv_writeDgaps :: "'s writer \<Rightarrow> bit_vector \<Rightarrow> 's \<Rightarrow> 's result" where
  "bv_writeDgaps wb v s =
     bind_r (writeInt wb (-1) s) (\<lambda>s.
     bind_r (writeInt wb (of_int (bv_size v)) s) (\<lambda>s.
     bind_r (writeInt wb (of_int (fst (bv_countBits v))) s) (\<lambda>s.
     bv_gaps wb 0 0 (fst (bv_countBits v)) (bv_bits v) s)))"

definition bv_write :: "'s writer \<Rightarrow> (byte list \<Rightarrow> 's \<Rightarrow> 's result) \<Rightarrow> bit_vector \<Rightarrow> 's \<Rightarrow> 's result" where
  "bv_write wb wbs v s =
     (case bv_isSparse v of (sparse, v) \<Rightarrow> if sparse then bv_writeDgaps wb v s else bv_writeBits wb wbs v s)"

definition bv_readBits ::
  "'s reader \<Rightarrow> (nat \<Rightarrow> 's \<Rightarrow> (byte list \<times> 's) result) \<Rightarrow> int \<Rightarrow> 's \<Rightarrow> (bit_vector \<times> 's) result" where
  "bv_readBits rb rbs n s =
     bind_r (readInt rb s) (\<lambda>(count, s). bind_r (bv_alloc n) (\<lambda>zeros. bind_r (rbs (length zeros) s) (\<lambda>(bytes, s).
       Inr (\<lparr>bv_size = n, bv_bits = bytes, bv_count = sint count\<rparr>, s))))"

partial_function (option) bv_readGaps ::
  "'s reader \<Rightarrow> int32 \<Rightarrow> int \<Rightarrow> byte list \<Rightarrow> 's \<Rightarrow> (byte list \<times> 's) result option" where
  "bv_readGaps rb prev n bytes s =
     (if n \<le> 0 then Some (Inr (bytes, s))
      else case readVInt rb s of Inl e \<Rightarrow> Some (Inl e)
      | Inr (gap, s) \<Rightarrow>
         let prev = prev + gap in
         (case rb s of Inl e \<Rightarrow> Some (Inl e)
          | Inr (b, s) \<Rightarrow>
              (case (if sint prev < 0 then Inl OutOfRange else arr_set bytes (unat prev) b) of Inl e \<Rightarrow> Some (Inl e)
               | Inr bytes \<Rightarrow> bv_readGaps rb prev (n - int (byte_count b)) bytes s)))"

text \<open>When the count on file is -1, \<^verbatim>\<open>count()\<close> counts the new array, which is all zero.\<close>

definition bv_readDgaps :: "'s reader \<Rightarrow> 's \<Rightarrow> (bit_vector \<times> 's) result" where
  "bv_readDgaps rb s =
     bind_r (readInt rb s) (\<lambda>(size32, s). bind_r (readInt rb s) (\<lambda>(count, s). bind_r (bv_alloc (sint size32)) (\<lambda>zeros.
       let n = fst (bv_countBits \<lparr>bv_size = sint size32, bv_bits = zeros, bv_count = sint count\<rparr>) in
       bind_r (returns (bv_readGaps rb 0 n zeros s)) (\<lambda>(bytes, s).
         Inr (\<lparr>bv_size = sint size32, bv_bits = bytes, bv_count = n\<rparr>, s)))))"

definition bv_read :: "'s reader \<Rightarrow> (nat \<Rightarrow> 's \<Rightarrow> (byte list \<times> 's) result) \<Rightarrow> 's \<Rightarrow> (bit_vector \<times> 's) result" where
  "bv_read rb rbs s =
     bind_r (readInt rb s) (\<lambda>(size32, s). if size32 = -1 then bv_readDgaps rb s else bv_readBits rb rbs (sint size32) s)"

text \<open>A loop that fills an array, one element after the other.\<close>

fun map_r :: "('a \<Rightarrow> 'b result) \<Rightarrow> 'a list \<Rightarrow> 'b list result" where
  "map_r f [] = Inr []"
| "map_r f (x # xs) = bind_r (f x) (\<lambda>y. bind_r (map_r f xs) (\<lambda>ys. Inr (y # ys)))"

definition bv_subset :: "int \<Rightarrow> int \<Rightarrow> bit_vector \<Rightarrow> bit_vector result" where
  "bv_subset start stop v =
     (if start < 0 \<or> bv_size v < stop \<or> stop < start then Inl IndexOutOfBounds
      else if stop = start then newBitVector 0
      else
        let n = nat (stop - start - 1) div 8 + 1; s = nat start div 8; k = nat start mod 8;
            piece = (\<lambda>i. bind_r (arr_get (bv_bits v) (i + s)) (\<lambda>cur.
                     bind_r (if length (bv_bits v) \<le> i + s + 1 then Inr 0 else arr_get (bv_bits v) (i + s + 1)) (\<lambda>next.
                     Inr (ucast (drop_bit k (ucast cur :: int32) OR push_bit (8 - k) (ucast next :: int32)) :: byte))));
            bitsToClear = (n * 8 - nat (stop - start)) mod 8
        in bind_r (map_r piece [0..<n]) (\<lambda>bytes.
             Inr (bitVectorOf (bytes[n - 1 := bytes ! (n - 1) AND ucast (NOT (push_bit (8 - bitsToClear) (0xff :: int32)))]) (stop - start))))"

subsection \<open>The set of bits\<close>

definition bv_docs :: "byte list \<Rightarrow> nat set" where
  "bv_docs bs = {i. i < 8 * length bs \<and> bit (bs ! (i div 8)) (i mod 8)}"

lemma bv_docs_finite [simp]: "finite (bv_docs bs)"
  by (rule finite_subset [of _ "{..<8 * length bs}"]) (auto simp: bv_docs_def)

lemma bv_docs_Nil [simp]: "bv_docs [] = {}"
  by (simp add: bv_docs_def)

lemma bv_docs_Cons: "bv_docs (b # bs) = {j. bit b j} \<union> (\<lambda>i. i + 8) ` bv_docs bs"
proof (intro set_eqI iffI)
  fix i assume i: "i \<in> bv_docs (b # bs)"
  show "i \<in> {j. bit b j} \<union> (\<lambda>i. i + 8) ` bv_docs bs"
  proof (cases "i < 8")
    case True
    then show ?thesis using i by (simp add: bv_docs_def)
  next
    case False
    then obtain k where k: "i = k + 8" by (metis add.commute le_Suc_ex not_less)
    then have "(k + 8) div 8 - 1 = k div 8" by simp
    then have "k \<in> bv_docs bs" using i k by (simp add: bv_docs_def)
    then show ?thesis using k by blast
  qed
next
  fix i assume "i \<in> {j. bit b j} \<union> (\<lambda>i. i + 8) ` bv_docs bs"
  moreover have "(x + 8) div 8 - Suc 0 = x div 8" for x :: nat by simp
  moreover have "bit b i \<Longrightarrow> i < 8" using bit_imp_le_length [of b i] by simp
  ultimately show "i \<in> bv_docs (b # bs)" by (auto simp: bv_docs_def)
qed

lemma bv_docs_zeros [simp]: "bv_docs (replicate n 0) = {}"
  by (induction n) (auto simp: bv_docs_Cons)

text \<open>The table by doubling: the second half of a table is the first with one bit more.\<close>

fun count_table :: "nat \<Rightarrow> nat list" where
  "count_table 0 = [0]"
| "count_table (Suc k) = count_table k @ map Suc (count_table k)"

lemma BYTE_COUNTS_table: "BYTE_COUNTS = count_table 8"
  by (simp add: BYTE_COUNTS_def numeral_eq_Suc)

lemma length_count_table [simp]: "length (count_table k) = 2 ^ k"
  by (induction k) auto

lemma bits_below: "n < 2 ^ k \<Longrightarrow> bit n j \<Longrightarrow> j < k" for n :: nat
  by (metis bit_take_bit_iff take_bit_nat_eq_self)

lemma count_table_nth: "n < 2 ^ k \<Longrightarrow> count_table k ! n = card {j. bit n j}" for n :: nat
proof (induction k arbitrary: n)
  case (Suc k)
  show ?case
  proof (cases "n < 2 ^ k")
    case False
    define m where "m = n - 2 ^ k"
    have m: "m < 2 ^ k" "n = m + 2 ^ k" using False Suc.prems by (simp_all add: m_def)
    have "m AND 2 ^ k = 0"
      by (rule bit_eqI) (use bits_below [OF m(1)] in \<open>auto simp: bit_simps\<close>)
    then have "n = m OR 2 ^ k" using m(2) by (simp add: disjunctive_add_eq_or)
    then have "{j. bit n j} = insert k {j. bit m j}" by (auto simp: bit_simps)
    moreover have "finite {j. bit m j}" by (rule finite_subset [of _ "{..<k}"]) (use bits_below [OF m(1)] in auto)
    moreover have "k \<notin> {j. bit m j}" using bits_below [OF m(1)] by auto
    ultimately show ?thesis using Suc.IH [OF m(1)] m by (simp add: nth_append)
  qed (use Suc in \<open>simp add: nth_append\<close>)
next
  case 0
  then have "{j. bit n j} = {}" by simp
  then show ?case using 0 by (simp only: card.empty) simp
qed

lemma byte_count_card: "byte_count b = card {j. bit b j}"
proof -
  have "unat b < 2 ^ 8" using unsigned_less [of b] by simp
  then have "byte_count b = card {j. bit (unat b) j}" unfolding byte_count_def BYTE_COUNTS_table by (rule count_table_nth)
  moreover have "bit (unat b) j = bit b j" for j by (auto simp: bit_simps dest: bit_imp_le_length)
  ultimately show ?thesis by simp
qed

lemma byte_count_pos: "byte_count b = 0 \<longleftrightarrow> b = 0"
proof -
  have "finite {j. bit b j}" by (rule finite_subset [of _ "{..<8}"]) (auto dest: bit_imp_le_length)
  then show ?thesis by (auto simp: byte_count_card word_zero_iff)
qed

lemma count_sum: "sum_list (map byte_count bs) = card (bv_docs bs)"
proof (induction bs)
  case (Cons b bs)
  have f: "finite {j. bit b j}" by (rule finite_subset [of _ "{..<8}"]) (auto dest: bit_imp_le_length)
  have "{j. bit b j} \<inter> (\<lambda>i. i + 8) ` bv_docs bs = {}" by (auto dest: bit_imp_le_length)
  then have "card (bv_docs (b # bs)) = card {j. bit b j} + card ((\<lambda>i. i + 8) ` bv_docs bs)"
    unfolding bv_docs_Cons using f by (intro card_Un_disjoint) auto
  then show ?case using Cons by (simp add: byte_count_card card_image)
qed simp

lemma bv_docs_update:
  assumes "i < 8 * length bs" "\<And>j. j < 8 \<Longrightarrow> bit b j = (if j = i mod 8 then p else bit (bs ! (i div 8)) j)"
  shows "bv_docs (bs[i div 8 := b]) = (if p then insert i (bv_docs bs) else bv_docs bs - {i})"
proof -
  have "i div 8 < length bs" using assms(1) by auto
  have e: "k = i" if "k div 8 = i div 8" "k mod 8 = i mod 8" for k using that by (metis div_mult_mod_eq)
  have "k \<in> bv_docs (bs[i div 8 := b]) \<longleftrightarrow> k \<in> (if p then insert i (bv_docs bs) else bv_docs bs - {i})" for k
    using \<open>i div 8 < length bs\<close> assms(1) assms(2) [of "k mod 8"] e [of k]
    by (cases "k div 8 = i div 8") (auto simp: bv_docs_def nth_list_update)
  then show ?thesis by blast
qed

subsection \<open>Operations on the set\<close>

definition bv_ok :: "bit_vector \<Rightarrow> bool" where
  "bv_ok v \<longleftrightarrow> 0 \<le> bv_size v \<and> bv_size v < 2 ^ 31 \<and> int (length (bv_bits v)) = bv_size v div 8 + 1 \<and>
     (\<forall>i\<in>bv_docs (bv_bits v). int i < bv_size v) \<and> (bv_count v = -1 \<or> bv_count v = int (card (bv_docs (bv_bits v))))"

lemma bv_okD: "bv_ok v \<Longrightarrow> 0 \<le> i \<Longrightarrow> i < bv_size v \<Longrightarrow> nat i < 8 * length (bv_bits v)"
  by (simp add: bv_ok_def) linarith

lemma nat_div8: "0 \<le> i \<Longrightarrow> nat i div 8 < n \<longleftrightarrow> nat i < 8 * n"
  by (simp add: div_less_iff_less_mult mult.commute)

lemma bv_modify_eq:
  "bv_ok v \<Longrightarrow> 0 \<le> i \<Longrightarrow> i < bv_size v \<Longrightarrow> bv_modify i f v =
   Inr (v\<lparr>bv_bits := (bv_bits v)[nat i div 8 := f (bv_bits v ! (nat i div 8))], bv_count := -1\<rparr>)"
  using bv_okD [of v i] by (simp add: bv_modify_def nat_div8)

lemma one_bit: "bit (2 ^ k :: byte) j \<longleftrightarrow> j = k \<and> k < 8"
  by (auto simp: bit_simps)

lemma flag_and: "(2 ^ k :: byte) AND b = 0 \<longleftrightarrow> \<not> (k < 8 \<and> bit b k)" "b AND (2 ^ k :: byte) = 0 \<longleftrightarrow> \<not> (k < 8 \<and> bit b k)"
  by (auto simp: word_zero_iff bit_and_iff one_bit)

lemma bv_set_step:
  assumes "bv_ok v" "0 \<le> i" "i < bv_size v"
  shows "\<exists>w. bv_set i v = Inr w \<and> bv_ok w \<and> bv_size w = bv_size v \<and> bv_docs (bv_bits w) = insert (nat i) (bv_docs (bv_bits v))"
proof -
  have "bv_docs ((bv_bits v)[nat i div 8 := bv_bits v ! (nat i div 8) OR 2 ^ (nat i mod 8)]) = insert (nat i) (bv_docs (bv_bits v))"
    by (subst bv_docs_update [OF bv_okD [OF assms], where p = True]) (auto simp: bit_or_iff one_bit)
  then show ?thesis using assms bv_modify_eq [OF assms] by (auto simp: bv_set_def bv_ok_def)
qed

lemma bv_clear_step:
  assumes "bv_ok v" "0 \<le> i" "i < bv_size v"
  shows "\<exists>w. bv_clear i v = Inr w \<and> bv_ok w \<and> bv_size w = bv_size v \<and> bv_docs (bv_bits w) = bv_docs (bv_bits v) - {nat i}"
proof -
  have "bv_docs ((bv_bits v)[nat i div 8 := bv_bits v ! (nat i div 8) AND NOT (2 ^ (nat i mod 8))]) = bv_docs (bv_bits v) - {nat i}"
    by (subst bv_docs_update [OF bv_okD [OF assms], where p = False]) (auto simp: bit_and_iff bit_not_iff one_bit)
  then show ?thesis using assms bv_modify_eq [OF assms] by (auto simp: bv_clear_def bv_ok_def)
qed

lemma bv_get_step:
  "bv_ok v \<Longrightarrow> 0 \<le> i \<Longrightarrow> i < bv_size v \<Longrightarrow> bv_get i v = Inr (nat i \<in> bv_docs (bv_bits v))"
  using bv_okD [of v i] by (simp add: bv_get_def nat_div8 flag_and bv_docs_def)

lemma bv_getAndSet_step:
  assumes "bv_ok v" "0 \<le> i" "i < bv_size v"
  shows "\<exists>w. bv_getAndSet i v = Inr (nat i \<in> bv_docs (bv_bits v), w) \<and> bv_ok w \<and> bv_size w = bv_size v \<and>
    bv_docs (bv_bits w) = insert (nat i) (bv_docs (bv_bits v))"
proof (cases "nat i \<in> bv_docs (bv_bits v)")
  case True
  then show ?thesis using assms bv_okD [OF assms]
    by (auto simp: bv_getAndSet_def nat_div8 flag_and bv_docs_def insert_absorb Let_def)
next
  case False
  have d: "bv_docs ((bv_bits v)[nat i div 8 := bv_bits v ! (nat i div 8) OR 2 ^ (nat i mod 8)]) = insert (nat i) (bv_docs (bv_bits v))"
    by (subst bv_docs_update [OF bv_okD [OF assms], where p = True]) (auto simp: bit_or_iff one_bit)
  have "\<not> bit (bv_bits v ! (nat i div 8)) (nat i mod 8)" using False bv_okD [OF assms] by (simp add: bv_docs_def)
  then show ?thesis using assms bv_okD [OF assms] False d
    by (auto simp: bv_getAndSet_def nat_div8 flag_and bv_ok_def Let_def)
qed

lemma bv_count_step:
  assumes "bv_ok v"
  shows "fst (bv_countBits v) = int (card (bv_docs (bv_bits v)))" "bv_ok (snd (bv_countBits v))"
    "bv_bits (snd (bv_countBits v)) = bv_bits v" "bv_size (snd (bv_countBits v)) = bv_size v"
  using assms by (auto simp: bv_countBits_def bv_ok_def Let_def count_sum)

lemma newBitVector_ok:
  "0 \<le> n \<Longrightarrow> n < 2 ^ 31 \<Longrightarrow> \<exists>v. newBitVector n = Inr v \<and> bv_ok v \<and> bv_size v = n \<and> bv_docs (bv_bits v) = {}"
  by (simp add: newBitVector_def bv_alloc_def bv_ok_def)

text \<open>Sequences of operations, with what they return: \<^verbatim>\<open>getAndSet\<close> 0 or 1, \<^verbatim>\<open>count\<close> the
  count, the other two nothing.\<close>

datatype bv_op = SetBit int | ClearBit int | GetAndSetBit int | CountBits

fun bv_do :: "bv_op \<Rightarrow> bit_vector \<Rightarrow> (int list \<times> bit_vector) result" where
  "bv_do (SetBit i) v = bind_r (bv_set i v) (\<lambda>v. Inr ([], v))"
| "bv_do (ClearBit i) v = bind_r (bv_clear i v) (\<lambda>v. Inr ([], v))"
| "bv_do (GetAndSetBit i) v = bind_r (bv_getAndSet i v) (\<lambda>(b, v). Inr ([of_bool b], v))"
| "bv_do CountBits v = Inr (case bv_countBits v of (n, v) \<Rightarrow> ([n], v))"

fun bv_run :: "bv_op list \<Rightarrow> bit_vector \<Rightarrow> (int list \<times> bit_vector) result" where
  "bv_run [] v = Inr ([], v)"
| "bv_run (c # cs) v = bind_r (bv_do c v) (\<lambda>(out, v). bind_r (bv_run cs v) (\<lambda>(outs, v). Inr (out @ outs, v)))"

fun set_do :: "bv_op \<Rightarrow> nat set \<Rightarrow> int list \<times> nat set" where
  "set_do (SetBit i) S = ([], insert (nat i) S)"
| "set_do (ClearBit i) S = ([], S - {nat i})"
| "set_do (GetAndSetBit i) S = ([of_bool (nat i \<in> S)], insert (nat i) S)"
| "set_do CountBits S = ([int (card S)], S)"

fun set_run :: "bv_op list \<Rightarrow> nat set \<Rightarrow> int list \<times> nat set" where
  "set_run [] S = ([], S)"
| "set_run (c # cs) S = (case set_do c S of (out, S) \<Rightarrow> case set_run cs S of (outs, S) \<Rightarrow> (out @ outs, S))"

fun op_in :: "int \<Rightarrow> bv_op \<Rightarrow> bool" where
  "op_in n (SetBit i) \<longleftrightarrow> 0 \<le> i \<and> i < n"
| "op_in n (ClearBit i) \<longleftrightarrow> 0 \<le> i \<and> i < n"
| "op_in n (GetAndSetBit i) \<longleftrightarrow> 0 \<le> i \<and> i < n"
| "op_in n CountBits \<longleftrightarrow> True"

lemma bv_do_refines:
  assumes "bv_ok v" "op_in (bv_size v) c"
  shows "\<exists>out w. bv_do c v = Inr (out, w) \<and> set_do c (bv_docs (bv_bits v)) = (out, bv_docs (bv_bits w)) \<and>
    bv_ok w \<and> bv_size w = bv_size v"
proof (cases c)
  case (SetBit i)
  then show ?thesis using bv_set_step [OF assms(1), of i] assms(2) by auto
next
  case (ClearBit i)
  then show ?thesis using bv_clear_step [OF assms(1), of i] assms(2) by auto
next
  case (GetAndSetBit i)
  then show ?thesis using bv_getAndSet_step [OF assms(1), of i] assms(2) by auto
next
  case CountBits
  then show ?thesis using bv_count_step [OF assms(1)] by (auto simp: split_beta)
qed

lemma bv_run_refines:
  "bv_ok v \<Longrightarrow> \<forall>c\<in>set cs. op_in (bv_size v) c \<Longrightarrow> \<exists>outs w. bv_run cs v = Inr (outs, w) \<and>
    set_run cs (bv_docs (bv_bits v)) = (outs, bv_docs (bv_bits w)) \<and> bv_ok w \<and> bv_size w = bv_size v"
proof (induction cs arbitrary: v)
  case (Cons c cs)
  then obtain out w where w: "bv_do c v = Inr (out, w)" "set_do c (bv_docs (bv_bits v)) = (out, bv_docs (bv_bits w))" "bv_ok w"
    "bv_size w = bv_size v" using bv_do_refines by (metis list.set_intros(1))
  with Cons.IH [OF w(3)] Cons.prems show ?case by fastforce
qed simp

subsection \<open>The file formats\<close>

fun gap_wire :: "nat \<Rightarrow> nat \<Rightarrow> byte list \<Rightarrow> byte list" where
  "gap_wire i prev [] = []"
| "gap_wire i prev (b # bs) =
     (if b \<noteq> 0 then nat_wire (i - prev) @ b # gap_wire (i + 1) i bs else gap_wire (i + 1) prev bs)"

lemma gap_wire_zeros: "set bs \<subseteq> {0} \<Longrightarrow> gap_wire i prev bs = []"
  by (induction bs arbitrary: i) auto

lemma length_gap_wire: "prev \<le> i \<Longrightarrow> length (gap_wire i prev bs) \<le> (i - prev) + 3 * length bs"
proof (induction bs arbitrary: i prev)
  case (Cons b bs)
  show ?case using Cons.IH [of i "i + 1"] Cons.IH [of prev "i + 1"] Cons.prems length_nat_wire_le [of "i - prev"] by auto
qed simp

lemma count_zero: "sum_list (map byte_count bs) = 0 \<Longrightarrow> set bs \<subseteq> {0}"
  by (induction bs) (auto simp: byte_count_pos)

context byte_sink begin

lemma puts_gaps:
  "i + length bs < 2 ^ 31 \<Longrightarrow> prev \<le> i \<Longrightarrow> n = int (sum_list (map byte_count bs)) \<Longrightarrow> puts (bv_gaps wb i prev n bs) (gap_wire i prev bs)"
proof (induction bs arbitrary: i prev n)
  case Nil
  have "bv_gaps wb i prev n [] = (\<lambda>s. Inr s)" by (intro ext) simp
  then show ?case by (simp add: puts_return)
next
  case (Cons b bs)
  show ?case
  proof (cases "n \<le> 0")
    case True
    then have "gap_wire i prev (b # bs) = []" by (intro gap_wire_zeros count_zero) (use Cons.prems(3) in linarith)
    moreover have "bv_gaps wb i prev n (b # bs) = (\<lambda>s. Inr s)" using True by (intro ext) simp
    ultimately show ?thesis by (simp add: puts_return)
  next
    case n: False
    show ?thesis
    proof (cases "b = 0")
      case True
      then have "bv_gaps wb i prev n (b # bs) = bv_gaps wb (i + 1) prev n bs" using n by (intro ext) simp
      moreover have "byte_count b = 0" using True by (simp add: byte_count_pos)
      ultimately show ?thesis using Cons.IH [of "i + 1" prev n] Cons.prems True by simp
    next
      case False
      have "puts (bv_gaps wb (i + 1) i (n - int (byte_count b)) bs) (gap_wire (i + 1) i bs)" using Cons.prems by (intro Cons.IH) auto
      from puts_bind [OF puts_vint puts_step [OF this], of "of_nat (i - prev)" b]
      have "puts (\<lambda>s. bind_r (writeVInt wb (of_nat (i - prev)) s) (\<lambda>s. bind_r (wb b s) (\<lambda>s. bv_gaps wb (i + 1) i (n - int (byte_count b)) bs s)))
          (gap_wire i prev (b # bs))"
        using False Cons.prems(1) by (simp add: unat_of_nat)
      moreover have "bv_gaps wb i prev n (b # bs) =
          (\<lambda>s. bind_r (writeVInt wb (of_nat (i - prev)) s) (\<lambda>s. bind_r (wb b s) (\<lambda>s. bv_gaps wb (i + 1) i (n - int (byte_count b)) bs s)))"
        using n False by (intro ext) simp
      ultimately show ?thesis by simp
    qed
  qed
qed

end

lemma readGaps_step:
  "returns (bv_readGaps rb prev n bytes s) =
     (if n \<le> 0 then Inr (bytes, s)
      else bind_r (readVInt rb s) (\<lambda>(gap, s). bind_r (rb s) (\<lambda>(b, s).
        bind_r (if sint (prev + gap) < 0 then Inl OutOfRange else arr_set bytes (unat (prev + gap)) b) (\<lambda>bytes.
          returns (bv_readGaps rb (prev + gap) (n - int (byte_count b)) bytes s)))))"
  by (subst bv_readGaps.simps) (simp add: bind_r_def Let_def split: sum.splits)

context byte_source begin

lemma gets_gaps:
  "length full < 2 ^ 31 \<Longrightarrow> full = pre @ bs \<Longrightarrow> prev \<le> length pre \<Longrightarrow> n = int (sum_list (map byte_count bs)) \<Longrightarrow>
   gets (\<lambda>s. returns (bv_readGaps rb (of_nat prev) n (pre @ replicate (length bs) 0) s)) (gap_wire (length pre) prev bs) full"
proof (induction bs arbitrary: pre prev n)
  case Nil
  then show ?case by (simp add: readGaps_step gets_return)
next
  case (Cons b bs)
  show ?case
  proof (cases "n \<le> 0")
    case True
    then have z: "set (b # bs) \<subseteq> {0}" by (intro count_zero) (use Cons.prems(4) in linarith)
    then have "replicate (length (b # bs)) 0 = b # bs" by (metis replicate_length_same subset_singletonD singletonD empty_iff)
    then show ?thesis using True gap_wire_zeros [OF z] Cons.prems(2) by (subst readGaps_step) (simp add: gets_return)
  next
    case n: False
    show ?thesis
    proof (cases "b = 0")
      case True
      have "byte_count b = 0" using True by (simp add: byte_count_pos)
      then show ?thesis using Cons.IH [of "pre @ [b]" prev n] Cons.prems True by simp
    next
      case False
      let ?i = "length pre"
      have len: "?i < 2 ^ 31" using Cons.prems(1,2) by simp
      have e: "of_nat prev + of_nat (?i - prev) = (of_nat ?i :: int32)" using Cons.prems(3) by (metis le_add_diff_inverse of_nat_add)
      have u: "unat (of_nat ?i :: int32) = ?i" "\<not> sint (of_nat ?i :: int32) < 0"
        using len by (simp_all add: unat_of_nat signed_of_nat signed_take_bit_int_eq_self)
      have "gets (\<lambda>s. returns (bv_readGaps rb (of_nat ?i) (n - int (byte_count b)) ((pre @ [b]) @ replicate (length bs) 0) s))
          (gap_wire (length (pre @ [b])) ?i bs) full"
        using Cons.prems by (intro Cons.IH) auto
      then have "gets (\<lambda>s. bind_r (if sint (of_nat prev + of_nat (?i - prev) :: int32) < 0 then Inl OutOfRange
              else arr_set (pre @ replicate (Suc (length bs)) 0) (unat (of_nat prev + of_nat (?i - prev) :: int32)) b)
            (\<lambda>bytes. returns (bv_readGaps rb (of_nat prev + of_nat (?i - prev)) (n - int (byte_count b)) bytes s)))
          (gap_wire (?i + 1) ?i bs) full"
        unfolding e u(1) using u(2) by (simp add: arr_set_def)
      from gets_bind [where g = "\<lambda>gap s. bind_r (rb s) (\<lambda>(b, s).
          bind_r (if sint (of_nat prev + gap) < 0 then Inl OutOfRange else arr_set (pre @ replicate (Suc (length bs)) 0) (unat (of_nat prev + gap)) b)
            (\<lambda>bytes. returns (bv_readGaps rb (of_nat prev + gap) (n - int (byte_count b)) bytes s)))", OF gets_vint gets_step [where g = "\<lambda>c s. bind_r (if sint (of_nat prev + of_nat (?i - prev) :: int32) < 0 then Inl OutOfRange else arr_set (pre @ replicate (Suc (length bs)) 0) (unat (of_nat prev + of_nat (?i - prev) :: int32)) c) (\<lambda>bytes. returns (bv_readGaps rb (of_nat prev + of_nat (?i - prev)) (n - int (byte_count c)) bytes s))", OF this]]
      show ?thesis using n False len by (subst readGaps_step, unfold length_Cons) (simp add: unat_of_nat)
    qed
  qed
qed

end


text \<open>What \<^verbatim>\<open>write\<close> puts on file.\<close>

definition bv_wire :: "bit_vector \<Rightarrow> byte list" where
  "bv_wire v =
     (let n = of_nat (card (bv_docs (bv_bits v))) in
      if fst (bv_isSparse v) then int_wire (-1) @ int_wire (of_int (bv_size v)) @ int_wire n @ gap_wire 0 0 (bv_bits v)
      else int_wire (of_int (bv_size v)) @ int_wire n @ bv_bits v)"

lemma length_bv_wire: "length (bv_wire v) \<le> 12 + 3 * length (bv_bits v)"
  using length_gap_wire [of 0 0 "bv_bits v"] by (simp add: bv_wire_def int_wire_def Let_def)

definition counted :: "bit_vector \<Rightarrow> bit_vector" where
  "counted v = snd (bv_countBits v)"

lemma counted_facts:
  assumes "bv_ok v"
  shows "bv_bits (counted v) = bv_bits v" "bv_size (counted v) = bv_size v"
    "fst (bv_countBits (counted v)) = int (card (bv_docs (bv_bits v)))"
    "counted v = \<lparr>bv_size = bv_size v, bv_bits = bv_bits v, bv_count = int (card (bv_docs (bv_bits v)))\<rparr>"
proof -
  note c = bv_count_step [OF assms]
  have n: "bv_count (counted v) = int (card (bv_docs (bv_bits v)))"
    using c(1) by (simp add: counted_def bv_countBits_def Let_def split: if_splits)
  show "bv_bits (counted v) = bv_bits v" "bv_size (counted v) = bv_size v" using c by (simp_all add: counted_def)
  then show "counted v = \<lparr>bv_size = bv_size v, bv_bits = bv_bits v, bv_count = int (card (bv_docs (bv_bits v)))\<rparr>"
    using n by (cases "counted v") simp
  then show "fst (bv_countBits (counted v)) = int (card (bv_docs (bv_bits v)))" by (simp add: bv_countBits_def)
qed

lemma isSparse_counted: "snd (bv_isSparse v) = counted v"
  by (simp add: bv_isSparse_def counted_def Let_def split_beta)

lemma bv_ok_lengths:
  assumes "bv_ok v"
  shows "length (bv_bits v) < 2 ^ 31" "card (bv_docs (bv_bits v)) < 2 ^ 31" "sint (of_int (bv_size v) :: int32) = bv_size v"
    "(of_int (bv_size v) :: int32) \<noteq> -1" "sint (of_nat (card (bv_docs (bv_bits v))) :: int32) = int (card (bv_docs (bv_bits v)))"
proof -
  have v: "0 \<le> bv_size v" "bv_size v < 2 ^ 31" "int (length (bv_bits v)) = bv_size v div 8 + 1" "\<forall>i\<in>bv_docs (bv_bits v). int i < bv_size v"
    using assms by (simp_all add: bv_ok_def)
  have "int (length (bv_bits v)) < 2 ^ 31" using v(1-3) by simp
  then show "length (bv_bits v) < 2 ^ 31" by simp
  have "bv_docs (bv_bits v) \<subseteq> {..<nat (bv_size v)}" using v(4) by force
  then have "card (bv_docs (bv_bits v)) \<le> nat (bv_size v)" by (metis card_lessThan card_mono finite_lessThan)
  then show c: "card (bv_docs (bv_bits v)) < 2 ^ 31" using v(2) by simp
  show s: "sint (of_int (bv_size v) :: int32) = bv_size v" using v(1,2) by (simp add: signed_of_int signed_take_bit_int_eq_self)
  then show "(of_int (bv_size v) :: int32) \<noteq> -1" using v(1) by auto
  show "sint (of_nat (card (bv_docs (bv_bits v))) :: int32) = int (card (bv_docs (bv_bits v)))"
    using c by (simp add: signed_of_nat signed_take_bit_int_eq_self)
qed

context bulk_sink begin

lemma puts_bitvector:
  assumes "bv_ok v"
  shows "puts (bv_write wb wbs v) (bv_wire v)"
proof (cases "fst (bv_isSparse v)")
  case True
  have g: "puts (bv_gaps wb 0 0 (int (card (bv_docs (bv_bits v)))) (bv_bits v)) (gap_wire 0 0 (bv_bits v))"
    by (rule puts_gaps) (use bv_ok_lengths(1) [OF assms] in \<open>simp_all add: count_sum\<close>)
  have "bv_write wb wbs v = (\<lambda>s. bind_r (writeInt wb (-1) s) (\<lambda>s. bind_r (writeInt wb (of_int (bv_size v)) s) (\<lambda>s.
      bind_r (writeInt wb (of_nat (card (bv_docs (bv_bits v)))) s) (\<lambda>s. bv_gaps wb 0 0 (int (card (bv_docs (bv_bits v)))) (bv_bits v) s))))"
    using True counted_facts [OF assms] isSparse_counted [of v]
    by (intro ext) (simp add: bv_write_def bv_writeDgaps_def split_beta)
  then show ?thesis using puts_bind [OF puts_int puts_bind [OF puts_int puts_bind [OF puts_int g]]] True by (simp add: bv_wire_def Let_def)
next
  case False
  have "bv_write wb wbs v = (\<lambda>s. bind_r (writeInt wb (of_int (bv_size v)) s) (\<lambda>s.
      bind_r (writeInt wb (of_nat (card (bv_docs (bv_bits v)))) s) (\<lambda>s. wbs (bv_bits v) s)))"
    using False counted_facts [OF assms] isSparse_counted [of v]
    by (intro ext) (simp add: bv_write_def bv_writeBits_def split_beta)
  then show ?thesis using puts_bind [OF puts_int puts_bind [OF puts_int puts_bytes]] False by (simp add: bv_wire_def Let_def)
qed

end

context bulk_source begin

lemma gets_bitvector:
  assumes "bv_ok v"
  shows "gets (bv_read rb rbs) (bv_wire v) (counted v)"
proof -
  note l = bv_ok_lengths [OF assms]
  let ?n = "int (card (bv_docs (bv_bits v)))" and ?m = "of_nat (card (bv_docs (bv_bits v))) :: int32"
  have len: "nat (bv_size v div 8 + 1) = length (bv_bits v)" "\<not> bv_size v div 8 + 1 < 0"
    using assms unfolding bv_ok_def by (metis nat_int, linarith)
  then have alloc: "bv_alloc (bv_size v) = Inr (replicate (length (bv_bits v)) 0)" by (simp add: bv_alloc_def)
  have bits: "gets (bv_readBits rb rbs (bv_size v)) (int_wire ?m @ bv_bits v) (counted v)"
  proof -
    have "gets (\<lambda>s. bind_r (rbs (length (bv_bits v)) s) (\<lambda>(bytes, s). Inr (\<lparr>bv_size = bv_size v, bv_bits = bytes, bv_count = sint ?m\<rparr>, s)))
        (bv_bits v @ []) (counted v)"
      by (rule gets_bind [OF gets_bytes]) (simp add: counted_facts(4) [OF assms] l gets_return)
    then have "gets (\<lambda>s. bind_r (bv_alloc (bv_size v)) (\<lambda>zeros. bind_r (rbs (length zeros) s) (\<lambda>(bytes, s).
        Inr (\<lparr>bv_size = bv_size v, bv_bits = bytes, bv_count = sint ?m\<rparr>, s)))) (bv_bits v) (counted v)"
      by (simp add: alloc)
    from gets_bind [where g = "\<lambda>count s. bind_r (bv_alloc (bv_size v)) (\<lambda>zeros. bind_r (rbs (length zeros) s) (\<lambda>(bytes, s).
        Inr (\<lparr>bv_size = bv_size v, bv_bits = bytes, bv_count = sint count\<rparr>, s)))", OF gets_int this]
    show ?thesis unfolding bv_readBits_def [abs_def] by simp
  qed
  have gaps: "gets (bv_readDgaps rb) (int_wire (of_int (bv_size v)) @ int_wire ?m @ gap_wire 0 0 (bv_bits v)) (counted v)"
  proof -
    have "gets (\<lambda>s. returns (bv_readGaps rb (of_nat 0) ?n ([] @ replicate (length (bv_bits v)) 0) s)) (gap_wire (length ([] :: byte list)) 0 (bv_bits v)) (bv_bits v)"
      by (rule gets_gaps) (use l(1) in \<open>simp_all add: count_sum\<close>)
    then have g: "gets (\<lambda>s. returns (bv_readGaps rb 0 ?n (replicate (length (bv_bits v)) 0) s)) (gap_wire 0 0 (bv_bits v)) (bv_bits v)" by simp
    have "gets (\<lambda>s. bind_r (returns (bv_readGaps rb 0 ?n (replicate (length (bv_bits v)) 0) s)) (\<lambda>(bytes, s).
         Inr (\<lparr>bv_size = bv_size v, bv_bits = bytes, bv_count = ?n\<rparr>, s))) (gap_wire 0 0 (bv_bits v) @ []) (counted v)"
      by (rule gets_bind [OF g]) (simp add: counted_facts(4) [OF assms] gets_return)
    moreover have "fst (bv_countBits \<lparr>bv_size = bv_size v, bv_bits = replicate (length (bv_bits v)) 0, bv_count = ?n\<rparr>) = ?n"
      by (simp add: bv_countBits_def)
    ultimately have "gets (\<lambda>s. bind_r (bv_alloc (sint (of_int (bv_size v) :: int32))) (\<lambda>zeros.
       let n = fst (bv_countBits \<lparr>bv_size = sint (of_int (bv_size v) :: int32), bv_bits = zeros, bv_count = sint ?m\<rparr>) in
       bind_r (returns (bv_readGaps rb 0 n zeros s)) (\<lambda>(bytes, s).
         Inr (\<lparr>bv_size = sint (of_int (bv_size v) :: int32), bv_bits = bytes, bv_count = n\<rparr>, s)))) (gap_wire 0 0 (bv_bits v)) (counted v)"
      unfolding l(3,5) alloc bind_r_simps Let_def by simp
    from gets_bind [where g = "\<lambda>count s. bind_r (bv_alloc (sint (of_int (bv_size v) :: int32))) (\<lambda>zeros.
       let n = fst (bv_countBits \<lparr>bv_size = sint (of_int (bv_size v) :: int32), bv_bits = zeros, bv_count = sint count\<rparr>) in
       bind_r (returns (bv_readGaps rb 0 n zeros s)) (\<lambda>(bytes, s).
         Inr (\<lparr>bv_size = sint (of_int (bv_size v) :: int32), bv_bits = bytes, bv_count = n\<rparr>, s)))", OF gets_int this]
    have "gets (\<lambda>s. bind_r (readInt rb s) (\<lambda>(count, s). bind_r (bv_alloc (sint (of_int (bv_size v) :: int32))) (\<lambda>zeros.
       let n = fst (bv_countBits \<lparr>bv_size = sint (of_int (bv_size v) :: int32), bv_bits = zeros, bv_count = sint count\<rparr>) in
       bind_r (returns (bv_readGaps rb 0 n zeros s)) (\<lambda>(bytes, s).
         Inr (\<lparr>bv_size = sint (of_int (bv_size v) :: int32), bv_bits = bytes, bv_count = n\<rparr>, s)))))
       (int_wire ?m @ gap_wire 0 0 (bv_bits v)) (counted v)" .
    from gets_bind [where g = "\<lambda>size32 s. bind_r (readInt rb s) (\<lambda>(count, s). bind_r (bv_alloc (sint size32)) (\<lambda>zeros.
       let n = fst (bv_countBits \<lparr>bv_size = sint size32, bv_bits = zeros, bv_count = sint count\<rparr>) in
       bind_r (returns (bv_readGaps rb 0 n zeros s)) (\<lambda>(bytes, s).
         Inr (\<lparr>bv_size = sint size32, bv_bits = bytes, bv_count = n\<rparr>, s))))", OF gets_int this]
    show ?thesis unfolding bv_readDgaps_def [abs_def] .
  qed
  have "gets (\<lambda>s. if size32 = -1 then bv_readDgaps rb s else bv_readBits rb rbs (sint size32) s) w (counted v) \<Longrightarrow>
      gets (bv_read rb rbs) (int_wire size32 @ w) (counted v)" for size32 w
    unfolding bv_read_def [abs_def]
    using gets_bind [where g = "\<lambda>size32 s. if size32 = -1 then bv_readDgaps rb s else bv_readBits rb rbs (sint size32) s", OF gets_int] .
  from this [of "of_int (bv_size v)" "int_wire ?m @ bv_bits v"] this [of "-1" "int_wire (of_int (bv_size v)) @ int_wire ?m @ gap_wire 0 0 (bv_bits v)"]
  show ?thesis using bits gaps l by (simp add: bv_wire_def Let_def)
qed

end

subsection \<open>Subsets\<close>

lemma map_r_total: "\<forall>x\<in>set xs. f x = Inr (g x) \<Longrightarrow> map_r f xs = Inr (map g xs)"
  by (induction xs) auto

text \<open>Bit \<open>j\<close> of a byte of the subset is the bit of the vector that far behind the start.\<close>

lemma piece_bit:
  fixes x y :: byte
  assumes "k < 8" "j < 8"
  shows "bit (ucast (drop_bit k (ucast x :: int32) OR push_bit (8 - k) (ucast y :: int32)) :: byte) j \<longleftrightarrow>
    (if j + k < 8 then bit x (j + k) else bit y (j + k - 8))"
proof (cases "j + k < 8")
  case True
  then show ?thesis using assms by (auto simp: bit_simps add.commute)
next
  case False
  then have "j - (8 - k) = j + k - 8" using assms by simp
  then show ?thesis using assms False bit_imp_le_length [of x "j + k"] by (auto simp: bit_simps add.commute)
qed

lemma bv_docs_split: "j < 8 \<Longrightarrow> 8 * i + j \<in> bv_docs bs \<longleftrightarrow> i < length bs \<and> bit (bs ! i) j"
  by (auto simp: bv_docs_def)

lemma bv_subset_bytes:
  assumes v: "bv_ok v" and a: "0 \<le> start" "start < stop" "stop \<le> bv_size v"
  defines "m \<equiv> nat (stop - start)"
  shows "\<exists>bytes. bv_subset start stop v = Inr (bitVectorOf bytes (stop - start)) \<and> length bytes = (m - 1) div 8 + 1 \<and>
    bv_docs bytes = {i. i < m \<and> nat start + i \<in> bv_docs (bv_bits v)}"
proof -
  define n s k where "n = (m - 1) div 8 + 1" and "s = nat start div 8" and "k = nat start mod 8"
  let ?B = "bv_bits v"
  define g where "g i = (ucast (drop_bit k (ucast (?B ! (i + s)) :: int32) OR
    push_bit (8 - k) (ucast (if length ?B \<le> i + s + 1 then 0 else ?B ! (i + s + 1)) :: int32)) :: byte)" for i
  have len: "int (length ?B) = bv_size v div 8 + 1" using v by (simp add: bv_ok_def)
  have st: "nat start = 8 * s + k" "k < 8" by (simp_all add: s_def k_def)
  have m: "0 < m" "nat start + m \<le> nat (bv_size v)" using a by (simp_all add: m_def)
  have inside: "i + s < length ?B" if "i < n" for i
  proof -
    have "8 * i < m" using that m(1) unfolding n_def by presburger
    then have "8 * (i + s) < nat start + m" unfolding st(1) by simp
    then have "8 * (i + s) < nat (bv_size v)" using m(2) by (rule less_le_trans)
    then have "8 * int (i + s) < bv_size v" by (simp add: zless_nat_eq_int_zless)
    then have "int (i + s) < bv_size v div 8 + 1" by presburger
    then show ?thesis using len by simp
  qed
  have bit_g: "bit (g i) j \<longleftrightarrow> nat start + (8 * i + j) \<in> bv_docs ?B" if "i < n" "j < 8" for i j
  proof (cases "j + k < 8")
    case True
    have e: "nat start + (8 * i + j) = 8 * (i + s) + (j + k)" using st(1) by simp
    have "bit (g i) j \<longleftrightarrow> bit (?B ! (i + s)) (j + k)" using True piece_bit [OF st(2) that(2)] by (simp add: g_def)
    then show ?thesis unfolding e bv_docs_split [OF True] using inside [OF that(1)] by blast
  next
    case False
    have e: "nat start + (8 * i + j) = 8 * (i + s + 1) + (j + k - 8)" and l: "j + k - 8 < 8" using st that(2) False by simp_all
    have "bit (g i) j \<longleftrightarrow> i + s + 1 < length ?B \<and> bit (?B ! (i + s + 1)) (j + k - 8)"
      using False piece_bit [OF st(2) that(2)] by (simp add: g_def)
    then show ?thesis unfolding e bv_docs_split [OF l] .
  qed
  have pieces: "map_r (\<lambda>i. bind_r (arr_get ?B (i + s)) (\<lambda>cur.
                     bind_r (if length ?B \<le> i + s + 1 then Inr 0 else arr_get ?B (i + s + 1)) (\<lambda>next.
                     Inr (ucast (drop_bit k (ucast cur :: int32) OR push_bit (8 - k) (ucast next :: int32)) :: byte)))) [0..<n] = Inr (map g [0..<n])"
    by (rule map_r_total) (auto simp: g_def inside)
  define c where "c = (n * 8 - m) mod 8"
  have c: "8 * (n - 1) + (8 - c) = m" "c < 8"
  proof -
    define q r where "q = (m - 1) div 8" and "r = (m - 1) mod 8"
    have q: "m = 8 * q + r + 1" "r < 8" "n = q + 1" using m(1) by (simp_all add: q_def r_def n_def)
    then have "c = 7 - r" by (simp add: c_def)
    then show "8 * (n - 1) + (8 - c) = m" "c < 8" using q by simp_all
  qed
  define bytes where "bytes = (map g [0..<n])[n - 1 := map g [0..<n] ! (n - 1) AND ucast (NOT (push_bit (8 - c) (0xff :: int32)))]"
  have "0 < n" by (simp add: n_def)
  have sub: "bv_subset start stop v = Inr (bitVectorOf bytes (stop - start))"
  proof -
    have "nat (stop - start - 1) div 8 + 1 = n" using a by (simp add: n_def m_def nat_diff_distrib')
    then show ?thesis using a pieces by (simp add: bv_subset_def Let_def s_def [symmetric] k_def [symmetric] m_def [symmetric] c_def bytes_def)
  qed
  have cut: "bit (ucast (NOT (push_bit (8 - c) (0xff :: int32))) :: byte) j \<longleftrightarrow> j < 8 \<and> j < 8 - c" for j
    using c(2) by (auto simp: bit_simps bit_consts)
  have "i \<in> bv_docs bytes \<longleftrightarrow> i < m \<and> nat start + i \<in> bv_docs ?B" for i
  proof -
    define q j where "q = i div 8" and "j = i mod 8"
    have i: "i = 8 * q + j" "j < 8" by (simp_all add: q_def j_def)
    have lb: "length bytes = n" by (simp add: bytes_def)
    consider "n \<le> q" | "q < n - 1" | "q = n - 1" by linarith
    then show ?thesis
    proof cases
      case 1
      then have "m \<le> i" using c(1) \<open>0 < n\<close> i(1) by linarith
      then show ?thesis using 1 lb i bv_docs_split [OF i(2), of q bytes] by simp
    next
      case 2
      then have "i < m" using c(1,2) i by linarith
      moreover have "q < n" "bytes ! q = g q" using 2 by (simp_all add: bytes_def)
      ultimately show ?thesis using 2 lb i bv_docs_split [OF i(2), of q bytes] bit_g [of q j] by simp
    next
      case 3
      then have "i < m \<longleftrightarrow> j < 8 - c" using c(1) i(1) by linarith
      moreover have "bytes ! q = g q AND ucast (NOT (push_bit (8 - c) (0xff :: int32)))" using 3 \<open>0 < n\<close> by (simp add: bytes_def)
      ultimately show ?thesis using 3 \<open>0 < n\<close> lb i bv_docs_split [OF i(2), of q bytes] bit_g [of q j] cut [of j] by (auto simp: bit_and_iff)
    qed
  qed
  then have "bv_docs bytes = {i. i < m \<and> nat start + i \<in> bv_docs ?B}" by blast
  moreover have "length bytes = (m - 1) div 8 + 1" by (simp add: bytes_def n_def)
  ultimately show ?thesis using sub by blast
qed

text \<open>A subset of a multiple of eight bits has no byte behind its last bit, but \<^verbatim>\<open>readBits\<close>
  asks for one byte more than that: such a subset cannot be written in the plain format and read.\<close>

lemma bv_subset_length:
  assumes "bv_ok v" "0 \<le> start" "start < stop" "stop \<le> bv_size v" "(stop - start) mod 8 = 0" "bv_subset start stop v = Inr w"
  shows "bv_alloc (bv_size w) = Inr (replicate (Suc (length (bv_bits w))) 0)"
proof -
  obtain bytes where b: "w = bitVectorOf bytes (stop - start)" "length bytes = (nat (stop - start) - 1) div 8 + 1"
    using bv_subset_bytes [OF assms(1-4)] assms(6) by auto
  obtain q where q: "stop - start = 8 * q" using assms(5) by auto
  then have "0 < q" using assms(3) by simp
  then have "nat (stop - start) - 1 = 8 * (nat q - 1) + 7" using q by simp
  then have "length bytes = nat q" using b(2) \<open>0 < q\<close> by simp
  then show ?thesis using b(1) q \<open>0 < q\<close> by (simp add: bitVectorOf_def bv_alloc_def nat_add_distrib)
qed

subsection \<open>The properties\<close>

text \<open>
  C35. A new vector is the empty set, and any sequence of \<^verbatim>\<open>set\<close>, \<^verbatim>\<open>clear\<close>,
  \<^verbatim>\<open>getAndSet\<close> and \<^verbatim>\<open>count\<close> on bits below the size returns what the same sequence on a set
  returns, whether the count is cached or not; afterwards \<^verbatim>\<open>get\<close> decides membership, the
  recomputed count is the cardinality and a clone holds the same set.
\<close>

theorem bitvector_refines_set:
  assumes "0 \<le> n" "n < 2 ^ 31" "\<forall>c\<in>set cs. op_in n c"
  shows "\<exists>v w. newBitVector n = Inr v \<and> bv_run cs v = Inr (fst (set_run cs {}), w) \<and>
    (\<forall>i. 0 \<le> i \<longrightarrow> i < n \<longrightarrow> bv_get i (bv_clone w) = Inr (nat i \<in> snd (set_run cs {}))) \<and>
    bv_getRecomputedCount w = card (snd (set_run cs {}))"
proof -
  obtain v where v: "newBitVector n = Inr v" "bv_ok v" "bv_size v = n" "bv_docs (bv_bits v) = {}"
    using newBitVector_ok [OF assms(1,2)] by blast
  obtain outs w where w: "bv_run cs v = Inr (outs, w)" "set_run cs {} = (outs, bv_docs (bv_bits w))" "bv_ok w" "bv_size w = n"
    using bv_run_refines [OF v(2), of cs] assms(3) v(3,4) by auto
  have "bv_clone w = w" by (simp add: bv_clone_def bitVectorOf_def)
  then show ?thesis using v(1) w bv_get_step [OF w(3)] by (auto simp: bv_getRecomputedCount_def count_sum)
qed

theorem bitvector_refines_set_witness:
  "\<exists>v w. newBitVector 20 = Inr v \<and>
    bv_run [SetBit 3, GetAndSetBit 17, CountBits, GetAndSetBit 3, ClearBit 3, CountBits] v = Inr ([0, 2, 1, 1], w) \<and>
    bv_get 17 (bv_clone w) = Inr True \<and> bv_get 3 (bv_clone w) = Inr False"
proof -
  let ?cs = "[SetBit 3, GetAndSetBit 17, CountBits, GetAndSetBit 3, ClearBit 3, CountBits]"
  have r: "set_run ?cs {} = ([0, 2, 1, 1], {17})" by (simp add: insert_commute insert_Diff_if)
  have "\<forall>c\<in>set ?cs. op_in 20 c" by simp
  from bitvector_refines_set [OF _ _ this] show ?thesis unfolding r by fastforce
qed

text \<open>
  C36. A vector with the array that the constructor makes for its size (one byte more than an eighth of the
  size, \<open>bv_ok\<close>; what \<^verbatim>\<open>subset\<close> makes for a size divisible by eight is shorter and not covered), written to a file, is read back with its size, its bits and the true count, in
  whichever of the two formats \<^verbatim>\<open>isSparse\<close> chooses, and the reader is then at the end of the
  file.
\<close>

theorem bitvector_file_roundtrip:
  assumes "bv_ok v"
  shows "\<exists>w r u r'. bv_write ro_writeByte ram_writeBytes v (newRAMOutputStream newRAMFile) = Inr w \<and>
    newRAMInputStream (ro_file (ro_flush w)) = Inr r \<and> bv_read ri_readByte ram_readBytes r = Inr (u, r') \<and>
    ri_readByte r' = Inl IOException \<and> bv_size u = bv_size v \<and> bv_bits u = bv_bits v \<and> bv_ok u \<and>
    bv_count u = int (card (bv_docs (bv_bits v)))"
proof -
  have "length (bv_wire v) < 2 ^ 40" using length_bv_wire [of v] bv_ok_lengths(1) [OF assms] by simp
  from ram_roundtrip [OF ram_text_sink.puts_bitvector [OF assms] this ram_text_source.gets_bitvector [OF assms]]
  obtain w r r' where r: "bv_write ro_writeByte ram_writeBytes v (newRAMOutputStream newRAMFile) = Inr w"
    "newRAMInputStream (ro_file (ro_flush w)) = Inr r" "bv_read ri_readByte ram_readBytes r = Inr (counted v, r')"
    "ri_readByte r' = Inl IOException" by blast
  moreover have "bv_ok (counted v)" using bv_count_step(2) [OF assms] by (simp add: counted_def)
  moreover have "bv_count (counted v) = int (card (bv_docs (bv_bits v)))" unfolding counted_facts(4) [OF assms] by simp
  ultimately show ?thesis using counted_facts(1,2) [OF assms] by blast
qed

lemma example_vector: "bv_ok \<lparr>bv_size = 600, bv_bits = replicate 76 0, bv_count = -1\<rparr>"
  by (simp add: bv_ok_def)

theorem bitvector_file_roundtrip_witness:
  "\<exists>w r u r'. bv_write ro_writeByte ram_writeBytes \<lparr>bv_size = 600, bv_bits = replicate 76 0, bv_count = -1\<rparr>
      (newRAMOutputStream newRAMFile) = Inr w \<and> newRAMInputStream (ro_file (ro_flush w)) = Inr r \<and>
    bv_read ri_readByte ram_readBytes r = Inr (u, r') \<and> bv_size u = 600 \<and> bv_count u = 0"
proof -
  from bitvector_file_roundtrip [OF example_vector] show ?thesis by (simp only: bit_vector.simps bv_docs_zeros card.empty) force
qed

text \<open>
  C37. \<^verbatim>\<open>subset\<close> is the part of the set between the bounds, moved to zero, also where the
  bounds are not at the bounds of bytes; bounds outside the vector or in the wrong order throw.
\<close>

theorem bitvector_subset:
  assumes "bv_ok v"
  shows "if 0 \<le> start \<and> start \<le> stop \<and> stop \<le> bv_size v then
      \<exists>w. bv_subset start stop v = Inr w \<and> bv_size w = stop - start \<and>
        bv_docs (bv_bits w) = {i. int i < stop - start \<and> nat start + i \<in> bv_docs (bv_bits v)}
    else bv_subset start stop v = Inl IndexOutOfBounds"
proof (cases "0 \<le> start \<and> start < stop \<and> stop \<le> bv_size v")
  case True
  then obtain bytes where "bv_subset start stop v = Inr (bitVectorOf bytes (stop - start))"
    "bv_docs bytes = {i. i < nat (stop - start) \<and> nat start + i \<in> bv_docs (bv_bits v)}"
    using bv_subset_bytes [OF assms] by blast
  then show ?thesis using True by (simp add: bitVectorOf_def zless_nat_eq_int_zless)
next
  case False
  then show ?thesis using bv_docs_zeros [of 1] by (auto simp: bv_subset_def newBitVector_def bv_alloc_def)
qed

theorem bitvector_subset_witness:
  "\<exists>w. bv_subset 3 21 \<lparr>bv_size = 600, bv_bits = replicate 76 0, bv_count = -1\<rparr> = Inr w \<and> bv_size w = 18"
  using bitvector_subset [OF example_vector, of 3 21] by (simp only: bit_vector.simps if_True) force

end
