(* ===== verification/PriorityQueue.thy ===== *)
theory PriorityQueue imports LucenePrelude "HOL-Library.Multiset" begin

text \<open>
  The bounded priority queue \<^verbatim>\<open>PriorityQueue.h\<close>: a binary heap in an array whose element 0
  is unused, ordered by the virtual \<^verbatim>\<open>lessThan\<close>, here an argument \<open>lt\<close>. \<open>nul\<close> stands for the
  value \<^verbatim>\<open>TYPE()\<close> of an empty slot. An operation that throws leaves its changes behind, so it
  returns the state beside the result. The array has more elements than \<^verbatim>\<open>_size\<close> until an
  \<^verbatim>\<open>add\<close> has failed; an operation on a queue for which this does not hold reads outside the
  array, which is \<open>OutOfRange\<close>. Positions are computed in \<^verbatim>\<open>int32_t\<close>, so from
position \<open>2 ^ 30\<close> on the children of a node have negative positions.
\<close>

record 'a pq =
  pq_heap :: "'a list"
  pq_size :: nat
  pq_max :: nat

definition newPriorityQueue :: "nat \<Rightarrow> 'a pq" where
  "newPriorityQueue maxSize = \<lparr>pq_heap = [], pq_size = 0, pq_max = maxSize\<rparr>"

text \<open>The sentinel is \<open>None\<close> for a queue whose \<^verbatim>\<open>getSentinelObject\<close> gives a null pointer.\<close>

definition pq_initialize :: "'a \<Rightarrow> 'a option \<Rightarrow> 'a pq \<Rightarrow> 'a pq" where
  "pq_initialize nul sentinel q =
     (let empty = (pq_heap q = []);
          heapSize = (if pq_max q = 0 then 2 else if pq_max q = 2 ^ 31 - 1 then 2 ^ 31 - 1 else pq_max q + 1);
          q = (if empty then q\<lparr>pq_heap := replicate heapSize nul\<rparr> else q)
      in case sentinel of
           Some s \<Rightarrow> if empty then q\<lparr>pq_heap := (pq_heap q ! 0) # replicate (length (pq_heap q) - 1) s, pq_size := pq_max q\<rparr> else q
         | None \<Rightarrow> q)"

text \<open>\<^verbatim>\<open>upHeap\<close>: the loop at position \<open>i\<close> with the saved node.\<close>

function up_loop :: "('a \<Rightarrow> 'a \<Rightarrow> bool) \<Rightarrow> 'a \<Rightarrow> nat \<Rightarrow> 'a list \<Rightarrow> 'a list" where
  "up_loop lt node i h =
     (let j = i div 2
      in if 0 < j \<and> lt node (h ! j) then up_loop lt node j (h[i := h ! j]) else h[i := node])"
  by pat_completeness auto
termination by (relation "measure (\<lambda>(lt, node, i, h). i)") auto

definition upHeap :: "('a \<Rightarrow> 'a \<Rightarrow> bool) \<Rightarrow> 'a pq \<Rightarrow> 'a pq" where
  "upHeap lt q = q\<lparr>pq_heap := up_loop lt (pq_heap q ! pq_size q) (pq_size q) (pq_heap q)\<rparr>"

text \<open>
  \<^verbatim>\<open>downHeap\<close>: the choice of the smaller child, and the loop, whose \<open>i\<close> starts at 1 and is
  afterwards a position that has been read.
\<close>

definition heap_at :: "'a list \<Rightarrow> int \<Rightarrow> 'a result" where
  "heap_at h j = (if j < 0 then Inl OutOfRange else arr_get h (nat j))"

definition smaller_child :: "('a \<Rightarrow> 'a \<Rightarrow> bool) \<Rightarrow> nat \<Rightarrow> 'a list \<Rightarrow> int \<Rightarrow> int result" where
  "smaller_child lt n h i =
     (let j = trunc32 (2 * i); k = trunc32 (j + 1)
      in if k \<le> int n
         then bind_r (heap_at h k) (\<lambda>second. bind_r (heap_at h j) (\<lambda>first. Inr (if lt second first then k else j)))
         else Inr j)"

partial_function (option) down_loop :: "('a \<Rightarrow> 'a \<Rightarrow> bool) \<Rightarrow> 'a \<Rightarrow> nat \<Rightarrow> int \<Rightarrow> 'a list \<Rightarrow> 'a list result option" where
  "down_loop lt node n i h =
     (case smaller_child lt n h i of
        Inl e \<Rightarrow> Some (Inl e)
      | Inr j \<Rightarrow>
          if j \<le> int n
          then (case heap_at h j of
                  Inl e \<Rightarrow> Some (Inl e)
                | Inr x \<Rightarrow> if lt x node then down_loop lt node n j (h[nat i := x]) else Some (Inr (h[nat i := node])))
          else Some (Inr (h[nat i := node])))"

declare up_loop.simps [simp del]

definition downHeap :: "('a \<Rightarrow> 'a \<Rightarrow> bool) \<Rightarrow> 'a pq \<Rightarrow> 'a pq result" where
  "downHeap lt q =
     bind_r (arr_get (pq_heap q) 1) (\<lambda>node.
     bind_r (returns (down_loop lt node (pq_size q) 1 (pq_heap q))) (\<lambda>h.
     Inr (q\<lparr>pq_heap := h\<rparr>)))"

definition pq_add :: "('a \<Rightarrow> 'a \<Rightarrow> bool) \<Rightarrow> 'a \<Rightarrow> 'a pq \<Rightarrow> 'a result \<times> 'a pq" where
  "pq_add lt x q =
     (let q = q\<lparr>pq_size := pq_size q + 1\<rparr>
      in if length (pq_heap q) \<le> pq_size q then (Inl IndexOutOfBounds, q)
         else let q = upHeap lt (q\<lparr>pq_heap := (pq_heap q)[pq_size q := x]\<rparr>) in (Inr (pq_heap q ! 1), q))"

definition pq_top :: "'a pq \<Rightarrow> 'a" where
  "pq_top q = pq_heap q ! 1"

definition pq_updateTop :: "('a \<Rightarrow> 'a \<Rightarrow> bool) \<Rightarrow> 'a pq \<Rightarrow> 'a result \<times> 'a pq" where
  "pq_updateTop lt q =
     (case downHeap lt q of Inl e \<Rightarrow> (Inl e, q) | Inr q \<Rightarrow> (Inr (pq_heap q ! 1), q))"

definition pq_addOverflow :: "('a \<Rightarrow> 'a \<Rightarrow> bool) \<Rightarrow> 'a \<Rightarrow> 'a \<Rightarrow> 'a pq \<Rightarrow> 'a result \<times> 'a pq" where
  "pq_addOverflow lt nul x q =
     (if pq_size q < pq_max q then case pq_add lt x q of (Inl e, q) \<Rightarrow> (Inl e, q) | (Inr _, q) \<Rightarrow> (Inr nul, q)
      else if 0 < pq_size q
      then case arr_get (pq_heap q) 1 of
             Inl e \<Rightarrow> (Inl e, q)
           | Inr r \<Rightarrow>
               if \<not> lt x r
               then case pq_updateTop lt (q\<lparr>pq_heap := (pq_heap q)[1 := x]\<rparr>) of
                      (Inl e, q) \<Rightarrow> (Inl e, q) | (Inr _, q) \<Rightarrow> (Inr r, q)
               else (Inr x, q)
      else (Inr x, q))"

definition pq_pop :: "('a \<Rightarrow> 'a \<Rightarrow> bool) \<Rightarrow> 'a \<Rightarrow> 'a pq \<Rightarrow> 'a result \<times> 'a pq" where
  "pq_pop lt nul q =
     (if 0 < pq_size q
      then if length (pq_heap q) \<le> pq_size q then (Inl OutOfRange, q)
           else let r = pq_heap q ! 1;
                    h = (pq_heap q)[1 := pq_heap q ! pq_size q];
                    h = h[pq_size q := nul];
                    q = q\<lparr>pq_heap := h, pq_size := pq_size q - 1\<rparr>
                in case downHeap lt q of Inl e \<Rightarrow> (Inl e, q) | Inr q \<Rightarrow> (Inr r, q)
      else (Inr nul, q))"

definition pq_clear :: "'a \<Rightarrow> 'a pq \<Rightarrow> 'a result \<times> 'a pq" where
  "pq_clear nul q =
     (if length (pq_heap q) \<le> pq_size q then (Inl OutOfRange, q)
      else (Inr nul, q\<lparr>pq_heap := replicate (pq_size q + 1) nul @ drop (pq_size q + 1) (pq_heap q), pq_size := 0\<rparr>))"

text \<open>Sequences of operations.\<close>

fun pq_adds :: "('a \<Rightarrow> 'a \<Rightarrow> bool) \<Rightarrow> 'a list \<Rightarrow> 'a pq \<Rightarrow> unit result \<times> 'a pq" where
  "pq_adds lt [] q = (Inr (), q)"
| "pq_adds lt (x # xs) q = (case pq_add lt x q of (Inl e, q) \<Rightarrow> (Inl e, q) | (Inr _, q) \<Rightarrow> pq_adds lt xs q)"

fun pq_overflows :: "('a \<Rightarrow> 'a \<Rightarrow> bool) \<Rightarrow> 'a \<Rightarrow> 'a list \<Rightarrow> 'a pq \<Rightarrow> 'a list result \<times> 'a pq" where
  "pq_overflows lt nul [] q = (Inr [], q)"
| "pq_overflows lt nul (x # xs) q =
     (case pq_addOverflow lt nul x q of (Inl e, q) \<Rightarrow> (Inl e, q)
      | (Inr r, q) \<Rightarrow> (case pq_overflows lt nul xs q of (Inl e, q) \<Rightarrow> (Inl e, q) | (Inr rs, q) \<Rightarrow> (Inr (r # rs), q)))"

fun pq_pops :: "('a \<Rightarrow> 'a \<Rightarrow> bool) \<Rightarrow> 'a \<Rightarrow> nat \<Rightarrow> 'a pq \<Rightarrow> 'a list result \<times> 'a pq" where
  "pq_pops lt nul 0 q = (Inr [], q)"
| "pq_pops lt nul (Suc n) q =
     (case pq_pop lt nul q of (Inl e, q) \<Rightarrow> (Inl e, q)
      | (Inr x, q) \<Rightarrow> (case pq_pops lt nul n q of (Inl e, q) \<Rightarrow> (Inl e, q) | (Inr xs, q) \<Rightarrow> (Inr (x # xs), q)))"

subsection \<open>Sifting down in range\<close>

text \<open>
  The same walk over positions that are natural numbers, which is what the code does as long as
  the queue holds fewer than \<open>2 ^ 30\<close> elements.
\<close>

definition min_child :: "('a \<Rightarrow> 'a \<Rightarrow> bool) \<Rightarrow> nat \<Rightarrow> 'a list \<Rightarrow> nat \<Rightarrow> nat" where
  "min_child lt n h i =
     (let j = 2 * i; k = j + 1 in if k \<le> n \<and> lt (h ! k) (h ! j) then k else j)"

function sift_down :: "('a \<Rightarrow> 'a \<Rightarrow> bool) \<Rightarrow> 'a \<Rightarrow> nat \<Rightarrow> nat \<Rightarrow> 'a list \<Rightarrow> 'a list" where
  "sift_down lt node n i h =
     (let j = min_child lt n h i
      in if 0 < i \<and> j \<le> n \<and> lt (h ! j) node then sift_down lt node n j (h[i := h ! j]) else h[i := node])"
  by pat_completeness auto
termination
  by (relation "measure (\<lambda>(lt, node, n, i, h). n - i)") (auto simp: min_child_def Let_def split: if_splits)

declare sift_down.simps [simp del]

lemma trunc32_small: "n < 2 ^ 31 \<Longrightarrow> trunc32 (int n) = int n"
  by simp

lemma smaller_child_min:
  assumes "0 < i" "i < 2 ^ 30" "n < length h"
  shows "smaller_child lt n h (int i) = Inr (int (min_child lt n h i))"
proof -
  have "trunc32 (2 * int i) = int (2 * i)" "trunc32 (int (2 * i) + 1) = int (2 * i + 1)"
    using assms(2) trunc32_small [of "2 * i"] trunc32_small [of "2 * i + 1"] by simp_all
  moreover have "nat (2 * int i) = 2 * i" by arith
  ultimately show ?thesis using assms(3) unfolding smaller_child_def min_child_def Let_def by (auto simp: heap_at_def nat_add_distrib)
qed

lemma down_loop_sift:
  "0 < i \<Longrightarrow> i \<le> max 1 n \<Longrightarrow> n < 2 ^ 30 \<Longrightarrow> n < length h \<Longrightarrow>
   down_loop lt node n (int i) h = Some (Inr (sift_down lt node n i h))"
proof (induction lt node n i h rule: sift_down.induct)
  case (1 lt node n i h)
  let ?j = "min_child lt n h i"
  have c: "smaller_child lt n h (int i) = Inr (int ?j)" by (rule smaller_child_min) (use 1(2-5) in auto)
  show ?case
  proof (cases "?j \<le> n \<and> lt (h ! ?j) node")
    case True
    have j: "0 < ?j" using 1(2) by (auto simp: min_child_def Let_def)
    have "down_loop lt node n (int i) h = down_loop lt node n (int ?j) (h[i := h ! ?j])"
      using True c 1(5) by (subst down_loop.simps) (simp add: heap_at_def)
    also have "\<dots> = Some (Inr (sift_down lt node n ?j (h[i := h ! ?j])))"
      using 1(1) [OF refl] 1(2,4,5) True j by simp
    also have "sift_down lt node n ?j (h[i := h ! ?j]) = sift_down lt node n i h"
      using True 1(2) by (subst (2) sift_down.simps) (simp add: Let_def)
    finally show ?thesis .
  next
    case False
    then have "sift_down lt node n i h = h[i := node]" by (subst sift_down.simps) (auto simp: Let_def)
    moreover have "down_loop lt node n (int i) h = Some (Inr (h[i := node]))"
      using False c 1(5) by (subst down_loop.simps) (auto simp: heap_at_def)
    ultimately show ?thesis by simp
  qed
qed

lemma downHeap_sift:
  assumes "pq_size q < 2 ^ 30" "pq_size q < length (pq_heap q)" "1 < length (pq_heap q)"
  shows "downHeap lt q = Inr (q\<lparr>pq_heap := sift_down lt (pq_heap q ! 1) (pq_size q) 1 (pq_heap q)\<rparr>)"
  using down_loop_sift [of 1 "pq_size q" "pq_heap q" lt "pq_heap q ! 1"] assms by (simp add: downHeap_def)

subsection \<open>The heap property\<close>

text \<open>
  The interface of \<^verbatim>\<open>lessThan\<close>: a strict weak order. Everything the queue promises follows from it.
\<close>

locale queue_order =
  fixes lt :: "'a \<Rightarrow> 'a \<Rightarrow> bool"
  assumes lt_asym: "lt x y \<Longrightarrow> \<not> lt y x"
    and lt_cotrans: "lt x z \<Longrightarrow> lt x y \<or> lt y z"

definition heap_from :: "('a \<Rightarrow> 'a \<Rightarrow> bool) \<Rightarrow> nat \<Rightarrow> 'a list \<Rightarrow> bool" where
  "heap_from lt n h \<longleftrightarrow> n < length h \<and> (\<forall>k. 2 \<le> k \<and> k \<le> n \<longrightarrow> \<not> lt (h ! k) (h ! (k div 2)))"

text \<open>A heap but for the element at \<open>i\<close>, which may be too small (while sifting up) or too large.\<close>

definition heap_up :: "('a \<Rightarrow> 'a \<Rightarrow> bool) \<Rightarrow> nat \<Rightarrow> nat \<Rightarrow> 'a list \<Rightarrow> bool" where
  "heap_up lt n i h \<longleftrightarrow> n < length h \<and> 0 < i \<and> i \<le> n \<and>
     (\<forall>k. 2 \<le> k \<and> k \<le> n \<and> k \<noteq> i \<longrightarrow> \<not> lt (h ! k) (h ! (k div 2))) \<and>
     (\<forall>k. 2 \<le> i \<and> k \<le> n \<and> k div 2 = i \<longrightarrow> \<not> lt (h ! k) (h ! (i div 2)))"

definition heap_down :: "('a \<Rightarrow> 'a \<Rightarrow> bool) \<Rightarrow> nat \<Rightarrow> nat \<Rightarrow> 'a list \<Rightarrow> bool" where
  "heap_down lt n i h \<longleftrightarrow> n < length h \<and> 0 < i \<and> i < length h \<and>
     (\<forall>k. 2 \<le> k \<and> k \<le> n \<and> k div 2 \<noteq> i \<longrightarrow> \<not> lt (h ! k) (h ! (k div 2))) \<and>
     (\<forall>k. 2 \<le> i \<and> k \<le> n \<and> k div 2 = i \<longrightarrow> \<not> lt (h ! k) (h ! (i div 2)))"

definition pq_elems :: "'a pq \<Rightarrow> 'a list" where
  "pq_elems q = take (pq_size q) (tl (pq_heap q))"

definition pq_ok :: "('a \<Rightarrow> 'a \<Rightarrow> bool) \<Rightarrow> 'a pq \<Rightarrow> bool" where
  "pq_ok lt q \<longleftrightarrow> heap_from lt (pq_size q) (pq_heap q) \<and> pq_size q \<le> pq_max q \<and> pq_max q < 2 ^ 30 \<and>
     length (pq_heap q) = (if pq_max q = 0 then 2 else pq_max q + 1)"

lemma heap_length: "pq_ok lt q \<Longrightarrow> pq_size q < length (pq_heap q) \<and> 1 < length (pq_heap q) \<and> pq_size q < 2 ^ 30"
  by (auto simp: pq_ok_def)

lemma elems_append: "Suc n < length h \<Longrightarrow> take (Suc n) (tl h) = take n (tl h) @ [h ! Suc n]"
  by (simp add: take_Suc_conv_app_nth nth_tl)

lemma elems_Cons: "0 < n \<Longrightarrow> n < length h \<Longrightarrow> take n (tl h) = h ! 1 # take (n - 1) (tl (tl h))"
  by (cases h; cases "tl h"; cases n) auto

lemma mset_swap2: "i < length h \<Longrightarrow> j < length h \<Longrightarrow> mset (h[i := h ! j, j := h ! i]) = mset h"
  by (cases "i = j") (auto simp: mset_update mset_swap)

lemma tl_update: "0 < i \<Longrightarrow> tl (h[i := x]) = (tl h)[i - 1 := x]"
  by (cases h) (auto split: nat.splits)

lemma mset_elems_swap:
  assumes "0 < i" "i \<le> n" "0 < j" "j \<le> n" "n < length h"
  shows "mset (take n (tl (h[i := h ! j, j := h ! i]))) = mset (take n (tl h))"
proof -
  let ?g = "take n (tl h)"
  have "take n (tl (h[i := h ! j, j := h ! i])) = ?g[i - 1 := ?g ! (j - 1), j - 1 := ?g ! (i - 1)]"
    using assms by (simp add: tl_update take_update_swap nth_tl)
  then show ?thesis using assms mset_swap2 [of "i - 1" ?g "j - 1"] by simp
qed


context queue_order begin

lemma lt_irrefl: "\<not> lt x x"
  using lt_asym by blast

lemma lt_trans: "lt x y \<Longrightarrow> lt y z \<Longrightarrow> lt x z"
  using lt_asym lt_cotrans by blast

lemma ge_trans: "\<not> lt x y \<Longrightarrow> \<not> lt y z \<Longrightarrow> \<not> lt x z"
  using lt_cotrans by blast

lemma heap_min:
  assumes "heap_from lt n h" "1 \<le> k" "k \<le> n"
  shows "\<not> lt (h ! k) (h ! 1)"
  using assms(2,3)
proof (induction k rule: less_induct)
  case (less k)
  show ?case
  proof (cases "k = 1")
    case False
    then have "k div 2 < k" "1 \<le> k div 2" "k div 2 \<le> n" "2 \<le> k" using less.prems by auto
    moreover from this(4) have "\<not> lt (h ! k) (h ! (k div 2))" using assms(1) less.prems by (simp add: heap_from_def)
    ultimately show ?thesis using less.IH [of "k div 2"] ge_trans by blast
  qed (simp add: lt_irrefl)
qed

lemma up_step:
  assumes h: "heap_up lt n i (h[i := node])" and j: "j = i div 2" "0 < j" "lt node (h ! j)"
  shows "heap_up lt n j (h[i := h ! j, j := node])"
proof -
  let ?g = "h[i := h ! j, j := node]"
  have ij: "j < i" "i \<le> n" "n < length h" "2 \<le> i" using h j by (auto simp: heap_up_def)
  have at: "?g ! k = (if k = j then node else if k = i then h ! j else h ! k)" if "k \<le> n" for k
    using ij that by (simp add: nth_list_update)
  have up: "\<not> lt (h ! k) (h ! (k div 2))" if "2 \<le> k" "k \<le> n" "k \<noteq> i" "k div 2 \<noteq> i" for k
    using h that by (auto simp: heap_up_def)
  have gr: "\<not> lt (h ! k) (h ! j)" if "k \<le> n" "k div 2 = i" for k
    using h that ij j(1) by (auto simp: heap_up_def)
  have sib: "\<not> lt (h ! k) (h ! j)" if "2 \<le> k" "k \<le> n" "k \<noteq> i" "k div 2 = j" for k
    using up [of k] that ij by simp
  have "\<not> lt (?g ! k) (?g ! (k div 2))" if "2 \<le> k" "k \<le> n" "k \<noteq> j" for k
  proof -
    consider "k = i" | "k \<noteq> i" "k div 2 = i" | "k \<noteq> i" "k div 2 = j" | "k \<noteq> i" "k div 2 \<noteq> i" "k div 2 \<noteq> j" by blast
    then show ?thesis
    proof cases
      case 1
      then show ?thesis using at [of i] at [of j] ij lt_asym [OF j(3)] j(1) by simp
    next
      case 2
      then show ?thesis using at [of k] at [of i] gr [of k] ij that by simp
    next
      case 3
      then show ?thesis using at [of k] at [of j] sib [of k] lt_trans [OF _ j(3)] ij that by auto
    next
      case 4
      have "k div 2 \<le> n" using that by simp
      then show ?thesis using at [of k] at [of "k div 2"] up [of k] that 4 by simp
    qed
  qed
  moreover have "\<not> lt (?g ! k) (?g ! (j div 2))" if "2 \<le> j" "k \<le> n" "k div 2 = j" for k
  proof -
    have "k \<noteq> j" "j div 2 \<noteq> i" "j div 2 \<noteq> j" "j div 2 \<le> n" "2 \<le> k" using ij that by auto
    moreover have "\<not> lt (h ! j) (h ! (j div 2))" using up [of j] ij that by simp
    ultimately have "k \<noteq> j" "k \<noteq> i \<Longrightarrow> \<not> lt (h ! k) (h ! (j div 2))" "\<not> lt (h ! j) (h ! (j div 2))"
      "?g ! (j div 2) = h ! (j div 2)"
      using sib [of k] that ge_trans [of "h ! k" "h ! j" "h ! (j div 2)"] at [of "j div 2"] by auto
    then show ?thesis using at [OF that(2)] by (cases "k = i") simp_all
  qed
  ultimately show ?thesis using ij j(1,2) unfolding heap_up_def length_list_update
    by (auto simp del: nth_list_update_eq nth_list_update_neq)
qed

lemma up_loop_ok:
  "heap_up lt n i (h[i := node]) \<Longrightarrow> heap_from lt n (up_loop lt node i h) \<and>
     mset (take n (tl (up_loop lt node i h))) = mset (take n (tl (h[i := node]))) \<and>
     length (up_loop lt node i h) = length h"
proof (induction i arbitrary: h rule: less_induct)
  case (less i)
  show ?case
  proof (cases "0 < i div 2 \<and> lt node (h ! (i div 2))")
    case True
    let ?j = "i div 2" and ?h = "h[i := h ! (i div 2)]"
    have ij: "?j < i" "i \<le> n" "n < length h" "0 < i" using less.prems True by (auto simp: heap_up_def)
    have "heap_up lt n ?j (?h[?j := node])" using up_step [OF less.prems refl] True by simp
    from less.IH [OF ij(1) this] have IH: "heap_from lt n (up_loop lt node ?j ?h)"
      "mset (take n (tl (up_loop lt node ?j ?h))) = mset (take n (tl (?h[?j := node])))"
      "length (up_loop lt node ?j ?h) = length h" by simp_all
    have "?h[?j := node] = (h[i := node])[i := h[i := node] ! ?j, ?j := h[i := node] ! i]" using ij by simp
    then have "mset (take n (tl (?h[?j := node]))) = mset (take n (tl (h[i := node])))"
      using mset_elems_swap [of i n ?j "h[i := node]"] ij True by simp
    moreover have "up_loop lt node i h = up_loop lt node ?j ?h" using True by (subst up_loop.simps) (simp add: Let_def)
    ultimately show ?thesis using IH by simp
  next
    case False
    then have "up_loop lt node i h = h[i := node]" by (subst up_loop.simps) (auto simp: Let_def)
    moreover have "\<not> lt (h[i := node] ! k) (h[i := node] ! (k div 2))" if "2 \<le> k" "k \<le> n" for k
      using less.prems False that by (cases "k = i") (auto simp: heap_up_def)
    ultimately show ?thesis using less.prems by (simp add: heap_from_def heap_up_def)
  qed
qed

lemma min_child_le:
  assumes "0 < i" "min_child lt n h i = j" "2 \<le> k" "k \<le> n" "k div 2 = i"
  shows "\<not> lt (h ! k) (h ! j)"
proof -
  have "k = 2 * i \<or> k = 2 * i + 1" using assms(5) by arith
  then show ?thesis using assms lt_irrefl by (auto simp: min_child_def Let_def split: if_splits dest: lt_asym)
qed

lemma min_child_cases: "min_child lt n h i = 2 * i \<or> min_child lt n h i = 2 * i + 1 \<and> 2 * i + 1 \<le> n"
  by (auto simp: min_child_def Let_def)

lemma down_step:
  assumes h: "heap_down lt n i (h[i := node])" and j: "j = min_child lt n h i" "j \<le> n" "lt (h ! j) node"
  shows "heap_down lt n j (h[i := h ! j, j := node])"
proof -
  let ?g = "h[i := h ! j, j := node]"
  have ij: "0 < i" "i < j" "j div 2 = i" "n < length h" "2 \<le> j"
    using h j(1) min_child_cases [of n h i] by (auto simp: heap_down_def)
  have at: "?g ! k = (if k = j then node else if k = i then h ! j else h ! k)" if "k \<le> n" for k
    using ij j(2) that by (simp add: nth_list_update)
  have up: "\<not> lt (h ! k) (h ! (k div 2))" if "2 \<le> k" "k \<le> n" "k \<noteq> i" "k div 2 \<noteq> i" for k
    using h that by (auto simp: heap_down_def)
  have gr: "\<not> lt (h ! j) (h ! (i div 2))" if "2 \<le> i"
    using h that ij j(2) by (auto simp: heap_down_def)
  have sib: "\<not> lt (h ! k) (h ! j)" if "2 \<le> k" "k \<le> n" "k div 2 = i" for k
    using min_child_le [OF ij(1) j(1) [symmetric] that] .
  have "\<not> lt (?g ! k) (?g ! (k div 2))" if "2 \<le> k" "k \<le> n" "k div 2 \<noteq> j" for k
  proof -
    have le: "k div 2 \<le> n" using that by simp
    consider "k = i" | "k = j" | "k \<noteq> j" "k div 2 = i" | "k \<noteq> i" "k \<noteq> j" "k div 2 \<noteq> i" by blast
    then show ?thesis
    proof cases
      case 1
      then show ?thesis using at [of i] at [of "i div 2"] gr ij that le by auto
    next
      case 2
      then show ?thesis using at [of i] at [of j] ij lt_asym [OF j(3)] that le by auto
    next
      case 3
      then show ?thesis using at [of i] at [of k] ij sib [of k] that le by auto
    next
      case 4
      then show ?thesis using at [of k] at [of "k div 2"] up [of k] that le by auto
    qed
  qed
  moreover have "\<not> lt (?g ! k) (?g ! (j div 2))" if "k \<le> n" "k div 2 = j" for k
  proof -
    have "k \<noteq> j" "k \<noteq> i" "2 \<le> k" "k div 2 \<noteq> i" using ij that by auto
    then show ?thesis using at [of k] at [of i] up [of k] ij j(2) that by auto
  qed
  ultimately show ?thesis using ij j(2) unfolding heap_down_def length_list_update
    by (auto simp del: nth_list_update_eq nth_list_update_neq)
qed

lemma sift_down_ok:
  "heap_down lt n i (h[i := node]) \<Longrightarrow> i \<le> max 1 n \<Longrightarrow> heap_from lt n (sift_down lt node n i h) \<and>
     mset (take n (tl (sift_down lt node n i h))) = mset (take n (tl (h[i := node]))) \<and>
     length (sift_down lt node n i h) = length h"
proof (induction "n - i" arbitrary: i h rule: less_induct)
  case less
  let ?j = "min_child lt n h i"
  have i: "0 < i" "n < length h" using less.prems by (auto simp: heap_down_def)
  show ?case
  proof (cases "?j \<le> n \<and> lt (h ! ?j) node")
    case True
    let ?h = "h[i := h ! ?j]"
    have ij: "i < ?j" "0 < ?j" "?j \<le> n" "n - ?j < n - i" using i True min_child_cases [of n h i] by auto
    have "heap_down lt n ?j (?h[?j := node])" using down_step [OF less.prems(1) refl] True by simp
    from less.hyps [OF ij(4) this] ij(3) have IH: "heap_from lt n (sift_down lt node n ?j ?h)"
      "mset (take n (tl (sift_down lt node n ?j ?h))) = mset (take n (tl (?h[?j := node])))"
      "length (sift_down lt node n ?j ?h) = length h" by simp_all
    have "?h[?j := node] = (h[i := node])[i := h[i := node] ! ?j, ?j := h[i := node] ! i]" using ij i by simp
    then have "mset (take n (tl (?h[?j := node]))) = mset (take n (tl (h[i := node])))"
      using mset_elems_swap [of i n ?j "h[i := node]"] ij i by simp
    moreover have "sift_down lt node n i h = sift_down lt node n ?j ?h"
      using True i by (subst sift_down.simps) (simp add: Let_def)
    ultimately show ?thesis using IH by simp
  next
    case False
    then have eq: "sift_down lt node n i h = h[i := node]" by (subst sift_down.simps) (auto simp add: Let_def)
    have "\<not> lt (h[i := node] ! k) (h[i := node] ! (k div 2))" if k: "2 \<le> k" "k \<le> n" for k
    proof (cases "k div 2 = i")
      case True
      have "?j \<le> n" using True min_child_cases [of n h i] k by auto
      then have "\<not> lt (h ! ?j) node" using False k by simp
      then have "\<not> lt (h ! k) node" using min_child_le [OF i(1) refl k True] ge_trans by blast
      then show ?thesis using True i k by auto
    qed (use less.prems k in \<open>auto simp: heap_down_def\<close>)
    then show ?thesis using eq less.prems by (simp add: heap_from_def heap_down_def)
  qed
qed

text \<open>The operations on a queue in order.\<close>

lemma heap_from_length: "heap_from lt n h \<Longrightarrow> n < length h"
  by (simp add: heap_from_def)

lemma add_ok:
  assumes ok: "pq_ok lt q" and room: "pq_size q < pq_max q"
  shows "\<exists>q'. pq_add lt x q = (Inr (pq_top q'), q') \<and> pq_ok lt q' \<and> pq_size q' = pq_size q + 1 \<and> pq_max q' = pq_max q \<and>
    mset (pq_elems q') = add_mset x (mset (pq_elems q))"
proof -
  let ?n = "Suc (pq_size q)" and ?h = "(pq_heap q)[Suc (pq_size q) := x]"
  have n: "?n < length (pq_heap q)" using ok room by (auto simp: pq_ok_def)
  have "heap_up lt ?n ?n (?h[?n := x])"
    using ok n by (auto simp: heap_up_def pq_ok_def heap_from_def nth_list_update)
  from up_loop_ok [OF this] have u: "heap_from lt ?n (up_loop lt x ?n ?h)"
    "mset (take ?n (tl (up_loop lt x ?n ?h))) = mset (take ?n (tl ?h))" "length (up_loop lt x ?n ?h) = length ?h" by simp_all
  let ?q = "q\<lparr>pq_size := ?n, pq_heap := up_loop lt x ?n ?h\<rparr>"
  have "pq_add lt x q = (Inr (pq_top ?q), ?q)"
    using n by (simp add: pq_add_def Let_def upHeap_def pq_top_def)
  moreover have "pq_ok lt ?q" using u(1,3) ok room by (auto simp: pq_ok_def)
  moreover have "take ?n (tl ?h) = take (pq_size q) (tl (pq_heap q)) @ [x]"
    using n by (simp add: elems_append) (simp add: tl_update)
  then have "mset (pq_elems ?q) = add_mset x (mset (pq_elems q))" using u(2) by (simp add: pq_elems_def)
  ultimately show ?thesis by (intro exI [of _ ?q]) simp
qed

lemma replace_ok:
  assumes ok: "pq_ok lt q" and size: "0 < pq_size q"
  shows "\<exists>q'. pq_updateTop lt (q\<lparr>pq_heap := (pq_heap q)[1 := x]\<rparr>) = (Inr (pq_top q'), q') \<and> pq_ok lt q' \<and>
    pq_size q' = pq_size q \<and> pq_max q' = pq_max q \<and> add_mset (pq_top q) (mset (pq_elems q')) = add_mset x (mset (pq_elems q))"
proof -
  let ?n = "pq_size q" and ?h = "(pq_heap q)[1 := x]"
  have n: "?n < length (pq_heap q)" using ok by (auto simp: pq_ok_def heap_from_def)
  have "heap_down lt ?n 1 (?h[1 := x])"
    using ok size n by (auto simp: heap_down_def pq_ok_def heap_from_def nth_list_update)
  from sift_down_ok [OF this] have u: "heap_from lt ?n (sift_down lt x ?n 1 ?h)"
    "mset (take ?n (tl (sift_down lt x ?n 1 ?h))) = mset (take ?n (tl ?h))" "length (sift_down lt x ?n 1 ?h) = length ?h" by simp_all
  let ?q = "q\<lparr>pq_heap := sift_down lt x ?n 1 ?h\<rparr>"
  have "pq_updateTop lt (q\<lparr>pq_heap := ?h\<rparr>) = (Inr (pq_top ?q), ?q)"
    using n size heap_length [OF ok] by (simp add: downHeap_sift pq_updateTop_def pq_top_def)
  moreover have "pq_ok lt ?q" using u(1,3) ok by (auto simp: pq_ok_def)
  moreover have "take ?n (tl ?h) = x # take (?n - 1) (tl (tl (pq_heap q)))" 
    using elems_Cons [of ?n ?h] n size by (simp add: tl_update) (cases "pq_heap q"; cases "tl (pq_heap q)"; simp)
  then have "add_mset (pq_top q) (mset (pq_elems ?q)) = add_mset x (mset (pq_elems q))"
    using u(2) elems_Cons [OF size n] by (simp add: pq_elems_def pq_top_def)
  ultimately show ?thesis by (intro exI [of _ ?q]) simp
qed

lemma pop_ok:
  assumes ok: "pq_ok lt q" and size: "0 < pq_size q"
  shows "\<exists>q'. pq_pop lt nul q = (Inr (pq_top q), q') \<and> pq_ok lt q' \<and> pq_size q' = pq_size q - 1 \<and> pq_max q' = pq_max q \<and>
    add_mset (pq_top q) (mset (pq_elems q')) = mset (pq_elems q)"
proof -
  let ?n = "pq_size q - 1" and ?h = "(pq_heap q)[1 := pq_heap q ! pq_size q, pq_size q := nul]"
  have n: "pq_size q < length (pq_heap q)" using ok by (auto simp: pq_ok_def heap_from_def)
  have "heap_down lt ?n 1 (?h[1 := ?h ! 1])"
    using ok size n by (auto simp: heap_down_def pq_ok_def heap_from_def nth_list_update)
  from sift_down_ok [OF this] have u: "heap_from lt ?n (sift_down lt (?h ! 1) ?n 1 ?h)"
    "mset (take ?n (tl (sift_down lt (?h ! 1) ?n 1 ?h))) = mset (take ?n (tl ?h))"
    "length (sift_down lt (?h ! 1) ?n 1 ?h) = length ?h" by simp_all
  let ?q = "q\<lparr>pq_heap := sift_down lt (?h ! 1) ?n 1 ?h, pq_size := ?n\<rparr>"
  have d: "downHeap lt (q\<lparr>pq_heap := ?h, pq_size := ?n\<rparr>) = Inr ?q"
    by (subst downHeap_sift) (use heap_length [OF ok] in auto)
  have "pq_pop lt nul q = (Inr (pq_top q), ?q)"
    using n size d by (simp add: pq_pop_def Let_def pq_top_def)
  moreover have "pq_ok lt ?q" using u(1,3) ok by (auto simp: pq_ok_def)
  moreover have "add_mset (pq_top q) (mset (take ?n (tl ?h))) = mset (pq_elems q)"
  proof -
    obtain m where m: "pq_size q = Suc m" using size by (cases "pq_size q") auto
    obtain a b hs where h: "pq_heap q = a # b # hs" using n m by (cases "pq_heap q"; cases "tl (pq_heap q)") auto
    show ?thesis
    proof (cases m)
      case (Suc l)
      then have "take (Suc l) hs = take l hs @ [hs ! l]" using n m h by (simp add: take_Suc_conv_app_nth)
      then show ?thesis using m h Suc by (simp add: pq_elems_def pq_top_def)
    qed (simp add: pq_elems_def pq_top_def m h)
  qed
  then have "add_mset (pq_top q) (mset (pq_elems ?q)) = mset (pq_elems q)" using u(2) by (simp add: pq_elems_def)
  ultimately show ?thesis by (intro exI [of _ ?q]) simp
qed

lemma top_least:
  assumes "pq_ok lt q" "y \<in> set (pq_elems q)"
  shows "\<not> lt y (pq_top q)"
proof -
  obtain k where k: "k < pq_size q" "y = pq_elems q ! k" "k < length (pq_elems q)"
    using assms(2) by (auto simp: in_set_conv_nth pq_elems_def)
  have "pq_size q < length (pq_heap q)" using assms(1) by (auto simp: pq_ok_def heap_from_def)
  then have "y = pq_heap q ! Suc k" using k by (simp add: pq_elems_def nth_tl)
  then show ?thesis using heap_min [of "pq_size q" "pq_heap q" "Suc k"] assms(1) k by (simp add: pq_ok_def pq_top_def)
qed

lemma pops_ok:
  "pq_ok lt q \<Longrightarrow> n \<le> pq_size q \<Longrightarrow> \<exists>xs q'. pq_pops lt nul n q = (Inr xs, q') \<and> pq_ok lt q' \<and> pq_size q' = pq_size q - n \<and>
     pq_max q' = pq_max q \<and> length xs = n \<and> mset xs + mset (pq_elems q') = mset (pq_elems q) \<and> sorted_wrt (\<lambda>x y. \<not> lt y x) xs \<and>
     (\<forall>x\<in>set xs. \<forall>y\<in>set (pq_elems q'). \<not> lt y x)"
proof (induction n arbitrary: q)
  case (Suc n)
  obtain q1 where q1: "pq_pop lt nul q = (Inr (pq_top q), q1)" "pq_ok lt q1" "pq_size q1 = pq_size q - 1" "pq_max q1 = pq_max q"
    "add_mset (pq_top q) (mset (pq_elems q1)) = mset (pq_elems q)"
    using pop_ok [OF Suc.prems(1), of nul] Suc.prems(2) by auto
  have "n \<le> pq_size q1" using q1(3) Suc.prems(2) by simp
  from Suc.IH [OF q1(2) this] obtain xs q2 where q2: "pq_pops lt nul n q1 = (Inr xs, q2)" "pq_ok lt q2" "pq_size q2 = pq_size q1 - n"
    "pq_max q2 = pq_max q1" "length xs = n" "mset xs + mset (pq_elems q2) = mset (pq_elems q1)" "sorted_wrt (\<lambda>x y. \<not> lt y x) xs"
    "\<forall>x\<in>set xs. \<forall>y\<in>set (pq_elems q2). \<not> lt y x" by blast
  have "set_mset (mset (pq_elems q1)) \<subseteq> set_mset (mset (pq_elems q))" unfolding q1(5) [symmetric] by auto
  moreover have "set_mset (mset (pq_elems q1)) = set xs \<union> set (pq_elems q2)" unfolding q2(6) [symmetric] by simp
  ultimately have "\<forall>y\<in>set xs \<union> set (pq_elems q2). \<not> lt y (pq_top q)" using top_least [OF Suc.prems(1)] by auto
  moreover have "mset (pq_top q # xs) + mset (pq_elems q2) = mset (pq_elems q)" using q1(5) q2(6) by (metis mset.simps(2) union_mset_add_mset_left)
  ultimately show ?case using q1 q2 by auto
qed simp

lemma adds_ok:
  "pq_ok lt q \<Longrightarrow> pq_size q + length xs \<le> pq_max q \<Longrightarrow> \<exists>q'. pq_adds lt xs q = (Inr (), q') \<and> pq_ok lt q' \<and>
     pq_size q' = pq_size q + length xs \<and> pq_max q' = pq_max q \<and> mset (pq_elems q') = mset (pq_elems q) + mset xs"
proof (induction xs arbitrary: q)
  case (Cons x xs)
  obtain q1 where q1: "pq_add lt x q = (Inr (pq_top q1), q1)" "pq_ok lt q1" "pq_size q1 = pq_size q + 1" "pq_max q1 = pq_max q"
    "mset (pq_elems q1) = add_mset x (mset (pq_elems q))"
    using add_ok [OF Cons.prems(1), of x] Cons.prems(2) by auto
  then show ?case using Cons.IH [OF q1(2)] Cons.prems(2) by auto
qed simp

lemma addOverflow_ok:
  assumes ok: "pq_ok lt q"
  shows "\<exists>r q'. pq_addOverflow lt nul x q = (Inr r, q') \<and> pq_ok lt q' \<and> pq_max q' = pq_max q \<and>
    (if pq_size q < pq_max q then r = nul \<and> pq_size q' = pq_size q + 1 \<and> mset (pq_elems q') = add_mset x (mset (pq_elems q))
     else pq_size q' = pq_size q \<and> add_mset r (mset (pq_elems q')) = add_mset x (mset (pq_elems q)) \<and>
          (\<forall>y\<in>set (pq_elems q'). \<not> lt y r))"
proof (cases "pq_size q < pq_max q")
  case True
  then show ?thesis using add_ok [OF ok True, of x] by (auto simp: pq_addOverflow_def)
next
  case full: False
  show ?thesis
  proof (cases "0 < pq_size q \<and> \<not> lt x (pq_top q)")
    case True
    then obtain q' where q': "pq_updateTop lt (q\<lparr>pq_heap := (pq_heap q)[1 := x]\<rparr>) = (Inr (pq_top q'), q')" "pq_ok lt q'"
      "pq_size q' = pq_size q" "pq_max q' = pq_max q" "add_mset (pq_top q) (mset (pq_elems q')) = add_mset x (mset (pq_elems q))"
      using replace_ok [OF ok, of x] by auto
    have "\<not> lt y (pq_top q)" if "y \<in> set (pq_elems q')" for y
    proof -
      have "y \<in># add_mset x (mset (pq_elems q))" using that unfolding q'(5) [symmetric] by simp
      then show ?thesis using True top_least [OF ok] by auto
    qed
    then show ?thesis using q' True full heap_length [OF ok] by (auto simp: pq_addOverflow_def pq_top_def)
  next
    case False
    have "\<not> lt y x" if "y \<in> set (pq_elems q)" for y
    proof -
      have "0 < pq_size q" using that by (cases "pq_size q") (auto simp: pq_elems_def)
      then have "lt x (pq_top q)" using False by blast
      then show ?thesis using top_least [OF ok that] lt_trans by blast
    qed
    then show ?thesis using False full ok heap_length [OF ok] by (auto simp: pq_addOverflow_def pq_top_def)
  qed
qed

lemma addOverflow_above:
  assumes ok: "pq_ok lt q" "pq_max q \<le> pq_size q" and a: "pq_addOverflow lt nul x q = (Inr s, q')"
    and r: "\<forall>y\<in>set (pq_elems q). \<not> lt y r"
  shows "\<forall>y\<in>set (pq_elems q'). \<not> lt y r"
proof
  fix y assume y: "y \<in> set (pq_elems q')"
  have m: "add_mset s (mset (pq_elems q')) = add_mset x (mset (pq_elems q))" and le: "\<not> lt y s"
    using addOverflow_ok [OF ok(1), of nul x] a ok(2) y by auto
  show "\<not> lt y r"
  proof (cases "y \<in> set (pq_elems q)")
    case False
    moreover have "y \<in># add_mset x (mset (pq_elems q))" using y unfolding m [symmetric] by simp
    ultimately have yx: "y = x" by simp
    have "s \<noteq> x"
    proof
      assume "s = x"
      then have "mset (pq_elems q') = mset (pq_elems q)" using m by simp
      then show False using y False by (metis set_mset_mset)
    qed
    moreover have "s \<in># add_mset x (mset (pq_elems q))" unfolding m [symmetric] by simp
    ultimately have "\<not> lt s r" using r by simp
    then show ?thesis using le ge_trans by blast
  qed (use r in blast)
qed

lemma overflows_ok:
  "pq_ok lt q \<Longrightarrow> k = pq_max q - pq_size q \<Longrightarrow> \<exists>q' rs. pq_overflows lt nul xs q = (Inr rs, q') \<and> pq_ok lt q' \<and> pq_max q' = pq_max q \<and>
     pq_size q' = min (pq_max q) (pq_size q + length xs) \<and> length rs = length xs \<and> take k rs = replicate (min k (length xs)) nul \<and>
     mset (pq_elems q') + mset (drop k rs) = mset (pq_elems q) + mset xs \<and>
     (\<forall>y\<in>set (pq_elems q'). \<forall>r\<in>set (drop k rs). \<not> lt y r) \<and>
     (pq_max q \<le> pq_size q \<longrightarrow> (\<forall>r. (\<forall>y\<in>set (pq_elems q). \<not> lt y r) \<longrightarrow> (\<forall>y\<in>set (pq_elems q'). \<not> lt y r)))"
proof (induction xs arbitrary: q k)
  case Nil
  then show ?case by (auto simp: pq_ok_def)
next
  case (Cons x xs)
  obtain r q1 where q1: "pq_addOverflow lt nul x q = (Inr r, q1)" "pq_ok lt q1" "pq_max q1 = pq_max q"
    and c: "if pq_size q < pq_max q then r = nul \<and> pq_size q1 = pq_size q + 1 \<and> mset (pq_elems q1) = add_mset x (mset (pq_elems q))
     else pq_size q1 = pq_size q \<and> add_mset r (mset (pq_elems q1)) = add_mset x (mset (pq_elems q)) \<and>
          (\<forall>y\<in>set (pq_elems q1). \<not> lt y r)"
    using addOverflow_ok [OF Cons.prems(1), of nul x] by blast
  from Cons.IH [OF q1(2) refl] obtain q2 rs where q2: "pq_overflows lt nul xs q1 = (Inr rs, q2)" "pq_ok lt q2" "pq_max q2 = pq_max q1"
    "pq_size q2 = min (pq_max q1) (pq_size q1 + length xs)" "length rs = length xs"
    "take (pq_max q1 - pq_size q1) rs = replicate (min (pq_max q1 - pq_size q1) (length xs)) nul"
    "mset (pq_elems q2) + mset (drop (pq_max q1 - pq_size q1) rs) = mset (pq_elems q1) + mset xs"
    "\<forall>y\<in>set (pq_elems q2). \<forall>r\<in>set (drop (pq_max q1 - pq_size q1) rs). \<not> lt y r"
    "pq_max q1 \<le> pq_size q1 \<longrightarrow> (\<forall>r. (\<forall>y\<in>set (pq_elems q1). \<not> lt y r) \<longrightarrow> (\<forall>y\<in>set (pq_elems q2). \<not> lt y r))" by blast
  have run: "pq_overflows lt nul (x # xs) q = (Inr (r # rs), q2)" using q1(1) q2(1) by simp
  show ?case
  proof (cases "pq_size q < pq_max q")
    case True
    then have k: "k = Suc (pq_max q1 - pq_size q1)" using c q1(3) Cons.prems(2) by auto
    show ?thesis using True run q1(3) q2(2-8) c by (intro exI [of _ q2] exI [of _ "r # rs"]) (auto simp: k)
  next
    case False
    then have c: "pq_size q1 = pq_size q" "add_mset r (mset (pq_elems q1)) = add_mset x (mset (pq_elems q))"
      "\<forall>y\<in>set (pq_elems q1). \<not> lt y r" using c by auto
    have k: "k = 0" "pq_max q1 - pq_size q1 = 0" using False c(1) q1(3) Cons.prems(2) by auto
    have A: "mset (pq_elems q2) + mset (drop k (r # rs)) = mset (pq_elems q) + mset (x # xs)"
      using q2(7) c(2) by (simp add: k ac_simps)
    have B: "\<forall>y\<in>set (pq_elems q2). \<forall>s\<in>set (drop k (r # rs)). \<not> lt y s" using q2(8,9) c(1,3) q1(3) False by (auto simp: k)
    have C: "\<forall>r. (\<forall>y\<in>set (pq_elems q). \<not> lt y r) \<longrightarrow> (\<forall>y\<in>set (pq_elems q2). \<not> lt y r)"
    proof (intro allI impI)
      fix s assume "\<forall>y\<in>set (pq_elems q). \<not> lt y s"
      with addOverflow_above [OF Cons.prems(1) _ q1(1)] False have "\<forall>y\<in>set (pq_elems q1). \<not> lt y s" by simp
      then show "\<forall>y\<in>set (pq_elems q2). \<not> lt y s" using q2(9) c(1) q1(3) False by simp
    qed
    have "pq_size q2 = min (pq_max q) (pq_size q + length (x # xs))" "length (r # rs) = length (x # xs)" "pq_max q2 = pq_max q"
      "take k (r # rs) = replicate (min k (length (x # xs))) nul"
      using q1(3) q2(3-5) c(1) False by (simp_all add: k)
    then show ?thesis using run q2(2) A B C by (intro exI [of _ q2] exI [of _ "r # rs"] conjI impI)
  qed
qed

end

lemma initialized_ok:
  assumes "m < 2 ^ 30"
  shows "pq_ok lt (pq_initialize nul None (newPriorityQueue m))" "pq_size (pq_initialize nul None (newPriorityQueue m)) = 0"
    "pq_max (pq_initialize nul None (newPriorityQueue m)) = m" "pq_elems (pq_initialize nul None (newPriorityQueue m)) = []"
  using assms by (simp_all add: pq_ok_def heap_from_def pq_initialize_def newPriorityQueue_def pq_elems_def Let_def)

text \<open>
  C19. Heap sort: elements added to a queue within its capacity come out of it in order, the
  least first, none lost and none twice.
\<close>

theorem pq_sorts:
  assumes "queue_order lt" "length xs \<le> m" "m < 2 ^ 30"
  shows "\<exists>q ys q'. pq_adds lt xs (pq_initialize nul None (newPriorityQueue m)) = (Inr (), q) \<and>
    pq_pops lt nul (length xs) q = (Inr ys, q') \<and> mset ys = mset xs \<and> sorted_wrt (\<lambda>x y. \<not> lt y x) ys \<and> pq_size q' = 0"
proof -
  let ?q = "pq_initialize nul None (newPriorityQueue m)"
  note i = initialized_ok(1) [OF assms(3), of lt nul] initialized_ok(2-4) [OF assms(3), of nul]
  obtain q where q: "pq_adds lt xs ?q = (Inr (), q)" "pq_ok lt q" "pq_size q = length xs" "mset (pq_elems q) = mset xs"
    using queue_order.adds_ok [OF assms(1) i(1), where xs = xs] i(2-4) assms(2) by force
  obtain ys q' where p: "pq_pops lt nul (length xs) q = (Inr ys, q')" "pq_size q' = pq_size q - length xs"
    "mset ys + mset (pq_elems q') = mset (pq_elems q)" "sorted_wrt (\<lambda>x y. \<not> lt y x) ys"
    using queue_order.pops_ok [OF assms(1) q(2), of "length xs" nul] q(3) by auto
  then have "mset ys = mset xs" "pq_size q' = 0" using q by (simp_all add: pq_elems_def)
  then show ?thesis using q(1) p(1,4) by blast
qed

lemma nat_order: "queue_order ((<) :: nat \<Rightarrow> nat \<Rightarrow> bool)"
  by unfold_locales auto

theorem pq_sorts_witness:
  "\<exists>q ys q'. pq_adds (<) [3, 1, 2 :: nat] (pq_initialize 0 None (newPriorityQueue 5)) = (Inr (), q) \<and>
    pq_pops (<) 0 3 q = (Inr ys, q') \<and> mset ys = {#1, 2, 3#} \<and> sorted_wrt (\<lambda>x y. \<not> y < x) ys"
  using pq_sorts [OF nat_order, of "[3, 1, 2]" 5 0] by (auto simp: add_mset_commute numeral_3_eq_3)

text \<open>
  C11. \<^verbatim>\<open>addOverflow\<close> on a whole sequence keeps the largest elements: the queue never
  throws and holds as many as fit; as long as there is room each call returns the null value, and
  from then on what the calls return is exactly what is not kept, and none of it is larger than
  an element that was kept.
\<close>

theorem pq_keeps_largest:
  assumes "queue_order lt" "m < 2 ^ 30"
  shows "\<exists>q rs. pq_overflows lt nul xs (pq_initialize nul None (newPriorityQueue m)) = (Inr rs, q) \<and>
    length rs = length xs \<and> take m rs = replicate (min m (length xs)) nul \<and>
    length (pq_elems q) = min m (length xs) \<and> mset (pq_elems q) + mset (drop m rs) = mset xs \<and>
    (\<forall>y\<in>set (pq_elems q). \<forall>r\<in>set (drop m rs). \<not> lt y r) \<and> (0 < min m (length xs) \<longrightarrow> pq_top q \<in> set (pq_elems q)) \<and>
    (\<forall>y\<in>set (pq_elems q). \<not> lt y (pq_top q))"
proof -
  let ?q = "pq_initialize nul None (newPriorityQueue m)"
  note i = initialized_ok [OF assms(2)]
  obtain q rs where q: "pq_overflows lt nul xs ?q = (Inr rs, q)" "pq_ok lt q" "length rs = length xs"
     "pq_size q = min m (length xs)" "take m rs = replicate (min m (length xs)) nul" "mset (pq_elems q) + mset (drop m rs) = mset xs"
     "\<forall>y\<in>set (pq_elems q). \<forall>r\<in>set (drop m rs). \<not> lt y r"
    using queue_order.overflows_ok [OF assms(1) i(1) [of lt nul] refl, of nul xs] i(2-4) [of nul] by auto
  have n: "pq_size q < length (pq_heap q)" using q(2) by (simp add: pq_ok_def heap_from_def)
  then have "length (pq_elems q) = min m (length xs)" using q(4) by (simp add: pq_elems_def)
  moreover have "0 < min m (length xs) \<Longrightarrow> pq_top q \<in> set (pq_elems q)"
    using elems_Cons [of "pq_size q" "pq_heap q"] n q(4) by (simp add: pq_elems_def pq_top_def)
  moreover have "\<forall>y\<in>set (pq_elems q). \<not> lt y (pq_top q)" using queue_order.top_least [OF assms(1) q(2)] by blast
  ultimately show ?thesis using q(1,3,5-7) by (intro exI [of _ q] exI [of _ rs] conjI impI)
qed

theorem pq_keeps_largest_witness:
  "\<exists>q rs. pq_overflows (<) 0 [3, 1, 2, 5 :: nat] (pq_initialize 0 None (newPriorityQueue 2)) = (Inr rs, q) \<and>
    take 2 rs = [0, 0] \<and> length (pq_elems q) = 2 \<and> mset (pq_elems q) + mset (drop 2 rs) = mset [3, 1, 2, 5]"
proof -
  have "(2 :: nat) < 2 ^ 30" by simp
  from pq_keeps_largest [OF nat_order this, of 0 "[3, 1, 2, 5]"] obtain q rs
    where "pq_overflows (<) 0 [3, 1, 2, 5 :: nat] (pq_initialize 0 None (newPriorityQueue 2)) = (Inr rs, q)"
      "take 2 rs = replicate (min 2 (length [3, 1, 2, 5 :: nat])) 0" "length (pq_elems q) = min 2 (length [3, 1, 2, 5 :: nat])"
      "mset (pq_elems q) + mset (drop 2 rs) = mset [3, 1, 2, 5]" by blast
  then show ?thesis by (intro exI [of _ q] exI [of _ rs] conjI) (simp_all add: numeral_2_eq_2 del: pq_overflows.simps)
qed

text \<open>The queues a caller can reach by operations that return, as long as it adds only to a queue with room.\<close>

inductive pq_reach :: "('a \<Rightarrow> 'a \<Rightarrow> bool) \<Rightarrow> 'a \<Rightarrow> nat \<Rightarrow> 'a pq \<Rightarrow> bool" for lt nul m where
  start: "pq_reach lt nul m (pq_initialize nul None (newPriorityQueue m))"
| add: "pq_reach lt nul m q \<Longrightarrow> pq_size q < pq_max q \<Longrightarrow> pq_add lt x q = (Inr r, q') \<Longrightarrow> pq_reach lt nul m q'"
| addOverflow: "pq_reach lt nul m q \<Longrightarrow> pq_addOverflow lt nul x q = (Inr r, q') \<Longrightarrow> pq_reach lt nul m q'"
| pop: "pq_reach lt nul m q \<Longrightarrow> pq_pop lt nul q = (Inr r, q') \<Longrightarrow> pq_reach lt nul m q'"
| change: "pq_reach lt nul m q \<Longrightarrow> 0 < pq_size q \<Longrightarrow>
    pq_updateTop lt (q\<lparr>pq_heap := (pq_heap q)[1 := x]\<rparr>) = (Inr r, q') \<Longrightarrow> pq_reach lt nul m q'"
| clear: "pq_reach lt nul m q \<Longrightarrow> pq_clear nul q = (Inr r, q') \<Longrightarrow> pq_reach lt nul m q'"

lemma clear_ok:
  assumes "pq_ok lt q"
  shows "\<exists>q'. pq_clear nul q = (Inr nul, q') \<and> pq_ok lt q' \<and> pq_max q' = pq_max q \<and> pq_elems q' = []"
  using assms by (auto simp: pq_ok_def pq_clear_def heap_from_def pq_elems_def)

lemma pop_empty: "pq_size q = 0 \<Longrightarrow> pq_pop lt nul q = (Inr nul, q)"
  by (simp add: pq_pop_def)

lemma reach_ok:
  assumes "queue_order lt" "m < 2 ^ 30"
  shows "pq_reach lt nul m q \<Longrightarrow> pq_ok lt q \<and> pq_max q = m"
proof (induction rule: pq_reach.induct)
  case start
  then show ?case using initialized_ok [OF assms(2)] by auto
next
  case (add q x r q')
  then show ?case using queue_order.add_ok [OF assms(1), of q x] by auto
next
  case (addOverflow q x r q')
  then show ?case using queue_order.addOverflow_ok [OF assms(1), of q nul x] by auto
next
  case (pop q r q')
  then show ?case using queue_order.pop_ok [OF assms(1), of q nul] by (cases "pq_size q = 0") (auto simp: pop_empty)
next
  case (change q x r q')
  then show ?case using queue_order.replace_ok [OF assms(1), of q x] by auto
next
  case (clear q r q')
  then show ?case using clear_ok [of lt q nul] by auto
qed





end
