(* ===== verification/TopDocs.thy ===== *)
theory TopDocs imports PriorityQueue begin

text \<open>
  The collectors of the best hits: \<^verbatim>\<open>HitQueue.cpp\<close>, \<^verbatim>\<open>TopDocsCollector.cpp\<close> and
  \<^verbatim>\<open>TopScoreDocCollector.cpp\<close>. Scores are the values of a linear order with a least element,
  which stands for minus infinity; NaN, which both collectors exclude by an assertion, is not among them.
  \<^verbatim>\<open>pqTop\<close> always points to the object in \<^verbatim>\<open>heap[1]\<close>, so it is that element of the queue,
  and the writes through it are writes to the element.
\<close>

record 's score_doc =
  sd_doc :: int
  sd_score :: 's

definition hit_lessThan :: "'s::linorder score_doc \<Rightarrow> 's score_doc \<Rightarrow> bool" where
  "hit_lessThan first second =
     (if sd_score first = sd_score second then sd_doc second < sd_doc first else sd_score first < sd_score second)"

definition hit_sentinel :: "'s::{linorder,order_bot} score_doc" where
  "hit_sentinel = \<lparr>sd_doc = 2 ^ 31 - 1, sd_score = bot\<rparr>"

definition newHitQueue :: "'s::{linorder,order_bot} score_doc \<Rightarrow> nat \<Rightarrow> bool \<Rightarrow> 's score_doc pq" where
  "newHitQueue nul n prePopulate =
     pq_initialize nul (if prePopulate then Some hit_sentinel else None) (newPriorityQueue n)"

record 's collector =
  tc_pq :: "'s score_doc pq"
  tc_totalHits :: int
  tc_docBase :: int

definition newTopScoreDocCollector :: "'s::{linorder,order_bot} score_doc \<Rightarrow> nat \<Rightarrow> 's collector" where
  "newTopScoreDocCollector nul numHits = \<lparr>tc_pq = newHitQueue nul numHits True, tc_totalHits = 0, tc_docBase = 0\<rparr>"

definition setNextReader :: "int \<Rightarrow> 's collector \<Rightarrow> 's collector" where
  "setNextReader docBase c = c\<lparr>tc_docBase := docBase\<rparr>"

definition tc_replace :: "'s::linorder score_doc \<Rightarrow> 's collector \<Rightarrow> unit result \<times> 's collector" where
  "tc_replace x c =
     (let q = tc_pq c in
      case pq_updateTop hit_lessThan (q\<lparr>pq_heap := (pq_heap q)[1 := x]\<rparr>) of
        (Inl e, q) \<Rightarrow> (Inl e, c\<lparr>tc_pq := q\<rparr>) | (Inr _, q) \<Rightarrow> (Inr (), c\<lparr>tc_pq := q\<rparr>))"

definition collect_inOrder :: "int \<Rightarrow> 's::linorder \<Rightarrow> 's collector \<Rightarrow> unit result \<times> 's collector" where
  "collect_inOrder doc score c =
     (let c = c\<lparr>tc_totalHits := trunc32 (tc_totalHits c + 1)\<rparr>
      in if score \<le> sd_score (pq_top (tc_pq c)) then (Inr (), c)
         else tc_replace \<lparr>sd_doc = trunc32 (doc + tc_docBase c), sd_score = score\<rparr> c)"

definition collect_outOfOrder :: "int \<Rightarrow> 's::linorder \<Rightarrow> 's collector \<Rightarrow> unit result \<times> 's collector" where
  "collect_outOfOrder doc score c =
     (let c = c\<lparr>tc_totalHits := trunc32 (tc_totalHits c + 1)\<rparr>; doc = trunc32 (doc + tc_docBase c); pqTop = pq_top (tc_pq c)
      in if score < sd_score pqTop \<or> score = sd_score pqTop \<and> sd_doc pqTop < doc then (Inr (), c)
         else tc_replace \<lparr>sd_doc = doc, sd_score = score\<rparr> c)"

text \<open>A search: per segment the base of its documents and its hits.\<close>

fun collect_hits :: "(int \<Rightarrow> 's \<Rightarrow> 's collector \<Rightarrow> unit result \<times> 's collector) \<Rightarrow> (int \<times> 's) list \<Rightarrow> 's collector \<Rightarrow> unit result \<times> 's collector" where
  "collect_hits coll [] c = (Inr (), c)"
| "collect_hits coll ((d, s) # hs) c = (case coll d s c of (Inl e, c) \<Rightarrow> (Inl e, c) | (Inr _, c) \<Rightarrow> collect_hits coll hs c)"

fun collect_segments :: "(int \<Rightarrow> 's \<Rightarrow> 's collector \<Rightarrow> unit result \<times> 's collector) \<Rightarrow> (int \<times> (int \<times> 's) list) list \<Rightarrow> 's collector \<Rightarrow> unit result \<times> 's collector" where
  "collect_segments coll [] c = (Inr (), c)"
| "collect_segments coll ((b, hs) # ss) c =
     (case collect_hits coll hs (setNextReader b c) of (Inl e, c) \<Rightarrow> (Inl e, c) | (Inr _, c) \<Rightarrow> collect_segments coll ss c)"

text \<open>The result; the maximal score \<open>None\<close> is NaN.\<close>

record 's top_docs =
  td_totalHits :: int
  td_scoreDocs :: "'s score_doc list"
  td_maxScore :: "'s option"

definition EMPTY_TOPDOCS :: "'s top_docs" where
  "EMPTY_TOPDOCS = \<lparr>td_totalHits = 0, td_scoreDocs = [], td_maxScore = None\<rparr>"

definition newTopDocs :: "'s::linorder score_doc \<Rightarrow> 's score_doc list \<Rightarrow> int \<Rightarrow> 's collector \<Rightarrow> 's top_docs result \<times> 's collector" where
  "newTopDocs nul results start c =
     (if start = 0 then (Inr \<lparr>td_totalHits = tc_totalHits c, td_scoreDocs = results, td_maxScore = Some (sd_score (results ! 0))\<rparr>, c)
      else case pq_pops hit_lessThan nul (pq_size (tc_pq c) - 1) (tc_pq c) of
        (Inl e, q) \<Rightarrow> (Inl e, c\<lparr>tc_pq := q\<rparr>)
      | (Inr _, q) \<Rightarrow>
         (case pq_pop hit_lessThan nul q of (Inl e, q) \<Rightarrow> (Inl e, c\<lparr>tc_pq := q\<rparr>)
          | (Inr best, q) \<Rightarrow> (Inr \<lparr>td_totalHits = tc_totalHits c, td_scoreDocs = results, td_maxScore = Some (sd_score best)\<rparr>, c\<lparr>tc_pq := q\<rparr>)))"

definition topDocs_range :: "'s::linorder score_doc \<Rightarrow> int \<Rightarrow> int \<Rightarrow> 's collector \<Rightarrow> 's top_docs result \<times> 's collector" where
  "topDocs_range nul start howMany c =
     (let q = tc_pq c; siz = (if tc_totalHits c < int (pq_size q) then tc_totalHits c else int (pq_size q))
      in if start < 0 \<or> siz \<le> start \<or> howMany \<le> 0 then (Inr EMPTY_TOPDOCS, c)
         else let howMany = min (siz - start) howMany
              in case pq_pops hit_lessThan nul (nat (int (pq_size q) - start - howMany)) q of
                   (Inl e, q) \<Rightarrow> (Inl e, c\<lparr>tc_pq := q\<rparr>)
                 | (Inr _, q) \<Rightarrow>
                    (case pq_pops hit_lessThan nul (nat howMany) q of
                       (Inl e, q) \<Rightarrow> (Inl e, c\<lparr>tc_pq := q\<rparr>)
                     | (Inr popped, q) \<Rightarrow> newTopDocs nul (rev popped) start (c\<lparr>tc_pq := q\<rparr>)))"

definition topDocs :: "'s::linorder score_doc \<Rightarrow> 's collector \<Rightarrow> 's top_docs result \<times> 's collector" where
  "topDocs nul c =
     topDocs_range nul 0 (if tc_totalHits c < int (pq_size (tc_pq c)) then tc_totalHits c else int (pq_size (tc_pq c))) c"

subsection \<open>Total orders of hits\<close>

locale total_queue_order = queue_order +
  assumes lt_antisym: "\<not> lt x y \<Longrightarrow> \<not> lt y x \<Longrightarrow> x = y"

text \<open>Insertion into a list that has the best first, and the ranking of a list.\<close>

fun rank_ins :: "('a \<Rightarrow> 'a \<Rightarrow> bool) \<Rightarrow> 'a \<Rightarrow> 'a list \<Rightarrow> 'a list" where
  "rank_ins lt x [] = [x]"
| "rank_ins lt x (y # ys) = (if lt y x then x # y # ys else y # rank_ins lt x ys)"

definition ranked :: "('a \<Rightarrow> 'a \<Rightarrow> bool) \<Rightarrow> 'a list \<Rightarrow> 'a list" where
  "ranked lt xs = fold (rank_ins lt) xs []"

lemma mset_rank_ins [simp]: "mset (rank_ins lt x ys) = add_mset x (mset ys)"
  by (induction ys) auto

lemma set_rank_ins [simp]: "set (rank_ins lt x ys) = insert x (set ys)"
  by (induction ys) auto

lemma length_rank_ins [simp]: "length (rank_ins lt x ys) = Suc (length ys)"
  by (induction ys) auto

lemma rank_ins_not_Nil [simp]: "rank_ins lt x ys \<noteq> []"
  by (cases ys) auto

lemma ranked_snoc: "ranked lt (xs @ [x]) = rank_ins lt x (ranked lt xs)"
  by (simp add: ranked_def)

lemma mset_ranked [simp]: "mset (ranked lt xs) = mset xs"
  by (induction xs rule: rev_induct) (auto simp: ranked_snoc, simp add: ranked_def)

lemma length_ranked [simp]: "length (ranked lt xs) = length xs"
  by (metis mset_ranked size_mset)

lemma set_ranked [simp]: "set (ranked lt xs) = set xs"
  by (metis mset_ranked set_mset_mset)

lemma rank_ins_end: "(\<forall>y\<in>set ys. \<not> lt y x) \<Longrightarrow> rank_ins lt x ys = ys @ [x]"
  by (induction ys) auto

lemma rank_ins_before: "(\<forall>z\<in>set zs. lt z x) \<Longrightarrow> rank_ins lt x (ys @ zs) = rank_ins lt x ys @ zs"
  by (induction ys) (cases zs, auto)

lemma last_rank_ins: "ys \<noteq> [] \<Longrightarrow> lt (last ys) x \<Longrightarrow> last (rank_ins lt x ys) = last ys"
  by (induction ys) auto

lemma take_rank_ins: "take n (rank_ins lt x (take n ys)) = take n (rank_ins lt x ys)"
proof (induction ys arbitrary: n)
  case (Cons y ys)
  then show ?case by (cases n; cases "n - 1") auto
qed simp

lemma butlast_mset: "xs \<noteq> [] \<Longrightarrow> add_mset (last xs) (mset (butlast xs)) = mset xs"
  by (induction xs) auto

context queue_order begin

lemma sorted_rank_ins: "sorted_wrt (\<lambda>a b. \<not> lt a b) ys \<Longrightarrow> sorted_wrt (\<lambda>a b. \<not> lt a b) (rank_ins lt x ys)"
proof (induction ys)
  case (Cons y ys)
  show ?case
  proof (cases "lt y x")
    case True
    then have "\<not> lt x z" if "z \<in> set (y # ys)" for z
      using that Cons.prems lt_asym lt_trans [of y x z] by auto
    then show ?thesis using True Cons.prems by simp
  qed (use Cons in simp)
qed simp

lemma sorted_replicate: "sorted_wrt (\<lambda>a b. \<not> lt a b) (replicate n x)"
  by (induction n) (auto simp: lt_irrefl)

lemma sorted_ranked: "sorted_wrt (\<lambda>a b. \<not> lt a b) (ranked lt xs)"
  by (induction xs rule: rev_induct) (auto simp: ranked_snoc intro: sorted_rank_ins, simp add: ranked_def)

end

context total_queue_order begin

lemma ranking_unique:
  "sorted_wrt (\<lambda>a b. \<not> lt a b) xs \<Longrightarrow> sorted_wrt (\<lambda>a b. \<not> lt a b) ys \<Longrightarrow> mset xs = mset ys \<Longrightarrow> xs = ys"
proof (induction xs arbitrary: ys)
  case (Cons x xs)
  then obtain y zs where ys: "ys = y # zs" by (cases ys) auto
  have "set (x # xs) = set (y # zs)" using Cons.prems(3) ys by (metis set_mset_mset)
  then have "y = x \<or> y \<in> set xs" "x = y \<or> x \<in> set zs" by auto
  then have "\<not> lt x y" "\<not> lt y x" using Cons.prems(1,2) ys lt_irrefl [of x] by auto
  then have "x = y" by (rule lt_antisym)
  then show ?case using Cons ys by simp
qed simp

text \<open>Popping a queue whose elements are those of a ranking takes them from its end.\<close>

lemma pops_ranking:
  assumes "pq_ok lt q" "mset (pq_elems q) = mset B" "sorted_wrt (\<lambda>a b. \<not> lt a b) B" "pq_size q = length B" "n \<le> length B"
  shows "\<exists>q'. pq_pops lt nul n q = (Inr (rev (drop (length B - n) B)), q') \<and> pq_ok lt q' \<and> pq_size q' = length B - n \<and>
    mset (pq_elems q') = mset (take (length B - n) B)"
proof -
  obtain xs q' where p: "pq_pops lt nul n q = (Inr xs, q')" "pq_ok lt q'" "pq_size q' = pq_size q - n" "length xs = n"
    "mset xs + mset (pq_elems q') = mset (pq_elems q)" "sorted_wrt (\<lambda>x y. \<not> lt y x) xs"
    "\<forall>x\<in>set xs. \<forall>y\<in>set (pq_elems q'). \<not> lt y x"
    using pops_ok [OF assms(1), of n nul] assms(4,5) by auto
  let ?R = "ranked lt (pq_elems q')"
  have "sorted_wrt (\<lambda>a b. \<not> lt a b) (?R @ rev xs)"
    using p(6,7) sorted_ranked by (auto simp: sorted_wrt_append sorted_wrt_rev)
  moreover have "mset (?R @ rev xs) = mset B" using p(5) assms(2) by (simp add: union_commute)
  ultimately have B: "B = ?R @ rev xs" using ranking_unique [OF assms(3)] by metis
  then have "length B - n = length ?R" using p(4) by (metis add_diff_cancel_right' length_append length_rev)
  then have "drop (length B - n) B = rev xs" "take (length B - n) B = ?R" using B by simp_all
  then show ?thesis using p(1-3) assms(4) by (simp add: rev_swap)
qed

text \<open>Offering an element to a full queue in place of its least one.\<close>

lemma last_least: "sorted_wrt (\<lambda>a b. \<not> lt a b) B \<Longrightarrow> y \<in> set B \<Longrightarrow> \<not> lt y (last B)"
  by (induction B) (auto simp: lt_irrefl)

lemma top_last:
  assumes q: "pq_ok lt q" "pq_size q = length B" and B: "mset (pq_elems q) = mset B" "sorted_wrt (\<lambda>a b. \<not> lt a b) B" "B \<noteq> []"
  shows "last B = pq_top q"
proof -
  have "pq_size q < length (pq_heap q)" using q(1) by (simp add: pq_ok_def heap_from_def)
  then have "pq_top q \<in> set (pq_elems q)"
    using elems_Cons [of "pq_size q" "pq_heap q"] q(2) B(3) by (simp add: pq_elems_def pq_top_def)
  moreover have s: "set (pq_elems q) = set B" using B(1) by (metis set_mset_mset)
  ultimately show ?thesis
    using lt_antisym top_least [OF q(1)] last_least [OF B(2)] last_in_set [OF B(3)] by metis
qed

lemma offer_less:
  assumes q: "pq_ok lt q" "pq_size q = length B" and B: "mset (pq_elems q) = mset B" and x: "lt x (pq_top q)"
  shows "take (length B) (rank_ins lt x B) = B"
proof -
  have "set (pq_elems q) = set B" using B by (metis set_mset_mset)
  then have "\<forall>y\<in>set B. \<not> lt y x" using top_least [OF q(1)] x lt_trans by blast
  then show ?thesis by (simp add: rank_ins_end)
qed

lemma offer_more:
  assumes q: "pq_ok lt q" "pq_size q = length B" and B: "mset (pq_elems q) = mset B" "sorted_wrt (\<lambda>a b. \<not> lt a b) B"
    and x: "\<not> lt x (pq_top q)"
  shows "\<exists>q'. pq_updateTop lt (q\<lparr>pq_heap := (pq_heap q)[1 := x]\<rparr>) = (Inr (pq_top q'), q') \<and> pq_ok lt q' \<and>
      pq_size q' = pq_size q \<and> mset (pq_elems q') = mset (take (length B) (rank_ins lt x B))"
proof (cases "B = []")
  case True
  then have "sift_down lt x 0 1 ((pq_heap q)[1 := x]) = (pq_heap q)[1 := x]" by (subst sift_down.simps) (simp add: min_child_def Let_def)
  then show ?thesis using True q heap_length [OF q(1)]
    by (simp add: pq_updateTop_def downHeap_sift pq_top_def pq_elems_def) (simp add: pq_ok_def heap_from_def)
next
  case False
  have size: "0 < pq_size q" using False q(2) by simp
  obtain q' where q': "pq_updateTop lt (q\<lparr>pq_heap := (pq_heap q)[1 := x]\<rparr>) = (Inr (pq_top q'), q')" "pq_ok lt q'"
    "pq_size q' = pq_size q" "add_mset (pq_top q) (mset (pq_elems q')) = add_mset x (mset (pq_elems q))"
    using replace_ok [OF q(1) size, of x] by blast
  have top: "last B = pq_top q" by (rule top_last [OF q B False])
  have "mset (pq_elems q') = mset (take (length B) (rank_ins lt x B))"
  proof (cases "lt (pq_top q) x")
    case True
    then have "last (rank_ins lt x B) = pq_top q" using last_rank_ins [of B lt x] False top by simp
    moreover have "take (length B) (rank_ins lt x B) = butlast (rank_ins lt x B)" by (simp add: butlast_conv_take)
    ultimately have "add_mset (pq_top q) (mset (take (length B) (rank_ins lt x B))) = add_mset x (mset B)"
      using butlast_mset [of "rank_ins lt x B"] by simp
    then show ?thesis using q'(4) B(1) by (metis add_mset_add_mset_same_iff)
  next
    case False
    then have "x = pq_top q" using x lt_antisym by blast
    moreover have "rank_ins lt (pq_top q) B = B @ [pq_top q]"
      using last_least [OF B(2)] top by (intro rank_ins_end) simp
    ultimately show ?thesis using q'(4) B(1) by simp
  qed
  then show ?thesis using q' by blast
qed

end

subsection \<open>The collectors\<close>

interpretation hit_order: total_queue_order "hit_lessThan :: 's::linorder score_doc \<Rightarrow> 's score_doc \<Rightarrow> bool"
  by unfold_locales (auto simp: hit_lessThan_def split: if_splits)

text \<open>The best hits of a list, over the sentinels the queue starts with.\<close>

definition kept :: "nat \<Rightarrow> 's::{linorder,order_bot} score_doc list \<Rightarrow> 's score_doc list" where
  "kept n hs = take n (ranked hit_lessThan hs @ replicate n hit_sentinel)"

definition hit_ok :: "'s score_doc \<Rightarrow> bool" where
  "hit_ok h \<longleftrightarrow> 0 \<le> sd_doc h \<and> sd_doc h < 2 ^ 31 - 1"

definition collector_ok :: "nat \<Rightarrow> 's::{linorder,order_bot} score_doc list \<Rightarrow> 's collector \<Rightarrow> bool" where
  "collector_ok n hs c \<longleftrightarrow> pq_ok hit_lessThan (tc_pq c) \<and> pq_size (tc_pq c) = n \<and>
     mset (pq_elems (tc_pq c)) = mset (kept n hs) \<and> tc_totalHits c = int (length hs)"

lemma sentinel_less: "hit_ok h \<Longrightarrow> hit_lessThan hit_sentinel h"
  by (auto simp: hit_lessThan_def hit_sentinel_def hit_ok_def intro: le_neq_trans [OF bot_least])

lemma length_kept [simp]: "length (kept n hs) = n"
  by (simp add: kept_def)

lemma sorted_kept:
  assumes "\<forall>h\<in>set hs. hit_ok h"
  shows "sorted_wrt (\<lambda>a b. \<not> hit_lessThan a b) (kept n hs)"
proof -
  have "\<not> hit_lessThan h hit_sentinel" if "h \<in> set hs" for h
    using assms sentinel_less hit_order.lt_asym that by blast
  then have "sorted_wrt (\<lambda>a b. \<not> hit_lessThan a b) (ranked hit_lessThan hs @ replicate n hit_sentinel)"
    using hit_order.sorted_ranked by (auto simp: sorted_wrt_append hit_order.sorted_replicate)
  then show ?thesis unfolding kept_def by (rule sorted_wrt_take)
qed

lemma kept_snoc:
  assumes "hit_ok h"
  shows "kept n (hs @ [h]) = take n (rank_ins hit_lessThan h (kept n hs))"
proof -
  have "rank_ins hit_lessThan h (ranked hit_lessThan hs @ replicate n hit_sentinel) =
      rank_ins hit_lessThan h (ranked hit_lessThan hs) @ replicate n hit_sentinel"
    using sentinel_less [OF assms] by (intro rank_ins_before) simp
  then show ?thesis unfolding kept_def ranked_snoc take_rank_ins by (simp only:)
qed

lemma collect_outOfOrder_ok:
  assumes c: "collector_ok n hs c" "\<forall>h\<in>set hs. hit_ok h" and x: "x = \<lparr>sd_doc = d + tc_docBase c, sd_score = s\<rparr>" "hit_ok x"
    and n: "length hs + 1 < 2 ^ 31"
  shows "\<exists>c'. collect_outOfOrder d s c = (Inr (), c') \<and> collector_ok n (hs @ [x]) c' \<and> tc_docBase c' = tc_docBase c"
proof -
  let ?q = "tc_pq c"
  have q: "pq_ok hit_lessThan ?q" "pq_size ?q = length (kept n hs)" "mset (pq_elems ?q) = mset (kept n hs)"
    using c(1) by (simp_all add: collector_ok_def)
  have d: "trunc32 (d + tc_docBase c) = d + tc_docBase c" using x by (simp add: hit_ok_def)
  have t: "trunc32 (tc_totalHits c + 1) = int (length (hs @ [x]))"
    using c(1) n trunc32_small [of "length (hs @ [x])"] by (simp add: collector_ok_def ac_simps)
  have skip: "s < sd_score (pq_top ?q) \<or> s = sd_score (pq_top ?q) \<and> sd_doc (pq_top ?q) < d + tc_docBase c \<longleftrightarrow> hit_lessThan x (pq_top ?q)"
    by (auto simp: x(1) hit_lessThan_def)
  show ?thesis
  proof (cases "hit_lessThan x (pq_top ?q)")
    case True
    then have "collect_outOfOrder d s c = (Inr (), c\<lparr>tc_totalHits := int (length (hs @ [x]))\<rparr>)"
      using skip by (simp add: collect_outOfOrder_def Let_def d t)
    moreover have "kept n (hs @ [x]) = kept n hs"
      using kept_snoc [OF x(2)] hit_order.offer_less [OF q(1,2,3) True] by simp
    ultimately show ?thesis using c(1) by (simp add: collector_ok_def)
  next
    case False
    obtain q' where q': "pq_updateTop hit_lessThan (?q\<lparr>pq_heap := (pq_heap ?q)[1 := x]\<rparr>) = (Inr (pq_top q'), q')"
      "pq_ok hit_lessThan q'" "pq_size q' = pq_size ?q" "mset (pq_elems q') = mset (take n (rank_ins hit_lessThan x (kept n hs)))"
      using hit_order.offer_more [OF q sorted_kept [OF c(2)] False] by auto
    have "collect_outOfOrder d s c = (Inr (), c\<lparr>tc_totalHits := int (length (hs @ [x])), tc_pq := q'\<rparr>)"
      using False skip q'(1) by (auto simp: collect_outOfOrder_def Let_def d t tc_replace_def simp flip: x(1))
    then show ?thesis using c(1) q' kept_snoc [OF x(2)] by (simp add: collector_ok_def)
  qed
qed

lemma top_of_kept:
  assumes "collector_ok n hs c" "0 < n" "\<forall>h\<in>set hs. hit_ok h"
  shows "pq_top (tc_pq c) \<in> insert hit_sentinel (set hs)"
proof -
  have "kept n hs \<noteq> []" using assms(2) length_kept [of n hs] by fastforce
  then have "pq_top (tc_pq c) \<in> set (kept n hs)"
    using hit_order.top_last [of "tc_pq c" "kept n hs"] sorted_kept [OF assms(3)] assms(1) last_in_set
    by (fastforce simp: collector_ok_def)
  then show ?thesis by (auto simp: kept_def dest: in_set_takeD)
qed

lemma collect_inOrder_eq:
  assumes "collector_ok n hs c" "0 < n" "\<forall>h\<in>set hs. hit_ok h" "\<forall>h\<in>set hs. sd_doc h < d + tc_docBase c"
    "s \<noteq> bot" "0 \<le> d + tc_docBase c" "d + tc_docBase c < 2 ^ 31 - 1"
  shows "collect_inOrder d s c = collect_outOfOrder d s c"
proof -
  have t: "trunc32 (d + tc_docBase c) = d + tc_docBase c" using assms(6,7) by simp
  have "s = sd_score (pq_top (tc_pq c)) \<Longrightarrow> sd_doc (pq_top (tc_pq c)) < d + tc_docBase c"
    using top_of_kept [OF assms(1-3)] assms(4,5) by (auto simp: hit_sentinel_def)
  then have "s \<le> sd_score (pq_top (tc_pq c)) \<longleftrightarrow>
      s < sd_score (pq_top (tc_pq c)) \<or> s = sd_score (pq_top (tc_pq c)) \<and> sd_doc (pq_top (tc_pq c)) < d + tc_docBase c" by auto
  then show ?thesis by (simp add: collect_inOrder_def collect_outOfOrder_def Let_def t)
qed


subsection \<open>Whole searches\<close>

fun segment_hits :: "(int \<times> (int \<times> 's) list) list \<Rightarrow> 's score_doc list" where
  "segment_hits [] = []"
| "segment_hits ((b, hs) # ss) = map (\<lambda>(d, s). \<lparr>sd_doc = d + b, sd_score = s\<rparr>) hs @ segment_hits ss"

lemma collect_hits_ok:
  "collector_ok n hs c \<Longrightarrow> \<forall>h\<in>set hs. hit_ok h \<Longrightarrow> \<forall>h\<in>set (segment_hits [(tc_docBase c, xs)]). hit_ok h \<Longrightarrow>
   length hs + length xs < 2 ^ 31 \<Longrightarrow>
   \<exists>c'. collect_hits collect_outOfOrder xs c = (Inr (), c') \<and> collector_ok n (hs @ segment_hits [(tc_docBase c, xs)]) c' \<and>
     tc_docBase c' = tc_docBase c"
proof (induction xs arbitrary: hs c)
  case (Cons x xs)
  obtain d s where x: "x = (d, s)" by (cases x)
  let ?h = "\<lparr>sd_doc = d + tc_docBase c, sd_score = s\<rparr>"
  have h: "hit_ok ?h" using Cons.prems(3) x by simp
  obtain c1 where c1: "collect_outOfOrder d s c = (Inr (), c1)" "collector_ok n (hs @ [?h]) c1" "tc_docBase c1 = tc_docBase c"
    using collect_outOfOrder_ok [OF Cons.prems(1,2) refl h] Cons.prems(4) by auto
  have "\<forall>h\<in>set (hs @ [?h]). hit_ok h" using Cons.prems(2) h by simp
  moreover have "\<forall>h\<in>set (segment_hits [(tc_docBase c1, xs)]). hit_ok h" using Cons.prems(3) c1(3) by simp
  ultimately obtain c2 where "collect_hits collect_outOfOrder xs c1 = (Inr (), c2)"
    "collector_ok n ((hs @ [?h]) @ segment_hits [(tc_docBase c1, xs)]) c2" "tc_docBase c2 = tc_docBase c1"
    using Cons.IH [OF c1(2)] Cons.prems(4) by auto
  then show ?case using c1 x by simp
qed simp

lemma collector_ok_base [simp]: "collector_ok n hs (setNextReader b c) = collector_ok n hs c" "tc_docBase (setNextReader b c) = b"
  by (simp_all add: collector_ok_def setNextReader_def)

lemma collect_segments_ok:
  "collector_ok n hs c \<Longrightarrow> \<forall>h\<in>set hs. hit_ok h \<Longrightarrow> \<forall>h\<in>set (segment_hits ss). hit_ok h \<Longrightarrow>
   length hs + length (segment_hits ss) < 2 ^ 31 \<Longrightarrow>
   \<exists>c'. collect_segments collect_outOfOrder ss c = (Inr (), c') \<and> collector_ok n (hs @ segment_hits ss) c'"
proof (induction ss arbitrary: hs c)
  case (Cons s ss)
  obtain b xs where s: "s = (b, xs)" by (cases s)
  let ?c = "setNextReader b c"
  have "\<forall>h\<in>set (segment_hits [(tc_docBase ?c, xs)]). hit_ok h" using Cons.prems(3) s by simp
  then obtain c1 where c1: "collect_hits collect_outOfOrder xs ?c = (Inr (), c1)"
    "collector_ok n (hs @ segment_hits [(b, xs)]) c1"
    using collect_hits_ok [of n hs ?c xs] Cons.prems(1,2,4) s by auto
  have "\<forall>h\<in>set (hs @ segment_hits [(b, xs)]). hit_ok h" "\<forall>h\<in>set (segment_hits ss). hit_ok h"
    using Cons.prems(2,3) s by auto
  from Cons.IH [OF c1(2) this] show ?case using c1(1) s Cons.prems(4) by auto
qed simp

lemma new_collector_ok:
  fixes nul :: "'s::{linorder,order_bot} score_doc"
  assumes "n < 2 ^ 30"
  shows "collector_ok n [] (newTopScoreDocCollector nul n)"
proof -
  let ?q = "newHitQueue nul n True"
  have q: "pq_heap ?q = nul # replicate (if n = 0 then 1 else n) hit_sentinel" "pq_size ?q = n" "pq_max ?q = n"
    using assms by (simp_all add: newHitQueue_def pq_initialize_def newPriorityQueue_def Let_def)
  have at: "pq_heap ?q ! k = hit_sentinel" if "0 < k" "k \<le> n" for k
    using q(1) that by (cases k) simp_all
  have "pq_ok hit_lessThan ?q"
    unfolding pq_ok_def heap_from_def using assms q at hit_order.lt_irrefl [of "hit_sentinel :: 's score_doc"] by auto
  then show ?thesis using q by (simp add: collector_ok_def newTopScoreDocCollector_def kept_def ranked_def pq_elems_def)
qed

lemma newTopDocs_best:
  assumes q: "pq_ok hit_lessThan q" "pq_size q = length B" "mset (pq_elems q) = mset B" "sorted_wrt (\<lambda>a b. \<not> hit_lessThan a b) B"
    and c: "tc_pq c = q" "start \<noteq> 0" "B \<noteq> []"
  shows "\<exists>c'. newTopDocs nul rs start c =
    (Inr \<lparr>td_totalHits = tc_totalHits c, td_scoreDocs = rs, td_maxScore = Some (sd_score (hd B))\<rparr>, c')"
proof -
  have len: "length B - (length B - 1) = 1" "length B - 1 \<le> length B" using c(3) by (cases B; simp)+
  obtain q1 where q1: "pq_pops hit_lessThan nul (length B - 1) q = (Inr (rev (drop 1 B)), q1)" "pq_ok hit_lessThan q1"
    "pq_size q1 = 1" "mset (pq_elems q1) = mset (take 1 B)"
    using hit_order.pops_ranking [OF q(1,3,4,2) len(2), of nul] unfolding len(1) by blast
  obtain q2 where q2: "pq_pop hit_lessThan nul q1 = (Inr (pq_top q1), q2)"
    using hit_order.pop_ok [OF q1(2), of nul] q1(3) by auto
  have "last (take 1 B) = pq_top q1"
    by (rule hit_order.top_last [OF q1(2) _ q1(4)]) (use q1(3) c(3) q(4) in \<open>cases B; simp\<close>)+
  then have "pq_top q1 = hd B" using c(3) by (cases B) simp_all
  then show ?thesis using q1(1) q2 q(2) c(1,2) by (simp add: newTopDocs_def)
qed

definition page :: "nat \<Rightarrow> int \<Rightarrow> int \<Rightarrow> 's::linorder score_doc list \<Rightarrow> 's top_docs" where
  "page n start howMany hs =
     (if start < 0 \<or> int (min n (length hs)) \<le> start \<or> howMany \<le> 0 then EMPTY_TOPDOCS
      else \<lparr>td_totalHits = int (length hs),
            td_scoreDocs = take (nat howMany) (drop (nat start) (take n (ranked hit_lessThan hs))),
            td_maxScore = Some (sd_score (hd (ranked hit_lessThan hs)))\<rparr>)"

lemma topDocs_range_in:
  assumes c: "collector_ok n hs c" "\<forall>h\<in>set hs. hit_ok h"
    and r: "0 \<le> start" "start < int (min n (length hs))" "0 < howMany"
  shows "\<exists>c'. topDocs_range nul start howMany c = (Inr (page n start howMany hs), c')"
proof -
  let ?R = "ranked hit_lessThan hs"
  define s where "s = nat start"
  define siz where "siz = min n (length hs)"
  define m where "m = min (siz - s) (nat howMany)"
  have s: "start = int s" "s < siz" using r by (auto simp: s_def siz_def)
  have m: "0 < m" "s + m \<le> siz" "siz \<le> n" "siz \<le> length hs" "min (int siz - start) howMany = int m"
    using s r(3) by (auto simp: m_def siz_def min_def)
  have c': "pq_ok hit_lessThan (tc_pq c)" "pq_size (tc_pq c) = n" "mset (pq_elems (tc_pq c)) = mset (kept n hs)"
    "tc_totalHits c = int (length hs)" using c(1) by (simp_all add: collector_ok_def)
  have K: "take (s + m) (kept n hs) = take (s + m) ?R" using m by (simp add: kept_def)
  have sorted: "sorted_wrt (\<lambda>a b. \<not> hit_lessThan a b) (take k ?R)" for k
    by (rule sorted_wrt_take) (rule hit_order.sorted_ranked)
  obtain q1 where q1: "pq_pops hit_lessThan nul (n - (s + m)) (tc_pq c) = (Inr (rev (drop (s + m) (kept n hs))), q1)"
    "pq_ok hit_lessThan q1" "pq_size q1 = s + m" "mset (pq_elems q1) = mset (take (s + m) ?R)"
    using hit_order.pops_ranking [OF c'(1,3) sorted_kept [OF c(2)], of "n - (s + m)" nul] c'(2) m(2,3) K by auto
  have l1: "length (take (s + m) ?R) = s + m" "length (take (s + m) ?R) - m = s" using m by simp_all
  obtain q2 where q2: "pq_pops hit_lessThan nul m q1 = (Inr (rev (drop s (take (s + m) ?R))), q2)"
    "pq_ok hit_lessThan q2" "pq_size q2 = s" "mset (pq_elems q2) = mset (take s ?R)"
    using hit_order.pops_ranking [OF q1(2,4) sorted, of m nul] l1 q1(3) by (auto simp: min_absorb1)
  let ?rs = "drop s (take (s + m) ?R)"
  have rs: "?rs = take (nat howMany) (drop s (take n ?R))"
  proof -
    have "take n ?R = take siz ?R" unfolding siz_def by (cases "n \<le> length hs") simp_all
    then show ?thesis unfolding m_def using s(2) m(4) by (simp add: drop_take min_def)
  qed
  let ?c = "c\<lparr>tc_pq := q2\<rparr>"
  have "\<exists>c'. newTopDocs nul ?rs start ?c =
      (Inr \<lparr>td_totalHits = int (length hs), td_scoreDocs = ?rs, td_maxScore = Some (sd_score (hd ?R))\<rparr>, c')"
  proof (cases "s = 0")
    case True
    have "?R \<noteq> []" using m length_ranked [of hit_lessThan hs] by fastforce
    then have "?rs ! 0 = hd ?R" using True m by (cases ?R) simp_all
    then show ?thesis using True s(1) c'(4) by (simp add: newTopDocs_def)
  next
    case False
    have len: "pq_size q2 = length (take s ?R)" using q2(3) m by simp
    have ne: "take s ?R \<noteq> []" using len q2(3) False by (metis list.size(3))
    have "hd (take s ?R) = hd ?R" using ne by (cases ?R; cases s) simp_all
    moreover have "start \<noteq> 0" using False s(1) by simp
    ultimately show ?thesis
      using newTopDocs_best [OF q2(2) len q2(4) sorted _ _ ne, of ?c start nul ?rs] c'(4) by simp
  qed
  moreover have "topDocs_range nul start howMany c = newTopDocs nul ?rs start ?c"
  proof -
    have z: "(if tc_totalHits c < int (pq_size (tc_pq c)) then tc_totalHits c else int (pq_size (tc_pq c))) = int siz"
      using c'(2,4) by (simp add: siz_def min_def)
    have "nat (int (pq_size (tc_pq c)) - start - int m) = n - (s + m)" using c'(2) s(1) m by simp
    moreover have "\<not> (start < 0 \<or> int siz \<le> start \<or> howMany \<le> 0)" using s r(3) by simp
    ultimately show ?thesis using q1(1) q2(1) unfolding topDocs_range_def Let_def z m(5) by simp
  qed
  moreover have "page n start howMany hs =
      \<lparr>td_totalHits = int (length hs), td_scoreDocs = ?rs, td_maxScore = Some (sd_score (hd ?R))\<rparr>"
    using r rs by (auto simp: page_def s_def)
  ultimately show ?thesis by simp
qed

lemma topDocs_range_ok:
  assumes "collector_ok n hs c" "\<forall>h\<in>set hs. hit_ok h"
  shows "\<exists>c'. topDocs_range nul start howMany c = (Inr (page n start howMany hs), c')"
proof (cases "0 \<le> start \<and> start < int (min n (length hs)) \<and> 0 < howMany")
  case True
  then show ?thesis using topDocs_range_in [OF assms] by blast
next
  case False
  have "(if tc_totalHits c < int (pq_size (tc_pq c)) then tc_totalHits c else int (pq_size (tc_pq c))) = int (min n (length hs))"
    using assms(1) by (simp add: collector_ok_def min_def)
  moreover have "page n start howMany hs = EMPTY_TOPDOCS" using False by (auto simp: page_def)
  ultimately show ?thesis using False unfolding topDocs_range_def Let_def by auto
qed


lemma collect_hits_inOrder:
  "collector_ok n hs c \<Longrightarrow> \<forall>h\<in>set hs. hit_ok h \<Longrightarrow> \<forall>h\<in>set (segment_hits [(tc_docBase c, xs)]). hit_ok h \<and> sd_score h \<noteq> bot \<Longrightarrow>
   sorted_wrt (<) (map sd_doc (hs @ segment_hits [(tc_docBase c, xs)])) \<Longrightarrow> 0 < n \<Longrightarrow> length hs + length xs < 2 ^ 31 \<Longrightarrow>
   collect_hits collect_inOrder xs c = collect_hits collect_outOfOrder xs c"
proof (induction xs arbitrary: hs c)
  case (Cons x xs)
  obtain d s where x: "x = (d, s)" by (cases x)
  let ?h = "\<lparr>sd_doc = d + tc_docBase c, sd_score = s\<rparr>"
  have h: "hit_ok ?h" "s \<noteq> bot" "\<forall>h\<in>set hs. sd_doc h < d + tc_docBase c"
    using Cons.prems(3,4) x by (auto simp: sorted_wrt_append)
  have eq: "collect_inOrder d s c = collect_outOfOrder d s c"
    using collect_inOrder_eq [OF Cons.prems(1,5,2) h(3,2)] h(1) by (simp add: hit_ok_def)
  obtain c1 where c1: "collect_outOfOrder d s c = (Inr (), c1)" "collector_ok n (hs @ [?h]) c1" "tc_docBase c1 = tc_docBase c"
    using collect_outOfOrder_ok [OF Cons.prems(1,2) refl h(1)] Cons.prems(6) by auto
  have "\<forall>h\<in>set (hs @ [?h]). hit_ok h" using Cons.prems(2) h by simp
  moreover have "\<forall>h\<in>set (segment_hits [(tc_docBase c1, xs)]). hit_ok h \<and> sd_score h \<noteq> bot" using Cons.prems(3) c1(3) by simp
  moreover have "sorted_wrt (<) (map sd_doc ((hs @ [?h]) @ segment_hits [(tc_docBase c1, xs)]))"
    using Cons.prems(4) x c1(3) by simp
  ultimately have "collect_hits collect_inOrder xs c1 = collect_hits collect_outOfOrder xs c1"
    using Cons.IH [OF c1(2)] Cons.prems(5,6) by simp
  then show ?case using c1(1) x eq by simp
qed simp

lemma collect_segments_inOrder:
  "collector_ok n hs c \<Longrightarrow> \<forall>h\<in>set hs. hit_ok h \<Longrightarrow> \<forall>h\<in>set (segment_hits ss). hit_ok h \<and> sd_score h \<noteq> bot \<Longrightarrow>
   sorted_wrt (<) (map sd_doc (hs @ segment_hits ss)) \<Longrightarrow> 0 < n \<Longrightarrow> length hs + length (segment_hits ss) < 2 ^ 31 \<Longrightarrow>
   collect_segments collect_inOrder ss c = collect_segments collect_outOfOrder ss c"
proof (induction ss arbitrary: hs c)
  case (Cons s ss)
  obtain b xs where s: "s = (b, xs)" by (cases s)
  let ?c = "setNextReader b c"
  have x: "\<forall>h\<in>set (segment_hits [(tc_docBase ?c, xs)]). hit_ok h \<and> sd_score h \<noteq> bot" using Cons.prems(3) s by simp
  moreover have "sorted_wrt (<) (map sd_doc (hs @ segment_hits [(tc_docBase ?c, xs)]))"
    using Cons.prems(4) s by (simp add: sorted_wrt_append)
  ultimately have eq: "collect_hits collect_inOrder xs ?c = collect_hits collect_outOfOrder xs ?c"
    using collect_hits_inOrder [of n hs ?c xs] Cons.prems(1,2,5,6) s by simp
  obtain c1 where c1: "collect_hits collect_outOfOrder xs ?c = (Inr (), c1)"
    "collector_ok n (hs @ segment_hits [(b, xs)]) c1"
    using collect_hits_ok [of n hs ?c xs] Cons.prems(1,2,6) x s by auto
  have "\<forall>h\<in>set (hs @ segment_hits [(b, xs)]). hit_ok h" using Cons.prems(2) x by auto
  moreover have "\<forall>h\<in>set (segment_hits ss). hit_ok h \<and> sd_score h \<noteq> bot" using Cons.prems(3) s by simp
  moreover have "sorted_wrt (<) (map sd_doc ((hs @ segment_hits [(b, xs)]) @ segment_hits ss))" using Cons.prems(4) s by simp
  ultimately have "collect_segments collect_inOrder ss c1 = collect_segments collect_outOfOrder ss c1"
    using Cons.IH [OF c1(2)] Cons.prems(5,6) s by simp
  then show ?case using eq c1(1) s by simp
qed simp

text \<open>
  C5. The best hits: whatever order the documents come in, over whatever segments, and whatever
  \<^verbatim>\<open>start\<close> and \<^verbatim>\<open>howMany\<close> are asked for, the collector returns the page of the
  ranking of all hits by falling score and, within a score, rising document number, with the
  number of hits and the best score, or, when the page starts outside the hits that were kept or
  has no entries, the empty result with no hits and no best score. The queue holds fewer than
  \<open>2 ^ 30\<close> entries and the hits can be counted in an \<^verbatim>\<open>int32_t\<close>.
\<close>

theorem top_docs_best:
  assumes "\<forall>h\<in>set (segment_hits ss). hit_ok h" "numHits < 2 ^ 30" "length (segment_hits ss) < 2 ^ 31"
  shows "\<exists>c c'. collect_segments collect_outOfOrder ss (newTopScoreDocCollector nul numHits) = (Inr (), c) \<and>
    topDocs_range nul start howMany c =
      (Inr (if start < 0 \<or> int (min numHits (length (segment_hits ss))) \<le> start \<or> howMany \<le> 0 then EMPTY_TOPDOCS
            else \<lparr>td_totalHits = int (length (segment_hits ss)),
                  td_scoreDocs = take (nat howMany) (drop (nat start) (take numHits (ranked hit_lessThan (segment_hits ss)))),
                  td_maxScore = Some (sd_score (hd (ranked hit_lessThan (segment_hits ss))))\<rparr>), c') \<and>
    mset (ranked hit_lessThan (segment_hits ss)) = mset (segment_hits ss) \<and>
    sorted_wrt (\<lambda>a b. \<not> hit_lessThan a b) (ranked hit_lessThan (segment_hits ss))"
proof -
  obtain c where c: "collect_segments collect_outOfOrder ss (newTopScoreDocCollector nul numHits) = (Inr (), c)"
    "collector_ok numHits (segment_hits ss) c"
    using collect_segments_ok [OF new_collector_ok [OF assms(2)], of ss nul] assms(1,3) by auto
  obtain c' where "topDocs_range nul start howMany c = (Inr (page numHits start howMany (segment_hits ss)), c')"
    using topDocs_range_ok [OF c(2) assms(1)] by blast
  then show ?thesis unfolding page_def using c(1) hit_order.sorted_ranked [of "segment_hits ss"] by auto
qed

theorem top_docs_best_witness:
  "\<exists>c c'. collect_segments collect_outOfOrder [(0, [(0, 5), (3, 9)]), (10, [(1, 7 :: nat)])] (newTopScoreDocCollector \<lparr>sd_doc = 0, sd_score = 0\<rparr> 2) = (Inr (), c) \<and>
    topDocs_range \<lparr>sd_doc = 0, sd_score = 0\<rparr> 0 2 c =
      (Inr \<lparr>td_totalHits = 3, td_scoreDocs = [\<lparr>sd_doc = 3, sd_score = 9\<rparr>, \<lparr>sd_doc = 11, sd_score = 7\<rparr>], td_maxScore = Some 9\<rparr>, c')"
  using top_docs_best [of "[(0, [(0, 5), (3, 9)]), (10, [(1, 7 :: nat)])]" 2 "\<lparr>sd_doc = 0, sd_score = 0\<rparr>" 0 2]
  by (simp add: hit_ok_def ranked_def hit_lessThan_def numeral_3_eq_3)

text \<open>
  When the documents come in rising order and no score is minus infinity, the cheaper test of
  the in-order collector makes the same decisions: both collectors end in the same state.
\<close>

theorem in_order_collector_agrees:
  assumes "\<forall>h\<in>set (segment_hits ss). hit_ok h \<and> sd_score h \<noteq> bot" "sorted_wrt (<) (map sd_doc (segment_hits ss))"
    and "0 < numHits" "numHits < 2 ^ 30" "length (segment_hits ss) < 2 ^ 31"
  shows "collect_segments collect_inOrder ss (newTopScoreDocCollector nul numHits) =
    collect_segments collect_outOfOrder ss (newTopScoreDocCollector nul numHits)"
  using collect_segments_inOrder [OF new_collector_ok [OF assms(4)], of ss nul] assms by simp

theorem in_order_collector_agrees_witness:
  "collect_segments collect_inOrder [(0, [(0, 5), (3, 9)]), (10, [(1, 7 :: nat)])] (newTopScoreDocCollector \<lparr>sd_doc = 0, sd_score = 0\<rparr> 2) =
    collect_segments collect_outOfOrder [(0, [(0, 5), (3, 9)]), (10, [(1, 7 :: nat)])] (newTopScoreDocCollector \<lparr>sd_doc = 0, sd_score = 0\<rparr> 2)"
  by (rule in_order_collector_agrees) (simp_all add: hit_ok_def bot_nat_def)

end
