(* ===== verification/BufferedInput.thy ===== *)
theory BufferedInput imports ByteCodec begin

text \<open>
  Buffered input: \<^verbatim>\<open>store/BufferedIndexInput.cpp\<close> over the virtual \<^verbatim>\<open>length\<close>,
  \<^verbatim>\<open>readInternal\<close> and \<^verbatim>\<open>seekInternal\<close> of its subclass, and the subclass on files,
  \<^verbatim>\<open>SimpleFSIndexInput\<close> with its \<^verbatim>\<open>InputFile\<close> (\<^verbatim>\<open>store/SimpleFSDirectory.cpp\<close>).

  The state is a pair of the fields of the stream and the state of the subclass, because clones
  of a stream have fields of their own and share the open file. The subclass learns the position
  to read at from \<^verbatim>\<open>getFilePointer\<close>; that value is an argument of \<open>rdi\<close>. The
  bytes of a fresh buffer are unknown; the model writes zeros for them, and the invariant only
  speaks of the bytes before \<^verbatim>\<open>bufferLength\<close>.
\<close>

record buf_in =
  bi_bufferSize :: nat
  bi_start :: nat
  bi_length :: nat
  bi_position :: nat
  bi_buffer :: "byte list option"

definition BI_BUFFER_SIZE :: nat where
  "BI_BUFFER_SIZE = 1024 * 2"

definition newBufferedIndexInput :: "nat \<Rightarrow> buf_in" where
  "newBufferedIndexInput bufferSize =
     \<lparr>bi_bufferSize = bufferSize, bi_start = 0, bi_length = 0, bi_position = 0, bi_buffer = None\<rparr>"

definition bi_getFilePointer :: "buf_in \<Rightarrow> nat" where
  "bi_getFilePointer s = bi_start s + bi_position s"

definition bi_refill :: "('f \<Rightarrow> nat) \<Rightarrow> (nat \<Rightarrow> nat \<Rightarrow> 'f \<Rightarrow> (byte list \<times> 'f) result) \<Rightarrow> (nat \<Rightarrow> 'f \<Rightarrow> 'f) \<Rightarrow>
    buf_in \<times> 'f \<Rightarrow> (buf_in \<times> 'f) result" where
  "bi_refill len rdi ski = (\<lambda>(s, f).
     let start = bi_start s + bi_position s;
         end = start + bi_bufferSize s;
         end = (if len f < end then len f else end);
         newLength = trunc32 (int end - int start)
     in if newLength \<le> 0 then Inl IOException
        else let (buf, f) = (case bi_buffer s of Some buf \<Rightarrow> (buf, f)
                             | None \<Rightarrow> (replicate (bi_bufferSize s) 0, ski (bi_start s) f))
             in bind_r (rdi (bi_getFilePointer s) (nat newLength) f) (\<lambda>(bytes, f).
                  Inr (s\<lparr>bi_buffer := Some (arrayCopy bytes 0 buf 0 (nat newLength)), bi_length := nat newLength,
                         bi_start := start, bi_position := 0\<rparr>, f)))"

text \<open>\<^verbatim>\<open>__buffer[bufferPosition++]\<close>\<close>

definition bi_next :: "(buf_in \<times> 'f) reader" where
  "bi_next = (\<lambda>(s, f). case bi_buffer s of None \<Rightarrow> Inl OutOfRange
     | Some buf \<Rightarrow> bind_r (arr_get buf (bi_position s)) (\<lambda>b. Inr (b, s\<lparr>bi_position := bi_position s + 1\<rparr>, f)))"

definition bi_readByte :: "('f \<Rightarrow> nat) \<Rightarrow> (nat \<Rightarrow> nat \<Rightarrow> 'f \<Rightarrow> (byte list \<times> 'f) result) \<Rightarrow> (nat \<Rightarrow> 'f \<Rightarrow> 'f) \<Rightarrow>
    (buf_in \<times> 'f) reader" where
  "bi_readByte len rdi ski = (\<lambda>(s, f).
     if bi_position s < bi_length s then bi_next (s, f) else bind_r (bi_refill len rdi ski (s, f)) bi_next)"

definition MAX_VARINT32_LENGTH :: nat where
  "MAX_VARINT32_LENGTH = 5"

definition bi_readVInt :: "('f \<Rightarrow> nat) \<Rightarrow> (nat \<Rightarrow> nat \<Rightarrow> 'f \<Rightarrow> (byte list \<times> 'f) result) \<Rightarrow> (nat \<Rightarrow> 'f \<Rightarrow> 'f) \<Rightarrow>
    buf_in \<times> 'f \<Rightarrow> (int32 \<times> (buf_in \<times> 'f)) result" where
  "bi_readVInt len rdi ski = (\<lambda>(s, f).
     if bi_position s + MAX_VARINT32_LENGTH < bi_length s then readVInt bi_next (s, f)
     else readVInt (bi_readByte len rdi ski) (s, f))"

text \<open>\<^verbatim>\<open>arrayCopy\<close> out of the buffer\<close>

definition bi_slice :: "nat \<Rightarrow> nat \<Rightarrow> buf_in \<Rightarrow> byte list result" where
  "bi_slice p n s = (case bi_buffer s of None \<Rightarrow> Inl OutOfRange
     | Some buf \<Rightarrow> if p + n \<le> length buf then Inr (take n (drop p buf)) else Inl OutOfRange)"

definition bi_readBytes :: "('f \<Rightarrow> nat) \<Rightarrow> (nat \<Rightarrow> nat \<Rightarrow> 'f \<Rightarrow> (byte list \<times> 'f) result) \<Rightarrow> (nat \<Rightarrow> 'f \<Rightarrow> 'f) \<Rightarrow>
    bool \<Rightarrow> nat \<Rightarrow> buf_in \<times> 'f \<Rightarrow> (byte list \<times> (buf_in \<times> 'f)) result" where
  "bi_readBytes len rdi ski useBuffer n = (\<lambda>(s, f).
     if int n \<le> int (bi_length s) - int (bi_position s)
     then bind_r (if 0 < n then bi_slice (bi_position s) n s else Inr []) (\<lambda>bs.
            Inr (bs, s\<lparr>bi_position := bi_position s + n\<rparr>, f))
     else let available = bi_length s - bi_position s in
          bind_r (if 0 < available then bi_slice (bi_position s) available s else Inr []) (\<lambda>bs.
          let n = n - available; s = s\<lparr>bi_position := bi_position s + available\<rparr> in
          if useBuffer \<and> n < bi_bufferSize s
          then bind_r (bi_refill len rdi ski (s, f)) (\<lambda>(s, f).
               if bi_length s < n then Inl IOException
               else bind_r (bi_slice 0 n s) (\<lambda>cs. Inr (bs @ cs, s\<lparr>bi_position := n\<rparr>, f)))
          else let after = bi_start s + bi_position s + n in
               if len f < after then Inl IOException
               else bind_r (rdi (bi_getFilePointer s) n f) (\<lambda>(cs, f).
                    Inr (bs @ cs, s\<lparr>bi_start := after, bi_position := 0, bi_length := 0\<rparr>, f))))"

definition bi_setBufferSize :: "nat \<Rightarrow> buf_in \<Rightarrow> buf_in result" where
  "bi_setBufferSize newSize s =
     (if newSize \<noteq> bi_bufferSize s
      then let s = s\<lparr>bi_bufferSize := newSize\<rparr>
           in case bi_buffer s of None \<Rightarrow> Inr s
              | Some buf \<Rightarrow>
                  let leftInBuffer = bi_length s - bi_position s;
                      numToCopy = (if newSize < leftInBuffer then newSize else leftInBuffer)
                  in bind_r (bi_slice (bi_position s) numToCopy s) (\<lambda>bs.
                       Inr (s\<lparr>bi_start := bi_start s + bi_position s, bi_position := 0, bi_length := numToCopy,
                              bi_buffer := Some (arrayCopy bs 0 (replicate newSize 0) 0 numToCopy)\<rparr>))
      else Inr s)"

definition bi_close :: "buf_in \<Rightarrow> buf_in" where
  "bi_close s = s\<lparr>bi_start := 0, bi_length := 0, bi_position := 0\<rparr>"

definition bi_seek :: "(nat \<Rightarrow> 'f \<Rightarrow> 'f) \<Rightarrow> nat \<Rightarrow> buf_in \<times> 'f \<Rightarrow> buf_in \<times> 'f" where
  "bi_seek ski pos = (\<lambda>(s, f).
     if bi_start s \<le> pos \<and> pos < bi_start s + bi_length s then (s\<lparr>bi_position := pos - bi_start s\<rparr>, f)
     else (s\<lparr>bi_start := pos, bi_position := 0, bi_length := 0\<rparr>, ski pos f))"

definition bi_clone :: "buf_in \<Rightarrow> buf_in" where
  "bi_clone s = \<lparr>bi_bufferSize = bi_bufferSize s, bi_start = bi_getFilePointer s, bi_length = 0, bi_position = 0, bi_buffer = None\<rparr>"

subsection \<open>What the subclass promises\<close>

locale internal_file =
  fixes len :: "'f \<Rightarrow> nat" and rdi :: "nat \<Rightarrow> nat \<Rightarrow> 'f \<Rightarrow> (byte list \<times> 'f) result" and ski :: "nat \<Rightarrow> 'f \<Rightarrow> 'f"
    and fok :: "'f \<Rightarrow> bool" and bytes :: "'f \<Rightarrow> byte list"
  assumes len_bytes: "fok f \<Longrightarrow> len f = length (bytes f)"
    and rdi_reads: "fok f \<Longrightarrow> n < 2 ^ 31 \<Longrightarrow> p + n \<le> length (bytes f) \<Longrightarrow>
      \<exists>g. rdi p n f = Inr (take n (drop p (bytes f)), g) \<and> fok g \<and> bytes g = bytes f"
    and ski_keeps: "fok f \<Longrightarrow> fok (ski p f) \<and> bytes (ski p f) = bytes f"

text \<open>The invariant: what the buffer holds is what the file holds at the same place.\<close>

definition bi_ok :: "byte list \<Rightarrow> buf_in \<Rightarrow> bool" where
  "bi_ok D s \<longleftrightarrow> 0 < bi_bufferSize s \<and> bi_bufferSize s < 2 ^ 31 \<and> bi_position s \<le> bi_length s \<and>
     bi_start s + bi_position s \<le> length D + 2 ^ 31 \<and>
     (0 < bi_length s \<longrightarrow> bi_start s + bi_length s \<le> length D) \<and>
     (case bi_buffer s of None \<Rightarrow> bi_length s = 0
      | Some buf \<Rightarrow> length buf = bi_bufferSize s \<and> bi_length s \<le> bi_bufferSize s \<and>
          take (bi_length s) buf = take (bi_length s) (drop (bi_start s) D))"

definition bi_rest :: "byte list \<Rightarrow> buf_in \<Rightarrow> byte list" where
  "bi_rest D s = drop (bi_start s + bi_position s) D"

lemma new_bi_ok: "0 < n \<Longrightarrow> n < 2 ^ 31 \<Longrightarrow> bi_ok D (newBufferedIndexInput n) \<and> bi_rest D (newBufferedIndexInput n) = D"
  by (simp add: bi_ok_def newBufferedIndexInput_def bi_rest_def)

lemma bi_clone_ok: "bi_ok D s \<Longrightarrow> bi_ok D (bi_clone s) \<and> bi_rest D (bi_clone s) = bi_rest D s"
  by (simp add: bi_ok_def bi_clone_def bi_rest_def bi_getFilePointer_def)

lemma bi_slice_rest:
  assumes "bi_ok D s" "bi_position s + n \<le> bi_length s" "0 < n"
  shows "bi_slice (bi_position s) n s = Inr (take n (bi_rest D s))"
proof -
  obtain buf where b: "bi_buffer s = Some buf" "length buf = bi_bufferSize s" "bi_length s \<le> bi_bufferSize s"
    "take (bi_length s) buf = take (bi_length s) (drop (bi_start s) D)"
    using assms by (cases "bi_buffer s") (auto simp: bi_ok_def)
  have "take n (drop (bi_position s) buf) = take n (drop (bi_position s) (take (bi_length s) buf))"
    using assms(2) by (simp add: take_drop min_absorb1)
  also have "\<dots> = take n (bi_rest D s)"
    unfolding b(4) using assms(2) by (simp add: take_drop min_absorb1 bi_rest_def add.commute)
  finally show ?thesis using b assms(2) by (simp add: bi_slice_def)
qed

lemma bi_skip_ok:
  assumes "bi_ok D s" "bi_position s + n \<le> bi_length s"
  shows "bi_ok D (s\<lparr>bi_position := bi_position s + n\<rparr>)" "bi_rest D (s\<lparr>bi_position := bi_position s + n\<rparr>) = drop n (bi_rest D s)"
proof -
  have "bi_start s + (bi_position s + n) \<le> length D + 2 ^ 31" using assms by (cases "bi_length s = 0") (auto simp: bi_ok_def)
  then show "bi_ok D (s\<lparr>bi_position := bi_position s + n\<rparr>)" using assms by (cases "bi_buffer s") (simp_all add: bi_ok_def)
  show "bi_rest D (s\<lparr>bi_position := bi_position s + n\<rparr>) = drop n (bi_rest D s)" by (simp add: bi_rest_def ac_simps)
qed

lemma bi_next_rest:
  assumes "bi_ok D s" "bi_position s < bi_length s"
  shows "\<exists>t. bi_next (s, f) = Inr (hd (bi_rest D s), t, f) \<and> bi_ok D t \<and> bi_rest D t = tl (bi_rest D s) \<and> bi_rest D s \<noteq> [] \<and>
    t = s\<lparr>bi_position := bi_position s + 1\<rparr>"
proof -
  obtain buf where b: "bi_buffer s = Some buf" "bi_position s < length buf"
    using assms by (cases "bi_buffer s") (auto simp: bi_ok_def)
  have "bi_slice (bi_position s) 1 s = Inr (take 1 (bi_rest D s))" using bi_slice_rest [of D s 1] assms by simp
  then have "[buf ! bi_position s] = take 1 (bi_rest D s)" using b by (simp add: bi_slice_def take_Suc hd_drop_conv_nth)
  then have "bi_rest D s \<noteq> []" "buf ! bi_position s = hd (bi_rest D s)" by (cases "bi_rest D s"; simp)+
  then show ?thesis using b bi_skip_ok [of D s 1] assms by (simp add: bi_next_def drop_Suc)
qed


context internal_file begin

definition inv :: "buf_in \<times> 'f \<Rightarrow> bool" where
  "inv sf \<longleftrightarrow> fok (snd sf) \<and> bi_ok (bytes (snd sf)) (fst sf)"

definition left :: "buf_in \<times> 'f \<Rightarrow> byte list" where
  "left sf = bi_rest (bytes (snd sf)) (fst sf)"

lemma refill_eof:
  assumes "inv (s, f)" "left (s, f) = []"
  shows "bi_refill len rdi ski (s, f) = Inl IOException"
proof -
  have le: "length (bytes f) \<le> bi_start s + bi_position s" "bi_start s + bi_position s \<le> length (bytes f) + 2 ^ 31" "len f = length (bytes f)"
    using assms len_bytes by (auto simp: inv_def left_def bi_rest_def bi_ok_def)
  have "0 < bi_bufferSize s" using assms(1) by (simp add: inv_def bi_ok_def)
  then have e: "(if len f < bi_start s + bi_position s + bi_bufferSize s then len f else bi_start s + bi_position s + bi_bufferSize s) = length (bytes f)"
    using le by simp
  have "trunc32 (int (length (bytes f)) - int (bi_start s + bi_position s)) = int (length (bytes f)) - int (bi_start s + bi_position s)"
    using le by (intro trunc32_id) auto
  then show ?thesis using le unfolding bi_refill_def Let_def prod.case e by simp
qed

lemma refill_ok:
  assumes i: "inv (s, f)" and l: "left (s, f) \<noteq> []"
  shows "\<exists>t g. bi_refill len rdi ski (s, f) = Inr (t, g) \<and> inv (t, g) \<and> bytes g = bytes f \<and> left (t, g) = left (s, f) \<and>
    bi_position t = 0 \<and> bi_length t = min (bi_bufferSize s) (length (left (s, f))) \<and> bi_bufferSize t = bi_bufferSize s"
proof -
  let ?D = "bytes f" and ?p = "bi_start s + bi_position s"
  have ok: "bi_ok ?D s" "fok f" using i by (simp_all add: inv_def)
  have p: "?p < length ?D" using l by (simp add: left_def bi_rest_def)
  define m where "m = min (bi_bufferSize s) (length ?D - ?p)"
  have m: "0 < m" "m \<le> bi_bufferSize s" "?p + m \<le> length ?D" "m < 2 ^ 31" using ok(1) p by (auto simp: m_def bi_ok_def)
  have e: "trunc32 (int (if len f < ?p + bi_bufferSize s then len f else ?p + bi_bufferSize s) - int ?p) = int m"
  proof -
    have "int (if len f < ?p + bi_bufferSize s then len f else ?p + bi_bufferSize s) - int ?p = int m"
      using len_bytes [OF ok(2)] p by (auto simp: m_def)
    then show ?thesis using m(4) by simp
  qed
  obtain buf h where b: "(case bi_buffer s of Some buf \<Rightarrow> (buf, f) | None \<Rightarrow> (replicate (bi_bufferSize s) 0, ski (bi_start s) f)) = (buf, h)"
    "length buf = bi_bufferSize s" "fok h" "bytes h = ?D"
    using ok ski_keeps [OF ok(2)] by (cases "bi_buffer s") (auto simp: bi_ok_def)
  obtain g where g: "rdi ?p m h = Inr (take m (drop ?p ?D), g)" "fok g" "bytes g = ?D"
    using rdi_reads [OF b(3) m(4), of ?p] m(3) b(4) by auto
  let ?t = "s\<lparr>bi_buffer := Some (arrayCopy (take m (drop ?p ?D)) 0 buf 0 m), bi_length := m, bi_start := ?p, bi_position := 0\<rparr>"
  have c: "arrayCopy (take m (drop ?p ?D)) 0 buf 0 m = take m (drop ?p ?D) @ drop m buf"
    using m b(2) by (subst arrayCopy_blocks) (simp_all add: min_absorb2)
  have "bi_refill len rdi ski (s, f) = Inr (?t, g)"
    unfolding bi_refill_def Let_def prod.case e b(1) using m(1) g(1) by (simp add: bi_getFilePointer_def)
  moreover have "bi_ok ?D ?t" using ok(1) m b(2) p by (simp add: bi_ok_def c min_absorb2)
  ultimately show ?thesis using g m p by (intro exI [of _ ?t] exI [of _ g]) (auto simp: inv_def left_def bi_rest_def m_def)
qed

lemma readByte_some:
  assumes i: "inv sf" and l: "left sf = b # bs"
  shows "\<exists>sf'. bi_readByte len rdi ski sf = Inr (b, sf') \<and> inv sf' \<and> left sf' = bs \<and> bytes (snd sf') = bytes (snd sf)"
proof -
  obtain s f where sf: "sf = (s, f)" by (cases sf)
  show ?thesis
  proof (cases "bi_position s < bi_length s")
    case True
    obtain t where "bi_next (s, f) = Inr (hd (bi_rest (bytes f) s), t, f)" "bi_ok (bytes f) t" "bi_rest (bytes f) t = tl (bi_rest (bytes f) s)"
      using bi_next_rest [OF _ True] i sf by (fastforce simp: inv_def)
    then show ?thesis using True i l sf by (simp add: bi_readByte_def inv_def left_def)
  next
    case False
    obtain t g where t: "bi_refill len rdi ski (s, f) = Inr (t, g)" "inv (t, g)" "bytes g = bytes f" "left (t, g) = left (s, f)"
      "bi_position t = 0" "bi_length t = min (bi_bufferSize s) (length (left (s, f)))" "bi_bufferSize t = bi_bufferSize s"
      using refill_ok [of s f] i l sf by auto
    have "0 < bi_bufferSize s" using i sf by (simp add: inv_def bi_ok_def)
    then have "bi_position t < bi_length t" using t(5,6) l sf by simp
    then obtain u where "bi_next (t, g) = Inr (hd (bi_rest (bytes g) t), u, g)" "bi_ok (bytes g) u" "bi_rest (bytes g) u = tl (bi_rest (bytes g) t)"
      using bi_next_rest [of "bytes g" t g] t(2) by (fastforce simp: inv_def)
    then show ?thesis using False t l sf by (simp add: bi_readByte_def inv_def left_def)
  qed
qed

lemma readByte_eof:
  assumes "inv sf" "left sf = []"
  shows "bi_readByte len rdi ski sf = Inl IOException"
proof -
  obtain s f where sf: "sf = (s, f)" by (cases sf)
  have "\<not> bi_position s < bi_length s"
    using assms sf bi_next_rest [of "bytes f" s f] by (auto simp: inv_def left_def)
  then show ?thesis using refill_eof [of s f] assms sf by (simp add: bi_readByte_def)
qed

end

text \<open>So a buffered stream over any such subclass is a byte source.\<close>

sublocale internal_file \<subseteq> stream: byte_source "bi_readByte len rdi ski" inv left
  using readByte_some readByte_eof by unfold_locales blast+

context internal_file begin

lemma readBytes_ok:
  assumes i: "inv (s, f)" and n: "n \<le> length (left (s, f))" "n < 2 ^ 31"
  shows "\<exists>t g. bi_readBytes len rdi ski useBuffer n (s, f) = Inr (take n (left (s, f)), t, g) \<and> inv (t, g) \<and> bytes g = bytes f \<and>
    left (t, g) = drop n (left (s, f))"
proof (cases "int n \<le> int (bi_length s) - int (bi_position s)")
  case True
  have ok: "bi_ok (bytes f) s" "fok f" using i by (simp_all add: inv_def)
  have le: "bi_position s + n \<le> bi_length s" using True by linarith
  have "(if 0 < n then bi_slice (bi_position s) n s else Inr []) = Inr (take n (left (s, f)))"
    using bi_slice_rest [OF ok(1) le] by (simp add: left_def)
  then show ?thesis using True bi_skip_ok [OF ok(1) le] ok(2) by (simp add: bi_readBytes_def inv_def left_def)
next
  case False
  have ok: "bi_ok (bytes f) s" "fok f" "bi_position s \<le> bi_length s" using i by (simp_all add: inv_def bi_ok_def)
  define a where "a = bi_length s - bi_position s"
  let ?s = "s\<lparr>bi_position := bi_position s + a\<rparr>"
  have le: "bi_position s + a \<le> bi_length s" using ok(3) by (simp add: a_def)
  have s: "bi_ok (bytes f) ?s" "left (?s, f) = drop a (left (s, f))"
    using bi_skip_ok [OF ok(1) le] by (simp_all add: left_def)
  have bs: "(if 0 < a then bi_slice (bi_position s) a s else Inr []) = Inr (take a (left (s, f)))"
    using bi_slice_rest [OF ok(1) le] by (simp add: left_def)
  have an: "a < n" using False ok(3) by (auto simp: a_def)
  have tk: "take n (left (s, f)) = take a (left (s, f)) @ take (n - a) (left (?s, f))"
    unfolding s(2) using an take_add [of a "n - a" "left (s, f)"] by simp
  have dr: "drop n (left (s, f)) = drop (n - a) (left (?s, f))" unfolding s(2) using an by simp
  have nl: "n - a \<le> length (left (?s, f))" using n(1) s(2) by simp
  have i': "inv (?s, f)" using s ok(2) by (simp add: inv_def)
  show ?thesis
  proof (cases "useBuffer \<and> n - a < bi_bufferSize s")
    case True
    have "left (?s, f) \<noteq> []" using nl an by auto
    from refill_ok [OF i' this] obtain t g where t: "bi_refill len rdi ski (?s, f) = Inr (t, g)" "inv (t, g)" "bytes g = bytes f"
      "left (t, g) = left (?s, f)" "bi_position t = 0" "bi_length t = min (bi_bufferSize ?s) (length (left (?s, f)))" by blast
    have ok': "bi_ok (bytes g) t" and fit: "bi_position t + (n - a) \<le> bi_length t" using t nl True by (simp_all add: inv_def)
    have c: "bi_slice 0 (n - a) t = Inr (take (n - a) (left (?s, f)))"
      using bi_slice_rest [OF ok' fit] an t(4,5) by (simp add: left_def)
    have "\<not> bi_length t < n - a" using fit t(5) by simp
    then show ?thesis using False True bs c t(1-5) bi_skip_ok [OF ok' fit] tk dr
      by (simp add: bi_readBytes_def Let_def inv_def left_def flip: a_def)
  next
    case no: False
    have fit: "bi_start ?s + bi_position ?s + (n - a) \<le> length (bytes f)"
      using nl an by (simp add: left_def bi_rest_def)
    have "n - a < 2 ^ 31" using n(2) by simp
    then obtain g where g: "rdi (bi_start ?s + bi_position ?s) (n - a) f = Inr (take (n - a) (left (?s, f)), g)" "fok g" "bytes g = bytes f"
      using rdi_reads [OF ok(2) _ fit] by (auto simp: left_def bi_rest_def)
    let ?t = "s\<lparr>bi_start := bi_start s + bi_position s + a + (n - a), bi_position := 0, bi_length := 0\<rparr>"
    have "bi_ok (bytes g) ?t" using ok(1) fit g(3) by (cases "bi_buffer s") (auto simp: bi_ok_def)
    moreover have "bi_rest (bytes g) ?t = drop n (left (s, f))" using an g(3) by (simp add: left_def bi_rest_def add.commute)
    moreover have "bi_readBytes len rdi ski useBuffer n (s, f) = Inr (take n (left (s, f)), ?t, g)"
      using False no bs g fit len_bytes [OF ok(2)] tk
      by (auto simp: bi_readBytes_def Let_def bi_getFilePointer_def add.assoc simp flip: a_def)
    ultimately show ?thesis using g(2,3) by (simp add: inv_def left_def)
  qed
qed

lemma readBytes_eof:
  assumes i: "inv (s, f)" and n: "length (left (s, f)) < n"
  shows "bi_readBytes len rdi ski useBuffer n (s, f) = Inl IOException"
proof -
  have ok: "bi_ok (bytes f) s" "fok f" "bi_position s \<le> bi_length s" using i by (simp_all add: inv_def bi_ok_def)
  define a where "a = bi_length s - bi_position s"
  let ?s = "s\<lparr>bi_position := bi_position s + a\<rparr>"
  have le: "bi_position s + a \<le> bi_length s" using ok(3) by (simp add: a_def)
  have s: "bi_ok (bytes f) ?s" "left (?s, f) = drop a (left (s, f))"
    using bi_skip_ok [OF ok(1) le] by (simp_all add: left_def)
  have al: "a \<le> length (left (s, f))"
    using ok(1,3) by (cases "bi_length s = 0") (auto simp: a_def left_def bi_rest_def bi_ok_def)
  then have an: "\<not> int n \<le> int (bi_length s) - int (bi_position s)" using n ok(3) by (simp add: a_def)
  have bs: "(if 0 < a then bi_slice (bi_position s) a s else Inr []) = Inr (take a (left (s, f)))"
    using bi_slice_rest [OF ok(1) le] by (simp add: left_def)
  have i': "inv (?s, f)" using s ok(2) by (simp add: inv_def)
  have nl: "length (left (?s, f)) < n - a" using n s(2) al by simp
  show ?thesis
  proof (cases "useBuffer \<and> n - a < bi_bufferSize s")
    case True
    show ?thesis
    proof (cases "left (?s, f) = []")
      case True
      then show ?thesis using refill_eof [OF i'] \<open>useBuffer \<and> _\<close> an bs by (simp add: bi_readBytes_def Let_def flip: a_def)
    next
      case False
      from refill_ok [OF i' this] obtain t g where t: "bi_refill len rdi ski (?s, f) = Inr (t, g)"
        "bi_length t = min (bi_bufferSize ?s) (length (left (?s, f)))" by blast
      then have "bi_length t < n - a" using nl by simp
      then show ?thesis using t(1) True an bs by (simp add: bi_readBytes_def Let_def flip: a_def)
    qed
  next
    case False
    have "len f < bi_start ?s + bi_position ?s + (n - a)" using nl len_bytes [OF ok(2)] by (simp add: left_def bi_rest_def)
    then show ?thesis using False an bs by (auto simp add: bi_readBytes_def Let_def simp flip: a_def)
  qed
qed

lemma seek_ok:
  assumes "inv (s, f)" "pos \<le> length (bytes f) + 2 ^ 31"
  shows "\<exists>t g. bi_seek ski pos (s, f) = (t, g) \<and> inv (t, g) \<and> bytes g = bytes f \<and> left (t, g) = drop pos (bytes f) \<and> bi_getFilePointer t = pos"
  using assms ski_keeps [of f pos]
  by (cases "bi_buffer s") (auto simp: bi_seek_def inv_def left_def bi_ok_def bi_rest_def bi_getFilePointer_def)

end

lemma setBufferSize_ok:
  assumes ok: "bi_ok D s" and n: "0 < n" "n < 2 ^ 31"
  shows "\<exists>t. bi_setBufferSize n s = Inr t \<and> bi_ok D t \<and> bi_rest D t = bi_rest D s \<and> bi_getFilePointer t = bi_getFilePointer s"
proof (cases "n = bi_bufferSize s \<or> bi_buffer s = None")
  case True
  then show ?thesis using ok n by (cases "bi_buffer s") (auto simp: bi_setBufferSize_def bi_ok_def bi_rest_def Let_def bi_getFilePointer_def)
next
  case False
  then obtain buf where b: "n \<noteq> bi_bufferSize s" "bi_buffer s = Some buf" by auto
  define m where "m = (if n < bi_length s - bi_position s then n else bi_length s - bi_position s)"
  have m: "bi_position s + m \<le> bi_length s" "m \<le> n" using ok by (auto simp: m_def bi_ok_def)
  let ?s = "s\<lparr>bi_bufferSize := n\<rparr>"
  have sl: "bi_slice (bi_position s) m ?s = Inr (take m (bi_rest D s))"
  proof (cases "m = 0")
    case True
    then show ?thesis using b m ok by (auto simp: bi_slice_def bi_ok_def)
  next
    case False
    then show ?thesis using bi_slice_rest [OF ok m(1)] by (simp add: bi_slice_def)
  qed
  have len: "length (take m (bi_rest D s)) = m"
    using ok m by (cases "bi_length s = 0") (auto simp: bi_rest_def bi_ok_def)
  let ?t = "?s\<lparr>bi_start := bi_start s + bi_position s, bi_position := 0, bi_length := m,
    bi_buffer := Some (arrayCopy (take m (bi_rest D s)) 0 (replicate n 0) 0 m)\<rparr>"
  have c: "arrayCopy (take m (bi_rest D s)) 0 (replicate n 0) 0 m = take m (bi_rest D s) @ replicate (n - m) 0"
    using m(2) len by (subst arrayCopy_blocks) simp_all
  have "bi_setBufferSize n s = Inr ?t" using b sl by (simp add: bi_setBufferSize_def Let_def flip: m_def)
  moreover have "bi_start s + bi_position s + m \<le> length D" if "0 < m"
    using ok m(1) that by (auto simp: bi_ok_def)
  then have "bi_ok D ?t" using ok n m len unfolding bi_ok_def c by (simp add: bi_rest_def)
  ultimately show ?thesis by (intro exI [of _ ?t]) (simp add: bi_rest_def bi_getFilePointer_def)
qed

lemma readVInt_loop_agrees:
  "k \<le> 5 \<Longrightarrow> bi_position s + 6 \<le> bi_length s + k \<Longrightarrow>
     readVInt_loop bi_next (7 * k) i b (s, f) = readVInt_loop (bi_readByte len rdi ski) (7 * k) i b (s, f)"
proof (induction "5 - k" arbitrary: k i b s)
  case 0
  have rb: "bi_readByte len rdi ski (s, f) = bi_next (s, f)" using 0 by (simp add: bi_readByte_def)
  have "\<not> 7 * k < 32" using 0 by simp
  then show ?case by (subst (1 2) readVInt_loop.simps) (simp add: rb)
next
  case (Suc d)
  have rb: "bi_readByte len rdi ski (s, f) = bi_next (s, f)" using Suc.prems by (simp add: bi_readByte_def)
  have k: "7 * k + 7 = 7 * Suc k" "Suc k \<le> 5" "d = 5 - Suc k" using Suc.hyps(2) by simp_all
  show ?case
  proof (cases "bi_next (s, f)")
    case (Inr r)
    then obtain c where r: "r = (c, s\<lparr>bi_position := bi_position s + 1\<rparr>, f)"
      by (auto simp: bi_next_def bind_r_Inr_iff split: option.splits)
    have "bi_position (s\<lparr>bi_position := bi_position s + 1\<rparr>) + 6 \<le> bi_length (s\<lparr>bi_position := bi_position s + 1\<rparr>) + Suc k"
      using Suc.prems by simp
    from Suc.hyps(1) [OF k(3,2) this] show ?thesis
      by (subst (1 2) readVInt_loop.simps) (simp only: rb Inr r k(1) bind_r_simps prod.case)
  qed (subst (1 2) readVInt_loop.simps, simp add: rb)
qed

text \<open>
  The fast path of \<^verbatim>\<open>readVInt\<close>, which reads from the buffer without looking at its end when
  more than five bytes are left, returns what reading byte by byte returns, on every state and
  every input, malformed ones included.
\<close>

theorem buffered_readVInt:
  "bi_readVInt len rdi ski sf = readVInt (bi_readByte len rdi ski) sf"
proof -
  obtain s f where sf: "sf = (s, f)" by (cases sf)
  show ?thesis
  proof (cases "bi_position s + MAX_VARINT32_LENGTH < bi_length s")
    case True
    then have p: "bi_position s + 5 < bi_length s" by (simp add: MAX_VARINT32_LENGTH_def)
    then have rb: "bi_readByte len rdi ski (s, f) = bi_next (s, f)" by (simp add: bi_readByte_def)
    show ?thesis
    proof (cases "bi_next (s, f)")
      case (Inr r)
      then obtain c where r: "r = (c, s\<lparr>bi_position := bi_position s + 1\<rparr>, f)"
        by (auto simp: bi_next_def bind_r_Inr_iff split: option.splits)
      have "bi_position (s\<lparr>bi_position := bi_position s + 1\<rparr>) + 6 \<le> bi_length (s\<lparr>bi_position := bi_position s + 1\<rparr>) + 1"
        using p by simp
      from readVInt_loop_agrees [OF _ this, of "ucast (c AND 0x7f)" c f len rdi ski] show ?thesis
        using True by (simp add: bi_readVInt_def sf readVInt_def rb Inr r)
    qed (use True in \<open>simp add: bi_readVInt_def sf readVInt_def rb\<close>)
  qed (simp add: bi_readVInt_def sf)
qed


subsection \<open>SimpleFSIndexInput\<close>

text \<open>
  An open file of \<^verbatim>\<open>InputFile\<close>: its bytes, its length when it was opened, the position, and
  whether a read has come up short, after which the \<^verbatim>\<open>ifstream\<close> refuses to seek and to read.
\<close>

record in_file =
  inf_bytes :: "byte list"
  inf_length :: nat
  inf_position :: nat
  inf_bad :: bool

definition newInputFile :: "byte list \<Rightarrow> in_file" where
  "newInputFile D = \<lparr>inf_bytes = D, inf_length = length D, inf_position = 0, inf_bad = False\<rparr>"

definition inf_setPosition :: "nat \<Rightarrow> in_file \<Rightarrow> in_file result" where
  "inf_setPosition p f = (if inf_bad f then Inl IOException else Inr (f\<lparr>inf_position := p\<rparr>))"

text \<open>\<open>None\<close> is \<^verbatim>\<open>FILE_EOF\<close>.\<close>

definition inf_read :: "nat \<Rightarrow> in_file \<Rightarrow> byte list option \<times> in_file" where
  "inf_read n f =
     (if inf_bad f then (None, f)
      else let got = take n (drop (inf_position f) (inf_bytes f))
           in (Some got, f\<lparr>inf_position := inf_position f + length got, inf_bad := length got < n\<rparr>))"

text \<open>The loop of \<^verbatim>\<open>readInternal\<close>; a chunk size of 0 would keep it going for ever.\<close>

partial_function (option) si_read_loop :: "nat \<Rightarrow> nat \<Rightarrow> nat \<Rightarrow> byte list \<Rightarrow> in_file \<Rightarrow> (byte list \<times> in_file) result option" where
  "si_read_loop chunk n tot acc f =
     (if tot < n
      then let readLength = (if int n < trunc32 (int (tot + chunk)) then n - tot else chunk)
           in case inf_read readLength f of
                (None, f) \<Rightarrow> Some (Inl IOException)
              | (Some got, f) \<Rightarrow> si_read_loop chunk n (tot + length got) (acc @ got) f
      else Some (Inr (acc, f)))"

definition si_readInternal :: "nat \<Rightarrow> nat \<Rightarrow> nat \<Rightarrow> in_file \<Rightarrow> (byte list \<times> in_file) result" where
  "si_readInternal chunk position n f =
     bind_r (if position \<noteq> inf_position f then inf_setPosition position f else Inr f) (\<lambda>f.
     case si_read_loop chunk n 0 [] f of None \<Rightarrow> Inl NoReturn | Some r \<Rightarrow> r)"

definition si_seekInternal :: "nat \<Rightarrow> in_file \<Rightarrow> in_file" where
  "si_seekInternal pos f = f"

text \<open>
  The chunk size is positive, and either the largest \<^verbatim>\<open>int32_t\<close>, the default on 64-bit
  systems, or so small that \<^verbatim>\<open>tot + chunkSize\<close> does not overflow.
\<close>

definition si_ok :: "nat \<Rightarrow> in_file \<Rightarrow> bool" where
  "si_ok chunk f \<longleftrightarrow> \<not> inf_bad f \<and> inf_length f = length (inf_bytes f) \<and> 0 < chunk \<and>
     (chunk = 2 ^ 31 - 1 \<or> length (inf_bytes f) + chunk < 2 ^ 31)"

lemma si_read_loop_ok:
  assumes "0 < chunk" "n \<le> chunk \<and> chunk < 2 ^ 31 \<and> tot = 0 \<or> n + chunk < 2 ^ 31"
    "\<not> inf_bad f" "inf_position f + (n - tot) \<le> length (inf_bytes f)" "tot \<le> n"
  shows "\<exists>g. si_read_loop chunk n tot acc f = Some (Inr (acc @ take (n - tot) (drop (inf_position f) (inf_bytes f)), g)) \<and>
    \<not> inf_bad g \<and> inf_bytes g = inf_bytes f \<and> inf_length g = inf_length f"
  using assms(2-)
proof (induction "n - tot" arbitrary: tot acc f rule: less_induct)
  case less
  show ?case
  proof (cases "tot < n")
    case False
    then show ?thesis using less.prems by (subst si_read_loop.simps) simp
  next
    case True
    define m where "m = (if int n < trunc32 (int (tot + chunk)) then n - tot else chunk)"
    have "tot + chunk < 2 ^ 31" using less.prems(1) True by auto
    then have t: "trunc32 (int (tot + chunk)) = int (tot + chunk)" by (intro trunc32_id) simp_all
    have m: "0 < m" "m \<le> n - tot" "m = n - tot \<or> n + chunk < 2 ^ 31"
      using True assms(1) less.prems(1) unfolding m_def t by (auto split: if_splits)
    let ?got = "take m (drop (inf_position f) (inf_bytes f))"
    have len: "length ?got = m" using m(2) less.prems(3) by simp
    let ?g = "f\<lparr>inf_position := inf_position f + m, inf_bad := False\<rparr>"
    have rd: "inf_read m f = (Some ?got, ?g)" using less.prems(2) len by (simp add: inf_read_def Let_def)
    have step: "si_read_loop chunk n tot acc f = si_read_loop chunk n (tot + m) (acc @ ?got) ?g"
      using True by (subst si_read_loop.simps) (simp only: if_True Let_def rd prod.case option.case len flip: m_def)
    have sum: "take m (drop (inf_position f) (inf_bytes f)) @ take (n - (tot + m)) (drop (inf_position f + m) (inf_bytes f)) =
        take (n - tot) (drop (inf_position f) (inf_bytes f))"
    proof -
      have "m + (n - (tot + m)) = n - tot" using m(2) by simp
      then show ?thesis using take_add [of m "n - (tot + m)" "drop (inf_position f) (inf_bytes f)"] by (simp add: add.commute)
    qed
    show ?thesis
    proof (cases "tot + m = n")
      case True
      then have "si_read_loop chunk n (tot + m) (acc @ ?got) ?g = Some (Inr (acc @ ?got, ?g))"
        by (subst si_read_loop.simps) simp
      then show ?thesis using step True by auto
    next
      case False
      have "n - (tot + m) < n - tot" using m True by simp
      moreover have "n \<le> chunk \<and> chunk < 2 ^ 31 \<and> tot + m = 0 \<or> n + chunk < 2 ^ 31" using m(3) m(2) False True by auto
      moreover have "inf_position ?g + (n - (tot + m)) \<le> length (inf_bytes ?g)" "tot + m \<le> n" using less.prems(3) m(2) True by simp_all
      ultimately obtain g where "si_read_loop chunk n (tot + m) (acc @ ?got) ?g =
          Some (Inr ((acc @ ?got) @ take (n - (tot + m)) (drop (inf_position ?g) (inf_bytes ?g)), g))"
        "\<not> inf_bad g" "inf_bytes g = inf_bytes ?g" "inf_length g = inf_length ?g"
        using less.hyps [of "tot + m" ?g "acc @ ?got"] by auto
      then show ?thesis using step sum by simp
    qed
  qed
qed

interpretation fs_in: internal_file inf_length "si_readInternal chunk" si_seekInternal "si_ok chunk" inf_bytes for chunk
proof (unfold_locales, goal_cases)
  case (2 f n p)
  let ?f = "f\<lparr>inf_position := p\<rparr>"
  have c: "0 < chunk" "n \<le> chunk \<and> chunk < 2 ^ 31 \<and> (0 :: nat) = 0 \<or> n + chunk < 2 ^ 31" using 2 by (auto simp: si_ok_def)
  obtain g where "si_read_loop chunk n 0 [] ?f = Some (Inr (take n (drop p (inf_bytes f)), g))"
    "\<not> inf_bad g" "inf_bytes g = inf_bytes f" "inf_length g = inf_length f"
    using si_read_loop_ok [OF c, of ?f "[]"] 2 by (auto simp: si_ok_def)
  moreover have "(if p \<noteq> inf_position f then inf_setPosition p f else Inr f) = Inr ?f"
    using 2 by (auto simp: inf_setPosition_def si_ok_def)
  ultimately show ?case using 2 by (auto simp: si_readInternal_def si_ok_def)
qed (auto simp: si_ok_def si_seekInternal_def)


subsection \<open>Streams that share a file\<close>

text \<open>What a caller does with a stream; \<open>RClone\<close> replaces it by its clone.\<close>

datatype read_op = RByte | RBytes bool nat | RSeek nat | RResize nat | RClone

fun bi_exec :: "nat \<Rightarrow> read_op \<Rightarrow> buf_in \<times> in_file \<Rightarrow> (byte list \<times> (buf_in \<times> in_file)) result" where
  "bi_exec chunk RByte sf = bind_r (bi_readByte inf_length (si_readInternal chunk) si_seekInternal sf) (\<lambda>(b, sf). Inr ([b], sf))"
| "bi_exec chunk (RBytes useBuffer n) sf = bi_readBytes inf_length (si_readInternal chunk) si_seekInternal useBuffer n sf"
| "bi_exec chunk (RSeek pos) sf = Inr ([], bi_seek si_seekInternal pos sf)"
| "bi_exec chunk (RResize n) (s, f) = bind_r (bi_setBufferSize n s) (\<lambda>s. Inr ([], s, f))"
| "bi_exec chunk RClone (s, f) = Inr ([], bi_clone s, f)"

text \<open>The same on the plain bytes and a position.\<close>

fun ref_exec :: "byte list \<Rightarrow> read_op \<Rightarrow> nat \<Rightarrow> (byte list \<times> nat) result" where
  "ref_exec D RByte p = (if p < length D then Inr ([D ! p], p + 1) else Inl IOException)"
| "ref_exec D (RBytes useBuffer n) p = (if n \<le> length D - p then Inr (take n (drop p D), p + n) else Inl IOException)"
| "ref_exec D (RSeek pos) p = Inr ([], pos)"
| "ref_exec D (RResize n) p = Inr ([], p)"
| "ref_exec D RClone p = Inr ([], p)"

fun op_ok :: "byte list \<Rightarrow> read_op \<Rightarrow> bool" where
  "op_ok D (RBytes useBuffer n) = (n < 2 ^ 31)"
| "op_ok D (RSeek pos) = (pos \<le> length D + 2 ^ 31)"
| "op_ok D (RResize n) = (0 < n \<and> n < 2 ^ 31)"
| "op_ok D _ = True"

text \<open>Two streams on one file, the operations on the first marked \<open>True\<close>.\<close>

fun run_shared :: "nat \<Rightarrow> (bool \<times> read_op) list \<Rightarrow> buf_in \<Rightarrow> buf_in \<Rightarrow> in_file \<Rightarrow> byte list result list" where
  "run_shared chunk [] s1 s2 f = []"
| "run_shared chunk ((True, x) # xs) s1 s2 f =
     (case bi_exec chunk x (s1, f) of Inl e \<Rightarrow> [Inl e] | Inr (bs, s1, f) \<Rightarrow> Inr bs # run_shared chunk xs s1 s2 f)"
| "run_shared chunk ((False, x) # xs) s1 s2 f =
     (case bi_exec chunk x (s2, f) of Inl e \<Rightarrow> [Inl e] | Inr (bs, s2, f) \<Rightarrow> Inr bs # run_shared chunk xs s1 s2 f)"

fun run_ref :: "byte list \<Rightarrow> (bool \<times> read_op) list \<Rightarrow> nat \<Rightarrow> nat \<Rightarrow> byte list result list" where
  "run_ref D [] p1 p2 = []"
| "run_ref D ((True, x) # xs) p1 p2 =
     (case ref_exec D x p1 of Inl e \<Rightarrow> [Inl e] | Inr (bs, p1) \<Rightarrow> Inr bs # run_ref D xs p1 p2)"
| "run_ref D ((False, x) # xs) p1 p2 =
     (case ref_exec D x p2 of Inl e \<Rightarrow> [Inl e] | Inr (bs, p2) \<Rightarrow> Inr bs # run_ref D xs p1 p2)"

definition stream_at :: "nat \<Rightarrow> byte list \<Rightarrow> nat \<Rightarrow> buf_in \<times> in_file \<Rightarrow> bool" where
  "stream_at chunk D p sf \<longleftrightarrow> si_ok chunk (snd sf) \<and> inf_bytes (snd sf) = D \<and> bi_ok D (fst sf) \<and> bi_rest D (fst sf) = drop p D"

lemma stream_at_inv:
  "stream_at chunk D p sf \<longleftrightarrow> fs_in.inv chunk sf \<and> inf_bytes (snd sf) = D \<and> fs_in.left sf = drop p D"
  by (auto simp: stream_at_def fs_in.inv_def fs_in.left_def)

lemma exec_agrees:
  assumes s: "stream_at chunk D p (s, f)" and x: "op_ok D x"
  shows "case ref_exec D x p of Inl e \<Rightarrow> bi_exec chunk x (s, f) = Inl e
    | Inr (bs, p') \<Rightarrow> \<exists>t g. bi_exec chunk x (s, f) = Inr (bs, t, g) \<and> stream_at chunk D p' (t, g)"
proof -
  have i: "fs_in.inv chunk (s, f)" "inf_bytes f = D" "fs_in.left (s, f) = drop p D" using s by (simp_all add: stream_at_inv)
  show ?thesis
  proof (cases x)
    case RByte
    show ?thesis
    proof (cases "p < length D")
      case True
      then have "fs_in.left (s, f) = D ! p # drop (p + 1) D" using i(3) by (simp add: Cons_nth_drop_Suc)
      from fs_in.readByte_some [OF i(1) this] show ?thesis using True RByte i(2) by (fastforce simp: stream_at_inv)
    next
      case False
      then show ?thesis using fs_in.readByte_eof [OF i(1)] i(3) RByte by simp
    qed
  next
    case (RBytes u n)
    show ?thesis
    proof (cases "n \<le> length D - p")
      case True
      then show ?thesis using fs_in.readBytes_ok [OF i(1), of n u] x RBytes i by (fastforce simp: stream_at_inv add.commute)
    next
      case False
      then show ?thesis using fs_in.readBytes_eof [OF i(1), of n u] x RBytes i by simp
    qed
  next
    case (RSeek pos)
    then show ?thesis using fs_in.seek_ok [OF i(1), of pos] x i(2) by (auto simp: stream_at_inv)
  next
    case (RResize n)
    have "bi_ok D s" "bi_rest D s = drop p D" using s by (simp_all add: stream_at_def)
    then show ?thesis using setBufferSize_ok [of D s n] x RResize s by (auto simp: stream_at_def)
  next
    case RClone
    then show ?thesis using bi_clone_ok s by (auto simp: stream_at_def)
  qed
qed

lemma run_shared_ref:
  "stream_at chunk D p1 (s1, f) \<Longrightarrow> stream_at chunk D p2 (s2, f) \<Longrightarrow> \<forall>(w, x)\<in>set xs. op_ok D x \<Longrightarrow>
     run_shared chunk xs s1 s2 f = run_ref D xs p1 p2"
proof (induction chunk xs s1 s2 f arbitrary: p1 p2 rule: run_shared.induct)
  case (2 chunk x xs s1 s2 f)
  have x: "op_ok D x" "\<forall>(w, x)\<in>set xs. op_ok D x" using 2(4) by auto
  show ?case
  proof (cases "ref_exec D x p1")
    case (Inr r)
    obtain bs p' where r: "r = (bs, p')" by (cases r)
    obtain t g where t: "bi_exec chunk x (s1, f) = Inr (bs, t, g)" "stream_at chunk D p' (t, g)"
      using exec_agrees [OF 2(2) x(1)] Inr r by auto
    have "stream_at chunk D p2 (s2, g)" using 2(3) t(2) by (simp add: stream_at_def)
    from 2(1) [OF t(1) refl refl t(2) this x(2)] show ?thesis using t(1) Inr r by simp
  qed (use exec_agrees [OF 2(2) x(1)] in simp)
next
  case (3 chunk x xs s1 s2 f)
  have x: "op_ok D x" "\<forall>(w, x)\<in>set xs. op_ok D x" using 3(4) by auto
  show ?case
  proof (cases "ref_exec D x p2")
    case (Inr r)
    obtain bs p' where r: "r = (bs, p')" by (cases r)
    obtain t g where t: "bi_exec chunk x (s2, f) = Inr (bs, t, g)" "stream_at chunk D p' (t, g)"
      using exec_agrees [OF 3(3) x(1)] Inr r by auto
    have "stream_at chunk D p1 (s1, g)" using 3(2) t(2) by (simp add: stream_at_def)
    from 3(1) [OF t(1) refl refl this t(2) x(2)] show ?thesis using t(1) Inr r by simp
  qed (use exec_agrees [OF 3(3) x(1)] in simp)
qed simp

lemma opened_at:
  assumes "0 < chunk" "chunk = 2 ^ 31 - 1 \<or> length D + chunk < 2 ^ 31" "0 < n" "n < 2 ^ 31"
  shows "stream_at chunk D 0 (newBufferedIndexInput n, newInputFile D)"
  using assms new_bi_ok [of n D] by (simp add: stream_at_def si_ok_def newInputFile_def)

text \<open>
  C9. Two streams on one open file, a stream and its clone, used in any interleaving of byte and
  bulk reads, seeks, changes of the buffer size and further clonings: every operation returns
  what the plain bytes of the file give at that stream's own position, and throws exactly at the end
  of the file. Neither buffering nor sharing the file position shows.
\<close>

theorem shared_streams_refine:
  assumes "0 < chunk" "chunk = 2 ^ 31 - 1 \<or> length D + chunk < 2 ^ 31" "0 < n" "n < 2 ^ 31" "\<forall>(w, x)\<in>set xs. op_ok D x"
  shows "run_shared chunk xs (newBufferedIndexInput n) (bi_clone (newBufferedIndexInput n)) (newInputFile D) = run_ref D xs 0 0"
proof -
  have s: "stream_at chunk D 0 (newBufferedIndexInput n, newInputFile D)" by (rule opened_at [OF assms(1-4)])
  then have "stream_at chunk D 0 (bi_clone (newBufferedIndexInput n), newInputFile D)" using bi_clone_ok by (simp add: stream_at_def)
  from run_shared_ref [OF s this assms(5)] show ?thesis .
qed

theorem shared_streams_refine_witness:
  "run_shared (2 ^ 31 - 1) [(True, RByte), (False, RBytes True 2), (True, RSeek 3), (True, RByte), (False, RByte), (True, RByte)]
     (newBufferedIndexInput 2) (bi_clone (newBufferedIndexInput 2)) (newInputFile [10, 11, 12, 13]) =
   [Inr [10], Inr [10, 11], Inr [], Inr [13], Inr [12], Inl IOException]"
  by (subst shared_streams_refine) simp_all

text \<open>
  No check keeps the buffer size positive: \<^verbatim>\<open>checkBufferSize\<close> is never called. With buffer
  size 0 every \<^verbatim>\<open>readByte\<close> reports the end of the file, however many bytes the file has.
\<close>

lemma zero_buffer_reads_nothing:
  "bi_readByte inf_length (si_readInternal chunk) si_seekInternal (newBufferedIndexInput 0, newInputFile D) = Inl IOException"
  by (simp add: bi_readByte_def newBufferedIndexInput_def bi_refill_def newInputFile_def Let_def)

end
