(* ===== verification/BufferedOutput.thy ===== *)
theory BufferedOutput imports ByteCodec begin

text \<open>
  Buffered output: \<^verbatim>\<open>store/BufferedIndexOutput.cpp\<close> over the virtual \<^verbatim>\<open>flushBuffer\<close>
  of its subclass, and the subclass on files, \<^verbatim>\<open>SimpleFSIndexOutput\<close> with its
  \<^verbatim>\<open>OutputFile\<close> (\<^verbatim>\<open>store/SimpleFSDirectory.cpp\<close>). The state is a pair of the
  fields of the stream and the state of the subclass. \<^verbatim>\<open>setLength\<close>, which resizes the file
  through boost, is left out.
\<close>

definition BO_BUFFER_SIZE :: nat where
  "BO_BUFFER_SIZE = 16384"

record buf_out =
  bo_buffer :: "byte list"
  bo_start :: nat
  bo_position :: nat

definition newBufferedIndexOutput :: buf_out where
  "newBufferedIndexOutput = \<lparr>bo_buffer = replicate BO_BUFFER_SIZE 0, bo_start = 0, bo_position = 0\<rparr>"

definition bo_flush :: "(byte list \<Rightarrow> 'f \<Rightarrow> 'f result) \<Rightarrow> buf_out \<times> 'f \<Rightarrow> (buf_out \<times> 'f) result" where
  "bo_flush fb = (\<lambda>(s, f).
     bind_r (fb (take (bo_position s) (bo_buffer s)) f) (\<lambda>f.
       Inr (s\<lparr>bo_start := bo_start s + bo_position s, bo_position := 0\<rparr>, f)))"

definition bo_writeByte :: "(byte list \<Rightarrow> 'f \<Rightarrow> 'f result) \<Rightarrow> (buf_out \<times> 'f) writer" where
  "bo_writeByte fb b = (\<lambda>(s, f).
     bind_r (if BO_BUFFER_SIZE \<le> bo_position s then bo_flush fb (s, f) else Inr (s, f)) (\<lambda>(s, f).
     bind_r (arr_set (bo_buffer s) (bo_position s) b) (\<lambda>buf.
       Inr (s\<lparr>bo_buffer := buf, bo_position := bo_position s + 1\<rparr>, f))))"

text \<open>The loop over the bytes that are left; after each round \<^verbatim>\<open>bytesLeft\<close> is positive.\<close>

definition bo_copy :: "byte list \<Rightarrow> nat \<Rightarrow> buf_out \<Rightarrow> buf_out" where
  "bo_copy bs n s = s\<lparr>bo_buffer := arrayCopy bs 0 (bo_buffer s) (bo_position s) n, bo_position := bo_position s + n\<rparr>"

function bo_pieces :: "(byte list \<Rightarrow> 'f \<Rightarrow> 'f result) \<Rightarrow> byte list \<Rightarrow> nat \<Rightarrow> buf_out \<times> 'f \<Rightarrow> (buf_out \<times> 'f) result" where
  "bo_pieces fb bs bytesLeft (s, f) =
     (if bs \<noteq> []
      then let pieceLength = (if length bs < bytesLeft then length bs else bytesLeft);
               s = bo_copy bs pieceLength s
           in if BO_BUFFER_SIZE - bo_position s = 0
              then bind_r (bo_flush fb (s, f)) (bo_pieces fb (drop pieceLength bs) BO_BUFFER_SIZE)
              else bo_pieces fb (drop pieceLength bs) (BO_BUFFER_SIZE - bo_position s) (s, f)
      else Inr (s, f))"
  by pat_completeness auto
termination
  by (relation "measure (\<lambda>(fb, bs, bytesLeft, sf). 2 * length bs + (if bytesLeft = 0 then 1 else 0))")
    (auto simp: BO_BUFFER_SIZE_def split: if_splits)

declare bo_pieces.simps [simp del]

definition bo_writeBytes :: "(byte list \<Rightarrow> 'f \<Rightarrow> 'f result) \<Rightarrow> byte list \<Rightarrow> buf_out \<times> 'f \<Rightarrow> (buf_out \<times> 'f) result" where
  "bo_writeBytes fb bs = (\<lambda>(s, f).
     let bytesLeft = BO_BUFFER_SIZE - bo_position s
     in if length bs \<le> bytesLeft
        then let s = bo_copy bs (length bs) s
             in if BO_BUFFER_SIZE - bo_position s = 0 then bo_flush fb (s, f) else Inr (s, f)
        else if BO_BUFFER_SIZE < length bs
        then bind_r (if 0 < bo_position s then bo_flush fb (s, f) else Inr (s, f)) (\<lambda>(s, f).
             bind_r (fb bs f) (\<lambda>f. Inr (s\<lparr>bo_start := bo_start s + length bs\<rparr>, f)))
        else bo_pieces fb bs bytesLeft (s, f))"

definition bo_getFilePointer :: "buf_out \<Rightarrow> nat" where
  "bo_getFilePointer s = bo_start s + bo_position s"

definition bo_seek :: "(byte list \<Rightarrow> 'f \<Rightarrow> 'f result) \<Rightarrow> nat \<Rightarrow> buf_out \<times> 'f \<Rightarrow> (buf_out \<times> 'f) result" where
  "bo_seek fb pos sf = bind_r (bo_flush fb sf) (\<lambda>(s, f). Inr (s\<lparr>bo_start := pos\<rparr>, f))"

subsection \<open>What the subclass promises\<close>

text \<open>Bytes laid over a file from a position on; a gap is filled with zeros.\<close>

definition overwrite :: "nat \<Rightarrow> byte list \<Rightarrow> byte list \<Rightarrow> byte list" where
  "overwrite p bs D = (if bs = [] then D else take p D @ replicate (p - length D) 0 @ bs @ drop (p + length bs) D)"

lemma overwrite_Nil [simp]: "overwrite p [] D = D"
  by (simp add: overwrite_def)

lemma length_overwrite: "length (overwrite p bs D) = (if bs = [] then length D else max (length D) (p + length bs))"
  by (auto simp: overwrite_def min_def max_def)

lemma overwrite_end: "overwrite (length D) bs D = D @ bs"
  by (simp add: overwrite_def)

lemma overwrite_append: "overwrite (p + length a) b (overwrite p a D) = overwrite p (a @ b) D"
proof (cases "a = [] \<or> b = []")
  case False
  then have l: "length (overwrite p a D) - (p + length a) = length D - (p + length a)" "p + length a \<le> length (overwrite p a D)"
    by (simp_all add: length_overwrite)
  let ?X = "take p D @ replicate (p - length D) 0"
  have X: "length ?X = p" by simp
  have o: "overwrite p a D = ?X @ a @ drop (p + length a) D" using False by (simp add: overwrite_def)
  have "take (p + length a) (overwrite p a D) = take p D @ replicate (p - length D) 0 @ a"
    unfolding o take_append X by simp
  moreover have "drop (p + length a + length b) (overwrite p a D) = drop (p + (length a + length b)) D"
    unfolding o drop_append X by (simp add: add.commute add.left_commute)
  ultimately show ?thesis using False l by (simp add: overwrite_def [of "p + length a"] overwrite_def [of p "a @ b"])
qed (auto simp: overwrite_def)

locale internal_sink =
  fixes fb :: "byte list \<Rightarrow> 'f \<Rightarrow> 'f result" and fok :: "'f \<Rightarrow> bool" and bytes :: "'f \<Rightarrow> byte list" and pos :: "'f \<Rightarrow> nat"
  assumes fb_writes: "fok f \<Longrightarrow> \<exists>g. fb bs f = Inr g \<and> fok g \<and> bytes g = overwrite (pos f) bs (bytes f) \<and> pos g = pos f + length bs"

definition bo_ok :: "nat \<Rightarrow> buf_out \<Rightarrow> bool" where
  "bo_ok p s \<longleftrightarrow> length (bo_buffer s) = BO_BUFFER_SIZE \<and> bo_position s \<le> BO_BUFFER_SIZE \<and> bo_start s = p"

definition bo_pending :: "buf_out \<Rightarrow> byte list" where
  "bo_pending s = take (bo_position s) (bo_buffer s)"

lemma bo_copy_ok:
  assumes "bo_ok p s" "bo_position s + n \<le> BO_BUFFER_SIZE" "n \<le> length bs"
  shows "bo_ok p (bo_copy bs n s)" "bo_pending (bo_copy bs n s) = bo_pending s @ take n bs"
    "bo_position (bo_copy bs n s) = bo_position s + n" "bo_start (bo_copy bs n s) = bo_start s"
  using assms by (simp_all add: bo_ok_def bo_copy_def bo_pending_def arrayCopy_blocks)

lemma arrayCopy_one: "p < length buf \<Longrightarrow> arrayCopy [b] 0 buf p 1 = buf[p := b]"
  by (rule nth_equalityI) (auto simp: nth_list_update)

lemma bo_pieces_Nil [simp]: "bo_pieces fb [] n sf = Inr sf"
  by (cases sf) (simp add: bo_pieces.simps)

lemma length_pending: "bo_ok p s \<Longrightarrow> length (bo_pending s) = bo_position s"
  by (simp add: bo_ok_def bo_pending_def)

context internal_sink begin

definition inv :: "buf_out \<times> 'f \<Rightarrow> bool" where
  "inv sf \<longleftrightarrow> fok (snd sf) \<and> bo_ok (pos (snd sf)) (fst sf)"

text \<open>What the file will hold once the buffer is flushed.\<close>

definition view :: "buf_out \<times> 'f \<Rightarrow> byte list" where
  "view sf = overwrite (pos (snd sf)) (bo_pending (fst sf)) (bytes (snd sf))"

definition puts_at :: "(buf_out \<times> 'f \<Rightarrow> (buf_out \<times> 'f) result) \<Rightarrow> byte list \<Rightarrow> buf_out \<times> 'f \<Rightarrow> bool" where
  "puts_at g bs sf \<longleftrightarrow> (\<exists>sf'. g sf = Inr sf' \<and> inv sf' \<and> view sf' = overwrite (bo_getFilePointer (fst sf)) bs (view sf) \<and>
     bo_getFilePointer (fst sf') = bo_getFilePointer (fst sf) + length bs)"

lemma flush_ok:
  assumes "inv (s, f)"
  shows "\<exists>t g. bo_flush fb (s, f) = Inr (t, g) \<and> inv (t, g) \<and> bytes g = view (s, f) \<and> view (t, g) = view (s, f) \<and>
    bo_getFilePointer t = bo_getFilePointer s \<and> bo_position t = 0 \<and> pos g = bo_getFilePointer s"
proof -
  have ok: "fok f" "bo_ok (pos f) s" using assms by (simp_all add: inv_def)
  obtain g where g: "fb (bo_pending s) f = Inr g" "fok g" "bytes g = overwrite (pos f) (bo_pending s) (bytes f)"
    "pos g = pos f + length (bo_pending s)" using fb_writes [OF ok(1)] by blast
  let ?t = "s\<lparr>bo_start := bo_start s + bo_position s, bo_position := 0\<rparr>"
  have "bo_flush fb (s, f) = Inr (?t, g)" using g(1) by (simp add: bo_flush_def bo_pending_def)
  then show ?thesis using g ok length_pending [OF ok(2)]
    by (auto simp: inv_def view_def bo_pending_def bo_getFilePointer_def bo_ok_def)
qed

lemma copy_ok:
  assumes "inv (s, f)" "bo_position s + n \<le> BO_BUFFER_SIZE" "n \<le> length bs"
  shows "inv (bo_copy bs n s, f)" "view (bo_copy bs n s, f) = overwrite (bo_getFilePointer s) (take n bs) (view (s, f))"
    "bo_getFilePointer (bo_copy bs n s) = bo_getFilePointer s + n"
proof -
  have ok: "bo_ok (pos f) s" using assms(1) by (simp add: inv_def)
  note c = bo_copy_ok [OF ok assms(2,3)]
  show "inv (bo_copy bs n s, f)" using assms(1) c by (simp add: inv_def)
  show "bo_getFilePointer (bo_copy bs n s) = bo_getFilePointer s + n" using c by (simp add: bo_getFilePointer_def)
  have "bo_getFilePointer s = pos f + length (bo_pending s)" using length_pending [OF ok] ok by (simp add: bo_getFilePointer_def bo_ok_def)
  then show "view (bo_copy bs n s, f) = overwrite (bo_getFilePointer s) (take n bs) (view (s, f))"
    using c by (simp add: view_def overwrite_append)
qed

lemma copy_flush_ok:
  assumes "inv (s, f)" "bo_position s + n \<le> BO_BUFFER_SIZE" "n \<le> length bs"
  shows "\<exists>t g. (if BO_BUFFER_SIZE - bo_position (bo_copy bs n s) = 0 then bo_flush fb (bo_copy bs n s, f) else Inr (bo_copy bs n s, f)) = Inr (t, g) \<and>
    inv (t, g) \<and> view (t, g) = overwrite (bo_getFilePointer s) (take n bs) (view (s, f)) \<and>
    bo_getFilePointer t = bo_getFilePointer s + n \<and> bo_position t < BO_BUFFER_SIZE \<and>
    (BO_BUFFER_SIZE - bo_position (bo_copy bs n s) = 0 \<longrightarrow> bo_position t = 0)"
proof (cases "BO_BUFFER_SIZE - bo_position (bo_copy bs n s) = 0")
  case True
  then show ?thesis using flush_ok [OF copy_ok(1) [OF assms]] copy_ok [OF assms] by (fastforce simp: BO_BUFFER_SIZE_def)
qed (use copy_ok [OF assms] in auto)

lemma writeByte_ok:
  assumes "inv sf"
  shows "puts_at (bo_writeByte fb b) [b] sf"
proof -
  obtain s f where sf: "sf = (s, f)" by (cases sf)
  obtain t g where t: "(if BO_BUFFER_SIZE \<le> bo_position s then bo_flush fb (s, f) else Inr (s, f)) = Inr (t, g)" "inv (t, g)"
    "view (t, g) = view (s, f)" "bo_getFilePointer t = bo_getFilePointer s" "bo_position t < BO_BUFFER_SIZE"
  proof (cases "BO_BUFFER_SIZE \<le> bo_position s")
    case True
    then show ?thesis using that flush_ok [of s f] assms sf by (force simp: BO_BUFFER_SIZE_def)
  qed (use that assms sf in auto)
  have len: "length (bo_buffer t) = BO_BUFFER_SIZE" using t(2) by (simp add: inv_def bo_ok_def)
  have a: "arrayCopy [b] 0 (bo_buffer t) (bo_position t) 1 = (bo_buffer t)[bo_position t := b]"
    by (rule arrayCopy_one) (use len t(5) in simp)
  have c: "bo_copy [b] 1 t = t\<lparr>bo_buffer := (bo_buffer t)[bo_position t := b], bo_position := bo_position t + 1\<rparr>"
    unfolding bo_copy_def a by (rule refl)
  have "bo_writeByte fb b (s, f) = Inr (bo_copy [b] 1 t, g)"
    using t(1,5) len by (simp add: bo_writeByte_def arr_set_def c [unfolded One_nat_def])
  then show ?thesis using copy_ok [OF t(2), of 1 "[b]"] t sf by (simp add: puts_at_def)
qed

lemma pieces_ok:
  "inv sf \<Longrightarrow> puts_at (bo_pieces fb bs (BO_BUFFER_SIZE - bo_position (fst sf))) bs sf"
proof (induction "2 * length bs + (if BO_BUFFER_SIZE \<le> bo_position (fst sf) then 1 else 0)" arbitrary: bs sf rule: less_induct)
  case less
  obtain s f where sf: "sf = (s, f)" by (cases sf)
  show ?case
  proof (cases "bs = []")
    case True
    then show ?thesis using less.prems by (simp add: puts_at_def)
  next
    case False
    define n where "n = (if length bs < BO_BUFFER_SIZE - bo_position s then length bs else BO_BUFFER_SIZE - bo_position s)"
    have ps: "bo_position s \<le> BO_BUFFER_SIZE" using less.prems sf by (simp add: inv_def bo_ok_def)
    have n: "bo_position s + n \<le> BO_BUFFER_SIZE" "n \<le> length bs" using ps by (auto simp: n_def)
    let ?c = "bo_copy bs n s"
    obtain t g where t: "(if BO_BUFFER_SIZE - bo_position ?c = 0 then bo_flush fb (?c, f) else Inr (?c, f)) = Inr (t, g)"
      "inv (t, g)" "view (t, g) = overwrite (bo_getFilePointer s) (take n bs) (view (s, f))"
      "bo_getFilePointer t = bo_getFilePointer s + n" "bo_position t < BO_BUFFER_SIZE"
      "BO_BUFFER_SIZE - bo_position ?c = 0 \<longrightarrow> bo_position t = 0"
      using copy_flush_ok [of s f n bs] less.prems sf n by auto
    have step: "bo_pieces fb bs (BO_BUFFER_SIZE - bo_position s) (s, f) =
        bo_pieces fb (drop n bs) (BO_BUFFER_SIZE - bo_position t) (t, g)"
    proof (cases "BO_BUFFER_SIZE - bo_position ?c = 0")
      case True
      then have "bo_flush fb (?c, f) = Inr (t, g)" "BO_BUFFER_SIZE - bo_position t = BO_BUFFER_SIZE" using t(1,6) by simp_all
      then show ?thesis using True False by (subst bo_pieces.simps) (simp add: Let_def flip: n_def)
    next
      case no: False
      then have "t = ?c" "g = f" using t(1) by simp_all
      then show ?thesis using no False by (subst bo_pieces.simps) (simp add: Let_def flip: n_def)
    qed
    have "2 * length (drop n bs) + (if BO_BUFFER_SIZE \<le> bo_position (fst (t, g)) then 1 else 0) <
        2 * length bs + (if BO_BUFFER_SIZE \<le> bo_position (fst sf) then 1 else 0)"
      using False t(5) sf by (cases "n = 0") (auto simp: n_def split: if_splits)
    from less.hyps [OF this t(2)] obtain sf' where u: "bo_pieces fb (drop n bs) (BO_BUFFER_SIZE - bo_position t) (t, g) = Inr sf'"
      "inv sf'" "view sf' = overwrite (bo_getFilePointer t) (drop n bs) (view (t, g))"
      "bo_getFilePointer (fst sf') = bo_getFilePointer t + length (drop n bs)" by (auto simp: puts_at_def)
    have "view sf' = overwrite (bo_getFilePointer s) bs (view (s, f))"
      using overwrite_append [of "bo_getFilePointer s" "take n bs" "drop n bs" "view (s, f)"] u(3) t(3,4) n(2) by (simp add: min_absorb2)
    then show ?thesis using u step t(4) n(2) sf by (simp add: puts_at_def)
  qed
qed

lemma writeBytes_ok:
  assumes "inv sf"
  shows "puts_at (bo_writeBytes fb bs) bs sf"
proof -
  obtain s f where sf: "sf = (s, f)" by (cases sf)
  have ps: "bo_position s \<le> BO_BUFFER_SIZE" using assms sf by (simp add: inv_def bo_ok_def)
  consider "length bs \<le> BO_BUFFER_SIZE - bo_position s" | "BO_BUFFER_SIZE - bo_position s < length bs" "BO_BUFFER_SIZE < length bs"
    | "BO_BUFFER_SIZE - bo_position s < length bs" "length bs \<le> BO_BUFFER_SIZE" by linarith
  then show ?thesis
  proof cases
    case 1
    then have "bo_position s + length bs \<le> BO_BUFFER_SIZE" using ps by simp
    from copy_flush_ok [OF assms [unfolded sf] this order_refl] show ?thesis
      using 1 sf unfolding puts_at_def bo_writeBytes_def Let_def by auto
  next
    case 2
    obtain t g where t: "(if 0 < bo_position s then bo_flush fb (s, f) else Inr (s, f)) = Inr (t, g)" "inv (t, g)"
      "view (t, g) = view (s, f)" "bo_getFilePointer t = bo_getFilePointer s" "bo_position t = 0"
    proof (cases "0 < bo_position s")
      case True
      then show ?thesis using that flush_ok [of s f] assms sf by force
    qed (use that assms sf in auto)
    have ok: "fok g" "bo_ok (pos g) t" using t(2) by (simp_all add: inv_def)
    obtain h where h: "fb bs g = Inr h" "fok h" "bytes h = overwrite (pos g) bs (bytes g)" "pos h = pos g + length bs"
      using fb_writes [OF ok(1)] by blast
    let ?u = "t\<lparr>bo_start := bo_start t + length bs\<rparr>"
    have "bo_writeBytes fb bs (s, f) = Inr (?u, h)" using 2 t(1) h(1) by (simp add: bo_writeBytes_def)
    moreover have "inv (?u, h)" using ok h by (simp add: inv_def bo_ok_def)
    moreover have "bo_getFilePointer s = pos g" using t(4,5) ok(2) by (simp add: bo_getFilePointer_def bo_ok_def)
    then have "view (?u, h) = overwrite (bo_getFilePointer s) bs (view (s, f))"
      using t(3,5) h(3) by (simp add: view_def bo_pending_def)
    ultimately show ?thesis using t(4) sf by (simp add: puts_at_def bo_getFilePointer_def)
  next
    case 3
    then show ?thesis using pieces_ok [OF assms, of bs] sf by (simp add: puts_at_def bo_writeBytes_def)
  qed
qed

end

text \<open>At the end of the file the stream is a byte sink.\<close>

context internal_sink begin

definition appending :: "buf_out \<times> 'f \<Rightarrow> bool" where
  "appending sf \<longleftrightarrow> inv sf \<and> bo_getFilePointer (fst sf) = length (view sf)"

end

sublocale internal_sink \<subseteq> stream: byte_sink "bo_writeByte fb" appending view
proof
  fix s b assume "appending s"
  then have a: "inv s" "bo_getFilePointer (fst s) = length (view s)" by (simp_all add: appending_def)
  from writeByte_ok [OF a(1), of b] a(2) show "\<exists>s'. bo_writeByte fb b s = Inr s' \<and> appending s' \<and> view s' = view s @ [b]"
    by (auto simp: puts_at_def appending_def overwrite_end)
qed


subsection \<open>SimpleFSIndexOutput\<close>

text \<open>
  The open file: its bytes, the position, and the state of the \<^verbatim>\<open>ofstream\<close>, which does
  nothing once it has failed. \<open>None\<close> is the file after \<^verbatim>\<open>close\<close>, a null pointer.
\<close>

record out_file =
  of_bytes :: "byte list"
  of_position :: nat
  of_good :: bool

definition newOutputFile :: out_file where
  "newOutputFile = \<lparr>of_bytes = [], of_position = 0, of_good = True\<rparr>"

definition of_write :: "byte list \<Rightarrow> out_file \<Rightarrow> bool \<times> out_file" where
  "of_write bs f =
     (if of_good f then (True, f\<lparr>of_bytes := overwrite (of_position f) bs (of_bytes f), of_position := of_position f + length bs\<rparr>)
      else (False, f))"

definition of_setPosition :: "nat \<Rightarrow> out_file \<Rightarrow> out_file result" where
  "of_setPosition p f = (if of_good f then Inr (f\<lparr>of_position := p\<rparr>) else Inl IOException)"

definition so_flushBuffer :: "byte list \<Rightarrow> out_file option \<Rightarrow> out_file option result" where
  "so_flushBuffer bs file = (case file of None \<Rightarrow> Inl OutOfRange | Some f \<Rightarrow> let (ok, f) = of_write bs f in Inr (Some f))"

type_synonym fs_out = "(buf_out \<times> out_file option) \<times> bool"

definition newSimpleFSIndexOutput :: fs_out where
  "newSimpleFSIndexOutput = ((newBufferedIndexOutput, Some newOutputFile), True)"

definition so_writeByte :: "byte \<Rightarrow> fs_out \<Rightarrow> fs_out result" where
  "so_writeByte b = (\<lambda>(sf, isOpen). bind_r (bo_writeByte so_flushBuffer b sf) (\<lambda>sf. Inr (sf, isOpen)))"

definition so_writeBytes :: "byte list \<Rightarrow> fs_out \<Rightarrow> fs_out result" where
  "so_writeBytes bs = (\<lambda>(sf, isOpen). bind_r (bo_writeBytes so_flushBuffer bs sf) (\<lambda>sf. Inr (sf, isOpen)))"

definition so_flush :: "fs_out \<Rightarrow> fs_out result" where
  "so_flush = (\<lambda>(sf, isOpen). bind_r (bo_flush so_flushBuffer sf) (\<lambda>sf. Inr (sf, isOpen)))"

definition so_close :: "fs_out \<Rightarrow> fs_out result" where
  "so_close = (\<lambda>(sf, isOpen).
     if isOpen then bind_r (bo_flush so_flushBuffer sf) (\<lambda>(s, f). Inr ((s, None), False)) else Inr (sf, isOpen))"

definition so_seek :: "nat \<Rightarrow> fs_out \<Rightarrow> fs_out result" where
  "so_seek pos = (\<lambda>(sf, isOpen).
     bind_r (bo_seek so_flushBuffer pos sf) (\<lambda>(s, file).
     case file of None \<Rightarrow> Inl OutOfRange
     | Some f \<Rightarrow> bind_r (of_setPosition pos f) (\<lambda>f. Inr ((s, Some f), isOpen))))"

text \<open>\<^verbatim>\<open>length()\<close>: the length on disk, which does not count the buffer.\<close>

definition so_length :: "fs_out \<Rightarrow> nat result" where
  "so_length = (\<lambda>((s, file), isOpen). case file of None \<Rightarrow> Inl OutOfRange | Some f \<Rightarrow> Inr (length (of_bytes f)))"

definition of_ok :: "out_file option \<Rightarrow> bool" where
  "of_ok file \<longleftrightarrow> (\<exists>f. file = Some f \<and> of_good f)"

interpretation fs_out: internal_sink so_flushBuffer of_ok "\<lambda>file. of_bytes (the file)" "\<lambda>file. of_position (the file)"
  by unfold_locales (auto simp: of_ok_def so_flushBuffer_def of_write_def)

text \<open>What a caller does with an open output, and the same on the plain bytes and a position.\<close>

datatype write_op = WByte byte | WBytes "byte list" | WSeek nat | WFlush

fun so_exec :: "write_op \<Rightarrow> fs_out \<Rightarrow> fs_out result" where
  "so_exec (WByte b) s = so_writeByte b s"
| "so_exec (WBytes bs) s = so_writeBytes bs s"
| "so_exec (WSeek p) s = so_seek p s"
| "so_exec WFlush s = so_flush s"

fun so_run :: "write_op list \<Rightarrow> fs_out \<Rightarrow> fs_out result" where
  "so_run [] s = Inr s"
| "so_run (x # xs) s = bind_r (so_exec x s) (so_run xs)"

fun ref_write :: "write_op list \<Rightarrow> byte list \<times> nat \<Rightarrow> byte list \<times> nat" where
  "ref_write [] Dp = Dp"
| "ref_write (WByte b # xs) (D, p) = ref_write xs (overwrite p [b] D, p + 1)"
| "ref_write (WBytes bs # xs) (D, p) = ref_write xs (overwrite p bs D, p + length bs)"
| "ref_write (WSeek q # xs) (D, p) = ref_write xs (D, q)"
| "ref_write (WFlush # xs) (D, p) = ref_write xs (D, p)"

definition out_at :: "byte list \<Rightarrow> nat \<Rightarrow> fs_out \<Rightarrow> bool" where
  "out_at D p s \<longleftrightarrow> fs_out.inv (fst s) \<and> fs_out.view (fst s) = D \<and> bo_getFilePointer (fst (fst s)) = p"

lemma puts_out_at:
  assumes "out_at D p s" "fs_out.puts_at g bs (fst s)"
  shows "\<exists>t. bind_r (g (fst s)) (\<lambda>sf. Inr (sf, snd s)) = Inr t \<and> out_at (overwrite p bs D) (p + length bs) t \<and> snd t = snd s"
  using assms by (auto simp: fs_out.puts_at_def out_at_def)

lemma flush_out_at:
  assumes "out_at D p s"
  shows "\<exists>t f. so_flush s = Inr ((t, Some f), snd s) \<and> out_at D p ((t, Some f), snd s) \<and> of_good f \<and> of_bytes f = D \<and> bo_position t = 0 \<and>
    of_position f = p \<and> bo_start t = p"
proof -
  obtain sf fl where s: "fst s = (sf, fl)" by (cases "fst s")
  obtain t g where t: "bo_flush so_flushBuffer (sf, fl) = Inr (t, g)" "fs_out.inv (t, g)" "of_bytes (the g) = D" "fs_out.view (t, g) = D"
    "bo_getFilePointer t = p" "bo_position t = 0" "of_position (the g) = p"
    using fs_out.flush_ok [of sf fl] assms s by (auto simp: out_at_def)
  then obtain f where f: "g = Some f" "of_good f" by (auto simp: fs_out.inv_def of_ok_def)
  have "so_flush s = Inr ((t, g), snd s)" using t(1) s by (cases s) (simp add: so_flush_def)
  then show ?thesis using t f by (auto simp: out_at_def bo_getFilePointer_def)
qed

lemma exec_out_at:
  assumes "out_at D p s"
  shows "\<exists>t. so_exec x s = Inr t \<and> out_at (fst (ref_write [x] (D, p))) (snd (ref_write [x] (D, p))) t \<and> snd t = snd s"
proof (cases x)
  case (WByte b)
  then show ?thesis using puts_out_at [OF assms fs_out.writeByte_ok, of b] assms
    by (cases s) (auto simp: so_writeByte_def out_at_def)
next
  case (WBytes bs)
  then show ?thesis using puts_out_at [OF assms fs_out.writeBytes_ok, of bs] assms
    by (cases s) (auto simp: so_writeBytes_def out_at_def)
next
  case (WSeek q)
  obtain t f where t: "so_flush s = Inr ((t, Some f), snd s)" "of_good f" "of_bytes f = D" "bo_position t = 0" "of_position f = p"
    "out_at D p ((t, Some f), snd s)"
    using flush_out_at [OF assms] by blast
  have "so_seek q s = Inr ((t\<lparr>bo_start := q\<rparr>, Some (f\<lparr>of_position := q\<rparr>)), snd s)"
    using t(1,2) by (cases s) (auto simp: so_flush_def so_seek_def bo_seek_def bind_r_Inr_iff of_setPosition_def)
  then show ?thesis using t WSeek
    by (auto simp: out_at_def fs_out.inv_def fs_out.view_def of_ok_def bo_ok_def bo_pending_def bo_getFilePointer_def)
next
  case WFlush
  then show ?thesis using flush_out_at [OF assms] by auto
qed

lemma ref_write_Cons: "ref_write (x # xs) Dp = ref_write xs (ref_write [x] Dp)"
  by (cases Dp; cases x) simp_all

lemma run_out_at:
  "out_at D p s \<Longrightarrow> \<exists>t. so_run xs s = Inr t \<and> out_at (fst (ref_write xs (D, p))) (snd (ref_write xs (D, p))) t \<and> snd t = snd s"
proof (induction xs arbitrary: D p s)
  case (Cons x xs)
  obtain t where t: "so_exec x s = Inr t" "out_at (fst (ref_write [x] (D, p))) (snd (ref_write [x] (D, p))) t" "snd t = snd s"
    using exec_out_at [OF Cons.prems] by blast
  from Cons.IH [OF t(2)] show ?case using t(1,3) ref_write_Cons [of x xs "(D, p)"] by simp
qed simp

lemma new_out_at: "out_at [] 0 newSimpleFSIndexOutput"
  by (simp add: out_at_def newSimpleFSIndexOutput_def fs_out.inv_def fs_out.view_def of_ok_def newOutputFile_def
    newBufferedIndexOutput_def bo_ok_def bo_pending_def bo_getFilePointer_def)

text \<open>
  C10. Whatever sequence of byte and bulk writes, seeks and flushes is made on a new file output,
  nothing throws, \<^verbatim>\<open>getFilePointer\<close> is the position of the plain model, and
  \<^verbatim>\<open>close\<close> leaves a file with exactly the bytes of the plain model.
\<close>

theorem fs_output_refines:
  "\<exists>t f u. so_run xs newSimpleFSIndexOutput = Inr t \<and> bo_getFilePointer (fst (fst t)) = snd (ref_write xs ([], 0)) \<and>
    so_flush t = Inr ((u, Some f), True) \<and> of_bytes f = fst (ref_write xs ([], 0)) \<and> so_close t = Inr ((u, None), False)"
proof -
  obtain t where t: "so_run xs newSimpleFSIndexOutput = Inr t"
    "out_at (fst (ref_write xs ([], 0))) (snd (ref_write xs ([], 0))) t" "snd t"
    using run_out_at [OF new_out_at, of xs] by (auto simp: newSimpleFSIndexOutput_def)
  from flush_out_at [OF t(2)] obtain u f where u: "so_flush t = Inr ((u, Some f), snd t)" "of_bytes f = fst (ref_write xs ([], 0))" by blast
  then have "so_close t = Inr ((u, None), False)"
    using t(3) by (cases t) (auto simp: so_flush_def so_close_def bind_r_Inr_iff)
  then show ?thesis using t u by (auto simp: out_at_def)
qed


interpretation so_sink: byte_sink so_writeByte "\<lambda>s. fs_out.appending (fst s)" "\<lambda>s. fs_out.view (fst s)"
proof
  fix s :: fs_out and b assume "fs_out.appending (fst s)"
  from fs_out.stream.write_one [OF this, of b] show "\<exists>s'. so_writeByte b s = Inr s' \<and> fs_out.appending (fst s') \<and>
      fs_out.view (fst s') = fs_out.view (fst s) @ [b]"
    by (cases s) (auto simp: so_writeByte_def)
qed

subsection \<open>A failed file\<close>

text \<open>\<open>fb\<close> reports nothing and changes nothing.\<close>

definition stuck :: "(byte list \<Rightarrow> 'f \<Rightarrow> 'f result) \<Rightarrow> 'f \<Rightarrow> bool" where
  "stuck fb f \<longleftrightarrow> (\<forall>bs. fb bs f = Inr f)"

definition bo_shape :: "buf_out \<Rightarrow> bool" where
  "bo_shape s \<longleftrightarrow> length (bo_buffer s) = BO_BUFFER_SIZE \<and> bo_position s \<le> BO_BUFFER_SIZE"

lemma stuck_flush: "stuck fb f \<Longrightarrow> bo_shape s \<Longrightarrow> \<exists>t. bo_flush fb (s, f) = Inr (t, f) \<and> bo_shape t \<and> bo_position t = 0"
  by (simp add: stuck_def bo_flush_def bo_shape_def)

lemma shape_copy: "bo_shape s \<Longrightarrow> bo_position s + n \<le> BO_BUFFER_SIZE \<Longrightarrow> bo_shape (bo_copy bs n s)"
  by (simp add: bo_shape_def bo_copy_def)

lemma stuck_writeByte:
  assumes "stuck fb f" "bo_shape s"
  shows "\<exists>t. bo_writeByte fb b (s, f) = Inr (t, f) \<and> bo_shape t"
proof (cases "BO_BUFFER_SIZE \<le> bo_position s")
  case True
  then show ?thesis using stuck_flush [OF assms] by (auto simp: bo_writeByte_def arr_set_def bo_shape_def BO_BUFFER_SIZE_def)
qed (use assms in \<open>auto simp: bo_writeByte_def arr_set_def bo_shape_def\<close>)

lemma stuck_pieces:
  assumes "stuck fb f"
  shows "bo_shape s \<Longrightarrow> bo_position s + n \<le> BO_BUFFER_SIZE \<Longrightarrow> \<exists>t. bo_pieces fb bs n (s, f) = Inr (t, f) \<and> bo_shape t"
proof (induction "2 * length bs + (if n = 0 then 1 else 0)" arbitrary: bs n s rule: less_induct)
  case less
  show ?case
  proof (cases "bs = []")
    case False
    define m where "m = (if length bs < n then length bs else n)"
    have m: "bo_position s + m \<le> BO_BUFFER_SIZE" using less.prems(2) by (simp add: m_def)
    have c: "bo_shape (bo_copy bs m s)" by (rule shape_copy [OF less.prems(1) m])
    show ?thesis
    proof (cases "BO_BUFFER_SIZE - bo_position (bo_copy bs m s) = 0")
      case True
      obtain t where t: "bo_flush fb (bo_copy bs m s, f) = Inr (t, f)" "bo_shape t" "bo_position t = 0"
        using stuck_flush [OF assms c] by blast
      have "2 * length (drop m bs) + (if BO_BUFFER_SIZE = 0 then 1 else 0) < 2 * length bs + (if n = 0 then 1 else 0)"
        using False by (auto simp: m_def BO_BUFFER_SIZE_def)
      from less.hyps [OF this t(2)] t(3) True False t(1) show ?thesis
        by (subst bo_pieces.simps) (simp add: Let_def flip: m_def)
    next
      case no: False
      have "2 * length (drop m bs) + (if BO_BUFFER_SIZE - bo_position (bo_copy bs m s) = 0 then 1 else 0) < 2 * length bs + (if n = 0 then 1 else 0)"
        using False no by (auto simp: m_def)
      from less.hyps [OF this c] no False show ?thesis
        by (subst bo_pieces.simps) (simp add: Let_def flip: m_def)
    qed
  qed (use less.prems in simp)
qed

lemma stuck_writeBytes:
  assumes "stuck fb f" "bo_shape s"
  shows "\<exists>t. bo_writeBytes fb bs (s, f) = Inr (t, f) \<and> bo_shape t"
proof -
  have ps: "bo_position s \<le> BO_BUFFER_SIZE" using assms(2) by (simp add: bo_shape_def)
  consider "length bs \<le> BO_BUFFER_SIZE - bo_position s" | "BO_BUFFER_SIZE - bo_position s < length bs" "BO_BUFFER_SIZE < length bs"
    | "BO_BUFFER_SIZE - bo_position s < length bs" "length bs \<le> BO_BUFFER_SIZE" by linarith
  then show ?thesis
  proof cases
    case 1
    then have "bo_shape (bo_copy bs (length bs) s)" using shape_copy [OF assms(2)] ps by simp
    then show ?thesis using 1 stuck_flush [OF assms(1)] by (auto simp: bo_writeBytes_def Let_def)
  next
    case 2
    obtain t where "(if 0 < bo_position s then bo_flush fb (s, f) else Inr (s, f)) = Inr (t, f)" "bo_shape t"
      using stuck_flush [OF assms] assms(2) by (cases "0 < bo_position s") auto
    then show ?thesis using 2 assms(1) by (simp add: bo_writeBytes_def stuck_def bo_shape_def)
  next
    case 3
    then show ?thesis using stuck_pieces [OF assms, of "BO_BUFFER_SIZE - bo_position s" bs] ps by (simp add: bo_writeBytes_def)
  qed
qed

text \<open>
  C30. \<^verbatim>\<open>flushBuffer\<close> drops the result of \<^verbatim>\<open>OutputFile::write\<close>. Once the file stream has
  failed, on a full disk for example, every write, flush and the closing return normally, and nothing
  written reaches the file.
\<close>

theorem fs_output_failure_is_silent:
  assumes "bo_shape s" "\<not> of_good f" "\<forall>x\<in>set xs. \<forall>p. x \<noteq> WSeek p"
  shows "\<exists>t u. so_run xs ((s, Some f), True) = Inr ((t, Some f), True) \<and> so_flush ((t, Some f), True) = Inr ((u, Some f), True) \<and>
    so_close ((t, Some f), True) = Inr ((u, None), False)"
proof -
  have st: "stuck so_flushBuffer (Some f)" using assms(2) by (simp add: stuck_def so_flushBuffer_def of_write_def)
  have "\<exists>t. so_run xs ((s, Some f), True) = Inr ((t, Some f), True) \<and> bo_shape t" using assms(1,3)
  proof (induction xs arbitrary: s)
    case (Cons x xs)
    have "\<exists>t. so_exec x ((s, Some f), True) = Inr ((t, Some f), True) \<and> bo_shape t"
    proof (cases x)
      case (WByte b)
      then show ?thesis using stuck_writeByte [OF st Cons.prems(1), of b] by (auto simp: so_writeByte_def)
    next
      case (WBytes bs)
      then show ?thesis using stuck_writeBytes [OF st Cons.prems(1), of bs] by (auto simp: so_writeBytes_def)
    next
      case WFlush
      then show ?thesis using stuck_flush [OF st Cons.prems(1)] by (auto simp: so_flush_def)
    qed (use Cons.prems(2) in simp)
    then show ?case using Cons.IH Cons.prems(2) by auto
  qed simp
  then obtain t where t: "so_run xs ((s, Some f), True) = Inr ((t, Some f), True)" "bo_shape t" by blast
  then show ?thesis using stuck_flush [OF st t(2)] by (auto simp: so_flush_def so_close_def)
qed

theorem fs_output_failure_is_silent_witness:
  "\<exists>t u. so_run [WByte 7, WFlush, WBytes [8, 9]] ((newBufferedIndexOutput, Some (newOutputFile\<lparr>of_good := False\<rparr>)), True) =
      Inr ((t, Some (newOutputFile\<lparr>of_good := False\<rparr>)), True) \<and>
    so_close ((t, Some (newOutputFile\<lparr>of_good := False\<rparr>)), True) = Inr ((u, None), False)"
  using fs_output_failure_is_silent [of newBufferedIndexOutput "newOutputFile\<lparr>of_good := False\<rparr>" "[WByte 7, WFlush, WBytes [8, 9]]"]
  by (auto simp: bo_shape_def newBufferedIndexOutput_def)

end
