(* ===== verification/ChecksumFile.thy ===== *)
theory ChecksumFile imports BufferedInput BufferedOutput begin

text \<open>
  Checksummed files: \<^verbatim>\<open>store/ChecksumIndexOutput.cpp\<close> and
  \<^verbatim>\<open>store/ChecksumIndexInput.cpp\<close> around another stream, here the streams on files, and the check that
  \<^verbatim>\<open>SegmentInfos::read\<close> makes with them. The CRC is boost's
  \<^verbatim>\<open>crc_32_type\<close>: \<open>process\<close> is its \<^verbatim>\<open>process_byte\<close>, repeated by \<^verbatim>\<open>process_bytes\<close>, and
  \<open>value\<close> its \<^verbatim>\<open>checksum()\<close>. Nothing is assumed of them. A state is the checksum so
  far beside the state of the main stream.
\<close>

definition co_writeByte :: "(byte \<Rightarrow> 'c \<Rightarrow> 'c) \<Rightarrow> 's writer \<Rightarrow> ('c \<times> 's) writer" where
  "co_writeByte process wb b = (\<lambda>(c, m). let c = process b c in bind_r (wb b m) (\<lambda>m. Inr (c, m)))"

definition co_writeBytes :: "(byte \<Rightarrow> 'c \<Rightarrow> 'c) \<Rightarrow> (byte list \<Rightarrow> 's \<Rightarrow> 's result) \<Rightarrow> byte list \<Rightarrow> 'c \<times> 's \<Rightarrow> ('c \<times> 's) result" where
  "co_writeBytes process wbs bs = (\<lambda>(c, m). let c = fold process bs c in bind_r (wbs bs m) (\<lambda>m. Inr (c, m)))"

definition co_getChecksum :: "('c \<Rightarrow> int64) \<Rightarrow> 'c \<times> 's \<Rightarrow> int64" where
  "co_getChecksum value = (\<lambda>(c, m). value c)"

definition co_seek :: "nat \<Rightarrow> 'c \<times> 's \<Rightarrow> ('c \<times> 's) result" where
  "co_seek pos s = Inl RuntimeError"

definition co_prepareCommit :: "('c \<Rightarrow> int64) \<Rightarrow> 's writer \<Rightarrow> ('s \<Rightarrow> 's result) \<Rightarrow> ('s \<Rightarrow> nat) \<Rightarrow> (nat \<Rightarrow> 's \<Rightarrow> 's result) \<Rightarrow> 'c \<times> 's \<Rightarrow> ('c \<times> 's) result" where
  "co_prepareCommit value wb flush pointer seek = (\<lambda>(c, m).
     let checksum = value c; pos = pointer m
     in bind_r (writeLong wb (checksum - 1) m) (\<lambda>m. bind_r (flush m) (\<lambda>m. bind_r (seek pos m) (\<lambda>m. Inr (c, m)))))"

definition co_finishCommit :: "('c \<Rightarrow> int64) \<Rightarrow> 's writer \<Rightarrow> 'c \<times> 's \<Rightarrow> ('c \<times> 's) result" where
  "co_finishCommit value wb = (\<lambda>(c, m). bind_r (writeLong wb (value c) m) (\<lambda>m. Inr (c, m)))"

definition ci_readByte :: "(byte \<Rightarrow> 'c \<Rightarrow> 'c) \<Rightarrow> 's reader \<Rightarrow> ('c \<times> 's) reader" where
  "ci_readByte process rb = (\<lambda>(c, m). bind_r (rb m) (\<lambda>(b, m). Inr (b, process b c, m)))"

definition ci_readBytes :: "(byte \<Rightarrow> 'c \<Rightarrow> 'c) \<Rightarrow> (nat \<Rightarrow> 's \<Rightarrow> (byte list \<times> 's) result) \<Rightarrow> nat \<Rightarrow> 'c \<times> 's \<Rightarrow> (byte list \<times> ('c \<times> 's)) result" where
  "ci_readBytes process rbs n = (\<lambda>(c, m). bind_r (rbs n m) (\<lambda>(bs, m). Inr (bs, fold process bs c, m)))"

definition ci_getChecksum :: "('c \<Rightarrow> int64) \<Rightarrow> 'c \<times> 's \<Rightarrow> int64" where
  "ci_getChecksum value = (\<lambda>(c, m). value c)"

definition ci_seek :: "nat \<Rightarrow> 'c \<times> 's \<Rightarrow> ('c \<times> 's) result" where
  "ci_seek pos s = Inl RuntimeError"

text \<open>The end of \<^verbatim>\<open>SegmentInfos::read\<close>: the sum of what was read against the stored one.\<close>

definition checksum_matches :: "(byte \<Rightarrow> 'c \<Rightarrow> 'c) \<Rightarrow> ('c \<Rightarrow> int64) \<Rightarrow> 's reader \<Rightarrow> 'c \<times> 's \<Rightarrow> bool result" where
  "checksum_matches process value rb s =
     (let checksumNow = ci_getChecksum value s
      in bind_r (readLong (ci_readByte process rb) s) (\<lambda>(checksumThen, s). Inr (checksumNow = checksumThen)))"

subsection \<open>The laws of the wrapped streams\<close>

context byte_sink begin

lemma checksum_sink:
  "byte_sink (co_writeByte process wb) (\<lambda>(c, m). inv m \<and> c = fold process (written m) c0) (\<lambda>(c, m). written m)"
proof
  fix s b assume "case s of (c, m) \<Rightarrow> inv m \<and> c = fold process (written m) c0"
  then obtain c m where s: "s = (c, m)" "inv m" "c = fold process (written m) c0" by (cases s) auto
  from write_one [OF s(2), of b] show "\<exists>s'. co_writeByte process wb b s = Inr s' \<and> (case s' of (c, m) \<Rightarrow> inv m \<and> c = fold process (written m) c0) \<and>
      (case s' of (c, m) \<Rightarrow> written m) = (case s of (c, m) \<Rightarrow> written m) @ [b]"
    using s by (auto simp: co_writeByte_def)
qed

end

context byte_source begin

text \<open>\<open>D\<close> is what was left when the sum was \<open>c0\<close>.\<close>

definition summed :: "(byte \<Rightarrow> 'c \<Rightarrow> 'c) \<Rightarrow> 'c \<Rightarrow> byte list \<Rightarrow> 'c \<times> 's \<Rightarrow> bool" where
  "summed process c0 D s \<longleftrightarrow> inv (snd s) \<and> (\<exists>xs. D = xs @ left (snd s) \<and> fst s = fold process xs c0)"

lemma checksum_source: "byte_source (ci_readByte process rb) (summed process c0 D) (\<lambda>s. left (snd s))"
proof
  fix s b bs assume s: "summed process c0 D s" "left (snd s) = b # bs"
  then obtain xs where xs: "inv (snd s)" "D = xs @ b # bs" "fst s = fold process xs c0" by (auto simp: summed_def)
  obtain m where m: "rb (snd s) = Inr (b, m)" "inv m" "left m = bs" using read_some [OF xs(1) s(2)] by blast
  have "summed process c0 D (process b (fst s), m)"
    using xs m by (auto simp: summed_def intro!: exI [of _ "xs @ [b]"])
  then show "\<exists>s'. ci_readByte process rb s = Inr (b, s') \<and> summed process c0 D s' \<and> left (snd s') = bs"
    using m by (cases s) (auto simp: ci_readByte_def)
next
  fix s assume "summed process c0 D s" "left (snd s) = []"
  then show "ci_readByte process rb s = Inl IOException" using read_eof by (cases s) (simp add: summed_def ci_readByte_def)
qed

lemma sum_at: "summed process c0 D s \<Longrightarrow> D = xs @ left (snd s) \<Longrightarrow> fst s = fold process xs c0"
  by (auto simp: summed_def)

text \<open>Reading fields and the sum behind them.\<close>

lemma check_fields:
  assumes "inv m" "left m = concat (map field_wire fs) @ long_wire v"
  shows "\<exists>s. get_fields (ci_readByte process rb) fs (c0, m) = Inr (fs, s) \<and>
    checksum_matches process val rb s = Inr (val (fold process (concat (map field_wire fs)) c0) = v)"
proof -
  let ?D = "concat (map field_wire fs) @ long_wire v"
  have s0: "summed process c0 ?D (c0, m)" using assms by (auto simp: summed_def)
  obtain s where s: "get_fields (ci_readByte process rb) fs (c0, m) = Inr (fs, s)" "summed process c0 ?D s" "left (snd s) = long_wire v @ []"
  proof -
    have "left (snd (c0, m)) = concat (map field_wire fs) @ long_wire v" using assms(2) by simp
    from byte_source.getsD [OF checksum_source byte_source.gets_fields [OF checksum_source] s0 this] show ?thesis
      using that by auto
  qed
  obtain s' where s': "readLong (ci_readByte process rb) s = Inr (v, s')"
    using byte_source.getsD [OF checksum_source byte_source.gets_long [OF checksum_source] s(2,3)] by auto
  have "fst s = fold process (concat (map field_wire fs)) c0" using sum_at [OF s(2)] s(3) by simp
  then show ?thesis using s(1) s' by (cases s) (auto simp: checksum_matches_def ci_getChecksum_def)
qed

end

subsection \<open>The two phases of a commit\<close>

text \<open>Writing into a file output from a position on.\<close>

definition written_from :: "nat \<Rightarrow> fs_out \<Rightarrow> byte list" where
  "written_from p s = take (bo_getFilePointer (fst (fst s)) - p) (drop p (fs_out.view (fst s)))"

lemma written_from_at:
  assumes "p \<le> length D" "out_at (overwrite p w D) (p + length w) s"
  shows "written_from p s = w"
  using assms by (cases "w = []") (simp_all add: written_from_def out_at_def overwrite_def)

lemma overwriting_sink:
  assumes "p \<le> length D"
  shows "byte_sink so_writeByte (\<lambda>s. out_at (overwrite p (written_from p s) D) (p + length (written_from p s)) s \<and> snd s = opn) (written_from p)"
proof
  fix s b assume s: "out_at (overwrite p (written_from p s) D) (p + length (written_from p s)) s \<and> snd s = opn"
  let ?w = "written_from p s"
  from exec_out_at [OF conjunct1 [OF s], of "WByte b"] obtain t where
    t: "so_writeByte b s = Inr t" "out_at (overwrite p (?w @ [b]) D) (p + length (?w @ [b])) t" "snd t = snd s"
    by (auto simp: overwrite_append)
  moreover have "written_from p t = ?w @ [b]" by (rule written_from_at [OF assms t(2)])
  ultimately show "\<exists>t. so_writeByte b s = Inr t \<and>
      (out_at (overwrite p (written_from p t) D) (p + length (written_from p t)) t \<and> snd t = opn) \<and> written_from p t = written_from p s @ [b]"
    using s by auto
qed

lemma writeLong_out_at:
  assumes "out_at D p s" "p \<le> length D"
  shows "\<exists>t. writeLong so_writeByte v s = Inr t \<and> out_at (overwrite p (long_wire v) D) (p + length (long_wire v)) t \<and> snd t = snd s"
proof -
  note k = overwriting_sink [OF assms(2), of "snd s"]
  have w: "written_from p s = []" using written_from_at [OF assms(2), of "[]"] assms(1) by simp
  have "out_at (overwrite p (written_from p s) D) (p + length (written_from p s)) s \<and> snd s = snd s" using assms(1) w by simp
  from byte_sink.putsD [OF k byte_sink.puts_long [OF k] this] show ?thesis using w by fastforce
qed

lemma length_long_wire [simp]: "length (long_wire v) = 8"
  by (simp add: long_wire_def int_wire_def)

lemma overwrite_tail: "length a = length b \<Longrightarrow> overwrite (length D) a (D @ b) = D @ a"
  by (cases "a = []") (simp_all add: overwrite_def)

lemma so_seek_at:
  assumes "out_at D p s" shows "\<exists>t. so_seek q s = Inr t \<and> out_at D q t \<and> snd t = snd s"
  using exec_out_at [OF assms, of "WSeek q"] by simp

text \<open>What a stream on files has written to the disk.\<close>

definition on_disk :: "fs_out \<Rightarrow> byte list" where
  "on_disk s = (case snd (fst s) of None \<Rightarrow> [] | Some f \<Rightarrow> of_bytes f)"

definition so_pointer :: "fs_out \<Rightarrow> nat" where
  "so_pointer s = bo_getFilePointer (fst (fst s))"

lemma prepare_finish:
  assumes s: "out_at D (length D) m"
  shows "\<exists>m1 m2. co_prepareCommit val so_writeByte so_flush so_pointer so_seek (c, m) = Inr (c, m1) \<and>
    on_disk m1 = D @ long_wire (val c - 1) \<and>
    co_finishCommit val so_writeByte (c, m1) = Inr (c, m2) \<and> out_at (D @ long_wire (val c)) (length D + 8) m2 \<and> snd m2 = snd m"
proof -
  let ?E = "D @ long_wire (val c - 1)"
  have p: "so_pointer m = length D" using s by (simp add: so_pointer_def out_at_def)
  obtain m0 where m0: "writeLong so_writeByte (val c - 1) m = Inr m0" "out_at ?E (length D + 8) m0" "snd m0 = snd m"
    using writeLong_out_at [OF s order_refl, of "val c - 1"] by (auto simp: overwrite_end)
  obtain t f where t: "so_flush m0 = Inr ((t, Some f), snd m0)" "out_at ?E (length D + 8) ((t, Some f), snd m0)" "of_good f"
    "of_bytes f = ?E" "bo_position t = 0" "of_position f = length D + 8"
    using flush_out_at [OF m0(2)] by blast
  obtain m1 where m1: "so_seek (length D) ((t, Some f), snd m0) = Inr m1" "out_at ?E (length D) m1" "snd m1 = snd m0"
    using so_seek_at [OF t(2), of "length D"] by auto
  have "on_disk m1 = ?E"
    using m1(1) t(3-6) unfolding so_seek_def bo_seek_def bo_flush_def
    by (auto simp: bind_r_Inr_iff so_flushBuffer_def of_write_def of_setPosition_def on_disk_def)
  moreover have "co_prepareCommit val so_writeByte so_flush so_pointer so_seek (c, m) = Inr (c, m1)"
    using m0(1) t(1) m1(1) p by (simp add: co_prepareCommit_def)
  moreover obtain m2 where "writeLong so_writeByte (val c) m1 = Inr m2" "out_at (D @ long_wire (val c)) (length D + 8) m2" "snd m2 = snd m1"
    using writeLong_out_at [OF m1(2), of "val c"] by (auto simp: overwrite_tail)
  ultimately show ?thesis using m0(3) m1(3) by (intro exI [of _ m1] exI [of _ m2]) (simp add: co_finishCommit_def)
qed


text \<open>
  C8. Two-phase commit: whatever the checksum function, fields written through a checksum output and
  prepared are complete on disk but do not pass the check of the reader, so a crash leaves no
  commit; after \<^verbatim>\<open>finishCommit\<close> and the closing flush the reader gets the fields and the
  check passes.
\<close>

theorem two_phase_commit:
  assumes "0 < chunk" "chunk = 2 ^ 31 - 1 \<or> length (concat (map field_wire fs)) + 8 + chunk < 2 ^ 31" "0 < n" "n < 2 ^ 31"
  shows "\<exists>s s1 s2 f u b r1 r2.
    put_fields (co_writeByte process so_writeByte) fs (c0, newSimpleFSIndexOutput) = Inr s \<and>
    co_prepareCommit val so_writeByte so_flush so_pointer so_seek s = Inr s1 \<and>
    get_fields (ci_readByte process (bi_readByte inf_length (si_readInternal chunk) si_seekInternal)) fs
      (c0, newBufferedIndexInput n, newInputFile (on_disk (snd s1))) = Inr (fs, r1) \<and>
    checksum_matches process val (bi_readByte inf_length (si_readInternal chunk) si_seekInternal) r1 = Inr False \<and>
    co_finishCommit val so_writeByte s1 = Inr s2 \<and> so_flush (snd s2) = Inr ((u, Some f), b) \<and>
    get_fields (ci_readByte process (bi_readByte inf_length (si_readInternal chunk) si_seekInternal)) fs
      (c0, newBufferedIndexInput n, newInputFile (of_bytes f)) = Inr (fs, r2) \<and>
    checksum_matches process val (bi_readByte inf_length (si_readInternal chunk) si_seekInternal) r2 = Inr True"
proof -
  let ?W = "concat (map field_wire fs)" and ?rb = "bi_readByte inf_length (si_readInternal chunk) si_seekInternal"
  let ?c = "fold process ?W c0"
  note k = so_sink.checksum_sink [of process c0]
  have i: "case (c0, newSimpleFSIndexOutput) of (c, m) \<Rightarrow> fs_out.appending (fst m) \<and> c = fold process (fs_out.view (fst m)) c0"
    and v: "fs_out.view (fst newSimpleFSIndexOutput) = []"
    using new_out_at by (simp_all add: fs_out.appending_def out_at_def)
  obtain m where s: "put_fields (co_writeByte process so_writeByte) fs (c0, newSimpleFSIndexOutput) = Inr (?c, m)"
    "fs_out.appending (fst m)" "fs_out.view (fst m) = ?W"
    using byte_sink.putsD [OF k byte_sink.puts_fields [OF k, of fs] i] v by auto
  then have "out_at ?W (length ?W) m" by (simp add: fs_out.appending_def out_at_def)
  from prepare_finish [OF this, of val ?c] obtain m1 m2 where
    p: "co_prepareCommit val so_writeByte so_flush so_pointer so_seek (?c, m) = Inr (?c, m1)" "on_disk m1 = ?W @ long_wire (val ?c - 1)"
      "co_finishCommit val so_writeByte (?c, m1) = Inr (?c, m2)" "out_at (?W @ long_wire (val ?c)) (length ?W + 8) m2" by blast
  obtain u f where u: "so_flush m2 = Inr ((u, Some f), snd m2)" "of_bytes f = ?W @ long_wire (val ?c)"
    using flush_out_at [OF p(4)] by blast
  have read: "\<exists>r. get_fields (ci_readByte process ?rb) fs (c0, newBufferedIndexInput n, newInputFile (?W @ long_wire v)) = Inr (fs, r) \<and>
      checksum_matches process val ?rb r = Inr (val ?c = v)" for v
  proof (rule fs_in.stream.check_fields)
    have "stream_at chunk (?W @ long_wire v) 0 (newBufferedIndexInput n, newInputFile (?W @ long_wire v))"
      by (rule opened_at) (use assms in auto)
    then show "fs_in.inv chunk (newBufferedIndexInput n, newInputFile (?W @ long_wire v))"
      "fs_in.left (newBufferedIndexInput n, newInputFile (?W @ long_wire v)) = ?W @ long_wire v"
      by (simp_all add: stream_at_inv)
  qed
  have ne: "(val ?c = val ?c - 1) = False" by simp
  obtain r1 where r1: "get_fields (ci_readByte process ?rb) fs (c0, newBufferedIndexInput n, newInputFile (?W @ long_wire (val ?c - 1))) = Inr (fs, r1)"
      "checksum_matches process val ?rb r1 = Inr (val ?c = val ?c - 1)" using read by blast
  obtain r2 where r2: "get_fields (ci_readByte process ?rb) fs (c0, newBufferedIndexInput n, newInputFile (?W @ long_wire (val ?c))) = Inr (fs, r2)"
      "checksum_matches process val ?rb r2 = Inr (val ?c = val ?c)" using read by blast
  show ?thesis
    by (rule exI [of _ "(?c, m)"], rule exI [of _ "(?c, m1)"], rule exI [of _ "(?c, m2)"], rule exI [of _ f], rule exI [of _ u],
      rule exI [of _ "snd m2"], rule exI [of _ r1], rule exI [of _ r2]) (simp only: s(1) p(1-3) u r1 r2 ne snd_conv simp_thms)
qed

theorem two_phase_commit_witness:
  "\<exists>s s1 r1. put_fields (co_writeByte (\<lambda>b c. ucast b + c) so_writeByte) [FInt 7, FVLong 300] (0 :: int64, newSimpleFSIndexOutput) = Inr s \<and>
    co_prepareCommit id so_writeByte so_flush so_pointer so_seek s = Inr s1 \<and>
    checksum_matches (\<lambda>b c. ucast b + c) id (bi_readByte inf_length (si_readInternal (2 ^ 31 - 1)) si_seekInternal) r1 = Inr False"
proof -
  have p: "0 < (2 ^ 31 - 1 :: nat)" "0 < (1024 :: nat)" "(1024 :: nat) < 2 ^ 31" by simp_all
  from two_phase_commit [OF p(1) disjI1 [OF refl] p(2,3), of "\<lambda>b c. ucast b + c" "[FInt 7, FVLong 300]" "0 :: int64" id]
  show ?thesis by blast
qed

text \<open>
  C20. Files: any sequence of bytes, ints, longs and their variable-length forms written to a file output
  and closed is read back by a buffered input of any buffer size, after which the next read throws. With the default chunk
  size of 2^31 - 1 the file has any length; with a smaller one, its length and the chunk size together stay below 2^31, so
  that \<^verbatim>\<open>total + chunkSize\<close> of \<^verbatim>\<open>readInternal\<close> does not overflow.
\<close>

theorem file_fields_roundtrip:
  assumes "0 < chunk" "chunk = 2 ^ 31 - 1 \<or> length (concat (map field_wire fs)) + chunk < 2 ^ 31" "0 < n" "n < 2 ^ 31"
  shows "\<exists>s u f b r. put_fields so_writeByte fs newSimpleFSIndexOutput = Inr s \<and> so_flush s = Inr ((u, Some f), b) \<and>
    get_fields (bi_readByte inf_length (si_readInternal chunk) si_seekInternal) fs (newBufferedIndexInput n, newInputFile (of_bytes f)) = Inr (fs, r) \<and>
    bi_readByte inf_length (si_readInternal chunk) si_seekInternal r = Inl IOException"
proof -
  let ?W = "concat (map field_wire fs)"
  have i: "fs_out.appending (fst newSimpleFSIndexOutput)" "fs_out.view (fst newSimpleFSIndexOutput) = []"
    using new_out_at by (simp_all add: fs_out.appending_def out_at_def)
  obtain s where s: "put_fields so_writeByte fs newSimpleFSIndexOutput = Inr s" "fs_out.appending (fst s)" "fs_out.view (fst s) = ?W"
    using so_sink.putsD [OF so_sink.puts_fields [of fs] i(1)] i(2) by auto
  then have "out_at ?W (length ?W) s" by (simp add: fs_out.appending_def out_at_def)
  from flush_out_at [OF this] obtain u f where u: "so_flush s = Inr ((u, Some f), snd s)" "of_bytes f = ?W" by blast
  have "stream_at chunk ?W 0 (newBufferedIndexInput n, newInputFile ?W)" by (rule opened_at) (use assms in auto)
  then have "fs_in.inv chunk (newBufferedIndexInput n, newInputFile ?W)" "fs_in.left (newBufferedIndexInput n, newInputFile ?W) = ?W @ []"
    by (simp_all add: stream_at_inv)
  from fs_in.stream.getsD [OF fs_in.stream.gets_fields this] obtain r where
    "get_fields (bi_readByte inf_length (si_readInternal chunk) si_seekInternal) fs (newBufferedIndexInput n, newInputFile ?W) = Inr (fs, r)"
    "fs_in.inv chunk r" "fs_in.left r = []" by blast
  with fs_in.stream.read_eof s(1) u show ?thesis by fastforce
qed

theorem file_fields_roundtrip_witness:
  "\<exists>s u f b r. put_fields so_writeByte [FVInt (-1), FLong 7] newSimpleFSIndexOutput = Inr s \<and> so_flush s = Inr ((u, Some f), b) \<and>
    get_fields (bi_readByte inf_length (si_readInternal (2 ^ 31 - 1)) si_seekInternal) [FVInt (-1), FLong 7]
      (newBufferedIndexInput 3, newInputFile (of_bytes f)) = Inr ([FVInt (-1), FLong 7], r)"
proof -
  have p: "0 < (2 ^ 31 - 1 :: nat)" "0 < (3 :: nat)" "(3 :: nat) < 2 ^ 31" by simp_all
  from file_fields_roundtrip [OF p(1) disjI1 [OF refl] p(2,3), of "[FVInt (-1), FLong 7]"] show ?thesis by blast
qed

end
