(* ===== verification/DocIterators.thy ===== *)
theory DocIterators imports LucenePrelude begin

text \<open>
  Iterators over documents: \<^verbatim>\<open>search/DocIdSetIterator\<close> and the classes that build one
  iterator from others, \<^verbatim>\<open>search/FilteredDocIdSetIterator.cpp\<close>,
  \<^verbatim>\<open>search/ReqExclScorer.cpp\<close> and \<^verbatim>\<open>search/ReqOptSumScorer.cpp\<close>, with the loops of \<^verbatim>\<open>search/Scorer.cpp\<close> that drive
  them. An iterator is a state with \<^verbatim>\<open>nextDoc\<close>, \<^verbatim>\<open>advance\<close> and \<^verbatim>\<open>docID\<close>; these are
  arguments of the definitions, and the interface \<open>doc_iter\<close> states their contract over an
  abstract view of the state, the documents it has still to return. Each class is shown to
  provide the interface when its parts do.

  A call that does not come back (a loop over an iterator that never ends) is \<open>None\<close> in a
  loop and \<open>Inl NoReturn\<close> in the operation that runs the loop.
\<close>

definition NO_MORE_DOCS :: int where
  "NO_MORE_DOCS = 2 ^ 31 - 1"

type_synonym 's step = "(int \<times> 's) result"

subsection \<open>The contract\<close>

text \<open>A step that lands on the first of the documents \<open>ds\<close>, or on no document if there is none.\<close>

definition yields :: "('s \<Rightarrow> bool) \<Rightarrow> ('s \<Rightarrow> int) \<Rightarrow> ('s \<Rightarrow> int list) \<Rightarrow> int list \<Rightarrow> 's step \<Rightarrow> bool" where
  "yields ok cur rest ds r = (\<exists>t. r = Inr (cur t, t) \<and>
     (if ds = [] then cur t = NO_MORE_DOCS \<and> rest t = [] else ok t \<and> cur t = hd ds \<and> rest t = tl ds))"

lemma yields_Nil [simp]:
  "yields ok cur rest [] r \<longleftrightarrow> (\<exists>t. r = Inr (NO_MORE_DOCS, t) \<and> cur t = NO_MORE_DOCS \<and> rest t = [])"
  by (auto simp: yields_def)

lemma yields_Cons [simp]:
  "yields ok cur rest (d # ds) r \<longleftrightarrow> (\<exists>t. r = Inr (d, t) \<and> ok t \<and> cur t = d \<and> rest t = ds)"
  by (auto simp: yields_def)

text \<open>The loop of \<^verbatim>\<open>Scorer::score(collector)\<close>; a collector is a step on its own state.\<close>

partial_function (option) score_loop ::
  "('s \<Rightarrow> 's step) \<Rightarrow> (int \<Rightarrow> 'c \<Rightarrow> 'c result) \<Rightarrow> 's \<Rightarrow> 'c \<Rightarrow> ('s \<times> 'c) result option" where
  "score_loop nxt col s c =
     (case nxt s of Inl e \<Rightarrow> Some (Inl e)
      | Inr (doc, s) \<Rightarrow>
          if doc = NO_MORE_DOCS then Some (Inr (s, c))
          else (case col doc c of Inl e \<Rightarrow> Some (Inl e) | Inr c \<Rightarrow> score_loop nxt col s c))"

definition score_all :: "('s \<Rightarrow> 's step) \<Rightarrow> (int \<Rightarrow> 'c \<Rightarrow> 'c result) \<Rightarrow> 's \<Rightarrow> 'c \<Rightarrow> ('s \<times> 'c) result" where
  "score_all nxt col s c = returns (score_loop nxt col s c)"

text \<open>The loop of \<^verbatim>\<open>Scorer::score(collector, max, firstDocID)\<close>.\<close>

partial_function (option) score_range_loop ::
  "('s \<Rightarrow> 's step) \<Rightarrow> (int \<Rightarrow> 'c \<Rightarrow> 'c result) \<Rightarrow> int \<Rightarrow> int \<Rightarrow> 's \<Rightarrow> 'c \<Rightarrow> (bool \<times> 's \<times> 'c) result option" where
  "score_range_loop nxt col lim doc s c =
     (if doc < lim then
        (case col doc c of Inl e \<Rightarrow> Some (Inl e)
         | Inr c \<Rightarrow> (case nxt s of Inl e \<Rightarrow> Some (Inl e)
                      | Inr (doc, s) \<Rightarrow> score_range_loop nxt col lim doc s c))
      else Some (Inr (doc \<noteq> NO_MORE_DOCS, s, c)))"

definition score_range ::
  "('s \<Rightarrow> 's step) \<Rightarrow> (int \<Rightarrow> 'c \<Rightarrow> 'c result) \<Rightarrow> int \<Rightarrow> int \<Rightarrow> 's \<Rightarrow> 'c \<Rightarrow> (bool \<times> 's \<times> 'c) result" where
  "score_range nxt col lim firstDocID s c = returns (score_range_loop nxt col lim firstDocID s c)"

text \<open>How \<^verbatim>\<open>DocIdSetIterator.h\<close> says \<^verbatim>\<open>advance\<close> behaves: \<^verbatim>\<open>while ((doc = nextDoc()) < target) {}\<close>.\<close>

partial_function (option) advance_loop :: "('s \<Rightarrow> 's step) \<Rightarrow> int \<Rightarrow> 's \<Rightarrow> 's step option" where
  "advance_loop nxt target s =
     (case nxt s of Inl e \<Rightarrow> Some (Inl e)
      | Inr (doc, s) \<Rightarrow> if doc < target then advance_loop nxt target s else Some (Inr (doc, s)))"

text \<open>What a collector gets from a list of documents.\<close>

fun collect_list :: "(int \<Rightarrow> 'c \<Rightarrow> 'c result) \<Rightarrow> int list \<Rightarrow> 'c \<Rightarrow> 'c result" where
  "collect_list col [] c = Inr c"
| "collect_list col (d # ds) c = bind_r (col d c) (collect_list col ds)"

definition collect_doc :: "int \<Rightarrow> int list \<Rightarrow> int list result" where
  "collect_doc d ds = Inr (ds @ [d])"

lemma collect_list_docs [simp]: "collect_list collect_doc ds xs = Inr (xs @ ds)"
  by (induction ds arbitrary: xs) (simp_all add: collect_doc_def)

locale doc_iter =
  fixes nxt :: "'s \<Rightarrow> 's step" and adv :: "int \<Rightarrow> 's \<Rightarrow> 's step"
    and cur :: "'s \<Rightarrow> int" and ok :: "'s \<Rightarrow> bool" and rest :: "'s \<Rightarrow> int list"
  assumes iter_sorted: "ok s \<Longrightarrow> sorted_wrt (<) (cur s # rest s)"
    and iter_docs: "ok s \<Longrightarrow> d \<in> set (rest s) \<Longrightarrow> 0 \<le> d \<and> d < NO_MORE_DOCS"
    and nxt_yields: "ok s \<Longrightarrow> yields ok cur rest (rest s) (nxt s)"
    and adv_yields: "ok s \<Longrightarrow> cur s < x \<Longrightarrow> x \<le> NO_MORE_DOCS \<Longrightarrow>
          yields ok cur rest (dropWhile (\<lambda>d. d < x) (rest s)) (adv x s)"
begin

lemma nxt_cases:
  assumes "ok s"
  obtains t where "nxt s = Inr (NO_MORE_DOCS, t)" "rest s = []" "cur t = NO_MORE_DOCS" "rest t = []"
  | d t where "nxt s = Inr (d, t)" "rest s = d # rest t" "ok t" "cur t = d" "0 \<le> d" "d < NO_MORE_DOCS" "cur s < d"
proof (cases "rest s")
  case Nil
  then show ?thesis using nxt_yields [OF assms] that(1) by auto
next
  case (Cons d ds)
  then show ?thesis using nxt_yields [OF assms] iter_docs [OF assms, of d] iter_sorted [OF assms] that(2) by auto
qed

lemma adv_cases:
  assumes "ok s" "cur s < x" "x \<le> NO_MORE_DOCS"
  obtains t where "adv x s = Inr (NO_MORE_DOCS, t)" "dropWhile (\<lambda>d. d < x) (rest s) = []" "cur t = NO_MORE_DOCS" "rest t = []"
  | d t where "adv x s = Inr (d, t)" "dropWhile (\<lambda>d. d < x) (rest s) = d # rest t" "ok t" "cur t = d"
      "x \<le> d" "d < NO_MORE_DOCS" "cur s < d"
proof (cases "dropWhile (\<lambda>d. d < x) (rest s)")
  case Nil
  then show ?thesis using adv_yields [OF assms, unfolded Nil] that(1) by auto
next
  case (Cons d ds)
  then have "d \<in> set (rest s)" "x \<le> d"
    using set_dropWhileD [of d "\<lambda>d. d < x" "rest s"] hd_dropWhile [of "\<lambda>d. d < x" "rest s"] by auto
  then show ?thesis using Cons adv_yields [OF assms, unfolded Cons] iter_docs [OF assms(1), of d] assms(2) that(2) by auto
qed

lemma score_loop_collects:
  "ok s \<Longrightarrow> \<exists>r. score_loop nxt col s c = Some r \<and>
     (case collect_list col (rest s) c of Inl e \<Rightarrow> r = Inl e | Inr c' \<Rightarrow> \<exists>t. r = Inr (t, c'))"
proof (induction "rest s" arbitrary: s c)
  case Nil
  from Nil.prems show ?case by (cases rule: nxt_cases) (auto simp: score_loop.simps [of nxt col s] Nil.hyps [symmetric])
next
  case (Cons d ds)
  from Cons.prems obtain t where t: "nxt s = Inr (d, t)" "ok t" "ds = rest t" "d \<noteq> NO_MORE_DOCS" "rest s = d # ds"
    by (cases rule: nxt_cases) (use Cons.hyps(2) in auto)
  then show ?case
    using Cons.hyps(1) [OF t(3,2)] by (cases "col d c") (simp_all add: score_loop.simps [of nxt col s])
qed

text \<open>The same for a state that need not be within the contract but whose first step is.\<close>

lemma score_all_from:
  assumes "yields ok cur rest ds (nxt s)" "\<forall>d\<in>set ds. d < NO_MORE_DOCS"
  shows "\<exists>t. score_all nxt collect_doc s [] = Inr (t, ds)"
proof (cases ds)
  case Nil
  then show ?thesis using assms(1) by (auto simp: score_all_def score_loop.simps [of nxt collect_doc s])
next
  case (Cons d ds')
  then obtain t where t: "nxt s = Inr (d, t)" "ok t" "rest t = ds'" "d \<noteq> NO_MORE_DOCS" using assms by auto
  then show ?thesis using score_loop_collects [OF t(2), of collect_doc "[d]"] Cons
    by (auto simp: score_all_def score_loop.simps [of nxt collect_doc s] collect_doc_def [of d])
qed

lemma score_all_docs: "ok s \<Longrightarrow> \<exists>t. score_all nxt collect_doc s [] = Inr (t, rest s)"
  using score_all_from [OF nxt_yields] iter_docs by blast

lemma score_range_splits:
  "ok s \<Longrightarrow> \<exists>r t. score_range_loop nxt collect_doc m (cur s) s c = Some (Inr (r, t, c @ takeWhile (\<lambda>d. d < m) (cur s # rest s))) \<and>
     (r \<longleftrightarrow> dropWhile (\<lambda>d. d < m) (cur s # rest s) \<noteq> [])"
  if "m \<le> NO_MORE_DOCS" "cur s \<noteq> NO_MORE_DOCS"
  using that(2)
proof (induction "rest s" arbitrary: s c)
  case Nil
  from Nil.prems(1) show ?case
    by (cases rule: nxt_cases)
      (use Nil.prems Nil.hyps that(1) in \<open>auto simp: score_range_loop.simps [of nxt _ _ "cur s" s]
        score_range_loop.simps [of nxt _ _ NO_MORE_DOCS] collect_doc_def\<close>)
next
  case (Cons d ds)
  from Cons.prems(1) obtain t where t: "nxt s = Inr (d, t)" "ok t" "ds = rest t" "d \<noteq> NO_MORE_DOCS" "rest s = d # ds" "cur t = d"
    by (cases rule: nxt_cases) (use Cons.hyps(2) in auto)
  then show ?case
    using Cons.hyps(1) [OF t(3,2), of "c @ [cur s]"] Cons.prems
    by (cases "cur s < m") (auto simp: score_range_loop.simps [of nxt _ _ "cur s" s] collect_doc_def)
qed

text \<open>\<^verbatim>\<open>advance\<close> behaves as \<^verbatim>\<open>DocIdSetIterator.h\<close> says it is written.\<close>

lemma advance_as_written:
  "ok s \<Longrightarrow> \<exists>r. advance_loop nxt x s = Some r \<and> yields ok cur rest (dropWhile (\<lambda>d. d < x) (rest s)) r"
  if "x \<le> NO_MORE_DOCS"
proof (induction "rest s" arbitrary: s)
  case Nil
  from Nil.prems show ?case
    by (cases rule: nxt_cases) (use that Nil.hyps in \<open>auto simp: advance_loop.simps [of nxt x s]\<close>)
next
  case (Cons d ds)
  from Cons.prems obtain t where t: "nxt s = Inr (d, t)" "ok t" "ds = rest t" "rest s = d # ds" "cur t = d"
    by (cases rule: nxt_cases) (use Cons.hyps(2) in auto)
  then show ?case using Cons.hyps(1) [OF t(3,2)] by (auto simp: advance_loop.simps [of nxt x s])
qed

end

subsection \<open>FilteredDocIdSetIterator\<close>

record 's filtered_iter =
  fi_inner :: 's
  fi_doc :: int

definition newFilteredDocIdSetIterator :: "'s option \<Rightarrow> 's filtered_iter result" where
  "newFilteredDocIdSetIterator innerIter =
     (case innerIter of None \<Rightarrow> Inl IllegalArgument | Some s \<Rightarrow> Inr \<lparr>fi_inner = s, fi_doc = -1\<rparr>)"

text \<open>The loop \<^verbatim>\<open>while ((doc = innerIter->nextDoc()) != NO_MORE_DOCS)\<close>.\<close>

partial_function (option) fi_scan :: "(int \<Rightarrow> bool) \<Rightarrow> ('s \<Rightarrow> 's step) \<Rightarrow> 's \<Rightarrow> 's filtered_iter step option" where
  "fi_scan match nxt s =
     (case nxt s of Inl e \<Rightarrow> Some (Inl e)
      | Inr (doc, s) \<Rightarrow>
          if doc \<noteq> NO_MORE_DOCS \<and> \<not> match doc then fi_scan match nxt s
          else Some (Inr (doc, \<lparr>fi_inner = s, fi_doc = doc\<rparr>)))"

definition fi_nextDoc :: "(int \<Rightarrow> bool) \<Rightarrow> ('s \<Rightarrow> 's step) \<Rightarrow> 's filtered_iter \<Rightarrow> 's filtered_iter step" where
  "fi_nextDoc match nxt f = returns (fi_scan match nxt (fi_inner f))"

definition fi_advance ::
  "(int \<Rightarrow> bool) \<Rightarrow> ('s \<Rightarrow> 's step) \<Rightarrow> (int \<Rightarrow> 's \<Rightarrow> 's step) \<Rightarrow> int \<Rightarrow> 's filtered_iter \<Rightarrow> 's filtered_iter step" where
  "fi_advance match nxt adv target f =
     bind_r (adv target (fi_inner f)) (\<lambda>(doc, s).
       if doc \<noteq> NO_MORE_DOCS \<and> \<not> match doc then returns (fi_scan match nxt s)
       else Inr (doc, \<lparr>fi_inner = s, fi_doc = doc\<rparr>))"

definition fi_ok :: "('s \<Rightarrow> int) \<Rightarrow> ('s \<Rightarrow> bool) \<Rightarrow> 's filtered_iter \<Rightarrow> bool" where
  "fi_ok cur ok f \<longleftrightarrow> ok (fi_inner f) \<and> fi_doc f = cur (fi_inner f)"

definition fi_rest :: "(int \<Rightarrow> bool) \<Rightarrow> ('s \<Rightarrow> int list) \<Rightarrow> 's filtered_iter \<Rightarrow> int list" where
  "fi_rest match rest f = filter match (rest (fi_inner f))"

subsection \<open>ReqExclScorer\<close>

text \<open>A part that is exhausted is reset to a null pointer, \<open>None\<close>.\<close>

record ('s, 't) req_excl =
  re_req :: "'s option"
  re_excl :: "'t option"
  re_doc :: int

definition newReqExclScorer :: "'s \<Rightarrow> 't \<Rightarrow> ('s, 't) req_excl" where
  "newReqExclScorer reqScorer exclDisi = \<lparr>re_req = Some reqScorer, re_excl = Some exclDisi, re_doc = -1\<rparr>"

text \<open>The body of the loop of \<^verbatim>\<open>toNonExcluded\<close> with the local variables \<^verbatim>\<open>reqDoc\<close> and
  \<^verbatim>\<open>exclDoc\<close>; the result is the document and the two parts.\<close>

partial_function (option) toNonExcluded_loop ::
  "('s \<Rightarrow> 's step) \<Rightarrow> (int \<Rightarrow> 't \<Rightarrow> 't step) \<Rightarrow> int \<Rightarrow> int \<Rightarrow> 's \<Rightarrow> 't \<Rightarrow>
   (int \<times> 's option \<times> 't option) result option" where
  "toNonExcluded_loop nxt eadv reqDoc exclDoc s e =
     (if reqDoc < exclDoc then Some (Inr (reqDoc, Some s, Some e))
      else case (if reqDoc > exclDoc then eadv reqDoc e else Inr (exclDoc, e)) of
        Inl x \<Rightarrow> Some (Inl x)
      | Inr (exclDoc', e) \<Rightarrow>
          if reqDoc > exclDoc \<and> exclDoc' = NO_MORE_DOCS then Some (Inr (reqDoc, Some s, None))
          else if reqDoc > exclDoc \<and> exclDoc' > reqDoc then Some (Inr (reqDoc, Some s, Some e))
          else (case nxt s of Inl x \<Rightarrow> Some (Inl x)
                | Inr (reqDoc, s) \<Rightarrow>
                    if reqDoc \<noteq> NO_MORE_DOCS then toNonExcluded_loop nxt eadv reqDoc exclDoc' s e
                    else Some (Inr (NO_MORE_DOCS, None, Some e))))"

definition toNonExcluded ::
  "('s \<Rightarrow> 's step) \<Rightarrow> ('s \<Rightarrow> int) \<Rightarrow> (int \<Rightarrow> 't \<Rightarrow> 't step) \<Rightarrow> ('t \<Rightarrow> int) \<Rightarrow> 's \<Rightarrow> 't \<Rightarrow> ('s, 't) req_excl step" where
  "toNonExcluded nxt cur eadv ecur s e =
     bind_r (returns (toNonExcluded_loop nxt eadv (cur s) (ecur e) s e))
       (\<lambda>(doc, req, excl). Inr (doc, \<lparr>re_req = req, re_excl = excl, re_doc = doc\<rparr>))"

definition re_nextDoc ::
  "('s \<Rightarrow> 's step) \<Rightarrow> ('s \<Rightarrow> int) \<Rightarrow> (int \<Rightarrow> 't \<Rightarrow> 't step) \<Rightarrow> ('t \<Rightarrow> int) \<Rightarrow> ('s, 't) req_excl \<Rightarrow> ('s, 't) req_excl step" where
  "re_nextDoc nxt cur eadv ecur r =
     (case re_req r of None \<Rightarrow> Inr (re_doc r, r)
      | Some s \<Rightarrow>
          bind_r (nxt s) (\<lambda>(doc, s).
            if doc = NO_MORE_DOCS then Inr (doc, r\<lparr>re_req := None, re_doc := doc\<rparr>)
            else case re_excl r of None \<Rightarrow> Inr (doc, r\<lparr>re_req := Some s, re_doc := doc\<rparr>)
              | Some e \<Rightarrow> toNonExcluded nxt cur eadv ecur s e))"

definition re_advance ::
  "('s \<Rightarrow> 's step) \<Rightarrow> (int \<Rightarrow> 's \<Rightarrow> 's step) \<Rightarrow> ('s \<Rightarrow> int) \<Rightarrow> (int \<Rightarrow> 't \<Rightarrow> 't step) \<Rightarrow> ('t \<Rightarrow> int) \<Rightarrow>
   int \<Rightarrow> ('s, 't) req_excl \<Rightarrow> ('s, 't) req_excl step" where
  "re_advance nxt adv cur eadv ecur target r =
     (case re_req r of None \<Rightarrow> Inr (NO_MORE_DOCS, r\<lparr>re_doc := NO_MORE_DOCS\<rparr>)
      | Some s \<Rightarrow>
          bind_r (adv target s) (\<lambda>(doc, s).
            case re_excl r of None \<Rightarrow> Inr (doc, r\<lparr>re_req := Some s, re_doc := doc\<rparr>)
            | Some e \<Rightarrow>
                if doc = NO_MORE_DOCS then Inr (NO_MORE_DOCS, r\<lparr>re_req := None, re_doc := NO_MORE_DOCS\<rparr>)
                else toNonExcluded nxt cur eadv ecur s e))"

text \<open>The current document of a part and the ones to come; none when the part is a null pointer.\<close>

definition upcoming :: "('t \<Rightarrow> int) \<Rightarrow> ('t \<Rightarrow> int list) \<Rightarrow> 't option \<Rightarrow> int set" where
  "upcoming ecur erest e = (case e of None \<Rightarrow> {} | Some e \<Rightarrow> insert (ecur e) (set (erest e)))"

definition re_ok ::
  "('s \<Rightarrow> int) \<Rightarrow> ('s \<Rightarrow> bool) \<Rightarrow> ('t \<Rightarrow> bool) \<Rightarrow> ('s, 't) req_excl \<Rightarrow> bool" where
  "re_ok cur ok eok r \<longleftrightarrow> (\<exists>s. re_req r = Some s \<and> ok s \<and> re_doc r = cur s) \<and> pred_option eok (re_excl r)"

definition re_rest ::
  "('s \<Rightarrow> int list) \<Rightarrow> ('t \<Rightarrow> int) \<Rightarrow> ('t \<Rightarrow> int list) \<Rightarrow> ('s, 't) req_excl \<Rightarrow> int list" where
  "re_rest rest ecur erest r =
     (case re_req r of None \<Rightarrow> []
      | Some s \<Rightarrow> filter (\<lambda>d. d \<notin> upcoming ecur erest (re_excl r)) (rest s))"

text \<open>The filter is an iterator over the documents that match.\<close>

lemma dropWhile_less_none: "(\<forall>d\<in>set ds. x \<le> d) \<Longrightarrow> dropWhile (\<lambda>d. d < x) ds = ds" for x :: int
  by (cases ds) auto

lemma set_dropWhile_less: "sorted_wrt (<) ds \<Longrightarrow> set (dropWhile (\<lambda>d. d < x) ds) = {d \<in> set ds. x \<le> d}" for x :: int
  by (induction ds) auto

lemma dropWhile_filter_less:
  "sorted_wrt (<) ds \<Longrightarrow> dropWhile (\<lambda>d. d < x) (filter P ds) = filter P (dropWhile (\<lambda>d. d < x) ds)" for x :: int
proof (induction ds)
  case (Cons a ds)
  show ?case
  proof (cases "a < x")
    case False
    then have "\<forall>d\<in>set (a # ds). x \<le> d" using Cons.prems by auto
    then show ?thesis using dropWhile_less_none [of "a # ds" x] dropWhile_less_none [of "filter P (a # ds)" x] by auto
  qed (use Cons in simp)
qed simp

context doc_iter begin

lemma fi_scan_yields:
  "ok s \<Longrightarrow> \<exists>r. fi_scan match nxt s = Some r \<and> yields (fi_ok cur ok) fi_doc (fi_rest match rest) (filter match (rest s)) r"
proof (induction "rest s" arbitrary: s)
  case Nil
  from Nil.prems show ?case
    by (cases rule: nxt_cases) (use Nil.hyps in \<open>auto simp: fi_scan.simps [of match nxt s] fi_rest_def\<close>)
next
  case (Cons d ds)
  from Cons.prems obtain t where t: "nxt s = Inr (d, t)" "ok t" "ds = rest t" "rest s = d # ds" "cur t = d" "d \<noteq> NO_MORE_DOCS"
    by (cases rule: nxt_cases) (use Cons.hyps(2) in auto)
  then show ?case
    using Cons.hyps(1) [OF t(3,2)] by (auto simp: fi_scan.simps [of match nxt s] fi_ok_def fi_rest_def)
qed

lemma fi_nextDoc_yields:
  "fi_ok cur ok f \<Longrightarrow> yields (fi_ok cur ok) fi_doc (fi_rest match rest) (fi_rest match rest f) (fi_nextDoc match nxt f)"
  using fi_scan_yields [of "fi_inner f" match] by (auto simp: fi_ok_def [of cur ok f] fi_rest_def [of match rest f] fi_nextDoc_def)

lemma fi_advance_yields:
  assumes "fi_ok cur ok f" "fi_doc f < x" "x \<le> NO_MORE_DOCS"
  shows "yields (fi_ok cur ok) fi_doc (fi_rest match rest) (dropWhile (\<lambda>d. d < x) (fi_rest match rest f)) (fi_advance match nxt adv x f)"
proof -
  from assms have f: "ok (fi_inner f)" "cur (fi_inner f) < x" by (auto simp: fi_ok_def)
  have d: "dropWhile (\<lambda>d. d < x) (fi_rest match rest f) = filter match (dropWhile (\<lambda>d. d < x) (rest (fi_inner f)))"
    unfolding fi_rest_def using iter_sorted [OF f(1)] by (intro dropWhile_filter_less) simp
  from adv_cases [OF f assms(3)] show ?thesis
  proof cases
    case (2 d t)
    then show ?thesis
      using fi_scan_yields [OF 2(3), of match] unfolding d
      by (auto simp: fi_advance_def fi_ok_def [of cur ok] fi_rest_def)
  qed (unfold d, simp add: fi_advance_def fi_rest_def del: dropWhile_eq_Nil_conv)
qed

end

text \<open>The interface of the filtered iterator follows from the one of its inner iterator.\<close>

locale filtered_docs = doc_iter +
  fixes match :: "int \<Rightarrow> bool"
begin

sublocale filtered: doc_iter "fi_nextDoc match nxt" "fi_advance match nxt adv" fi_doc "fi_ok cur ok" "fi_rest match rest"
proof
  fix f d x
  assume f: "fi_ok cur ok f"
  then have s: "ok (fi_inner f)" "fi_doc f = cur (fi_inner f)" by (auto simp: fi_ok_def)
  show "sorted_wrt (<) (fi_doc f # fi_rest match rest f)"
    using iter_sorted [OF s(1)] by (auto simp: fi_rest_def s(2) sorted_wrt_filter)
  show "d \<in> set (fi_rest match rest f) \<Longrightarrow> 0 \<le> d \<and> d < NO_MORE_DOCS"
    using iter_docs [OF s(1), of d] by (simp add: fi_rest_def)
  show "yields (fi_ok cur ok) fi_doc (fi_rest match rest) (fi_rest match rest f) (fi_nextDoc match nxt f)"
    by (rule fi_nextDoc_yields [OF f])
  show "fi_doc f < x \<Longrightarrow> x \<le> NO_MORE_DOCS \<Longrightarrow>
    yields (fi_ok cur ok) fi_doc (fi_rest match rest) (dropWhile (\<lambda>d. d < x) (fi_rest match rest f)) (fi_advance match nxt adv x f)"
    by (rule fi_advance_yields [OF f])
qed

end

text \<open>The documents of the required part without those of the excluded part. The two parts are
  iterators of their own; the same interface serves \<^verbatim>\<open>ReqOptSumScorer\<close> below.\<close>

locale two_iters =
  req: doc_iter nxt adv cur ok rest + excl: doc_iter enxt eadv ecur eok erest
  for nxt :: "'s \<Rightarrow> 's step" and adv cur ok rest
    and enxt :: "'t \<Rightarrow> 't step" and eadv ecur eok erest
begin

abbreviation kept :: "'t option \<Rightarrow> int list \<Rightarrow> int list" where
  "kept e ds \<equiv> filter (\<lambda>d. d \<notin> upcoming ecur erest e) ds"

lemma upcoming_above:
  assumes "eok e" "ecur e < x" "x \<le> d"
  shows "d \<in> upcoming ecur erest (Some e) \<longleftrightarrow> d \<in> set (dropWhile (\<lambda>d. d < x) (erest e))"
proof -
  have "d \<in> set ds \<longleftrightarrow> d \<in> set (dropWhile (\<lambda>d. d < x) ds)" for ds
    using assms(3) by (induction ds) auto
  then show ?thesis using assms by (auto simp: upcoming_def)
qed

text \<open>One call \<^verbatim>\<open>exclDisi->advance(reqDoc)\<close> from below leaves the later documents as excluded as before.\<close>

lemma excl_advanced:
  assumes "eok e" "ecur e < x" "x < NO_MORE_DOCS"
  obtains e' where "eadv x e = Inr (NO_MORE_DOCS, e')" "\<forall>d\<ge>x. d \<notin> upcoming ecur erest (Some e)"
  | e' where "eadv x e = Inr (ecur e', e')" "eok e'" "x \<le> ecur e'" "ecur e' \<noteq> NO_MORE_DOCS"
      "\<forall>d\<ge>x. d \<in> upcoming ecur erest (Some e) \<longleftrightarrow> d \<in> upcoming ecur erest (Some e')"
proof -
  have x: "x \<le> NO_MORE_DOCS" using assms(3) by simp
  from excl.adv_cases [OF assms(1,2) x] show ?thesis
  proof cases
    case (1 t)
    then show ?thesis using upcoming_above [OF assms(1,2), unfolded 1(2)] that(1) by simp
  next
    case (2 d t)
    then have "\<forall>d\<ge>x. d \<in> upcoming ecur erest (Some e) \<longleftrightarrow> d \<in> upcoming ecur erest (Some t)"
      using upcoming_above [OF assms(1,2)] by (simp add: upcoming_def)
    then show ?thesis using 2 that(2) [of t] by simp
  qed
qed

definition re_result :: "int list \<Rightarrow> int \<times> 's option \<times> 't option \<Rightarrow> bool" where
  "re_result ds = (\<lambda>(doc, req, excl). if ds = [] then doc = NO_MORE_DOCS \<and> req = None
     else \<exists>s. req = Some s \<and> ok s \<and> cur s = doc \<and> doc = hd ds \<and> pred_option eok excl \<and> kept excl (rest s) = tl ds)"

lemma kept_cong: "(\<forall>d\<in>set ds. d \<in> upcoming ecur erest e \<longleftrightarrow> d \<in> upcoming ecur erest e') \<Longrightarrow> kept e ds = kept e' ds"
  by (auto intro: filter_cong)

lemma toNonExcluded_loop_result:
  "ok s \<Longrightarrow> eok e \<Longrightarrow> 0 \<le> cur s \<Longrightarrow> cur s < NO_MORE_DOCS \<Longrightarrow>
   \<exists>p. toNonExcluded_loop nxt eadv (cur s) (ecur e) s e = Some (Inr p) \<and> re_result (kept (Some e) (cur s # rest s)) p"
proof (induction "rest s" arbitrary: s e rule: length_induct)
  case 1
  have sorted: "sorted_wrt (<) (cur s # rest s)" by (rule req.iter_sorted [OF 1(2)])
  have esorted: "sorted_wrt (<) (ecur e # erest e)" by (rule excl.iter_sorted [OF 1(3)])
  note unfold = toNonExcluded_loop.simps [of nxt eadv "cur s" _ s e]
  have step: "\<exists>p. (case nxt s of Inl x \<Rightarrow> Some (Inl x)
      | Inr (reqDoc, t) \<Rightarrow> if reqDoc \<noteq> NO_MORE_DOCS then toNonExcluded_loop nxt eadv reqDoc (cur s) t e'
          else Some (Inr (NO_MORE_DOCS, None, Some e'))) = Some (Inr p) \<and> re_result (kept (Some e) (cur s # rest s)) p"
    if e': "eok e'" "ecur e' = cur s" "cur s \<in> upcoming ecur erest (Some e)"
      "\<forall>d\<ge>cur s. d \<in> upcoming ecur erest (Some e) \<longleftrightarrow> d \<in> upcoming ecur erest (Some e')" for e'
  proof -
    from 1(2) show ?thesis
    proof (cases rule: req.nxt_cases)
      case (2 d t)
      have "kept (Some e) (rest s) = kept (Some e') (rest s)"
        using e'(4) sorted by (intro kept_cong) auto
      then have "kept (Some e) (cur s # rest s) = kept (Some e') (cur t # rest t)" using e'(3) 2 by simp
      then show ?thesis using 1(1) [rule_format, of "rest t" t e'] 2 e'(1,2) by simp
    qed (use e'(3) in \<open>simp add: re_result_def\<close>)
  qed
  consider "cur s < ecur e" | "cur s = ecur e" | "ecur e < cur s" by linarith
  then show ?case
  proof cases
    case 1
    then have "cur s \<notin> upcoming ecur erest (Some e)" using esorted by (auto simp: upcoming_def)
    then show ?thesis using 1 \<open>ok s\<close> \<open>eok e\<close> by (simp add: unfold re_result_def)
  next
    case 2
    then have "cur s \<in> upcoming ecur erest (Some e)" by (simp add: upcoming_def)
    from step [OF \<open>eok e\<close> 2 [symmetric] this] show ?thesis unfolding unfold 2 [symmetric] by simp
  next
    case 3
    from \<open>eok e\<close> 3 \<open>cur s < NO_MORE_DOCS\<close> show ?thesis
    proof (cases rule: excl_advanced)
      case (1 e')
      then have "kept (Some e) (cur s # rest s) = kept None (cur s # rest s)"
        using sorted by (intro kept_cong) (auto simp: upcoming_def [of _ _ None])
      then show ?thesis using 1 3 \<open>ok s\<close> by (simp add: unfold re_result_def upcoming_def [of _ _ None])
    next
      case (2 e')
      show ?thesis
      proof (cases "ecur e' = cur s")
        case True
        then have "cur s \<in> upcoming ecur erest (Some e)" using 2(5) by (simp add: upcoming_def [of _ _ "Some e'"])
        then show ?thesis using step [OF 2(2) True] 2 3 True by (simp add: unfold)
      next
        case False
        then have "cur s \<notin> upcoming ecur erest (Some e')"
          using 2(3) excl.iter_sorted [OF 2(2)] by (auto simp: upcoming_def)
        moreover have "kept (Some e) (cur s # rest s) = kept (Some e') (cur s # rest s)"
          using sorted 2(5) by (intro kept_cong) auto
        ultimately show ?thesis using False 2 3 \<open>ok s\<close> by (simp add: unfold re_result_def)
      qed
    qed
  qed
qed

lemma toNonExcluded_yields:
  assumes "ok s" "eok e" "0 \<le> cur s" "cur s < NO_MORE_DOCS"
  shows "yields (re_ok cur ok eok) re_doc (re_rest rest ecur erest) (kept (Some e) (cur s # rest s)) (toNonExcluded nxt cur eadv ecur s e)"
proof -
  from toNonExcluded_loop_result [OF assms] obtain doc q x where
    r: "toNonExcluded_loop nxt eadv (cur s) (ecur e) s e = Some (Inr (doc, q, x))"
      "re_result (kept (Some e) (cur s # rest s)) (doc, q, x)" by auto
  have eq: "toNonExcluded nxt cur eadv ecur s e = Inr (doc, \<lparr>re_req = q, re_excl = x, re_doc = doc\<rparr>)"
    by (simp add: toNonExcluded_def r(1))
  show ?thesis
  proof (cases "kept (Some e) (cur s # rest s)")
    case Nil
    then show ?thesis using r(2) unfolding eq Nil by (simp add: re_result_def re_rest_def)
  next
    case (Cons d ds)
    then show ?thesis using r(2) unfolding eq Cons by (auto simp: re_result_def re_rest_def re_ok_def)
  qed
qed

lemma re_okE:
  assumes "re_ok cur ok eok r"
  obtains s where "re_req r = Some s" "ok s" "re_doc r = cur s" "pred_option eok (re_excl r)"
    "re_rest rest ecur erest r = kept (re_excl r) (rest s)"
  using assms that by (auto simp: re_ok_def re_rest_def)

lemma kept_None: "kept None ds = ds"
  by (simp add: upcoming_def)

lemma re_next_yields:
  assumes r: "re_req r = Some s" "ok s" "pred_option eok (re_excl r)"
  shows "yields (re_ok cur ok eok) re_doc (re_rest rest ecur erest) (kept (re_excl r) (rest s)) (re_nextDoc nxt cur eadv ecur r)"
proof -
  from r(2) show ?thesis
  proof (cases rule: req.nxt_cases)
    case (2 d t)
    show ?thesis
    proof (cases "re_excl r")
      case None
      then show ?thesis using r 2 by (auto simp: re_nextDoc_def kept_None re_ok_def re_rest_def)
    next
      case (Some e)
      then show ?thesis
        using r 2 toNonExcluded_yields [of t e] by (simp add: re_nextDoc_def)
    qed
  qed (use r in \<open>simp add: re_nextDoc_def re_rest_def\<close>)
qed

lemma re_nextDoc_yields:
  assumes "re_ok cur ok eok r"
  shows "yields (re_ok cur ok eok) re_doc (re_rest rest ecur erest) (re_rest rest ecur erest r) (re_nextDoc nxt cur eadv ecur r)"
  using assms by (rule re_okE) (use re_next_yields in simp)

lemma re_advance_yields:
  assumes "re_ok cur ok eok r" "re_doc r < x" "x \<le> NO_MORE_DOCS"
  shows "yields (re_ok cur ok eok) re_doc (re_rest rest ecur erest) (dropWhile (\<lambda>d. d < x) (re_rest rest ecur erest r))
    (re_advance nxt adv cur eadv ecur x r)"
  using assms(1)
proof (cases rule: re_okE)
  case (1 s)
  note r = 1
  have x: "cur s < x" using assms(2) r(3) by simp
  have d: "dropWhile (\<lambda>d. d < x) (re_rest rest ecur erest r) = kept (re_excl r) (dropWhile (\<lambda>d. d < x) (rest s))"
    unfolding r(5) using req.iter_sorted [OF r(2)] by (intro dropWhile_filter_less) simp
  from r(2) x assms(3) show ?thesis
  proof (cases rule: req.adv_cases)
    case (1 t)
    then show ?thesis unfolding d 1(2)
      using r by (cases "re_excl r") (simp_all add: re_advance_def re_rest_def)
  next
    case (2 d' t)
    have "0 \<le> d'" using req.iter_docs [OF r(2), of d'] set_dropWhileD [of d' "\<lambda>d. d < x" "rest s"] 2(2) by auto
    then show ?thesis unfolding d 2(2)
      using r 2 toNonExcluded_yields [of t]
      by (cases "re_excl r") (auto simp: re_advance_def kept_None re_ok_def re_rest_def upcoming_def [of _ _ None])
  qed
qed

sublocale difference: doc_iter "re_nextDoc nxt cur eadv ecur" "re_advance nxt adv cur eadv ecur" re_doc "re_ok cur ok eok"
  "re_rest rest ecur erest"
proof
  fix r d x
  assume r: "re_ok cur ok eok r"
  then obtain s where s: "ok s" "re_doc r = cur s" "re_rest rest ecur erest r = kept (re_excl r) (rest s)"
    by (rule re_okE)
  show "sorted_wrt (<) (re_doc r # re_rest rest ecur erest r)"
    using req.iter_sorted [OF s(1)] by (auto simp: s(2,3) sorted_wrt_filter)
  show "d \<in> set (re_rest rest ecur erest r) \<Longrightarrow> 0 \<le> d \<and> d < NO_MORE_DOCS"
    using req.iter_docs [OF s(1), of d] by (simp add: s(3))
  show "yields (re_ok cur ok eok) re_doc (re_rest rest ecur erest) (re_rest rest ecur erest r) (re_nextDoc nxt cur eadv ecur r)"
    by (rule re_nextDoc_yields [OF r])
  show "re_doc r < x \<Longrightarrow> x \<le> NO_MORE_DOCS \<Longrightarrow> yields (re_ok cur ok eok) re_doc (re_rest rest ecur erest)
    (dropWhile (\<lambda>d. d < x) (re_rest rest ecur erest r)) (re_advance nxt adv cur eadv ecur x r)"
    by (rule re_advance_yields [OF r])
qed

end

subsection \<open>ReqOptSumScorer\<close>

record ('s, 't) req_opt =
  ro_req :: 's
  ro_opt :: "'t option"

definition newReqOptSumScorer :: "'s \<Rightarrow> 't option \<Rightarrow> ('s, 't) req_opt" where
  "newReqOptSumScorer reqScorer optScorer = \<lparr>ro_req = reqScorer, ro_opt = optScorer\<rparr>"

definition ro_nextDoc :: "('s \<Rightarrow> 's step) \<Rightarrow> ('s, 't) req_opt \<Rightarrow> ('s, 't) req_opt step" where
  "ro_nextDoc nxt r = bind_r (nxt (ro_req r)) (\<lambda>(doc, s). Inr (doc, r\<lparr>ro_req := s\<rparr>))"

definition ro_advance :: "(int \<Rightarrow> 's \<Rightarrow> 's step) \<Rightarrow> int \<Rightarrow> ('s, 't) req_opt \<Rightarrow> ('s, 't) req_opt step" where
  "ro_advance adv target r = bind_r (adv target (ro_req r)) (\<lambda>(doc, s). Inr (doc, r\<lparr>ro_req := s\<rparr>))"

definition ro_docID :: "('s \<Rightarrow> int) \<Rightarrow> ('s, 't) req_opt \<Rightarrow> int" where
  "ro_docID cur r = cur (ro_req r)"

definition ro_score ::
  "('s \<Rightarrow> int) \<Rightarrow> ('s \<Rightarrow> 'v::plus) \<Rightarrow> (int \<Rightarrow> 't \<Rightarrow> 't step) \<Rightarrow> ('t \<Rightarrow> int) \<Rightarrow> ('t \<Rightarrow> 'v) \<Rightarrow>
   ('s, 't) req_opt \<Rightarrow> ('v \<times> ('s, 't) req_opt) result" where
  "ro_score cur scr eadv ecur escr r =
     (let curDoc = cur (ro_req r); reqScore = scr (ro_req r) in
      case ro_opt r of None \<Rightarrow> Inr (reqScore, r)
      | Some e \<Rightarrow>
          bind_r (if ecur e < curDoc then eadv curDoc e else Inr (ecur e, e)) (\<lambda>(optScorerDoc, e').
            if ecur e < curDoc \<and> optScorerDoc = NO_MORE_DOCS then Inr (reqScore, r\<lparr>ro_opt := None\<rparr>)
            else Inr (if optScorerDoc = curDoc then reqScore + escr e' else reqScore, r\<lparr>ro_opt := Some e'\<rparr>)))"

text \<open>What a caller does with it: next documents, jumps ahead, and the score of the current
  document, asked for any number of times or not at all.\<close>

inductive ro_reach ::
  "('s \<Rightarrow> 's step) \<Rightarrow> (int \<Rightarrow> 's \<Rightarrow> 's step) \<Rightarrow> ('s \<Rightarrow> int) \<Rightarrow> ('s \<Rightarrow> 'v::plus) \<Rightarrow> (int \<Rightarrow> 't \<Rightarrow> 't step) \<Rightarrow> ('t \<Rightarrow> int) \<Rightarrow> ('t \<Rightarrow> 'v) \<Rightarrow>
   ('s, 't) req_opt \<Rightarrow> ('s, 't) req_opt \<Rightarrow> bool" for nxt adv cur scr eadv ecur escr r0 where
  new: "ro_reach nxt adv cur scr eadv ecur escr r0 r0"
| next_doc: "ro_reach nxt adv cur scr eadv ecur escr r0 r \<Longrightarrow> ro_nextDoc nxt r = Inr (doc, r') \<Longrightarrow> doc \<noteq> NO_MORE_DOCS \<Longrightarrow>
    ro_reach nxt adv cur scr eadv ecur escr r0 r'"
| jump: "ro_reach nxt adv cur scr eadv ecur escr r0 r \<Longrightarrow> ro_docID cur r < x \<Longrightarrow> x \<le> NO_MORE_DOCS \<Longrightarrow>
    ro_advance adv x r = Inr (doc, r') \<Longrightarrow> doc \<noteq> NO_MORE_DOCS \<Longrightarrow> ro_reach nxt adv cur scr eadv ecur escr r0 r'"
| get_score: "ro_reach nxt adv cur scr eadv ecur escr r0 r \<Longrightarrow> 0 \<le> ro_docID cur r \<Longrightarrow>
    ro_score cur scr eadv ecur escr r = Inr (v, r') \<Longrightarrow> ro_reach nxt adv cur scr eadv ecur escr r0 r'"

context two_iters begin

definition ro_inv :: "int set \<Rightarrow> ('s, 't) req_opt \<Rightarrow> bool" where
  "ro_inv docs r \<longleftrightarrow> ok (ro_req r) \<and> cur (ro_req r) < NO_MORE_DOCS \<and> pred_option eok (ro_opt r) \<and>
     (\<forall>d\<ge>max 0 (cur (ro_req r)). d \<in> upcoming ecur erest (ro_opt r) \<longleftrightarrow> d \<in> docs)"

lemma ro_score_inv:
  assumes "ro_inv docs r" "0 \<le> ro_docID cur r"
  shows "\<exists>v r' e. ro_score cur scr eadv ecur escr r = Inr (v, r') \<and> ro_inv docs r' \<and> ro_req r' = ro_req r \<and>
    (if ro_docID cur r \<in> docs then ro_opt r' = Some e \<and> ecur e = ro_docID cur r \<and> v = scr (ro_req r) + escr e
     else v = scr (ro_req r))"
proof (cases "ro_opt r")
  case None
  then show ?thesis using assms by (auto simp: ro_score_def ro_inv_def ro_docID_def upcoming_def)
next
  case (Some e)
  let ?x = "cur (ro_req r)"
  have i: "eok e" "?x < NO_MORE_DOCS" "0 \<le> ?x" "\<forall>d\<ge>?x. d \<in> upcoming ecur erest (Some e) \<longleftrightarrow> d \<in> docs"
    using assms Some by (auto simp: ro_inv_def ro_docID_def max_def split: if_splits)
  show ?thesis
  proof (cases "ecur e < ?x")
    case False
    have "?x \<in> docs \<longleftrightarrow> ecur e = ?x"
      using i(4) False excl.iter_sorted [OF i(1)] by (auto simp: upcoming_def)
    moreover have "ro_inv docs (r\<lparr>ro_opt := Some e\<rparr>)" using assms(1) Some by (simp add: ro_inv_def)
    ultimately show ?thesis using assms Some False by (auto simp: ro_score_def ro_docID_def)
  next
    case True
    from i(1) True i(2) show ?thesis
    proof (cases rule: excl_advanced)
      case (1 e')
      then show ?thesis using assms(1) Some True i by (auto simp: ro_score_def ro_docID_def ro_inv_def upcoming_def [of _ _ None])
    next
      case (2 e')
      have "?x \<in> docs \<longleftrightarrow> ecur e' = ?x"
        using i(4) [rule_format, of ?x] 2(3) 2(5) [rule_format, of ?x] excl.iter_sorted [OF 2(2)]
        by (auto simp: upcoming_def [of _ _ "Some e'"])
      then show ?thesis using assms(1) Some True i 2 by (auto simp: ro_score_def ro_docID_def ro_inv_def)
    qed
  qed
qed

lemma ro_reach_inv:
  assumes "ro_reach nxt adv cur scr eadv ecur escr r0 r" "ok (ro_req r0)" "cur (ro_req r0) = -1" "pred_option eok (ro_opt r0)"
    "upcoming ecur erest (ro_opt r0) - {-1} = docs"
  shows "ro_inv docs r"
  using assms(1)
proof induction
  case new
  then show ?case using assms(2-5) by (auto simp: ro_inv_def NO_MORE_DOCS_def)
next
  case (next_doc r doc r')
  then have "ok (ro_req r)" by (simp add: ro_inv_def)
  then show ?case
    by (cases rule: req.nxt_cases) (use next_doc in \<open>auto simp: ro_nextDoc_def ro_inv_def\<close>)
next
  case (jump r x doc r')
  then have "ok (ro_req r)" "cur (ro_req r) < x" "x \<le> NO_MORE_DOCS" by (simp_all add: ro_inv_def ro_docID_def)
  then show ?case
    by (cases rule: req.adv_cases) (use jump in \<open>auto simp: ro_advance_def ro_inv_def\<close>)
next
  case (get_score r v r')
  then show ?case using ro_score_inv [OF get_score.IH get_score.hyps(2), of scr escr] by auto
qed

end

end
