(* ===== verification/ConjunctionScorer.thy ===== *)
theory ConjunctionScorer imports DocIterators begin

text \<open>
  \<^verbatim>\<open>search/ConjunctionScorer.cpp\<close>: the documents that all of several iterators return. The
  loop of \<^verbatim>\<open>doNext\<close> runs around the array of parts; its invariant is that the documents of the
  parts rise along the \<open>ring\<close> that starts at the part it looks at, which the constructor
  establishes by sorting and every later call by moving only the last part.
\<close>

subsection \<open>ConjunctionScorer\<close>

record 's conjunction =
  cj_scorers :: "'s list"
  cj_lastDoc :: int

text \<open>The loop of \<^verbatim>\<open>doNext\<close>: \<open>first\<close> runs around the array.\<close>

partial_function (option) cj_doNext_loop ::
  "(int \<Rightarrow> 's \<Rightarrow> 's step) \<Rightarrow> ('s \<Rightarrow> int) \<Rightarrow> nat \<Rightarrow> int \<Rightarrow> 's list \<Rightarrow> 's list step option" where
  "cj_doNext_loop adv cur first doc scs =
     (case arr_get scs first of Inl x \<Rightarrow> Some (Inl x)
      | Inr s \<Rightarrow>
          if cur s < doc then
            (case adv doc s of Inl x \<Rightarrow> Some (Inl x)
             | Inr (doc, s) \<Rightarrow>
                 cj_doNext_loop adv cur (if first = length scs - 1 then 0 else first + 1) doc (scs[first := s]))
          else Some (Inr (doc, scs)))"

definition cj_doNext :: "(int \<Rightarrow> 's \<Rightarrow> 's step) \<Rightarrow> ('s \<Rightarrow> int) \<Rightarrow> 's list \<Rightarrow> 's list step" where
  "cj_doNext adv cur scs =
     bind_r (arr_get scs (length scs - 1)) (\<lambda>s. returns (cj_doNext_loop adv cur 0 (cur s) scs))"

text \<open>The constructor: the first document of every part (\<open>False\<close> when one has none), the sort, the
  first agreement, and the swaps that reverse all but the last part. \<^verbatim>\<open>std::sort\<close> promises no
  order of parts on the same document; the model takes the stable one, and nothing proved below
  depends on it.\<close>

fun cj_first :: "('s \<Rightarrow> 's step) \<Rightarrow> 's list \<Rightarrow> (bool \<times> 's list) result" where
  "cj_first nxt [] = Inr (True, [])"
| "cj_first nxt (s # ss) =
     bind_r (nxt s) (\<lambda>(doc, s).
       if doc = NO_MORE_DOCS then Inr (False, s # ss)
       else bind_r (cj_first nxt ss) (\<lambda>(more, ss). Inr (more, s # ss)))"

definition cj_swap :: "nat \<Rightarrow> nat \<Rightarrow> 's list \<Rightarrow> 's list" where
  "cj_swap e i scs = (let tmp = scs ! i; idx = e - i - 1 in scs[i := scs ! idx, idx := tmp])"

definition cj_reverse :: "'s list \<Rightarrow> 's list" where
  "cj_reverse scs = fold (cj_swap (length scs - 1)) [0..<(length scs - 1) div 2] scs"

definition newConjunctionScorer ::
  "('s \<Rightarrow> 's step) \<Rightarrow> (int \<Rightarrow> 's \<Rightarrow> 's step) \<Rightarrow> ('s \<Rightarrow> int) \<Rightarrow> 's list \<Rightarrow> 's conjunction result" where
  "newConjunctionScorer nxt adv cur scs =
     bind_r (cj_first nxt scs) (\<lambda>(more, scs).
       if \<not> more then Inr \<lparr>cj_scorers = scs, cj_lastDoc = NO_MORE_DOCS\<rparr>
       else bind_r (cj_doNext adv cur (sort_key cur scs)) (\<lambda>(doc, scs).
         if doc = NO_MORE_DOCS then Inr \<lparr>cj_scorers = scs, cj_lastDoc = NO_MORE_DOCS\<rparr>
         else Inr \<lparr>cj_scorers = cj_reverse scs, cj_lastDoc = -1\<rparr>))"

definition cj_agree :: "(int \<Rightarrow> 's \<Rightarrow> 's step) \<Rightarrow> ('s \<Rightarrow> int) \<Rightarrow> 's list \<Rightarrow> 's conjunction step" where
  "cj_agree adv cur scs =
     bind_r (cj_doNext adv cur scs) (\<lambda>(doc, scs). Inr (doc, \<lparr>cj_scorers = scs, cj_lastDoc = doc\<rparr>))"

definition cj_nextDoc ::
  "('s \<Rightarrow> 's step) \<Rightarrow> (int \<Rightarrow> 's \<Rightarrow> 's step) \<Rightarrow> ('s \<Rightarrow> int) \<Rightarrow> 's conjunction \<Rightarrow> 's conjunction step" where
  "cj_nextDoc nxt adv cur c =
     (let scs = cj_scorers c; n = length scs - 1 in
      if cj_lastDoc c = NO_MORE_DOCS then Inr (cj_lastDoc c, c)
      else bind_r (arr_get scs n) (\<lambda>s.
        if cj_lastDoc c = -1 then Inr (cur s, c\<lparr>cj_lastDoc := cur s\<rparr>)
        else bind_r (nxt s) (\<lambda>(_, s). cj_agree adv cur (scs[n := s]))))"

definition cj_advance ::
  "(int \<Rightarrow> 's \<Rightarrow> 's step) \<Rightarrow> ('s \<Rightarrow> int) \<Rightarrow> int \<Rightarrow> 's conjunction \<Rightarrow> 's conjunction step" where
  "cj_advance adv cur target c =
     (let scs = cj_scorers c; n = length scs - 1 in
      if cj_lastDoc c = NO_MORE_DOCS then Inr (cj_lastDoc c, c)
      else bind_r (arr_get scs n) (\<lambda>s.
        if cur s < target then bind_r (adv target s) (\<lambda>(_, s). cj_agree adv cur (scs[n := s]))
        else cj_agree adv cur scs))"

text \<open>\<^verbatim>\<open>score\<close>, over the scores of the parts and the coordination factor of the similarity.\<close>

definition cj_score :: "('s \<Rightarrow> 'v::semiring_0) \<Rightarrow> 'v \<Rightarrow> 's conjunction \<Rightarrow> 'v" where
  "cj_score scr coord c = fold (\<lambda>s sum. sum + scr s) (cj_scorers c) 0 * coord"

text \<open>A part that stands on a document or is exhausted, and the documents it has not passed.\<close>

definition positioned :: "('s \<Rightarrow> int) \<Rightarrow> ('s \<Rightarrow> bool) \<Rightarrow> ('s \<Rightarrow> int list) \<Rightarrow> 's \<Rightarrow> bool" where
  "positioned cur ok rest s \<longleftrightarrow>
     ok s \<and> 0 \<le> cur s \<and> cur s < NO_MORE_DOCS \<or> cur s = NO_MORE_DOCS \<and> rest s = []"

definition ahead :: "('s \<Rightarrow> int) \<Rightarrow> ('s \<Rightarrow> int list) \<Rightarrow> 's \<Rightarrow> int list" where
  "ahead cur rest s = (if cur s = NO_MORE_DOCS then [] else cur s # rest s)"

definition common :: "('s \<Rightarrow> int) \<Rightarrow> ('s \<Rightarrow> int list) \<Rightarrow> 's list \<Rightarrow> int set" where
  "common cur rest scs = (\<Inter>s\<in>set scs. set (ahead cur rest s))"

definition cj_ok :: "('s \<Rightarrow> int) \<Rightarrow> ('s \<Rightarrow> bool) \<Rightarrow> ('s \<Rightarrow> int list) \<Rightarrow> 's conjunction \<Rightarrow> bool" where
  "cj_ok cur ok rest c \<longleftrightarrow> cj_lastDoc c = NO_MORE_DOCS \<or>
     cj_scorers c \<noteq> [] \<and>
     (\<exists>D < NO_MORE_DOCS. (\<forall>s\<in>set (cj_scorers c). positioned cur ok rest s \<and> cur s = D) \<and>
       (cj_lastDoc c = -1 \<or> cj_lastDoc c = D))"

definition cj_rest :: "('s \<Rightarrow> int) \<Rightarrow> ('s \<Rightarrow> int list) \<Rightarrow> 's conjunction \<Rightarrow> int list" where
  "cj_rest cur rest c = (if cj_lastDoc c = NO_MORE_DOCS then []
     else sorted_list_of_set (common cur rest (cj_scorers c) - {cj_lastDoc c}))"

definition ring :: "nat \<Rightarrow> 's list \<Rightarrow> 's list" where
  "ring first scs = drop first scs @ take first scs"

lemma set_ring [simp]: "set (ring first scs) = set scs"
  unfolding ring_def by (metis append_take_drop_id set_append sup_commute)

lemma ring_not_Nil [simp]: "ring first scs = [] \<longleftrightarrow> scs = []"
  by (auto simp: ring_def)

lemma ring_step:
  assumes "first < length scs"
  shows "ring (if first = length scs - 1 then 0 else first + 1) (scs[first := t]) = tl (ring first scs) @ [t]"
    and "hd (ring first scs) = scs ! first"
proof -
  have r: "ring first scs = scs ! first # drop (Suc first) scs @ take first scs"
    using Cons_nth_drop_Suc [OF assms] by (simp add: ring_def flip: append_Cons)
  then show "hd (ring first scs) = scs ! first" by simp
  have t: "take (Suc first) (scs[first := t]) = take first scs @ [t]"
    using assms by (simp add: take_Suc_conv_app_nth)
  show "ring (if first = length scs - 1 then 0 else first + 1) (scs[first := t]) = tl (ring first scs) @ [t]"
  proof (cases "Suc first = length scs")
    case True
    then have "(if first = length scs - 1 then 0 else first + 1) = 0" by auto
    then show ?thesis using t True unfolding r by (simp add: ring_def)
  next
    case False
    then have "(if first = length scs - 1 then 0 else first + 1) = Suc first" using assms by auto
    then show ?thesis using t unfolding r by (simp add: ring_def)
  qed
qed

lemma sorted_map_agree: "\<forall>s\<in>set ss. f s = D \<Longrightarrow> sorted (map f ss)" for D :: int
  by (induction ss) auto

lemma sorted_list_of_set_least:
  fixes d :: int
  assumes "finite B" "\<forall>b\<in>B. d < b"
  shows "sorted_list_of_set (insert d B) = d # sorted_list_of_set B"
proof -
  have "d \<notin> B" using assms(2) by auto
  then show ?thesis using assms by (simp add: insort_is_Cons less_imp_le)
qed

lemma dropWhile_sorted_list_of_set:
  fixes x :: int
  assumes "finite A"
  shows "dropWhile (\<lambda>d. d < x) (sorted_list_of_set A) = sorted_list_of_set {a \<in> A. x \<le> a}"
proof (rule strict_sorted_equal)
  have s: "sorted_wrt (<) (sorted_list_of_set A)" by simp
  show "sorted_wrt (<) (dropWhile (\<lambda>d. d < x) (sorted_list_of_set A))"
    using s sorted_wrt_append [of "(<)" "takeWhile (\<lambda>d. d < x) (sorted_list_of_set A)" "dropWhile (\<lambda>d. d < x) (sorted_list_of_set A)"]
    by simp
  show "set (dropWhile (\<lambda>d. d < x) (sorted_list_of_set A)) = set (sorted_list_of_set {a \<in> A. x \<le> a})"
    using assms set_dropWhile_less [OF s, of x] by simp
qed simp

context doc_iter begin

abbreviation pos where "pos \<equiv> positioned cur ok rest"
abbreviation ahd where "ahd \<equiv> ahead cur rest"
abbreviation com where "com \<equiv> common cur rest"

lemma ahead_sorted: "pos s \<Longrightarrow> sorted_wrt (<) (ahd s) \<and> (\<forall>d\<in>set (ahd s). cur s \<le> d \<and> 0 \<le> d \<and> d < NO_MORE_DOCS)"
  using iter_sorted [of s] iter_docs [of s] by (auto simp: positioned_def ahead_def intro: less_imp_le)

lemma pos_nxt:
  assumes "ok s" "cur s < NO_MORE_DOCS"
  shows "\<exists>t. nxt s = Inr (cur t, t) \<and> pos t \<and> cur s < cur t \<and> ahd t = rest s"
  using assms(1) by (cases rule: nxt_cases) (use assms(2) in \<open>auto simp: positioned_def ahead_def\<close>)

lemma pos_adv:
  assumes "pos s" "cur s < x" "x \<le> NO_MORE_DOCS"
  shows "\<exists>t. adv x s = Inr (cur t, t) \<and> pos t \<and> x \<le> cur t \<and> ahd t = dropWhile (\<lambda>d. d < x) (ahd s)"
proof -
  have s: "ok s" "0 \<le> cur s" "ahd s = cur s # rest s" using assms by (auto simp: positioned_def ahead_def)
  from s(1) assms(2,3) show ?thesis
  proof (cases rule: adv_cases)
    case (1 t)
    then show ?thesis using assms(2,3) unfolding s(3) by (auto simp: positioned_def ahead_def simp del: dropWhile_eq_Nil_conv)
  next
    case (2 d t)
    then show ?thesis using s(2) assms(2) unfolding s(3) by (auto simp: positioned_def ahead_def)
  qed
qed

text \<open>Replacing a part that lags behind another by itself advanced loses no common document.\<close>

lemma common_advance:
  assumes "pos s" "r \<in> A" "\<forall>d\<in>set (ahd r). x \<le> d" "ahd t = dropWhile (\<lambda>d. d < x) (ahd s)"
  shows "(\<Inter>s\<in>insert t A. set (ahd s)) = (\<Inter>s\<in>insert s A. set (ahd s))"
proof -
  have "set (ahd t) = {d \<in> set (ahd s). x \<le> d}"
    unfolding assms(4) using ahead_sorted [OF assms(1)] by (intro set_dropWhile_less) simp
  then show ?thesis using assms(2,3) by auto
qed

lemma doNext_loop_agrees:
  "scs \<noteq> [] \<Longrightarrow> first < length scs \<Longrightarrow> \<forall>s\<in>set scs. pos s \<Longrightarrow> sorted (map cur (ring first scs)) \<Longrightarrow>
   doc = cur (last (ring first scs)) \<Longrightarrow>
   \<exists>D scs'. cj_doNext_loop adv cur first doc scs = Some (Inr (D, scs')) \<and> length scs' = length scs \<and>
     (\<forall>s\<in>set scs'. pos s \<and> cur s = D) \<and> com scs' = com scs"
proof (induction "sum_list (map (\<lambda>s. length (ahd s)) (ring first scs))" arbitrary: first doc scs rule: less_induct)
  case less
  define s rs where "s = scs ! first" and "rs = tl (ring first scs)"
  have ring: "ring first scs = s # rs" and s: "s \<in> set scs"
    using ring_step(2) [OF less(3)] less(2,3) list.collapse [of "ring first scs"] by (simp_all add: s_def rs_def)
  have set_scs: "set scs = insert s (set rs)" using set_ring [of first scs] ring by simp
  have doc: "\<forall>r\<in>set scs. cur r \<le> doc"
    using less(5,6) unfolding set_ring [of first scs, symmetric]
    by (cases "ring first scs" rule: rev_cases) (auto simp: sorted_append)
  note unfold = cj_doNext_loop.simps [of adv cur first doc scs]
  show ?case
  proof (cases "cur s < doc")
    case False
    then have "cur s = doc" using doc s by force
    then have "\<forall>r\<in>set scs. cur r = doc" using less(5) doc unfolding ring by (auto simp: set_scs intro: antisym)
    then show ?thesis using False less(3,4) unfolding unfold by (auto simp: s_def)
  next
    case True
    have rs: "rs \<noteq> []" "doc = cur (last rs)" using True less(6) unfolding ring by (auto split: if_splits)
    then have last: "last rs \<in> set rs" "pos (last rs)" using less(4) by (auto simp: set_scs)
    have max: "doc \<le> NO_MORE_DOCS" using last(2) rs(2) by (auto simp: positioned_def)
    obtain t where t: "adv doc s = Inr (cur t, t)" "pos t" "doc \<le> cur t" "ahd t = dropWhile (\<lambda>d. d < doc) (ahd s)"
      using pos_adv [OF _ True max] less(4) s by blast
    let ?first = "if first = length scs - 1 then 0 else first + 1"
    have ring': "ring ?first (scs[first := t]) = rs @ [t]"
      using ring_step(1) [OF less(3), of t] by (simp add: rs_def)
    have set': "set (scs[first := t]) = insert t (set rs)"
      using set_ring [of ?first "scs[first := t]"] unfolding ring' by simp
    have "ahd s = cur s # rest s" using True max by (simp add: ahead_def)
    then have shorter: "length (ahd t) < length (ahd s)"
      using True length_dropWhile_le [of "\<lambda>d. d < doc" "rest s"] by (simp add: t(4) le_imp_less_Suc)
    have com: "com (scs[first := t]) = com scs"
      unfolding common_def set' set_scs using less(4) s last ahead_sorted [OF last(2)] rs(2)
      by (intro common_advance [of s "last rs" _ doc] t(4)) auto
    have "\<exists>D scs'. cj_doNext_loop adv cur ?first (cur t) (scs[first := t]) = Some (Inr (D, scs')) \<and>
        length scs' = length (scs[first := t]) \<and> (\<forall>s\<in>set scs'. pos s \<and> cur s = D) \<and> com scs' = com (scs[first := t])"
    proof (rule less(1))
      show "sum_list (map (\<lambda>s. length (ahd s)) (ring ?first (scs[first := t]))) < sum_list (map (\<lambda>s. length (ahd s)) (ring first scs))"
        unfolding ring' ring using shorter by simp
      show "sorted (map cur (ring ?first (scs[first := t])))"
        unfolding ring' using less(5) doc t(3) unfolding ring by (force simp: sorted_append set_scs)
      show "\<forall>s\<in>set (scs[first := t]). pos s" using less(4) t(2) unfolding set' by (simp add: set_scs)
    qed (use less(2,3) ring' in auto)
    then show ?thesis using True less(3) unfolding unfold by (simp add: com t(1) flip: s_def)
  qed
qed

lemma doNext_agrees:
  assumes "scs \<noteq> []" "\<forall>s\<in>set scs. pos s" "sorted (map cur scs)"
  shows "\<exists>D scs'. cj_doNext adv cur scs = Inr (D, scs') \<and> length scs' = length scs \<and>
     (\<forall>s\<in>set scs'. pos s \<and> cur s = D) \<and> com scs' = com scs"
proof -
  have "\<exists>D scs'. cj_doNext_loop adv cur 0 (cur (last scs)) scs = Some (Inr (D, scs')) \<and> length scs' = length scs \<and>
     (\<forall>s\<in>set scs'. pos s \<and> cur s = D) \<and> com scs' = com scs"
    by (rule doNext_loop_agrees) (use assms in \<open>simp_all add: ring_def\<close>)
  then show ?thesis using assms(1) by (auto simp: cj_doNext_def last_conv_nth)
qed

lemma agreed_common:
  assumes "scs \<noteq> []" "\<forall>s\<in>set scs. pos s \<and> cur s = D"
  shows "finite (com scs)" "D = NO_MORE_DOCS \<Longrightarrow> com scs = {}"
    "D \<noteq> NO_MORE_DOCS \<Longrightarrow> 0 \<le> D \<and> D < NO_MORE_DOCS \<and> D \<in> com scs \<and> (\<forall>d\<in>com scs. D \<le> d \<and> d < NO_MORE_DOCS)"
proof -
  obtain s where s: "s \<in> set scs" using assms(1) by (cases scs) auto
  then have sub: "com scs \<subseteq> set (ahd s)" by (auto simp: common_def)
  then show "finite (com scs)" by (rule finite_subset) simp
  show "D = NO_MORE_DOCS \<Longrightarrow> com scs = {}" using sub assms(2) s by (auto simp: ahead_def)
  assume D: "D \<noteq> NO_MORE_DOCS"
  then have "0 \<le> D" "D < NO_MORE_DOCS" using assms(2) s by (auto simp: positioned_def)
  moreover have "D \<in> com scs" using assms(2) D by (auto simp: common_def ahead_def)
  ultimately show "0 \<le> D \<and> D < NO_MORE_DOCS \<and> D \<in> com scs \<and> (\<forall>d\<in>com scs. D \<le> d \<and> d < NO_MORE_DOCS)"
    using sub ahead_sorted [of s] assms(2) s by (metis subsetD)
qed

lemma agreed_least:
  assumes "scs \<noteq> []" "\<forall>s\<in>set scs. pos s \<and> cur s = D" "D \<noteq> NO_MORE_DOCS"
  shows "sorted_list_of_set (com scs) = D # sorted_list_of_set (com scs - {D})"
proof -
  note c = agreed_common(1) [OF assms(1,2)] agreed_common(3) [OF assms]
  then have "com scs = insert D (com scs - {D})" by auto
  moreover have "sorted_list_of_set (insert D (com scs - {D})) = D # sorted_list_of_set (com scs - {D})"
    using c by (intro sorted_list_of_set_least) (auto simp: order_less_le)
  ultimately show ?thesis by simp
qed

lemma cj_agree_yields:
  assumes "scs \<noteq> []" "\<forall>s\<in>set scs. pos s" "sorted (map cur scs)"
  shows "yields (cj_ok cur ok rest) cj_lastDoc (cj_rest cur rest) (sorted_list_of_set (com scs)) (cj_agree adv cur scs)"
proof -
  obtain D scs' where r: "cj_doNext adv cur scs = Inr (D, scs')" "length scs' = length scs"
    "\<forall>s\<in>set scs'. pos s \<and> cur s = D" "com scs = com scs'"
    using doNext_agrees [OF assms] by metis
  then have ne: "scs' \<noteq> []" using assms(1) by auto
  show ?thesis
  proof (cases "D = NO_MORE_DOCS")
    case True
    then show ?thesis using agreed_common(2) [OF ne r(3)] by (simp add: r(4) cj_agree_def r(1) cj_rest_def)
  next
    case False
    then have "D < NO_MORE_DOCS" using agreed_common(3) [OF ne r(3)] by blast
    then show ?thesis using ne r(3) False unfolding r(4) agreed_least [OF ne r(3) False]
      by (auto simp: cj_agree_def r(1) cj_rest_def cj_ok_def)
  qed
qed

lemma cj_okE:
  assumes "cj_ok cur ok rest c"
  obtains "cj_lastDoc c = NO_MORE_DOCS" "cj_rest cur rest c = []"
  | D scs l where "cj_scorers c = scs @ [l]" "\<forall>s\<in>set (scs @ [l]). pos s \<and> cur s = D" "D < NO_MORE_DOCS" "0 \<le> D"
      "cj_lastDoc c = -1 \<or> cj_lastDoc c = D" "ok l" "ahd l = D # rest l"
      "cj_rest cur rest c = sorted_list_of_set (com (scs @ [l]) - {cj_lastDoc c})"
proof (cases "cj_lastDoc c = NO_MORE_DOCS")
  case False
  then obtain D where D: "cj_scorers c \<noteq> []" "D < NO_MORE_DOCS" "\<forall>s\<in>set (cj_scorers c). pos s \<and> cur s = D"
    "cj_lastDoc c = -1 \<or> cj_lastDoc c = D" using assms by (auto simp: cj_ok_def)
  then obtain scs l where l: "cj_scorers c = scs @ [l]" by (cases "cj_scorers c" rule: rev_cases) auto
  with D have "pos l" "cur l = D" by auto
  then have "ok l" "0 \<le> D" "ahd l = D # rest l" using D(2) by (auto simp: positioned_def ahead_def)
  with D l False show ?thesis by (intro that(2) [of scs l D]) (auto simp: cj_rest_def)
qed (use that(1) in \<open>simp add: cj_rest_def\<close>)

lemma cj_nextDoc_yields:
  assumes "cj_ok cur ok rest c"
  shows "yields (cj_ok cur ok rest) cj_lastDoc (cj_rest cur rest) (cj_rest cur rest c) (cj_nextDoc nxt adv cur c)"
  using assms
proof (cases rule: cj_okE)
  case (2 D scs l)
  note c = agreed_common(3) [OF _ 2(2)] agreed_common(1) [OF _ 2(2)]
  have D: "D \<noteq> NO_MORE_DOCS" "cj_lastDoc c \<noteq> NO_MORE_DOCS" using 2(3,4,5) by (auto simp: NO_MORE_DOCS_def)
  have l: "cur l = D" using 2(2) by simp
  show ?thesis
  proof (cases "cj_lastDoc c = -1")
    case True
    have "com (scs @ [l]) - {-1} = com (scs @ [l])" using c(1) D 2(4) by force
    then have "cj_rest cur rest c = D # sorted_list_of_set (com (scs @ [l]) - {D})"
      using agreed_least [OF _ 2(2) D(1)] 2(8) True by simp
    then show ?thesis using True D 2 l by (auto simp: cj_nextDoc_def cj_ok_def cj_rest_def [of _ _ "c\<lparr>cj_lastDoc := D\<rparr>"])
  next
    case False
    then have last: "cj_lastDoc c = D" using 2(5) by simp
    obtain t where t: "nxt l = Inr (cur t, t)" "pos t" "D < cur t" "ahd t = rest l"
      using pos_nxt [OF 2(6)] 2(3) l by auto
    have "D \<notin> set (rest l)" using iter_sorted [OF 2(6)] l by auto
    then have com: "com (scs @ [t]) = com (scs @ [l]) - {D}" using 2(7) t(4) by (auto simp: common_def)
    have "\<forall>s\<in>set (scs @ [t]). pos s" "sorted (map cur (scs @ [t]))"
      using 2(2) t(2,3) by (auto simp: sorted_append intro!: sorted_map_agree [where D = D])
    then have "yields (cj_ok cur ok rest) cj_lastDoc (cj_rest cur rest) (sorted_list_of_set (com (scs @ [t]))) (cj_agree adv cur (scs @ [t]))"
      by (intro cj_agree_yields) simp_all
    then show ?thesis using 2(1,8) D False last by (simp add: com cj_nextDoc_def t(1))
  qed
qed (auto simp: cj_nextDoc_def cj_rest_def)

lemma cj_advance_yields:
  assumes "cj_ok cur ok rest c" "cj_lastDoc c < x" "x \<le> NO_MORE_DOCS"
  shows "yields (cj_ok cur ok rest) cj_lastDoc (cj_rest cur rest) (dropWhile (\<lambda>d. d < x) (cj_rest cur rest c)) (cj_advance adv cur x c)"
  using assms(1)
proof (cases rule: cj_okE)
  case (2 D scs l)
  note c = agreed_common(3) [OF _ 2(2)] agreed_common(1) [OF _ 2(2)]
  have l: "cur l = D" "pos l" using 2(2) by simp_all
  have last: "cj_lastDoc c \<noteq> NO_MORE_DOCS" using assms(2,3) by simp
  have rest: "dropWhile (\<lambda>d. d < x) (cj_rest cur rest c) = sorted_list_of_set {d \<in> com (scs @ [l]). x \<le> d}"
  proof -
    have "{d \<in> com (scs @ [l]) - {cj_lastDoc c}. x \<le> d} = {d \<in> com (scs @ [l]). x \<le> d}" using assms(2) by auto
    then show ?thesis unfolding 2(8) using c(2) by (simp add: dropWhile_sorted_list_of_set)
  qed
  show ?thesis
  proof (cases "D < x")
    case True
    obtain t where t: "adv x l = Inr (cur t, t)" "pos t" "x \<le> cur t" "ahd t = dropWhile (\<lambda>d. d < x) (ahd l)"
      using pos_adv [OF l(2) _ assms(3)] True l(1) by auto
    have "set (ahd t) = {d \<in> set (ahd l). x \<le> d}"
      unfolding t(4) using ahead_sorted [OF l(2)] by (intro set_dropWhile_less) simp
    then have com: "com (scs @ [t]) = {d \<in> com (scs @ [l]). x \<le> d}" by (auto simp: common_def)
    have "\<forall>s\<in>set (scs @ [t]). pos s" "sorted (map cur (scs @ [t]))"
      using 2(2) t(2,3) True by (auto simp: sorted_append intro!: sorted_map_agree [where D = D])
    then have "yields (cj_ok cur ok rest) cj_lastDoc (cj_rest cur rest) (sorted_list_of_set (com (scs @ [t]))) (cj_agree adv cur (scs @ [t]))"
      by (intro cj_agree_yields) simp_all
    then show ?thesis unfolding rest using 2(1) last True l by (simp add: com cj_advance_def t(1))
  next
    case False
    then have com: "{d \<in> com (scs @ [l]). x \<le> d} = com (scs @ [l])" using c(1) 2(3) by force
    have "\<forall>s\<in>set (scs @ [l]). pos s" "sorted (map cur (scs @ [l]))"
      using 2(2) by (auto simp: sorted_append intro!: sorted_map_agree [where D = D])
    then have "yields (cj_ok cur ok rest) cj_lastDoc (cj_rest cur rest) (sorted_list_of_set (com (scs @ [l]))) (cj_agree adv cur (scs @ [l]))"
      by (intro cj_agree_yields) simp_all
    then show ?thesis unfolding rest com using 2(1) last False l by (simp add: cj_advance_def)
  qed
qed (use assms(2,3) in simp)

lemma conjunction_iter:
  "doc_iter (cj_nextDoc nxt adv cur) (cj_advance adv cur) cj_lastDoc (cj_ok cur ok rest) (cj_rest cur rest)"
proof
  fix c d x
  assume c: "cj_ok cur ok rest c"
  then show "yields (cj_ok cur ok rest) cj_lastDoc (cj_rest cur rest) (cj_rest cur rest c) (cj_nextDoc nxt adv cur c)"
    by (rule cj_nextDoc_yields)
  from c show "cj_lastDoc c < x \<Longrightarrow> x \<le> NO_MORE_DOCS \<Longrightarrow>
      yields (cj_ok cur ok rest) cj_lastDoc (cj_rest cur rest) (dropWhile (\<lambda>d. d < x) (cj_rest cur rest c)) (cj_advance adv cur x c)"
    by (rule cj_advance_yields)
  have docs: "sorted_wrt (<) (cj_rest cur rest c)" "\<forall>d\<in>set (cj_rest cur rest c). cj_lastDoc c < d \<and> 0 \<le> d \<and> d < NO_MORE_DOCS"
    using c
  proof (atomize (full), cases rule: cj_okE)
    case (2 D scs l)
    have D: "D \<noteq> NO_MORE_DOCS" using 2(3) by simp
    note com = agreed_common(1) [OF _ 2(2)] agreed_common(3) [OF _ 2(2) D]
    then have "set (cj_rest cur rest c) = com (scs @ [l]) - {cj_lastDoc c}" using 2(8) by simp
    moreover have "\<forall>d\<in>com (scs @ [l]). D \<le> d \<and> 0 \<le> d \<and> d < NO_MORE_DOCS" using com(2) by force
    ultimately have "\<forall>d\<in>set (cj_rest cur rest c). cj_lastDoc c < d \<and> 0 \<le> d \<and> d < NO_MORE_DOCS"
      using 2(5) by force
    moreover have "sorted_wrt (<) (cj_rest cur rest c)" unfolding 2(8) by simp
    ultimately show "sorted_wrt (<) (cj_rest cur rest c) \<and>
      (\<forall>d\<in>set (cj_rest cur rest c). cj_lastDoc c < d \<and> 0 \<le> d \<and> d < NO_MORE_DOCS)" by blast
  qed simp
  then show "sorted_wrt (<) (cj_lastDoc c # cj_rest cur rest c)"
    "d \<in> set (cj_rest cur rest c) \<Longrightarrow> 0 \<le> d \<and> d < NO_MORE_DOCS" by simp_all
qed

lemma cj_first_ok:
  "\<forall>s\<in>set ss. ok s \<Longrightarrow> \<exists>more ss'. cj_first nxt ss = Inr (more, ss') \<and>
     (if more then length ss' = length ss \<and> (\<forall>s\<in>set ss'. pos s) \<and> map ahd ss' = map rest ss
      else \<exists>s\<in>set ss. rest s = [])"
proof (induction ss)
  case (Cons s ss)
  then have "ok s" by simp
  then show ?case
  proof (cases rule: nxt_cases)
    case (1 t)
    then have "cj_first nxt (s # ss) = Inr (False, t # ss)" "rest s = []" by simp_all
    then show ?thesis by (metis list.set_intros(1))
  next
    case (2 d t)
    then have "pos t" "ahd t = rest s" by (auto simp: positioned_def ahead_def)
    moreover obtain more ss' where "cj_first nxt ss = Inr (more, ss')"
      "if more then length ss' = length ss \<and> (\<forall>s\<in>set ss'. pos s) \<and> map ahd ss' = map rest ss
       else \<exists>s\<in>set ss. rest s = []" using Cons by auto
    ultimately show ?thesis using 2 by (cases more) auto
  qed
qed (simp, blast)

lemma set_cj_reverse: "set (cj_reverse scs) = set scs"
proof -
  have "length (fold (cj_swap (length scs - 1)) is scs) = length scs \<and> set (fold (cj_swap (length scs - 1)) is scs) = set scs"
    if "\<forall>i\<in>set is. i < (length scs - 1) div 2" for "is"
    using that
  proof (induction "is" rule: rev_induct)
    case (snoc i "is")
    then have "i < length scs" "length scs - 1 - i - 1 < length scs" by auto
    then show ?case using snoc by (simp add: cj_swap_def Let_def set_swap)
  qed simp
  then show ?thesis by (simp add: cj_reverse_def)
qed

lemma newConjunctionScorer_ok:
  assumes "ss \<noteq> []" "\<forall>s\<in>set ss. ok s"
  shows "\<exists>c. newConjunctionScorer nxt adv cur ss = Inr c \<and> cj_ok cur ok rest c \<and>
    cj_rest cur rest c = sorted_list_of_set (\<Inter>s\<in>set ss. set (rest s))"
proof -
  obtain more ss1 where f: "cj_first nxt ss = Inr (more, ss1)"
    "if more then length ss1 = length ss \<and> (\<forall>s\<in>set ss1. pos s) \<and> map ahd ss1 = map rest ss else \<exists>s\<in>set ss. rest s = []"
    using cj_first_ok [OF assms(2)] by blast
  show ?thesis
  proof (cases more)
    case False
    then have "(\<Inter>s\<in>set ss. set (rest s)) = {}" using f(2) by fastforce
    then show ?thesis using False f(1) by (simp add: newConjunctionScorer_def cj_ok_def cj_rest_def)
  next
    case True
    then have ss1: "length ss1 = length ss" "\<forall>s\<in>set ss1. pos s" "map ahd ss1 = map rest ss" using f(2) by simp_all
    let ?ss = "sort_key cur ss1"
    have "?ss \<noteq> []" using assms(1) ss1(1) by (metis length_0_conv length_sort)
    moreover have "\<forall>s\<in>set ?ss. pos s" using ss1(2) by simp
    ultimately obtain D ss2 where d: "cj_doNext adv cur ?ss = Inr (D, ss2)" "length ss2 = length ?ss"
      "\<forall>s\<in>set ss2. pos s \<and> cur s = D" "com ss2 = com ?ss"
      using doNext_agrees [of ?ss] by auto
    have ne: "ss2 \<noteq> []" using d(2) \<open>?ss \<noteq> []\<close> by auto
    have "com ?ss = \<Inter>(set ` set (map ahd ss1))" by (simp add: common_def image_image)
    then have com: "com ss2 = (\<Inter>s\<in>set ss. set (rest s))" unfolding ss1(3) d(4) by (simp add: image_image)
    show ?thesis
    proof (cases "D = NO_MORE_DOCS")
      case Dend: True
      then show ?thesis using True f(1) d(1) agreed_common(2) [OF ne d(3)]
        by (simp add: newConjunctionScorer_def cj_ok_def cj_rest_def flip: com)
    next
      case Dno: False
      note c = agreed_common(3) [OF ne d(3) Dno]
      have r: "com (cj_reverse ss2) = com ss2" "cj_reverse ss2 \<noteq> []"
        using set_cj_reverse [of ss2] ne by (auto simp: common_def)
      have "com ss2 - {-1} = com ss2" using c by force
      then show ?thesis using True Dno f(1) d(1,3) r c
        by (auto simp: newConjunctionScorer_def cj_ok_def cj_rest_def set_cj_reverse NO_MORE_DOCS_def simp flip: com)
    qed
  qed
qed

end

end
