(* ===== verification/SortedVIntList.thy ===== *)
theory SortedVIntList imports ByteCodec OpenBitSet ConjunctionScorer begin

text \<open>
  \<^verbatim>\<open>util/SortedVIntList.cpp\<close>: a sorted list of document numbers as the differences of its
  neighbours in the variable-length encoding of \<^verbatim>\<open>IndexOutput::writeVInt\<close>, and its iterator. The
  array grows by the class's own rule, whose sizes are 32-bit integers; its content beyond \<^verbatim>\<open>lastBytePos\<close>, which no code reads,
  is zero in the model. The iterator provides the interface \<open>doc_iter\<close> for every list built from
  strictly rising documents.
\<close>

record svint_list =
  sv_size :: nat
  sv_bytes :: "byte list"
  sv_lastBytePos :: nat
  sv_lastInt :: int32

definition MAX_BYTES_PER_INT :: nat where
  "MAX_BYTES_PER_INT = 31 div 7 + 1"

definition sv_initBytes :: svint_list where
  "sv_initBytes = \<lparr>sv_size = 0, sv_bytes = replicate 128 0, sv_lastBytePos = 0, sv_lastInt = 0\<rparr>"

definition sv_reserve :: "byte list \<Rightarrow> nat \<Rightarrow> byte list result" where
  "sv_reserve bytes lastBytePos =
     (if trunc32 (int lastBytePos + int MAX_BYTES_PER_INT) > int (length bytes)
      then bind_r (new_size (trunc32 (int (length bytes) * 2 + int MAX_BYTES_PER_INT))) (\<lambda>n.
           Inr (take n bytes @ replicate (n - length bytes) 0))
      else Inr bytes)"

text \<open>The encoding loop of \<^verbatim>\<open>addInt\<close>.\<close>

function sv_put :: "int32 \<Rightarrow> byte list \<Rightarrow> nat \<Rightarrow> (byte list \<times> nat) result" where
  "sv_put diff bytes pos =
     (if diff AND NOT 0x7f \<noteq> 0
      then bind_r (arr_set bytes pos (ucast ((diff AND 0x7f) OR NOT 0x7f)))
             (\<lambda>bytes. sv_put (unsignedShift32 diff 7) bytes (pos + 1))
      else bind_r (arr_set bytes pos (ucast diff)) (\<lambda>bytes. Inr (bytes, pos + 1)))"
  by pat_completeness auto

termination sv_put
proof (relation "measure (\<lambda>(diff, _). unat diff)")
  fix diff :: int32 and bytes :: "byte list" and pos :: nat and bytes' :: "byte list"
  assume "diff AND NOT 0x7f \<noteq> 0"
  then have "128 \<le> unat diff" using mask7_zero_iff [of diff] by simp
  then show "((unsignedShift32 diff 7, bytes', pos + 1), diff, bytes, pos) \<in> measure (\<lambda>(diff, _). unat diff)"
    by (simp add: shift7_32)
qed simp

declare sv_put.simps [simp del]

definition sv_addInt :: "int32 \<Rightarrow> svint_list \<Rightarrow> svint_list result" where
  "sv_addInt nextInt l =
     (let diff = nextInt - sv_lastInt l in
      if diff <s 0 then Inl IllegalArgument
      else bind_r (sv_reserve (sv_bytes l) (sv_lastBytePos l)) (\<lambda>bytes.
        bind_r (sv_put diff bytes (sv_lastBytePos l)) (\<lambda>(bytes, pos).
        Inr \<lparr>sv_size = sv_size l + 1, sv_bytes = bytes, sv_lastBytePos = pos, sv_lastInt = nextInt\<rparr>)))"

fun sv_addInts :: "int32 list \<Rightarrow> svint_list \<Rightarrow> svint_list result" where
  "sv_addInts [] l = Inr l"
| "sv_addInts (i # is) l = bind_r (sv_addInt i l) (sv_addInts is)"

definition sv_trim :: "svint_list \<Rightarrow> svint_list" where
  "sv_trim l = l\<lparr>sv_bytes := take (sv_lastBytePos l) (sv_bytes l)\<rparr>"

text \<open>The constructors: from a collection, from its first \<open>inputSize\<close> members, from a bit set and
  from an iterator.\<close>

definition sv_fromInts :: "int32 list \<Rightarrow> svint_list result" where
  "sv_fromInts sortedInts = bind_r (sv_addInts sortedInts sv_initBytes) (\<lambda>l. Inr (sv_trim l))"

definition sv_fromIntsUpTo :: "int32 list \<Rightarrow> nat \<Rightarrow> svint_list result" where
  "sv_fromIntsUpTo sortedInts inputSize =
     bind_r (sv_addInts (take inputSize sortedInts) sv_initBytes) (\<lambda>l.
       if inputSize \<le> length sortedInts then Inr (sv_trim l) else Inl OutOfRange)"

partial_function (option) sv_bits_loop :: "obs \<Rightarrow> int \<Rightarrow> svint_list \<Rightarrow> svint_list result option" where
  "sv_bits_loop source nextInt l =
     (if nextInt = -1 then Some (Inr l)
      else case sv_addInt (of_int nextInt) l of Inl e \<Rightarrow> Some (Inl e)
           | Inr l \<Rightarrow> sv_bits_loop source (nextSetBit32 (nextInt + 1) source) l)"

definition sv_fromOpenBitSet :: "obs \<Rightarrow> svint_list result" where
  "sv_fromOpenBitSet source =
     bind_r (returns (sv_bits_loop source (nextSetBit32 0 source) sv_initBytes)) (\<lambda>l. Inr (sv_trim l))"

definition sv_fromIterator :: "('s \<Rightarrow> 's step) \<Rightarrow> 's \<Rightarrow> svint_list result" where
  "sv_fromIterator nxt s =
     bind_r (score_all nxt (\<lambda>doc. sv_addInt (of_int doc)) s sv_initBytes) (\<lambda>(_, l). Inr (sv_trim l))"

definition sv_getByteSize :: "svint_list \<Rightarrow> nat" where
  "sv_getByteSize l = length (sv_bytes l)"

subsection \<open>The iterator\<close>

record svint_iter =
  si_list :: svint_list
  si_bytePos :: nat
  si_lastInt :: int32
  si_doc :: int

definition sv_iterator :: "svint_list \<Rightarrow> svint_iter" where
  "sv_iterator l = \<lparr>si_list = l, si_bytePos = 0, si_lastInt = 0, si_doc = -1\<rparr>"

text \<open>The rest of a number after its first byte \<open>b\<close>: the loop of the private \<^verbatim>\<open>advance()\<close>.\<close>

function sv_more :: "byte list \<Rightarrow> byte \<Rightarrow> nat \<Rightarrow> int32 \<Rightarrow> nat \<Rightarrow> (int32 \<times> nat) result" where
  "sv_more bytes b s lastInt pos =
     (if ucast b AND NOT 0x7f = (0 :: int32) then Inr (lastInt, pos)
      else bind_r (arr_get bytes pos) (\<lambda>b.
        if s < 32 then sv_more bytes b (s + 7) (lastInt + push_bit s (ucast b AND 0x7f)) (pos + 1)
        else Inl OutOfRange))"
  by pat_completeness auto

termination sv_more
  by (relation "measure (\<lambda>(_, _, s, _). 32 - s)") simp_all

declare sv_more.simps [simp del]

definition si_advance_one :: "svint_iter \<Rightarrow> svint_iter result" where
  "si_advance_one it =
     bind_r (arr_get (sv_bytes (si_list it)) (si_bytePos it)) (\<lambda>b.
     bind_r (sv_more (sv_bytes (si_list it)) b 7 (si_lastInt it + (ucast b AND 0x7f)) (si_bytePos it + 1)) (\<lambda>(lastInt, pos).
     Inr (it\<lparr>si_lastInt := lastInt, si_bytePos := pos\<rparr>)))"

definition si_nextDoc :: "svint_iter \<Rightarrow> svint_iter step" where
  "si_nextDoc it =
     (if sv_lastBytePos (si_list it) \<le> si_bytePos it then Inr (NO_MORE_DOCS, it\<lparr>si_doc := NO_MORE_DOCS\<rparr>)
      else bind_r (si_advance_one it) (\<lambda>it. Inr (sint (si_lastInt it), it\<lparr>si_doc := sint (si_lastInt it)\<rparr>)))"

partial_function (option) si_advance_loop :: "int \<Rightarrow> svint_iter \<Rightarrow> svint_iter step option" where
  "si_advance_loop target it =
     (if si_bytePos it < sv_lastBytePos (si_list it)
      then case si_advance_one it of Inl e \<Rightarrow> Some (Inl e)
           | Inr it \<Rightarrow> if target \<le> sint (si_lastInt it)
                       then Some (Inr (sint (si_lastInt it), it\<lparr>si_doc := sint (si_lastInt it)\<rparr>))
                       else si_advance_loop target it
      else Some (Inr (NO_MORE_DOCS, it\<lparr>si_doc := NO_MORE_DOCS\<rparr>)))"

definition si_advance :: "int \<Rightarrow> svint_iter \<Rightarrow> svint_iter step" where
  "si_advance target it = returns (si_advance_loop target it)"

subsection \<open>What the bytes hold\<close>

fun delta_wire :: "nat \<Rightarrow> nat list \<Rightarrow> byte list" where
  "delta_wire p [] = []"
| "delta_wire p (d # ds) = nat_wire (d - p) @ delta_wire d ds"

text \<open>Reading it back: the number read so far and its shift are carried along.\<close>

fun undelta :: "nat \<Rightarrow> nat \<Rightarrow> nat \<Rightarrow> byte list \<Rightarrow> nat list" where
  "undelta p a k [] = []"
| "undelta p a k (b # bs) =
     (let a = a + unat (b AND 0x7f) * 2 ^ k in
      if b AND 0x80 = 0 then (p + a) # undelta (p + a) 0 0 bs else undelta p a (k + 7) bs)"

lemma undelta_wire: "undelta p a k (nat_wire n @ bs) = (p + (a + n * 2 ^ k)) # undelta (p + (a + n * 2 ^ k)) 0 0 bs"
proof (induction n arbitrary: a k rule: nat_wire.induct)
  case (1 n)
  obtain b cs where w: "nat_wire n = b # cs" by (cases "nat_wire n") simp_all
  have "b AND 0x7f = (of_nat (n mod 128) :: byte)" using nat_wire_head(1) [OF w, where 'a = 8] by simp
  moreover have "n mod 128 < 2 ^ 8" by (rule less_trans [of _ 128]) simp_all
  ultimately have b: "unat (b AND 0x7f) = n mod 128" by (simp only: unat_of_nat) simp
  show ?case
  proof (cases "n < 128")
    case True
    then show ?thesis using w nat_wire_head(2,3) [OF w] b by (simp add: Let_def)
  next
    case False
    then have cs: "cs = nat_wire (n div 128)" "b AND 0x80 \<noteq> 0" using nat_wire_head(2,4) [OF w] by auto
    have "(n mod 128) * 2 ^ k + (n div 128) * 2 ^ (k + 7) = ((n mod 128) + 128 * (n div 128)) * 2 ^ k"
      by (simp only: power_add add_mult_distrib) simp
    also have "n mod 128 + 128 * (n div 128) = n" by simp
    finally have "a + (n mod 128) * 2 ^ k + (n div 128) * 2 ^ (k + 7) = a + n * 2 ^ k" by simp
    then show ?thesis using "1" [OF False] w cs b by (simp add: Let_def add.assoc)
  qed
qed

lemma undelta_delta: "sorted (p # ds) \<Longrightarrow> undelta p 0 0 (delta_wire p ds) = ds"
  by (induction ds arbitrary: p) (simp_all add: undelta_wire)

lemma delta_wire_append: "delta_wire p (ds @ [d]) = delta_wire p ds @ nat_wire (d - last (p # ds))"
  by (induction ds arbitrary: p) simp_all

subsection \<open>Writing\<close>

lemma low_byte_not:
  "ucast ((i AND 0x7f) OR NOT 0x7f) = (of_nat (unat i mod 128) OR 0x80 :: byte)" for i :: int32
proof -
  have "ucast ((i AND 0x7f) OR NOT 0x7f) = (ucast ((i AND 0x7f) OR 0x80) :: byte)"
  proof (rule bit_word_eqI)
    fix j assume "j < LENGTH(8)"
    then have "j \<in> {0, 1, 2, 3, 4, 5, 6, 7}" by auto
    then show "bit (ucast ((i AND 0x7f) OR NOT 0x7f) :: byte) j = bit (ucast ((i AND 0x7f) OR 0x80) :: byte) j"
      by (auto simp: bit_simps)
  qed
  then show ?thesis using low_byte(1) [of i] by simp
qed

lemma sv_put_wire:
  "pos + length (nat_wire (unat d)) \<le> length bytes \<Longrightarrow>
   \<exists>bytes'. sv_put d bytes pos = Inr (bytes', pos + length (nat_wire (unat d))) \<and> length bytes' = length bytes \<and>
     take (pos + length (nat_wire (unat d))) bytes' = take pos bytes @ nat_wire (unat d)"
proof (induction "unat d" arbitrary: d bytes pos rule: less_induct)
  case less
  show ?case
  proof (cases "unat d < 128")
    case True
    then have "d AND NOT 0x7f = 0" using mask7_zero_iff [of d] by simp
    moreover have "ucast d = (of_nat (unat d) :: byte)" using low_byte(2) [of d] True by simp
    ultimately show ?thesis using less.prems True
      by (subst sv_put.simps) (simp add: nat_wire_small take_Suc_conv_app_nth)
  next
    case False
    then have nz: "d AND NOT 0x7f \<noteq> 0" using mask7_zero_iff [of d] by simp
    let ?b = "of_nat (unat d mod 128) OR 0x80 :: byte" and ?e = "unsignedShift32 d 7"
    have w: "nat_wire (unat d) = ?b # nat_wire (unat ?e)" using False by (simp add: nat_wire_large shift7_32)
    have "unat ?e < unat d" using False by (simp add: shift7_32)
    from less.hyps [OF this, of "Suc pos" "bytes[pos := ?b]"] less.prems obtain bytes' where
      b: "sv_put ?e (bytes[pos := ?b]) (Suc pos) = Inr (bytes', Suc pos + length (nat_wire (unat ?e)))" "length bytes' = length bytes"
        "take (Suc pos + length (nat_wire (unat ?e))) bytes' = take (Suc pos) (bytes[pos := ?b]) @ nat_wire (unat ?e)"
      by (auto simp: w)
    have "pos < length bytes" using less.prems by (simp add: w)
    then have "sv_put d bytes pos = sv_put ?e (bytes[pos := ?b]) (Suc pos)"
      using nz by (subst sv_put.simps, subst low_byte_not) simp
    then show ?thesis using b \<open>pos < length bytes\<close> by (simp add: w take_Suc_conv_app_nth)
  qed
qed

text \<open>The list holds the documents \<open>ds\<close>: their wire form fills the array up to the position.\<close>

definition sv_holds :: "svint_list \<Rightarrow> nat list \<Rightarrow> bool" where
  "sv_holds l ds \<longleftrightarrow> sorted ds \<and> (\<forall>d\<in>set ds. d < 2 ^ 31) \<and> sv_size l = length ds \<and>
     unat (sv_lastInt l) = last (0 # ds) \<and> sv_lastBytePos l \<le> length (sv_bytes l) \<and>
     take (sv_lastBytePos l) (sv_bytes l) = delta_wire 0 ds \<and> length (delta_wire 0 ds) = sv_lastBytePos l"

lemma sint_small:
  fixes w :: int32
  assumes "unat w < 2 ^ 31"
  shows "sint w = int (unat w)"
proof -
  have "sint w = signed_take_bit 31 (int (unat w))" unfolding sint_uint uint_nat by simp
  also have "\<dots> = int (unat w)"
  proof (rule signed_take_bit_int_eq_self)
    have "int (unat w) < int (2 ^ 31)" using assms by (simp only: of_nat_less_iff)
    then show "int (unat w) < 2 ^ 31" by simp
    have "(0::int) \<le> int (unat w)" by (rule of_nat_0_le_iff)
    then show "- (2 ^ 31) \<le> int (unat w)" by (rule order_trans [rotated]) simp
  qed
  finally show ?thesis .
qed

lemma sv_init_holds: "sv_holds sv_initBytes []"
  by (simp add: sv_holds_def sv_initBytes_def)

lemma sv_trim_holds: "sv_holds l ds \<Longrightarrow> sv_holds (sv_trim l) ds \<and> sv_bytes (sv_trim l) = delta_wire 0 ds"
  by (simp add: sv_holds_def sv_trim_def)

text \<open>The number of bytes up to which the array can double its size within 31 bits.\<close>

definition sv_limit :: nat where
  "sv_limit = 2 ^ 30 - 8"

definition sv_fits :: "nat list \<Rightarrow> bool" where
  "sv_fits ds \<longleftrightarrow> length (delta_wire 0 ds) \<le> sv_limit"

lemma sv_reserve_room:
  assumes "pos \<le> length bytes" "pos \<le> sv_limit"
  shows "\<exists>bs. sv_reserve bytes pos = Inr bs \<and> pos + 5 \<le> length bs \<and> take pos bs = take pos bytes"
proof (cases "trunc32 (int pos + int MAX_BYTES_PER_INT) > int (length bytes)")
  case True
  have p: "trunc32 (int pos + int MAX_BYTES_PER_INT) = int pos + 5"
    using assms(2) by (subst trunc32_id) (simp_all add: MAX_BYTES_PER_INT_def sv_limit_def)
  from True have "trunc32 (int (length bytes) * 2 + int MAX_BYTES_PER_INT) = int (length bytes) * 2 + 5"
    using assms(2) unfolding p by (subst trunc32_id) (simp_all add: MAX_BYTES_PER_INT_def sv_limit_def)
  moreover have "nat (int (length bytes) * 2 + 5) = length bytes * 2 + 5" by arith
  ultimately show ?thesis using True assms(1) by (simp add: sv_reserve_def MAX_BYTES_PER_INT_def)
next
  case False
  have "trunc32 (int pos + int MAX_BYTES_PER_INT) = int pos + 5"
    using assms(2) by (subst trunc32_id) (simp_all add: MAX_BYTES_PER_INT_def sv_limit_def)
  with False show ?thesis by (simp add: sv_reserve_def)
qed

text \<open>The sizes the array can have: a list that could be built has never lost room.\<close>

definition sv_grown :: "byte list \<Rightarrow> bool" where
  "sv_grown bytes \<longleftrightarrow> (\<exists>k\<le>23. length bytes + 5 = 133 * 2 ^ k)"

lemma sv_reserve_grown:
  assumes "sv_grown bytes" "pos \<le> length bytes" "sv_reserve bytes pos = Inr bs"
  shows "sv_grown bs" "pos + 5 \<le> length bs" "take pos bs = take pos bytes"
proof -
  obtain k where k: "k \<le> 23" "length bytes + 5 = 133 * 2 ^ k" using assms(1) by (auto simp: sv_grown_def)
  have "(2 :: nat) ^ k \<le> 2 ^ 23" using k(1) by (intro power_increasing) simp_all
  then have len: "length bytes \<le> 1115684859" using k(2) by simp
  then have p: "trunc32 (int pos + int MAX_BYTES_PER_INT) = int pos + 5"
    using assms(2) by (subst trunc32_id) (simp_all add: MAX_BYTES_PER_INT_def)
  have "sv_grown bs \<and> pos + 5 \<le> length bs \<and> take pos bs = take pos bytes"
  proof (cases "int pos + 5 > int (length bytes)")
    case False
    then show ?thesis using assms(1,3) p by (simp add: sv_reserve_def)
  next
    case True
    have r: "bind_r (new_size (trunc32 (int (length bytes) * 2 + 5))) (\<lambda>n. Inr (take n bytes @ replicate (n - length bytes) 0)) = Inr bs"
      using assms(3) True p by (simp add: sv_reserve_def MAX_BYTES_PER_INT_def)
    have "k \<noteq> 23"
    proof
      assume "k = 23"
      then have "length bytes = 1115684859" using k(2) by simp
      then show False using r by (simp add: trunc32_def new_size_def)
    qed
    then have "k \<le> 22" using k(1) by simp
    then have "(2 :: nat) ^ k \<le> 2 ^ 22" by (intro power_increasing) simp_all
    then have "length bytes \<le> 557842427" using k(2) by simp
    then have "trunc32 (int (length bytes) * 2 + 5) = int (length bytes) * 2 + 5" by (subst trunc32_id) simp_all
    moreover have "nat (int (length bytes) * 2 + 5) = length bytes * 2 + 5" by arith
    ultimately have bs: "bs = bytes @ replicate (length bytes + 5) 0" using r by (simp add: new_size_def)
    have "length bs + 5 = 133 * 2 ^ Suc k" using k(2) unfolding bs by simp
    then have "sv_grown bs" unfolding sv_grown_def using \<open>k \<le> 22\<close> by (intro exI [of _ "Suc k"]) simp
    then show ?thesis using assms(2) unfolding bs by simp
  qed
  then show "sv_grown bs" "pos + 5 \<le> length bs" "take pos bs = take pos bytes" by simp_all
qed

lemma sv_fits_append: "sv_fits (ds @ es) \<Longrightarrow> sv_fits ds"
proof -
  have "length (delta_wire p ds) \<le> length (delta_wire p (ds @ es))" for p by (induction ds arbitrary: p) simp_all
  then show "sv_fits (ds @ es) \<Longrightarrow> sv_fits ds" unfolding sv_fits_def by (rule order.trans)
qed

lemma sv_addInt_room:
  assumes "sv_holds l ds" "last (0 # ds) \<le> n" "n < 2 ^ 31"
    and bs: "sv_reserve (sv_bytes l) (sv_lastBytePos l) = Inr bs" "sv_lastBytePos l + 5 \<le> length bs"
      "take (sv_lastBytePos l) bs = take (sv_lastBytePos l) (sv_bytes l)"
  shows "\<exists>l'. sv_addInt (of_nat n) l = Inr l' \<and> sv_holds l' (ds @ [n]) \<and> length (sv_bytes l') = length bs"
proof -
  define d :: int32 where "d = of_nat n - sv_lastInt l"
  have n: "unat (of_nat n :: int32) = n" using assms(3) by (simp add: unat_of_nat)
  have l: "unat (sv_lastInt l) = last (0 # ds)" "sv_lastBytePos l \<le> length (sv_bytes l)" using assms(1) by (auto simp: sv_holds_def)
  have d: "unat d = n - last (0 # ds)" unfolding d_def using assms(2) n l(1) by (subst unat_sub) (simp_all add: word_le_nat_alt)
  have "unat d < 128 ^ Suc 4" using assms(3) d by simp
  then have "length (nat_wire (unat d)) \<le> 5" using length_nat_wire [of "unat d" 4] by simp
  then have room: "sv_lastBytePos l + length (nat_wire (unat d)) \<le> length bs" using bs(2) by simp
  have "\<not> d <s 0" using d assms(3) sint_small [of d] by (simp add: word_sless_alt)
  then obtain bytes' where b: "sv_addInt (of_nat n) l = Inr \<lparr>sv_size = sv_size l + 1, sv_bytes = bytes',
      sv_lastBytePos = sv_lastBytePos l + length (nat_wire (unat d)), sv_lastInt = of_nat n\<rparr>"
    "length bytes' = length bs"
    "take (sv_lastBytePos l + length (nat_wire (unat d))) bytes' = take (sv_lastBytePos l) (sv_bytes l) @ nat_wire (unat d)"
    using sv_put_wire [OF room] bs by (auto simp: sv_addInt_def Let_def simp flip: d_def)
  have "sorted (ds @ [n])" using assms(1,2) by (cases ds rule: rev_cases) (auto simp: sv_holds_def sorted_append)
  moreover have "last (0 # ds @ [n]) = n" by simp
  ultimately show ?thesis using assms b n room unfolding d by (simp add: sv_holds_def delta_wire_append del: last.simps)
qed

lemma sv_addInt_holds:
  assumes "sv_holds l ds" "last (0 # ds) \<le> n" "n < 2 ^ 31" "sv_fits ds"
  shows "\<exists>l'. sv_addInt (of_nat n) l = Inr l' \<and> sv_holds l' (ds @ [n])"
proof -
  have "sv_lastBytePos l \<le> length (sv_bytes l)" "sv_lastBytePos l \<le> sv_limit" using assms(1,4) by (simp_all add: sv_holds_def sv_fits_def)
  from sv_reserve_room [OF this] show ?thesis using sv_addInt_room [OF assms(1-3)] by blast
qed

text \<open>Without a bound: an addition that succeeds has stored the integer.\<close>

lemma sv_addInt_stored:
  assumes "sv_holds l ds" "sv_grown (sv_bytes l)" "last (0 # ds) \<le> n" "n < 2 ^ 31" "sv_addInt (of_nat n) l = Inr l'"
  shows "sv_holds l' (ds @ [n]) \<and> sv_grown (sv_bytes l')"
proof -
  obtain bs where bs: "sv_reserve (sv_bytes l) (sv_lastBytePos l) = Inr bs"
    using assms(5) by (auto simp: sv_addInt_def Let_def bind_r_Inr_iff split: if_splits)
  have "sv_lastBytePos l \<le> length (sv_bytes l)" using assms(1) by (simp add: sv_holds_def)
  note g = sv_reserve_grown [OF assms(2) this bs]
  from sv_addInt_room [OF assms(1,3,4) bs g(2,3)] assms(5) g(1) show ?thesis by (auto simp: sv_grown_def)
qed

lemma sint_of_int32: "- (2 ^ 31) \<le> x \<Longrightarrow> x < 2 ^ 31 \<Longrightarrow> sint (of_int x :: int32) = x"
  using signed_take_bit_int_eq_self [of 31 x] by (simp add: sint_sbintrunc')

lemma sv_addInt_rejects:
  assumes "sv_holds l ds" "i < int (last (0 # ds))" "int (last (0 # ds)) - 2 ^ 31 \<le> i"
  shows "sv_addInt (of_int i) l = Inl IllegalArgument"
proof -
  define p where "p = last (0 # ds)"
  have "unat (sv_lastInt l) = p" using assms(1) by (simp add: sv_holds_def p_def)
  then have "sv_lastInt l = of_nat p" by (auto simp flip: word_of_nat_eq_iff)
  then have "of_int i - sv_lastInt l = of_int (i - int p)" by simp
  moreover have "sint (of_int (i - int p) :: int32) = i - int p"
    by (rule sint_of_int32) (use assms(2,3) in \<open>simp_all add: p_def del: last.simps\<close>)
  ultimately show ?thesis using assms(2) by (simp add: sv_addInt_def word_sless_alt p_def del: last.simps)
qed

lemma sv_addInts_holds:
  "sv_holds l ds \<Longrightarrow> sorted (ds @ ns) \<Longrightarrow> \<forall>n\<in>set ns. n < 2 ^ 31 \<Longrightarrow> sv_fits (ds @ ns) \<Longrightarrow>
   \<exists>l'. sv_addInts (map of_nat ns) l = Inr l' \<and> sv_holds l' (ds @ ns)"
proof (induction ns arbitrary: l ds)
  case (Cons n ns)
  have "last (0 # ds) \<le> n" using Cons.prems(2) by (cases ds rule: rev_cases) (auto simp: sorted_append)
  then obtain l' where "sv_addInt (of_nat n) l = Inr l'" "sv_holds l' (ds @ [n])"
    using sv_addInt_holds [OF Cons.prems(1)] Cons.prems(3) sv_fits_append [OF Cons.prems(4)] by auto
  then show ?case using Cons.IH [of l' "ds @ [n]"] Cons.prems(2-4) by simp
qed simp

lemma sv_addInts_stored:
  "sv_holds l ds \<Longrightarrow> sv_grown (sv_bytes l) \<Longrightarrow> sorted (ds @ ns) \<Longrightarrow> \<forall>n\<in>set ns. n < 2 ^ 31 \<Longrightarrow> sv_addInts (map of_nat ns) l = Inr l' \<Longrightarrow>
   sv_holds l' (ds @ ns)"
proof (induction ns arbitrary: l ds)
  case (Cons n ns)
  have o: "last (0 # ds) \<le> n" using Cons.prems(3) by (cases ds rule: rev_cases) (auto simp: sorted_append)
  from Cons.prems(5) obtain u where u: "sv_addInt (of_nat n) l = Inr u" "sv_addInts (map of_nat ns) u = Inr l'"
    by (auto simp: bind_r_Inr_iff)
  have "sv_holds u (ds @ [n]) \<and> sv_grown (sv_bytes u)" using sv_addInt_stored [OF Cons.prems(1,2) o _ u(1)] Cons.prems(4) by simp
  then show ?case using Cons.IH [of u "ds @ [n]"] Cons.prems(3,4) u(2) by simp
qed simp

subsection \<open>Reading\<close>

lemma group_bits:
  fixes b :: byte
  shows "ucast b AND 0x7f = (ucast (b AND 0x7f) :: int32)" "ucast b AND NOT 0x7f = (0 :: int32) \<longleftrightarrow> b AND 0x80 = 0"
proof -
  show "ucast b AND 0x7f = (ucast (b AND 0x7f) :: int32)" by (simp add: unsigned_and_eq)
  have "(NOT 0x7f :: byte) = 0x80" by simp
  from mask7_zero_iff [of b, unfolded this] have "b AND 0x80 = 0 \<longleftrightarrow> unat b < 128" by simp
  moreover have "unat (ucast b :: int32) = unat b"
  proof -
    have "unat b < 2 ^ 8" using unsigned_less [of b] by simp
    then have "unat b < 2 ^ 32" by (rule less_trans) simp
    then show ?thesis by (simp add: unsigned_ucast_eq take_bit_nat_eq_self)
  qed
  ultimately show "ucast b AND NOT 0x7f = (0 :: int32) \<longleftrightarrow> b AND 0x80 = 0"
    using mask7_zero_iff [of "ucast b :: int32"] by simp
qed

lemma push_of_nat: "push_bit j (of_nat x :: int32) = of_nat (x * 2 ^ j)"
  by (simp add: push_bit_eq_mult)

lemma sv_more_wire:
  "7 \<le> k \<Longrightarrow> n * 2 ^ (k - 7) < 2 ^ 32 \<Longrightarrow> nat_wire n = b # bs \<Longrightarrow> drop pos xs = bs @ ys \<Longrightarrow>
   sv_more xs b k (a + of_nat ((n mod 128) * 2 ^ (k - 7))) pos = Inr (a + of_nat (n * 2 ^ (k - 7)), pos + length bs)"
proof (induction n arbitrary: k a b bs pos rule: nat_wire.induct)
  case (1 n)
  note h = nat_wire_head [OF "1.prems"(3)]
  show ?case
  proof (cases "n < 128")
    case True
    then show ?thesis using h(2,3) by (subst sv_more.simps, subst group_bits(2)) simp
  next
    case False
    then have n: "128 \<le> n" by simp
    obtain b' bs' where w: "nat_wire (n div 128) = b' # bs'" by (cases "nat_wire (n div 128)") simp_all
    note f = shift_fits [OF n "1.prems"(2,1)]
    have bs: "drop pos xs = b' # bs' @ ys" using "1.prems"(4) h(4) [OF n] w by simp
    then have p: "pos < length xs" "xs ! pos = b'" "drop (Suc pos) xs = bs' @ ys"
      by (metis drop_eq_Nil2 linorder_not_less list.distinct(1), metis hd_drop_conv_nth drop_eq_Nil2 linorder_not_less list.distinct(1) list.sel(1),
          metis drop_Suc list.sel(3) tl_drop)
    have eq: "(n mod 128) * 2 ^ (k - 7) + (n div 128) * 2 ^ k = n * 2 ^ (k - 7)"
    proof -
      have "(2::nat) ^ k = 128 * 2 ^ (k - 7)" using "1.prems"(1) power_add [of "2::nat" 7 "k - 7"] by simp
      then have "(n mod 128) * 2 ^ (k - 7) + (n div 128) * 2 ^ k = (n mod 128 + n div 128 * 128) * 2 ^ (k - 7)"
        by (simp only: add_mult_distrib mult.assoc)
      then show ?thesis by simp
    qed
    have push: "push_bit k (ucast b' AND 0x7f :: int32) = of_nat ((n div 128 mod 128) * 2 ^ k)"
      by (simp only: group_bits(1) nat_wire_head(1) [OF w] push_of_nat)
    have step: "sv_more xs b k A pos = sv_more xs b' (k + 7) (A + of_nat ((n div 128 mod 128) * 2 ^ k)) (Suc pos)" for A
      using h(2) n p(1,2) f(1)
      by (subst sv_more.simps, subst group_bits(2)) (simp add: push del: push_bit_and)
    have "7 \<le> k + 7" by simp
    from "1.IH" [OF False this f(2) w p(3), of "a + of_nat ((n mod 128) * 2 ^ (k - 7))"]
    have "sv_more xs b k (a + of_nat ((n mod 128) * 2 ^ (k - 7))) pos =
        Inr (a + of_nat ((n mod 128) * 2 ^ (k - 7) + (n div 128) * 2 ^ k), Suc pos + length bs')"
      unfolding step by (simp only: diff_add_inverse2 of_nat_add add.assoc)
    then show ?thesis unfolding eq using h(4) [OF n] w by simp
  qed
qed

definition si_view :: "svint_iter \<Rightarrow> nat list \<Rightarrow> bool" where
  "si_view it ds \<longleftrightarrow> sorted (unat (si_lastInt it) # ds) \<and> (\<forall>d\<in>set ds. d < 2 ^ 31) \<and>
     si_bytePos it \<le> sv_lastBytePos (si_list it) \<and> sv_lastBytePos (si_list it) \<le> length (sv_bytes (si_list it)) \<and>
     drop (si_bytePos it) (take (sv_lastBytePos (si_list it)) (sv_bytes (si_list it))) = delta_wire (unat (si_lastInt it)) ds"

lemma si_new_view: "sv_holds l ds \<Longrightarrow> si_view (sv_iterator l) ds"
  by (simp add: sv_holds_def si_view_def sv_iterator_def)

lemma si_view_more: "si_view it ds \<Longrightarrow> si_bytePos it < sv_lastBytePos (si_list it) \<longleftrightarrow> ds \<noteq> []"
proof -
  assume v: "si_view it ds"
  have "delta_wire p ds = [] \<longleftrightarrow> ds = []" for p by (cases ds) simp_all
  then have "drop (si_bytePos it) (take (sv_lastBytePos (si_list it)) (sv_bytes (si_list it))) = [] \<longleftrightarrow> ds = []"
    using v by (simp add: si_view_def)
  then show ?thesis using v by (auto simp: si_view_def)
qed

lemma si_advance_one_view:
  assumes "si_view it (d # ds)"
  shows "\<exists>it'. si_advance_one it = Inr it' \<and> si_view it' ds \<and> si_lastInt it' = of_nat d \<and> sint (si_lastInt it') = int d \<and>
    si_list it' = si_list it \<and> si_doc it' = si_doc it"
proof -
  define xs p m where "xs = sv_bytes (si_list it)" and "p = si_bytePos it" and "m = sv_lastBytePos (si_list it)"
  define n where "n = d - unat (si_lastInt it)"
  have v: "unat (si_lastInt it) \<le> d" "sorted (d # ds)" "d < 2 ^ 31" "\<forall>d\<in>set ds. d < 2 ^ 31" "p \<le> m" "m \<le> length xs"
    "drop p (take m xs) = nat_wire n @ delta_wire d ds"
    using assms by (auto simp: si_view_def n_def xs_def p_def m_def)
  obtain b bs where w: "nat_wire n = b # bs" by (cases "nat_wire n") simp_all
  have split: "drop p xs = nat_wire n @ (delta_wire d ds @ drop m xs)"
    using v(5-7) append_take_drop_id [of m xs] by (metis append.assoc drop_append diff_is_0_eq drop_0 length_take min.absorb2)
  then have p: "p < length xs" "xs ! p = b" "drop (Suc p) xs = bs @ (delta_wire d ds @ drop m xs)"
    unfolding w by (metis append_Cons drop_eq_Nil2 linorder_not_less list.distinct(1),
      metis append_Cons hd_drop_conv_nth drop_eq_Nil2 linorder_not_less list.distinct(1) list.sel(1),
      metis append_Cons drop_Suc list.sel(3) tl_drop)
  have "n * 2 ^ (7 - 7) < 2 ^ 32" using v(3) by (simp add: n_def)
  from sv_more_wire [OF order.refl this w p(3), of "si_lastInt it"]
  have "sv_more xs b 7 (si_lastInt it + of_nat (n mod 128)) (Suc p) = Inr (si_lastInt it + of_nat n, Suc p + length bs)" by simp
  moreover have "si_lastInt it + of_nat n = of_nat d"
  proof -
    have "si_lastInt it + of_nat n = of_nat (unat (si_lastInt it) + n)" by simp
    then show ?thesis using v(1) by (simp only: n_def le_add_diff_inverse)
  qed
  ultimately have r: "si_advance_one it = Inr (it\<lparr>si_lastInt := of_nat d, si_bytePos := p + length (nat_wire n)\<rparr>)"
    using p(1,2) group_bits(1) [of b] nat_wire_head(1) [OF w, where 'a = 32]
    by (simp add: si_advance_one_def w flip: xs_def p_def)
  have d: "unat (of_nat d :: int32) = d" using v(3) by (simp add: unat_of_nat)
  have "drop (p + length (nat_wire n)) (take m xs) = delta_wire d ds"
    using v(7) by (metis add.commute append_eq_conv_conj drop_drop)
  moreover have "p + length (nat_wire n) \<le> m" using v(5-7) by (metis add_diff_inverse_nat append_eq_conv_conj length_append length_drop length_take min.absorb2 nat_add_left_cancel_le le_add1 not_less)
  ultimately have "si_view (it\<lparr>si_lastInt := of_nat d, si_bytePos := p + length (nat_wire n)\<rparr>) ds"
    using v d by (simp add: si_view_def flip: xs_def m_def)
  moreover have "sint (of_nat d :: int32) = int d" using sint_small [of "of_nat d"] d v(3) by simp
  ultimately show ?thesis using r by simp
qed

subsection \<open>Round trips\<close>

lemma si_nextDoc_view:
  assumes "si_view it ds"
  shows "\<exists>it'. si_nextDoc it = Inr (si_doc it', it') \<and> si_list it' = si_list it \<and>
    (case ds of [] \<Rightarrow> si_doc it' = NO_MORE_DOCS \<and> si_view it' []
     | d # ds \<Rightarrow> si_doc it' = int d \<and> unat (si_lastInt it') = d \<and> si_view it' ds)"
proof (cases ds)
  case Nil
  then show ?thesis using assms si_view_more [OF assms] by (auto simp: si_nextDoc_def si_view_def)
next
  case (Cons d ds')
  obtain it' where r: "si_advance_one it = Inr it'" "si_view it' ds'" "si_lastInt it' = of_nat d" "sint (si_lastInt it') = int d"
    "si_list it' = si_list it" using si_advance_one_view assms Cons by metis
  have "d < 2 ^ 31" using assms Cons by (simp add: si_view_def)
  then have "unat (si_lastInt it') = d" by (simp add: r(3) unat_of_nat)
  then show ?thesis using si_view_more [OF assms] r Cons by (auto simp: si_nextDoc_def si_view_def)
qed

lemma si_score_docs:
  "si_view it ds \<Longrightarrow> \<forall>d\<in>set ds. d < 2 ^ 31 - 1 \<Longrightarrow>
   \<exists>it'. score_loop si_nextDoc collect_doc it xs = Some (Inr (it', xs @ map int ds))"
proof (induction ds arbitrary: it xs)
  case Nil
  then show ?case using si_nextDoc_view [OF Nil.prems(1)] by (auto simp: score_loop.simps [of si_nextDoc collect_doc it])
next
  case (Cons d ds)
  obtain it' where r: "si_nextDoc it = Inr (int d, it')" "si_view it' ds" using si_nextDoc_view [OF Cons.prems(1)] by auto
  have "int d \<noteq> NO_MORE_DOCS" using Cons.prems(2) by (auto simp: NO_MORE_DOCS_def)
  then show ?case using r Cons.IH [OF r(2), of "xs @ [int d]"] Cons.prems(2)
    by (simp add: score_loop.simps [of si_nextDoc collect_doc it] collect_doc_def [of "int d"])
qed

lemma si_advance_view:
  "si_view it ds \<Longrightarrow> \<exists>it'. si_advance_loop x it = Some (Inr (si_doc it', it')) \<and>
    (case dropWhile (\<lambda>d. int d < x) ds of [] \<Rightarrow> si_doc it' = NO_MORE_DOCS \<and> si_view it' []
     | d # ds \<Rightarrow> si_doc it' = int d \<and> unat (si_lastInt it') = d \<and> si_view it' ds)"
proof (induction ds arbitrary: it)
  case Nil
  then show ?case using si_view_more [OF Nil] by (auto simp: si_advance_loop.simps [of x it] si_view_def)
next
  case (Cons d ds)
  obtain it' where r: "si_advance_one it = Inr it'" "si_view it' ds" "si_lastInt it' = of_nat d" "sint (si_lastInt it') = int d"
    using si_advance_one_view [OF Cons.prems] by metis
  have "d < 2 ^ 31" using Cons.prems by (simp add: si_view_def)
  then have "unat (si_lastInt it') = d" by (simp add: r(3) unat_of_nat)
  then show ?case using si_view_more [OF Cons.prems] r Cons.IH [OF r(2)]
    by (cases "int d < x") (auto simp: si_advance_loop.simps [of x it] si_view_def)
qed

text \<open>The view of the iterator in the sense of \<open>doc_iter\<close>, for lists without repetition.\<close>

definition svi_left :: "svint_iter \<Rightarrow> int list" where
  "svi_left it = map int (undelta (unat (si_lastInt it)) 0 0
     (drop (si_bytePos it) (take (sv_lastBytePos (si_list it)) (sv_bytes (si_list it)))))"

definition svi_ok :: "svint_iter \<Rightarrow> bool" where
  "svi_ok it \<longleftrightarrow> (\<exists>ds. si_view it ds \<and> sorted_wrt (<) (si_doc it # map int ds) \<and> (\<forall>d\<in>set ds. d < 2 ^ 31 - 1))"

lemma svi_left_view: "si_view it ds \<Longrightarrow> svi_left it = map int ds"
  unfolding si_view_def svi_left_def by (simp add: undelta_delta)

lemma svi_okE:
  assumes "svi_ok it"
  obtains ds where "si_view it ds" "svi_left it = map int ds" "sorted_wrt (<) (si_doc it # map int ds)" "\<forall>d\<in>set ds. d < 2 ^ 31 - 1"
  using assms svi_left_view by (auto simp: svi_ok_def)

lemma si_step_yields:
  assumes "sorted_wrt (<) ds" "\<forall>d\<in>set ds. d < 2 ^ 31 - 1"
    and "case ds of [] \<Rightarrow> si_doc it = NO_MORE_DOCS \<and> si_view it [] | d # ds \<Rightarrow> si_doc it = int d \<and> unat (si_lastInt it) = d \<and> si_view it ds"
  shows "yields svi_ok si_doc svi_left (map int ds) (Inr (si_doc it, it))"
proof (cases ds)
  case Nil
  then show ?thesis using assms(3) svi_left_view [of it "[]"] by simp
next
  case (Cons d ds')
  then have "svi_ok it" using assms by (auto simp: svi_ok_def sorted_wrt_map intro!: exI [of _ ds'])
  then show ?thesis using assms(3) svi_left_view [of it ds'] Cons by simp
qed

interpretation svint: doc_iter si_nextDoc si_advance si_doc svi_ok svi_left
proof
  fix it d x
  assume "svi_ok it"
  then obtain ds where v: "si_view it ds" "svi_left it = map int ds" "sorted_wrt (<) (si_doc it # map int ds)" "\<forall>d\<in>set ds. d < 2 ^ 31 - 1"
    by (rule svi_okE)
  show "sorted_wrt (<) (si_doc it # svi_left it)" using v(2,3) by simp
  show "d \<in> set (svi_left it) \<Longrightarrow> 0 \<le> d \<and> d < NO_MORE_DOCS" using v(2,4) by (auto simp: NO_MORE_DOCS_def)
  have s: "sorted_wrt (<) ds" using v(3) by (simp add: sorted_wrt_map)
  show "yields svi_ok si_doc svi_left (svi_left it) (si_nextDoc it)"
    using si_nextDoc_view [OF v(1)] si_step_yields [OF s v(4)] unfolding v(2) by auto
  have "map int (dropWhile (\<lambda>d. int d < x) ds) = dropWhile (\<lambda>d. d < x) (map int ds)"
    by (simp add: dropWhile_map o_def)
  moreover have "sorted_wrt (<) (dropWhile (\<lambda>d. int d < x) ds)"
    using s by (metis sorted_wrt_append takeWhile_dropWhile_id)
  moreover have "\<forall>d\<in>set (dropWhile (\<lambda>d. int d < x) ds). d < 2 ^ 31 - 1" using v(4) by (auto dest: set_dropWhileD)
  ultimately show "yields svi_ok si_doc svi_left (dropWhile (\<lambda>d. d < x) (svi_left it)) (si_advance x it)"
    using si_advance_view [OF v(1), of x] si_step_yields [of "dropWhile (\<lambda>d. int d < x) ds"] unfolding v(2) si_advance_def by auto
qed

subsection \<open>The constructors\<close>

lemma sv_fromInts_holds:
  assumes "sorted ns" "\<forall>n\<in>set ns. n < 2 ^ 31" "sv_fits ns"
  shows "\<exists>l. sv_fromInts (map of_nat ns) = Inr l \<and> sv_holds l ns \<and> sv_bytes l = delta_wire 0 ns"
  using sv_addInts_holds [OF sv_init_holds, of ns] assms sv_trim_holds by (auto simp: sv_fromInts_def)

lemma sv_fromInts_stored:
  assumes "sorted ns" "\<forall>n\<in>set ns. n < 2 ^ 31" "sv_fromInts (map of_nat ns) = Inr l"
  shows "sv_holds l ns"
proof -
  have "sv_grown (sv_bytes sv_initBytes)" by (simp add: sv_grown_def sv_initBytes_def)
  then show ?thesis using sv_addInts_stored [OF sv_init_holds, of ns] assms sv_trim_holds by (auto simp: sv_fromInts_def bind_r_Inr_iff)
qed

lemma sv_iterator_ok:
  assumes "sv_holds l ns" "sorted_wrt (<) ns" "\<forall>n\<in>set ns. n < 2 ^ 31 - 1"
  shows "svi_ok (sv_iterator l)" "svi_left (sv_iterator l) = map int ns" "si_doc (sv_iterator l) = -1"
proof -
  note v = si_new_view [OF assms(1)]
  show "svi_left (sv_iterator l) = map int ns" by (rule svi_left_view [OF v])
  show d: "si_doc (sv_iterator l) = -1" by (simp add: sv_iterator_def)
  show "svi_ok (sv_iterator l)" using v assms(2,3) by (auto simp: svi_ok_def d sorted_wrt_map)
qed

lemma sv_bits_loop_holds:
  "sorted_list_of_set {m \<in> bset s. k \<le> m} = ds \<Longrightarrow> finite (bset s) \<Longrightarrow> \<forall>m\<in>bset s. m < 2 ^ 31 - 1 \<Longrightarrow> sv_holds l es \<Longrightarrow>
   last (0 # es) \<le> k \<Longrightarrow> k < 2 ^ 31 \<Longrightarrow> sv_fits (es @ ds) \<Longrightarrow>
   \<exists>l'. sv_bits_loop s (nextSetBit32 (int k) s) l = Some (Inr l') \<and> sv_holds l' (es @ ds)"
proof (induction ds arbitrary: k l es)
  case Nil
  from nextSetBit32_least [of "int k" s] Nil.prems(6) obtain r where
    r: "nextSetBit32 (int k) s = trunc32 (next_result r)" "least_from (bset s) k r" by auto
  have "{m \<in> bset s. k \<le> m} = {}" using Nil.prems(1,2) by simp
  then have "r = None" using r(2) by (cases r) (auto simp: least_from_def)
  then show ?case using Nil.prems(4) by (simp add: r(1) next_result_def sv_bits_loop.simps [of s])
next
  case (Cons d ds)
  from nextSetBit32_least [of "int k" s] Cons.prems(6) obtain r where
    r: "nextSetBit32 (int k) s = trunc32 (next_result r)" "least_from (bset s) k r" by auto
  have A: "set (d # ds) = {m \<in> bset s. k \<le> m}" "sorted_wrt (<) (d # ds)"
    unfolding Cons.prems(1) [symmetric] using Cons.prems(2) by simp_all
  then have d: "d \<in> bset s" "k \<le> d" by auto
  have "\<forall>m\<in>set (d # ds). d \<le> m" using A(2) by (auto simp: less_imp_le)
  then have "\<forall>m\<in>bset s. k \<le> m \<longrightarrow> d \<le> m" unfolding A(1) by blast
  note d = d this
  then have "r = Some d" using r(2) by (cases r) (auto simp: least_from_def intro: antisym)
  moreover have lim: "d < 2 ^ 31 - 1" using Cons.prems(3) d(1) by blast
  ultimately have n: "nextSetBit32 (int k) s = int d" by (simp add: r(1) next_result_def)
  obtain l' where l': "sv_addInt (of_nat d) l = Inr l'" "sv_holds l' (es @ [d])"
    using sv_addInt_holds [OF Cons.prems(4), of d] Cons.prems(5) d(2) lim sv_fits_append [OF Cons.prems(7)] by auto
  have "{m \<in> bset s. Suc d \<le> m} = set ds" using A d by (auto simp: Suc_le_eq)
  then have "sorted_list_of_set {m \<in> bset s. Suc d \<le> m} = ds"
    using A(2) by (simp add: sorted_list_of_set.idem_if_sorted_distinct strict_sorted_iff)
  from Cons.IH [OF this Cons.prems(2,3) l'(2)] lim Cons.prems(7) obtain l'' where
    "sv_bits_loop s (nextSetBit32 (int (Suc d)) s) l' = Some (Inr l'')" "sv_holds l'' (es @ d # ds)" by auto
  then show ?case using n l'(1) by (simp add: sv_bits_loop.simps [of s "int d"] add.commute)
qed

lemma sv_fromOpenBitSet_holds:
  assumes "finite (bset s)" "\<forall>m\<in>bset s. m < 2 ^ 31 - 1" "sv_fits (sorted_list_of_set (bset s))"
  shows "\<exists>l. sv_fromOpenBitSet s = Inr l \<and> sv_holds l (sorted_list_of_set (bset s)) \<and>
    sv_bytes l = delta_wire 0 (sorted_list_of_set (bset s))"
  using sv_bits_loop_holds [OF refl assms(1,2) sv_init_holds, of 0] assms(3) sv_trim_holds by (auto simp: sv_fromOpenBitSet_def)

lemma collect_addInts:
  "sv_holds l es \<Longrightarrow> sorted_wrt (<) ds \<Longrightarrow> \<forall>d\<in>set ds. int (last (0 # es)) \<le> d \<and> d < NO_MORE_DOCS \<Longrightarrow> sv_fits (es @ map nat ds) \<Longrightarrow>
   \<exists>l'. collect_list (\<lambda>doc. sv_addInt (of_int doc)) ds l = Inr l' \<and> sv_holds l' (es @ map nat ds)"
proof (induction ds arbitrary: l es)
  case (Cons d ds)
  then have d: "last (0 # es) \<le> nat d" "nat d < 2 ^ 31" "0 \<le> d" by (auto simp: NO_MORE_DOCS_def)
  obtain l' where l': "sv_addInt (of_nat (nat d)) l = Inr l'" "sv_holds l' (es @ [nat d])"
    using sv_addInt_holds [OF Cons.prems(1) d(1,2) sv_fits_append [OF Cons.prems(4)]] by auto
  have "(of_int d :: int32) = of_nat (nat d)" using d(3) by simp
  moreover have "\<exists>l''. collect_list (\<lambda>doc. sv_addInt (of_int doc)) ds l' = Inr l'' \<and> sv_holds l'' ((es @ [nat d]) @ map nat ds)"
    by (rule Cons.IH [OF l'(2)]) (use Cons.prems(2-4) d(3) in \<open>auto simp: less_imp_le\<close>)
  ultimately show ?case using l'(1) by simp
qed simp

context doc_iter begin

lemma sv_fromIterator_holds:
  assumes "ok s" "sv_fits (map nat (rest s))"
  shows "\<exists>l. sv_fromIterator nxt s = Inr l \<and> sv_holds l (map nat (rest s)) \<and> sv_bytes l = delta_wire 0 (map nat (rest s))"
proof -
  obtain l where l: "collect_list (\<lambda>doc. sv_addInt (of_int doc)) (rest s) sv_initBytes = Inr l" "sv_holds l (map nat (rest s))"
    using collect_addInts [OF sv_init_holds, of "rest s"] iter_sorted [OF assms(1)] iter_docs [OF assms(1)] assms(2) by auto
  then show ?thesis
    using score_loop_collects [OF assms(1), of "\<lambda>doc. sv_addInt (of_int doc)" sv_initBytes] sv_trim_holds [OF l(2)]
    by (auto simp: sv_fromIterator_def score_all_def)
qed

end

text \<open>
  C12. A list built from non-decreasing numbers holds their differences in the variable-length
  encoding, reports their number, and iterates over exactly these numbers in their order. The
  encoding must stay below \<open>2 ^ 30 - 7\<close> bytes: up to there the array can double in 31 bits.
\<close>

theorem svint_roundtrip:
  assumes "sorted ns" "\<forall>n\<in>set ns. n < 2 ^ 31 - 1" "length (delta_wire 0 ns) \<le> 2 ^ 30 - 8"
  shows "\<exists>l t. sv_fromInts (map of_nat ns) = Inr l \<and> sv_size l = length ns \<and> sv_bytes l = delta_wire 0 ns \<and>
    score_all si_nextDoc collect_doc (sv_iterator l) [] = Inr (t, map int ns)"
proof -
  have "\<forall>n\<in>set ns. n < 2 ^ 31" using assms(2) by auto
  then obtain l where l: "sv_fromInts (map of_nat ns) = Inr l" "sv_holds l ns" "sv_bytes l = delta_wire 0 ns"
    using sv_fromInts_holds [OF assms(1)] assms(3) by (auto simp: sv_fits_def sv_limit_def)
  then show ?thesis using si_score_docs [OF si_new_view [OF l(2)] assms(2), of "[]"]
    by (auto simp: score_all_def sv_holds_def)
qed

theorem svint_roundtrip_witness:
  "\<exists>l t. sv_fromInts (map of_nat [3, 3, 300]) = Inr l \<and> sv_bytes l = [3, 0, 0xA9, 2] \<and>
    score_all si_nextDoc collect_doc (sv_iterator l) [] = Inr (t, [3, 3, 300])"
  using svint_roundtrip [of "[3, 3, 300]"] by (auto simp: nat_wire_small nat_wire_large)

text \<open>
  C31. A number below its predecessor, or a negative first number, is refused with
  \<^verbatim>\<open>IllegalArgument\<close>, as long as the difference does not leave the range of \<^verbatim>\<open>int32_t\<close> and the
  numbers before it fit the array.
\<close>

theorem svint_rejects_unsorted:
  assumes "sorted ns" "\<forall>n\<in>set ns. n < 2 ^ 31" "i < int (last (0 # ns))" "int (last (0 # ns)) - 2 ^ 31 \<le> i"
    "length (delta_wire 0 ns) \<le> 2 ^ 30 - 8"
  shows "sv_fromInts (map of_nat ns @ of_int i # is) = Inl IllegalArgument"
proof -
  obtain l where l: "sv_addInts (map of_nat ns) sv_initBytes = Inr l" "sv_holds l ns"
    using sv_addInts_holds [OF sv_init_holds, of ns] assms(1,2,5) by (auto simp: sv_fits_def sv_limit_def)
  have "sv_addInts (xs @ ys) m = bind_r (sv_addInts xs m) (sv_addInts ys)" for xs ys m
    by (induction xs arbitrary: m) (simp_all add: bind_r_assoc fun_eq_iff bind_r_def split: sum.splits)
  then show ?thesis using l(1) sv_addInt_rejects [OF l(2) assms(3,4)] by (simp add: sv_fromInts_def)
qed

theorem svint_rejects_unsorted_witness: "sv_fromInts [4, 7, 5] = Inl IllegalArgument \<and> sv_fromInts [-1] = Inl IllegalArgument"
  using svint_rejects_unsorted [of "[4, 7]" 5 "[]"] svint_rejects_unsorted [of "[]" "-1" "[]"] by (simp add: nat_wire_small)

text \<open>
  C23. Building a list from an \<^verbatim>\<open>OpenBitSet\<close> never throws, and the list iterates over exactly
  the bits that are set, in rising order; so does a list built from the iterator of another list.
  The bits are below \<open>2 ^ 31 - 1\<close> and their differences take at most \<open>2 ^ 30 - 8\<close> bytes.
\<close>

theorem svint_of_bits:
  assumes "obs_ok s" "\<forall>m\<in>bset s. m < 2 ^ 31 - 1" "length (delta_wire 0 (sorted_list_of_set (bset s))) \<le> 2 ^ 30 - 8"
  shows "\<exists>l t l' t'. sv_fromOpenBitSet s = Inr l \<and> sv_size l = card (bset s) \<and>
    score_all si_nextDoc collect_doc (sv_iterator l) [] = Inr (t, map int (sorted_list_of_set (bset s))) \<and>
    sv_fromIterator si_nextDoc (sv_iterator l) = Inr l' \<and> sv_bytes l' = sv_bytes l \<and>
    score_all si_nextDoc collect_doc (sv_iterator l') [] = Inr (t', map int (sorted_list_of_set (bset s)))"
proof -
  have f: "finite (bset s)" using assms(2) by (intro finite_subset [of "bset s" "{..<2 ^ 31 - 1}"]) auto
  let ?ds = "sorted_list_of_set (bset s)"
  have ds: "sorted_wrt (<) ?ds" "\<forall>d\<in>set ?ds. d < 2 ^ 31 - 1" using f assms(2) by simp_all
  have fits: "sv_fits ?ds" using assms(3) by (simp add: sv_fits_def sv_limit_def)
  obtain l where l: "sv_fromOpenBitSet s = Inr l" "sv_holds l ?ds" "sv_bytes l = delta_wire 0 ?ds"
    using sv_fromOpenBitSet_holds [OF f assms(2) fits] by auto
  note it = sv_iterator_ok [OF l(2) ds]
  have nat: "map nat (map int ?ds) = ?ds" by (simp add: o_def)
  obtain l' where l': "sv_fromIterator si_nextDoc (sv_iterator l) = Inr l'" "sv_holds l' ?ds" "sv_bytes l' = delta_wire 0 ?ds"
    using svint.sv_fromIterator_holds [OF it(1)] fits unfolding it(2) nat by auto
  note it' = sv_iterator_ok [OF l'(2) ds]
  show ?thesis
    using l l' svint.score_all_docs [OF it(1)] svint.score_all_docs [OF it'(1)] unfolding it(2) it'(2)
    by (auto simp: sv_holds_def)
qed

theorem svint_of_bits_witness:
  "\<exists>l t. sv_fromOpenBitSet \<lparr>bits = [6], wlen = 1\<rparr> = Inr l \<and>
    score_all si_nextDoc collect_doc (sv_iterator l) [] = Inr (t, [1, 2])"
proof -
  let ?s = "\<lparr>bits = [6], wlen = 1\<rparr> :: obs"
  have six: "(6 :: int64) = push_bit 1 (mask 2)" by (simp add: mask_eq_exp_minus_1)
  have bit6: "bit (6 :: int64) j \<longleftrightarrow> j = 1 \<or> j = 2" for j
    unfolding six bit_push_bit_iff bit_mask_iff by auto
  have "obs_bit ?s m \<longleftrightarrow> m = 1 \<or> m = 2" for m
  proof (cases "m < 64")
    case True
    then have "obs_bit ?s m \<longleftrightarrow> bit (6 :: int64) m" unfolding obs_bit_def by simp
    then show ?thesis unfolding bit6 .
  qed (auto simp: obs_bit_def)
  then have b: "bset ?s = {1, 2}" unfolding bset_def by auto
  then have l: "sorted_list_of_set (bset ?s) = [1, 2]" by simp
  have "obs_ok ?s" by (simp add: obs_ok_def)
  moreover have "\<forall>m\<in>bset ?s. m < 2 ^ 31 - 1" unfolding b by simp
  moreover have "length (delta_wire 0 (sorted_list_of_set (bset ?s))) \<le> 2 ^ 30 - 8" unfolding l by (simp add: nat_wire_small)
  ultimately obtain k t where "sv_fromOpenBitSet ?s = Inr k"
    "score_all si_nextDoc collect_doc (sv_iterator k) [] = Inr (t, map int (sorted_list_of_set (bset ?s)))"
    using svint_of_bits [of ?s] by blast
  then show ?thesis unfolding l by (intro exI [of _ k] exI [of _ t] conjI) simp_all
qed

end
