(* ===== verification/BooleanQuery.thy ===== *)
theory BooleanQuery imports SortedVIntList begin

text \<open>
  Queries put together from the iterators: required terms (\<^verbatim>\<open>ConjunctionScorer\<close>), prohibited
  ones (\<^verbatim>\<open>ReqExclScorer\<close>), a filter (\<^verbatim>\<open>FilteredDocIdSetIterator\<close>) and optional ones
  (\<^verbatim>\<open>ReqOptSumScorer\<close>) over postings held in \<^verbatim>\<open>SortedVIntList\<close>s. The interfaces are
  interpreted on the model's own classes; the properties say which documents the search loop
  of \<^verbatim>\<open>Scorer::score\<close> collects.
\<close>

abbreviation all_next where "all_next \<equiv> cj_nextDoc si_nextDoc si_advance si_doc"
abbreviation all_advance where "all_advance \<equiv> cj_advance si_advance si_doc"

interpretation all: doc_iter all_next all_advance cj_lastDoc "cj_ok si_doc svi_ok svi_left" "cj_rest si_doc svi_left"
  by (rule svint.conjunction_iter)

interpretation some: filtered_docs si_nextDoc si_advance si_doc svi_ok svi_left match for match
  by (rule filtered_docs.intro) (rule svint.doc_iter_axioms)

interpretation but_not: two_iters all_next all_advance cj_lastDoc "cj_ok si_doc svi_ok svi_left" "cj_rest si_doc svi_left"
  "fi_nextDoc match si_nextDoc" "fi_advance match si_nextDoc si_advance" fi_doc "fi_ok si_doc svi_ok" "fi_rest match svi_left" for match
  by (rule two_iters.intro) (rule all.doc_iter_axioms, rule some.filtered.doc_iter_axioms)

interpretation maybe: two_iters si_nextDoc si_advance si_doc svi_ok svi_left si_nextDoc si_advance si_doc svi_ok svi_left
  by (rule two_iters.intro) (rule svint.doc_iter_axioms)+

definition strict_docs :: "nat list \<Rightarrow> bool" where
  "strict_docs ns \<longleftrightarrow> sorted_wrt (<) ns \<and> (\<forall>n\<in>set ns. n < 2 ^ 31 - 1)"

text \<open>A list that could be built, and lists that can be.\<close>

lemma built_postings:
  assumes "strict_docs ns" "sv_fromInts (map of_nat ns) = Inr l"
  shows "svi_ok (sv_iterator l) \<and> svi_left (sv_iterator l) = map int ns \<and> si_doc (sv_iterator l) = -1"
proof -
  have ns: "sorted ns" "\<forall>n\<in>set ns. n < 2 ^ 31" "sorted_wrt (<) ns" "\<forall>n\<in>set ns. n < 2 ^ 31 - 1"
    using assms(1) by (auto simp: strict_docs_def strict_sorted_iff)
  show ?thesis using sv_iterator_ok [OF sv_fromInts_stored [OF ns(1,2) assms(2)] ns(3,4)] by blast
qed

lemma postings:
  assumes "strict_docs ns" "sv_fits ns"
  shows "\<exists>l. sv_fromInts (map of_nat ns) = Inr l \<and> svi_ok (sv_iterator l) \<and> svi_left (sv_iterator l) = map int ns \<and>
    si_doc (sv_iterator l) = -1"
proof -
  have "sorted ns" "\<forall>n\<in>set ns. n < 2 ^ 31" using assms(1) by (auto simp: strict_docs_def strict_sorted_iff)
  then show ?thesis using sv_fromInts_holds [OF _ _ assms(2)] built_postings [OF assms(1)] by blast
qed

lemma all_postings:
  assumes "reqs \<noteq> []" "\<forall>ns\<in>set reqs. strict_docs ns \<and> sv_fits ns"
  shows "\<exists>ls c. map (\<lambda>ns. sv_fromInts (map of_nat ns)) reqs = map Inr ls \<and>
    newConjunctionScorer si_nextDoc si_advance si_doc (map sv_iterator ls) = Inr c \<and>
    cj_ok si_doc svi_ok svi_left c \<and> cj_rest si_doc svi_left c = sorted_list_of_set (\<Inter>ns\<in>set reqs. int ` set ns)"
proof -
  obtain f where f: "\<forall>ns\<in>set reqs. sv_fromInts (map of_nat ns) = Inr (f ns) \<and> svi_ok (sv_iterator (f ns)) \<and>
      svi_left (sv_iterator (f ns)) = map int ns"
    using assms(2) postings by metis
  let ?its = "map sv_iterator (map f reqs)"
  have "?its \<noteq> []" "\<forall>it\<in>set ?its. svi_ok it" using assms(1) f by auto
  from svint.newConjunctionScorer_ok [OF this] obtain c where c:
    "newConjunctionScorer si_nextDoc si_advance si_doc ?its = Inr c" "cj_ok si_doc svi_ok svi_left c"
    "cj_rest si_doc svi_left c = sorted_list_of_set (\<Inter>it\<in>set ?its. set (svi_left it))" by auto
  have "(\<Inter>it\<in>set ?its. set (svi_left it)) = (\<Inter>ns\<in>set reqs. int ` set ns)" using f by auto
  moreover have "map (\<lambda>ns. sv_fromInts (map of_nat ns)) reqs = map Inr (map f reqs)" using f by simp
  ultimately show ?thesis using c by metis
qed

text \<open>
  C4. A query of required terms, with the documents of one more term that pass a filter left
  out: over postings of any lengths whose lists can be built (at most 2^30 - 8 bytes each: the array doubles within
  \<^verbatim>\<open>int32_t\<close>) the search ends, never throws, and collects exactly the
  documents of all required terms that are not among the prohibited ones, in rising order.
\<close>

theorem boolean_query:
  assumes "reqs \<noteq> []" "\<forall>ns\<in>set (ex # reqs). strict_docs ns \<and> length (delta_wire 0 ns) \<le> 2 ^ 30 - 8"
  shows "\<exists>ls l c t. map (\<lambda>ns. sv_fromInts (map of_nat ns)) reqs = map Inr ls \<and> sv_fromInts (map of_nat ex) = Inr l \<and>
    newConjunctionScorer si_nextDoc si_advance si_doc (map sv_iterator ls) = Inr c \<and>
    score_all (re_nextDoc all_next cj_lastDoc (fi_advance match si_nextDoc si_advance) fi_doc) collect_doc
      (newReqExclScorer c \<lparr>fi_inner = sv_iterator l, fi_doc = -1\<rparr>) [] =
    Inr (t, sorted_list_of_set ((\<Inter>ns\<in>set reqs. int ` set ns) - {d \<in> int ` set ex. match d}))"
proof -
  let ?A = "\<Inter>ns\<in>set reqs. int ` set ns"
  have fits: "\<forall>ns\<in>set (ex # reqs). strict_docs ns \<and> sv_fits ns" using assms(2) by (simp add: sv_fits_def sv_limit_def)
  obtain ls c where c: "map (\<lambda>ns. sv_fromInts (map of_nat ns)) reqs = map Inr ls"
    "newConjunctionScorer si_nextDoc si_advance si_doc (map sv_iterator ls) = Inr c"
    "cj_ok si_doc svi_ok svi_left c" "cj_rest si_doc svi_left c = sorted_list_of_set ?A"
    using all_postings [OF assms(1)] fits by auto
  obtain l where l: "sv_fromInts (map of_nat ex) = Inr l" "svi_ok (sv_iterator l)" "svi_left (sv_iterator l) = map int ex"
    "si_doc (sv_iterator l) = -1" using postings [of ex] fits by auto
  let ?f = "\<lparr>fi_inner = sv_iterator l, fi_doc = -1\<rparr>" and ?r = "newReqExclScorer c \<lparr>fi_inner = sv_iterator l, fi_doc = -1\<rparr>"
  have fin: "finite ?A" using assms(1) by (cases reqs) auto
  have pos: "\<forall>d\<in>?A. 0 \<le> d \<and> d < NO_MORE_DOCS"
    using all.iter_docs [OF c(3)] c(4) fin by simp
  have up: "upcoming fi_doc (fi_rest match svi_left) (Some ?f) = insert (-1) {d \<in> int ` set ex. match d}"
    by (auto simp: upcoming_def fi_rest_def l(3))
  have "filter (\<lambda>d. d \<notin> upcoming fi_doc (fi_rest match svi_left) (Some ?f)) (sorted_list_of_set ?A) =
      sorted_list_of_set (?A - {d \<in> int ` set ex. match d})"
  proof (rule strict_sorted_equal)
    show "set (filter (\<lambda>d. d \<notin> upcoming fi_doc (fi_rest match svi_left) (Some ?f)) (sorted_list_of_set ?A)) =
        set (sorted_list_of_set (?A - {d \<in> int ` set ex. match d}))"
      unfolding up using fin pos by (auto simp del: INT_iff INT_simps)
  qed (simp_all add: sorted_wrt_filter)
  moreover have "yields (re_ok cj_lastDoc (cj_ok si_doc svi_ok svi_left) (fi_ok si_doc svi_ok)) re_doc
      (re_rest (cj_rest si_doc svi_left) fi_doc (fi_rest match svi_left))
      (filter (\<lambda>d. d \<notin> upcoming fi_doc (fi_rest match svi_left) (Some ?f)) (sorted_list_of_set ?A))
      (re_nextDoc all_next cj_lastDoc (fi_advance match si_nextDoc si_advance) fi_doc ?r)"
    using but_not.re_next_yields [of ?r c match] c(3,4) l(2,4) by (simp add: newReqExclScorer_def fi_ok_def)
  ultimately have "\<exists>t. score_all (re_nextDoc all_next cj_lastDoc (fi_advance match si_nextDoc si_advance) fi_doc) collect_doc ?r [] =
      Inr (t, sorted_list_of_set (?A - {d \<in> int ` set ex. match d}))"
    using fin pos by (intro but_not.difference.score_all_from [where match = match]) auto
  then show ?thesis using c(1,2) l(1) by blast
qed

theorem boolean_query_witness:
  "\<exists>ls l c t. map (\<lambda>ns. sv_fromInts (map of_nat ns)) [[1, 4, 7], [4, 5, 7, 9 :: nat]] = map Inr ls \<and> sv_fromInts (map of_nat [7]) = Inr l \<and>
    newConjunctionScorer si_nextDoc si_advance si_doc (map sv_iterator ls) = Inr c \<and>
    score_all (re_nextDoc all_next cj_lastDoc (fi_advance (\<lambda>d. True) si_nextDoc si_advance) fi_doc) collect_doc
      (newReqExclScorer c \<lparr>fi_inner = sv_iterator l, fi_doc = -1\<rparr>) [] = Inr (t, [4])"
proof -
  have "(\<Inter>ns\<in>set [[1, 4, 7], [4, 5, 7, 9 :: nat]]. int ` set ns) - {d \<in> int ` set [7]. True} = {4}" by auto
  then show ?thesis
    using boolean_query [of "[[1, 4, 7], [4, 5, 7, 9]]" "[7]" "\<lambda>d. True"] by (simp add: strict_docs_def nat_wire_small)
qed

text \<open>
  C16. Skipping: on a conjunction \<^verbatim>\<open>advance\<close>, which jumps with the \<^verbatim>\<open>advance\<close> of its parts,
  ends on the document that the loop over \<^verbatim>\<open>nextDoc\<close> of \<^verbatim>\<open>DocIdSetIterator.h\<close> ends on, and the
  search goes on from there with the same documents.
\<close>

theorem conjunction_advance_as_written:
  assumes "cj_ok si_doc svi_ok svi_left c" "cj_lastDoc c < x" "x \<le> NO_MORE_DOCS"
  shows "\<exists>d t u. all_advance x c = Inr (d, t) \<and> advance_loop all_next x c = Some (Inr (d, u)) \<and>
    (d \<noteq> NO_MORE_DOCS \<longrightarrow> (\<exists>v w ds. score_all all_next collect_doc t [] = Inr (v, ds) \<and> score_all all_next collect_doc u [] = Inr (w, ds)))"
proof -
  note a = all.adv_yields [OF assms]
  obtain r where r: "advance_loop all_next x c = Some r"
    "yields (cj_ok si_doc svi_ok svi_left) cj_lastDoc (cj_rest si_doc svi_left) (dropWhile (\<lambda>d. d < x) (cj_rest si_doc svi_left c)) r"
    using all.advance_as_written [OF assms(3) assms(1)] by auto
  show ?thesis
  proof (cases "dropWhile (\<lambda>d. d < x) (cj_rest si_doc svi_left c)")
    case Nil
    then show ?thesis using a r unfolding Nil by auto
  next
    case (Cons d ds)
    then obtain t u where t: "all_advance x c = Inr (d, t)" "cj_ok si_doc svi_ok svi_left t" "cj_rest si_doc svi_left t = ds"
      and u: "r = Inr (d, u)" "cj_ok si_doc svi_ok svi_left u" "cj_rest si_doc svi_left u = ds"
      using a r(2) unfolding Cons by auto
    then show ?thesis
      using r(1) all.score_all_docs [OF t(2)] all.score_all_docs [OF u(2)] by auto
  qed
qed

theorem conjunction_advance_as_written_witness:
  "\<exists>ls c d t u. map (\<lambda>ns. sv_fromInts (map of_nat ns)) [[1, 4, 7], [1, 4, 5, 7 :: nat]] = map Inr ls \<and>
    newConjunctionScorer si_nextDoc si_advance si_doc (map sv_iterator ls) = Inr c \<and>
    all_advance 2 c = Inr (d, t) \<and> advance_loop all_next 2 c = Some (Inr (d, u))"
proof -
  obtain ls c where c: "map (\<lambda>ns. sv_fromInts (map of_nat ns)) [[1, 4, 7], [1, 4, 5, 7 :: nat]] = map Inr ls"
    "newConjunctionScorer si_nextDoc si_advance si_doc (map sv_iterator ls) = Inr c"
    "cj_ok si_doc svi_ok svi_left c" "cj_rest si_doc svi_left c = sorted_list_of_set (\<Inter>ns\<in>set [[1, 4, 7], [1, 4, 5, 7]]. int ` set ns)"
  proof -
    have "\<forall>ns\<in>set [[1, 4, 7], [1, 4, 5, 7]]. strict_docs ns \<and> sv_fits ns" by (simp add: strict_docs_def sv_fits_def sv_limit_def nat_wire_small)
    from all_postings [OF _ this] show ?thesis using that by blast
  qed
  have "(\<Inter>ns\<in>set [[1, 4, 7], [1, 4, 5, 7]]. int ` set ns) = {1, 4, 7}" by auto
  then have "1 \<in> set (cj_rest si_doc svi_left c)" unfolding c(4) by simp
  then have "cj_lastDoc c < 2" using all.iter_sorted [OF c(3)] by fastforce
  then show ?thesis using conjunction_advance_as_written [OF c(3), of 2] c(1,2) by (auto simp: NO_MORE_DOCS_def)
qed

text \<open>
  C22. Optional terms only add to the score: whatever the caller did before, the score of the
  current document is that of the required part, plus that of the optional part standing on the
  same document exactly when the optional part has it.
\<close>

theorem optional_scores:
  assumes "strict_docs ns" "strict_docs os" "sv_fromInts (map of_nat ns) = Inr l" "sv_fromInts (map of_nat os) = Inr m"
    and "ro_reach si_nextDoc si_advance si_doc scr si_advance si_doc escr (newReqOptSumScorer (sv_iterator l) (Some (sv_iterator m))) r"
    and "0 \<le> ro_docID si_doc r"
  shows "\<exists>v r' e. ro_score si_doc scr si_advance si_doc escr r = Inr (v, r') \<and> ro_req r' = ro_req r \<and>
    (if ro_docID si_doc r \<in> int ` set os then ro_opt r' = Some e \<and> si_doc e = ro_docID si_doc r \<and> v = scr (ro_req r) + escr e
     else v = scr (ro_req r))"
proof -
  have l: "svi_ok (sv_iterator l)" "si_doc (sv_iterator l) = -1" using built_postings [OF assms(1,3)] by auto
  have m: "svi_ok (sv_iterator m)" "si_doc (sv_iterator m) = -1" "svi_left (sv_iterator m) = map int os"
    using built_postings [OF assms(2,4)] by auto
  have "upcoming si_doc svi_left (Some (sv_iterator m)) - {-1} = int ` set os" by (auto simp: upcoming_def m)
  then have "maybe.ro_inv (int ` set os) r"
    by (intro maybe.ro_reach_inv [OF assms(5)]) (simp_all add: newReqOptSumScorer_def l m(1))
  from maybe.ro_score_inv [OF this assms(6), of scr escr] show ?thesis by blast
qed

theorem optional_scores_witness:
  "\<exists>l m r v r'. sv_fromInts (map of_nat [3, 5]) = Inr l \<and> sv_fromInts (map of_nat [2, 3]) = Inr m \<and>
    ro_nextDoc si_nextDoc (newReqOptSumScorer (sv_iterator l) (Some (sv_iterator m))) = Inr (3, r) \<and>
    ro_score si_doc (\<lambda>_. 1) si_advance si_doc (\<lambda>_. 10) r = Inr (11 :: nat, r')"
proof -
  have s: "strict_docs [3, 5]" "strict_docs [2, 3]" "sv_fits [3, 5]" "sv_fits [2, 3]"
    by (simp_all add: strict_docs_def sv_fits_def sv_limit_def nat_wire_small)
  obtain l where l: "sv_fromInts (map of_nat [3, 5]) = Inr l" "svi_ok (sv_iterator l)" "svi_left (sv_iterator l) = map int [3, 5]"
    using postings [OF s(1,3)] by blast
  obtain m where m: "sv_fromInts (map of_nat [2, 3]) = Inr m" using postings [OF s(2,4)] by blast
  let ?r0 = "newReqOptSumScorer (sv_iterator l) (Some (sv_iterator m))"
  obtain t where t: "si_nextDoc (sv_iterator l) = Inr (3, t)" "si_doc t = 3"
    using svint.nxt_yields [OF l(2)] l(3) by auto
  then have r: "ro_nextDoc si_nextDoc ?r0 = Inr (3, ?r0\<lparr>ro_req := t\<rparr>)" by (simp add: ro_nextDoc_def newReqOptSumScorer_def)
  have "ro_reach si_nextDoc si_advance si_doc (\<lambda>_. 1) si_advance si_doc (\<lambda>_. 10 :: nat) ?r0 (?r0\<lparr>ro_req := t\<rparr>)"
    by (rule ro_reach.next_doc [OF ro_reach.new r]) (simp add: NO_MORE_DOCS_def)
  from optional_scores [OF s(1,2) l(1) m this] t(2) r l(1) m show ?thesis by (auto simp: ro_docID_def)
qed

end
