(* ===== verification/IndexStreams.thy ===== *)
theory IndexStreams imports ChecksumFile TextCodec begin

text \<open>
  What the readers and writers of index structures rely on beyond single bytes: an output that
  knows its file pointer, and an input that can be placed anywhere in its file. Both interfaces
  are interpreted on the buffered streams over files of \<^verbatim>\<open>store/BufferedIndexOutput.cpp\<close>,
  \<^verbatim>\<open>store/BufferedIndexInput.cpp\<close> and \<^verbatim>\<open>store/SimpleFSDirectory.cpp\<close>.
\<close>

subsection \<open>Outputs with a file pointer\<close>

locale out_stream = bulk_sink wb inv written wbs for wb :: "'s writer" and inv written wbs +
  fixes tell :: "'s \<Rightarrow> nat"
  assumes tell_written: "inv s \<Longrightarrow> tell s = length (written s)"

interpretation so_out: out_stream so_writeByte "\<lambda>s. fs_out.appending (fst s)" "\<lambda>s. fs_out.view (fst s)" so_writeBytes so_pointer
proof
  fix bs show "so_sink.puts (so_writeBytes bs) bs"
    unfolding so_sink.puts_def
  proof (intro allI impI)
    fix s :: fs_out assume a: "fs_out.appending (fst s)"
    then have "out_at (fs_out.view (fst s)) (length (fs_out.view (fst s))) s" by (simp add: out_at_def fs_out.appending_def)
    from exec_out_at [OF this, of "WBytes bs"] show "\<exists>s'. so_writeBytes bs s = Inr s' \<and> fs_out.appending (fst s') \<and> fs_out.view (fst s') = fs_out.view (fst s) @ bs"
      by (auto simp: out_at_def fs_out.appending_def overwrite_end)
  qed
qed (simp add: fs_out.appending_def so_pointer_def)

lemma new_so_out: "fs_out.appending (fst newSimpleFSIndexOutput)" "fs_out.view (fst newSimpleFSIndexOutput) = []"
  using new_out_at by (simp_all add: fs_out.appending_def out_at_def)

text \<open>What is on disk after the flush.\<close>

lemma so_flushed:
  assumes "fs_out.appending (fst s)"
  shows "\<exists>t. so_flush s = Inr t \<and> on_disk t = fs_out.view (fst s)"
proof -
  have "out_at (fs_out.view (fst s)) (length (fs_out.view (fst s))) s" using assms by (simp add: out_at_def fs_out.appending_def)
  from flush_out_at [OF this] obtain t f where "so_flush s = Inr ((t, Some f), snd s)" "of_bytes f = fs_out.view (fst s)" by blast
  then show ?thesis by (auto simp: on_disk_def)
qed

subsection \<open>Inputs that can be placed\<close>

text \<open>\<open>at D p s\<close>: the stream \<open>s\<close> over a file with the bytes \<open>D\<close> stands at \<open>p\<close>.\<close>

locale in_stream =
  fixes rb :: "'s reader" and rbs :: "nat \<Rightarrow> 's \<Rightarrow> (byte list \<times> 's) result" and sk :: "nat \<Rightarrow> 's \<Rightarrow> 's result" and tl :: "'s \<Rightarrow> nat"
    and at :: "byte list \<Rightarrow> nat \<Rightarrow> 's \<Rightarrow> bool"
  assumes at_byte: "at D p s \<Longrightarrow> p < length D \<Longrightarrow> \<exists>t. rb s = Inr (D ! p, t) \<and> at D (p + 1) t"
    and at_eof: "at D p s \<Longrightarrow> length D \<le> p \<Longrightarrow> rb s = Inl IOException"
    and at_bytes: "at D p s \<Longrightarrow> p + n \<le> length D \<Longrightarrow> n < 2 ^ 31 \<Longrightarrow> \<exists>t. rbs n s = Inr (take n (drop p D), t) \<and> at D (p + n) t"
    and at_seek: "at D p s \<Longrightarrow> q \<le> length D \<Longrightarrow> \<exists>t. sk q s = Inr t \<and> at D q t"
    and at_tell: "at D p s \<Longrightarrow> p < length D \<Longrightarrow> tl s = p"
    and at_unique: "at D p s \<Longrightarrow> at D q s \<Longrightarrow> p \<le> length D \<Longrightarrow> q \<le> length D \<Longrightarrow> p = q"
begin

definition inside :: "byte list \<Rightarrow> 's \<Rightarrow> bool" where
  "inside D s \<longleftrightarrow> (\<exists>p\<le>length D. at D p s)"

definition ahead :: "byte list \<Rightarrow> 's \<Rightarrow> byte list" where
  "ahead D s = drop (THE p. p \<le> length D \<and> at D p s) D"

lemma ahead_at: "at D p s \<Longrightarrow> p \<le> length D \<Longrightarrow> inside D s \<and> ahead D s = drop p D"
  using at_unique by (auto simp: inside_def ahead_def intro!: arg_cong [of _ _ "\<lambda>p. drop p D"])

lemma source: "byte_source rb (inside D) (ahead D)"
proof
  fix s b bs assume "inside D s" "ahead D s = b # bs"
  then obtain p where p: "at D p s" "p \<le> length D" "drop p D = b # bs" using ahead_at by (auto simp: inside_def)
  then have l: "p < length D" by (cases "p < length D") auto
  then have "D ! p = b" "drop (p + 1) D = bs" using p(3) by (auto simp: Cons_nth_drop_Suc [symmetric])
  then show "\<exists>t. rb s = Inr (b, t) \<and> inside D t \<and> ahead D t = bs"
    using at_byte [OF p(1) l] ahead_at [of D "p + 1"] l by fastforce
next
  fix s assume "inside D s" "ahead D s = []"
  then obtain p where "at D p s" "p \<le> length D" "drop p D = []" using ahead_at by (auto simp: inside_def)
  then show "rb s = Inl IOException" using at_eof by simp
qed

definition reads :: "('s \<Rightarrow> ('v \<times> 's) result) \<Rightarrow> byte list \<Rightarrow> 'v \<Rightarrow> bool" where
  "reads f bs v \<longleftrightarrow> (\<forall>D. byte_source.gets (inside D) (ahead D) f bs v)"

lemma readsI: "(\<And>D. byte_source rb (inside D) (ahead D) \<Longrightarrow> byte_source.gets (inside D) (ahead D) f bs v) \<Longrightarrow> reads f bs v"
  using source by (simp add: reads_def)

lemma readsD:
  assumes "reads f bs v" "at D p s" "p \<le> length D" "drop p D = bs @ r"
  shows "\<exists>t. f s = Inr (v, t) \<and> at D (p + length bs) t"
proof -
  have "byte_source.gets (inside D) (ahead D) f bs v" using assms(1) by (simp add: reads_def)
  from byte_source.getsD [OF source this, of s r] ahead_at [OF assms(2,3)] assms(4) obtain t where
    t: "f s = Inr (v, t)" "inside D t" "ahead D t = r" by auto
  then obtain q where q: "at D q t" "q \<le> length D" "drop q D = r" using ahead_at by (auto simp: inside_def)
  have "length D - p = length bs + length r" "length D - q = length r" using assms(4) q(3) by (metis length_append length_drop)+
  then have "q = p + length bs" using assms(3) q(2) by linarith
  then show ?thesis using t(1) q(1) by blast
qed

lemma reads_return: "reads (\<lambda>s. Inr (v, s)) [] v"
  by (rule readsI) (rule byte_source.gets_return)

lemma reads_bind:
  assumes "reads f xs v" "reads (g v) ys w"
  shows "reads (\<lambda>s. bind_r (f s) (\<lambda>(v, s). g v s)) (xs @ ys) w"
proof (rule readsI)
  fix D assume b: "byte_source rb (inside D) (ahead D)"
  show "byte_source.gets (inside D) (ahead D) (\<lambda>s. bind_r (f s) (\<lambda>(v, s). g v s)) (xs @ ys) w"
    by (rule byte_source.gets_bind [OF b, where v = v]) (use assms in \<open>simp_all add: reads_def\<close>)
qed

lemma reads_vint: "reads (readVInt rb) (nat_wire (unat i)) i"
  by (rule readsI) (rule byte_source.gets_vint)

lemma reads_bytes:
  assumes "length bs < 2 ^ 31"
  shows "reads (rbs (length bs)) bs bs"
proof (rule readsI)
  fix D assume b: "byte_source rb (inside D) (ahead D)"
  show "byte_source.gets (inside D) (ahead D) (rbs (length bs)) bs bs"
  proof (rule byte_source.getsI [OF b])
    fix s r assume "inside D s" "ahead D s = bs @ r"
    then obtain p where p: "at D p s" "p \<le> length D" "drop p D = bs @ r" using ahead_at by (auto simp: inside_def)
    have "length D - p = length bs + length r" using p(3) by (metis length_append length_drop)
    then have l: "p + length bs \<le> length D" using p(2) by linarith
    have "drop (p + length bs) D = r" using arg_cong [OF p(3), of "drop (length bs)"] by (simp add: add.commute)
    moreover obtain t where "rbs (length bs) s = Inr (bs, t)" "at D (p + length bs) t" using at_bytes [OF p(1) l assms] p(3) by auto
    ultimately show "\<exists>t. rbs (length bs) s = Inr (bs, t) \<and> inside D t \<and> ahead D t = r"
      using ahead_at [of D "p + length bs" t] l by simp
  qed
qed

end

text \<open>The stream over a file, with chunks of \<open>chunk\<close> bytes.\<close>

abbreviation fs_readByte :: "nat \<Rightarrow> (buf_in \<times> in_file) reader" where
  "fs_readByte chunk \<equiv> bi_readByte inf_length (si_readInternal chunk) si_seekInternal"

abbreviation fs_readBytes :: "nat \<Rightarrow> nat \<Rightarrow> buf_in \<times> in_file \<Rightarrow> (byte list \<times> (buf_in \<times> in_file)) result" where
  "fs_readBytes chunk \<equiv> bi_readBytes inf_length (si_readInternal chunk) si_seekInternal True"

definition fs_seek :: "nat \<Rightarrow> buf_in \<times> in_file \<Rightarrow> (buf_in \<times> in_file) result" where
  "fs_seek pos s = Inr (bi_seek si_seekInternal pos s)"

definition fs_getFilePointer :: "buf_in \<times> in_file \<Rightarrow> nat" where
  "fs_getFilePointer s = bi_getFilePointer (fst s)"

lemma stream_at_pointer:
  assumes "stream_at chunk D p s" "p < length D"
  shows "bi_getFilePointer (fst s) = p"
proof -
  have "drop (bi_start (fst s) + bi_position (fst s)) D = drop p D" using assms(1) by (simp add: stream_at_def bi_rest_def)
  then have "length D - (bi_start (fst s) + bi_position (fst s)) = length D - p" by (metis length_drop)
  then show ?thesis using assms(2) unfolding bi_getFilePointer_def by linarith
qed

lemma fs_stream_step:
  assumes "stream_at chunk D p s"
  shows "p < length D \<Longrightarrow> \<exists>t. fs_readByte chunk s = Inr (D ! p, t) \<and> stream_at chunk D (p + 1) t"
    "length D \<le> p \<Longrightarrow> fs_readByte chunk s = Inl IOException"
    "p + n \<le> length D \<Longrightarrow> n < 2 ^ 31 \<Longrightarrow> \<exists>t. fs_readBytes chunk n s = Inr (take n (drop p D), t) \<and> stream_at chunk D (p + n) t"
    "q \<le> length D \<Longrightarrow> \<exists>t. fs_seek q s = Inr t \<and> stream_at chunk D q t"
proof -
  obtain b f where s: "s = (b, f)" by (cases s)
  have a: "stream_at chunk D p (b, f)" using assms s by simp
  show "\<exists>t. fs_readByte chunk s = Inr (D ! p, t) \<and> stream_at chunk D (p + 1) t" if "p < length D"
    using exec_agrees [OF a, of RByte] that s by (cases "fs_readByte chunk (b, f)") auto
  show "fs_readByte chunk s = Inl IOException" if "length D \<le> p"
    using exec_agrees [OF a, of RByte] that s by (cases "fs_readByte chunk (b, f)") auto
  show "\<exists>t. fs_readBytes chunk n s = Inr (take n (drop p D), t) \<and> stream_at chunk D (p + n) t" if "p + n \<le> length D" "n < 2 ^ 31"
  proof -
    have "n \<le> length D - p" using that(1) by simp
    then show ?thesis using exec_agrees [OF a, of "RBytes True n"] that(2) s by simp
  qed
  show "\<exists>t. fs_seek q s = Inr t \<and> stream_at chunk D q t" if "q \<le> length D"
    using exec_agrees [OF a, of "RSeek q"] that s by (auto simp: fs_seek_def)
qed

interpretation fs_stream: in_stream "fs_readByte chunk" "fs_readBytes chunk" fs_seek fs_getFilePointer "stream_at chunk" for chunk
proof
  fix D p q and s :: "buf_in \<times> in_file"
  show "p = q" if "stream_at chunk D p s" "stream_at chunk D q s" "p \<le> length D" "q \<le> length D"
  proof -
    have "drop p D = drop q D" using that(1,2) by (simp add: stream_at_def)
    then have "length D - p = length D - q" by (metis length_drop)
    then show ?thesis using that(3,4) by simp
  qed
qed (use fs_stream_step stream_at_pointer in \<open>auto simp: fs_getFilePointer_def\<close>)

end
