(* ===== verification/SkipListWriter.thy ===== *)
theory SkipListWriter imports IndexStreams begin

text \<open>
  \<^verbatim>\<open>index/DefaultSkipListWriter.cpp\<close> over \<^verbatim>\<open>index/MultiLevelSkipListWriter.cpp\<close>: the
  skip data of one term, collected in one buffer in memory for each level and copied behind the
  postings of the term. The logarithms of the C++ library, rounded to a number of levels, are the
  argument \<open>floorLog\<close>.
\<close>

record skip_writer =
  sw_skipInterval :: nat
  sw_numberOfSkipLevels :: nat
  sw_skipBuffer :: "ram_out list option"
  sw_curDoc :: int
  sw_curStorePayloads :: bool
  sw_curPayloadLength :: int
  sw_curFreqPointer :: int
  sw_curProxPointer :: int
  sw_lastSkipDoc :: "int list"
  sw_lastSkipPayloadLength :: "int list"
  sw_lastSkipFreqPointer :: "int list"
  sw_lastSkipProxPointer :: "int list"

text \<open>The member \<^verbatim>\<open>numberOfSkipLevels\<close> is the larger of the computed number and the maximum;
  the four arrays of \<^verbatim>\<open>DefaultSkipListWriter\<close> are sized by its argument, the maximum.\<close>

definition newSkipListWriter :: "(nat \<Rightarrow> nat \<Rightarrow> nat) \<Rightarrow> nat \<Rightarrow> nat \<Rightarrow> nat \<Rightarrow> skip_writer" where
  "newSkipListWriter floorLog skipInterval maxSkipLevels docCount =
     \<lparr>sw_skipInterval = skipInterval,
      sw_numberOfSkipLevels = max (if docCount = 0 then 0 else floorLog docCount skipInterval) maxSkipLevels,
      sw_skipBuffer = None, sw_curDoc = 0, sw_curStorePayloads = False, sw_curPayloadLength = 0, sw_curFreqPointer = 0, sw_curProxPointer = 0,
      sw_lastSkipDoc = replicate maxSkipLevels 0, sw_lastSkipPayloadLength = replicate maxSkipLevels 0,
      sw_lastSkipFreqPointer = replicate maxSkipLevels 0, sw_lastSkipProxPointer = replicate maxSkipLevels 0\<rparr>"

definition sw_resetBuffers :: "skip_writer \<Rightarrow> skip_writer" where
  "sw_resetBuffers w = w\<lparr>sw_skipBuffer := Some (case sw_skipBuffer w of
     None \<Rightarrow> replicate (sw_numberOfSkipLevels w) (newRAMOutputStream newRAMFile) | Some bs \<Rightarrow> map ro_reset bs)\<rparr>"

text \<open>The file pointers of the two outputs are arguments; there may be no output for positions.\<close>

definition sw_resetSkip :: "nat \<Rightarrow> nat option \<Rightarrow> skip_writer \<Rightarrow> skip_writer" where
  "sw_resetSkip freqPointer proxPointer w =
     (let w = sw_resetBuffers w;
          w = w\<lparr>sw_lastSkipDoc := map (\<lambda>_. 0) (sw_lastSkipDoc w),
                sw_lastSkipPayloadLength := map (\<lambda>_. -1) (sw_lastSkipPayloadLength w),
                sw_lastSkipFreqPointer := map (\<lambda>_. int freqPointer) (sw_lastSkipFreqPointer w)\<rparr>
      in case proxPointer of None \<Rightarrow> w
         | Some p \<Rightarrow> w\<lparr>sw_lastSkipProxPointer := map (\<lambda>_. int p) (sw_lastSkipProxPointer w)\<rparr>)"

definition sw_setSkipData :: "int \<Rightarrow> bool \<Rightarrow> int \<Rightarrow> nat \<Rightarrow> nat option \<Rightarrow> skip_writer \<Rightarrow> skip_writer" where
  "sw_setSkipData doc storePayloads payloadLength freqPointer proxPointer w =
     (let w = w\<lparr>sw_curDoc := doc, sw_curStorePayloads := storePayloads, sw_curPayloadLength := payloadLength,
                sw_curFreqPointer := int freqPointer\<rparr>
      in case proxPointer of None \<Rightarrow> w | Some p \<Rightarrow> w\<lparr>sw_curProxPointer := int p\<rparr>)"

text \<open>An access of the array of buffers outside it is undefined behaviour, as is one while there is no
  array.\<close>

definition sw_buffer :: "nat \<Rightarrow> skip_writer \<Rightarrow> ram_out result" where
  "sw_buffer level w = (case sw_skipBuffer w of None \<Rightarrow> Inl OutOfRange | Some bs \<Rightarrow> arr_get bs level)"

definition sw_onBuffer :: "nat \<Rightarrow> (ram_out \<Rightarrow> ram_out result) \<Rightarrow> skip_writer \<Rightarrow> skip_writer result" where
  "sw_onBuffer level f w =
     bind_r (sw_buffer level w) (\<lambda>b. bind_r (f b) (\<lambda>b.
       Inr (w\<lparr>sw_skipBuffer := map_option (\<lambda>bs. bs[level := b]) (sw_skipBuffer w)\<rparr>)))"

definition sw_writeSkipData :: "nat \<Rightarrow> skip_writer \<Rightarrow> skip_writer result" where
  "sw_writeSkipData level w =
     bind_r (arr_get (sw_lastSkipDoc w) level) (\<lambda>lastDoc.
     bind_r (arr_get (sw_lastSkipPayloadLength w) level) (\<lambda>lastPayload.
     bind_r (arr_get (sw_lastSkipFreqPointer w) level) (\<lambda>lastFreq.
     bind_r (arr_get (sw_lastSkipProxPointer w) level) (\<lambda>lastProx.
     let delta = sw_curDoc w - lastDoc; newLength = sw_curStorePayloads w \<and> sw_curPayloadLength w \<noteq> lastPayload in
     bind_r (sw_onBuffer level (\<lambda>b.
         if sw_curStorePayloads w then
           (if \<not> newLength then writeVInt ro_writeByte (of_int (delta * 2)) b
            else bind_r (writeVInt ro_writeByte (of_int (delta * 2 + 1)) b) (writeVInt ro_writeByte (of_int (sw_curPayloadLength w))))
         else writeVInt ro_writeByte (of_int delta) b) w) (\<lambda>w.
     bind_r (sw_onBuffer level (writeVInt ro_writeByte (of_int (sw_curFreqPointer w - lastFreq))) w) (\<lambda>w.
     bind_r (sw_onBuffer level (writeVInt ro_writeByte (of_int (sw_curProxPointer w - lastProx))) w) (\<lambda>w.
       Inr (w\<lparr>sw_lastSkipPayloadLength := (if newLength then (sw_lastSkipPayloadLength w)[level := sw_curPayloadLength w] else sw_lastSkipPayloadLength w),
              sw_lastSkipDoc := (sw_lastSkipDoc w)[level := sw_curDoc w],
              sw_lastSkipFreqPointer := (sw_lastSkipFreqPointer w)[level := sw_curFreqPointer w],
              sw_lastSkipProxPointer := (sw_lastSkipProxPointer w)[level := sw_curProxPointer w]\<rparr>))))))))"

text \<open>How many levels get an entry: the loop over \<open>df\<close>.\<close>

function sw_numLevels :: "nat \<Rightarrow> nat \<Rightarrow> nat \<Rightarrow> nat \<Rightarrow> nat" where
  "sw_numLevels skipInterval levels df n =
     (if df mod skipInterval = 0 \<and> n < levels then sw_numLevels skipInterval levels (df div skipInterval) (n + 1) else n)"
  by pat_completeness auto
termination by (relation "measure (\<lambda>(i, levels, df, n). levels - n)") auto

declare sw_numLevels.simps [simp del]

function sw_bufferLevels :: "nat \<Rightarrow> nat \<Rightarrow> nat \<Rightarrow> skip_writer \<Rightarrow> skip_writer result" where
  "sw_bufferLevels numLevels level childPointer w =
     (if level < numLevels then
        bind_r (sw_writeSkipData level w) (\<lambda>w.
        bind_r (sw_buffer level w) (\<lambda>b.
        let newChildPointer = ro_getFilePointer b in
        bind_r (if level \<noteq> 0 then sw_onBuffer level (writeVLong ro_writeByte (of_nat childPointer)) w else Inr w) (\<lambda>w.
        sw_bufferLevels numLevels (level + 1) newChildPointer w)))
      else Inr w)"
  by pat_completeness auto
termination by (relation "measure (\<lambda>(numLevels, level, c, w). numLevels - level)") auto

declare sw_bufferLevels.simps [simp del]

definition sw_bufferSkip :: "nat \<Rightarrow> skip_writer \<Rightarrow> skip_writer result" where
  "sw_bufferSkip df w = sw_bufferLevels (sw_numLevels (sw_skipInterval w) (sw_numberOfSkipLevels w) df 0) 0 0 w"

text \<open>\<^verbatim>\<open>writeSkip\<close>: the levels from the top down, all but the lowest behind their length. The
  result is the file pointer before them.\<close>

fun sw_writeLevels :: "'o writer \<Rightarrow> (byte list \<Rightarrow> 'o \<Rightarrow> 'o result) \<Rightarrow> nat \<Rightarrow> ram_out list \<Rightarrow> 'o \<Rightarrow> (ram_out list \<times> 'o) result" where
  "sw_writeLevels wb wbs 0 bs out = Inr (bs, out)"
| "sw_writeLevels wb wbs (Suc level) bs out =
     (if level = 0 then Inr (bs, out)
      else bind_r (arr_get bs level) (\<lambda>b.
        if 0 < ro_getFilePointer b then
          bind_r (writeVLong wb (of_nat (ro_getFilePointer b)) out) (\<lambda>out.
          bind_r (ro_writeTo wbs b out) (\<lambda>(b, out). sw_writeLevels wb wbs level (bs[level := b]) out))
        else sw_writeLevels wb wbs level bs out))"

definition sw_writeSkip :: "'o writer \<Rightarrow> (byte list \<Rightarrow> 'o \<Rightarrow> 'o result) \<Rightarrow> ('o \<Rightarrow> nat) \<Rightarrow> skip_writer \<Rightarrow> 'o \<Rightarrow> (nat \<times> skip_writer \<times> 'o) result" where
  "sw_writeSkip wb wbs tell w out =
     (let skipPointer = tell out in
      case sw_skipBuffer w of None \<Rightarrow> Inr (skipPointer, w, out)
      | Some bs \<Rightarrow>
          if bs = [] then Inr (skipPointer, w, out)
          else bind_r (sw_writeLevels wb wbs (sw_numberOfSkipLevels w) bs out) (\<lambda>(bs, out).
               bind_r (arr_get bs 0) (\<lambda>b. bind_r (ro_writeTo wbs b out) (\<lambda>(b, out).
                 Inr (skipPointer, w\<lparr>sw_skipBuffer := Some (bs[0 := b])\<rparr>, out)))))"

subsection \<open>The buffers\<close>

text \<open>A buffer, new or reset, whose file is shorter than what was written since: a flush makes the
  file what was written.\<close>

definition buffer_ok :: "ram_out \<Rightarrow> bool" where
  "buffer_ok s \<longleftrightarrow> ro_ok s \<and> rf_length (ro_file s) \<le> ro_pointer s"

interpretation ram_buffer: byte_sink ro_writeByte buffer_ok ro_written
proof
  fix s b assume a: "buffer_ok s"
  then have ok: "ro_ok s" by (simp add: buffer_ok_def)
  obtain t k zs where t: "ro_next s = Inr t" "ro_in k t" "ro_position t < BUFFER_SIZE" "ro_pointer t = ro_pointer s"
    "rf_length (ro_file t) = rf_length (ro_file s)" using ro_next_in [OF ok] by blast
  obtain u where u: "ro_writeByte b s = Inr u" "ro_ok u" "ro_written u = ro_written s @ [b]"
    using ro_writeByte_written [OF ok] by blast
  have up: "u = ro_put [b] t" using ro_writeByte_put [OF t(1-3)] u(1) by simp
  have "ro_position t + length [b] \<le> BUFFER_SIZE" using t(3) by simp
  note p = ro_put_facts [OF t(2) this]
  have "rf_length (ro_file u) \<le> ro_pointer u" using a p(2,4) t(4,5) by (simp add: up buffer_ok_def)
  then show "\<exists>s'. ro_writeByte b s = Inr s' \<and> buffer_ok s' \<and> ro_written s' = ro_written s @ [b]"
    using u by (auto simp: buffer_ok_def)
qed

lemma ro_reset_ok: "ro_ok s \<Longrightarrow> buffer_ok (ro_reset s) \<and> ro_written (ro_reset s) = []"
  by (auto simp: buffer_ok_def ro_ok_def ro_reset_def ro_written_def ro_pointer_def blocks_ok_def numBuffers_def)

lemma new_buffer_ok: "buffer_ok (newRAMOutputStream newRAMFile) \<and> ro_written (newRAMOutputStream newRAMFile) = []"
  using new_appending by (simp add: ro_appending_def buffer_ok_def)

lemma flushed_buffer:
  assumes "buffer_ok s"
  shows "buffer_ok (ro_flush s)" "ro_written (ro_flush s) = ro_written s" "blocks_ok (ro_file (ro_flush s))"
    "rf_length (ro_file (ro_flush s)) \<le> length (content (ro_file (ro_flush s)))"
    "take (rf_length (ro_file (ro_flush s))) (content (ro_file (ro_flush s))) = ro_written s"
proof -
  have ok: "ro_ok s" and le: "rf_length (ro_file s) \<le> ro_pointer s" using assms by (simp_all add: buffer_ok_def)
  note f = ro_setFileLength_facts [of s]
  have l: "rf_length (ro_file (ro_flush s)) = ro_pointer s" using f(2) le by (simp add: ro_flush_def)
  have c: "content (ro_file (ro_flush s)) = content (ro_file s)" using f(1) by (simp add: ro_flush_def content_def)
  have p: "ro_pointer (ro_flush s) = ro_pointer s" by (simp add: ro_flush_def ro_setFileLength_def ro_pointer_def Let_def)
  have "ro_ok (ro_flush s)" using ro_flush_ok [OF ok] by (simp add: ro_flush_def)
  then show "buffer_ok (ro_flush s)" "blocks_ok (ro_file (ro_flush s))" using l p by (simp_all add: buffer_ok_def ro_ok_def)
  show "ro_written (ro_flush s) = ro_written s" using p c by (simp add: ro_written_def)
  show "rf_length (ro_file (ro_flush s)) \<le> length (content (ro_file (ro_flush s)))" using l c ro_ok_pointer [OF ok] by simp
  show "take (rf_length (ro_file (ro_flush s))) (content (ro_file (ro_flush s))) = ro_written s" using l c by (simp add: ro_written_def)
qed

text \<open>\<^verbatim>\<open>writeTo\<close> an output that appends.\<close>

context bulk_sink begin

lemma puts_copy:
  assumes "blocks_ok f" "n \<le> length (content f)" "pos = BUFFER_SIZE * k"
  shows "puts (ro_copy wbs f n pos k) (drop pos (take n (content f)))"
  using assms(3)
proof (induction "n - pos" arbitrary: pos k rule: less_induct)
  case less
  show ?case
  proof (cases "pos < n")
    case False
    then have "ro_copy wbs f n pos k = (\<lambda>s. Inr s)" by (intro ext) (subst ro_copy.simps, simp)
    then show ?thesis using False by (simp add: puts_return)
  next
    case True
    have "pos < BUFFER_SIZE * numBuffers f" using True assms(1,2) by (simp add: length_content)
    then have k: "k < numBuffers f" unfolding less.prems by simp
    define m where "m = (if n < pos + BUFFER_SIZE then n - pos else BUFFER_SIZE)"
    have m: "m \<le> BUFFER_SIZE" "pos + m \<le> n" using True by (auto simp: m_def)
    have "take m (drop (BUFFER_SIZE * k + 0) (concat (rf_buffers f))) = take m (drop 0 (rf_buffers f ! k))"
      by (rule block_slice) (use assms(1) k m in \<open>simp_all add: blocks_ok_def numBuffers_def\<close>)
    then have b: "take m (rf_buffers f ! k) = take m (drop pos (take n (content f)))"
      using less.prems m(2) by (simp add: content_def take_drop min_absorb1)
    have "n - (pos + BUFFER_SIZE) < n - pos" using True by (simp add: BUFFER_SIZE_def)
    note IH = less.hyps [OF this, of "Suc k"]
    have "take m (drop pos (take n (content f))) @ drop (pos + BUFFER_SIZE) (take n (content f)) = drop pos (take n (content f))"
      using append_take_drop_id [of m "drop pos (take n (content f))"] by (auto simp: m_def add.commute)
    moreover have "puts (\<lambda>s. bind_r (wbs (take m (rf_buffers f ! k)) s) (\<lambda>s. ro_copy wbs f n (pos + BUFFER_SIZE) (Suc k) s))
        (take m (rf_buffers f ! k) @ drop (pos + BUFFER_SIZE) (take n (content f)))"
      by (rule puts_bind [OF puts_bytes IH]) (simp add: less.prems)
    moreover have "ro_copy wbs f n pos k = (\<lambda>s. bind_r (wbs (take m (rf_buffers f ! k)) s) (\<lambda>s. ro_copy wbs f n (pos + BUFFER_SIZE) (Suc k) s))"
      using True k by (intro ext) (subst ro_copy.simps, simp add: m_def Let_def getBuffer_def numBuffers_def)
    ultimately show ?thesis unfolding b by simp
  qed
qed

lemma writeTo_buffer:
  assumes "buffer_ok b" "inv out"
  shows "\<exists>out'. ro_writeTo wbs b out = Inr (ro_flush b, out') \<and> inv out' \<and> written out' = written out @ ro_written b"
proof -
  note f = flushed_buffer [OF assms(1)]
  have "puts (ro_copy wbs (ro_file (ro_flush b)) (rf_length (ro_file (ro_flush b))) 0 0) (ro_written b)"
    using puts_copy [OF f(3,4), of 0 0] f(5) by simp
  from putsD [OF this assms(2)] show ?thesis by (auto simp: ro_writeTo_def Let_def)
qed

end

subsection \<open>The operations return\<close>

definition sw_fits :: "skip_writer \<Rightarrow> bool" where
  "sw_fits w \<longleftrightarrow> 0 < sw_skipInterval w \<and> sw_numberOfSkipLevels w \<le> length (sw_lastSkipDoc w) \<and>
     sw_numberOfSkipLevels w \<le> length (sw_lastSkipPayloadLength w) \<and> sw_numberOfSkipLevels w \<le> length (sw_lastSkipFreqPointer w) \<and>
     sw_numberOfSkipLevels w \<le> length (sw_lastSkipProxPointer w)"

definition sw_ok :: "skip_writer \<Rightarrow> bool" where
  "sw_ok w \<longleftrightarrow> sw_fits w \<and> (\<exists>bs. sw_skipBuffer w = Some bs \<and> length bs = sw_numberOfSkipLevels w \<and> (\<forall>b\<in>set bs. buffer_ok b))"

text \<open>Before the first term there are no buffers.\<close>

definition sw_start :: "skip_writer \<Rightarrow> bool" where
  "sw_start w \<longleftrightarrow> sw_ok w \<or> sw_fits w \<and> sw_skipBuffer w = None"

lemma newSkipListWriter_start:
  "0 < skipInterval \<Longrightarrow> floorLog docCount skipInterval \<le> maxSkipLevels \<Longrightarrow> sw_start (newSkipListWriter floorLog skipInterval maxSkipLevels docCount)"
  by (simp add: sw_start_def sw_fits_def newSkipListWriter_def)

lemma sw_resetSkip_ok:
  assumes "sw_start w"
  shows "sw_ok (sw_resetSkip f p w)"
proof -
  have "sw_ok (sw_resetBuffers w)"
    using assms new_buffer_ok ro_reset_ok
    by (fastforce simp: sw_start_def sw_ok_def sw_resetBuffers_def sw_fits_def buffer_ok_def)
  then show ?thesis by (auto simp: sw_resetSkip_def Let_def sw_ok_def sw_fits_def split: option.splits)
qed

lemma sw_setSkipData_ok: "sw_ok w \<Longrightarrow> sw_ok (sw_setSkipData d st l f p w)"
  by (auto simp: sw_setSkipData_def Let_def sw_ok_def sw_fits_def split: option.splits)

lemma sw_onBuffer_ok:
  assumes "sw_ok w" "level < sw_numberOfSkipLevels w" "ram_buffer.puts f bytes"
  shows "\<exists>w'. sw_onBuffer level f w = Inr w' \<and> sw_ok w' \<and> (\<exists>bs. w' = w\<lparr>sw_skipBuffer := Some bs\<rparr>)"
proof -
  obtain bs where bs: "sw_skipBuffer w = Some bs" "length bs = sw_numberOfSkipLevels w" "\<forall>b\<in>set bs. buffer_ok b"
    using assms(1) by (auto simp: sw_ok_def)
  then have "buffer_ok (bs ! level)" using assms(2) by simp
  from ram_buffer.putsD [OF assms(3) this] obtain b where b: "f (bs ! level) = Inr b" "buffer_ok b" by blast
  then have "sw_onBuffer level f w = Inr (w\<lparr>sw_skipBuffer := Some (bs[level := b])\<rparr>)"
    using bs assms(2) by (simp add: sw_onBuffer_def sw_buffer_def)
  moreover have "sw_ok (w\<lparr>sw_skipBuffer := Some (bs[level := b])\<rparr>)"
    using assms(1) bs b(2) set_update_subset_insert [of bs level b] by (auto simp: sw_ok_def sw_fits_def)
  ultimately show ?thesis by blast
qed

lemma sw_writeSkipData_ok:
  assumes "sw_ok w" "level < sw_numberOfSkipLevels w"
  shows "\<exists>w'. sw_writeSkipData level w = Inr w' \<and> sw_ok w' \<and> sw_numberOfSkipLevels w' = sw_numberOfSkipLevels w"
proof -
  note fits = assms(1) [unfolded sw_ok_def sw_fits_def]
  let ?lastP = "sw_lastSkipPayloadLength w ! level"
  let ?new = "sw_curStorePayloads w \<and> sw_curPayloadLength w \<noteq> ?lastP" and ?delta = "sw_curDoc w - sw_lastSkipDoc w ! level"
  let ?f = "\<lambda>b. if sw_curStorePayloads w then
      (if \<not> ?new then writeVInt ro_writeByte (of_int (?delta * 2)) b
       else bind_r (writeVInt ro_writeByte (of_int (?delta * 2 + 1)) b) (writeVInt ro_writeByte (of_int (sw_curPayloadLength w))))
    else writeVInt ro_writeByte (of_int ?delta) b"
  have "\<exists>bytes. ram_buffer.puts ?f bytes"
    using ram_buffer.puts_vint ram_buffer.puts_bind [OF ram_buffer.puts_vint ram_buffer.puts_vint]
    by (cases "sw_curStorePayloads w"; cases ?new) fastforce+
  then obtain bytes where f: "ram_buffer.puts ?f bytes" by blast
  from sw_onBuffer_ok [OF assms f] obtain w1 bs1 where w1: "sw_onBuffer level ?f w = Inr w1" "sw_ok w1" "w1 = w\<lparr>sw_skipBuffer := Some bs1\<rparr>" by blast
  have l1: "level < sw_numberOfSkipLevels w1" using w1(3) assms(2) by simp
  from sw_onBuffer_ok [OF w1(2) l1 ram_buffer.puts_vint] obtain w2 bs2 where
    w2: "sw_onBuffer level (writeVInt ro_writeByte (of_int (sw_curFreqPointer w1 - sw_lastSkipFreqPointer w ! level))) w1 = Inr w2" "sw_ok w2"
      "w2 = w1\<lparr>sw_skipBuffer := Some bs2\<rparr>" by blast
  have l2: "level < sw_numberOfSkipLevels w2" using w2(3) l1 by simp
  from sw_onBuffer_ok [OF w2(2) l2 ram_buffer.puts_vint] obtain w3 bs3 where
    w3: "sw_onBuffer level (writeVInt ro_writeByte (of_int (sw_curProxPointer w2 - sw_lastSkipProxPointer w ! level))) w2 = Inr w3" "sw_ok w3"
      "w3 = w2\<lparr>sw_skipBuffer := Some bs3\<rparr>" by blast
  have g: "arr_get (sw_lastSkipDoc w) level = Inr (sw_lastSkipDoc w ! level)" "arr_get (sw_lastSkipPayloadLength w) level = Inr ?lastP"
    "arr_get (sw_lastSkipFreqPointer w) level = Inr (sw_lastSkipFreqPointer w ! level)"
    "arr_get (sw_lastSkipProxPointer w) level = Inr (sw_lastSkipProxPointer w ! level)"
    using fits assms(2) by simp_all
  define w4 where "w4 = w3\<lparr>sw_lastSkipPayloadLength := (if ?new then (sw_lastSkipPayloadLength w3)[level := sw_curPayloadLength w3] else sw_lastSkipPayloadLength w3),
              sw_lastSkipDoc := (sw_lastSkipDoc w3)[level := sw_curDoc w3],
              sw_lastSkipFreqPointer := (sw_lastSkipFreqPointer w3)[level := sw_curFreqPointer w3],
              sw_lastSkipProxPointer := (sw_lastSkipProxPointer w3)[level := sw_curProxPointer w3]\<rparr>"
  have "sw_writeSkipData level w = Inr w4"
    unfolding sw_writeSkipData_def Let_def g bind_r_simps w1(1) w2(1) w3(1) w4_def ..
  moreover have "sw_ok w4" using w3(2) by (simp add: sw_ok_def sw_fits_def w4_def)
  moreover have "sw_numberOfSkipLevels w4 = sw_numberOfSkipLevels w" using w1(3) w2(3) w3(3) by (simp add: w4_def)
  ultimately show ?thesis by blast
qed

lemma sw_bufferLevels_ok:
  "sw_ok w \<Longrightarrow> numLevels \<le> sw_numberOfSkipLevels w \<Longrightarrow> \<exists>w'. sw_bufferLevels numLevels level c w = Inr w' \<and> sw_ok w'"
proof (induction "numLevels - level" arbitrary: level c w rule: less_induct)
  case less
  show ?case
  proof (cases "level < numLevels")
    case True
    then have lv: "level < sw_numberOfSkipLevels w" using less.prems(2) by simp
    from sw_writeSkipData_ok [OF less.prems(1) this] obtain w1 where w1: "sw_writeSkipData level w = Inr w1" "sw_ok w1"
      "sw_numberOfSkipLevels w1 = sw_numberOfSkipLevels w" by blast
    then obtain b where b: "sw_buffer level w1 = Inr b" using lv by (auto simp: sw_ok_def sw_buffer_def)
    have "\<exists>w2. (if level \<noteq> 0 then sw_onBuffer level (writeVLong ro_writeByte (of_nat c)) w1 else Inr w1) = Inr w2 \<and> sw_ok w2 \<and>
        sw_numberOfSkipLevels w2 = sw_numberOfSkipLevels w"
    proof (cases "level = 0")
      case False
      have "level < sw_numberOfSkipLevels w1" using w1(3) lv by simp
      from sw_onBuffer_ok [OF w1(2) this ram_buffer.puts_vlong, of "of_nat c"] False w1(3) show ?thesis by auto
    qed (use w1 in simp)
    then obtain w2 where w2: "(if level \<noteq> 0 then sw_onBuffer level (writeVLong ro_writeByte (of_nat c)) w1 else Inr w1) = Inr w2" "sw_ok w2"
      "sw_numberOfSkipLevels w2 = sw_numberOfSkipLevels w" by blast
    have "numLevels - (level + 1) < numLevels - level" using True by simp
    from less.hyps [OF this w2(2), of "ro_getFilePointer b"] obtain w3 where
      "sw_bufferLevels numLevels (level + 1) (ro_getFilePointer b) w2 = Inr w3" "sw_ok w3" using w2(3) less.prems(2) by auto
    then show ?thesis using True w1(1) b w2(1) by (subst sw_bufferLevels.simps) (simp add: Let_def)
  qed (use less in \<open>subst sw_bufferLevels.simps, simp\<close>)
qed

lemma sw_numLevels_le: "n \<le> levels \<Longrightarrow> sw_numLevels i levels df n \<le> levels"
  by (induction i levels df n rule: sw_numLevels.induct) (subst sw_numLevels.simps, simp)

lemma sw_bufferSkip_ok: "sw_ok w \<Longrightarrow> \<exists>w'. sw_bufferSkip df w = Inr w' \<and> sw_ok w'"
  unfolding sw_bufferSkip_def by (rule sw_bufferLevels_ok) (simp_all add: sw_numLevels_le)

context bulk_sink begin

lemma writeLevels_ok:
  "inv out \<Longrightarrow> \<forall>b\<in>set bs. buffer_ok b \<Longrightarrow> n \<le> length bs \<Longrightarrow>
   \<exists>bs' out' bytes. sw_writeLevels wb wbs n bs out = Inr (bs', out') \<and> inv out' \<and> written out' = written out @ bytes \<and>
     length bs' = length bs \<and> (\<forall>b\<in>set bs'. buffer_ok b)"
proof (induction n arbitrary: bs out)
  case (Suc level)
  then have lv: "level < length bs" by simp
  then have b: "buffer_ok (bs ! level)" using Suc.prems(2) by simp
  show ?case
  proof (cases "level \<noteq> 0 \<and> 0 < ro_getFilePointer (bs ! level)")
    case True
    from putsD [OF puts_vlong Suc.prems(1)] obtain out1 bytes1 where
      o1: "writeVLong wb (of_nat (ro_getFilePointer (bs ! level))) out = Inr out1" "inv out1" "written out1 = written out @ bytes1" by blast
    from writeTo_buffer [OF b o1(2)] obtain out2 where
      o2: "ro_writeTo wbs (bs ! level) out1 = Inr (ro_flush (bs ! level), out2)" "inv out2" "written out2 = written out1 @ ro_written (bs ! level)" by blast
    have "\<forall>b\<in>set (bs[level := ro_flush (bs ! level)]). buffer_ok b"
      using Suc.prems(2) flushed_buffer(1) [OF b] set_update_subset_insert [of bs level] by blast
    from Suc.IH [OF o2(2) this] Suc.prems(3) obtain bs' out' bytes2 where
      "sw_writeLevels wb wbs level (bs[level := ro_flush (bs ! level)]) out2 = Inr (bs', out')" "inv out'" "written out' = written out2 @ bytes2"
      "length bs' = length bs" "\<forall>b\<in>set bs'. buffer_ok b" by auto
    then show ?thesis using True lv o1 o2 by simp
  next
    case False
    then consider "level = 0" | "level \<noteq> 0" "ro_getFilePointer (bs ! level) = 0" by auto
    then show ?thesis
    proof cases
      case 1
      then show ?thesis using Suc.prems by simp
    next
      case 2
      then show ?thesis using Suc.IH [OF Suc.prems(1,2)] Suc.prems(3) lv by simp
    qed
  qed
qed simp

lemma writeSkip_ok:
  assumes "inv out" "sw_ok w"
  shows "\<exists>w' out' bytes. sw_writeSkip wb wbs tell w out = Inr (tell out, w', out') \<and> inv out' \<and> written out' = written out @ bytes \<and> sw_ok w'"
proof -
  obtain bs where bs: "sw_skipBuffer w = Some bs" "length bs = sw_numberOfSkipLevels w" "\<forall>b\<in>set bs. buffer_ok b" "sw_fits w"
    using assms(2) by (auto simp: sw_ok_def)
  show ?thesis
  proof (cases "bs = []")
    case True
    then show ?thesis using assms bs(1) by (simp add: sw_writeSkip_def)
  next
    case False
    from writeLevels_ok [OF assms(1) bs(3), of "sw_numberOfSkipLevels w"] bs(2) obtain bs1 out1 bytes1 where
      o1: "sw_writeLevels wb wbs (sw_numberOfSkipLevels w) bs out = Inr (bs1, out1)" "inv out1" "written out1 = written out @ bytes1"
        "length bs1 = length bs" "\<forall>b\<in>set bs1. buffer_ok b" by auto
    have z: "0 < length bs1" using False o1(4) by simp
    then have b: "buffer_ok (bs1 ! 0)" using o1(5) by simp
    from writeTo_buffer [OF this o1(2)] obtain out2 where
      o2: "ro_writeTo wbs (bs1 ! 0) out1 = Inr (ro_flush (bs1 ! 0), out2)" "inv out2" "written out2 = written out1 @ ro_written (bs1 ! 0)" by blast
    let ?w = "w\<lparr>sw_skipBuffer := Some (bs1[0 := ro_flush (bs1 ! 0)])\<rparr>"
    have "\<forall>b\<in>set (bs1[0 := ro_flush (bs1 ! 0)]). buffer_ok b"
      using o1(5) flushed_buffer(1) [OF b] set_update_subset_insert [of bs1 0] by blast
    then have "sw_ok ?w" using bs(2,4) o1(4) by (simp add: sw_ok_def sw_fits_def)
    moreover have "sw_writeSkip wb wbs tell w out = Inr (tell out, ?w, out2)"
      using bs(1) False o1(1) o2(1) z by (simp add: sw_writeSkip_def Let_def)
    ultimately show ?thesis using o1 o2 by auto
  qed
qed

end

end
