(* ===== verification/PostingsWriter.thy ===== *)
theory PostingsWriter imports SkipListWriter begin

text \<open>
  Writing the postings of a segment: \<^verbatim>\<open>index/FormatPostingsTermsWriter.cpp\<close>,
  \<^verbatim>\<open>index/FormatPostingsDocsWriter.cpp\<close> and \<^verbatim>\<open>index/FormatPostingsPositionsWriter.cpp\<close>.
  The three writers hold each other and share the outputs and the skip list writer; they are one
  record here, over the states \<open>'f\<close> and \<open>'p\<close> of the outputs for frequencies and positions.
\<close>

subsection \<open>TermInfo\<close>

record term_info =
  ti_docFreq :: int
  ti_freqPointer :: int
  ti_proxPointer :: int
  ti_skipOffset :: int

text \<open>The assertions of the code, which release builds drop, are not part of the definitions.\<close>

record field_info =
  fi_omitTermFreqAndPositions :: bool
  fi_storePayloads :: bool

subsection \<open>The writers\<close>

record ('f, 'p) postings_writer =
  pw_freqOut :: 'f
  pw_proxOut :: "'p option"
  pw_skip :: skip_writer
  pw_freqStart :: nat
  pw_proxStart :: nat
  pw_lastDocID :: int
  pw_df :: nat
  pw_omit :: bool
  pw_storePayloads :: bool
  pw_skipInterval :: nat
  pw_lastPosition :: int
  pw_lastPayloadLength :: int
  pw_posStorePayloads :: bool

definition newPostingsWriter :: "'f \<Rightarrow> 'p option \<Rightarrow> skip_writer \<Rightarrow> nat \<Rightarrow> ('f, 'p) postings_writer" where
  "newPostingsWriter freqOut proxOut skip skipInterval =
     \<lparr>pw_freqOut = freqOut, pw_proxOut = proxOut, pw_skip = skip, pw_freqStart = 0, pw_proxStart = 0, pw_lastDocID = 0, pw_df = 0,
      pw_omit = False, pw_storePayloads = False, pw_skipInterval = skipInterval, pw_lastPosition = 0, pw_lastPayloadLength = -1,
      pw_posStorePayloads = False\<rparr>"

definition pw_setField :: "field_info \<Rightarrow> ('f, 'p) postings_writer \<Rightarrow> ('f, 'p) postings_writer" where
  "pw_setField fi w = w\<lparr>pw_omit := fi_omitTermFreqAndPositions fi, pw_storePayloads := fi_storePayloads fi,
     pw_posStorePayloads := (if fi_omitTermFreqAndPositions fi then False else fi_storePayloads fi)\<rparr>"

definition pw_addTerm :: "('f \<Rightarrow> nat) \<Rightarrow> ('p \<Rightarrow> nat) \<Rightarrow> ('f, 'p) postings_writer \<Rightarrow> ('f, 'p) postings_writer" where
  "pw_addTerm tellF tellP w =
     (let w = w\<lparr>pw_freqStart := tellF (pw_freqOut w)\<rparr>;
          w = (case pw_proxOut w of None \<Rightarrow> w | Some p \<Rightarrow> w\<lparr>pw_proxStart := tellP p\<rparr>)
      in w\<lparr>pw_skip := sw_resetSkip (tellF (pw_freqOut w)) (map_option tellP (pw_proxOut w)) (pw_skip w)\<rparr>)"

definition pw_addDoc ::
  "'f writer \<Rightarrow> ('f \<Rightarrow> nat) \<Rightarrow> ('p \<Rightarrow> nat) \<Rightarrow> int \<Rightarrow> int \<Rightarrow> ('f, 'p) postings_writer \<Rightarrow> ('f, 'p) postings_writer result" where
  "pw_addDoc wbF tellF tellP docID termDocFreq w =
     (let delta = docID - pw_lastDocID w
      in if docID < 0 \<or> 0 < pw_df w \<and> delta \<le> 0 then Inl CorruptIndex
         else
           let df = pw_df w + 1 in
           bind_r (if df mod pw_skipInterval w = 0 then
                     sw_bufferSkip df (sw_setSkipData (pw_lastDocID w) (pw_storePayloads w) (pw_lastPayloadLength w)
                       (tellF (pw_freqOut w)) (map_option tellP (pw_proxOut w)) (pw_skip w))
                   else Inr (pw_skip w)) (\<lambda>skip.
           bind_r (if pw_omit w then writeVInt wbF (of_int delta) (pw_freqOut w)
                   else if termDocFreq = 1 then writeVInt wbF (push_bit 1 (of_int delta) OR 1) (pw_freqOut w)
                   else bind_r (writeVInt wbF (push_bit 1 (of_int delta)) (pw_freqOut w)) (writeVInt wbF (of_int termDocFreq))) (\<lambda>freqOut.
             Inr (w\<lparr>pw_df := df, pw_skip := skip, pw_lastDocID := docID, pw_freqOut := freqOut\<rparr>))))"

text \<open>A payload is the part of the array that is written; without an output the call is undefined
  behaviour.\<close>

definition pw_addPosition ::
  "'p writer \<Rightarrow> (byte list \<Rightarrow> 'p \<Rightarrow> 'p result) \<Rightarrow> int \<Rightarrow> byte list \<Rightarrow> ('f, 'p) postings_writer \<Rightarrow> ('f, 'p) postings_writer result" where
  "pw_addPosition wbP wbsP position payload w =
     (case pw_proxOut w of None \<Rightarrow> Inl OutOfRange
      | Some out \<Rightarrow>
          let delta = position - pw_lastPosition w; w = w\<lparr>pw_lastPosition := position\<rparr>; payloadLength = int (length payload)
          in if pw_posStorePayloads w then
               let new = payloadLength \<noteq> pw_lastPayloadLength w in
               bind_r (if new then bind_r (writeVInt wbP (push_bit 1 (of_int delta) OR 1) out) (writeVInt wbP (of_int payloadLength))
                       else writeVInt wbP (push_bit 1 (of_int delta)) out) (\<lambda>out.
               bind_r (if 0 < payloadLength then wbsP payload out else Inr out) (\<lambda>out.
                 Inr (w\<lparr>pw_lastPayloadLength := payloadLength, pw_proxOut := Some out\<rparr>)))
             else bind_r (writeVInt wbP (of_int delta) out) (\<lambda>out. Inr (w\<lparr>pw_proxOut := Some out\<rparr>)))"

definition pw_finishPositions :: "('f, 'p) postings_writer \<Rightarrow> ('f, 'p) postings_writer" where
  "pw_finishPositions w = w\<lparr>pw_lastPosition := 0, pw_lastPayloadLength := -1\<rparr>"

text \<open>\<^verbatim>\<open>finish\<close> of the documents: the entry that is added to the term dictionary, if there is one.\<close>

definition pw_finishDocs ::
  "'f writer \<Rightarrow> (byte list \<Rightarrow> 'f \<Rightarrow> 'f result) \<Rightarrow> ('f \<Rightarrow> nat) \<Rightarrow> ('f, 'p) postings_writer \<Rightarrow> (term_info option \<times> ('f, 'p) postings_writer) result" where
  "pw_finishDocs wbF wbsF tellF w =
     bind_r (sw_writeSkip wbF wbsF tellF (pw_skip w) (pw_freqOut w)) (\<lambda>(skipPointer, skip, freqOut).
       let ti = \<lparr>ti_docFreq = int (pw_df w), ti_freqPointer = int (pw_freqStart w), ti_proxPointer = int (pw_proxStart w),
                 ti_skipOffset = trunc32 (int skipPointer - int (pw_freqStart w))\<rparr>
       in Inr (if 0 < pw_df w then Some ti else None, w\<lparr>pw_skip := skip, pw_freqOut := freqOut, pw_lastDocID := 0, pw_df := 0\<rparr>))"

subsection \<open>The format\<close>

text \<open>A posting is a document with the positions of the term in it and their payloads.\<close>

type_synonym posting = "nat \<times> (nat \<times> byte list) list"

definition positions_ok :: "field_info \<Rightarrow> (nat \<times> byte list) list \<Rightarrow> bool" where
  "positions_ok fi pos \<longleftrightarrow> sorted (map fst pos) \<and>
     (\<forall>(p, pl)\<in>set pos. p < 2 ^ 31 \<and> length pl < 2 ^ 31 \<and> (fi_storePayloads fi \<or> pl = []))"

definition postings_ok :: "field_info \<Rightarrow> posting list \<Rightarrow> bool" where
  "postings_ok fi ps \<longleftrightarrow> sorted_wrt (<) (map fst ps) \<and> (\<forall>(d, pos)\<in>set ps. d < 2 ^ 31 \<and>
     (\<not> fi_omitTermFreqAndPositions fi \<longrightarrow> pos \<noteq> [] \<and> positions_ok fi pos)) \<and> sum_list (map (\<lambda>(d, pos). length pos) ps) < 2 ^ 31 \<and>
     length ps < 2 ^ 31"

definition doc_wire :: "bool \<Rightarrow> nat \<Rightarrow> posting \<Rightarrow> byte list" where
  "doc_wire omit prev = (\<lambda>(d, pos).
     if omit then nat_wire (d - prev)
     else if length pos = 1 then nat_wire (2 * (d - prev) + 1)
     else nat_wire (2 * (d - prev)) @ nat_wire (length pos))"

fun docs_wire :: "bool \<Rightarrow> nat \<Rightarrow> posting list \<Rightarrow> byte list" where
  "docs_wire omit prev [] = []"
| "docs_wire omit prev (x # ps) = doc_wire omit prev x @ docs_wire omit (fst x) ps"

text \<open>A position on file: the difference, the length of the payload if it is not the last one, and
  the payload.\<close>

type_synonym entry = "nat \<times> nat option \<times> byte list"

fun entries :: "bool \<Rightarrow> nat \<Rightarrow> int \<Rightarrow> (nat \<times> byte list) list \<Rightarrow> entry list" where
  "entries payloads p l [] = []"
| "entries payloads p l ((q, pl) # pos) =
     (q - p, if payloads \<and> int (length pl) \<noteq> l then Some (length pl) else None, pl) #
     entries payloads q (if payloads then int (length pl) else l) pos"

definition entry_head :: "bool \<Rightarrow> entry \<Rightarrow> byte list" where
  "entry_head payloads = (\<lambda>(d, len, pl).
     if payloads then (case len of None \<Rightarrow> nat_wire (2 * d) | Some n \<Rightarrow> nat_wire (2 * d + 1) @ nat_wire n) else nat_wire d)"

definition entry_wire :: "bool \<Rightarrow> entry \<Rightarrow> byte list" where
  "entry_wire payloads e = entry_head payloads e @ snd (snd e)"

definition entries_wire :: "bool \<Rightarrow> entry list \<Rightarrow> byte list" where
  "entries_wire payloads es = concat (map (entry_wire payloads) es)"

definition term_entries :: "bool \<Rightarrow> posting list \<Rightarrow> entry list" where
  "term_entries payloads ps = concat (map (\<lambda>(d, pos). entries payloads 0 (-1) pos) ps)"

lemma unat_of_nat_below: "n < 2 ^ LENGTH('a) \<Longrightarrow> unat (of_nat n :: 'a::len word) = n"
  by (simp only: unat_of_nat mod_less)

lemma low_bit: "w AND 1 = 0 \<longleftrightarrow> even (unat w)" for w :: int32
proof -
  have "w AND 1 = 0 \<longleftrightarrow> \<not> bit w 0" by (simp add: word_zero_iff bit_and_iff bit_1_iff) (metis gr0I less_numeral_extra(3))
  moreover have "bit w 0 \<longleftrightarrow> bit (unat w) 0" unfolding bit_unsigned_iff by (auto dest: bit_imp_le_length)
  ultimately show ?thesis by (simp add: bit_0)
qed

lemma sint_of_nat_small: "n < 2 ^ 31 \<Longrightarrow> sint (of_nat n :: int32) = int n"
  by (simp add: signed_of_nat signed_take_bit_int_eq_self)

lemma sint_unat_small: "unat w < 2 ^ 31 \<Longrightarrow> sint w = int (unat w)" for w :: int32
  using sint_of_nat_small [of "unat w"] by simp

lemma code_word:
  assumes "n < 2 ^ 31"
  shows "unat (of_int (int n) :: int32) = n" "unat (push_bit 1 (of_int (int n)) :: int32) = 2 * n"
    "unat (push_bit 1 (of_int (int n)) OR 1 :: int32) = 2 * n + 1"
proof -
  show "unat (of_int (int n) :: int32) = n" using assms by (simp add: unat_of_nat)
  have p: "push_bit 1 (of_int (int n)) = (of_nat (2 * n) :: int32)" by simp
  show u: "unat (push_bit 1 (of_int (int n)) :: int32) = 2 * n" unfolding p by (rule unat_of_nat_below) (use assms in simp)
  have "push_bit 1 (of_int (int n)) AND 1 = (0 :: int32)" unfolding low_bit u by simp
  then have "push_bit 1 (of_int (int n)) OR 1 = (push_bit 1 (of_int (int n)) :: int32) + 1" by (rule disjunctive_add_eq_or [symmetric])
  also have "\<dots> = of_nat (2 * n + 1)" unfolding p of_nat_add by simp
  finally have o: "push_bit 1 (of_int (int n)) OR 1 = (of_nat (2 * n + 1) :: int32)" .
  show "unat (push_bit 1 (of_int (int n)) OR 1 :: int32) = 2 * n + 1" unfolding o by (rule unat_of_nat_below) (use assms in simp)
qed

lemma code_parts:
  assumes "n < 2 ^ 31"
  shows "(of_nat (2 * n) :: int32) AND 1 = 0" "(of_nat (2 * n + 1) :: int32) AND 1 \<noteq> 0"
    "unsignedShift32 (of_nat (2 * n)) 1 = of_nat n" "unsignedShift32 (of_nat (2 * n + 1)) 1 = of_nat n"
    "unat (of_nat (2 * n) :: int32) = 2 * n" "unat (of_nat (2 * n + 1) :: int32) = 2 * n + 1"
proof -
  show u: "unat (of_nat (2 * n) :: int32) = 2 * n" "unat (of_nat (2 * n + 1) :: int32) = 2 * n + 1"
    by (rule unat_of_nat_below, use assms in simp)+
  show "(of_nat (2 * n) :: int32) AND 1 = 0" "(of_nat (2 * n + 1) :: int32) AND 1 \<noteq> 0" unfolding low_bit u by simp_all
  have s: "unsignedShift32 w 1 = of_nat (unat w div 2)" for w :: int32
  proof -
    have "unsignedShift32 w 1 = drop_bit 1 w" unfolding unsignedShift32_drop by simp
    moreover have "unat (drop_bit 1 w) = unat w div 2" unfolding unat_drop_bit_eq by (simp add: drop_bit_eq_div)
    ultimately show ?thesis by (metis of_nat_unat ucast_id)
  qed
  show "unsignedShift32 (of_nat (2 * n)) 1 = of_nat n" "unsignedShift32 (of_nat (2 * n + 1)) 1 = of_nat n"
    unfolding s u by simp_all
qed

subsection \<open>Writing\<close>

text \<open>The writers are called as \<^verbatim>\<open>FreqProxTermsWriter::appendPostings\<close> and
  \<^verbatim>\<open>SegmentMerger::appendPostings\<close> call them.\<close>

fun pw_addPositions ::
  "'p writer \<Rightarrow> (byte list \<Rightarrow> 'p \<Rightarrow> 'p result) \<Rightarrow> (nat \<times> byte list) list \<Rightarrow> ('f, 'p) postings_writer \<Rightarrow> ('f, 'p) postings_writer result" where
  "pw_addPositions wbP wbsP [] w = Inr w"
| "pw_addPositions wbP wbsP ((p, pl) # pos) w = bind_r (pw_addPosition wbP wbsP (int p) pl w) (\<lambda>w. pw_addPositions wbP wbsP pos w)"

fun pw_addPostings ::
  "'f writer \<Rightarrow> ('f \<Rightarrow> nat) \<Rightarrow> 'p writer \<Rightarrow> (byte list \<Rightarrow> 'p \<Rightarrow> 'p result) \<Rightarrow> ('p \<Rightarrow> nat) \<Rightarrow> posting list \<Rightarrow>
   ('f, 'p) postings_writer \<Rightarrow> ('f, 'p) postings_writer result" where
  "pw_addPostings wbF tellF wbP wbsP tellP [] w = Inr w"
| "pw_addPostings wbF tellF wbP wbsP tellP ((d, pos) # ps) w =
     bind_r (pw_addDoc wbF tellF tellP (int d) (int (length pos)) w) (\<lambda>w.
     bind_r (if pw_omit w then Inr w else bind_r (pw_addPositions wbP wbsP pos w) (\<lambda>w. Inr (pw_finishPositions w))) (\<lambda>w.
     pw_addPostings wbF tellF wbP wbsP tellP ps w))"

definition pw_writeTerm ::
  "'f writer \<Rightarrow> (byte list \<Rightarrow> 'f \<Rightarrow> 'f result) \<Rightarrow> ('f \<Rightarrow> nat) \<Rightarrow> 'p writer \<Rightarrow> (byte list \<Rightarrow> 'p \<Rightarrow> 'p result) \<Rightarrow> ('p \<Rightarrow> nat) \<Rightarrow>
   field_info \<Rightarrow> posting list \<Rightarrow> ('f, 'p) postings_writer \<Rightarrow> (term_info option \<times> ('f, 'p) postings_writer) result" where
  "pw_writeTerm wbF wbsF tellF wbP wbsP tellP fi ps w =
     bind_r (pw_addPostings wbF tellF wbP wbsP tellP ps (pw_addTerm tellF tellP (pw_setField fi w))) (pw_finishDocs wbF wbsF tellF)"

locale postings_out = F: out_stream wbF invF writtenF wbsF tellF + P: out_stream wbP invP writtenP wbsP tellP
  for wbF :: "'f writer" and invF writtenF wbsF tellF and wbP :: "'p writer" and invP writtenP wbsP tellP
begin

definition proxBytes :: "('f, 'p) postings_writer \<Rightarrow> byte list" where
  "proxBytes w = (case pw_proxOut w of None \<Rightarrow> [] | Some p \<Rightarrow> writtenP p)"

definition pw_inv :: "field_info \<Rightarrow> ('f, 'p) postings_writer \<Rightarrow> bool" where
  "pw_inv fi w \<longleftrightarrow> invF (pw_freqOut w) \<and> (\<forall>p. pw_proxOut w = Some p \<longrightarrow> invP p) \<and> sw_ok (pw_skip w) \<and>
     pw_omit w = fi_omitTermFreqAndPositions fi \<and> pw_storePayloads w = fi_storePayloads fi \<and>
     (\<not> fi_omitTermFreqAndPositions fi \<longrightarrow> pw_posStorePayloads w = fi_storePayloads fi)"

lemma addDoc_ok:
  assumes w: "pw_inv fi w" "pw_lastDocID w = int prev" and d: "prev \<le> d" "0 < pw_df w \<longrightarrow> prev < d" "d < 2 ^ 31" "length pos < 2 ^ 31"
  shows "\<exists>w'. pw_addDoc wbF tellF tellP (int d) (int (length pos)) w = Inr w' \<and> pw_inv fi w' \<and> pw_lastDocID w' = int d \<and> pw_df w' = pw_df w + 1 \<and>
    writtenF (pw_freqOut w') = writtenF (pw_freqOut w) @ doc_wire (fi_omitTermFreqAndPositions fi) prev (d, pos) \<and>
    pw_proxOut w' = pw_proxOut w \<and> pw_lastPosition w' = pw_lastPosition w \<and> pw_lastPayloadLength w' = pw_lastPayloadLength w \<and>
    pw_freqStart w' = pw_freqStart w \<and> pw_proxStart w' = pw_proxStart w"
proof -
  note i = w(1) [unfolded pw_inv_def]
  let ?skip = "if (pw_df w + 1) mod pw_skipInterval w = 0 then
       sw_bufferSkip (pw_df w + 1) (sw_setSkipData (pw_lastDocID w) (pw_storePayloads w) (pw_lastPayloadLength w)
         (tellF (pw_freqOut w)) (map_option tellP (pw_proxOut w)) (pw_skip w)) else Inr (pw_skip w)"
  obtain skip where skip: "?skip = Inr skip" "sw_ok skip"
    using i sw_bufferSkip_ok [OF sw_setSkipData_ok] by (cases "(pw_df w + 1) mod pw_skipInterval w = 0") fastforce+
  have delta: "int d - pw_lastDocID w = int (d - prev)" using w(2) d(1) by simp
  have l: "d - prev < 2 ^ 31" using d(3) by simp
  note c = code_word [OF l] code_word(1) [OF d(4)]
  let ?wire = "doc_wire (fi_omitTermFreqAndPositions fi) prev (d, pos)"
  let ?put = "\<lambda>s. if pw_omit w then writeVInt wbF (of_int (int (d - prev))) s
     else if int (length pos) = 1 then writeVInt wbF (push_bit 1 (of_int (int (d - prev))) OR 1) s
     else bind_r (writeVInt wbF (push_bit 1 (of_int (int (d - prev)))) s) (writeVInt wbF (of_int (int (length pos))))"
  have "F.puts ?put ?wire"
  proof (cases "pw_omit w")
    case True
    then have "?put = writeVInt wbF (of_int (int (d - prev)))" "?wire = nat_wire (d - prev)" using i by (auto simp: doc_wire_def)
    then show ?thesis using F.puts_vint [of "of_int (int (d - prev))"] unfolding c by simp
  next
    case no: False
    show ?thesis
    proof (cases "length pos = 1")
      case True
      then have "?put = writeVInt wbF (push_bit 1 (of_int (int (d - prev))) OR 1)" "?wire = nat_wire (2 * (d - prev) + 1)"
        using i no by (auto simp: doc_wire_def)
      then show ?thesis using F.puts_vint [of "push_bit 1 (of_int (int (d - prev))) OR 1"] unfolding c by simp
    next
      case False
      then have "?put = (\<lambda>s. bind_r (writeVInt wbF (push_bit 1 (of_int (int (d - prev)))) s) (\<lambda>s. writeVInt wbF (of_int (int (length pos))) s))"
        "?wire = nat_wire (2 * (d - prev)) @ nat_wire (length pos)"
        using i no by (auto simp: doc_wire_def)
      then show ?thesis
        using F.puts_bind [OF F.puts_vint F.puts_vint, of "push_bit 1 (of_int (int (d - prev)))" "of_int (int (length pos))"]
        unfolding c by simp
    qed
  qed
  from F.putsD [OF this, of "pw_freqOut w"] i obtain f where f: "?put (pw_freqOut w) = Inr f" "invF f" "writtenF f = writtenF (pw_freqOut w) @ ?wire" by blast
  have ok: "\<not> (int d < 0 \<or> 0 < pw_df w \<and> int (d - prev) \<le> 0)" using d(2) by auto
  have "pw_addDoc wbF tellF tellP (int d) (int (length pos)) w = Inr (w\<lparr>pw_df := pw_df w + 1, pw_skip := skip, pw_lastDocID := int d, pw_freqOut := f\<rparr>)"
    unfolding pw_addDoc_def Let_def delta if_not_P [OF ok] skip(1) bind_r_simps f(1) ..
  then show ?thesis using i skip(2) f by (auto simp: pw_inv_def proxBytes_def)
qed

lemma addPosition_ok:
  assumes w: "pw_inv fi w" "\<not> fi_omitTermFreqAndPositions fi" "pw_lastPosition w = int p" "pw_proxOut w \<noteq> None" and q: "p \<le> q" "q < 2 ^ 31" "length pl < 2 ^ 31"
    "fi_storePayloads fi \<or> pl = []"
  shows "\<exists>w'. pw_addPosition wbP wbsP (int q) pl w = Inr w' \<and> pw_inv fi w' \<and> pw_proxOut w' \<noteq> None \<and> pw_lastPosition w' = int q \<and>
    pw_lastPayloadLength w' = (if fi_storePayloads fi then int (length pl) else pw_lastPayloadLength w) \<and>
    proxBytes w' = proxBytes w @ entries_wire (fi_storePayloads fi) (entries (fi_storePayloads fi) p (pw_lastPayloadLength w) [(q, pl)]) \<and>
    pw_freqOut w' = pw_freqOut w \<and> pw_lastDocID w' = pw_lastDocID w \<and> pw_df w' = pw_df w \<and> pw_freqStart w' = pw_freqStart w \<and> pw_proxStart w' = pw_proxStart w"
proof -
  note i = w(1) [unfolded pw_inv_def]
  obtain out where out: "pw_proxOut w = Some out" "invP out" using i w(4) by blast
  have delta: "int q - pw_lastPosition w = int (q - p)" using w(3) q(1) by simp
  have l: "q - p < 2 ^ 31" using q(2) by simp
  note c = code_word [OF l] code_word(1) [OF q(3)]
  show ?thesis
  proof (cases "fi_storePayloads fi")
    case False
    obtain o' where o': "writeVInt wbP (of_int (int (q - p))) out = Inr o'" "invP o'" "writtenP o' = writtenP out @ nat_wire (q - p)"
      using P.putsD [OF P.puts_vint out(2), of "of_int (int (q - p))"] unfolding c by blast
    have "pw_addPosition wbP wbsP (int q) pl w = Inr (w\<lparr>pw_lastPosition := int q, pw_proxOut := Some o'\<rparr>)"
      using out(1) False i w(2) o'(1) delta by (simp add: pw_addPosition_def Let_def)
    then show ?thesis using False i o' out q(4) by (auto simp: pw_inv_def proxBytes_def entries_wire_def entry_wire_def entry_head_def)
  next
    case True
    let ?new = "int (length pl) \<noteq> pw_lastPayloadLength w"
    let ?head = "\<lambda>s. if ?new then bind_r (writeVInt wbP (push_bit 1 (of_int (int (q - p))) OR 1) s) (writeVInt wbP (of_int (int (length pl))))
                       else writeVInt wbP (push_bit 1 (of_int (int (q - p)))) s"
    let ?e = "(q - p, if ?new then Some (length pl) else None, pl)"
    have "P.puts ?head (entry_head True ?e)"
    proof (cases ?new)
      case True
      then have "?head = (\<lambda>s. bind_r (writeVInt wbP (push_bit 1 (of_int (int (q - p))) OR 1) s) (\<lambda>s. writeVInt wbP (of_int (int (length pl))) s))"
        by auto
      then show ?thesis using True P.puts_bind [OF P.puts_vint P.puts_vint, of "push_bit 1 (of_int (int (q - p))) OR 1" "of_int (int (length pl))"]
        unfolding c by (simp add: entry_head_def)
    next
      case False
      then have "?head = (\<lambda>s. writeVInt wbP (push_bit 1 (of_int (int (q - p)))) s)" by auto
      then show ?thesis using False P.puts_vint [of "push_bit 1 (of_int (int (q - p)))"] unfolding c by (simp add: entry_head_def)
    qed
    then obtain o1 where o1: "?head out = Inr o1" "invP o1" "writtenP o1 = writtenP out @ entry_head True ?e"
      using P.putsD out(2) by blast
    obtain o2 where o2: "(if 0 < int (length pl) then wbsP pl o1 else Inr o1) = Inr o2" "invP o2" "writtenP o2 = writtenP o1 @ pl"
      using P.putsD [OF P.puts_bytes o1(2), of pl] o1(2) by (cases "pl = []") auto
    have "pw_addPosition wbP wbsP (int q) pl w = Inr (w\<lparr>pw_lastPosition := int q, pw_lastPayloadLength := int (length pl), pw_proxOut := Some o2\<rparr>)"
      unfolding pw_addPosition_def out(1) option.case Let_def delta using True i w(2) o1(1) o2(1) by simp
    then show ?thesis using True i o1 o2 out by (auto simp: pw_inv_def proxBytes_def entries_wire_def entry_wire_def)
  qed
qed

end

lemma entries_cons: "entries payloads p l ((q, pl) # pos) =
    entries payloads p l [(q, pl)] @ entries payloads q (if payloads then int (length pl) else l) pos"
  by simp

lemma entries_wire_append: "entries_wire payloads (xs @ ys) = entries_wire payloads xs @ entries_wire payloads ys"
  by (simp add: entries_wire_def)

lemma positions_ok_Cons:
  "positions_ok fi ((q, pl) # pos) \<Longrightarrow> q < 2 ^ 31 \<and> length pl < 2 ^ 31 \<and> (fi_storePayloads fi \<or> pl = []) \<and> positions_ok fi pos \<and>
     (\<forall>(p, _)\<in>set pos. q \<le> p)"
  by (auto simp: positions_ok_def)

context postings_out begin

lemma addPositions_ok:
  "pw_inv fi w \<Longrightarrow> \<not> fi_omitTermFreqAndPositions fi \<Longrightarrow> pw_lastPosition w = int p \<Longrightarrow> pw_proxOut w \<noteq> None \<Longrightarrow> positions_ok fi pos \<Longrightarrow> \<forall>(q, _)\<in>set pos. p \<le> q \<Longrightarrow>
   \<exists>w'. pw_addPositions wbP wbsP pos w = Inr w' \<and> pw_inv fi w' \<and> pw_proxOut w' \<noteq> None \<and>
    proxBytes w' = proxBytes w @ entries_wire (fi_storePayloads fi) (entries (fi_storePayloads fi) p (pw_lastPayloadLength w) pos) \<and>
    pw_freqOut w' = pw_freqOut w \<and> pw_lastDocID w' = pw_lastDocID w \<and> pw_df w' = pw_df w \<and> pw_freqStart w' = pw_freqStart w \<and> pw_proxStart w' = pw_proxStart w"
proof (induction pos arbitrary: w p)
  case Nil
  then show ?case by (simp add: entries_wire_def)
next
  case (Cons x pos)
  obtain q pl where x: "x = (q, pl)" by (cases x)
  note c = positions_ok_Cons [OF Cons.prems(5) [unfolded x]]
  have "p \<le> q" using Cons.prems(6) x by auto
  from addPosition_ok [OF Cons.prems(1-4) this] c obtain w1 where w1: "pw_addPosition wbP wbsP (int q) pl w = Inr w1" "pw_inv fi w1" "pw_proxOut w1 \<noteq> None"
    "pw_lastPosition w1 = int q" "pw_lastPayloadLength w1 = (if fi_storePayloads fi then int (length pl) else pw_lastPayloadLength w)"
    "proxBytes w1 = proxBytes w @ entries_wire (fi_storePayloads fi) (entries (fi_storePayloads fi) p (pw_lastPayloadLength w) [(q, pl)])"
    "pw_freqOut w1 = pw_freqOut w" "pw_lastDocID w1 = pw_lastDocID w" "pw_df w1 = pw_df w" "pw_freqStart w1 = pw_freqStart w" "pw_proxStart w1 = pw_proxStart w"
    by blast
  from Cons.IH [OF w1(2) Cons.prems(2) w1(4,3)] c obtain w2 where w2: "pw_addPositions wbP wbsP pos w1 = Inr w2" "pw_inv fi w2" "pw_proxOut w2 \<noteq> None"
    "proxBytes w2 = proxBytes w1 @ entries_wire (fi_storePayloads fi) (entries (fi_storePayloads fi) q (pw_lastPayloadLength w1) pos)"
    "pw_freqOut w2 = pw_freqOut w1" "pw_lastDocID w2 = pw_lastDocID w1" "pw_df w2 = pw_df w1" "pw_freqStart w2 = pw_freqStart w1" "pw_proxStart w2 = pw_proxStart w1"
    by blast
  have "proxBytes w2 = proxBytes w @ entries_wire (fi_storePayloads fi) (entries (fi_storePayloads fi) p (pw_lastPayloadLength w) (x # pos))"
    unfolding x by (subst entries_cons) (simp only: entries_wire_append w2(4) w1(5,6) append_assoc)
  then show ?case using x w1 w2 by simp
qed

lemma addPostings_ok:
  assumes "pw_inv fi w" "pw_lastDocID w = int prev" "pw_lastPosition w = 0" "pw_lastPayloadLength w = -1"
    and "postings_ok fi ps" "\<forall>(d, _)\<in>set ps. prev \<le> d \<and> (0 < pw_df w \<longrightarrow> prev < d)" "fi_omitTermFreqAndPositions fi \<or> pw_proxOut w \<noteq> None"
  shows "\<exists>w'. pw_addPostings wbF tellF wbP wbsP tellP ps w = Inr w' \<and> pw_inv fi w' \<and> (pw_proxOut w' = None \<longleftrightarrow> pw_proxOut w = None) \<and> pw_df w' = pw_df w + length ps \<and>
    writtenF (pw_freqOut w') = writtenF (pw_freqOut w) @ docs_wire (fi_omitTermFreqAndPositions fi) prev ps \<and>
    proxBytes w' = proxBytes w @ (if fi_omitTermFreqAndPositions fi then [] else entries_wire (fi_storePayloads fi) (term_entries (fi_storePayloads fi) ps)) \<and>
    pw_lastPosition w' = 0 \<and> pw_lastPayloadLength w' = -1 \<and> pw_freqStart w' = pw_freqStart w \<and> pw_proxStart w' = pw_proxStart w"
  using assms
proof (induction ps arbitrary: w prev)
  case Nil
  then show ?case by (simp add: term_entries_def entries_wire_def)
next
  case (Cons x ps)
  obtain d pos where x: "x = (d, pos)" by (cases x)
  let ?omit = "fi_omitTermFreqAndPositions fi" and ?pay = "fi_storePayloads fi"
  have ok: "d < 2 ^ 31" "length pos < 2 ^ 31" "postings_ok fi ps" "\<forall>(e, _)\<in>set ps. d < e" "\<not> ?omit \<Longrightarrow> positions_ok fi pos"
    using Cons.prems(5) x by (auto simp: postings_ok_def)
  have "prev \<le> d" "0 < pw_df w \<longrightarrow> prev < d" using Cons.prems(6) x by auto
  from addDoc_ok [OF Cons.prems(1,2) this ok(1,2)] obtain w1 where w1:
    "pw_addDoc wbF tellF tellP (int d) (int (length pos)) w = Inr w1" "pw_inv fi w1" "pw_lastDocID w1 = int d" "pw_df w1 = pw_df w + 1"
    "writtenF (pw_freqOut w1) = writtenF (pw_freqOut w) @ doc_wire ?omit prev (d, pos)" "pw_proxOut w1 = pw_proxOut w"
    "pw_lastPosition w1 = pw_lastPosition w" "pw_lastPayloadLength w1 = pw_lastPayloadLength w" "pw_freqStart w1 = pw_freqStart w" "pw_proxStart w1 = pw_proxStart w"
    by blast
  have om: "pw_omit w1 = ?omit" using w1(2) by (simp add: pw_inv_def)
  have "\<exists>w2. (if pw_omit w1 then Inr w1 else bind_r (pw_addPositions wbP wbsP pos w1) (\<lambda>w. Inr (pw_finishPositions w))) = Inr w2 \<and> pw_inv fi w2 \<and> (pw_proxOut w2 = None \<longleftrightarrow> pw_proxOut w = None) \<and>
      proxBytes w2 = proxBytes w @ (if ?omit then [] else entries_wire ?pay (entries ?pay 0 (-1) pos)) \<and> pw_lastPosition w2 = 0 \<and>
      pw_lastPayloadLength w2 = -1 \<and> pw_freqOut w2 = pw_freqOut w1 \<and> pw_lastDocID w2 = pw_lastDocID w1 \<and> pw_df w2 = pw_df w1 \<and>
      pw_freqStart w2 = pw_freqStart w1 \<and> pw_proxStart w2 = pw_proxStart w1"
  proof (cases ?omit)
    case True
    then show ?thesis using om w1 Cons.prems(3,4) by (simp add: proxBytes_def)
  next
    case False
    have out: "pw_proxOut w \<noteq> None" using Cons.prems(7) False by simp
    have "pw_lastPosition w1 = int 0" "pw_proxOut w1 \<noteq> None" using w1(6,7) Cons.prems(3) out by simp_all
    from addPositions_ok [OF w1(2) False this ok(5) [OF False]] obtain w2 where w2: "pw_addPositions wbP wbsP pos w1 = Inr w2" "pw_inv fi w2"
      "pw_proxOut w2 \<noteq> None" "proxBytes w2 = proxBytes w1 @ entries_wire ?pay (entries ?pay 0 (pw_lastPayloadLength w1) pos)"
      "pw_freqOut w2 = pw_freqOut w1" "pw_lastDocID w2 = pw_lastDocID w1" "pw_df w2 = pw_df w1" "pw_freqStart w2 = pw_freqStart w1" "pw_proxStart w2 = pw_proxStart w1"
      by auto
    have "pw_inv fi (pw_finishPositions w2)" using w2(2) by (simp add: pw_inv_def pw_finishPositions_def)
    then show ?thesis using om False w2(1,2,4-) w1(6,8) Cons.prems(4) w2(3) out by (simp add: pw_finishPositions_def proxBytes_def del: not_None_eq)
  qed
  then obtain w2 where w2: "(if pw_omit w1 then Inr w1 else bind_r (pw_addPositions wbP wbsP pos w1) (\<lambda>w. Inr (pw_finishPositions w))) = Inr w2"
      "pw_inv fi w2" "pw_proxOut w2 = None \<longleftrightarrow> pw_proxOut w = None" "proxBytes w2 = proxBytes w @ (if ?omit then [] else entries_wire ?pay (entries ?pay 0 (-1) pos))" "pw_lastPosition w2 = 0"
      "pw_lastPayloadLength w2 = -1" "pw_freqOut w2 = pw_freqOut w1" "pw_lastDocID w2 = pw_lastDocID w1" "pw_df w2 = pw_df w1"
      "pw_freqStart w2 = pw_freqStart w1" "pw_proxStart w2 = pw_proxStart w1" by (elim exE conjE) (rule that)
  have "pw_lastDocID w2 = int d" "\<forall>(e, _)\<in>set ps. d \<le> e \<and> (0 < pw_df w2 \<longrightarrow> d < e)" using w2(8) w1(3) ok(4) by auto
  note later = this
  have "?omit \<or> pw_proxOut w2 \<noteq> None" using w2(3) Cons.prems(7) by simp
  from Cons.IH [OF w2(2) later(1) w2(5,6) ok(3) later(2) this] obtain w3 where w3: "pw_addPostings wbF tellF wbP wbsP tellP ps w2 = Inr w3" "pw_inv fi w3" "pw_proxOut w3 = None \<longleftrightarrow> pw_proxOut w2 = None"
    "pw_df w3 = pw_df w2 + length ps" "writtenF (pw_freqOut w3) = writtenF (pw_freqOut w2) @ docs_wire ?omit d ps"
    "proxBytes w3 = proxBytes w2 @ (if ?omit then [] else entries_wire ?pay (term_entries ?pay ps))"
    "pw_lastPosition w3 = 0" "pw_lastPayloadLength w3 = -1" "pw_freqStart w3 = pw_freqStart w2" "pw_proxStart w3 = pw_proxStart w2"
    by (elim exE conjE) (rule that)
  have "pw_addPostings wbF tellF wbP wbsP tellP (x # ps) w = Inr w3"
    unfolding x pw_addPostings.simps w1(1) bind_r_simps w2(1) w3(1) ..
  moreover have "writtenF (pw_freqOut w3) = writtenF (pw_freqOut w) @ docs_wire ?omit prev (x # ps)"
    using w3(5) w2(7) w1(5) x by simp
  moreover have "proxBytes w3 = proxBytes w @ (if ?omit then [] else entries_wire ?pay (term_entries ?pay (x # ps)))"
    using w3(6) w2(4) x by (simp add: term_entries_def entries_wire_append)
  ultimately show ?case using w3 w2 w1 by simp
qed

definition pw_ready :: "('f, 'p) postings_writer \<Rightarrow> bool" where
  "pw_ready w \<longleftrightarrow> invF (pw_freqOut w) \<and> (\<forall>p. pw_proxOut w = Some p \<longrightarrow> invP p) \<and> (pw_proxOut w = None \<longrightarrow> pw_proxStart w = 0) \<and> sw_start (pw_skip w) \<and>
     pw_lastDocID w = 0 \<and> pw_df w = 0 \<and> pw_lastPosition w = 0 \<and> pw_lastPayloadLength w = -1"

lemma writeTerm_ok:
  assumes w: "pw_ready w" and ps: "postings_ok fi ps" "ps \<noteq> []" and out: "fi_omitTermFreqAndPositions fi \<or> pw_proxOut w \<noteq> None"
  shows "\<exists>ti w' skip. pw_writeTerm wbF wbsF tellF wbP wbsP tellP fi ps w = Inr (Some ti, w') \<and> pw_ready w' \<and> (pw_proxOut w' = None \<longleftrightarrow> pw_proxOut w = None) \<and>
    ti_docFreq ti = int (length ps) \<and> ti_freqPointer ti = int (length (writtenF (pw_freqOut w))) \<and> ti_proxPointer ti = int (length (proxBytes w)) \<and>
    writtenF (pw_freqOut w') = writtenF (pw_freqOut w) @ docs_wire (fi_omitTermFreqAndPositions fi) 0 ps @ skip \<and>
    proxBytes w' = proxBytes w @ (if fi_omitTermFreqAndPositions fi then [] else entries_wire (fi_storePayloads fi) (term_entries (fi_storePayloads fi) ps))"
proof -
  note i = w [unfolded pw_ready_def]
  define w0 where "w0 = pw_addTerm tellF tellP (pw_setField fi w)"
  have start: "pw_freqStart w0 = length (writtenF (pw_freqOut w))" "pw_proxStart w0 = length (proxBytes w)" "writtenF (pw_freqOut w0) = writtenF (pw_freqOut w)"
    "proxBytes w0 = proxBytes w"
      "pw_proxOut w0 = pw_proxOut w"
    using i F.tell_written P.tell_written by (auto simp: w0_def pw_addTerm_def pw_setField_def Let_def proxBytes_def split: option.split)
  have inv: "pw_inv fi w0" using i sw_resetSkip_ok by (auto simp: w0_def pw_addTerm_def pw_setField_def Let_def pw_inv_def split: option.split)
  have z: "pw_lastDocID w0 = int 0" "pw_df w0 = 0" "pw_lastPosition w0 = 0" "pw_lastPayloadLength w0 = -1"
    using i by (simp_all add: w0_def pw_addTerm_def pw_setField_def Let_def split: option.split)
  have "\<forall>(d, _)\<in>set ps. 0 \<le> d \<and> (0 < pw_df w0 \<longrightarrow> 0 < d)" "fi_omitTermFreqAndPositions fi \<or> pw_proxOut w0 \<noteq> None" using z(2) out start(5) by auto
  from addPostings_ok [OF inv z(1,3,4) ps(1) this] obtain w1 where w1: "pw_addPostings wbF tellF wbP wbsP tellP ps w0 = Inr w1" "pw_inv fi w1"
    "pw_proxOut w1 = None \<longleftrightarrow> pw_proxOut w0 = None" "pw_df w1 = length ps" "writtenF (pw_freqOut w1) = writtenF (pw_freqOut w0) @ docs_wire (fi_omitTermFreqAndPositions fi) 0 ps"
    "proxBytes w1 = proxBytes w0 @ (if fi_omitTermFreqAndPositions fi then [] else entries_wire (fi_storePayloads fi) (term_entries (fi_storePayloads fi) ps))"
    "pw_lastPosition w1 = 0" "pw_lastPayloadLength w1 = -1" "pw_freqStart w1 = pw_freqStart w0" "pw_proxStart w1 = pw_proxStart w0"
    using z(2) by auto
  have "invF (pw_freqOut w1)" "sw_ok (pw_skip w1)" using w1(2) by (simp_all add: pw_inv_def)
  from F.writeSkip_ok [OF this, of tellF] obtain skip' f bytes where sk: "sw_writeSkip wbF wbsF tellF (pw_skip w1) (pw_freqOut w1) = Inr (tellF (pw_freqOut w1), skip', f)"
    "invF f" "writtenF f = writtenF (pw_freqOut w1) @ bytes" "sw_ok skip'" by blast
  let ?ti = "\<lparr>ti_docFreq = int (pw_df w1), ti_freqPointer = int (pw_freqStart w1), ti_proxPointer = int (pw_proxStart w1),
      ti_skipOffset = trunc32 (int (tellF (pw_freqOut w1)) - int (pw_freqStart w1))\<rparr>"
  let ?w = "w1\<lparr>pw_skip := skip', pw_freqOut := f, pw_lastDocID := 0, pw_df := 0\<rparr>"
  have "pw_writeTerm wbF wbsF tellF wbP wbsP tellP fi ps w = Inr (Some ?ti, ?w)"
    using w1(1,4) ps(2) sk(1) by (simp add: pw_writeTerm_def pw_finishDocs_def Let_def flip: w0_def)
  moreover have "pw_proxOut w1 = None \<Longrightarrow> pw_proxStart w1 = 0" using w1(3,10) start(2,5) by (simp add: proxBytes_def)
  then have "pw_ready ?w" using w1(2,7,8) sk by (auto simp: pw_ready_def pw_inv_def sw_start_def)
  moreover have "(pw_proxOut ?w = None) = (pw_proxOut w = None)" using w1(3) start(5) by simp
  moreover have "proxBytes ?w = proxBytes w1" by (simp add: proxBytes_def)
  ultimately show ?thesis using w1 start sk(3) by (intro exI conjI) (assumption | simp)+
qed

end

subsection \<open>The files of a segment\<close>

interpretation seg_out: postings_out so_writeByte "\<lambda>s. fs_out.appending (fst s)" "\<lambda>s. fs_out.view (fst s)" so_writeBytes so_pointer
  so_writeByte "\<lambda>s. fs_out.appending (fst s)" "\<lambda>s. fs_out.view (fst s)" so_writeBytes so_pointer
  ..

subsection \<open>The order of the documents\<close>

fun pw_addDocs ::
  "'f writer \<Rightarrow> ('f \<Rightarrow> nat) \<Rightarrow> ('p \<Rightarrow> nat) \<Rightarrow> (int \<times> int) list \<Rightarrow> ('f, 'p) postings_writer \<Rightarrow> ('f, 'p) postings_writer result" where
  "pw_addDocs wbF tellF tellP [] w = Inr w"
| "pw_addDocs wbF tellF tellP ((d, freq) # ds) w = bind_r (pw_addDoc wbF tellF tellP d freq w) (pw_addDocs wbF tellF tellP ds)"

definition docs_in_order :: "(int \<times> int) list \<Rightarrow> bool" where
  "docs_in_order ds \<longleftrightarrow> (\<forall>(d, _)\<in>set ds. 0 \<le> d) \<and> sorted_wrt (<) (map fst ds)"

context postings_out begin

lemma addDocs_order:
  "pw_inv fi w \<Longrightarrow> pw_lastDocID w = int prev \<Longrightarrow> pw_df w = 0 \<longrightarrow> prev = 0 \<Longrightarrow> \<forall>(d, freq)\<in>set ds. d < 2 ^ 31 \<and> 0 \<le> freq \<and> freq < 2 ^ 31 \<Longrightarrow>
   if docs_in_order ds \<and> (\<forall>(d, _)\<in>set ds. 0 < pw_df w \<longrightarrow> int prev < d)
   then \<exists>w'. pw_addDocs wbF tellF tellP ds w = Inr w' \<and> pw_inv fi w' \<and> pw_df w' = pw_df w + length ds
   else pw_addDocs wbF tellF tellP ds w = Inl CorruptIndex"
proof (induction ds arbitrary: w prev)
  case Nil
  then show ?case by (simp add: docs_in_order_def)
next
  case (Cons x ds)
  obtain d freq where x: "x = (d, freq)" by (cases x)
  have b: "d < 2 ^ 31" "0 \<le> freq" "freq < 2 ^ 31" using Cons.prems(4) x by auto
  show ?case
  proof (cases "d < 0 \<or> 0 < pw_df w \<and> d - int prev \<le> 0")
    case True
    then have "pw_addDocs wbF tellF tellP (x # ds) w = Inl CorruptIndex" using x Cons.prems(2) by (simp add: pw_addDoc_def)
    then show ?thesis using True x by (auto simp: docs_in_order_def)
  next
    case False
    define n pos where "n = nat d" and "pos = replicate (nat freq) (0 :: nat, [] :: byte list)"
    have n: "d = int n" "freq = int (length pos)" "n < 2 ^ 31" "length pos < 2 ^ 31" using False b by (auto simp: n_def pos_def)
    have "prev \<le> n" "0 < pw_df w \<longrightarrow> prev < n" using False n(1) Cons.prems(3) by auto
    from addDoc_ok [OF Cons.prems(1,2) this n(3,4)] obtain u where u: "pw_addDoc wbF tellF tellP d freq w = Inr u" "pw_inv fi u" "pw_lastDocID u = int n"
      "pw_df u = pw_df w + 1" using n(1,2) by blast
    have step: "pw_addDocs wbF tellF tellP (x # ds) w = pw_addDocs wbF tellF tellP ds u" using x u(1) by simp
    have iff: "docs_in_order (x # ds) \<and> (\<forall>(d, _)\<in>set (x # ds). 0 < pw_df w \<longrightarrow> int prev < d) \<longleftrightarrow>
        docs_in_order ds \<and> (\<forall>(d, _)\<in>set ds. 0 < pw_df u \<longrightarrow> int n < d)"
      using False x n(1) u(4) by (fastforce simp: docs_in_order_def)
    have l: "pw_df w + length (x # ds) = pw_df u + length ds" using u(4) by simp
    have "pw_df u = 0 \<longrightarrow> n = 0" "\<forall>(d, freq)\<in>set ds. d < 2 ^ 31 \<and> 0 \<le> freq \<and> freq < 2 ^ 31" using u(4) Cons.prems(4) by auto
    from Cons.IH [OF u(2,3) this] show ?thesis unfolding step iff l .
  qed
qed

lemma started_inv:
  assumes "pw_ready w"
  shows "pw_inv fi (pw_addTerm tellF tellP (pw_setField fi w))" "pw_lastDocID (pw_addTerm tellF tellP (pw_setField fi w)) = int 0"
    "pw_df (pw_addTerm tellF tellP (pw_setField fi w)) = 0"
  using assms sw_resetSkip_ok by (auto simp: pw_ready_def pw_addTerm_def pw_setField_def Let_def pw_inv_def split: option.split)

end

text \<open>The writers of a segment over new files, as \<^verbatim>\<open>FormatPostingsFieldsWriter\<close> makes them: the file for
  positions is there only if a field of the segment has positions (\<open>hasProx\<close>).\<close>

definition newSegmentWriter :: "bool \<Rightarrow> (nat \<Rightarrow> nat \<Rightarrow> nat) \<Rightarrow> nat \<Rightarrow> nat \<Rightarrow> nat \<Rightarrow> (fs_out, fs_out) postings_writer" where
  "newSegmentWriter hasProx floorLog skipInterval maxSkipLevels docCount =
     newPostingsWriter newSimpleFSIndexOutput (if hasProx then Some newSimpleFSIndexOutput else None) (newSkipListWriter floorLog skipInterval maxSkipLevels docCount) skipInterval"

lemma newSegmentWriter_ready:
  "0 < skipInterval \<Longrightarrow> floorLog docCount skipInterval \<le> maxSkipLevels \<Longrightarrow> seg_out.pw_ready (newSegmentWriter hasProx floorLog skipInterval maxSkipLevels docCount)"
  using new_so_out newSkipListWriter_start [of skipInterval floorLog docCount maxSkipLevels]
  by (simp add: seg_out.pw_ready_def newPostingsWriter_def newSegmentWriter_def del: split_paired_All)

text \<open>
  C38. Whatever numbers and frequencies of documents are added to a new term, the writer takes them all
  if the numbers are not negative and grow strictly, and throws CorruptIndexException otherwise:
  nothing that is out of order reaches the file, and nothing in order is refused.
\<close>

theorem added_docs_in_order:
  assumes "0 < skipInterval" "floorLog docCount skipInterval \<le> maxSkipLevels" "\<forall>(d, freq)\<in>set ds. d < 2 ^ 31 \<and> 0 \<le> freq \<and> freq < 2 ^ 31"
  shows "if docs_in_order ds
    then \<exists>w'. pw_addDocs so_writeByte so_pointer so_pointer ds (pw_addTerm so_pointer so_pointer (pw_setField fi (newSegmentWriter hasProx floorLog skipInterval maxSkipLevels docCount))) = Inr w' \<and> pw_df w' = length ds
    else pw_addDocs so_writeByte so_pointer so_pointer ds (pw_addTerm so_pointer so_pointer (pw_setField fi (newSegmentWriter hasProx floorLog skipInterval maxSkipLevels docCount))) = Inl CorruptIndex"
proof -
  have "seg_out.pw_ready (newSegmentWriter hasProx floorLog skipInterval maxSkipLevels docCount)"
    using newSegmentWriter_ready [of skipInterval floorLog docCount maxSkipLevels hasProx] assms(1,2) by blast
  note i = seg_out.started_inv [OF this, of fi]
  show ?thesis using seg_out.addDocs_order [OF i(1,2) _ assms(3)] i(3) by (auto split: if_splits)
qed

theorem added_docs_in_order_witness:
  "pw_addDocs so_writeByte so_pointer so_pointer [(3, 1), (7, 2), (7, 1)] (pw_addTerm so_pointer so_pointer
     (pw_setField \<lparr>fi_omitTermFreqAndPositions = False, fi_storePayloads = False\<rparr>
       (newSegmentWriter True (\<lambda>_ _. 0) 16 10 20))) = Inl CorruptIndex"
proof -
  have p: "0 < (16 :: nat)" "0 \<le> (10 :: nat)" "\<forall>(d, freq)\<in>set [(3 :: int, 1 :: int), (7, 2), (7, 1)]. d < 2 ^ 31 \<and> 0 \<le> freq \<and> freq < 2 ^ 31" by simp_all
  have "\<not> docs_in_order [(3, 1), (7, 2), (7, 1)]" by (simp add: docs_in_order_def)
  with added_docs_in_order [where floorLog = "\<lambda>_ _. 0" and docCount = 20 and skipInterval = 16 and maxSkipLevels = 10, OF p,
      of "\<lparr>fi_omitTermFreqAndPositions = False, fi_storePayloads = False\<rparr>" True]
  show ?thesis by (simp only: if_False)
qed

end
