(* ===== verification/PostingsReader.thy ===== *)
theory PostingsReader imports PostingsWriter BitVector begin

text \<open>
  Reading the postings of a segment: the cursors \<^verbatim>\<open>index/SegmentTermDocs.cpp\<close> and
  \<^verbatim>\<open>index/SegmentTermPositions.cpp\<close>, over the states \<open>'f\<close> and \<open>'p\<close> of the inputs
  for frequencies and positions.
\<close>

subsection \<open>SegmentTermDocs\<close>

record 'f term_docs =
  td_freqStream :: 'f
  td_count :: int
  td_df :: int
  td_deletedDocs :: "bit_vector option"
  td_doc :: int32
  td_freq :: int32
  td_freqBasePointer :: int
  td_proxBasePointer :: int
  td_skipPointer :: int
  td_haveSkipped :: bool
  td_payloads :: bool
  td_omit :: bool

definition newSegmentTermDocs :: "'f \<Rightarrow> bit_vector option \<Rightarrow> 'f term_docs" where
  "newSegmentTermDocs freqStream deletedDocs =
     \<lparr>td_freqStream = freqStream, td_count = 0, td_df = 0, td_deletedDocs = deletedDocs, td_doc = 0, td_freq = 0,
      td_freqBasePointer = 0, td_proxBasePointer = 0, td_skipPointer = 0, td_haveSkipped = False, td_payloads = False, td_omit = False\<rparr>"

text \<open>\<^verbatim>\<open>seek\<close> to a term: its entry of the dictionary, if it has one, and the field, if it is known.\<close>

definition td_seek :: "(nat \<Rightarrow> 'f \<Rightarrow> 'f result) \<Rightarrow> term_info option \<Rightarrow> field_info option \<Rightarrow> 'f term_docs \<Rightarrow> 'f term_docs result" where
  "td_seek skF ti fi t =
     (let t = t\<lparr>td_count := 0,
                td_omit := (case fi of None \<Rightarrow> False | Some f \<Rightarrow> fi_omitTermFreqAndPositions f),
                td_payloads := (case fi of None \<Rightarrow> False | Some f \<Rightarrow> fi_storePayloads f)\<rparr>
      in case ti of None \<Rightarrow> Inr (t\<lparr>td_df := 0\<rparr>)
         | Some ti \<Rightarrow>
             bind_r (skF (nat (ti_freqPointer ti)) (td_freqStream t)) (\<lambda>s.
               Inr (t\<lparr>td_df := ti_docFreq ti, td_doc := 0, td_freqBasePointer := ti_freqPointer ti, td_proxBasePointer := ti_proxPointer ti,
                      td_skipPointer := ti_freqPointer ti + ti_skipOffset ti, td_freqStream := s, td_haveSkipped := False\<rparr>)))"

text \<open>The code of one document, the common part of \<^verbatim>\<open>next\<close> and of the two \<^verbatim>\<open>read\<close>.\<close>

definition td_readDoc :: "'f reader \<Rightarrow> 'f term_docs \<Rightarrow> 'f term_docs result" where
  "td_readDoc rbF t =
     bind_r (readVInt rbF (td_freqStream t)) (\<lambda>(docCode, s).
     bind_r (if td_omit t then Inr (td_doc t + docCode, 1, s)
             else let doc = td_doc t + unsignedShift32 docCode 1 in
               if docCode AND 1 \<noteq> 0 then Inr (doc, 1, s) else bind_r (readVInt rbF s) (\<lambda>(freq, s). Inr (doc, freq, s))) (\<lambda>(doc, freq, s).
       Inr (t\<lparr>td_doc := doc, td_freq := freq, td_count := td_count t + 1, td_freqStream := s\<rparr>)))"

definition td_deleted :: "'f term_docs \<Rightarrow> bool result" where
  "td_deleted t = (case td_deletedDocs t of None \<Rightarrow> Inr False | Some v \<Rightarrow> bv_get (sint (td_doc t)) v)"

text \<open>The loop of \<^verbatim>\<open>next\<close>; \<open>skipped\<close> counts the frequencies of the deleted documents, which
  the virtual \<^verbatim>\<open>skippingDoc\<close> of \<^verbatim>\<open>SegmentTermPositions\<close> adds up.\<close>

partial_function (option) td_next_loop :: "'f reader \<Rightarrow> int32 \<Rightarrow> 'f term_docs \<Rightarrow> (bool \<times> int32 \<times> 'f term_docs) result option" where
  "td_next_loop rbF skipped t =
     (if td_count t = td_df t then Some (Inr (False, skipped, t))
      else case td_readDoc rbF t of Inl e \<Rightarrow> Some (Inl e)
      | Inr t \<Rightarrow>
          (case td_deleted t of Inl e \<Rightarrow> Some (Inl e)
           | Inr deleted \<Rightarrow> if deleted then td_next_loop rbF (skipped + td_freq t) t else Some (Inr (True, skipped, t))))"

definition td_next :: "'f reader \<Rightarrow> 'f term_docs \<Rightarrow> (bool \<times> 'f term_docs) result" where
  "td_next rbF t = bind_r (returns (td_next_loop rbF 0 t)) (\<lambda>(found, _, t). Inr (found, t))"

text \<open>\<^verbatim>\<open>read\<close> and \<^verbatim>\<open>readNoTf\<close> fill two arrays of \<open>n\<close> elements; what they filled is
  the result. \<^verbatim>\<open>readNoTf\<close> returns the frequency 1 for every document and leaves the member as
  it was.\<close>

partial_function (option) td_read_loop :: "'f reader \<Rightarrow> nat \<Rightarrow> (int32 \<times> int32) list \<Rightarrow> 'f term_docs \<Rightarrow> ((int32 \<times> int32) list \<times> 'f term_docs) result option" where
  "td_read_loop rbF n acc t =
     (if length acc < n \<and> td_count t < td_df t then
        (case td_readDoc rbF t of Inl e \<Rightarrow> Some (Inl e)
         | Inr u \<Rightarrow>
             (case td_deleted u of Inl e \<Rightarrow> Some (Inl e)
              | Inr deleted \<Rightarrow> td_read_loop rbF n (if deleted then acc else acc @ [(td_doc u, td_freq u)])
                  (if td_omit t then u\<lparr>td_freq := td_freq t\<rparr> else u)))
      else Some (Inr (acc, t)))"

definition td_read :: "'f reader \<Rightarrow> nat \<Rightarrow> 'f term_docs \<Rightarrow> ((int32 \<times> int32) list \<times> 'f term_docs) result" where
  "td_read rbF n t = returns (td_read_loop rbF n [] t)"

subsection \<open>SegmentTermPositions\<close>

record ('f, 'p) term_positions =
  tp_docs :: "'f term_docs"
  tp_proxStream :: "'p option"
  tp_proxCount :: int32
  tp_position :: int32
  tp_payloadLength :: int32
  tp_needToLoadPayload :: bool
  tp_lazySkipPointer :: int
  tp_lazySkipProxCount :: int32

definition newSegmentTermPositions :: "'f \<Rightarrow> bit_vector option \<Rightarrow> ('f, 'p) term_positions" where
  "newSegmentTermPositions freqStream deletedDocs =
     \<lparr>tp_docs = newSegmentTermDocs freqStream deletedDocs, tp_proxStream = None, tp_proxCount = 0, tp_position = 0, tp_payloadLength = 0,
      tp_needToLoadPayload = False, tp_lazySkipPointer = -1, tp_lazySkipProxCount = 0\<rparr>"

definition tp_seek :: "(nat \<Rightarrow> 'f \<Rightarrow> 'f result) \<Rightarrow> term_info option \<Rightarrow> field_info option \<Rightarrow> ('f, 'p) term_positions \<Rightarrow> ('f, 'p) term_positions result" where
  "tp_seek skF ti fi t =
     bind_r (td_seek skF ti fi (tp_docs t)) (\<lambda>docs.
       Inr (t\<lparr>tp_docs := docs,
              tp_lazySkipPointer := (case ti of None \<Rightarrow> tp_lazySkipPointer t | Some ti \<Rightarrow> ti_proxPointer ti),
              tp_lazySkipProxCount := 0, tp_proxCount := 0, tp_payloadLength := 0, tp_needToLoadPayload := False\<rparr>))"

text \<open>The operations that use the stream of positions have it as an argument of their own.\<close>

definition tp_readDeltaPosition :: "'p reader \<Rightarrow> ('f, 'p) term_positions \<Rightarrow> 'p \<Rightarrow> (int32 \<times> ('f, 'p) term_positions \<times> 'p) result" where
  "tp_readDeltaPosition rbP t s =
     bind_r (readVInt rbP s) (\<lambda>(delta, s).
       if td_payloads (tp_docs t) then
         bind_r (if delta AND 1 \<noteq> 0 then readVInt rbP s else Inr (tp_payloadLength t, s)) (\<lambda>(payloadLength, s).
           Inr (unsignedShift32 delta 1, t\<lparr>tp_payloadLength := payloadLength, tp_needToLoadPayload := True\<rparr>, s))
       else Inr (delta, t, s))"

definition tp_skipPayload :: "(nat \<Rightarrow> 'p \<Rightarrow> 'p result) \<Rightarrow> ('p \<Rightarrow> nat) \<Rightarrow> ('f, 'p) term_positions \<Rightarrow> 'p \<Rightarrow> (('f, 'p) term_positions \<times> 'p) result" where
  "tp_skipPayload skP tellP t s =
     bind_r (if tp_needToLoadPayload t \<and> 0 < sint (tp_payloadLength t) then skP (tellP s + unat (tp_payloadLength t)) s else Inr s) (\<lambda>s.
       Inr (t\<lparr>tp_needToLoadPayload := False\<rparr>, s))"

fun tp_skipPositions ::
  "'p reader \<Rightarrow> (nat \<Rightarrow> 'p \<Rightarrow> 'p result) \<Rightarrow> ('p \<Rightarrow> nat) \<Rightarrow> nat \<Rightarrow> ('f, 'p) term_positions \<Rightarrow> 'p \<Rightarrow> (('f, 'p) term_positions \<times> 'p) result" where
  "tp_skipPositions rbP skP tellP 0 t s = Inr (t, s)"
| "tp_skipPositions rbP skP tellP (Suc n) t s =
     bind_r (tp_readDeltaPosition rbP t s) (\<lambda>(_, t, s). bind_r (tp_skipPayload skP tellP t s) (\<lambda>(t, s).
       tp_skipPositions rbP skP tellP n t s))"

text \<open>\<^verbatim>\<open>lazySkip\<close>: \<open>clone\<close> is the clone of the stream of the segment, made at the first use.\<close>

definition tp_lazySkip ::
  "'p reader \<Rightarrow> (nat \<Rightarrow> 'p \<Rightarrow> 'p result) \<Rightarrow> ('p \<Rightarrow> nat) \<Rightarrow> 'p \<Rightarrow> ('f, 'p) term_positions \<Rightarrow> (('f, 'p) term_positions \<times> 'p) result" where
  "tp_lazySkip rbP skP tellP clone t =
     bind_r (tp_skipPayload skP tellP t (case tp_proxStream t of None \<Rightarrow> clone | Some s \<Rightarrow> s)) (\<lambda>(t, s).
     bind_r (if tp_lazySkipPointer t \<noteq> -1 then skP (nat (tp_lazySkipPointer t)) s else Inr s) (\<lambda>s.
     let t = t\<lparr>tp_lazySkipPointer := -1\<rparr> in
       if tp_lazySkipProxCount t \<noteq> 0 then
         bind_r (tp_skipPositions rbP skP tellP (nat (sint (tp_lazySkipProxCount t))) t s) (\<lambda>(t, s).
           Inr (t\<lparr>tp_lazySkipProxCount := 0\<rparr>, s))
       else Inr (t, s)))"

definition tp_nextPosition ::
  "'p reader \<Rightarrow> (nat \<Rightarrow> 'p \<Rightarrow> 'p result) \<Rightarrow> ('p \<Rightarrow> nat) \<Rightarrow> 'p \<Rightarrow> ('f, 'p) term_positions \<Rightarrow> (int32 \<times> ('f, 'p) term_positions) result" where
  "tp_nextPosition rbP skP tellP clone t =
     (if td_omit (tp_docs t) then Inr (0, t)
      else bind_r (tp_lazySkip rbP skP tellP clone t) (\<lambda>(t, s).
           let t = t\<lparr>tp_proxCount := tp_proxCount t - 1\<rparr> in
           bind_r (tp_readDeltaPosition rbP t s) (\<lambda>(delta, t, s).
             Inr (tp_position t + delta, t\<lparr>tp_position := tp_position t + delta, tp_proxStream := Some s\<rparr>))))"

definition tp_next :: "'f reader \<Rightarrow> ('f, 'p) term_positions \<Rightarrow> (bool \<times> ('f, 'p) term_positions) result" where
  "tp_next rbF t =
     bind_r (returns (td_next_loop rbF (tp_lazySkipProxCount t + tp_proxCount t) (tp_docs t))) (\<lambda>(found, skipped, docs).
       let t = t\<lparr>tp_docs := docs, tp_lazySkipProxCount := skipped\<rparr>
       in Inr (found, if found then t\<lparr>tp_proxCount := td_freq docs, tp_position := 0\<rparr> else t))"

definition tp_isPayloadAvailable :: "('f, 'p) term_positions \<Rightarrow> bool" where
  "tp_isPayloadAvailable t \<longleftrightarrow> tp_needToLoadPayload t \<and> 0 < sint (tp_payloadLength t)"

text \<open>\<^verbatim>\<open>getPayload\<close>: the array with the payload, the given one if it is large enough. A null stream
  cannot be there once a payload is due.\<close>

definition tp_getPayload ::
  "(nat \<Rightarrow> 'p \<Rightarrow> (byte list \<times> 'p) result) \<Rightarrow> byte list option \<Rightarrow> nat \<Rightarrow> ('f, 'p) term_positions \<Rightarrow> (byte list \<times> ('f, 'p) term_positions) result" where
  "tp_getPayload rbsP data offset t =
     (if \<not> tp_needToLoadPayload t then Inl IOException
      else if sint (tp_payloadLength t) < 0 then Inl OutOfRange
      else
        let n = unat (tp_payloadLength t);
            (array, pos) = (case data of
                None \<Rightarrow> (replicate n 0, 0)
              | Some d \<Rightarrow> if int (length d) - int offset < int n then (replicate n 0, 0) else (d, offset))
        in case tp_proxStream t of None \<Rightarrow> Inl OutOfRange
           | Some s \<Rightarrow> bind_r (rbsP n s) (\<lambda>(bytes, s).
               Inr (arrayCopy bytes 0 array pos n, t\<lparr>tp_needToLoadPayload := False, tp_proxStream := Some s\<rparr>)))"

subsection \<open>Reading the documents\<close>

definition deleted_docs :: "bit_vector option \<Rightarrow> nat set" where
  "deleted_docs dv = (case dv of None \<Rightarrow> {} | Some v \<Rightarrow> bv_docs (bv_bits v))"

definition deleted_ok :: "bit_vector option \<Rightarrow> posting list \<Rightarrow> bool" where
  "deleted_ok dv ps \<longleftrightarrow> (case dv of None \<Rightarrow> True | Some v \<Rightarrow> bv_ok v \<and> (\<forall>(d, _)\<in>set ps. int d < bv_size v))"

definition docs_from :: "nat \<Rightarrow> posting list \<Rightarrow> bool" where
  "docs_from prev ps \<longleftrightarrow> sorted_wrt (<) (map fst ps) \<and> (\<forall>(d, pos)\<in>set ps. prev \<le> d \<and> d < 2 ^ 31 \<and> length pos < 2 ^ 31)"

lemma docs_from_Cons: "docs_from prev ((d, pos) # ps) \<Longrightarrow> prev \<le> d \<and> d < 2 ^ 31 \<and> length pos < 2 ^ 31 \<and> docs_from d ps"
  by (auto simp: docs_from_def)

definition freq_of :: "bool \<Rightarrow> posting \<Rightarrow> nat" where
  "freq_of omit x = (if omit then 1 else length (snd x))"

text \<open>The deleted documents in front, and what comes behind them.\<close>

definition dead :: "bit_vector option \<Rightarrow> posting list \<Rightarrow> posting list" where
  "dead dv ps = takeWhile (\<lambda>(d, _). d \<in> deleted_docs dv) ps"

definition alive :: "bit_vector option \<Rightarrow> posting list \<Rightarrow> posting list" where
  "alive dv ps = dropWhile (\<lambda>(d, _). d \<in> deleted_docs dv) ps"

locale postings_in = F: in_stream rbF rbsF skF tlF atF + P: in_stream rbP rbsP skP tlP atP
  for rbF :: "'f reader" and rbsF skF tlF atF and rbP :: "'p reader" and rbsP skP tlP atP
begin

definition td_at :: "byte list \<Rightarrow> bool \<Rightarrow> nat \<Rightarrow> posting list \<Rightarrow> 'f term_docs \<Rightarrow> bool" where
  "td_at D omit prev rest t \<longleftrightarrow> (\<exists>q r. atF D q (td_freqStream t) \<and> q \<le> length D \<and> drop q D = docs_wire omit prev rest @ r) \<and>
     td_doc t = of_nat prev \<and> td_omit t = omit \<and> td_df t = td_count t + int (length rest)"

lemma reads_at:
  assumes "F.reads f bs v" "atF D q s" "q \<le> length D" "drop q D = bs @ r"
  shows "\<exists>s'. f s = Inr (v, s') \<and> atF D (q + length bs) s' \<and> q + length bs \<le> length D \<and> drop (q + length bs) D = r"
proof -
  have "length D - q = length bs + length r" using assms(4) by (metis length_append length_drop)
  then have "q + length bs \<le> length D" using assms(3) by linarith
  moreover have "drop (q + length bs) D = r" using arg_cong [OF assms(4), of "drop (length bs)"] by (simp add: add.commute)
  ultimately show ?thesis using F.readsD [OF assms] by blast
qed

lemma readDoc_ok:
  assumes t: "td_at D omit prev ((d, pos) # rest) t" and d: "docs_from prev ((d, pos) # rest)"
  shows "\<exists>t'. td_readDoc rbF t = Inr t' \<and> td_at D omit d rest t' \<and> td_freq t' = of_nat (freq_of omit (d, pos)) \<and>
    td_count t' = td_count t + 1 \<and> td_df t' = td_df t \<and> td_deletedDocs t' = td_deletedDocs t \<and> td_payloads t' = td_payloads t"
proof -
  obtain q r where q: "atF D q (td_freqStream t)" "q \<le> length D" "drop q D = doc_wire omit prev (d, pos) @ docs_wire omit d rest @ r"
    using t by (auto simp: td_at_def)
  have o: "td_omit t = omit" and doc: "td_doc t = of_nat prev" using t by (simp_all add: td_at_def)
  note ok = docs_from_Cons [OF d]
  have sum: "of_nat prev + of_nat (d - prev) = (of_nat d :: int32)" using ok by (metis le_add_diff_inverse of_nat_add)
  have l: "d - prev < 2 ^ 31" using ok by linarith
  note c = code_parts [OF l]
  let ?parse = "\<lambda>docCode s. if omit then Inr (td_doc t + docCode, 1, s)
             else let doc = td_doc t + unsignedShift32 docCode 1 in
               if docCode AND 1 \<noteq> 0 then Inr (doc, 1, s) else bind_r (readVInt rbF s) (\<lambda>(freq, s). Inr (doc, freq, s))"
  have "F.reads (\<lambda>s. bind_r (readVInt rbF s) (\<lambda>(docCode, s). bind_r (?parse docCode s) (\<lambda>(doc, freq, s). Inr ((doc, freq), s))))
      (doc_wire omit prev (d, pos)) (of_nat d, of_nat (freq_of omit (d, pos)))"
  proof -
    consider "omit" | "\<not> omit" "length pos = 1" | "\<not> omit" "length pos \<noteq> 1" by blast
    then show ?thesis
    proof cases
      case 1
      have u: "unat (of_nat (d - prev) :: int32) = d - prev" using l by (intro unat_of_nat_below) simp
      show ?thesis
        using F.reads_bind [OF F.reads_vint, of "\<lambda>docCode s. bind_r (?parse docCode s) (\<lambda>(doc, freq, s). Inr ((doc, freq), s))" "of_nat (d - prev)" "[]" "(of_nat d, 1)"]
          1 u sum doc F.reads_return [of "(of_nat d :: int32, 1 :: int32)"] by (simp add: doc_wire_def freq_of_def)
    next
      case 2
      have "F.reads (\<lambda>s. bind_r (?parse (of_nat (2 * (d - prev) + 1)) s) (\<lambda>(doc, freq, s). Inr ((doc, freq), s))) [] (of_nat d, 1)"
        using 2 c(2,4) sum doc F.reads_return [of "(of_nat d :: int32, 1 :: int32)"] by (simp add: Let_def del: of_nat_add of_nat_mult of_nat_Suc)
      from F.reads_bind [where g = "\<lambda>docCode s. bind_r (?parse docCode s) (\<lambda>(doc, freq, s). Inr ((doc, freq), s))", OF F.reads_vint this]
      moreover have "of_nat (freq_of omit (d, pos)) = (1 :: int32)" using 2 by (simp add: freq_of_def)
      ultimately show ?thesis using 2 c(6) by (simp add: doc_wire_def del: of_nat_add of_nat_mult of_nat_Suc)
    next
      case 3
      have n: "unat (of_nat (length pos) :: int32) = length pos" using ok by (intro unat_of_nat_below) simp
      have "F.reads (\<lambda>s. bind_r (readVInt rbF s) (\<lambda>(freq, s). Inr ((of_nat d :: int32, freq), s))) (nat_wire (length pos) @ []) (of_nat d, of_nat (length pos))"
        using F.reads_bind [OF F.reads_vint F.reads_return, of "\<lambda>freq. (of_nat d :: int32, freq)" "of_nat (length pos)"] n by simp
      then have "F.reads (\<lambda>s. bind_r (?parse (of_nat (2 * (d - prev))) s) (\<lambda>(doc, freq, s). Inr ((doc, freq), s))) (nat_wire (length pos)) (of_nat d, of_nat (length pos))"
        using 3 c(1,3) sum doc by (simp add: Let_def bind_r_assoc split_def del: of_nat_mult)
      from F.reads_bind [where g = "\<lambda>docCode s. bind_r (?parse docCode s) (\<lambda>(doc, freq, s). Inr ((doc, freq), s))", OF F.reads_vint this]
      show ?thesis using 3 c(5) by (simp add: doc_wire_def freq_of_def del: of_nat_mult)
    qed
  qed
  from reads_at [OF this q] obtain s' where s': "bind_r (readVInt rbF (td_freqStream t)) (\<lambda>(docCode, s). bind_r (?parse docCode s) (\<lambda>(doc, freq, s). Inr ((doc, freq), s))) =
      Inr ((of_nat d, of_nat (freq_of omit (d, pos))), s')" "atF D (q + length (doc_wire omit prev (d, pos))) s'"
    "q + length (doc_wire omit prev (d, pos)) \<le> length D" "drop (q + length (doc_wire omit prev (d, pos))) D = docs_wire omit d rest @ r" by blast
  let ?t = "t\<lparr>td_doc := of_nat d, td_freq := of_nat (freq_of omit (d, pos)), td_count := td_count t + 1, td_freqStream := s'\<rparr>"
  have "td_readDoc rbF t = Inr ?t"
    using s'(1) o unfolding td_readDoc_def by (auto simp: bind_r_Inr_iff split_def split: if_splits)
  moreover have "td_at D omit d rest ?t" using t s'(2-4) o by (auto simp: td_at_def)
  ultimately show ?thesis by (intro exI [of _ ?t]) simp
qed

lemma deleted_step:
  assumes "td_doc t = of_nat d" "d < 2 ^ 31" "deleted_ok (td_deletedDocs t) ((d, pos) # ps)"
  shows "td_deleted t = Inr (d \<in> deleted_docs (td_deletedDocs t))"
proof -
  have "sint (of_nat d :: int32) = int d" using assms(2) by (simp add: signed_of_nat signed_take_bit_int_eq_self)
  then show ?thesis using assms bv_get_step [of _ "int d"]
    by (auto simp: td_deleted_def deleted_docs_def deleted_ok_def split: option.splits)
qed

lemma next_loop_ok:
  "td_at D omit prev rest t \<Longrightarrow> docs_from prev rest \<Longrightarrow> deleted_ok dv rest \<Longrightarrow> td_deletedDocs t = dv \<Longrightarrow>
   \<exists>t' p. td_next_loop rbF n t = Some (Inr (alive dv rest \<noteq> [], n + of_nat (sum_list (map (freq_of omit) (dead dv rest))), t')) \<and>
    (alive dv rest \<noteq> [] \<longrightarrow> p = fst (hd (alive dv rest)) \<and> td_freq t' = of_nat (freq_of omit (hd (alive dv rest)))) \<and>
    td_at D omit p (tl (alive dv rest)) t' \<and> docs_from p (tl (alive dv rest)) \<and> td_deletedDocs t' = dv \<and> td_payloads t' = td_payloads t"
proof (induction rest arbitrary: prev t n)
  case Nil
  then have "td_count t = td_df t" by (simp add: td_at_def)
  then show ?case using Nil by (intro exI [of _ t] exI [of _ prev]) (simp add: td_next_loop.simps alive_def dead_def)
next
  case (Cons x rest)
  obtain d pos where x: "x = (d, pos)" by (cases x)
  have ne: "td_count t \<noteq> td_df t" using Cons.prems(1) by (simp add: td_at_def)
  from readDoc_ok [OF Cons.prems(1,2) [unfolded x]] obtain u where u: "td_readDoc rbF t = Inr u" "td_at D omit d rest u"
    "td_freq u = of_nat (freq_of omit (d, pos))" "td_deletedDocs u = dv" "td_payloads u = td_payloads t" using Cons.prems(4) by blast
  note ok = docs_from_Cons [OF Cons.prems(2) [unfolded x]]
  have "td_doc u = of_nat d" using u(2) by (simp add: td_at_def)
  from deleted_step [OF this] have del: "td_deleted u = Inr (d \<in> deleted_docs dv)"
    using ok Cons.prems(3) x u(4) by metis
  show ?case
  proof (cases "d \<in> deleted_docs dv")
    case False
    then have "alive dv (x # rest) = (d, pos) # rest" "dead dv (x # rest) = []" by (simp_all add: alive_def dead_def x)
    then show ?thesis using False ne u del ok by (subst td_next_loop.simps) (auto intro!: exI [of _ u] exI [of _ d])
  next
    case True
    then have a: "alive dv (x # rest) = alive dv rest" "dead dv (x # rest) = (d, pos) # dead dv rest" by (simp_all add: alive_def dead_def x)
    have d: "docs_from d rest" "deleted_ok dv rest" using ok Cons.prems(3) by (auto simp: deleted_ok_def split: option.splits)
    have "td_next_loop rbF n t = td_next_loop rbF (n + td_freq u) u" using True ne u(1) del by (subst td_next_loop.simps) simp
    then show ?thesis using Cons.IH [OF u(2) d u(4), of "n + td_freq u"] unfolding a u(3,5) by (simp add: add.assoc)
  qed
qed

end

subsection \<open>Reading the positions\<close>

text \<open>Entries whose payload has the length that is written or, if none is, the last one, \<open>l\<close>.\<close>

fun entries_ok :: "bool \<Rightarrow> nat \<Rightarrow> entry list \<Rightarrow> bool" where
  "entries_ok payloads l [] \<longleftrightarrow> True"
| "entries_ok payloads l ((d, len, pl) # es) \<longleftrightarrow> d < 2 ^ 31 \<and> length pl < 2 ^ 31 \<and>
     (if payloads then length pl = (case len of None \<Rightarrow> l | Some n \<Rightarrow> n) \<and> entries_ok payloads (length pl) es
      else pl = [] \<and> entries_ok payloads l es)"

lemma entries_ok_entries:
  "positions_ok fi pos \<Longrightarrow> m = -1 \<or> m = int l \<Longrightarrow> (\<And>l. entries_ok (fi_storePayloads fi) l rest) \<Longrightarrow>
   entries_ok (fi_storePayloads fi) l (entries (fi_storePayloads fi) p m pos @ rest)"
proof (induction pos arbitrary: p m l)
  case (Cons x pos)
  obtain q pl where x: "x = (q, pl)" by (cases x)
  note c = positions_ok_Cons [OF Cons.prems(1) [unfolded x]]
  have "q - p < 2 ^ 31" using c by linarith
  moreover have "entries_ok (fi_storePayloads fi) (if fi_storePayloads fi then length pl else l)
      (entries (fi_storePayloads fi) q (if fi_storePayloads fi then int (length pl) else m) pos @ rest)"
    using c Cons.prems(2,3) by (intro Cons.IH) auto
  ultimately show ?case using c Cons.prems(2) by (auto simp: x)
qed simp

lemma term_entries_ok: "\<forall>(d, pos)\<in>set ps. positions_ok fi pos \<Longrightarrow> entries_ok (fi_storePayloads fi) l (term_entries (fi_storePayloads fi) ps)"
  by (induction ps arbitrary: l) (auto simp: term_entries_def intro!: entries_ok_entries)

lemma length_entries [simp]: "length (entries payloads p l pos) = length pos"
  by (induction payloads p l pos rule: entries.induct) auto

lemma length_term_entries: "length (term_entries payloads ps) = sum_list (map (freq_of False) ps)"
  by (induction ps) (auto simp: term_entries_def freq_of_def)

lemma term_entries_split: "term_entries payloads (dead dv ps) @ term_entries payloads (alive dv ps) = term_entries payloads ps"
  unfolding term_entries_def dead_def alive_def map_append [symmetric] concat_append [symmetric] takeWhile_dropWhile_id ..

context postings_in begin

lemma reads_atP:
  assumes "P.reads f bs v" "atP D q s" "q \<le> length D" "drop q D = bs @ r"
  shows "\<exists>s'. f s = Inr (v, s') \<and> atP D (q + length bs) s' \<and> q + length bs \<le> length D \<and> drop (q + length bs) D = r"
proof -
  have "length D - q = length bs + length r" using assms(4) by (metis length_append length_drop)
  then have "q + length bs \<le> length D" using assms(3) by linarith
  moreover have "drop (q + length bs) D = r" using arg_cong [OF assms(4), of "drop (length bs)"] by (simp add: add.commute)
  ultimately show ?thesis using P.readsD [OF assms] by blast
qed

lemma readDelta_ok:
  assumes s: "atP D q s" "q \<le> length D" "drop q D = entry_wire payloads (d, len, pl) @ r"
    and e: "entries_ok payloads (unat (tp_payloadLength t)) ((d, len, pl) # es)" "td_payloads (tp_docs t) = payloads"
  shows "\<exists>t' s'. tp_readDeltaPosition rbP t s = Inr (of_nat d, t', s') \<and> atP D (q + length (entry_head payloads (d, len, pl))) s' \<and>
    q + length (entry_head payloads (d, len, pl)) \<le> length D \<and> drop (q + length (entry_head payloads (d, len, pl))) D = pl @ r \<and>
    t' = (if payloads then t\<lparr>tp_payloadLength := of_nat (length pl), tp_needToLoadPayload := True\<rparr> else t)"
proof -
  have ok: "d < 2 ^ 31" "length pl < 2 ^ 31" using e by (auto split: if_splits)
  note c = code_parts [OF ok(1)]
  have h: "drop q D = entry_head payloads (d, len, pl) @ pl @ r" using s(3) by (simp add: entry_wire_def)
  let ?tail = "\<lambda>delta s. if payloads then
         bind_r (if delta AND 1 \<noteq> 0 then readVInt rbP s else Inr (tp_payloadLength t, s)) (\<lambda>(payloadLength, s).
           Inr ((unsignedShift32 delta 1, payloadLength), s))
       else Inr ((delta, tp_payloadLength t), s)"
  let ?len = "if payloads then of_nat (length pl) else tp_payloadLength t"
  have "P.reads (\<lambda>s. bind_r (readVInt rbP s) (\<lambda>(delta, s). ?tail delta s)) (entry_head payloads (d, len, pl)) (of_nat d, ?len)"
  proof (cases payloads)
    case False
    have u: "unat (of_nat d :: int32) = d" using ok(1) by (intro unat_of_nat_below) simp
    have "P.reads (\<lambda>s. ?tail (of_nat d) s) [] (of_nat d, tp_payloadLength t)" using False P.reads_return by simp
    from P.reads_bind [where g = ?tail, OF P.reads_vint this] show ?thesis using False u by (simp add: entry_head_def)
  next
    case True
    show ?thesis
    proof (cases len)
      case None
      then have "tp_payloadLength t = of_nat (length pl)" using e(1) True by simp
      then have "P.reads (\<lambda>s. ?tail (of_nat (2 * d)) s) [] (of_nat d, of_nat (length pl))"
        using True c(1,3) P.reads_return [of "(of_nat d :: int32, of_nat (length pl) :: int32)"] by (simp del: of_nat_mult)
      from P.reads_bind [where g = ?tail, OF P.reads_vint this] show ?thesis
        unfolding c(5) using True None by (simp only: entry_head_def append_Nil2 prod.case option.case if_True)
    next
      case (Some n)
      then have n: "n = length pl" using e(1) True by simp
      have u: "unat (of_nat (length pl) :: int32) = length pl" using ok(2) by (intro unat_of_nat_below) simp
      have "P.reads (\<lambda>s. bind_r (readVInt rbP s) (\<lambda>(payloadLength, s). Inr ((of_nat d :: int32, payloadLength), s))) (nat_wire (length pl) @ []) (of_nat d, of_nat (length pl))"
        using P.reads_bind [OF P.reads_vint P.reads_return, of "\<lambda>x. (of_nat d :: int32, x)" "of_nat (length pl)"] u by simp
      then have "P.reads (\<lambda>s. ?tail (of_nat (2 * d + 1)) s) (nat_wire (length pl)) (of_nat d, of_nat (length pl))"
        using True c(2,4) by (simp del: of_nat_mult of_nat_add of_nat_Suc)
      from P.reads_bind [where g = ?tail, OF P.reads_vint this] show ?thesis
        unfolding c(6) using True Some n by (simp only: entry_head_def prod.case option.case if_True)
    qed
  qed
  from reads_atP [OF this s(1,2) h] obtain s' where s': "bind_r (readVInt rbP s) (\<lambda>(delta, s). ?tail delta s) = Inr ((of_nat d, ?len), s')"
    "atP D (q + length (entry_head payloads (d, len, pl))) s'" "q + length (entry_head payloads (d, len, pl)) \<le> length D"
    "drop (q + length (entry_head payloads (d, len, pl))) D = pl @ r" by blast
  moreover have "tp_readDeltaPosition rbP t s = bind_r (bind_r (readVInt rbP s) (\<lambda>(delta, s). ?tail delta s))
      (\<lambda>((x, l), s). Inr (x, if payloads then t\<lparr>tp_payloadLength := l, tp_needToLoadPayload := True\<rparr> else t, s))"
    by (cases payloads) (simp_all add: tp_readDeltaPosition_def bind_r_assoc split_def e(2))
  ultimately show ?thesis by (cases payloads) simp_all
qed

lemma skipPayload_ok:
  assumes "atP D p s" "p + (if tp_needToLoadPayload t then unat (tp_payloadLength t) else 0) \<le> length D" "unat (tp_payloadLength t) < 2 ^ 31"
  shows "\<exists>s'. tp_skipPayload skP tlP t s = Inr (t\<lparr>tp_needToLoadPayload := False\<rparr>, s') \<and>
    atP D (p + (if tp_needToLoadPayload t then unat (tp_payloadLength t) else 0)) s'"
proof -
  have "sint (tp_payloadLength t) = int (unat (tp_payloadLength t))" using assms(3) by (rule sint_unat_small)
  then have pos: "0 < sint (tp_payloadLength t) \<longleftrightarrow> 0 < unat (tp_payloadLength t)" by (simp only: of_nat_0_less_iff)
  show ?thesis
  proof (cases "tp_needToLoadPayload t \<and> 0 < unat (tp_payloadLength t)")
    case True
    then have "p + unat (tp_payloadLength t) \<le> length D" "p < length D" using assms(2) by simp_all
    then show ?thesis using True pos P.at_seek [OF assms(1)] P.at_tell [OF assms(1)] by (fastforce simp: tp_skipPayload_def)
  next
    case False
    then have "(if tp_needToLoadPayload t then unat (tp_payloadLength t) else 0) = 0" by auto
    then show ?thesis using False pos assms(1) by (auto simp: tp_skipPayload_def)
  qed
qed

lemma entries_wire_Cons: "entries_wire payloads (e # es) = entry_wire payloads e @ entries_wire payloads es"
  by (simp add: entries_wire_def)

lemma skipPositions_ok:
  "atP D q s \<Longrightarrow> q \<le> length D \<Longrightarrow> drop q D = entries_wire payloads (xs @ es) @ r \<Longrightarrow> entries_ok payloads (unat (tp_payloadLength t)) (xs @ es) \<Longrightarrow>
   td_payloads (tp_docs t) = payloads \<Longrightarrow> \<not> tp_needToLoadPayload t \<Longrightarrow> unat (tp_payloadLength t) < 2 ^ 31 \<Longrightarrow>
   \<exists>l s'. tp_skipPositions rbP skP tlP (length xs) t s = Inr (t\<lparr>tp_payloadLength := l\<rparr>, s') \<and> atP D (q + length (entries_wire payloads xs)) s' \<and>
     q + length (entries_wire payloads xs) \<le> length D \<and> drop (q + length (entries_wire payloads xs)) D = entries_wire payloads es @ r \<and>
     entries_ok payloads (unat l) es \<and> unat l < 2 ^ 31"
proof (induction xs arbitrary: q s t)
  case Nil
  then show ?case by (intro exI [of _ "tp_payloadLength t"] exI [of _ s]) (simp add: entries_wire_def)
next
  case (Cons x xs)
  obtain d len pl where x: "x = (d, len, pl)" by (cases x)
  have dr: "drop q D = entry_wire payloads (d, len, pl) @ entries_wire payloads (xs @ es) @ r" using Cons.prems(3) by (simp add: x entries_wire_Cons)
  have ok: "entries_ok payloads (unat (tp_payloadLength t)) ((d, len, pl) # xs @ es)" using Cons.prems(4) unfolding x append_Cons .
  let ?t = "if payloads then t\<lparr>tp_payloadLength := of_nat (length pl), tp_needToLoadPayload := True\<rparr> else t"
  let ?q = "q + length (entry_head payloads (d, len, pl))"
  from readDelta_ok [OF Cons.prems(1,2) dr ok Cons.prems(5)] obtain s1 where s1: "tp_readDeltaPosition rbP t s = Inr (of_nat d, ?t, s1)"
    "atP D ?q s1" "?q \<le> length D" "drop ?q D = pl @ entries_wire payloads (xs @ es) @ r" by blast
  have pl: "length pl < 2 ^ 31" "\<not> payloads \<Longrightarrow> pl = []" using ok by (auto split: if_splits)
  have lp: "unat (of_nat (length pl) :: int32) = length pl" using pl(1) by (intro unat_of_nat_below) simp
  have le: "?q + length pl \<le> length D"
  proof -
    have "length D - ?q = length pl + length (entries_wire payloads (xs @ es) @ r)" using s1(4) by (metis length_append length_drop)
    then show ?thesis using s1(3) by linarith
  qed
  have plen: "(if tp_needToLoadPayload ?t then unat (tp_payloadLength ?t) else 0) = length pl" using lp pl(2) Cons.prems(6) by auto
  have small: "unat (tp_payloadLength ?t) < 2 ^ 31" using lp pl(1) Cons.prems(7) by auto
  from skipPayload_ok [OF s1(2) _ small] obtain s2 where s2: "tp_skipPayload skP tlP ?t s1 = Inr (?t\<lparr>tp_needToLoadPayload := False\<rparr>, s2)"
    "atP D (?q + length pl) s2" using le unfolding plen by blast
  have w: "q + length (entry_wire payloads (d, len, pl)) = ?q + length pl" by (simp add: entry_wire_def)
  have dr2: "drop (?q + length pl) D = entries_wire payloads (xs @ es) @ r" using arg_cong [OF s1(4), of "drop (length pl)"] by (simp add: add.commute)
  let ?u = "?t\<lparr>tp_needToLoadPayload := False\<rparr>"
  have ok2: "entries_ok payloads (unat (tp_payloadLength ?u)) (xs @ es)" using ok lp by (auto split: if_splits)
  have u: "td_payloads (tp_docs ?u) = payloads" "\<not> tp_needToLoadPayload ?u" "unat (tp_payloadLength ?u) < 2 ^ 31" using Cons.prems(5) small by auto
  from Cons.IH [OF s2(2) le dr2 ok2 u] obtain l s' where "tp_skipPositions rbP skP tlP (length xs) ?u s2 = Inr (?u\<lparr>tp_payloadLength := l\<rparr>, s')"
    "atP D (?q + length pl + length (entries_wire payloads xs)) s'" "?q + length pl + length (entries_wire payloads xs) \<le> length D"
    "drop (?q + length pl + length (entries_wire payloads xs)) D = entries_wire payloads es @ r" "entries_ok payloads (unat l) es" "unat l < 2 ^ 31"
    by blast
  moreover have "?u\<lparr>tp_payloadLength := l\<rparr> = t\<lparr>tp_payloadLength := l\<rparr>" for l using Cons.prems(6) by (cases t) auto
  ultimately show ?case using s1(1) s2(1) w by (intro exI [of _ l] exI [of _ s']) (simp add: entries_wire_Cons x add.assoc)
qed

text \<open>Where the next entry begins: at a pointer still to be sought, or behind the payload that the
  stream may still have in front of it.\<close>

definition tp_loc :: "byte list \<Rightarrow> byte list option \<Rightarrow> ('f, 'p) term_positions \<Rightarrow> nat \<Rightarrow> bool" where
  "tp_loc D pay t q \<longleftrightarrow> q \<le> length D \<and> unat (tp_payloadLength t) < 2 ^ 31 \<and> (tp_needToLoadPayload t \<longleftrightarrow> pay \<noteq> None) \<and>
     (tp_lazySkipPointer t = int q \<and> pay = None \<and> (\<forall>s. tp_proxStream t = Some s \<longrightarrow> (\<exists>p\<le>length D. atP D p s)) \<or>
      tp_lazySkipPointer t = -1 \<and> (\<exists>s p. tp_proxStream t = Some s \<and> atP D p s \<and> p \<le> length D \<and>
        (case pay of None \<Rightarrow> p = q | Some pl \<Rightarrow> q = p + length pl \<and> unat (tp_payloadLength t) = length pl \<and> take (length pl) (drop p D) = pl)))"

lemma lazySkip_ok:
  assumes loc: "tp_loc D pay t q" and clone: "atP D p0 clone" "p0 \<le> length D"
    and es: "drop q D = entries_wire payloads (xs @ es) @ r" "entries_ok payloads (unat (tp_payloadLength t)) (xs @ es)" "td_payloads (tp_docs t) = payloads"
    and k: "length xs = unat (tp_lazySkipProxCount t)" "length xs < 2 ^ 31"
  shows "\<exists>l s'. tp_lazySkip rbP skP tlP clone t =
      Inr (t\<lparr>tp_payloadLength := l, tp_needToLoadPayload := False, tp_lazySkipPointer := -1, tp_lazySkipProxCount := 0\<rparr>, s') \<and>
    atP D (q + length (entries_wire payloads xs)) s' \<and> q + length (entries_wire payloads xs) \<le> length D \<and>
    drop (q + length (entries_wire payloads xs)) D = entries_wire payloads es @ r \<and> entries_ok payloads (unat l) es \<and> unat l < 2 ^ 31"
proof -
  define s0 where "s0 = (case tp_proxStream t of None \<Rightarrow> clone | Some s \<Rightarrow> s)"
  let ?t = "t\<lparr>tp_needToLoadPayload := False\<rparr>"
  have q: "q \<le> length D" "unat (tp_payloadLength t) < 2 ^ 31" using loc by (simp_all add: tp_loc_def)
  have "\<exists>s1 s2. tp_skipPayload skP tlP t s0 = Inr (?t, s1) \<and> (if tp_lazySkipPointer t \<noteq> -1 then skP (nat (tp_lazySkipPointer t)) s1 else Inr s1) = Inr s2 \<and> atP D q s2"
  proof (cases "tp_lazySkipPointer t = -1")
    case False
    then have l: "tp_lazySkipPointer t = int q" "\<not> tp_needToLoadPayload t" using loc by (auto simp: tp_loc_def)
    obtain p where p: "atP D p s0" "p \<le> length D"
    proof (cases "tp_proxStream t")
      case None
      then show ?thesis using that [of p0] clone by (simp add: s0_def)
    next
      case (Some s)
      then have "\<exists>p\<le>length D. atP D p s" using loc False by (simp add: tp_loc_def)
      then show ?thesis using that Some by (auto simp: s0_def)
    qed
    obtain s1 where s1: "tp_skipPayload skP tlP t s0 = Inr (?t, s1)" "atP D p s1" using skipPayload_ok [OF p(1) _ q(2)] l(2) p(2) by auto
    obtain s2 where "skP q s1 = Inr s2" "atP D q s2" using P.at_seek [OF s1(2) q(1)] by blast
    then show ?thesis using s1(1) l(1) by (intro exI [of _ s1] exI [of _ s2]) simp
  next
    case True
    then obtain s p where s: "tp_proxStream t = Some s" "atP D p s" "p \<le> length D"
      "case pay of None \<Rightarrow> p = q | Some pl \<Rightarrow> q = p + length pl \<and> unat (tp_payloadLength t) = length pl" "tp_needToLoadPayload t \<longleftrightarrow> pay \<noteq> None"
      using loc by (auto simp: tp_loc_def split: option.splits)
    then have "p + (if tp_needToLoadPayload t then unat (tp_payloadLength t) else 0) = q" by (auto split: option.splits)
    with skipPayload_ok [OF s(2) _ q(2)] q(1) obtain s1 where "tp_skipPayload skP tlP t s = Inr (?t, s1)" "atP D q s1" by auto
    moreover have "s0 = s" using s(1) by (simp add: s0_def)
    ultimately show ?thesis using True by (intro exI [of _ s1]) simp
  qed
  then obtain s1 s2 where s: "tp_skipPayload skP tlP t s0 = Inr (?t, s1)" "(if tp_lazySkipPointer t \<noteq> -1 then skP (nat (tp_lazySkipPointer t)) s1 else Inr s1) = Inr s2"
    "atP D q s2" by blast
  let ?u = "?t\<lparr>tp_lazySkipPointer := -1\<rparr>"
  have "td_payloads (tp_docs ?u) = payloads" "\<not> tp_needToLoadPayload ?u" "unat (tp_payloadLength ?u) < 2 ^ 31" "entries_ok payloads (unat (tp_payloadLength ?u)) (xs @ es)"
    using es(2,3) q(2) by simp_all
  from skipPositions_ok [OF s(3) q(1) es(1) this(4,1-3)] obtain l s' where s': "tp_skipPositions rbP skP tlP (length xs) ?u s2 = Inr (?u\<lparr>tp_payloadLength := l\<rparr>, s')"
    "atP D (q + length (entries_wire payloads xs)) s'" "q + length (entries_wire payloads xs) \<le> length D"
    "drop (q + length (entries_wire payloads xs)) D = entries_wire payloads es @ r" "entries_ok payloads (unat l) es" "unat l < 2 ^ 31" by blast
  have k': "nat (sint (tp_lazySkipProxCount t)) = length xs" using sint_unat_small [of "tp_lazySkipProxCount t"] k by simp
  have lp: "tp_lazySkipPointer ?t = tp_lazySkipPointer t" "tp_lazySkipProxCount ?u = tp_lazySkipProxCount t" by simp_all
  show ?thesis
  proof (cases "tp_lazySkipProxCount t = 0")
    case True
    then have xs: "xs = []" using k(1) by simp
    have z: "tp_lazySkip rbP skP tlP clone t = Inr (?u, s2)"
      using True unfolding tp_lazySkip_def s0_def [symmetric] s(1) bind_r_simps prod.case lp s(2) Let_def by simp
    have u: "?u = t\<lparr>tp_payloadLength := tp_payloadLength t, tp_needToLoadPayload := False, tp_lazySkipPointer := -1, tp_lazySkipProxCount := 0\<rparr>"
      using True by (cases t) simp
    have "length (entries_wire payloads xs) = 0" by (simp add: xs entries_wire_def)
    then have "atP D (q + length (entries_wire payloads xs)) s2 \<and> q + length (entries_wire payloads xs) \<le> length D \<and>
        drop (q + length (entries_wire payloads xs)) D = entries_wire payloads es @ r \<and> entries_ok payloads (unat (tp_payloadLength t)) es \<and>
        unat (tp_payloadLength t) < 2 ^ 31" using s(3) q es(1,2) xs by simp
    with z [unfolded u] show ?thesis by blast
  next
    case False
    have z: "tp_lazySkip rbP skP tlP clone t = Inr (?u\<lparr>tp_payloadLength := l, tp_lazySkipProxCount := 0\<rparr>, s')"
      using False s'(1) k' unfolding tp_lazySkip_def s0_def [symmetric] s(1) bind_r_simps prod.case lp s(2) Let_def by simp
    have u: "?u\<lparr>tp_payloadLength := l, tp_lazySkipProxCount := 0\<rparr> =
        t\<lparr>tp_payloadLength := l, tp_needToLoadPayload := False, tp_lazySkipPointer := -1, tp_lazySkipProxCount := 0\<rparr>" by simp
    show ?thesis using z [unfolded u] s'(2-6) by blast
  qed
qed

end

subsection \<open>Scripts of a cursor\<close>

datatype cursor_op = NextDoc | NextPosition | LoadPayload

datatype cursor_out = ODoc nat nat | OEnd | OPosition nat bool | OPayload "byte list"

definition tp_step ::
  "'f reader \<Rightarrow> 'p reader \<Rightarrow> (nat \<Rightarrow> 'p \<Rightarrow> (byte list \<times> 'p) result) \<Rightarrow> (nat \<Rightarrow> 'p \<Rightarrow> 'p result) \<Rightarrow> ('p \<Rightarrow> nat) \<Rightarrow> 'p \<Rightarrow> cursor_op \<Rightarrow>
   ('f, 'p) term_positions \<Rightarrow> (cursor_out \<times> ('f, 'p) term_positions) result" where
  "tp_step rbF rbP rbsP skP tellP clone op t =
     (case op of
        NextDoc \<Rightarrow> bind_r (tp_next rbF t) (\<lambda>(found, t).
          Inr (if found then ODoc (unat (td_doc (tp_docs t))) (unat (td_freq (tp_docs t))) else OEnd, t))
      | NextPosition \<Rightarrow> bind_r (tp_nextPosition rbP skP tellP clone t) (\<lambda>(p, t). Inr (OPosition (unat p) (tp_isPayloadAvailable t), t))
      | LoadPayload \<Rightarrow> bind_r (tp_getPayload rbsP None 0 t) (\<lambda>(payload, t). Inr (OPayload payload, t)))"

text \<open>The same script on the postings themselves: the documents still to come, the positions still
  to come in the present one and the payload that can be loaded. \<^verbatim>\<open>nextPosition\<close> may be called
  once for each position.\<close>

type_synonym cursor = "posting list \<times> (nat \<times> byte list) list \<times> byte list option"

definition ref_step :: "field_info \<Rightarrow> bit_vector option \<Rightarrow> cursor_op \<Rightarrow> cursor \<Rightarrow> (cursor_out \<times> cursor) result" where
  "ref_step fi dv op = (\<lambda>(rest, cur, pay).
     case op of
       NextDoc \<Rightarrow> (case alive dv rest of [] \<Rightarrow> Inr (OEnd, [], [], pay)
         | (d, pos) # ps \<Rightarrow> Inr (ODoc d (freq_of (fi_omitTermFreqAndPositions fi) (d, pos)), ps, if fi_omitTermFreqAndPositions fi then [] else pos, pay))
     | NextPosition \<Rightarrow> (case cur of [] \<Rightarrow> Inr (OPosition 0 False, rest, cur, pay)
         | (p, pl) # cur \<Rightarrow> Inr (OPosition p (fi_storePayloads fi \<and> pl \<noteq> []), rest, cur, if fi_storePayloads fi then Some pl else None))
     | LoadPayload \<Rightarrow> (case pay of None \<Rightarrow> Inl IOException | Some pl \<Rightarrow> Inr (OPayload pl, rest, cur, None)))"

definition ref_valid :: "field_info \<Rightarrow> cursor_op \<Rightarrow> cursor \<Rightarrow> bool" where
  "ref_valid fi op = (\<lambda>(rest, cur, pay). op = NextPosition \<and> \<not> fi_omitTermFreqAndPositions fi \<longrightarrow> cur \<noteq> [])"

text \<open>A script on a segment with some terms: \<open>SeekTerm i\<close> seeks the term with the number \<open>i\<close>, or a
  term the segment does not have. An exception ends the script.\<close>

datatype segment_op = SeekTerm nat | Op cursor_op

definition nth_term :: "'a list \<Rightarrow> nat \<Rightarrow> 'a option" where
  "nth_term xs i = (if i < length xs then Some (xs ! i) else None)"

fun tp_run ::
  "'f reader \<Rightarrow> (nat \<Rightarrow> 'f \<Rightarrow> 'f result) \<Rightarrow> 'p reader \<Rightarrow> (nat \<Rightarrow> 'p \<Rightarrow> (byte list \<times> 'p) result) \<Rightarrow> (nat \<Rightarrow> 'p \<Rightarrow> 'p result) \<Rightarrow> ('p \<Rightarrow> nat) \<Rightarrow>
   'p \<Rightarrow> (field_info \<times> term_info) list \<Rightarrow> segment_op list \<Rightarrow> ('f, 'p) term_positions \<Rightarrow> cursor_out result list" where
  "tp_run rbF skF rbP rbsP skP tellP clone tis [] t = []"
| "tp_run rbF skF rbP rbsP skP tellP clone tis (SeekTerm i # ops) t =
     (case tp_seek skF (map_option snd (nth_term tis i)) (map_option fst (nth_term tis i)) t of Inl e \<Rightarrow> [Inl e]
      | Inr t \<Rightarrow> tp_run rbF skF rbP rbsP skP tellP clone tis ops t)"
| "tp_run rbF skF rbP rbsP skP tellP clone tis (Op op # ops) t =
     (case tp_step rbF rbP rbsP skP tellP clone op t of Inl e \<Rightarrow> [Inl e]
      | Inr (out, t) \<Rightarrow> Inr out # tp_run rbF skF rbP rbsP skP tellP clone tis ops t)"

definition no_field :: field_info where
  "no_field = \<lparr>fi_omitTermFreqAndPositions = False, fi_storePayloads = False\<rparr>"

definition ref_seek :: "(field_info \<times> posting list) list \<Rightarrow> nat \<Rightarrow> field_info \<times> cursor" where
  "ref_seek terms i = (case nth_term terms i of None \<Rightarrow> (no_field, [], [], None) | Some (fi, ps) \<Rightarrow> (fi, ps, [], None))"

fun ref_run :: "(field_info \<times> posting list) list \<Rightarrow> bit_vector option \<Rightarrow> segment_op list \<Rightarrow> field_info \<times> cursor \<Rightarrow> cursor_out result list" where
  "ref_run terms dv [] c = []"
| "ref_run terms dv (SeekTerm i # ops) c = ref_run terms dv ops (ref_seek terms i)"
| "ref_run terms dv (Op op # ops) (fi, c) =
     (case ref_step fi dv op c of Inl e \<Rightarrow> [Inl e] | Inr (out, c) \<Rightarrow> Inr out # ref_run terms dv ops (fi, c))"

fun ref_ok :: "(field_info \<times> posting list) list \<Rightarrow> bit_vector option \<Rightarrow> segment_op list \<Rightarrow> field_info \<times> cursor \<Rightarrow> bool" where
  "ref_ok terms dv [] c \<longleftrightarrow> True"
| "ref_ok terms dv (SeekTerm i # ops) c \<longleftrightarrow> ref_ok terms dv ops (ref_seek terms i)"
| "ref_ok terms dv (Op op # ops) (fi, c) \<longleftrightarrow> ref_valid fi op c \<and>
     (case ref_step fi dv op c of Inl e \<Rightarrow> True | Inr (out, c) \<Rightarrow> ref_ok terms dv ops (fi, c))"

lemma set_tl_alive: "set (tl (alive dv ps)) \<subseteq> set ps"
proof -
  have "set (tl (alive dv ps)) \<subseteq> set (alive dv ps)" by (cases "alive dv ps") auto
  also have "\<dots> \<subseteq> set ps" unfolding alive_def by (meson set_dropWhileD subsetI)
  finally show ?thesis .
qed

lemma term_entries_alive:
  assumes "alive dv ps = (d, pos) # rest"
  shows "term_entries payloads ps = term_entries payloads (dead dv ps) @ entries payloads 0 (-1) pos @ term_entries payloads rest"
    "sum_list (map (freq_of False) ps) = sum_list (map (freq_of False) (dead dv ps)) + length pos + sum_list (map (freq_of False) rest)"
    "set ps = set (dead dv ps) \<union> {(d, pos)} \<union> set rest"
proof -
  have s: "ps = dead dv ps @ (d, pos) # rest" using assms unfolding dead_def alive_def by (metis takeWhile_dropWhile_id)
  show "term_entries payloads ps = term_entries payloads (dead dv ps) @ entries payloads 0 (-1) pos @ term_entries payloads rest"
    by (subst s) (simp add: term_entries_def)
  show "sum_list (map (freq_of False) ps) = sum_list (map (freq_of False) (dead dv ps)) + length pos + sum_list (map (freq_of False) rest)"
    by (subst s) (simp add: freq_of_def)
  show "set ps = set (dead dv ps) \<union> {(d, pos)} \<union> set rest" by (subst s) auto
qed

text \<open>What \<^verbatim>\<open>seek\<close> needs: an entry that points at the postings of the term.\<close>

definition term_at :: "byte list \<Rightarrow> byte list \<Rightarrow> field_info \<Rightarrow> posting list \<Rightarrow> term_info \<Rightarrow> bool" where
  "term_at DF DP fi ps ti \<longleftrightarrow> postings_ok fi ps \<and> ti_docFreq ti = int (length ps) \<and>
     (\<exists>q r. ti_freqPointer ti = int q \<and> q \<le> length DF \<and> drop q DF = docs_wire (fi_omitTermFreqAndPositions fi) 0 ps @ r) \<and>
     (\<exists>q r. ti_proxPointer ti = int q \<and> q \<le> length DP \<and>
        drop q DP = (if fi_omitTermFreqAndPositions fi then [] else entries_wire (fi_storePayloads fi) (term_entries (fi_storePayloads fi) ps)) @ r)"

lemma postings_docs: "postings_ok fi ps \<Longrightarrow> docs_from 0 ps"
proof -
  assume ps: "postings_ok fi ps"
  have "length pos < 2 ^ 31" if "(d, pos) \<in> set ps" for d pos
    using member_le_sum_list [of "length pos" "map (\<lambda>(d, pos). length pos) ps"] that ps by (force simp: postings_ok_def)
  then show ?thesis using ps by (auto simp: postings_ok_def docs_from_def)
qed

context postings_in begin

definition docs_inv :: "field_info \<Rightarrow> bit_vector option \<Rightarrow> byte list \<Rightarrow> posting list \<Rightarrow> ('f, 'p) term_positions \<Rightarrow> bool" where
  "docs_inv fi dv D rest t \<longleftrightarrow> (\<exists>prev. td_at D (fi_omitTermFreqAndPositions fi) prev rest (tp_docs t) \<and> docs_from prev rest) \<and>
     deleted_ok dv rest \<and> td_deletedDocs (tp_docs t) = dv \<and> td_payloads (tp_docs t) = fi_storePayloads fi"

text \<open>The stream of positions: the entries that are to be skipped, those of the present document and
  those of the documents to come. Once the documents are exhausted, only the payload matters.\<close>

definition live :: "field_info \<Rightarrow> byte list \<Rightarrow> cursor \<Rightarrow> ('f, 'p) term_positions \<Rightarrow> bool" where
  "live fi D c t \<longleftrightarrow> (\<exists>q xs m r. tp_loc D (snd (snd c)) t q \<and>
     drop q D = entries_wire (fi_storePayloads fi) (xs @ entries (fi_storePayloads fi) (unat (tp_position t)) m (fst (snd c)) @ term_entries (fi_storePayloads fi) (fst c)) @ r \<and>
     entries_ok (fi_storePayloads fi) (unat (tp_payloadLength t))
       (xs @ entries (fi_storePayloads fi) (unat (tp_position t)) m (fst (snd c)) @ term_entries (fi_storePayloads fi) (fst c)) \<and>
     length xs = unat (tp_lazySkipProxCount t) \<and> length (fst (snd c)) = unat (tp_proxCount t) \<and>
     length xs + length (fst (snd c)) + sum_list (map (freq_of False) (fst c)) < 2 ^ 31 \<and>
     positions_ok fi (fst (snd c)) \<and> (\<forall>(p, _)\<in>set (fst (snd c)). unat (tp_position t) \<le> p) \<and> (\<forall>(d, pos)\<in>set (fst c). positions_ok fi pos))"

definition ended :: "byte list \<Rightarrow> cursor \<Rightarrow> ('f, 'p) term_positions \<Rightarrow> bool" where
  "ended D c t \<longleftrightarrow> fst c = [] \<and> fst (snd c) = [] \<and>
     (if snd (snd c) = None then \<not> tp_needToLoadPayload t else \<exists>q. tp_loc D (snd (snd c)) t q)"

definition prox_valid :: "byte list \<Rightarrow> ('f, 'p) term_positions \<Rightarrow> bool" where
  "prox_valid D t \<longleftrightarrow> (\<forall>s. tp_proxStream t = Some s \<longrightarrow> (\<exists>p\<le>length D. atP D p s))"

definition tp_inv :: "field_info \<Rightarrow> bit_vector option \<Rightarrow> byte list \<Rightarrow> byte list \<Rightarrow> cursor \<Rightarrow> ('f, 'p) term_positions \<Rightarrow> bool" where
  "tp_inv fi dv DF DP c t \<longleftrightarrow> docs_inv fi dv DF (fst c) t \<and> prox_valid DP t \<and>
     (if fi_omitTermFreqAndPositions fi then fst (snd c) = [] \<and> snd (snd c) = None \<and> \<not> tp_needToLoadPayload t
      else live fi DP c t \<or> ended DP c t)"

lemma tp_loc_same:
  assumes "tp_loc D pay t q" "tp_payloadLength u = tp_payloadLength t" "tp_needToLoadPayload u = tp_needToLoadPayload t"
    "tp_lazySkipPointer u = tp_lazySkipPointer t" "tp_proxStream u = tp_proxStream t"
  shows "tp_loc D pay u q"
  using assms(1) unfolding tp_loc_def assms(2-5) .

lemma skip_sum:
  assumes "unat a + unat b + k < 2 ^ 31"
  shows "unat (a + b + of_nat k :: int32) = unat a + unat b + k"
proof -
  have "a + b + of_nat k = (of_nat (unat a + unat b + k) :: int32)" by simp
  then show ?thesis using assms unat_of_nat_below [of "unat a + unat b + k", where 'a = 32] by simp
qed

lemma cursor_next_step:
  assumes "tp_inv fi dv DF DP (rest, cur, pay) t"
  shows "\<exists>out c t'. tp_step rbF rbP rbsP skP tlP clone NextDoc t = Inr (out, t') \<and>
    ref_step fi dv NextDoc (rest, cur, pay) = Inr (out, c) \<and> tp_inv fi dv DF DP c t'"
proof -
  let ?omit = "fi_omitTermFreqAndPositions fi" and ?n = "tp_lazySkipProxCount t + tp_proxCount t"
  obtain prev where d: "td_at DF ?omit prev rest (tp_docs t)" "docs_from prev rest" "deleted_ok dv rest" "td_deletedDocs (tp_docs t) = dv"
    "td_payloads (tp_docs t) = fi_storePayloads fi" using assms by (auto simp: tp_inv_def docs_inv_def)
  let ?n' = "?n + of_nat (sum_list (map (freq_of ?omit) (dead dv rest)))"
  obtain u p where u: "td_next_loop rbF ?n (tp_docs t) = Some (Inr (alive dv rest \<noteq> [], ?n', u))"
    "alive dv rest \<noteq> [] \<Longrightarrow> p = fst (hd (alive dv rest)) \<and> td_freq u = of_nat (freq_of ?omit (hd (alive dv rest)))"
    "td_at DF ?omit p (tl (alive dv rest)) u" "docs_from p (tl (alive dv rest))" "td_deletedDocs u = dv" "td_payloads u = fi_storePayloads fi"
    using next_loop_ok [OF d(1-4), of ?n] d(5) by metis
  have del: "deleted_ok dv (tl (alive dv rest))"
    using d(3) set_tl_alive [of dv rest] by (auto simp: deleted_ok_def split: option.splits)
  let ?t = "t\<lparr>tp_docs := u, tp_lazySkipProxCount := ?n'\<rparr>"
  show ?thesis
  proof (cases "alive dv rest")
    case Nil
    have step: "tp_step rbF rbP rbsP skP tlP clone NextDoc t = Inr (OEnd, ?t)" using u(1) Nil by (simp add: tp_step_def tp_next_def)
    have "docs_inv fi dv DF [] ?t" using u del Nil by (auto simp: docs_inv_def)
    moreover have "ended DP ([], [], pay) ?t" if "\<not> ?omit"
    proof (cases "pay = None")
      case True
      then have "\<not> tp_needToLoadPayload t" using assms that by (auto simp: tp_inv_def live_def ended_def tp_loc_def)
      then show ?thesis using True by (simp add: ended_def)
    next
      case False
      then obtain q where "tp_loc DP pay t q" using assms that by (auto simp: tp_inv_def live_def ended_def split: if_splits)
      then have "tp_loc DP pay ?t q" by (rule tp_loc_same) simp_all
      then show ?thesis using False by (auto simp: ended_def)
    qed
    moreover have "prox_valid DP ?t" using assms by (simp add: tp_inv_def prox_valid_def)
    ultimately have "tp_inv fi dv DF DP ([], [], pay) ?t" using assms by (auto simp: tp_inv_def split: if_splits)
    then show ?thesis using step Nil by (auto simp: ref_step_def)
  next
    case (Cons x ps)
    obtain d' pos where x: "x = (d', pos)" by (cases x)
    let ?t' = "?t\<lparr>tp_proxCount := td_freq u, tp_position := 0\<rparr>"
    have step: "tp_step rbF rbP rbsP skP tlP clone NextDoc t = Inr (ODoc (unat (td_doc u)) (unat (td_freq u)), ?t')"
      using u(1) Cons by (simp add: tp_step_def tp_next_def)
    have a: "alive dv rest = (d', pos) # ps" using Cons x by simp
    have fr: "td_freq u = of_nat (freq_of ?omit (d', pos))" and p: "p = d'" using u(2) a by simp_all
    have ok: "d' < 2 ^ 31" "length pos < 2 ^ 31"
    proof -
      have "(d', pos) \<in> set rest" using term_entries_alive(3) [OF a] by blast
      then show "d' < 2 ^ 31" "length pos < 2 ^ 31" using d(2) by (auto simp: docs_from_def)
    qed
    have doc: "unat (td_doc u) = d'" using u(3) p ok(1) unat_of_nat_below [of d', where 'a = 32] by (simp add: td_at_def)
    have freq: "unat (td_freq u) = freq_of ?omit (d', pos)" unfolding fr by (rule unat_of_nat_below) (use ok(2) in \<open>simp add: freq_of_def\<close>)
    have inv: "docs_inv fi dv DF ps ?t'" "prox_valid DP ?t'" using assms u(3-6) del a p by (auto simp: docs_inv_def tp_inv_def prox_valid_def)
    have "tp_inv fi dv DF DP (ps, if ?omit then [] else pos, pay) ?t'"
    proof (cases ?omit)
      case True
      then show ?thesis using assms inv by (simp add: tp_inv_def)
    next
      case False
      then have "live fi DP (rest, cur, pay) t" using assms a by (auto simp: tp_inv_def ended_def alive_def)
      then obtain q xs m r where l: "tp_loc DP pay t q"
        "drop q DP = entries_wire (fi_storePayloads fi) (xs @ entries (fi_storePayloads fi) (unat (tp_position t)) m cur @ term_entries (fi_storePayloads fi) rest) @ r"
        "entries_ok (fi_storePayloads fi) (unat (tp_payloadLength t)) (xs @ entries (fi_storePayloads fi) (unat (tp_position t)) m cur @ term_entries (fi_storePayloads fi) rest)"
        "length xs = unat (tp_lazySkipProxCount t)" "length cur = unat (tp_proxCount t)"
        "length xs + length cur + sum_list (map (freq_of False) rest) < 2 ^ 31" "\<forall>(d, pos)\<in>set rest. positions_ok fi pos"
        by (auto simp: live_def)
      let ?dead = "term_entries (fi_storePayloads fi) (dead dv rest)"
      let ?xs = "xs @ entries (fi_storePayloads fi) (unat (tp_position t)) m cur @ ?dead"
      have dl: "length ?dead = sum_list (map (freq_of False) (dead dv rest))" by (rule length_term_entries)
      have "unat ?n' = unat (tp_lazySkipProxCount t) + unat (tp_proxCount t) + sum_list (map (freq_of False) (dead dv rest))"
        using False l(4-6) term_entries_alive(2) [OF a] by (subst skip_sum) simp_all
      then have n: "length ?xs = unat ?n'" using dl l(4,5) by simp
      have e: "xs @ entries (fi_storePayloads fi) (unat (tp_position t)) m cur @ term_entries (fi_storePayloads fi) rest =
          ?xs @ entries (fi_storePayloads fi) 0 (-1) pos @ term_entries (fi_storePayloads fi) ps"
        using term_entries_alive(1) [OF a] by simp
      have "positions_ok fi pos" "\<forall>(d, pos)\<in>set ps. positions_ok fi pos" using l(7) term_entries_alive(3) [OF a] by auto
      moreover have "length ?xs + length pos + sum_list (map (freq_of False) ps) < 2 ^ 31"
        using l(6) term_entries_alive(2) [OF a] dl by simp
      moreover have "tp_loc DP pay ?t' q" using l(1) by (rule tp_loc_same) simp_all
      ultimately have "live fi DP (ps, pos, pay) ?t'" unfolding live_def fst_conv snd_conv
        using l(2,3) e n freq False by (intro exI [of _ q] exI [of _ ?xs] exI [of _ "-1"] exI [of _ r]) (simp add: freq_of_def)
      then show ?thesis using inv False by (simp add: tp_inv_def)
    qed
    then show ?thesis using step a doc freq by (simp add: ref_step_def)
  qed
qed

lemma cursor_position_step:
  assumes inv: "tp_inv fi dv DF DP (rest, cur, pay) t" and valid: "ref_valid fi NextPosition (rest, cur, pay)"
    and clone: "atP DP p0 clone" "p0 \<le> length DP"
  shows "\<exists>out c t'. tp_step rbF rbP rbsP skP tlP clone NextPosition t = Inr (out, t') \<and>
    ref_step fi dv NextPosition (rest, cur, pay) = Inr (out, c) \<and> tp_inv fi dv DF DP c t'"
proof -
  let ?omit = "fi_omitTermFreqAndPositions fi" and ?pay = "fi_storePayloads fi"
  have d: "docs_inv fi dv DF rest t" using inv by (simp add: tp_inv_def)
  then have om: "td_omit (tp_docs t) = ?omit" "td_payloads (tp_docs t) = ?pay" by (auto simp: docs_inv_def td_at_def)
  show ?thesis
  proof (cases ?omit)
    case True
    then have "cur = []" "\<not> tp_needToLoadPayload t" using inv by (simp_all add: tp_inv_def)
    then show ?thesis using True om inv by (auto simp: tp_step_def tp_nextPosition_def ref_step_def tp_isPayloadAvailable_def)
  next
    case False
    then obtain p pl c where cur: "cur = (p, pl) # c" using valid by (cases cur) (auto simp: ref_valid_def)
    then have "live fi DP (rest, cur, pay) t" using inv False by (auto simp: tp_inv_def ended_def)
    then obtain q xs m r where l: "tp_loc DP pay t q"
      "drop q DP = entries_wire ?pay (xs @ entries ?pay (unat (tp_position t)) m cur @ term_entries ?pay rest) @ r"
      "entries_ok ?pay (unat (tp_payloadLength t)) (xs @ entries ?pay (unat (tp_position t)) m cur @ term_entries ?pay rest)"
      "length xs = unat (tp_lazySkipProxCount t)" "length cur = unat (tp_proxCount t)"
      "length xs + length cur + sum_list (map (freq_of False) rest) < 2 ^ 31" "positions_ok fi cur" "\<forall>(p, _)\<in>set cur. unat (tp_position t) \<le> p"
      "\<forall>(d, pos)\<in>set rest. positions_ok fi pos"
      by (auto simp: live_def)
    have k: "length xs < 2 ^ 31" using l(6) by linarith
    define m' where "m' = (if ?pay then int (length pl) else m)"
    define len where "len = (if ?pay \<and> int (length pl) \<noteq> m then Some (length pl) else None)"
    define es where "es = entries ?pay p m' c @ term_entries ?pay rest"
    let ?d = "p - unat (tp_position t)"
    have e: "entries ?pay (unat (tp_position t)) m cur @ term_entries ?pay rest = (?d, len, pl) # es"
      by (simp add: cur len_def es_def m'_def)
    from lazySkip_ok [OF l(1) clone l(2,3) om(2) l(4) k] obtain b s1 where s1: "tp_lazySkip rbP skP tlP clone t =
        Inr (t\<lparr>tp_payloadLength := b, tp_needToLoadPayload := False, tp_lazySkipPointer := -1, tp_lazySkipProxCount := 0\<rparr>, s1)"
      "atP DP (q + length (entries_wire ?pay xs)) s1" "q + length (entries_wire ?pay xs) \<le> length DP"
      "drop (q + length (entries_wire ?pay xs)) DP = entries_wire ?pay ((?d, len, pl) # es) @ r" "entries_ok ?pay (unat b) ((?d, len, pl) # es)" "unat b < 2 ^ 31"
      unfolding e by blast
    define q1 where "q1 = q + length (entries_wire ?pay xs)"
    let ?t1 = "t\<lparr>tp_payloadLength := b, tp_needToLoadPayload := False, tp_lazySkipPointer := -1, tp_lazySkipProxCount := 0, tp_proxCount := tp_proxCount t - 1\<rparr>"
    have dr: "drop q1 DP = entry_wire ?pay (?d, len, pl) @ entries_wire ?pay es @ r" using s1(4) by (simp add: q1_def entries_wire_Cons)
    have pl1: "tp_payloadLength ?t1 = b" by simp
    have b: "entries_ok ?pay (unat (tp_payloadLength ?t1)) ((?d, len, pl) # es)" unfolding pl1 by (rule s1(5))
    have pt: "td_payloads (tp_docs ?t1) = ?pay" using om(2) by simp
    let ?t2 = "if ?pay then ?t1\<lparr>tp_payloadLength := of_nat (length pl), tp_needToLoadPayload := True\<rparr> else ?t1"
    let ?q2 = "q1 + length (entry_head ?pay (?d, len, pl))"
    from readDelta_ok [OF s1(2,3) [folded q1_def] dr b pt] obtain s2 where s2: "tp_readDeltaPosition rbP ?t1 s1 = Inr (of_nat ?d, ?t2, s2)"
      "atP DP ?q2 s2" "?q2 \<le> length DP" "drop ?q2 DP = pl @ entries_wire ?pay es @ r" by blast
    note c = positions_ok_Cons [OF l(7) [unfolded cur]]
    have ge: "unat (tp_position t) \<le> p" using l(8) cur by auto
    define t' where "t' = ?t2\<lparr>tp_position := tp_position ?t2 + of_nat ?d, tp_proxStream := Some s2\<rparr>"
    have pos: "unat (tp_position t') = p"
    proof -
      have "tp_position t' = of_nat (unat (tp_position t) + ?d)" by (simp add: t'_def)
      then have "tp_position t' = of_nat p" using ge by simp
      then show ?thesis using c unat_of_nat_below [of p, where 'a = 32] by simp
    qed
    have lp: "unat (of_nat (length pl) :: int32) = length pl" using c by (intro unat_of_nat_below) simp
    have av: "tp_isPayloadAvailable t' \<longleftrightarrow> ?pay \<and> pl \<noteq> []"
      using c sint_of_nat_small [of "length pl"] by (simp add: tp_isPayloadAvailable_def t'_def)
    have step: "tp_step rbF rbP rbsP skP tlP clone NextPosition t = Inr (OPosition p (?pay \<and> pl \<noteq> []), t')"
      using False om s1(1) s2(1) pos av by (simp add: tp_step_def tp_nextPosition_def t'_def Let_def)
    have le: "?q2 + length pl \<le> length DP"
    proof -
      have "length DP - ?q2 = length pl + length (entries_wire ?pay es @ r)" using s2(4) by (metis length_append length_drop)
      then show ?thesis using s2(3) by linarith
    qed
    have dr2: "drop (?q2 + length pl) DP = entries_wire ?pay es @ r" using arg_cong [OF s2(4), of "drop (length pl)"] by (simp add: add.commute)
    let ?pay' = "if ?pay then Some pl else None"
    have loc: "tp_loc DP ?pay' t' (?q2 + length pl)"
    proof -
      have "pl = []" if "\<not> ?pay" using b that by simp
      then show ?thesis using le s2 lp c s1(6) by (auto simp: tp_loc_def t'_def)
    qed
    have eo: "entries_ok ?pay (unat (tp_payloadLength t')) es" using b lp by (auto simp: t'_def split: if_splits)
    have pc: "length c = unat (tp_proxCount t')"
    proof -
      have "of_nat (unat (tp_proxCount t)) = tp_proxCount t" by simp
      then have "tp_proxCount t = of_nat (length c) + 1" unfolding l(5) [symmetric] cur by (simp add: add.commute)
      then have "tp_proxCount t' = of_nat (length c)" by (simp add: t'_def)
      moreover have "length c < 2 ^ 31" using l(6) cur by simp
      ultimately show ?thesis using unat_of_nat_below [of "length c", where 'a = 32] by simp
    qed
    have "tp_lazySkipProxCount t' = 0" by (simp add: t'_def)
    moreover have "length c + sum_list (map (freq_of False) rest) < 2 ^ 31" using l(6) cur by simp
    moreover have "positions_ok fi c" "\<forall>(x, _)\<in>set c. p \<le> x" using c by simp_all
    ultimately have "live fi DP (rest, c, ?pay') t'" unfolding live_def fst_conv snd_conv pos
      using loc dr2 eo pc l(9) by (intro exI [of _ "?q2 + length pl"] exI [of _ "[]"] exI [of _ m'] exI [of _ r]) (simp add: es_def)
    moreover have "docs_inv fi dv DF rest t'" "prox_valid DP t'" using d s2(2,3) by (auto simp: docs_inv_def prox_valid_def t'_def)
    ultimately have "tp_inv fi dv DF DP (rest, c, ?pay') t'" using False by (simp add: tp_inv_def)
    then show ?thesis using step cur by (auto simp: ref_step_def)
  qed
qed

lemma cursor_payload_step:
  assumes inv: "tp_inv fi dv DF DP (rest, cur, pay) t"
  shows "case ref_step fi dv LoadPayload (rest, cur, pay) of Inl e \<Rightarrow> tp_step rbF rbP rbsP skP tlP clone LoadPayload t = Inl e
    | Inr (out, c) \<Rightarrow> \<exists>t'. tp_step rbF rbP rbsP skP tlP clone LoadPayload t = Inr (out, t') \<and> tp_inv fi dv DF DP c t'"
proof (cases pay)
  case None
  then have "\<not> tp_needToLoadPayload t" using inv by (auto simp: tp_inv_def live_def ended_def tp_loc_def split: if_splits)
  then show ?thesis using None by (simp add: ref_step_def tp_step_def tp_getPayload_def)
next
  case (Some pl)
  then have ne: "\<not> fi_omitTermFreqAndPositions fi" and "\<exists>q. tp_loc DP pay t q" using inv by (auto simp: tp_inv_def live_def ended_def split: if_splits)
  then obtain q s p where loc: "q \<le> length DP" "unat (tp_payloadLength t) < 2 ^ 31" "tp_needToLoadPayload t" "tp_lazySkipPointer t = -1"
    "tp_proxStream t = Some s" "atP DP p s" "q = p + length pl" "unat (tp_payloadLength t) = length pl" "take (length pl) (drop p DP) = pl"
    using Some by (auto simp: tp_loc_def)
  obtain s' where s': "rbsP (length pl) s = Inr (pl, s')" "atP DP q s'" using P.at_bytes [OF loc(6), of "length pl"] loc(1,2,7-9) by auto
  let ?t = "t\<lparr>tp_needToLoadPayload := False, tp_proxStream := Some s'\<rparr>"
  have "sint (tp_payloadLength t) = int (length pl)" using sint_unat_small [OF loc(2)] loc(8) by simp
  moreover have "arrayCopy pl 0 (replicate (length pl) 0) 0 (length pl) = pl" by (intro nth_equalityI) (simp_all add: arrayCopy_def)
  ultimately have step: "tp_step rbF rbP rbsP skP tlP clone LoadPayload t = Inr (OPayload pl, ?t)"
    using loc(3,5,8) s'(1) by (simp add: tp_step_def tp_getPayload_def Let_def)
  have none: "tp_loc DP None ?t q" unfolding tp_loc_def using loc(1,2,4) s'(2) by simp
  have same: "tp_loc DP None ?t q2" if l2: "tp_loc DP pay t q2" for q2
  proof -
    obtain p2 where "atP DP p2 s" "p2 \<le> length DP" "q2 = p2 + length pl" using l2 unfolding tp_loc_def Some loc(5) by auto
    moreover have "p \<le> length DP" using loc(1,7) by simp
    ultimately have "q2 = q" using P.at_unique [OF _ loc(6), of p2] loc(7) by blast
    then show ?thesis using none by blast
  qed
  have o: "tp_position ?t = tp_position t" "tp_payloadLength ?t = tp_payloadLength t" "tp_lazySkipProxCount ?t = tp_lazySkipProxCount t"
    "tp_proxCount ?t = tp_proxCount t" by simp_all
  have "docs_inv fi dv DF rest ?t" "prox_valid DP ?t" using inv s'(2) loc(1) by (auto simp: tp_inv_def docs_inv_def prox_valid_def)
  moreover have "live fi DP (rest, cur, pay) t \<Longrightarrow> live fi DP (rest, cur, None) ?t"
    unfolding live_def fst_conv snd_conv o using same by blast
  moreover have "ended DP (rest, cur, pay) t \<Longrightarrow> ended DP (rest, cur, None) ?t" by (simp add: ended_def)
  ultimately have "tp_inv fi dv DF DP (rest, cur, None) ?t" using inv ne by (auto simp: tp_inv_def)
  then show ?thesis using Some step by (simp add: ref_step_def)
qed

lemma positions_Nil: "positions_ok fi []"
  by (simp add: positions_ok_def)

lemma cursor_streams:
  assumes "tp_inv fi dv DF DP c t"
  obtains p prev where "atF DF p (td_freqStream (tp_docs t))" "p \<le> length DF" "td_deletedDocs (tp_docs t) = dv" "prox_valid DP t"
  using assms by (auto simp: tp_inv_def docs_inv_def td_at_def)

lemma seek_term:
  assumes inv: "tp_inv fi0 dv DF DP c t" and ti: "term_at DF DP fi ps ti" and dv: "deleted_ok dv ps"
  shows "\<exists>t'. tp_seek skF (Some ti) (Some fi) t = Inr t' \<and> tp_inv fi dv DF DP (ps, [], None) t'"
proof -
  let ?omit = "fi_omitTermFreqAndPositions fi" and ?pay = "fi_storePayloads fi"
  from inv obtain p where p: "atF DF p (td_freqStream (tp_docs t))" "td_deletedDocs (tp_docs t) = dv" "prox_valid DP t" by (rule cursor_streams)
  from ti obtain qF rF qP rP where q: "ti_freqPointer ti = int qF" "qF \<le> length DF" "drop qF DF = docs_wire ?omit 0 ps @ rF"
    "ti_proxPointer ti = int qP" "qP \<le> length DP" "drop qP DP = (if ?omit then [] else entries_wire ?pay (term_entries ?pay ps)) @ rP"
    and ps: "postings_ok fi ps" "ti_docFreq ti = int (length ps)" unfolding term_at_def by blast
  from F.at_seek [OF p(1) q(2)] obtain s where s: "skF qF (td_freqStream (tp_docs t)) = Inr s" "atF DF qF s" by blast
  define u where "u = (tp_docs t)\<lparr>td_count := 0, td_omit := ?omit, td_payloads := ?pay, td_df := ti_docFreq ti, td_doc := 0,
    td_freqBasePointer := ti_freqPointer ti, td_proxBasePointer := ti_proxPointer ti, td_skipPointer := ti_freqPointer ti + ti_skipOffset ti,
    td_freqStream := s, td_haveSkipped := False\<rparr>"
  define t' where "t' = t\<lparr>tp_docs := u, tp_lazySkipPointer := ti_proxPointer ti, tp_lazySkipProxCount := 0, tp_proxCount := 0,
    tp_payloadLength := 0, tp_needToLoadPayload := False\<rparr>"
  have step: "tp_seek skF (Some ti) (Some fi) t = Inr t'"
    using s(1) q(1) by (simp add: tp_seek_def td_seek_def Let_def t'_def u_def)
  have "td_at DF ?omit 0 ps u" using q(2,3) s(2) ps(2) by (auto simp: td_at_def u_def)
  then have d: "docs_inv fi dv DF ps t'" using postings_docs [OF ps(1)] dv p(2) by (auto simp: docs_inv_def t'_def u_def)
  have v: "prox_valid DP t'" using p(3) by (simp add: prox_valid_def t'_def)
  have "live fi DP (ps, [], None) t'" if "\<not> ?omit"
  proof -
    have pos: "\<forall>(d, pos)\<in>set ps. positions_ok fi pos" using ps(1) that by (auto simp: postings_ok_def)
    have "tp_loc DP None t' qP" using v q(4,5) by (simp add: tp_loc_def prox_valid_def t'_def)
    moreover have m: "map (freq_of False) ps = map (\<lambda>(d, pos). length pos) ps" by (simp add: freq_of_def split_def)
    have "sum_list (map (freq_of False) ps) < 2 ^ 31" using ps(1) unfolding postings_ok_def m by blast
    moreover have "tp_lazySkipProxCount t' = 0" "tp_proxCount t' = 0" by (simp_all add: t'_def)
    ultimately show ?thesis unfolding live_def fst_conv snd_conv
      using q(6) that pos term_entries_ok [OF pos] positions_Nil
      by (intro exI [of _ qP] exI [of _ "[] :: entry list"] exI [of _ 0] exI [of _ rP]) simp
  qed
  then show ?thesis using step d v by (intro exI [of _ t']) (auto simp: tp_inv_def t'_def)
qed

lemma seek_nothing:
  assumes inv: "tp_inv fi0 dv DF DP c t" and dv: "deleted_ok dv []"
  shows "\<exists>t'. tp_seek skF None None t = Inr t' \<and> tp_inv no_field dv DF DP ([], [], None) t'"
proof -
  from inv obtain p where p: "atF DF p (td_freqStream (tp_docs t))" "p \<le> length DF" "td_deletedDocs (tp_docs t) = dv" "prox_valid DP t" by (rule cursor_streams)
  define t' where "t' = t\<lparr>tp_docs := (tp_docs t)\<lparr>td_count := 0, td_omit := False, td_payloads := False, td_df := 0\<rparr>, tp_lazySkipProxCount := 0,
    tp_proxCount := 0, tp_payloadLength := 0, tp_needToLoadPayload := False\<rparr>"
  have step: "tp_seek skF None None t = Inr t'" by (simp add: tp_seek_def td_seek_def Let_def t'_def)
  have "td_at DF False (unat (td_doc (tp_docs t))) [] (tp_docs t')" using p(1,2) by (auto simp: td_at_def t'_def)
  then have "docs_inv no_field dv DF [] t'" using dv p(3) by (auto simp: docs_inv_def t'_def no_field_def docs_from_def)
  moreover have "prox_valid DP t'" "ended DP ([], [], None) t'" using p(4) by (simp_all add: prox_valid_def ended_def t'_def)
  ultimately show ?thesis using step by (intro exI [of _ t']) (simp add: tp_inv_def no_field_def)
qed

lemma new_cursor:
  assumes "atF DF p s" "p \<le> length DF" "deleted_ok dv []"
  shows "tp_inv no_field dv DF DP ([], [], None) (newSegmentTermPositions s dv)"
proof -
  have "td_at DF False 0 [] (newSegmentTermDocs s dv)" using assms(1,2) by (auto simp: td_at_def newSegmentTermDocs_def)
  then have "docs_inv no_field dv DF [] (newSegmentTermPositions s dv)"
    using assms(3) by (auto simp: docs_inv_def no_field_def newSegmentTermPositions_def newSegmentTermDocs_def docs_from_def)
  then show ?thesis by (simp add: tp_inv_def no_field_def prox_valid_def ended_def newSegmentTermPositions_def)
qed

lemma run_ok:
  assumes tis: "list_all2 (\<lambda>(fi, ps) (fj, ti). fj = fi \<and> term_at DF DP fi ps ti \<and> deleted_ok dv ps) terms tis"
    and clone: "atP DP p0 clone" "p0 \<le> length DP"
  shows "tp_inv fi dv DF DP c t \<Longrightarrow> ref_ok terms dv ops (fi, c) \<Longrightarrow>
    tp_run rbF skF rbP rbsP skP tlP clone tis ops t = ref_run terms dv ops (fi, c)"
proof (induction ops arbitrary: fi c t)
  case (Cons x ops)
  obtain rest cur pay where c: "c = (rest, cur, pay)" by (cases c)
  show ?case
  proof (cases x)
    case (SeekTerm i)
    have n: "length terms = length tis" using tis by (rule list_all2_lengthD)
    show ?thesis
    proof (cases "i < length terms")
      case True
      obtain fj ps ti where i: "terms ! i = (fj, ps)" "tis ! i = (fj, ti)" "term_at DF DP fj ps ti" "deleted_ok dv ps"
        using list_all2_nthD [OF tis True] by (auto split: prod.splits)
      from seek_term [OF Cons.prems(1) i(3,4)] obtain t' where "tp_seek skF (Some ti) (Some fj) t = Inr t'" "tp_inv fj dv DF DP (ps, [], None) t'" by blast
      with Cons.IH [OF this(2)] Cons.prems(2) SeekTerm i(1,2) True n show ?thesis by (simp add: nth_term_def ref_seek_def)
    next
      case False
      have "deleted_ok dv []" using Cons.prems(1) by (auto simp: tp_inv_def docs_inv_def deleted_ok_def split: option.splits)
      from seek_nothing [OF Cons.prems(1) this] obtain t' where "tp_seek skF None None t = Inr t'" "tp_inv no_field dv DF DP ([], [], None) t'" by blast
      with Cons.IH [OF this(2)] Cons.prems(2) SeekTerm False n show ?thesis by (simp add: nth_term_def ref_seek_def)
    qed
  next
    case (Op op)
    have v: "ref_valid fi op (rest, cur, pay)" using Cons.prems(2) Op c by simp
    have "case ref_step fi dv op (rest, cur, pay) of Inl e \<Rightarrow> tp_step rbF rbP rbsP skP tlP clone op t = Inl e
      | Inr (out, c) \<Rightarrow> \<exists>t'. tp_step rbF rbP rbsP skP tlP clone op t = Inr (out, t') \<and> tp_inv fi dv DF DP c t'"
    proof (cases op)
      case NextDoc
      show ?thesis using cursor_next_step [OF Cons.prems(1) [unfolded c]] unfolding NextDoc by fastforce
    next
      case NextPosition
      show ?thesis using cursor_position_step [OF Cons.prems(1) [unfolded c] _ clone] v unfolding NextPosition by fastforce
    next
      case LoadPayload
      show ?thesis using cursor_payload_step [OF Cons.prems(1) [unfolded c]] unfolding LoadPayload .
    qed
    then show ?thesis using Cons.IH Cons.prems(2) Op c by (auto split: sum.splits prod.splits)
  qed
qed simp

end


text \<open>Reading in blocks: the documents that are not deleted, with their frequencies.\<close>

definition living :: "bit_vector option \<Rightarrow> posting list \<Rightarrow> posting list" where
  "living dv ps = filter (\<lambda>(d, _). d \<notin> deleted_docs dv) ps"

definition doc_freqs :: "bool \<Rightarrow> posting list \<Rightarrow> (int32 \<times> int32) list" where
  "doc_freqs omit ps = map (\<lambda>x. (of_nat (fst x), of_nat (freq_of omit x))) ps"

fun td_blocks :: "'f reader \<Rightarrow> nat list \<Rightarrow> 'f term_docs \<Rightarrow> (int32 \<times> int32) list list result" where
  "td_blocks rbF [] t = Inr []"
| "td_blocks rbF (n # ns) t = bind_r (td_read rbF n t) (\<lambda>(block, t). bind_r (td_blocks rbF ns t) (\<lambda>blocks. Inr (block # blocks)))"

fun blocks_of :: "nat list \<Rightarrow> 'a list \<Rightarrow> 'a list list" where
  "blocks_of [] xs = []"
| "blocks_of (n # ns) xs = take n xs # blocks_of ns (drop n xs)"

context postings_in begin

lemma read_loop_ok:
  "td_at D omit prev rest t \<Longrightarrow> docs_from prev rest \<Longrightarrow> deleted_ok dv rest \<Longrightarrow> td_deletedDocs t = dv \<Longrightarrow> length acc \<le> n \<Longrightarrow>
   \<exists>t' p rest'. td_read_loop rbF n acc t = Some (Inr (acc @ doc_freqs omit (take (n - length acc) (living dv rest)), t')) \<and>
     td_at D omit p rest' t' \<and> docs_from p rest' \<and> deleted_ok dv rest' \<and> td_deletedDocs t' = dv \<and> living dv rest' = drop (n - length acc) (living dv rest)"
proof (induction rest arbitrary: prev t acc)
  case Nil
  then have "\<not> td_count t < td_df t" by (simp add: td_at_def)
  then show ?case using Nil
    by (intro exI [of _ t] exI [of _ prev] exI [of _ "[] :: posting list"]) (simp add: td_read_loop.simps living_def doc_freqs_def)
next
  case (Cons x rest)
  obtain d pos where x: "x = (d, pos)" by (cases x)
  have more: "td_count t < td_df t" using Cons.prems(1) by (simp add: td_at_def)
  show ?case
  proof (cases "length acc < n")
    case False
    then show ?thesis using Cons.prems
      by (intro exI [of _ t] exI [of _ prev] exI [of _ "x # rest"]) (simp add: td_read_loop.simps doc_freqs_def)
  next
    case True
    from readDoc_ok [OF Cons.prems(1,2) [unfolded x]] obtain u where u: "td_readDoc rbF t = Inr u" "td_at D omit d rest u"
      "td_freq u = of_nat (freq_of omit (d, pos))" "td_deletedDocs u = dv" using Cons.prems(4) by blast
    note ok = docs_from_Cons [OF Cons.prems(2) [unfolded x]]
    have doc: "td_doc u = of_nat d" using u(2) by (simp add: td_at_def)
    from deleted_step [OF this] have del: "td_deleted u = Inr (d \<in> deleted_docs dv)" using ok Cons.prems(3) x u(4) by metis
    let ?u = "if td_omit t then u\<lparr>td_freq := td_freq t\<rparr> else u"
    let ?acc = "if d \<in> deleted_docs dv then acc else acc @ [(of_nat d, of_nat (freq_of omit (d, pos)))]"
    have v: "td_at D omit d rest ?u" "td_deletedDocs ?u = dv" using u(2,4) by (simp_all add: td_at_def)
    have dok: "docs_from d rest" "deleted_ok dv rest" using ok Cons.prems(3) by (auto simp: deleted_ok_def split: option.splits)
    have len: "length ?acc \<le> n" using True by simp
    have "td_read_loop rbF n acc t = td_read_loop rbF n ?acc ?u"
      using True more u(1,3) del doc by (subst td_read_loop.simps) simp
    moreover obtain m where m: "n - length acc = Suc m" "n - Suc (length acc) = m" using True by (cases "n - length acc") auto
    then have "?acc @ doc_freqs omit (take (n - length ?acc) (living dv rest)) = acc @ doc_freqs omit (take (n - length acc) (living dv (x # rest)))"
      by (auto simp: living_def doc_freqs_def x)
    moreover have "drop (n - length ?acc) (living dv rest) = drop (n - length acc) (living dv (x # rest))"
      using m by (auto simp: living_def x)
    ultimately show ?thesis using Cons.IH [OF v(1) dok v(2) len] by simp
  qed
qed

lemma blocks_ok:
  "td_at D omit prev rest t \<Longrightarrow> docs_from prev rest \<Longrightarrow> deleted_ok dv rest \<Longrightarrow> td_deletedDocs t = dv \<Longrightarrow>
   td_blocks rbF ns t = Inr (blocks_of ns (doc_freqs omit (living dv rest)))"
proof (induction ns arbitrary: prev rest t)
  case (Cons n ns)
  have "length ([] :: (int32 \<times> int32) list) \<le> n" by simp
  from read_loop_ok [OF Cons.prems this] obtain t' p rest' where r: "td_read_loop rbF n [] t = Some (Inr (doc_freqs omit (take n (living dv rest)), t'))"
    "td_at D omit p rest' t'" "docs_from p rest'" "deleted_ok dv rest'" "td_deletedDocs t' = dv" "living dv rest' = drop n (living dv rest)"
    unfolding list.size diff_zero append_Nil by blast
  then have "td_read rbF n t = Inr (doc_freqs omit (take n (living dv rest)), t')" by (simp add: td_read_def)
  with Cons.IH [OF r(2-5)] show ?case unfolding r(6) by (simp add: doc_freqs_def take_map drop_map)
qed simp

lemma seek_docs:
  assumes s: "atF DF p s" "p \<le> length DF" and ti: "term_at DF DP fi ps ti"
  shows "\<exists>t. td_seek skF (Some ti) (Some fi) (newSegmentTermDocs s dv) = Inr t \<and> td_at DF (fi_omitTermFreqAndPositions fi) 0 ps t \<and>
    td_deletedDocs t = dv"
proof -
  from ti obtain qF rF where q: "ti_freqPointer ti = int qF" "qF \<le> length DF" "drop qF DF = docs_wire (fi_omitTermFreqAndPositions fi) 0 ps @ rF"
    "ti_docFreq ti = int (length ps)" unfolding term_at_def by blast
  from F.at_seek [OF s(1) q(2)] obtain u where "skF qF s = Inr u" "atF DF qF u" by blast
  then show ?thesis using q by (auto simp: td_seek_def newSegmentTermDocs_def Let_def td_at_def)
qed

end

interpretation seg_in: postings_in "fs_readByte chunk" "fs_readBytes chunk" fs_seek fs_getFilePointer "stream_at chunk"
  "fs_readByte chunk" "fs_readBytes chunk" fs_seek fs_getFilePointer "stream_at chunk" for chunk
  ..

subsection \<open>Segments\<close>

fun seg_writeTerms :: "(field_info \<times> posting list) list \<Rightarrow> (fs_out, fs_out) postings_writer \<Rightarrow>
   ((field_info \<times> term_info) list \<times> (fs_out, fs_out) postings_writer) result" where
  "seg_writeTerms [] w = Inr ([], w)"
| "seg_writeTerms ((fi, ps) # terms) w =
     bind_r (pw_writeTerm so_writeByte so_writeBytes so_pointer so_writeByte so_writeBytes so_pointer fi ps w) (\<lambda>(ti, w).
     bind_r (seg_writeTerms terms w) (\<lambda>(tis, w). Inr ((case ti of None \<Rightarrow> tis | Some ti \<Rightarrow> (fi, ti) # tis), w)))"

text \<open>The entries of the dictionary and the two files, once everything is flushed; the file for positions
  counts as empty where there is none.\<close>

definition prox_written :: "fs_out option \<Rightarrow> byte list result" where
  "prox_written out = (case out of None \<Rightarrow> Inr [] | Some p \<Rightarrow> bind_r (so_flush p) (\<lambda>p. Inr (on_disk p)))"

definition seg_write :: "bool \<Rightarrow> (nat \<Rightarrow> nat \<Rightarrow> nat) \<Rightarrow> nat \<Rightarrow> nat \<Rightarrow> nat \<Rightarrow> (field_info \<times> posting list) list \<Rightarrow>
   ((field_info \<times> term_info) list \<times> byte list \<times> byte list) result" where
  "seg_write hasProx floorLog skipInterval maxSkipLevels docCount terms =
     bind_r (seg_writeTerms terms (newSegmentWriter hasProx floorLog skipInterval maxSkipLevels docCount)) (\<lambda>(tis, w).
     bind_r (so_flush (pw_freqOut w)) (\<lambda>f.
     bind_r (prox_written (pw_proxOut w)) (\<lambda>p. Inr (tis, on_disk f, p))))"

text \<open>A term with positions has a file for them.\<close>

definition prox_ok :: "bool \<Rightarrow> (field_info \<times> posting list) list \<Rightarrow> bool" where
  "prox_ok hasProx terms \<longleftrightarrow> hasProx \<or> (\<forall>(fi, _)\<in>set terms. fi_omitTermFreqAndPositions fi)"

definition segment_ok :: "bit_vector option \<Rightarrow> (field_info \<times> posting list) list \<Rightarrow> bool" where
  "segment_ok dv terms \<longleftrightarrow> deleted_ok dv [] \<and> (\<forall>(fi, ps)\<in>set terms. ps \<noteq> [] \<and> postings_ok fi ps \<and> deleted_ok dv ps)"

lemma term_at_extend:
  assumes "term_at DF DP fi ps ti"
  shows "term_at (DF @ x) (DP @ y) fi ps ti"
  using assms unfolding term_at_def by fastforce

lemma writeTerms_ok:
  assumes "seg_out.pw_ready w" "segment_ok dv terms" "prox_ok (pw_proxOut w \<noteq> None) terms"
  shows "\<exists>tis w' x y. seg_writeTerms terms w = Inr (tis, w') \<and> seg_out.pw_ready w' \<and>
    fs_out.view (fst (pw_freqOut w')) = fs_out.view (fst (pw_freqOut w)) @ x \<and> seg_out.proxBytes w' = seg_out.proxBytes w @ y \<and>
    list_all2 (\<lambda>(fi, ps) (fj, ti). fj = fi \<and> term_at (fs_out.view (fst (pw_freqOut w'))) (seg_out.proxBytes w') fi ps ti \<and> deleted_ok dv ps) terms tis"
  using assms
proof (induction terms arbitrary: w)
  case (Cons t terms)
  obtain fi ps where t: "t = (fi, ps)" by (cases t)
  have ps: "postings_ok fi ps" "ps \<noteq> []" "deleted_ok dv ps" "segment_ok dv terms" using Cons.prems(2) t by (auto simp: segment_ok_def)
  let ?F = "\<lambda>w. fs_out.view (fst (pw_freqOut w))" and ?P = seg_out.proxBytes
  have "fi_omitTermFreqAndPositions fi \<or> pw_proxOut w \<noteq> None" using Cons.prems(3) t by (auto simp: prox_ok_def)
  from seg_out.writeTerm_ok [OF Cons.prems(1) ps(1,2) this] obtain ti w1 skip where w1:
    "pw_writeTerm so_writeByte so_writeBytes so_pointer so_writeByte so_writeBytes so_pointer fi ps w = Inr (Some ti, w1)" "seg_out.pw_ready w1"
    "pw_proxOut w1 = None \<longleftrightarrow> pw_proxOut w = None"
    "ti_docFreq ti = int (length ps)" "ti_freqPointer ti = int (length (?F w))" "ti_proxPointer ti = int (length (?P w))"
    "?F w1 = ?F w @ docs_wire (fi_omitTermFreqAndPositions fi) 0 ps @ skip"
    "?P w1 = ?P w @ (if fi_omitTermFreqAndPositions fi then [] else entries_wire (fi_storePayloads fi) (term_entries (fi_storePayloads fi) ps))"
    by (elim exE conjE) (rule that)
  have "prox_ok (pw_proxOut w1 \<noteq> None) terms" using Cons.prems(3) w1(3) by (auto simp: prox_ok_def)
  from Cons.IH [OF w1(2) ps(4) this] obtain tis w' x y where w': "seg_writeTerms terms w1 = Inr (tis, w')" "seg_out.pw_ready w'"
    "?F w' = ?F w1 @ x" "?P w' = ?P w1 @ y"
    "list_all2 (\<lambda>(fi, ps) (fj, ti). fj = fi \<and> term_at (?F w') (?P w') fi ps ti \<and> deleted_ok dv ps) terms tis" by blast
  have "term_at (?F w1) (?P w1) fi ps ti" using ps(1) w1(4-8) by (auto simp: term_at_def)
  then have "term_at (?F w') (?P w') fi ps ti" unfolding w'(3,4) by (rule term_at_extend)
  then show ?case using t w1(1,7,8) w' ps(3) by simp
qed simp

lemma prox_flushed: "seg_out.pw_ready w \<Longrightarrow> prox_written (pw_proxOut w) = Inr (seg_out.proxBytes w)"
proof (cases "pw_proxOut w")
  case (Some p)
  assume "seg_out.pw_ready w"
  then have "fs_out.appending (fst p)" using Some by (simp add: seg_out.pw_ready_def)
  from so_flushed [OF this] show ?thesis using Some by (auto simp: prox_written_def seg_out.proxBytes_def)
qed (simp add: prox_written_def seg_out.proxBytes_def)

lemma newSegmentWriter_prox [simp]: "pw_proxOut (newSegmentWriter hasProx floorLog skipInterval maxSkipLevels docCount) = None \<longleftrightarrow> \<not> hasProx"
  by (simp add: newSegmentWriter_def newPostingsWriter_def)

lemma segment_written:
  assumes "0 < skipInterval" "floorLog docCount skipInterval \<le> maxSkipLevels" "segment_ok dv terms" "prox_ok hasProx terms"
  shows "\<exists>tis DF DP. seg_write hasProx floorLog skipInterval maxSkipLevels docCount terms = Inr (tis, DF, DP) \<and>
    list_all2 (\<lambda>(fi, ps) (fj, ti). fj = fi \<and> term_at DF DP fi ps ti \<and> deleted_ok dv ps) terms tis"
proof -
  let ?w = "newSegmentWriter hasProx floorLog skipInterval maxSkipLevels docCount"
  have "seg_out.pw_ready ?w" using newSegmentWriter_ready [of skipInterval floorLog docCount maxSkipLevels] assms(1,2) by blast
  moreover have "prox_ok (pw_proxOut ?w \<noteq> None) terms" using assms(4) by simp
  ultimately obtain tis w where w: "seg_writeTerms terms ?w = Inr (tis, w)" "seg_out.pw_ready w"
    "list_all2 (\<lambda>(fi, ps) (fj, ti). fj = fi \<and> term_at (fs_out.view (fst (pw_freqOut w))) (seg_out.proxBytes w) fi ps ti \<and> deleted_ok dv ps) terms tis"
    using writeTerms_ok [OF _ assms(3)] by blast
  have "fs_out.appending (fst (pw_freqOut w))" using w(2) by (simp add: seg_out.pw_ready_def)
  then obtain f where "so_flush (pw_freqOut w) = Inr f" "on_disk f = fs_out.view (fst (pw_freqOut w))" using so_flushed by blast
  then show ?thesis using w(1,3) prox_flushed [OF w(2)] by (simp add: seg_write_def)
qed

abbreviation open_file :: "nat \<Rightarrow> byte list \<Rightarrow> buf_in \<times> in_file" where
  "open_file n D \<equiv> (newBufferedIndexInput n, newInputFile D)"

lemma file_opened: "0 < n \<Longrightarrow> n < 2 ^ 31 \<Longrightarrow> stream_at (2 ^ 31 - 1) D 0 (open_file n D)"
  by (rule opened_at) simp_all

text \<open>
  C2. The postings of any list of terms, written through the three writers and the buffered
  outputs, are what \<^verbatim>\<open>SegmentTermPositions\<close> shows: any script of seeks to terms (or to no
  term), \<^verbatim>\<open>next\<close>, \<^verbatim>\<open>nextPosition\<close> (as often as the document has positions) and
  \<^verbatim>\<open>getPayload\<close> gives, over buffered inputs of any buffer size, the results the script has on the postings themselves
  without the deleted documents, the exception of \<^verbatim>\<open>getPayload\<close> included, however many
  positions and payloads are left unread. The file for positions may be missing (\<open>hasProx\<close>) when no term has any.
\<close>

theorem segment_positions:
  assumes "0 < skipInterval" "floorLog docCount skipInterval \<le> maxSkipLevels" "segment_ok dv terms" "prox_ok hasProx terms"
    and "ref_ok terms dv ops (no_field, [], [], None)" "0 < n" "n < 2 ^ 31"
  shows "\<exists>tis DF DP. seg_write hasProx floorLog skipInterval maxSkipLevels docCount terms = Inr (tis, DF, DP) \<and>
    tp_run (fs_readByte (2 ^ 31 - 1)) fs_seek (fs_readByte (2 ^ 31 - 1)) (fs_readBytes (2 ^ 31 - 1)) fs_seek fs_getFilePointer (open_file n DP) tis ops
      (newSegmentTermPositions (open_file n DF) dv) = ref_run terms dv ops (no_field, [], [], None)"
proof -
  obtain tis DF DP where w: "seg_write hasProx floorLog skipInterval maxSkipLevels docCount terms = Inr (tis, DF, DP)"
    "list_all2 (\<lambda>(fi, ps) (fj, ti). fj = fi \<and> term_at DF DP fi ps ti \<and> deleted_ok dv ps) terms tis"
    using segment_written [of skipInterval floorLog docCount maxSkipLevels dv terms hasProx] assms(1-4) by blast
  have d: "deleted_ok dv []" using assms(3) by (simp add: segment_ok_def)
  have "seg_in.tp_inv (2 ^ 31 - 1) no_field dv DF DP ([], [], None) (newSegmentTermPositions (open_file n DF) dv)"
    by (rule seg_in.new_cursor [OF file_opened [OF assms(6,7)] _ d]) simp
  from seg_in.run_ok [OF w(2) file_opened [OF assms(6,7)] _ this assms(5)] w(1) show ?thesis by simp
qed

text \<open>
  The block reads of \<^verbatim>\<open>SegmentTermDocs\<close>, whatever the sizes of the blocks, give the
  documents of the term that are not deleted, in order and with their frequencies (1 where the
  field omits them).
\<close>

theorem segment_blocks:
  assumes "0 < skipInterval" "floorLog docCount skipInterval \<le> maxSkipLevels" "segment_ok dv terms" "prox_ok hasProx terms" "i < length terms" "terms ! i = (fi, ps)"
    and "0 < n" "n < 2 ^ 31"
  shows "\<exists>tis DF DP t. seg_write hasProx floorLog skipInterval maxSkipLevels docCount terms = Inr (tis, DF, DP) \<and>
    td_seek fs_seek (map_option snd (nth_term tis i)) (Some fi) (newSegmentTermDocs (open_file n DF) dv) = Inr t \<and>
    td_blocks (fs_readByte (2 ^ 31 - 1)) ns t = Inr (blocks_of ns (doc_freqs (fi_omitTermFreqAndPositions fi) (living dv ps)))"
proof -
  obtain tis DF DP where w: "seg_write hasProx floorLog skipInterval maxSkipLevels docCount terms = Inr (tis, DF, DP)"
    "list_all2 (\<lambda>(fi, ps) (fj, ti). fj = fi \<and> term_at DF DP fi ps ti \<and> deleted_ok dv ps) terms tis"
    using segment_written [of skipInterval floorLog docCount maxSkipLevels dv terms hasProx] assms(1-4) by blast
  obtain ti where ti: "tis ! i = (fi, ti)" "term_at DF DP fi ps ti" "deleted_ok dv ps"
    using list_all2_nthD [OF w(2) assms(5)] assms(6) by (auto split: prod.splits)
  have nth: "nth_term tis i = Some (fi, ti)" using assms(5) list_all2_lengthD [OF w(2)] ti(1) by (simp add: nth_term_def)
  obtain t where t: "td_seek fs_seek (Some ti) (Some fi) (newSegmentTermDocs (open_file n DF) dv) = Inr t"
    "seg_in.td_at (2 ^ 31 - 1) DF (fi_omitTermFreqAndPositions fi) 0 ps t" "td_deletedDocs t = dv"
    using seg_in.seek_docs [OF file_opened [OF assms(7,8)] _ ti(2)] by blast
  have "docs_from 0 ps" using ti(2) by (intro postings_docs [of fi]) (simp add: term_at_def)
  from seg_in.blocks_ok [OF t(2) this ti(3) t(3)] w(1) t(1) nth show ?thesis by auto
qed

text \<open>A segment with a field with payloads, one without frequencies, and the document 3 deleted.\<close>

definition example_terms :: "(field_info \<times> posting list) list" where
  "example_terms =
     [(\<lparr>fi_omitTermFreqAndPositions = False, fi_storePayloads = True\<rparr>, [(2, [(0, [7]), (5, [7, 8])]), (3, [(1, [])]), (9, [(4, [1])])]),
      (\<lparr>fi_omitTermFreqAndPositions = True, fi_storePayloads = False\<rparr>, [(1, []), (3, []), (4, [])])]"

lemma example_deleted: "\<exists>v. segment_ok (Some v) example_terms \<and> deleted_docs (Some v) = {3}"
proof -
  obtain v where v: "bv_ok v" "bv_size v = 20" "bv_docs (bv_bits v) = {}" using newBitVector_ok [of 20] by auto
  from bv_set_step [OF v(1), of 3] v(2,3) obtain w where "bv_ok w" "bv_size w = 20" "bv_docs (bv_bits w) = {3}" by auto
  then show ?thesis
    by (intro exI [of _ w]) (auto simp: segment_ok_def deleted_ok_def deleted_docs_def example_terms_def postings_ok_def positions_ok_def)
qed

theorem segment_positions_witness:
  "\<exists>v tis DF DP. seg_write True (\<lambda>_ _. 0) 2 10 20 example_terms = Inr (tis, DF, DP) \<and>
    tp_run (fs_readByte (2 ^ 31 - 1)) fs_seek (fs_readByte (2 ^ 31 - 1)) (fs_readBytes (2 ^ 31 - 1)) fs_seek fs_getFilePointer (open_file 4 DP) tis
      [SeekTerm 1, Op NextDoc, Op NextPosition, SeekTerm 0, Op NextDoc, Op NextPosition, Op NextDoc, Op NextPosition, Op LoadPayload, Op LoadPayload]
      (newSegmentTermPositions (open_file 4 DF) (Some v)) =
    [Inr (ODoc 1 1), Inr (OPosition 0 False), Inr (ODoc 2 2), Inr (OPosition 0 True), Inr (ODoc 9 1), Inr (OPosition 4 True), Inr (OPayload [1]),
     Inl IOException]"
proof -
  obtain v where v: "segment_ok (Some v) example_terms" "deleted_docs (Some v) = {3}" using example_deleted by blast
  let ?ops = "[SeekTerm 1, Op NextDoc, Op NextPosition, SeekTerm 0, Op NextDoc, Op NextPosition, Op NextDoc, Op NextPosition, Op LoadPayload, Op LoadPayload]"
  have ok: "ref_ok example_terms (Some v) ?ops (no_field, [], [], None)"
    and run: "ref_run example_terms (Some v) ?ops (no_field, [], [], None) =
      [Inr (ODoc 1 1), Inr (OPosition 0 False), Inr (ODoc 2 2), Inr (OPosition 0 True), Inr (ODoc 9 1), Inr (OPosition 4 True), Inr (OPayload [1]), Inl IOException]"
    using v(2) by (simp_all add: example_terms_def ref_seek_def nth_term_def ref_valid_def ref_step_def alive_def freq_of_def)
  have p: "0 < (2 :: nat)" "0 \<le> (10 :: nat)" "0 < (4 :: nat)" "(4 :: nat) < 2 ^ 31" "prox_ok True example_terms" by (simp_all add: prox_ok_def)
  from segment_positions [where floorLog = "\<lambda>_ _. 0" and docCount = 20 and skipInterval = 2 and maxSkipLevels = 10, OF p(1,2) v(1) p(5) ok p(3,4)] show ?thesis unfolding run by blast
qed

theorem segment_blocks_witness:
  "\<exists>v tis DF DP t. seg_write True (\<lambda>_ _. 0) 2 10 20 example_terms = Inr (tis, DF, DP) \<and>
    td_seek fs_seek (map_option snd (nth_term tis 0)) (Some (fst (example_terms ! 0))) (newSegmentTermDocs (open_file 4 DF) (Some v)) = Inr t \<and>
    td_blocks (fs_readByte (2 ^ 31 - 1)) [1, 0, 5] t = Inr [[(2, 2)], [], [(9, 1)]]"
proof -
  obtain v where v: "segment_ok (Some v) example_terms" "deleted_docs (Some v) = {3}" using example_deleted by blast
  have i: "0 < length example_terms" "example_terms ! 0 = (fst (example_terms ! 0), snd (example_terms ! 0))" by (simp_all add: example_terms_def)
  have p: "0 < (2 :: nat)" "0 \<le> (10 :: nat)" "0 < (4 :: nat)" "(4 :: nat) < 2 ^ 31" "prox_ok True example_terms" by (simp_all add: prox_ok_def)
  have "blocks_of [1, 0, 5] (doc_freqs (fi_omitTermFreqAndPositions (fst (example_terms ! 0))) (living (Some v) (snd (example_terms ! 0)))) =
      [[(2, 2)], [], [(9, 1)]]"
    using v(2) by (simp add: example_terms_def doc_freqs_def living_def freq_of_def)
  with segment_blocks [where floorLog = "\<lambda>_ _. 0" and docCount = 20 and skipInterval = 2 and maxSkipLevels = 10, OF p(1,2) v(1) p(5) i p(3,4), of "[1, 0, 5]"] show ?thesis by metis
qed

end
