(* ===== verification/FieldInfos.thy ===== *)
theory FieldInfos imports PostingsReader begin

text \<open>
  The fields of a segment: \<^verbatim>\<open>index/FieldInfo.cpp\<close> and \<^verbatim>\<open>index/FieldInfos.cpp\<close>. A field is a shared
  object that both \<^verbatim>\<open>byNumber\<close> and \<^verbatim>\<open>byName\<close> point to; here \<^verbatim>\<open>byNumber\<close> holds it, and the map
  gives where in \<^verbatim>\<open>byNumber\<close> it is.
\<close>

subsection \<open>Fields\<close>

record field_flags =
  ff_isIndexed :: bool
  ff_storeTermVector :: bool
  ff_storePositionWithTermVector :: bool
  ff_storeOffsetWithTermVector :: bool
  ff_omitNorms :: bool
  ff_storePayloads :: bool
  ff_omitTermFreqAndPositions :: bool

record field_desc =
  fd_name :: "uchar list"
  fd_number :: nat
  fd_flags :: field_flags

text \<open>The constructor leaves the defaults to a field that is not indexed.\<close>

definition not_indexed :: field_flags where
  "not_indexed = \<lparr>ff_isIndexed = False, ff_storeTermVector = False, ff_storePositionWithTermVector = False, ff_storeOffsetWithTermVector = False,
     ff_omitNorms = True, ff_storePayloads = False, ff_omitTermFreqAndPositions = False\<rparr>"

definition newFieldInfo :: "uchar list \<Rightarrow> nat \<Rightarrow> field_flags \<Rightarrow> field_desc" where
  "newFieldInfo name number fl = \<lparr>fd_name = name, fd_number = number, fd_flags = (if ff_isIndexed fl then fl else not_indexed)\<rparr>"

definition ff_update :: "field_flags \<Rightarrow> field_flags \<Rightarrow> field_flags" where
  "ff_update new old =
     (let f = (if ff_isIndexed old \<noteq> ff_isIndexed new then old\<lparr>ff_isIndexed := True\<rparr> else old)
      in if \<not> ff_isIndexed new then f
         else
           let f = (if ff_storeTermVector f \<noteq> ff_storeTermVector new then f\<lparr>ff_storeTermVector := True\<rparr> else f);
               f = (if ff_storePositionWithTermVector f \<noteq> ff_storePositionWithTermVector new then f\<lparr>ff_storePositionWithTermVector := True\<rparr> else f);
               f = (if ff_storeOffsetWithTermVector f \<noteq> ff_storeOffsetWithTermVector new then f\<lparr>ff_storeOffsetWithTermVector := True\<rparr> else f);
               f = (if ff_storePayloads f \<noteq> ff_storePayloads new then f\<lparr>ff_storePayloads := True\<rparr> else f);
               f = (if ff_omitNorms f \<noteq> ff_omitNorms new then f\<lparr>ff_omitNorms := False\<rparr> else f)
           in if ff_omitTermFreqAndPositions f \<noteq> ff_omitTermFreqAndPositions new then f\<lparr>ff_omitTermFreqAndPositions := True\<rparr> else f)"

definition fd_update :: "field_flags \<Rightarrow> field_desc \<Rightarrow> field_desc" where
  "fd_update fl d = d\<lparr>fd_flags := ff_update fl (fd_flags d)\<rparr>"

text \<open>What the writers of postings use of a field.\<close>

definition fd_postings :: "field_desc \<Rightarrow> field_info" where
  "fd_postings d = \<lparr>fi_omitTermFreqAndPositions = ff_omitTermFreqAndPositions (fd_flags d), fi_storePayloads = ff_storePayloads (fd_flags d)\<rparr>"

subsection \<open>The fields of a segment\<close>

record field_infos =
  fis_byNumber :: "field_desc list"
  fis_byName :: "uchar list \<rightharpoonup> nat"

definition newFieldInfos :: field_infos where
  "newFieldInfos = \<lparr>fis_byNumber = [], fis_byName = Map.empty\<rparr>"

definition fis_addInternal :: "uchar list \<Rightarrow> field_flags \<Rightarrow> field_infos \<Rightarrow> field_infos" where
  "fis_addInternal name fl fis =
     (let n = length (fis_byNumber fis) in fis\<lparr>fis_byNumber := fis_byNumber fis @ [newFieldInfo name n fl], fis_byName := (fis_byName fis)(name \<mapsto> n)\<rparr>)"

definition fis_add :: "uchar list \<Rightarrow> field_flags \<Rightarrow> field_infos \<Rightarrow> field_infos" where
  "fis_add name fl fis =
     (case fis_byName fis name of None \<Rightarrow> fis_addInternal name fl fis
      | Some i \<Rightarrow> fis\<lparr>fis_byNumber := (fis_byNumber fis)[i := fd_update fl (fis_byNumber fis ! i)]\<rparr>)"

text \<open>\<^verbatim>\<open>add\<close> of a document, over the names and the flags of its fields; a field of a document stores no
  payloads.\<close>

definition fis_addDocument :: "(uchar list \<times> field_flags) list \<Rightarrow> field_infos \<Rightarrow> field_infos" where
  "fis_addDocument doc fis = fold (\<lambda>(name, fl). fis_add name (fl\<lparr>ff_storePayloads := False\<rparr>)) doc fis"

definition fis_hasProx :: "field_infos \<Rightarrow> bool" where
  "fis_hasProx fis \<longleftrightarrow> list_ex (\<lambda>d. ff_isIndexed (fd_flags d) \<and> \<not> ff_omitTermFreqAndPositions (fd_flags d)) (fis_byNumber fis)"

definition fis_hasVectors :: "field_infos \<Rightarrow> bool" where
  "fis_hasVectors fis \<longleftrightarrow> list_ex (\<lambda>d. ff_storeTermVector (fd_flags d)) (fis_byNumber fis)"

definition fis_fieldInfo :: "field_infos \<Rightarrow> uchar list \<Rightarrow> field_desc option" where
  "fis_fieldInfo fis name = map_option (\<lambda>i. fis_byNumber fis ! i) (fis_byName fis name)"

definition fis_fieldNumber :: "field_infos \<Rightarrow> uchar list \<Rightarrow> int" where
  "fis_fieldNumber fis f = (case fis_fieldInfo fis f of None \<Rightarrow> -1 | Some d \<Rightarrow> int (fd_number d))"

definition fis_fieldName :: "field_infos \<Rightarrow> int \<Rightarrow> uchar list" where
  "fis_fieldName fis n = (if 0 \<le> n \<and> n < int (length (fis_byNumber fis)) then fd_name (fis_byNumber fis ! nat n) else [])"

text \<open>\<^verbatim>\<open>clone\<close> makes every field anew.\<close>

definition fis_clone :: "field_infos \<Rightarrow> field_infos" where
  "fis_clone fis = fold (\<lambda>d c. c\<lparr>fis_byNumber := fis_byNumber c @ [newFieldInfo (fd_name d) (fd_number d) (fd_flags d)],
     fis_byName := (fis_byName c)(fd_name d \<mapsto> length (fis_byNumber c))\<rparr>) (fis_byNumber fis) newFieldInfos"

subsection \<open>The file\<close>

definition FORMAT_PRE :: int where "FORMAT_PRE = -1"
definition FORMAT_START :: int where "FORMAT_START = -2"

definition ff_bits :: "field_flags \<Rightarrow> byte" where
  "ff_bits fl =
     (if ff_isIndexed fl then 0x1 else 0) OR (if ff_storeTermVector fl then 0x2 else 0) OR (if ff_storePositionWithTermVector fl then 0x4 else 0) OR
     (if ff_storeOffsetWithTermVector fl then 0x8 else 0) OR (if ff_omitNorms fl then 0x10 else 0) OR (if ff_storePayloads fl then 0x20 else 0) OR
     (if ff_omitTermFreqAndPositions fl then 0x40 else 0)"

definition ff_of_bits :: "byte \<Rightarrow> field_flags" where
  "ff_of_bits b = \<lparr>ff_isIndexed = (b AND 0x1 \<noteq> 0), ff_storeTermVector = (b AND 0x2 \<noteq> 0), ff_storePositionWithTermVector = (b AND 0x4 \<noteq> 0),
     ff_storeOffsetWithTermVector = (b AND 0x8 \<noteq> 0), ff_omitNorms = (b AND 0x10 \<noteq> 0), ff_storePayloads = (b AND 0x20 \<noteq> 0),
     ff_omitTermFreqAndPositions = (b AND 0x40 \<noteq> 0)\<rparr>"

fun fis_writeFields :: "'o writer \<Rightarrow> (byte list \<Rightarrow> 'o \<Rightarrow> 'o result) \<Rightarrow> field_desc list \<Rightarrow> 'o \<Rightarrow> 'o result" where
  "fis_writeFields wb wbs [] s = Inr s"
| "fis_writeFields wb wbs (d # ds) s =
     bind_r (writeString wb wbs (fd_name d) s) (\<lambda>s. bind_r (wb (ff_bits (fd_flags d)) s) (\<lambda>s. fis_writeFields wb wbs ds s))"

definition fis_write :: "'o writer \<Rightarrow> (byte list \<Rightarrow> 'o \<Rightarrow> 'o result) \<Rightarrow> field_infos \<Rightarrow> 'o \<Rightarrow> 'o result" where
  "fis_write wb wbs fis s =
     bind_r (writeVInt wb (of_int FORMAT_START) s) (\<lambda>s. bind_r (writeVInt wb (of_nat (length (fis_byNumber fis))) s) (\<lambda>s.
       fis_writeFields wb wbs (fis_byNumber fis) s))"

fun fis_readFields :: "bool \<Rightarrow> 's reader \<Rightarrow> (nat \<Rightarrow> 's \<Rightarrow> (byte list \<times> 's) result) \<Rightarrow> nat \<Rightarrow> field_infos \<Rightarrow> 's \<Rightarrow> (field_infos \<times> 's) result" where
  "fis_readFields pre rb rbs 0 fis s = Inr (fis, s)"
| "fis_readFields pre rb rbs (Suc n) fis s =
     bind_r (readString pre rb rbs s) (\<lambda>(name, s). bind_r (rb s) (\<lambda>(b, s). fis_readFields pre rb rbs n (fis_addInternal name (ff_of_bits b) fis) s))"

text \<open>\<^verbatim>\<open>read\<close> behind the format and the size; \<open>len\<close> is the length of the file, \<open>tell\<close> the file pointer.\<close>

definition fis_readSize ::
  "bool \<Rightarrow> 's reader \<Rightarrow> (nat \<Rightarrow> 's \<Rightarrow> (byte list \<times> 's) result) \<Rightarrow> ('s \<Rightarrow> nat) \<Rightarrow> ('s \<Rightarrow> nat) \<Rightarrow> int \<Rightarrow> int \<Rightarrow> 's \<Rightarrow> (field_infos \<times> 's) result" where
  "fis_readSize pre rb rbs tell len format firstInt s =
     (if format \<noteq> FORMAT_PRE \<and> format \<noteq> FORMAT_START then Inl CorruptIndex
      else bind_r (if format = FORMAT_PRE then Inr (firstInt, s) else bind_r (readVInt rb s) (\<lambda>(n, s). Inr (sint n, s))) (\<lambda>(n, s).
           bind_r (fis_readFields pre rb rbs (nat n) newFieldInfos s) (\<lambda>(fis, s).
           if tell s \<noteq> len s then Inl CorruptIndex else Inr (fis, s))))"

definition fis_format :: "int \<Rightarrow> int" where
  "fis_format firstInt = (if firstInt < 0 then firstInt else FORMAT_PRE)"

definition fis_read ::
  "bool \<Rightarrow> 's reader \<Rightarrow> (nat \<Rightarrow> 's \<Rightarrow> (byte list \<times> 's) result) \<Rightarrow> ('s \<Rightarrow> nat) \<Rightarrow> ('s \<Rightarrow> nat) \<Rightarrow> 's \<Rightarrow> (field_infos \<times> 's) result" where
  "fis_read pre rb rbs tell len s =
     bind_r (readVInt rb s) (\<lambda>(firstInt, s). fis_readSize pre rb rbs tell len (fis_format (sint firstInt)) (sint firstInt) s)"

text \<open>The constructor over a file: when reading an old file fails with an exception of input or output, of which
  \<^verbatim>\<open>CorruptIndexException\<close> and \<^verbatim>\<open>FileNotFoundException\<close> are kinds, it is read again with the old
  encoding of strings.\<close>

definition is_io :: "lucene_error \<Rightarrow> bool" where
  "is_io e \<longleftrightarrow> e \<in> {IOException, FileNotFound, CorruptIndex}"

definition openFieldInfos ::
  "'s reader \<Rightarrow> (nat \<Rightarrow> 's \<Rightarrow> (byte list \<times> 's) result) \<Rightarrow> (nat \<Rightarrow> 's \<Rightarrow> 's result) \<Rightarrow> ('s \<Rightarrow> nat) \<Rightarrow> ('s \<Rightarrow> nat) \<Rightarrow> 's \<Rightarrow> field_infos result" where
  "openFieldInfos rb rbs sk tell len s =
     bind_r (readVInt rb s) (\<lambda>(firstInt, s1).
       case fis_readSize False rb rbs tell len (fis_format (sint firstInt)) (sint firstInt) s1 of
         Inr (fis, _) \<Rightarrow> Inr fis
       | Inl e \<Rightarrow>
           if is_io e \<and> fis_format (sint firstInt) = FORMAT_PRE then
             bind_r (sk 0 s1) (\<lambda>s. case fis_read True rb rbs tell len s of Inl _ \<Rightarrow> Inl e | Inr (fis, _) \<Rightarrow> Inr fis)
           else Inl e)"

subsection \<open>Merging the flags\<close>

definition ff_valid :: "field_flags \<Rightarrow> bool" where
  "ff_valid fl \<longleftrightarrow> ff_isIndexed fl \<or> fl = not_indexed"

definition fis_ok :: "field_infos \<Rightarrow> bool" where
  "fis_ok fis \<longleftrightarrow> (\<forall>f i. fis_byName fis f = Some i \<longleftrightarrow> i < length (fis_byNumber fis) \<and> fd_name (fis_byNumber fis ! i) = f) \<and>
     (\<forall>i<length (fis_byNumber fis). fd_number (fis_byNumber fis ! i) = i \<and> ff_valid (fd_flags (fis_byNumber fis ! i)))"

abbreviation fis_names :: "field_infos \<Rightarrow> uchar list list" where
  "fis_names fis \<equiv> map fd_name (fis_byNumber fis)"

text \<open>What a field has after it was added with all these flags.\<close>

definition ff_merge :: "field_flags list \<Rightarrow> field_flags" where
  "ff_merge fls = (let ix = filter ff_isIndexed fls in
     \<lparr>ff_isIndexed = (ix \<noteq> []), ff_storeTermVector = list_ex ff_storeTermVector ix,
      ff_storePositionWithTermVector = list_ex ff_storePositionWithTermVector ix, ff_storeOffsetWithTermVector = list_ex ff_storeOffsetWithTermVector ix,
      ff_omitNorms = list_all ff_omitNorms ix, ff_storePayloads = list_ex ff_storePayloads ix,
      ff_omitTermFreqAndPositions = list_ex ff_omitTermFreqAndPositions ix\<rparr>)"

lemma ff_once:
  "(if ff_isIndexed f \<noteq> b then f\<lparr>ff_isIndexed := True\<rparr> else f) = f\<lparr>ff_isIndexed := ff_isIndexed f \<or> b\<rparr>"
  "(if ff_storeTermVector f \<noteq> b then f\<lparr>ff_storeTermVector := True\<rparr> else f) = f\<lparr>ff_storeTermVector := ff_storeTermVector f \<or> b\<rparr>"
  "(if ff_storePositionWithTermVector f \<noteq> b then f\<lparr>ff_storePositionWithTermVector := True\<rparr> else f) = f\<lparr>ff_storePositionWithTermVector := ff_storePositionWithTermVector f \<or> b\<rparr>"
  "(if ff_storeOffsetWithTermVector f \<noteq> b then f\<lparr>ff_storeOffsetWithTermVector := True\<rparr> else f) = f\<lparr>ff_storeOffsetWithTermVector := ff_storeOffsetWithTermVector f \<or> b\<rparr>"
  "(if ff_storePayloads f \<noteq> b then f\<lparr>ff_storePayloads := True\<rparr> else f) = f\<lparr>ff_storePayloads := ff_storePayloads f \<or> b\<rparr>"
  "(if ff_omitTermFreqAndPositions f \<noteq> b then f\<lparr>ff_omitTermFreqAndPositions := True\<rparr> else f) = f\<lparr>ff_omitTermFreqAndPositions := ff_omitTermFreqAndPositions f \<or> b\<rparr>"
  "(if ff_omitNorms f \<noteq> b then f\<lparr>ff_omitNorms := False\<rparr> else f) = f\<lparr>ff_omitNorms := ff_omitNorms f \<and> b\<rparr>"
  by (cases f; simp)+

lemma ff_update_eq:
  "ff_update new old = (if \<not> ff_isIndexed new then old else
     \<lparr>ff_isIndexed = True, ff_storeTermVector = (ff_storeTermVector old \<or> ff_storeTermVector new),
      ff_storePositionWithTermVector = (ff_storePositionWithTermVector old \<or> ff_storePositionWithTermVector new),
      ff_storeOffsetWithTermVector = (ff_storeOffsetWithTermVector old \<or> ff_storeOffsetWithTermVector new),
      ff_omitNorms = (ff_omitNorms old \<and> ff_omitNorms new), ff_storePayloads = (ff_storePayloads old \<or> ff_storePayloads new),
      ff_omitTermFreqAndPositions = (ff_omitTermFreqAndPositions old \<or> ff_omitTermFreqAndPositions new)\<rparr>)"
  unfolding ff_update_def Let_def ff_once by (cases old) simp

lemma ff_merge_one: "ff_merge [fl] = (if ff_isIndexed fl then fl else not_indexed)"
  by (cases fl) (simp add: ff_merge_def not_indexed_def Let_def)

lemma ff_merge_snoc: "ff_merge (fls @ [fl]) = ff_update fl (ff_merge fls)"
  by (cases "ff_isIndexed fl") (simp_all add: ff_merge_def ff_update_eq Let_def)

lemma ff_merge_valid: "ff_valid (ff_merge fls)"
  by (auto simp: ff_valid_def ff_merge_def not_indexed_def Let_def filter_empty_conv)

lemma new_fis_ok: "fis_ok newFieldInfos"
  by (simp add: fis_ok_def newFieldInfos_def)

lemma fis_ok_name: "fis_ok fis \<Longrightarrow> fis_byName fis f = None \<longleftrightarrow> f \<notin> set (fis_names fis)"
proof -
  assume ok: "fis_ok fis"
  have "f \<in> set (fis_names fis) \<longleftrightarrow> (\<exists>i<length (fis_byNumber fis). fd_name (fis_byNumber fis ! i) = f)" by (metis in_set_conv_nth length_map nth_map)
  also have "\<dots> \<longleftrightarrow> (\<exists>i. fis_byName fis f = Some i)" using ok by (simp add: fis_ok_def)
  finally show ?thesis by auto
qed

lemma fis_ok_distinct: "fis_ok fis \<Longrightarrow> distinct (fis_names fis)"
  unfolding distinct_conv_nth fis_ok_def by (metis (no_types, lifting) length_map nth_map option.inject)

lemma ff_update_valid: "ff_valid old \<Longrightarrow> ff_valid (ff_update new old)"
  by (simp add: ff_valid_def ff_update_eq)

lemma fis_addInternal_ok:
  assumes "fis_ok fis" "name \<notin> set (fis_names fis)"
  shows "fis_ok (fis_addInternal name fl fis)"
proof -
  have "fis_byName fis name = None" using fis_ok_name [OF assms(1)] assms(2) by simp
  moreover have "ff_valid (fd_flags (newFieldInfo name n fl))" for n by (simp add: newFieldInfo_def ff_valid_def)
  moreover have "\<forall>i<length (fis_byNumber fis). fd_name (fis_byNumber fis ! i) \<noteq> name" using assms(2) by auto
  ultimately show ?thesis using assms(1)
    by (auto simp: fis_ok_def fis_addInternal_def Let_def nth_append newFieldInfo_def less_Suc_eq)
qed

lemma fis_add_ok: "fis_ok fis \<Longrightarrow> fis_ok (fis_add name fl fis)"
proof -
  assume ok: "fis_ok fis"
  show ?thesis
  proof (cases "fis_byName fis name")
    case None
    then show ?thesis using fis_addInternal_ok [OF ok, of name fl] fis_ok_name [OF ok, of name] by (simp add: fis_add_def)
  next
    case (Some i)
    then have i: "i < length (fis_byNumber fis)" using ok by (simp add: fis_ok_def)
    have e: "fis_add name fl fis = fis\<lparr>fis_byNumber := (fis_byNumber fis)[i := fd_update fl (fis_byNumber fis ! i)]\<rparr>" using Some by (simp add: fis_add_def)
    have "ff_valid (fd_flags (fd_update fl (fis_byNumber fis ! i)))" using ok i ff_update_valid by (simp add: fis_ok_def fd_update_def)
    moreover have "fd_name (fd_update fl d) = fd_name d" "fd_number (fd_update fl d) = fd_number d" for d by (simp_all add: fd_update_def)
    ultimately show ?thesis using i ok unfolding e by (simp add: fis_ok_def nth_list_update)
  qed
qed

text \<open>The reference: the names in the order in which they came first, each with the merge of all its flags.\<close>

definition first_names :: "(uchar list \<times> field_flags) list \<Rightarrow> uchar list list" where
  "first_names adds = rev (remdups (rev (map fst adds)))"

definition flags_for :: "(uchar list \<times> field_flags) list \<Rightarrow> uchar list \<Rightarrow> field_flags" where
  "flags_for adds name = ff_merge (map snd (filter (\<lambda>a. fst a = name) adds))"

abbreviation fis_added :: "(uchar list \<times> field_flags) list \<Rightarrow> field_infos" where
  "fis_added adds \<equiv> fold (\<lambda>(name, fl). fis_add name fl) adds newFieldInfos"

lemma fis_added_step:
  assumes ok: "fis_ok fis" and names: "fis_names fis = first_names adds" and flags: "map (fd_flags) (fis_byNumber fis) = map (flags_for adds) (first_names adds)"
  shows "fis_names (fis_add name fl fis) = first_names (adds @ [(name, fl)]) \<and>
    map fd_flags (fis_byNumber (fis_add name fl fis)) = map (flags_for (adds @ [(name, fl)])) (first_names (adds @ [(name, fl)]))"
proof (cases "name \<in> set (first_names adds)")
  case False
  have other: "flags_for (adds @ [(name, fl)]) n = flags_for adds n" if "n \<in> set (first_names adds)" for n
    using that False by (auto simp: flags_for_def)
  have none: "fis_byName fis name = None" using fis_ok_name [OF ok] names False by simp
  have fn: "first_names (adds @ [(name, fl)]) = first_names adds @ [name]" using False by (simp add: first_names_def)
  have "filter (\<lambda>a. fst a = name) adds = []" using False by (auto simp: filter_empty_conv first_names_def)
  then have "flags_for (adds @ [(name, fl)]) name = (if ff_isIndexed fl then fl else not_indexed)" by (simp add: flags_for_def ff_merge_one)
  then show ?thesis using none names flags other unfolding fn by (simp add: fis_add_def fis_addInternal_def Let_def newFieldInfo_def)
next
  case True
  have fn: "first_names (adds @ [(name, fl)]) = first_names adds" using True by (simp add: first_names_def)
  have "fis_byName fis name \<noteq> None" using fis_ok_name [OF ok, of name] names True by simp
  then obtain i where i: "fis_byName fis name = Some i" by blast
  then have l: "i < length (fis_byNumber fis)" "fd_name (fis_byNumber fis ! i) = name" using ok by (simp_all add: fis_ok_def)
  have n: "fis_names (fis_add name fl fis) = fis_names fis" using i l by (simp add: fis_add_def map_update fd_update_def list_update_same_conv)
  have len: "length (first_names adds) = length (fis_byNumber fis)" by (metis length_map names)
  have at: "first_names adds ! j = fd_name (fis_byNumber fis ! j)" "flags_for adds (fd_name (fis_byNumber fis ! j)) = fd_flags (fis_byNumber fis ! j)"
    if "j < length (fis_byNumber fis)" for j
  proof -
    show a: "first_names adds ! j = fd_name (fis_byNumber fis ! j)" using that names by (metis nth_map)
    show "flags_for adds (fd_name (fis_byNumber fis ! j)) = fd_flags (fis_byNumber fis ! j)"
      using arg_cong [OF flags, of "\<lambda>xs. xs ! j"] that len a by simp
  qed
  have "map fd_flags (fis_byNumber (fis_add name fl fis)) = map (flags_for (adds @ [(name, fl)])) (first_names adds)"
  proof (intro nth_equalityI)
    show "length (map fd_flags (fis_byNumber (fis_add name fl fis))) = length (map (flags_for (adds @ [(name, fl)])) (first_names adds))"
      using i len by (simp add: fis_add_def)
  next
    fix j assume "j < length (map fd_flags (fis_byNumber (fis_add name fl fis)))"
    then have j: "j < length (fis_byNumber fis)" using i by (simp add: fis_add_def)
    show "map fd_flags (fis_byNumber (fis_add name fl fis)) ! j = map (flags_for (adds @ [(name, fl)])) (first_names adds) ! j"
    proof (cases "j = i")
      case True
      then show ?thesis using i j l at [OF j] len ff_merge_snoc [of "map snd (filter (\<lambda>a. fst a = name) adds)" fl]
        by (simp add: fis_add_def fd_update_def flags_for_def)
    next
      case False
      then have "fd_name (fis_byNumber fis ! j) \<noteq> name" using fis_ok_distinct [OF ok] j l by (auto simp: distinct_conv_nth)
      then show ?thesis using False i j at [OF j] len by (simp add: fis_add_def flags_for_def)
    qed
  qed
  then show ?thesis using n names fn by simp
qed

lemma added_fields:
  "fis_ok (fis_added adds) \<and> fis_names (fis_added adds) = first_names adds \<and>
   map fd_flags (fis_byNumber (fis_added adds)) = map (flags_for adds) (first_names adds)"
proof (induction adds rule: rev_induct)
  case Nil
  show ?case using new_fis_ok by (simp add: first_names_def newFieldInfos_def)
next
  case (snoc a adds)
  obtain name fl where "a = (name, fl)" by (cases a)
  with snoc fis_added_step [of "fis_added adds" adds name fl] fis_add_ok [of "fis_added adds" name fl] show ?case by simp
qed

text \<open>
  C40. Fields added in any order and as often as documents have them are numbered in the order of their first
  occurrence, and each has the flags of all its additions: it is indexed once one
  addition is, stores what one indexed addition stores, and omits the norms only if all of
  these do; the two ways to look a field up agree.
\<close>

theorem fields_merged:
  "fis_ok (fis_added adds) \<and> fis_names (fis_added adds) = first_names adds \<and>
   map fd_number (fis_byNumber (fis_added adds)) = [0..<length (first_names adds)] \<and>
   map fd_flags (fis_byNumber (fis_added adds)) = map (flags_for adds) (first_names adds)"
proof -
  have "map fd_number (fis_byNumber fis) = [0..<length (fis_names fis)]" if "fis_ok fis" for fis
    using that by (intro nth_equalityI) (simp_all add: fis_ok_def)
  then show ?thesis using added_fields by metis
qed

subsection \<open>Writing and reading the file\<close>

lemma ff_bits_inverse: "ff_of_bits (ff_bits fl) = fl"
proof -
  have bits: "ff_of_bits (ff_bits fl) = \<lparr>ff_isIndexed = bit (ff_bits fl) 0, ff_storeTermVector = bit (ff_bits fl) 1,
     ff_storePositionWithTermVector = bit (ff_bits fl) 2, ff_storeOffsetWithTermVector = bit (ff_bits fl) 3, ff_omitNorms = bit (ff_bits fl) 4,
     ff_storePayloads = bit (ff_bits fl) 5, ff_omitTermFreqAndPositions = bit (ff_bits fl) 6\<rparr>"
    unfolding ff_of_bits_def bit_iff_and_push_bit_not_eq_0 by simp
  show ?thesis unfolding bits by (cases fl) (simp add: ff_bits_def bit_simps)
qed

definition field_wire :: "field_desc \<Rightarrow> byte list" where
  "field_wire d = string_wire (fd_name d) @ [ff_bits (fd_flags d)]"

definition fis_wire :: "field_infos \<Rightarrow> byte list" where
  "fis_wire fis = nat_wire (unat (of_int FORMAT_START :: int32)) @ nat_wire (length (fis_byNumber fis)) @ concat (map field_wire (fis_byNumber fis))"

definition fis_writable :: "field_infos \<Rightarrow> bool" where
  "fis_writable fis \<longleftrightarrow> length (fis_byNumber fis) < 2 ^ 31 \<and> (\<forall>d\<in>set (fis_byNumber fis). string_ok (fd_name d))"

context bulk_sink begin

lemma puts_fields: "\<forall>d\<in>set ds. string_ok (fd_name d) \<Longrightarrow> puts (fis_writeFields wb wbs ds) (concat (map field_wire ds))"
proof (induction ds)
  case Nil
  have "fis_writeFields wb wbs [] = Inr" by (intro ext) simp
  then show ?case using puts_return by simp
next
  case (Cons d ds)
  have "puts (\<lambda>s. bind_r (writeString wb wbs (fd_name d) s) (\<lambda>s. bind_r (wb (ff_bits (fd_flags d)) s) (\<lambda>s. fis_writeFields wb wbs ds s)))
      (string_wire (fd_name d) @ [ff_bits (fd_flags d)] @ concat (map field_wire ds))"
    using Cons by (intro puts_bind puts_string puts_byte) simp_all
  moreover have "fis_writeFields wb wbs (d # ds) = (\<lambda>s. bind_r (writeString wb wbs (fd_name d) s) (\<lambda>s. bind_r (wb (ff_bits (fd_flags d)) s) (\<lambda>s. fis_writeFields wb wbs ds s)))"
    by (intro ext) simp
  ultimately show ?case unfolding list.map concat.simps field_wire_def [of d] append_assoc by (rule ssubst [rotated])
qed

lemma puts_fis:
  assumes "fis_writable fis"
  shows "puts (fis_write wb wbs fis) (fis_wire fis)"
proof -
  let ?n = "length (fis_byNumber fis)"
  have n: "unat (of_nat ?n :: int32) = ?n" using assms by (intro unat_of_nat_below) (simp add: fis_writable_def)
  have "puts (\<lambda>s. bind_r (writeVInt wb (of_int FORMAT_START) s) (\<lambda>s. bind_r (writeVInt wb (of_nat ?n) s) (\<lambda>s. fis_writeFields wb wbs (fis_byNumber fis) s)))
      (nat_wire (unat (of_int FORMAT_START :: int32)) @ nat_wire (unat (of_nat ?n :: int32)) @ concat (map field_wire (fis_byNumber fis)))"
    using assms by (intro puts_bind puts_vint puts_fields) (simp add: fis_writable_def)
  then show ?thesis unfolding n fis_wire_def fis_write_def [abs_def] .
qed

end

definition fis_append :: "field_desc list \<Rightarrow> field_infos \<Rightarrow> field_infos" where
  "fis_append ds fis = fold (\<lambda>d. fis_addInternal (fd_name d) (fd_flags d)) ds fis"

lemma fis_append_all:
  assumes "fis_ok fis" "k \<le> length (fis_byNumber fis)"
  shows "fis_append (take k (fis_byNumber fis)) newFieldInfos =
    \<lparr>fis_byNumber = take k (fis_byNumber fis), fis_byName = (\<lambda>f. case fis_byName fis f of None \<Rightarrow> None | Some i \<Rightarrow> if i < k then Some i else None)\<rparr>"
  using assms(2)
proof (induction k)
  case 0
  show ?case by (auto simp: fis_append_def newFieldInfos_def split: option.splits)
next
  case (Suc k)
  let ?d = "fis_byNumber fis ! k"
  have k: "k < length (fis_byNumber fis)" using Suc.prems by simp
  then have d: "fd_number ?d = k" "ff_valid (fd_flags ?d)" "fis_byName fis (fd_name ?d) = Some k" using assms(1) by (auto simp: fis_ok_def)
  have new: "newFieldInfo (fd_name ?d) k (fd_flags ?d) = ?d" using d(1,2) by (cases ?d) (auto simp: newFieldInfo_def ff_valid_def not_indexed_def)
  have t: "take (Suc k) (fis_byNumber fis) = take k (fis_byNumber fis) @ [?d]" using k by (simp add: take_Suc_conv_app_nth)
  have l: "length (take k (fis_byNumber fis)) = k" using k by simp
  have "(\<lambda>f. case fis_byName fis f of None \<Rightarrow> None | Some i \<Rightarrow> if i < k then Some i else None)(fd_name ?d \<mapsto> k) =
      (\<lambda>f. case fis_byName fis f of None \<Rightarrow> None | Some i \<Rightarrow> if i < Suc k then Some i else None)"
  proof
    fix f
    have "fis_byName fis f = Some k \<longleftrightarrow> f = fd_name ?d" using assms(1) k by (auto simp: fis_ok_def)
    then show "((\<lambda>f. case fis_byName fis f of None \<Rightarrow> None | Some i \<Rightarrow> if i < k then Some i else None)(fd_name ?d \<mapsto> k)) f =
      (case fis_byName fis f of None \<Rightarrow> None | Some i \<Rightarrow> if i < Suc k then Some i else None)" using d(3) by (auto split: option.splits)
  qed
  then show ?case using Suc.IH k l new unfolding t fis_append_def fold_append by (simp add: fis_addInternal_def Let_def)
qed

lemma fis_append_same: "fis_ok fis \<Longrightarrow> fis_append (fis_byNumber fis) newFieldInfos = fis"
proof -
  assume ok: "fis_ok fis"
  have "(\<lambda>f. case fis_byName fis f of None \<Rightarrow> None | Some i \<Rightarrow> if i < length (fis_byNumber fis) then Some i else None) = fis_byName fis"
  proof
    fix f
    have "fis_byName fis f = Some i \<Longrightarrow> i < length (fis_byNumber fis)" for i using ok by (simp add: fis_ok_def)
    then show "(case fis_byName fis f of None \<Rightarrow> None | Some i \<Rightarrow> if i < length (fis_byNumber fis) then Some i else None) = fis_byName fis f"
      by (cases "fis_byName fis f") simp_all
  qed
  then show ?thesis using fis_append_all [OF ok, of "length (fis_byNumber fis)"] by simp
qed

lemma fis_clone_same: "fis_ok fis \<Longrightarrow> fis_clone fis = fis"
proof -
  assume ok: "fis_ok fis"
  define f where "f = (\<lambda>(d :: field_desc) (c :: field_infos). c\<lparr>fis_byNumber := fis_byNumber c @ [newFieldInfo (fd_name d) (fd_number d) (fd_flags d)],
     fis_byName := (fis_byName c)(fd_name d \<mapsto> length (fis_byNumber c))\<rparr>)"
  define g where "g = (\<lambda>d :: field_desc. fis_addInternal (fd_name d) (fd_flags d))"
  have "k \<le> length (fis_byNumber fis) \<Longrightarrow> fold f (take k (fis_byNumber fis)) newFieldInfos = fold g (take k (fis_byNumber fis)) newFieldInfos" for k
  proof (induction k)
    case (Suc k)
    then have k: "k < length (fis_byNumber fis)" by simp
    have "length (fis_byNumber (fold g (take k (fis_byNumber fis)) newFieldInfos)) = k"
      using fis_append_all [OF ok less_imp_le [OF k]] k by (simp add: fis_append_def flip: g_def)
    moreover have "fd_number (fis_byNumber fis ! k) = k" using ok k by (simp add: fis_ok_def)
    ultimately have "f (fis_byNumber fis ! k) (fold g (take k (fis_byNumber fis)) newFieldInfos) = g (fis_byNumber fis ! k) (fold g (take k (fis_byNumber fis)) newFieldInfos)"
      by (simp add: f_def g_def fis_addInternal_def Let_def)
    then show ?case using Suc k by (simp add: take_Suc_conv_app_nth)
  qed simp
  from this [of "length (fis_byNumber fis)"] show ?thesis using fis_append_same [OF ok] by (simp add: fis_clone_def fis_append_def f_def g_def)
qed

context in_stream begin

lemma reads_byte: "reads rb [b] b"
  by (rule readsI) (rule byte_source.gets_byte)

lemma reads_string:
  assumes s: "string_ok s"
  shows "reads (readString False rb rbs) (string_wire s) s"
proof -
  let ?b = "utf8_bytes s"
  note l = string_length [OF s]
  have len: "length ?b < 2 ^ 31" using s length_utf8_bytes(2) [of s] by (simp add: string_ok_def)
  have u: "toUnicode ?b = Inr s" using s by (simp add: string_ok_def toUnicode_text text_ok_def)
  have "reads (\<lambda>t. bind_r (toUnicode ?b) (\<lambda>text. Inr (text, t))) [] s" unfolding u using reads_return [of s] by simp
  from reads_bind [where g = "\<lambda>bs t. bind_r (toUnicode bs) (\<lambda>text. Inr (text, t))", OF reads_bytes [OF len] this]
  have "reads (\<lambda>t. bind_r (rbs (length ?b) t) (\<lambda>(bs, t). bind_r (toUnicode bs) (\<lambda>text. Inr (text, t)))) ?b s" by simp
  then have "reads (\<lambda>t. if sint (of_nat (length ?b) :: int32) < 0 then Inl OutOfRange
      else bind_r (rbs (nat (sint (of_nat (length ?b) :: int32))) t) (\<lambda>(bs, t). bind_r (toUnicode bs) (\<lambda>text. Inr (text, t)))) ?b s" unfolding l(2) by simp
  from reads_bind [where g = "\<lambda>n t. if sint n < 0 then Inl OutOfRange
      else bind_r (rbs (nat (sint n)) t) (\<lambda>(bs, t). bind_r (toUnicode bs) (\<lambda>text. Inr (text, t)))", OF reads_vint this]
  show ?thesis unfolding l(1) string_wire_def readString_def [abs_def] readString_new_def [abs_def] if_False .
qed

lemma reads_fields:
  "\<forall>d\<in>set ds. string_ok (fd_name d) \<Longrightarrow> reads (fis_readFields False rb rbs (length ds) fis) (concat (map field_wire ds)) (fis_append ds fis)"
proof (induction ds arbitrary: fis)
  case Nil
  have "fis_readFields False rb rbs (length []) fis = (\<lambda>s. Inr (fis, s))" by (intro ext) simp
  then show ?case using reads_return [of fis] by (simp add: fis_append_def)
next
  case (Cons d ds)
  let ?rest = "\<lambda>name (b :: byte). fis_readFields False rb rbs (length ds) (fis_addInternal name (ff_of_bits b) fis)"
  have "reads (?rest (fd_name d) (ff_bits (fd_flags d))) (concat (map field_wire ds)) (fis_append (d # ds) fis)"
    using Cons unfolding ff_bits_inverse by (simp add: fis_append_def)
  from reads_bind [where g = "?rest (fd_name d)", OF reads_byte this]
  have b: "reads (\<lambda>s. bind_r (rb s) (\<lambda>(b, s). ?rest (fd_name d) b s)) ([ff_bits (fd_flags d)] @ concat (map field_wire ds)) (fis_append (d # ds) fis)" .
  have "string_ok (fd_name d)" using Cons.prems by simp
  from reads_bind [where g = "\<lambda>name s. bind_r (rb s) (\<lambda>(b, s). ?rest name b s)", OF reads_string [OF this] b]
  have "reads (\<lambda>s. bind_r (readString False rb rbs s) (\<lambda>(name, s). bind_r (rb s) (\<lambda>(b, s). ?rest name b s))) (concat (map field_wire (d # ds))) (fis_append (d # ds) fis)"
    by (simp only: field_wire_def list.map concat.simps append_assoc)
  moreover have "fis_readFields False rb rbs (length (d # ds)) fis =
      (\<lambda>s. bind_r (readString False rb rbs s) (\<lambda>(name, s). bind_r (rb s) (\<lambda>(b, s). ?rest name b s)))" by (intro ext) simp
  ultimately show ?case by simp
qed

lemma open_fields:
  assumes fis: "fis_ok fis" "fis_writable fis" and s: "at (fis_wire fis) 0 s"
    and exact: "\<And>p s. at (fis_wire fis) p s \<Longrightarrow> tell s = p" "\<And>p s. at (fis_wire fis) p s \<Longrightarrow> len s = length (fis_wire fis)"
  shows "openFieldInfos rb rbs sk tell len s = Inr fis"
proof -
  let ?n = "length (fis_byNumber fis)" and ?D = "fis_wire fis"
  have n: "?n < 2 ^ 31" using fis(2) by (simp add: fis_writable_def)
  have f: "sint (of_int FORMAT_START :: int32) = FORMAT_START" by (simp add: FORMAT_START_def)
  have u: "unat (of_nat ?n :: int32) = ?n" "sint (of_nat ?n :: int32) = int ?n" using n sint_of_nat_small [of ?n] by (simp_all add: unat_of_nat_below)
  from readsD [OF reads_vint s, of "of_int FORMAT_START"] obtain s1 where s1: "readVInt rb s = Inr (of_int FORMAT_START, s1)"
    "at ?D (length (nat_wire (unat (of_int FORMAT_START :: int32)))) s1" by (auto simp: fis_wire_def)
  let ?a = "length (nat_wire (unat (of_int FORMAT_START :: int32)))"
  have d1: "drop ?a ?D = nat_wire (unat (of_nat ?n :: int32)) @ concat (map field_wire (fis_byNumber fis))" "?a \<le> length ?D" unfolding u by (simp_all add: fis_wire_def)
  from readsD [OF reads_vint s1(2) d1(2,1)] obtain s2 where s2: "readVInt rb s1 = Inr (of_nat ?n, s2)" "at ?D (?a + length (nat_wire ?n)) s2" unfolding u by blast
  have d2: "drop (?a + length (nat_wire ?n)) ?D = concat (map field_wire (fis_byNumber fis)) @ []" "?a + length (nat_wire ?n) \<le> length ?D" by (simp_all add: fis_wire_def)
  have "\<forall>d\<in>set (fis_byNumber fis). string_ok (fd_name d)" using fis(2) by (simp add: fis_writable_def)
  from readsD [OF reads_fields [OF this] s2(2) d2(2,1), of newFieldInfos] obtain s3 where
    s3: "fis_readFields False rb rbs ?n newFieldInfos s2 = Inr (fis, s3)" "at ?D (?a + length (nat_wire ?n) + length (concat (map field_wire (fis_byNumber fis)))) s3"
    unfolding fis_append_same [OF fis(1)] by blast
  have "tell s3 = len s3" using exact [OF s3(2)] by (simp add: fis_wire_def)
  then show ?thesis using s1(1) s2(1) s3(1) by (simp add: openFieldInfos_def fis_readSize_def fis_format_def f u(2) FORMAT_START_def FORMAT_PRE_def)
qed

end

subsection \<open>Exact file pointers\<close>

definition fs_length :: "buf_in \<times> in_file \<Rightarrow> nat" where
  "fs_length s = inf_length (snd s)"

definition fs_at :: "nat \<Rightarrow> byte list \<Rightarrow> nat \<Rightarrow> buf_in \<times> in_file \<Rightarrow> bool" where
  "fs_at chunk D p s \<longleftrightarrow> stream_at chunk D p s \<and> fs_getFilePointer s = p"

lemma next_pointer: "bi_next s = Inr (b, t) \<Longrightarrow> fs_getFilePointer t = fs_getFilePointer s + 1"
  by (auto simp: bi_next_def fs_getFilePointer_def bi_getFilePointer_def bind_r_Inr_iff split: option.splits prod.splits)

lemma refill_pointer: "bi_refill len rdi ski s = Inr t \<Longrightarrow> fs_getFilePointer t = fs_getFilePointer s \<and> bi_position (fst t) = 0"
  for s :: "buf_in \<times> in_file"
  by (auto simp: bi_refill_def fs_getFilePointer_def bi_getFilePointer_def bind_r_Inr_iff Let_def split: option.splits prod.splits if_splits)

lemma readByte_pointer: "fs_readByte chunk s = Inr (b, t) \<Longrightarrow> fs_getFilePointer t = fs_getFilePointer s + 1"
  by (auto simp: bi_readByte_def bind_r_Inr_iff split: prod.splits if_splits dest!: next_pointer refill_pointer)

lemma readBytes_pointer: "fs_readBytes chunk n s = Inr (bs, t) \<Longrightarrow> bi_position (fst s) \<le> bi_length (fst s) \<Longrightarrow> fs_getFilePointer t = fs_getFilePointer s + n"
proof -
  assume r: "fs_readBytes chunk n s = Inr (bs, t)" and le: "bi_position (fst s) \<le> bi_length (fst s)"
  obtain b f where s: "s = (b, f)" by (cases s)
  show ?thesis
  proof (cases "n \<le> bi_length b - bi_position b")
    case True
    then have "int n \<le> int (bi_length b) - int (bi_position b)" using le s by simp
    then have "fst t = b\<lparr>bi_position := bi_position b + n\<rparr>" using r unfolding s bi_readBytes_def prod.case by (auto simp: bind_r_Inr_iff)
    then show ?thesis using s by (simp add: fs_getFilePointer_def bi_getFilePointer_def)
  next
    case False
    let ?a = "bi_length b - bi_position b"
    let ?b = "b\<lparr>bi_position := bi_position b + ?a\<rparr>"
    have p: "fs_getFilePointer (?b, f) = fs_getFilePointer s + ?a" unfolding s by (simp add: fs_getFilePointer_def bi_getFilePointer_def)
    have l: "\<not> int n \<le> int (bi_length b) - int (bi_position b)" using False le s by simp
    show ?thesis
    proof (cases "n - ?a < bi_bufferSize b")
      case True
      then obtain b' f' where "bi_refill inf_length (si_readInternal chunk) si_seekInternal (?b, f) = Inr (b', f')" "fst t = b'\<lparr>bi_position := n - ?a\<rparr>"
        using r l unfolding s bi_readBytes_def by (auto simp: bind_r_Inr_iff Let_def split: if_splits)
      then show ?thesis using refill_pointer [of inf_length "si_readInternal chunk" si_seekInternal "(?b, f)" "(b', f')"] False le s
        by (auto simp: fs_getFilePointer_def bi_getFilePointer_def)
    next
      case big: False
      then have "fst t = b\<lparr>bi_start := bi_start b + (bi_position b + ?a) + (n - ?a), bi_position := 0, bi_length := 0\<rparr>"
        using r l unfolding s bi_readBytes_def by (auto simp: bind_r_Inr_iff Let_def split: if_splits prod.splits)
      then show ?thesis using False le s by (simp add: fs_getFilePointer_def bi_getFilePointer_def)
    qed
  qed
qed

lemma seek_pointer: "fs_seek q s = Inr t \<Longrightarrow> fs_getFilePointer t = q"
  by (auto simp: fs_seek_def bi_seek_def fs_getFilePointer_def bi_getFilePointer_def split: prod.splits if_splits)

interpretation fs_exact: in_stream "fs_readByte chunk" "fs_readBytes chunk" fs_seek fs_getFilePointer "fs_at chunk" for chunk
proof
  fix D p n q and s :: "buf_in \<times> in_file"
  show "\<exists>t. fs_readByte chunk s = Inr (D ! p, t) \<and> fs_at chunk D (p + 1) t" if "fs_at chunk D p s" "p < length D"
    using that fs_stream.at_byte [of chunk D p s] readByte_pointer by (fastforce simp: fs_at_def)
  show "\<exists>t. fs_readBytes chunk n s = Inr (take n (drop p D), t) \<and> fs_at chunk D (p + n) t" if "fs_at chunk D p s" "p + n \<le> length D" "n < 2 ^ 31"
  proof -
    have "bi_position (fst s) \<le> bi_length (fst s)" using that(1) by (simp add: fs_at_def stream_at_def bi_ok_def)
    then show ?thesis using that fs_stream.at_bytes [of chunk D p s n] readBytes_pointer by (fastforce simp: fs_at_def)
  qed
  show "\<exists>t. fs_seek q s = Inr t \<and> fs_at chunk D q t" if "fs_at chunk D p s" "q \<le> length D"
    using that fs_stream.at_seek [of chunk D p s q] seek_pointer by (fastforce simp: fs_at_def)
qed (auto simp: fs_at_def dest: fs_stream.at_eof)

lemma fs_opened: "0 < n \<Longrightarrow> n < 2 ^ 31 \<Longrightarrow> fs_at (2 ^ 31 - 1) D 0 (open_file n D)"
  using file_opened [of n D] by (simp add: fs_at_def fs_getFilePointer_def bi_getFilePointer_def newBufferedIndexInput_def)

lemma fs_length_at: "fs_at chunk D p s \<Longrightarrow> fs_length s = length D"
  by (auto simp: fs_at_def stream_at_def si_ok_def fs_length_def)

text \<open>Everything together: add, write, flush, open.\<close>

definition fis_saved :: "field_infos \<Rightarrow> byte list result" where
  "fis_saved fis = bind_r (fis_write so_writeByte so_writeBytes fis newSimpleFSIndexOutput) (\<lambda>s. bind_r (so_flush s) (\<lambda>s. Inr (on_disk s)))"

definition fis_opened :: "nat \<Rightarrow> byte list \<Rightarrow> field_infos result" where
  "fis_opened n D = openFieldInfos (fs_readByte (2 ^ 31 - 1)) (fs_readBytes (2 ^ 31 - 1)) fs_seek fs_getFilePointer fs_length (open_file n D)"

lemma fis_roundtrip:
  assumes "fis_ok fis" "fis_writable fis" "0 < n" "n < 2 ^ 31"
  shows "\<exists>D. fis_saved fis = Inr D \<and> fis_opened n D = Inr fis"
proof -
  from so_sink.putsD [OF so_out.puts_fis [OF assms(2)] new_so_out(1)] new_so_out(2) obtain s where
    s: "fis_write so_writeByte so_writeBytes fis newSimpleFSIndexOutput = Inr s" "fs_out.appending (fst s)" "fs_out.view (fst s) = fis_wire fis" by auto
  from so_flushed [OF s(2)] s(1,3) have D: "fis_saved fis = Inr (fis_wire fis)" by (auto simp: fis_saved_def)
  have "fis_opened n (fis_wire fis) = Inr fis"
    unfolding fis_opened_def by (rule fs_exact.open_fields [OF assms(1,2) fs_opened [OF assms(3,4)]]) (use fs_length_at in \<open>auto simp: fs_at_def\<close>)
  with D show ?thesis by blast
qed

text \<open>
  C6. The fields collected by any additions, if their names can be encoded (\<open>string_ok\<close>: valid characters and less than 2^29 of
  them) and are less than 2^31 in number, written to a file and opened again through an
  input of any buffer size, are the same: the same numbers, names and flags, and
  the file is read to its last byte.
\<close>

theorem fields_roundtrip:
  assumes "fis_writable (fis_added adds)" "0 < n" "n < 2 ^ 31"
  shows "\<exists>D. fis_saved (fis_added adds) = Inr D \<and> fis_opened n D = Inr (fis_added adds)"
  by (rule fis_roundtrip [OF _ assms]) (rule added_fields [THEN conjunct1])

text \<open>Three additions of two fields: the first is indexed only the second time, then with vectors and without norms.\<close>

definition example_adds :: "(uchar list \<times> field_flags) list" where
  "example_adds = [([116], not_indexed), ([105, 100], not_indexed\<lparr>ff_isIndexed := True, ff_omitTermFreqAndPositions := True\<rparr>),
     ([116], not_indexed\<lparr>ff_isIndexed := True, ff_storeTermVector := True\<rparr>)]"

theorem fields_roundtrip_witness:
  "\<exists>D. fis_saved (fis_added example_adds) = Inr D \<and> fis_opened 3 D = Inr (fis_added example_adds) \<and>
     fis_names (fis_added example_adds) = [[116], [105, 100]] \<and> ff_storeTermVector (fd_flags (fis_byNumber (fis_added example_adds) ! 0))"
proof -
  have n: "first_names example_adds = [[116], [105, 100]]" by (simp add: example_adds_def first_names_def)
  then have names: "fis_names (fis_added example_adds) = [[116], [105, 100]]" using added_fields [of example_adds] by simp
  have len: "length (fis_byNumber (fis_added example_adds)) = 2" using arg_cong [OF names, of length] by simp
  have fl: "ff_storeTermVector (flags_for example_adds [116])" by (simp add: flags_for_def example_adds_def ff_merge_def not_indexed_def)
  have "map fd_flags (fis_byNumber (fis_added example_adds)) ! 0 = flags_for example_adds [116]" using added_fields [of example_adds] n by simp
  then have v: "ff_storeTermVector (fd_flags (fis_byNumber (fis_added example_adds) ! 0))"
    using len fl by simp
  have "text_ok [116]" "text_ok [105, 100]" by code_simp+
  then have "string_ok [116]" "string_ok [105, 100]" by (simp_all add: string_ok_def)
  then have "\<forall>x\<in>set (fis_names (fis_added example_adds)). string_ok x" unfolding names by simp
  then have "fis_writable (fis_added example_adds)" using len by (simp add: fis_writable_def)
  then show ?thesis using fields_roundtrip [of example_adds 3] names v by simp
qed

end
