(* ===== verification/TermDictWriter.thy ===== *)
theory TermDictWriter imports FieldInfos begin

text \<open>
  The dictionary of the terms of a segment, written: \<^verbatim>\<open>index/TermInfosWriter.cpp\<close>. There are two
  writers, the one of the dictionary (\<^verbatim>\<open>tis\<close>) and that of its index (\<^verbatim>\<open>tii\<close>), which gets every
  \<^verbatim>\<open>indexInterval\<close>-th term; they refer to each other, here an operation has both.
\<close>

subsection \<open>The writer\<close>

definition FORMAT_CURRENT :: int32 where "FORMAT_CURRENT = -4"

record 'o infos_writer =
  tw_output :: 'o
  tw_lastTi :: term_info
  tw_size :: nat
  tw_lastIndexPointer :: int
  tw_isIndex :: bool
  tw_lastTermBytes :: "byte list"
  tw_lastTermSize :: nat
  tw_lastFieldNumber :: int
  tw_indexInterval :: nat
  tw_skipInterval :: nat
  tw_maxSkipLevels :: nat

definition no_info :: term_info where
  "no_info = \<lparr>ti_docFreq = 0, ti_freqPointer = 0, ti_proxPointer = 0, ti_skipOffset = 0\<rparr>"

text \<open>\<^verbatim>\<open>initialize\<close> with the constructor: the header with room for the number of terms.\<close>

definition newTermInfosWriter :: "'o writer \<Rightarrow> nat \<Rightarrow> bool \<Rightarrow> 'o \<Rightarrow> 'o infos_writer result" where
  "newTermInfosWriter wb interval isIndex out =
     (let skipInterval = 16; maxSkipLevels = 10 in
      bind_r (writeInt wb FORMAT_CURRENT out) (\<lambda>out.
      bind_r (writeLong wb 0 out) (\<lambda>out.
      bind_r (writeInt wb (of_nat interval) out) (\<lambda>out.
      bind_r (writeInt wb (of_nat skipInterval) out) (\<lambda>out.
      bind_r (writeInt wb (of_nat maxSkipLevels) out) (\<lambda>out.
        Inr \<lparr>tw_output = out, tw_lastTi = no_info, tw_size = 0, tw_lastIndexPointer = 0, tw_isIndex = isIndex, tw_lastTermBytes = [], tw_lastTermSize = 10,
             tw_lastFieldNumber = -1, tw_indexInterval = interval, tw_skipInterval = skipInterval, tw_maxSkipLevels = maxSkipLevels\<rparr>))))))"

fun common_prefix :: "byte list \<Rightarrow> byte list \<Rightarrow> nat" where
  "common_prefix (a # as) (b # bs) = (if a \<noteq> b then 0 else Suc (common_prefix as bs))"
| "common_prefix _ _ = 0"

text \<open>The array \<^verbatim>\<open>lastTermBytes\<close> is its first \<^verbatim>\<open>lastTermBytesLength\<close> bytes and its size here; it
  is enlarged to half as much again as it needs, a \<^verbatim>\<open>double\<close> that is cast to \<^verbatim>\<open>int32_t\<close>, which is
  undefined when it does not fit.\<close>

definition tw_termSize :: "nat \<Rightarrow> nat \<Rightarrow> nat result" where
  "tw_termSize old needed =
     (if old < needed then if 2 ^ 31 \<le> needed * 3 div 2 then Inl OutOfRange else Inr (needed * 3 div 2) else Inr old)"

definition tw_writeTerm ::
  "'o writer \<Rightarrow> (byte list \<Rightarrow> 'o \<Rightarrow> 'o result) \<Rightarrow> int \<Rightarrow> byte list \<Rightarrow> 'o infos_writer \<Rightarrow> 'o infos_writer result" where
  "tw_writeTerm wb wbs fieldNumber termBytes w =
     (let start = common_prefix termBytes (tw_lastTermBytes w); len = length termBytes - start in
      bind_r (writeVInt wb (of_nat start) (tw_output w)) (\<lambda>out.
      bind_r (writeVInt wb (of_nat len) out) (\<lambda>out.
      bind_r (wbs (take len (drop start termBytes)) out) (\<lambda>out.
      bind_r (writeVInt wb (of_int fieldNumber) out) (\<lambda>out.
      bind_r (tw_termSize (tw_lastTermSize w) (length termBytes)) (\<lambda>n.
        Inr (w\<lparr>tw_output := out, tw_lastTermBytes := take start (tw_lastTermBytes w) @ take len (drop start termBytes),
               tw_lastTermSize := n\<rparr>)))))))"

text \<open>\<^verbatim>\<open>add\<close> behind the step that adds a term to the index; \<open>pointer\<close> is the file pointer of the other
  writer.\<close>

definition tw_addEntry ::
  "'o writer \<Rightarrow> (byte list \<Rightarrow> 'o \<Rightarrow> 'o result) \<Rightarrow> int \<Rightarrow> byte list \<Rightarrow> term_info \<Rightarrow> nat \<Rightarrow> 'o infos_writer \<Rightarrow> 'o infos_writer result" where
  "tw_addEntry wb wbs fieldNumber termBytes ti pointer w =
     bind_r (tw_writeTerm wb wbs fieldNumber termBytes w) (\<lambda>w.
     bind_r (writeVInt wb (of_int (ti_docFreq ti)) (tw_output w)) (\<lambda>out.
     bind_r (writeVLong wb (of_int (ti_freqPointer ti - ti_freqPointer (tw_lastTi w))) out) (\<lambda>out.
     bind_r (writeVLong wb (of_int (ti_proxPointer ti - ti_proxPointer (tw_lastTi w))) out) (\<lambda>out.
     bind_r (if int (tw_skipInterval w) \<le> ti_docFreq ti then writeVInt wb (of_int (ti_skipOffset ti)) out else Inr out) (\<lambda>out.
     bind_r (if tw_isIndex w then writeVLong wb (of_int (int pointer - tw_lastIndexPointer w)) out else Inr out) (\<lambda>out.
       Inr (w\<lparr>tw_output := out, tw_lastIndexPointer := (if tw_isIndex w then int pointer else tw_lastIndexPointer w),
              tw_lastFieldNumber := fieldNumber, tw_lastTi := ti, tw_size := tw_size w + 1\<rparr>)))))))"

definition tw_add ::
  "'o writer \<Rightarrow> (byte list \<Rightarrow> 'o \<Rightarrow> 'o result) \<Rightarrow> ('o \<Rightarrow> nat) \<Rightarrow> int \<Rightarrow> byte list \<Rightarrow> term_info \<Rightarrow>
   'o infos_writer \<times> 'o infos_writer \<Rightarrow> ('o infos_writer \<times> 'o infos_writer) result" where
  "tw_add wb wbs tell fieldNumber termBytes ti = (\<lambda>(w, other).
     bind_r (if \<not> tw_isIndex w \<and> tw_size w mod tw_indexInterval w = 0
             then tw_addEntry wb wbs (tw_lastFieldNumber w) (tw_lastTermBytes w) (tw_lastTi w) (tell (tw_output w)) other
             else Inr other) (\<lambda>other.
     bind_r (tw_addEntry wb wbs fieldNumber termBytes ti (tell (tw_output other)) w) (\<lambda>w. Inr (w, other))))"

type_synonym lterm = "uchar list \<times> uchar list"

definition tw_addTerm ::
  "'o writer \<Rightarrow> (byte list \<Rightarrow> 'o \<Rightarrow> 'o result) \<Rightarrow> ('o \<Rightarrow> nat) \<Rightarrow> field_infos \<Rightarrow> lterm \<Rightarrow> term_info \<Rightarrow>
   'o infos_writer \<times> 'o infos_writer \<Rightarrow> ('o infos_writer \<times> 'o infos_writer) result" where
  "tw_addTerm wb wbs tell fis t ti w = bind_r (toUTF8 (snd t)) (\<lambda>bs. tw_add wb wbs tell (fis_fieldNumber fis (fst t)) bs ti w)"

text \<open>\<^verbatim>\<open>close\<close> of one writer puts the number of terms into the header; \<open>cl\<close> closes the output.\<close>

definition tw_closeOne :: "'o writer \<Rightarrow> (nat \<Rightarrow> 'o \<Rightarrow> 'o result) \<Rightarrow> ('o \<Rightarrow> 'o result) \<Rightarrow> 'o infos_writer \<Rightarrow> 'o infos_writer result" where
  "tw_closeOne wb sk cl w =
     bind_r (sk 4 (tw_output w)) (\<lambda>out. bind_r (writeLong wb (of_nat (tw_size w)) out) (\<lambda>out. bind_r (cl out) (\<lambda>out. Inr (w\<lparr>tw_output := out\<rparr>))))"

definition tw_close ::
  "'o writer \<Rightarrow> (nat \<Rightarrow> 'o \<Rightarrow> 'o result) \<Rightarrow> ('o \<Rightarrow> 'o result) \<Rightarrow> 'o infos_writer \<times> 'o infos_writer \<Rightarrow> ('o infos_writer \<times> 'o infos_writer) result" where
  "tw_close wb sk cl = (\<lambda>(w, other).
     bind_r (tw_closeOne wb sk cl w) (\<lambda>w. if tw_isIndex w then Inr (w, other) else bind_r (tw_closeOne wb sk cl other) (\<lambda>other. Inr (w, other))))"

subsection \<open>The format\<close>

text \<open>An entry of a dictionary: the number of the field, the bytes of the term, the info, and in an index the pointer
  into the dictionary.\<close>

type_synonym dict_entry = "int \<times> byte list \<times> term_info \<times> nat option"

type_synonym dict_last = "byte list \<times> term_info \<times> int"

definition vint_wire :: "int \<Rightarrow> byte list" where
  "vint_wire i = nat_wire (unat (of_int i :: int32))"

definition vlong_wire :: "int \<Rightarrow> byte list" where
  "vlong_wire i = nat_wire (unat (of_int i :: int64))"

definition term_wire :: "byte list \<Rightarrow> int \<Rightarrow> byte list \<Rightarrow> byte list" where
  "term_wire pb n b =
     vint_wire (int (common_prefix b pb)) @ vint_wire (int (length b - common_prefix b pb)) @ drop (common_prefix b pb) b @ vint_wire n"

definition info_wire :: "nat \<Rightarrow> term_info \<Rightarrow> term_info \<Rightarrow> byte list" where
  "info_wire skip pti ti =
     vint_wire (ti_docFreq ti) @ vlong_wire (ti_freqPointer ti - ti_freqPointer pti) @ vlong_wire (ti_proxPointer ti - ti_proxPointer pti) @
     (if int skip \<le> ti_docFreq ti then vint_wire (ti_skipOffset ti) else [])"

definition dict_entry_wire :: "nat \<Rightarrow> dict_last \<Rightarrow> dict_entry \<Rightarrow> byte list" where
  "dict_entry_wire skip = (\<lambda>(pb, pti, pp) (n, b, ti, ptr).
     term_wire pb n b @ info_wire skip pti ti @ (case ptr of None \<Rightarrow> [] | Some p \<Rightarrow> vlong_wire (int p - pp)))"

definition last_of :: "dict_last \<Rightarrow> dict_entry \<Rightarrow> dict_last" where
  "last_of = (\<lambda>(pb, pti, pp) (n, b, ti, ptr). (b, ti, case ptr of None \<Rightarrow> pp | Some p \<Rightarrow> int p))"

fun dict_wire :: "nat \<Rightarrow> dict_last \<Rightarrow> dict_entry list \<Rightarrow> byte list" where
  "dict_wire skip p [] = []"
| "dict_wire skip p (e # es) = dict_entry_wire skip p e @ dict_wire skip (last_of p e) es"

abbreviation dict_start :: dict_last where
  "dict_start \<equiv> ([], no_info, 0)"

definition dict_header :: "nat \<Rightarrow> nat \<Rightarrow> byte list" where
  "dict_header n interval = int_wire FORMAT_CURRENT @ long_wire (of_nat n) @ int_wire (of_nat interval) @ int_wire 16 @ int_wire 10"

text \<open>Terms for which the array of the last term can be enlarged.\<close>

definition size_ok :: "byte list \<Rightarrow> bool" where
  "size_ok b \<longleftrightarrow> length b * 3 div 2 < 2 ^ 31"

definition term_ok :: "uchar list \<Rightarrow> bool" where
  "term_ok s \<longleftrightarrow> string_ok s \<and> size_ok (utf8_bytes s)"

lemma size_ok_length: "size_ok b \<Longrightarrow> length b < 2 ^ 31"
  by (simp add: size_ok_def)

lemma common_prefix_take: "common_prefix as bs \<le> length as \<and> common_prefix as bs \<le> length bs \<and>
    take (common_prefix as bs) bs = take (common_prefix as bs) as"
  by (induction as bs rule: common_prefix.induct) auto

lemma dict_wire_append: "dict_wire skip p (xs @ ys) = dict_wire skip p xs @ dict_wire skip (foldl last_of p xs) ys"
  by (induction xs arbitrary: p) auto

lemma length_header [simp]: "length (dict_header n interval) = 24"
  by (simp add: dict_header_def int_wire_def long_wire_def)

text \<open>The entry of the index in front of the entry \<open>k\<close> of the dictionary: the entry before that one, and where the
  entry \<open>k\<close> begins.\<close>

definition entry_offset :: "dict_entry list \<Rightarrow> nat \<Rightarrow> nat" where
  "entry_offset es k = 24 + length (dict_wire 16 dict_start (take k es))"

definition index_entry :: "dict_entry list \<Rightarrow> nat \<Rightarrow> dict_entry" where
  "index_entry es k = (case if k = 0 then (-1, [], no_info, None) else es ! (k - 1) of (n, b, ti, _) \<Rightarrow> (n, b, ti, Some (entry_offset es k)))"

definition index_entries :: "nat \<Rightarrow> dict_entry list \<Rightarrow> dict_entry list" where
  "index_entries interval es = map (\<lambda>j. index_entry es (j * interval)) [0..<(length es + interval - 1) div interval]"

lemma index_entry_append: "k \<le> length es \<Longrightarrow> index_entry (es @ [e]) k = index_entry es k"
  by (cases k) (simp_all add: index_entry_def entry_offset_def nth_append)

lemma index_entries_append:
  assumes "0 < interval"
  shows "index_entries interval (es @ [e]) =
    (if length es mod interval = 0 then index_entries interval es @ [index_entry es (length es)] else index_entries interval es)"
proof -
  let ?n = "length es"
  obtain k r where n: "?n = k * interval + r" "r < interval"
    using assms by (metis div_mult_mod_eq mod_less_divisor)
  have e: "?n + 1 + interval - 1 = r + (k + 1) * interval" using n by simp
  have "(r + (k + 1) * interval) div interval = (k + 1) + r div interval" using assms by (intro div_mult_self1) simp
  then have c1: "(?n + 1 + interval - 1) div interval = k + 1" unfolding e using n(2) by simp
  have c2: "(?n + interval - 1) div interval = (if r = 0 then k else k + 1)"
  proof (cases "r = 0")
    case True
    have e: "?n + interval - 1 = (interval - 1) + k * interval" using True n(1) assms by simp
    have "((interval - 1) + k * interval) div interval = k + (interval - 1) div interval" using assms by (intro div_mult_self1) simp
    then show ?thesis unfolding e using True assms by simp
  next
    case False
    then have e: "?n + interval - 1 = (r - 1) + (k + 1) * interval" using n assms by simp
    have "((r - 1) + (k + 1) * interval) div interval = (k + 1) + (r - 1) div interval" using assms by (intro div_mult_self1) simp
    moreover have "(r - 1) div interval = 0" using n(2) by (intro div_less) simp
    ultimately show ?thesis unfolding e using False by simp
  qed
  have m: "?n mod interval = r" using n by simp
  have same: "map (\<lambda>j. index_entry (es @ [e]) (j * interval)) [0..<m] = map (\<lambda>j. index_entry es (j * interval)) [0..<m]"
    if "\<And>j. j < m \<Longrightarrow> j * interval \<le> ?n" for m
    using that by (intro map_cong) (simp_all add: index_entry_append)
  have le: "j * interval \<le> ?n" if "j < k + 1" for j using that n(1) by (simp add: trans_le_add1)
  show ?thesis
  proof (cases "r = 0")
    case True
    then show ?thesis using c1 c2 m n(1) le same [of "k + 1"] by (simp add: index_entries_def)
  next
    case False
    then show ?thesis using c1 c2 m le same [of "k + 1"] by (simp add: index_entries_def)
  qed
qed

context out_stream begin

definition tw_at :: "nat \<Rightarrow> bool \<Rightarrow> dict_entry list \<Rightarrow> 's infos_writer \<Rightarrow> bool" where
  "tw_at interval isIndex es w \<longleftrightarrow> inv (tw_output w) \<and> written (tw_output w) = dict_header 0 interval @ dict_wire 16 dict_start es \<and>
     (tw_lastTermBytes w, tw_lastTi w, tw_lastIndexPointer w) = foldl last_of dict_start es \<and> size_ok (tw_lastTermBytes w) \<and>
     tw_lastFieldNumber w = (if es = [] then -1 else fst (List.last es)) \<and> tw_size w = length es \<and>
     tw_isIndex w = isIndex \<and> tw_indexInterval w = interval \<and> tw_skipInterval w = 16 \<and>
     (\<forall>e\<in>set es. snd (snd (snd e)) = None \<longleftrightarrow> \<not> isIndex)"

lemma puts_if: "puts f bs \<Longrightarrow> puts (\<lambda>s. if b then f s else Inr s) (if b then bs else [])"
  by (simp add: puts_return)

lemma new_writer:
  assumes "inv s" "written s = []"
  shows "\<exists>w. newTermInfosWriter wb interval isIndex s = Inr w \<and> tw_at interval isIndex [] w"
proof -
  have "puts (\<lambda>s. bind_r (writeInt wb FORMAT_CURRENT s) (\<lambda>s. bind_r (writeLong wb 0 s) (\<lambda>s. bind_r (writeInt wb (of_nat interval) s) (\<lambda>s.
      bind_r (writeInt wb 16 s) (\<lambda>s. writeInt wb 10 s))))) (dict_header 0 interval)"
    using puts_long [of 0] unfolding dict_header_def by (intro puts_bind puts_int) simp_all
  from putsD [OF this assms(1)] obtain t where t: "bind_r (writeInt wb FORMAT_CURRENT s) (\<lambda>s. bind_r (writeLong wb 0 s) (\<lambda>s.
      bind_r (writeInt wb (of_nat interval) s) (\<lambda>s. bind_r (writeInt wb 16 s) (\<lambda>s. writeInt wb 10 s)))) = Inr t" "inv t"
    "written t = dict_header 0 interval" using assms(2) by auto
  have "newTermInfosWriter wb interval isIndex s = Inr \<lparr>tw_output = t, tw_lastTi = no_info, tw_size = 0, tw_lastIndexPointer = 0, tw_isIndex = isIndex,
      tw_lastTermBytes = [], tw_lastTermSize = 10, tw_lastFieldNumber = -1, tw_indexInterval = interval, tw_skipInterval = 16, tw_maxSkipLevels = 10\<rparr>"
    using t(1) by (auto simp: newTermInfosWriter_def Let_def bind_r_Inr_iff)
  then show ?thesis using t(2,3) by (simp add: tw_at_def size_ok_def)
qed

lemma addEntry_ok:
  assumes w: "tw_at interval isIndex es w" and sz: "size_ok b"
  shows "\<exists>w'. tw_addEntry wb wbs n b ti pointer w = Inr w' \<and> tw_at interval isIndex (es @ [(n, b, ti, if isIndex then Some pointer else None)]) w'"
proof -
  note i = w [unfolded tw_at_def]
  let ?e = "(n, b, ti, if isIndex then Some pointer else None)"
  let ?last = "(tw_lastTermBytes w, tw_lastTi w, tw_lastIndexPointer w)"
  let ?start = "common_prefix b (tw_lastTermBytes w)"
  have "puts (\<lambda>s. bind_r (writeVInt wb (of_nat ?start) s) (\<lambda>s. bind_r (writeVInt wb (of_nat (length b - ?start)) s) (\<lambda>s.
      bind_r (wbs (drop ?start b) s) (\<lambda>s. writeVInt wb (of_int n) s)))) (term_wire (tw_lastTermBytes w) n b)"
    unfolding term_wire_def vint_wire_def of_int_of_nat_eq by (intro puts_bind puts_vint puts_bytes)
  from putsD [OF this, of "tw_output w"] i obtain s1 where s1: "bind_r (writeVInt wb (of_nat ?start) (tw_output w)) (\<lambda>s.
      bind_r (writeVInt wb (of_nat (length b - ?start)) s) (\<lambda>s. bind_r (wbs (drop ?start b) s) (\<lambda>s. writeVInt wb (of_int n) s))) = Inr s1"
    "inv s1" "written s1 = written (tw_output w) @ term_wire (tw_lastTermBytes w) n b" by blast
  have b: "take ?start (tw_lastTermBytes w) @ drop ?start b = b" using common_prefix_take [of b "tw_lastTermBytes w"] by simp
  obtain m where m: "tw_termSize (tw_lastTermSize w) (length b) = Inr m" using sz
    by (cases "tw_lastTermSize w < length b") (auto simp: tw_termSize_def size_ok_def)
  let ?w1 = "w\<lparr>tw_output := s1, tw_lastTermBytes := b, tw_lastTermSize := m\<rparr>"
  have w1: "tw_writeTerm wb wbs n b w = Inr ?w1"
    using s1(1) b m by (auto simp: tw_writeTerm_def Let_def bind_r_Inr_iff)
  let ?rest = "\<lambda>s. bind_r (writeVInt wb (of_int (ti_docFreq ti)) s) (\<lambda>s.
     bind_r (writeVLong wb (of_int (ti_freqPointer ti - ti_freqPointer (tw_lastTi w))) s) (\<lambda>s.
     bind_r (writeVLong wb (of_int (ti_proxPointer ti - ti_proxPointer (tw_lastTi w))) s) (\<lambda>s.
     bind_r (if int 16 \<le> ti_docFreq ti then writeVInt wb (of_int (ti_skipOffset ti)) s else Inr s) (\<lambda>s.
       if isIndex then writeVLong wb (of_int (int pointer - tw_lastIndexPointer w)) s else Inr s))))"
  have "puts ?rest (info_wire 16 (tw_lastTi w) ti @ (if isIndex then vlong_wire (int pointer - tw_lastIndexPointer w) else []))"
    unfolding info_wire_def vint_wire_def vlong_wire_def append_assoc by (intro puts_bind puts_vint puts_vlong puts_if)
  from putsD [OF this s1(2)] obtain s2 where s2: "?rest s1 = Inr s2" "inv s2"
    "written s2 = written s1 @ info_wire 16 (tw_lastTi w) ti @ (if isIndex then vlong_wire (int pointer - tw_lastIndexPointer w) else [])" by blast
  let ?w2 = "?w1\<lparr>tw_output := s2, tw_lastIndexPointer := (if isIndex then int pointer else tw_lastIndexPointer w), tw_lastFieldNumber := n,
    tw_lastTi := ti, tw_size := tw_size w + 1\<rparr>"
  have "tw_addEntry wb wbs n b ti pointer w = bind_r (?rest s1) (\<lambda>out. Inr (?w1\<lparr>tw_output := out,
      tw_lastIndexPointer := (if isIndex then int pointer else tw_lastIndexPointer w), tw_lastFieldNumber := n, tw_lastTi := ti, tw_size := tw_size w + 1\<rparr>))"
    unfolding tw_addEntry_def w1 bind_r_simps bind_r_assoc using i by simp
  then have "tw_addEntry wb wbs n b ti pointer w = Inr ?w2" unfolding s2(1) bind_r_simps .
  moreover have "written s2 = dict_header 0 interval @ dict_wire 16 dict_start (es @ [?e])"
  proof -
    have "dict_entry_wire 16 (foldl last_of dict_start es) ?e = term_wire (tw_lastTermBytes w) n b @ info_wire 16 (tw_lastTi w) ti @
        (if isIndex then vlong_wire (int pointer - tw_lastIndexPointer w) else [])"
      unfolding i [THEN conjunct2, THEN conjunct2, THEN conjunct1, symmetric] by (simp add: dict_entry_wire_def)
    then show ?thesis using i s1(3) s2(3) by (simp add: dict_wire_append)
  qed
  moreover have "foldl last_of dict_start (es @ [?e]) = (b, ti, if isIndex then int pointer else tw_lastIndexPointer w)"
    unfolding foldl_append i [THEN conjunct2, THEN conjunct2, THEN conjunct1, symmetric] by (simp add: last_of_def)
  ultimately show ?thesis using i sz s2(2) by (intro exI [of _ ?w2]) (simp add: tw_at_def)
qed

definition dict_at :: "nat \<Rightarrow> dict_entry list \<Rightarrow> 's infos_writer \<times> 's infos_writer \<Rightarrow> bool" where
  "dict_at interval es = (\<lambda>(w, other). tw_at interval False es w \<and> tw_at interval True (index_entries interval es) other)"

lemma add_ok:
  assumes w: "dict_at interval es ws" and i: "0 < interval" and sz: "size_ok b"
  shows "\<exists>ws'. tw_add wb wbs tell n b ti ws = Inr ws' \<and> dict_at interval (es @ [(n, b, ti, None)]) ws'"
proof -
  obtain w other where ws: "ws = (w, other)" "tw_at interval False es w" "tw_at interval True (index_entries interval es) other"
    using w by (auto simp: dict_at_def)
  note m = ws(2) [unfolded tw_at_def]
  have p: "tell (tw_output w) = entry_offset es (length es)" using m tell_written by (simp add: entry_offset_def)
  let ?index = "if \<not> tw_isIndex w \<and> tw_size w mod tw_indexInterval w = 0
             then tw_addEntry wb wbs (tw_lastFieldNumber w) (tw_lastTermBytes w) (tw_lastTi w) (tell (tw_output w)) other else Inr other"
  have "\<exists>other'. ?index = Inr other' \<and> tw_at interval True (index_entries interval (es @ [(n, b, ti, None)])) other'"
  proof (cases "length es mod interval = 0")
    case False
    then show ?thesis using m ws(3) index_entries_append [OF i] by auto
  next
    case True
    have "index_entry es (length es) = (tw_lastFieldNumber w, tw_lastTermBytes w, tw_lastTi w, Some (tell (tw_output w)))"
    proof (cases es rule: rev_cases)
      case Nil
      then show ?thesis using m p by (simp add: index_entry_def)
    next
      case (snoc es' e)
      then show ?thesis using m p by (auto simp: index_entry_def last_of_def split: prod.splits)
    qed
    then show ?thesis
      using True m index_entries_append [OF i] addEntry_ok [OF ws(3), of "tw_lastTermBytes w" "tw_lastFieldNumber w" "tw_lastTi w" "tell (tw_output w)"] by auto
  qed
  then obtain other' where o: "?index = Inr other'" "tw_at interval True (index_entries interval (es @ [(n, b, ti, None)])) other'" by blast
  obtain w' where "tw_addEntry wb wbs n b ti (tell (tw_output other')) w = Inr w'" "tw_at interval False (es @ [(n, b, ti, None)]) w'"
    using addEntry_ok [OF ws(2) sz, of n ti "tell (tw_output other')"] by auto
  then show ?thesis using o ws(1) by (auto simp: tw_add_def dict_at_def)
qed

end

lemma fieldName_number:
  assumes "fis_ok fis" "f \<in> set (fis_names fis)"
  shows "0 \<le> fis_fieldNumber fis f \<and> fis_fieldNumber fis f < int (length (fis_byNumber fis)) \<and> fis_fieldName fis (fis_fieldNumber fis f) = f"
proof -
  have "fis_byName fis f \<noteq> None" using assms fis_ok_name by simp
  then obtain i where i: "fis_byName fis f = Some i" by blast
  then have "i < length (fis_byNumber fis) \<and> fd_name (fis_byNumber fis ! i) = f \<and> fd_number (fis_byNumber fis ! i) = i" using assms(1) unfolding fis_ok_def by blast
  then show ?thesis using i by (simp add: fis_fieldNumber_def fis_fieldInfo_def fis_fieldName_def)
qed

subsection \<open>The files of a dictionary\<close>

lemma closeOne_ok:
  assumes "so_out.tw_at interval isIndex es w"
  shows "\<exists>w'. tw_closeOne so_writeByte so_seek so_flush w = Inr w' \<and> on_disk (tw_output w') = dict_header (length es) interval @ dict_wire 16 dict_start es \<and>
    tw_isIndex w' = isIndex"
proof -
  note i = assms [unfolded so_out.tw_at_def]
  let ?D = "dict_header 0 interval @ dict_wire 16 dict_start es" and ?D' = "dict_header (length es) interval @ dict_wire 16 dict_start es"
  have "out_at ?D (length ?D) (tw_output w)" using i by (simp add: out_at_def fs_out.appending_def)
  from so_seek_at [OF this, of 4] obtain s1 where s1: "so_seek 4 (tw_output w) = Inr s1" "out_at ?D 4 s1" by blast
  from writeLong_out_at [OF s1(2), of "of_nat (tw_size w)"] obtain s2 where
    s2: "writeLong so_writeByte (of_nat (tw_size w)) s1 = Inr s2" "out_at (overwrite 4 (long_wire (of_nat (tw_size w))) ?D) (4 + length (long_wire (of_nat (tw_size w)))) s2"
    by auto
  have "overwrite 4 (long_wire (of_nat (tw_size w))) ?D = ?D'"
    using i by (simp add: overwrite_def dict_header_def int_wire_def long_wire_def)
  with flush_out_at [OF s2(2)] obtain t f where "so_flush s2 = Inr ((t, Some f), snd s2)" "of_bytes f = ?D'" by auto
  then show ?thesis using s1(1) s2(1) i by (simp add: tw_closeOne_def on_disk_def)
qed

end
