(* ===== verification/LruCache.thy ===== *)
theory LruCache imports LucenePrelude begin

text \<open>
  \<^verbatim>\<open>include/lucene++/SimpleLRUCache.h\<close>: a list of entries, the last used first, and a hash map from the keys to
  the nodes of the list. A node is named by a number here, a new one for each \<^verbatim>\<open>push_front\<close>, so
  that an iterator to a node that is gone shows as \<open>OutOfRange\<close>.
\<close>

record ('k, 'v) lru_cache =
  lru_cacheSize :: nat
  lru_list :: "(nat \<times> 'k \<times> 'v) list"
  lru_map :: "'k \<rightharpoonup> nat"
  lru_next :: nat

definition newLRUCache :: "nat \<Rightarrow> ('k, 'v) lru_cache" where
  "newLRUCache cacheSize = \<lparr>lru_cacheSize = cacheSize, lru_list = [], lru_map = Map.empty, lru_next = 0\<rparr>"

definition lru_put :: "'k \<Rightarrow> 'v \<Rightarrow> ('k, 'v) lru_cache \<Rightarrow> ('k, 'v) lru_cache" where
  "lru_put key value c =
     (let c = c\<lparr>lru_list := (lru_next c, key, value) # lru_list c, lru_map := (lru_map c)(key \<mapsto> lru_next c), lru_next := lru_next c + 1\<rparr>
      in if lru_cacheSize c < length (lru_list c)
         then c\<lparr>lru_map := (lru_map c)(fst (snd (List.last (lru_list c))) := None), lru_list := butlast (lru_list c)\<rparr>
         else c)"

definition lru_get :: "'k \<Rightarrow> ('k, 'v) lru_cache \<Rightarrow> ('v option \<times> ('k, 'v) lru_cache) result" where
  "lru_get key c =
     (case lru_map c key of None \<Rightarrow> Inr (None, c)
      | Some node \<Rightarrow>
          (case map_of (lru_list c) node of None \<Rightarrow> Inl OutOfRange
           | Some (_, value) \<Rightarrow> Inr (Some value,
               c\<lparr>lru_list := (lru_next c, key, value) # filter (\<lambda>e. fst e \<noteq> node) (lru_list c),
                 lru_map := (lru_map c)(key \<mapsto> lru_next c), lru_next := lru_next c + 1\<rparr>)))"

definition lru_contains :: "'k \<Rightarrow> ('k, 'v) lru_cache \<Rightarrow> bool" where
  "lru_contains key c \<longleftrightarrow> lru_map c key \<noteq> None"

subsection \<open>The entries\<close>

text \<open>What a cache holds, the last used first.\<close>

definition lru_entries :: "('k, 'v) lru_cache \<Rightarrow> ('k \<times> 'v) list" where
  "lru_entries c = map snd (lru_list c)"

definition lru_ok :: "('k, 'v) lru_cache \<Rightarrow> bool" where
  "lru_ok c \<longleftrightarrow> distinct (map fst (lru_entries c)) \<and> distinct (map fst (lru_list c)) \<and> (\<forall>n\<in>fst ` set (lru_list c). n < lru_next c) \<and>
     length (lru_list c) \<le> lru_cacheSize c \<and> lru_map c = map_of (map (\<lambda>(n, k, v). (k, n)) (lru_list c))"

text \<open>Reference: one list.\<close>

definition ref_get :: "'k \<Rightarrow> ('k \<times> 'v) list \<Rightarrow> 'v option \<times> ('k \<times> 'v) list" where
  "ref_get key xs = (case map_of xs key of None \<Rightarrow> (None, xs) | Some v \<Rightarrow> (Some v, (key, v) # filter (\<lambda>e. fst e \<noteq> key) xs))"

definition ref_put :: "nat \<Rightarrow> 'k \<Rightarrow> 'v \<Rightarrow> ('k \<times> 'v) list \<Rightarrow> ('k \<times> 'v) list" where
  "ref_put n key value xs = take n ((key, value) # xs)"

lemma new_lru_ok: "lru_ok (newLRUCache n) \<and> lru_entries (newLRUCache n) = []"
  by (simp add: lru_ok_def newLRUCache_def lru_entries_def)

lemma node_of_key:
  assumes "distinct (map fst (map snd xs))" "distinct (map fst xs)" "map_of (map (\<lambda>(n, k, v). (k, n)) xs) key = Some n"
  shows "\<exists>v. map_of xs n = Some (key, v) \<and> map_of (map snd xs) key = Some v \<and>
    map snd (filter (\<lambda>e. fst e \<noteq> n) xs) = filter (\<lambda>e. fst e \<noteq> key) (map snd xs) \<and>
    (\<forall>e\<in>set xs. fst e = n \<longleftrightarrow> fst (snd e) = key)"
  using assms
proof (induction xs)
  case (Cons x xs)
  obtain m k v where x: "x = (m, k, v)" by (cases x)
  show ?case
  proof (cases "k = key")
    case True
    then have "n = m" using Cons.prems(3) x by simp
    moreover have "filter (\<lambda>e. fst e \<noteq> m) xs = xs" using Cons.prems(2) x by (force simp: filter_id_conv)
    moreover have "filter (\<lambda>e. fst e \<noteq> key) (map snd xs) = map snd xs" using Cons.prems(1) x True by (force simp: filter_id_conv)
    ultimately show ?thesis using True x Cons.prems(1,2) by force
  next
    case False
    have n: "map_of (map (\<lambda>(n, k, v). (k, n)) xs) key = Some n" using Cons.prems(3) x False by simp
    then have "n \<in> fst ` set xs" by (force dest: map_of_SomeD)
    then have "m \<noteq> n" using Cons.prems(2) x by auto
    then show ?thesis using Cons.IH [OF _ _ n] Cons.prems(1,2) False x by auto
  qed
qed simp

lemma lru_get_ok:
  assumes "lru_ok c"
  shows "\<exists>c'. lru_get key c = Inr (fst (ref_get key (lru_entries c)), c') \<and> lru_ok c' \<and> lru_cacheSize c' = lru_cacheSize c \<and>
    lru_entries c' = snd (ref_get key (lru_entries c))"
proof (cases "lru_map c key")
  case None
  then have "map_of (lru_entries c) key = None" using assms by (auto simp: lru_ok_def map_of_eq_None_iff lru_entries_def image_iff)
  then show ?thesis using None assms by (simp add: lru_get_def ref_get_def)
next
  case (Some n)
  note ok = assms [unfolded lru_ok_def]
  have "map_of (map (\<lambda>(n, k, v). (k, n)) (lru_list c)) key = Some n" using Some ok by simp
  from node_of_key [OF _ _ this] ok obtain v where v: "map_of (lru_list c) n = Some (key, v)" "map_of (lru_entries c) key = Some v"
    "map snd (filter (\<lambda>e. fst e \<noteq> n) (lru_list c)) = filter (\<lambda>e. fst e \<noteq> key) (lru_entries c)"
    "\<forall>e\<in>set (lru_list c). fst e = n \<longleftrightarrow> fst (snd e) = key" by (auto simp: lru_entries_def)
  let ?c = "c\<lparr>lru_list := (lru_next c, key, v) # filter (\<lambda>e. fst e \<noteq> n) (lru_list c), lru_map := (lru_map c)(key \<mapsto> lru_next c), lru_next := lru_next c + 1\<rparr>"
  have e: "lru_entries ?c = (key, v) # filter (\<lambda>e. fst e \<noteq> key) (lru_entries c)" using v(3) by (simp add: lru_entries_def)
  have "distinct (map fst (lru_entries ?c))" unfolding e using ok by (auto simp: distinct_map_filter)
  moreover have "distinct (map fst (lru_list ?c))" "\<forall>n\<in>fst ` set (lru_list ?c). n < lru_next ?c"
    using ok by (auto simp: distinct_map_filter less_SucI)
  moreover have "length (lru_list ?c) \<le> lru_cacheSize ?c"
  proof -
    have "(n, key, v) \<in> set (lru_list c)" using v(1) by (rule map_of_SomeD)
    then have "length (filter (\<lambda>e. fst e \<noteq> n) (lru_list c)) < length (lru_list c)" by (intro length_filter_less) auto
    then show ?thesis using ok by simp
  qed
  moreover have "lru_map ?c = map_of (map (\<lambda>(n, k, v). (k, n)) (lru_list ?c))"
  proof
    fix k
    have "map_of (map (\<lambda>(n, k, v). (k, n)) (filter (\<lambda>e. fst e \<noteq> n) xs)) k = map_of (map (\<lambda>(n, k, v). (k, n)) xs) k"
      if "\<forall>e\<in>set xs. fst e = n \<longleftrightarrow> fst (snd e) = key" "k \<noteq> key" for xs :: "(nat \<times> 'a \<times> 'b) list"
      using that by (induction xs) auto
    then show "lru_map ?c k = map_of (map (\<lambda>(n, k, v). (k, n)) (lru_list ?c)) k" using ok v(4) by auto
  qed
  ultimately have "lru_ok ?c" by (simp add: lru_ok_def)
  then show ?thesis using Some v(1,2) e by (simp add: lru_get_def ref_get_def)
qed

lemma lru_put_ok:
  assumes "lru_ok c" "map_of (lru_entries c) key = None"
  shows "lru_ok (lru_put key value c) \<and> lru_cacheSize (lru_put key value c) = lru_cacheSize c \<and>
    lru_entries (lru_put key value c) = ref_put (lru_cacheSize c) key value (lru_entries c)"
proof -
  note ok = assms(1) [unfolded lru_ok_def]
  let ?l = "(lru_next c, key, value) # lru_list c"
  have d: "distinct (map fst (map snd ?l))" using ok assms(2) by (simp add: map_of_eq_None_iff lru_entries_def image_image)
  have n: "distinct (map fst ?l)" "\<forall>n\<in>fst ` set ?l. n < lru_next c + 1" using ok by (auto simp: less_SucI)
  have m: "(lru_map c)(key \<mapsto> lru_next c) = map_of (map (\<lambda>(n, k, v). (k, n)) ?l)" using ok by simp
  show ?thesis
  proof (cases "lru_cacheSize c < length ?l")
    case False
    then show ?thesis using ok d n m by (simp add: lru_put_def lru_ok_def lru_entries_def ref_put_def Let_def)
  next
    case True
    then have len: "length (lru_list c) = lru_cacheSize c" using ok by simp
    obtain ys y where l: "?l = ys @ [y]" by (metis append_butlast_last_id list.distinct(1))
    have ys: "length ys = lru_cacheSize c" using arg_cong [OF l, of length] len by simp
    have "(map_of (map (\<lambda>(n, k, v). (k, n)) (ys @ [y])))(fst (snd y) := None) = map_of (map (\<lambda>(n, k, v). (k, n)) ys)"
    proof
      fix k
      have "fst (snd y) \<notin> fst ` set (map (\<lambda>(n, k, v). (k, n)) ys)" using d unfolding l by (force simp: image_iff)
      then have "map_of (map (\<lambda>(n, k, v). (k, n)) ys) (fst (snd y)) = None" by (simp add: map_of_eq_None_iff)
      then show "((map_of (map (\<lambda>(n, k, v). (k, n)) (ys @ [y])))(fst (snd y) := None)) k = map_of (map (\<lambda>(n, k, v). (k, n)) ys) k"
        by (cases y) (auto simp: map_add_def split: option.splits)
    qed
    moreover have "map snd ys = take (lru_cacheSize c) (map snd ?l)" unfolding l using ys by simp
    moreover have "lru_put key value c = c\<lparr>lru_list := ys, lru_map := (map_of (map (\<lambda>(n, k, v). (k, n)) (ys @ [y])))(fst (snd y) := None), lru_next := lru_next c + 1\<rparr>"
      using True m l by (simp add: lru_put_def Let_def)
    moreover have "distinct (map fst (map snd ys))" "distinct (map fst ys)" "\<forall>n\<in>fst ` set ys. n < lru_next c + 1"
      using d n unfolding l by auto
    ultimately show ?thesis using ys by (simp add: lru_ok_def lru_entries_def ref_put_def)
  qed
qed

text \<open>How the caches are used: a value is computed and put when the lookup finds nothing.\<close>

fun lru_lookups :: "('k \<times> 'v) list \<Rightarrow> ('k, 'v) lru_cache \<Rightarrow> ('v option list \<times> ('k, 'v) lru_cache) result" where
  "lru_lookups [] c = Inr ([], c)"
| "lru_lookups ((k, v) # ops) c =
     bind_r (lru_get k c) (\<lambda>(r, c). bind_r (lru_lookups ops (case r of None \<Rightarrow> lru_put k v c | Some _ \<Rightarrow> c)) (\<lambda>(rs, c). Inr (r # rs, c)))"

fun ref_lookups :: "nat \<Rightarrow> ('k \<times> 'v) list \<Rightarrow> ('k \<times> 'v) list \<Rightarrow> 'v option list \<times> ('k \<times> 'v) list" where
  "ref_lookups n [] xs = ([], xs)"
| "ref_lookups n ((k, v) # ops) xs =
     (case ref_get k xs of (r, xs) \<Rightarrow> case ref_lookups n ops (case r of None \<Rightarrow> ref_put n k v xs | Some _ \<Rightarrow> xs) of (rs, xs) \<Rightarrow> (r # rs, xs))"

lemma lru_lookups_ok:
  "lru_ok c \<Longrightarrow> \<exists>c'. lru_lookups ops c = Inr (fst (ref_lookups (lru_cacheSize c) ops (lru_entries c)), c') \<and> lru_ok c' \<and>
     lru_entries c' = snd (ref_lookups (lru_cacheSize c) ops (lru_entries c))"
proof (induction ops arbitrary: c)
  case (Cons op ops)
  obtain k v where op: "op = (k, v)" by (cases op)
  obtain r xs where r: "ref_get k (lru_entries c) = (r, xs)" by (cases "ref_get k (lru_entries c)")
  from lru_get_ok [OF Cons.prems, of k] r obtain c1 where c1: "lru_get k c = Inr (r, c1)" "lru_ok c1" "lru_cacheSize c1 = lru_cacheSize c" "lru_entries c1 = xs"
    by auto
  define c2 where "c2 = (case r of None \<Rightarrow> lru_put k v c1 | Some _ \<Rightarrow> c1)"
  have "r = None \<Longrightarrow> map_of (lru_entries c1) k = None" using r c1(4) by (auto simp: ref_get_def split: option.splits)
  then have "lru_ok c2 \<and> lru_cacheSize c2 = lru_cacheSize c \<and>
      lru_entries c2 = (case r of None \<Rightarrow> ref_put (lru_cacheSize c) k v xs | Some _ \<Rightarrow> xs)"
    using lru_put_ok [OF c1(2), of k v] c1(2-4) by (auto simp: c2_def split: option.splits)
  with Cons.IH [of c2] c1(1) r op show ?case by (auto simp: c2_def split: prod.splits)
qed simp

text \<open>
  C7. A cache of any size, looked up and filled where a lookup finds nothing, in any order of keys,
  never meets a dangling iterator, answers as one list of the entries ordered by their last use and cut at
  the size, and ends with exactly these entries.
\<close>

theorem lru_refines:
  "\<exists>c. lru_lookups ops (newLRUCache n) = Inr (fst (ref_lookups n ops []), c) \<and> lru_entries c = snd (ref_lookups n ops [])"
proof -
  have "lru_cacheSize (newLRUCache n :: ('a, 'b) lru_cache) = n" by (simp add: newLRUCache_def)
  then show ?thesis using lru_lookups_ok [of "newLRUCache n" ops] new_lru_ok [of n] by metis
qed

text \<open>Putting a key that is there leaves its old node in the list; when that node is dropped, the key is
  erased from the map, although its new node is still in the list.\<close>

lemma lru_put_twice:
  "lru_get (1 :: nat) (lru_put 3 ''c'' (lru_put 1 ''b'' (lru_put 1 ''a'' (newLRUCache 2)))) =
     Inr (None, lru_put 3 ''c'' (lru_put 1 ''b'' (lru_put 1 ''a'' (newLRUCache 2))))"
  "(1, ''b'') \<in> set (lru_entries (lru_put (3 :: nat) ''c'' (lru_put 1 ''b'' (lru_put 1 ''a'' (newLRUCache 2)))))"
  by (simp_all add: lru_get_def lru_put_def newLRUCache_def Let_def lru_entries_def)

end
