(* ===== verification/TermDictReader.thy ===== *)
theory TermDictReader imports TermDictWriter LruCache "HOL-Library.List_Lexorder" "HOL-Library.Product_Lexorder" "HOL-Library.Signed_Division" begin

text \<open>
  The dictionary of the terms of a segment, read: \<^verbatim>\<open>index/TermBuffer.cpp\<close>,
  \<^verbatim>\<open>index/SegmentTermEnum.cpp\<close> and \<^verbatim>\<open>index/TermInfosReader.cpp\<close>, for one thread.
\<close>

subsection \<open>Terms\<close>

text \<open>The strings compare by their characters, as numbers; only the sign of the result is used.\<close>

fun compareChars :: "uchar list \<Rightarrow> uchar list \<Rightarrow> int" where
  "compareChars (c1 # s) (c2 # t) = (if c1 \<noteq> c2 then sint c1 - sint c2 else compareChars s t)"
| "compareChars s t = int (length s) - int (length t)"

text \<open>\<^verbatim>\<open>Term::compareTo\<close> and \<^verbatim>\<open>TermBuffer::compareTo\<close>.\<close>

definition term_compare :: "lterm \<Rightarrow> lterm \<Rightarrow> int" where
  "term_compare = (\<lambda>(f1, t1) (f2, t2). if f1 = f2 then compareChars t1 t2 else compareChars f1 f2)"

text \<open>A buffer is the field and the text; without a field it is unset, and \<^verbatim>\<open>toTerm\<close> gives no term. (The term that
  \<^verbatim>\<open>toTerm\<close> keeps for the next call is the one it would make again.)\<close>

definition tb_toTerm :: "lterm \<Rightarrow> lterm option" where
  "tb_toTerm b = (if fst b = [] then None else Some b)"

definition tb_set :: "lterm option \<Rightarrow> lterm" where
  "tb_set t = (case t of None \<Rightarrow> ([], []) | Some t \<Rightarrow> t)"

text \<open>\<^verbatim>\<open>read\<close>: a prefix longer than the last term would take bytes that earlier terms left in the
  array; that is \<open>OutOfRange\<close>.\<close>

definition tb_read ::
  "bool \<Rightarrow> field_infos \<Rightarrow> 's reader \<Rightarrow> (nat \<Rightarrow> 's \<Rightarrow> (byte list \<times> 's) result) \<Rightarrow> lterm \<Rightarrow> 's \<Rightarrow> (lterm \<times> 's) result" where
  "tb_read preUTF8Strings fis rb rbs b s =
     bind_r (readVInt rb s) (\<lambda>(start, s). bind_r (readVInt rb s) (\<lambda>(len, s).
     let start = sint start; len = sint len in
     bind_r (if preUTF8Strings then
               if start < 0 \<or> len < 0 \<or> int (length (snd b)) < start then Inl OutOfRange
               else bind_r (readChars rb (nat len) s) (\<lambda>(cs, s). Inr (take (nat start) (snd b) @ cs, s))
             else
               bind_r (toUTF8 (snd b)) (\<lambda>bytes.
               if start < 0 \<or> len < 0 \<or> int (length bytes) < start then Inl OutOfRange
               else bind_r (rbs (nat len) s) (\<lambda>(bs, s). bind_r (toUnicode (take (nat start) bytes @ bs)) (\<lambda>text. Inr (text, s))))) (\<lambda>(text, s).
     bind_r (readVInt rb s) (\<lambda>(n, s). Inr ((fis_fieldName fis (sint n), text), s)))))"

subsection \<open>SegmentTermEnum\<close>

record 's term_enum =
  te_input :: 's
  te_termBuffer :: lterm
  te_prevBuffer :: lterm
  te_termInfo :: term_info
  te_isIndex :: bool
  te_size :: int
  te_position :: int
  te_indexPointer :: int
  te_format :: int
  te_indexInterval :: int
  te_skipInterval :: int
  te_maxSkipLevels :: int
  te_formatM1SkipInterval :: int

text \<open>The constructor reads the header, in any of the formats there have been.\<close>

definition newSegmentTermEnum :: "'s reader \<Rightarrow> bool \<Rightarrow> 's \<Rightarrow> 's term_enum result" where
  "newSegmentTermEnum rb isIndex s =
     bind_r (readInt rb s) (\<lambda>(firstInt, s).
     let e = \<lparr>te_input = s, te_termBuffer = ([], []), te_prevBuffer = ([], []), te_termInfo = no_info, te_isIndex = isIndex, te_size = 0,
              te_position = -1, te_indexPointer = 0, te_format = 0, te_indexInterval = 0, te_skipInterval = 0, te_maxSkipLevels = 1,
              te_formatM1SkipInterval = 0\<rparr>
     in if 0 \<le> sint firstInt then Inr (e\<lparr>te_size := sint firstInt, te_indexInterval := 128, te_skipInterval := 2 ^ 31 - 1\<rparr>)
     else if sint firstInt < sint FORMAT_CURRENT then Inl CorruptIndex
     else
       let e = e\<lparr>te_format := sint firstInt\<rparr> in
       bind_r (readLong rb s) (\<lambda>(size', s). let e = e\<lparr>te_input := s, te_size := sint size'\<rparr> in
       if te_format e = -1 then
         if isIndex then Inr (e\<lparr>te_skipInterval := 2 ^ 31 - 1\<rparr>)
         else bind_r (readInt rb s) (\<lambda>(interval, s). bind_r (readInt rb s) (\<lambda>(skip, s).
           Inr (e\<lparr>te_input := s, te_indexInterval := sint interval, te_formatM1SkipInterval := sint skip, te_skipInterval := 2 ^ 31 - 1\<rparr>)))
       else
         bind_r (readInt rb s) (\<lambda>(interval, s). bind_r (readInt rb s) (\<lambda>(skip, s).
         let e = e\<lparr>te_input := s, te_indexInterval := sint interval, te_skipInterval := sint skip\<rparr> in
         if te_format e \<le> -3 then bind_r (readInt rb s) (\<lambda>(levels, s). Inr (e\<lparr>te_input := s, te_maxSkipLevels := sint levels\<rparr>))
         else Inr e))))"

definition te_preUTF8Strings :: "'s term_enum \<Rightarrow> bool" where
  "te_preUTF8Strings e \<longleftrightarrow> sint FORMAT_CURRENT < te_format e"

definition te_seek :: "(nat \<Rightarrow> 's \<Rightarrow> 's result) \<Rightarrow> int \<Rightarrow> int \<Rightarrow> lterm option \<Rightarrow> term_info \<Rightarrow> 's term_enum \<Rightarrow> 's term_enum result" where
  "te_seek sk pointer p t ti e =
     bind_r (sk (nat pointer) (te_input e)) (\<lambda>s.
       Inr (e\<lparr>te_input := s, te_position := p, te_termBuffer := tb_set t, te_prevBuffer := ([], []), te_termInfo := ti\<rparr>))"

text \<open>The part of \<^verbatim>\<open>next\<close> that reads one entry: the term, its info and the pointer of an index.\<close>

definition te_readInfo :: "'s reader \<Rightarrow> 's term_enum \<Rightarrow> 's \<Rightarrow> (term_info \<times> 's) result" where
  "te_readInfo rb e s =
     bind_r (readVInt rb s) (\<lambda>(docFreq, s). bind_r (readVLong rb s) (\<lambda>(freqDelta, s). bind_r (readVLong rb s) (\<lambda>(proxDelta, s).
     let ti = (te_termInfo e)\<lparr>ti_docFreq := sint docFreq, ti_freqPointer := ti_freqPointer (te_termInfo e) + sint freqDelta,
                              ti_proxPointer := ti_proxPointer (te_termInfo e) + sint proxDelta\<rparr>
     in if (if te_format e = -1 then \<not> te_isIndex e \<and> te_formatM1SkipInterval e < sint docFreq else te_skipInterval e \<le> sint docFreq)
        then bind_r (readVInt rb s) (\<lambda>(skipOffset, s). Inr (ti\<lparr>ti_skipOffset := sint skipOffset\<rparr>, s)) else Inr (ti, s))))"

definition te_readEntry ::
  "field_infos \<Rightarrow> 's reader \<Rightarrow> (nat \<Rightarrow> 's \<Rightarrow> (byte list \<times> 's) result) \<Rightarrow> 's term_enum \<Rightarrow> 's \<Rightarrow> ((lterm \<times> term_info \<times> int) \<times> 's) result" where
  "te_readEntry fis rb rbs e s =
     bind_r (tb_read (te_preUTF8Strings e) fis rb rbs (te_termBuffer e) s) (\<lambda>(t, s). bind_r (te_readInfo rb e s) (\<lambda>(ti, s).
       if te_isIndex e then bind_r (readVLong rb s) (\<lambda>(delta, s). Inr ((t, ti, te_indexPointer e + sint delta), s))
       else Inr ((t, ti, te_indexPointer e), s)))"

definition te_next ::
  "field_infos \<Rightarrow> 's reader \<Rightarrow> (nat \<Rightarrow> 's \<Rightarrow> (byte list \<times> 's) result) \<Rightarrow> 's term_enum \<Rightarrow> (bool \<times> 's term_enum) result" where
  "te_next fis rb rbs e =
     (if te_size e - 1 \<le> te_position e
      then Inr (False, e\<lparr>te_position := te_position e + 1, te_prevBuffer := te_termBuffer e, te_termBuffer := ([], [])\<rparr>)
      else bind_r (te_readEntry fis rb rbs e (te_input e)) (\<lambda>((t, ti, indexPointer), s).
             Inr (True, e\<lparr>te_position := te_position e + 1, te_prevBuffer := te_termBuffer e, te_input := s, te_termBuffer := t,
                          te_termInfo := ti, te_indexPointer := indexPointer\<rparr>)))"

text \<open>\<^verbatim>\<open>scanTo\<close>, with the number of entries it went over.\<close>

partial_function (option) te_scan ::
  "field_infos \<Rightarrow> 's reader \<Rightarrow> (nat \<Rightarrow> 's \<Rightarrow> (byte list \<times> 's) result) \<Rightarrow> lterm \<Rightarrow> nat \<Rightarrow> 's term_enum \<Rightarrow> (nat \<times> 's term_enum) result option" where
  "te_scan fis rb rbs t count e =
     (if 0 < term_compare t (te_termBuffer e)
      then case te_next fis rb rbs e of Inl x \<Rightarrow> Some (Inl x)
           | Inr (found, e) \<Rightarrow> if found then te_scan fis rb rbs t (count + 1) e else Some (Inr (count, e))
      else Some (Inr (count, e)))"

definition te_scanTo ::
  "field_infos \<Rightarrow> 's reader \<Rightarrow> (nat \<Rightarrow> 's \<Rightarrow> (byte list \<times> 's) result) \<Rightarrow> lterm \<Rightarrow> 's term_enum \<Rightarrow> (nat \<times> 's term_enum) result" where
  "te_scanTo fis rb rbs t e = returns (te_scan fis rb rbs t 0 e)"

definition te_term :: "'s term_enum \<Rightarrow> lterm option" where
  "te_term e = tb_toTerm (te_termBuffer e)"

definition te_prev :: "'s term_enum \<Rightarrow> lterm option" where
  "te_prev e = tb_toTerm (te_prevBuffer e)"

subsection \<open>TermInfosReader\<close>

record 's infos_reader =
  tr_termEnum :: "'s term_enum"
  tr_size :: int
  tr_totalIndexInterval :: int
  tr_indexTerms :: "lterm option list option"
  tr_indexInfos :: "term_info option list"
  tr_indexPointers :: "int list"
  tr_cache :: "(lterm, term_info) lru_cache"

definition DEFAULT_CACHE_SIZE :: nat where "DEFAULT_CACHE_SIZE = 1024"

text \<open>The loops of the constructor over the entries of the index: one of every \<open>indexDivisor\<close> is kept.\<close>

fun tr_skipEntries :: "field_infos \<Rightarrow> 's reader \<Rightarrow> (nat \<Rightarrow> 's \<Rightarrow> (byte list \<times> 's) result) \<Rightarrow> nat \<Rightarrow> 's term_enum \<Rightarrow> 's term_enum result" where
  "tr_skipEntries fis rb rbs 0 e = Inr e"
| "tr_skipEntries fis rb rbs (Suc n) e =
     bind_r (te_next fis rb rbs e) (\<lambda>(found, e). if found then tr_skipEntries fis rb rbs n e else Inr e)"

type_synonym index_arrays = "lterm option list \<times> term_info option list \<times> int list"

partial_function (option) tr_indexLoop ::
  "field_infos \<Rightarrow> 's reader \<Rightarrow> (nat \<Rightarrow> 's \<Rightarrow> (byte list \<times> 's) result) \<Rightarrow> nat \<Rightarrow> nat \<Rightarrow> index_arrays \<Rightarrow> 's term_enum \<Rightarrow> index_arrays result option" where
  "tr_indexLoop fis rb rbs divisor i arrays e =
     (case te_next fis rb rbs e of Inl x \<Rightarrow> Some (Inl x)
      | Inr (found, e) \<Rightarrow>
          if \<not> found then Some (Inr arrays)
          else case arrays of (terms, infos, pointers) \<Rightarrow>
            (case bind_r (arr_set terms i (te_term e)) (\<lambda>terms. bind_r (arr_set infos i (Some (te_termInfo e))) (\<lambda>infos.
                    bind_r (arr_set pointers i (te_indexPointer e)) (\<lambda>pointers. bind_r (tr_skipEntries fis rb rbs (divisor - 1) e) (\<lambda>e.
                      Inr ((terms, infos, pointers), e))))) of Inl x \<Rightarrow> Some (Inl x)
             | Inr (arrays, e) \<Rightarrow> tr_indexLoop fis rb rbs divisor (i + 1) arrays e))"

definition newTermInfosReader ::
  "field_infos \<Rightarrow> 's reader \<Rightarrow> (nat \<Rightarrow> 's \<Rightarrow> (byte list \<times> 's) result) \<Rightarrow> int \<Rightarrow> 's \<Rightarrow> 's \<Rightarrow> 's infos_reader result" where
  "newTermInfosReader fis rb rbs indexDivisor tis tii =
     (if indexDivisor < 1 \<and> indexDivisor \<noteq> -1 then Inl IllegalArgument
      else bind_r (newSegmentTermEnum rb False tis) (\<lambda>origEnum.
        let r = \<lparr>tr_termEnum = origEnum, tr_size = te_size origEnum, tr_totalIndexInterval = -1, tr_indexTerms = None, tr_indexInfos = [],
                 tr_indexPointers = [], tr_cache = newLRUCache DEFAULT_CACHE_SIZE\<rparr>
        in if indexDivisor = -1 then Inr r
           else bind_r (newSegmentTermEnum rb True tii) (\<lambda>indexEnum.
             let indexSize = 1 + (trunc32 (te_size indexEnum) - 1) sdiv indexDivisor in
             if indexSize < 0 then Inl OutOfRange
             else let n = nat indexSize in
               bind_r (returns (tr_indexLoop fis rb rbs (nat indexDivisor) 0 (replicate n None, replicate n None, replicate n 0) indexEnum))
                 (\<lambda>(terms, infos, pointers).
                   Inr (r\<lparr>tr_totalIndexInterval := trunc32 (te_indexInterval origEnum * indexDivisor), tr_indexTerms := Some terms, tr_indexInfos := infos,
                          tr_indexPointers := pointers\<rparr>)))))"

text \<open>\<^verbatim>\<open>std::upper_bound\<close> with \<^verbatim>\<open>luceneCompare\<close>, for which no term is less than every term.\<close>

definition luceneCompare :: "lterm option \<Rightarrow> lterm option \<Rightarrow> bool" where
  "luceneCompare a b = (case b of None \<Rightarrow> False | Some b \<Rightarrow> (case a of None \<Rightarrow> True | Some a \<Rightarrow> term_compare a b < 0))"

definition upper_bound :: "('a \<Rightarrow> 'a \<Rightarrow> bool) \<Rightarrow> 'a list \<Rightarrow> 'a \<Rightarrow> nat" where
  "upper_bound before xs v = length (takeWhile (\<lambda>x. \<not> before v x) xs)"

definition tr_getIndexOffset :: "lterm \<Rightarrow> lterm option list \<Rightarrow> int" where
  "tr_getIndexOffset t indexTerms = int (upper_bound luceneCompare indexTerms (Some t)) - 1"

definition tr_seekEnum :: "(nat \<Rightarrow> 's \<Rightarrow> 's result) \<Rightarrow> int \<Rightarrow> lterm option list \<Rightarrow> 's infos_reader \<Rightarrow> 's term_enum result" where
  "tr_seekEnum sk indexOffset indexTerms r =
     (if indexOffset < 0 then Inl OutOfRange
      else bind_r (arr_get (tr_indexPointers r) (nat indexOffset)) (\<lambda>pointer. bind_r (arr_get indexTerms (nat indexOffset)) (\<lambda>t.
        bind_r (arr_get (tr_indexInfos r) (nat indexOffset)) (\<lambda>ti.
        case ti of None \<Rightarrow> Inl OutOfRange
        | Some ti \<Rightarrow> te_seek sk pointer (indexOffset * tr_totalIndexInterval r - 1) t ti (tr_termEnum r)))))"

text \<open>The entry of the enumeration if it is the term; \<open>fill\<close> puts it into the cache.\<close>

definition tr_found :: "lterm \<Rightarrow> bool \<Rightarrow> 's term_enum \<Rightarrow> 's infos_reader \<Rightarrow> term_info option \<times> 's infos_reader" where
  "tr_found t fill e r =
     (let r = r\<lparr>tr_termEnum := e\<rparr> in
      case te_term e of None \<Rightarrow> (None, r)
      | Some u \<Rightarrow> if term_compare t u = 0
          then (Some (te_termInfo e), if fill then r\<lparr>tr_cache := lru_put t (te_termInfo e) (tr_cache r)\<rparr> else r) else (None, r))"

text \<open>The test of \<^verbatim>\<open>get\<close> whether the term is in the block of the enumeration, at or behind its entry.\<close>

definition tr_here :: "lterm \<Rightarrow> lterm option list \<Rightarrow> 's infos_reader \<Rightarrow> bool result" where
  "tr_here t indexTerms r = (let e = tr_termEnum r in
     case te_term e of None \<Rightarrow> Inr False
     | Some u \<Rightarrow>
         if tr_totalIndexInterval r = 0 then Inl OutOfRange
         else if (case te_prev e of None \<Rightarrow> False | Some p \<Rightarrow> 0 < term_compare t p) \<or> 0 \<le> term_compare t u then
           let enumOffset = trunc32 (te_position e sdiv tr_totalIndexInterval r) + 1 in
           if int (length indexTerms) = enumOffset then Inr True
           else if enumOffset < 0 then Inl OutOfRange
           else bind_r (arr_get indexTerms (nat enumOffset)) (\<lambda>x. case x of None \<Rightarrow> Inl OutOfRange | Some x \<Rightarrow> Inr (term_compare t x < 0))
         else Inr False)"

definition tr_get ::
  "field_infos \<Rightarrow> 's reader \<Rightarrow> (nat \<Rightarrow> 's \<Rightarrow> (byte list \<times> 's) result) \<Rightarrow> (nat \<Rightarrow> 's \<Rightarrow> 's result) \<Rightarrow> lterm \<Rightarrow> bool \<Rightarrow>
   's infos_reader \<Rightarrow> (term_info option \<times> 's infos_reader) result" where
  "tr_get fis rb rbs sk t useCache r =
     (if tr_size r = 0 then Inr (None, r)
      else case tr_indexTerms r of None \<Rightarrow> Inl IllegalState
      | Some indexTerms \<Rightarrow>
        bind_r (if useCache then lru_get t (tr_cache r) else Inr (None, tr_cache r)) (\<lambda>(cached, cache).
        let r = r\<lparr>tr_cache := cache\<rparr>; e = tr_termEnum r in
        case cached of Some ti \<Rightarrow> Inr (Some ti, r)
        | None \<Rightarrow>
          bind_r (tr_here t indexTerms r) (\<lambda>here.
          if here then
            bind_r (te_scanTo fis rb rbs t e) (\<lambda>(numScans, e). Inr (tr_found t (useCache \<and> 1 < numScans) e r))
          else
            bind_r (tr_seekEnum sk (tr_getIndexOffset t indexTerms) indexTerms r) (\<lambda>e.
            bind_r (te_scanTo fis rb rbs t e) (\<lambda>(_, e). Inr (tr_found t useCache e r))))))"

text \<open>\<^verbatim>\<open>getPosition\<close>: its loop compares with the term of the enumeration, a null pointer in front of the
  first entry.\<close>

partial_function (option) tr_positionLoop ::
  "field_infos \<Rightarrow> 's reader \<Rightarrow> (nat \<Rightarrow> 's \<Rightarrow> (byte list \<times> 's) result) \<Rightarrow> lterm \<Rightarrow> 's term_enum \<Rightarrow> 's term_enum result option" where
  "tr_positionLoop fis rb rbs t e =
     (case te_term e of None \<Rightarrow> Some (Inl OutOfRange)
      | Some u \<Rightarrow>
          if 0 < term_compare t u then
            (case te_next fis rb rbs e of Inl x \<Rightarrow> Some (Inl x)
             | Inr (found, e) \<Rightarrow> if found then tr_positionLoop fis rb rbs t e else Some (Inr e))
          else Some (Inr e))"

definition tr_getPosition ::
  "field_infos \<Rightarrow> 's reader \<Rightarrow> (nat \<Rightarrow> 's \<Rightarrow> (byte list \<times> 's) result) \<Rightarrow> (nat \<Rightarrow> 's \<Rightarrow> 's result) \<Rightarrow> lterm \<Rightarrow>
   's infos_reader \<Rightarrow> (int \<times> 's infos_reader) result" where
  "tr_getPosition fis rb rbs sk t r =
     (if tr_size r = 0 then Inr (-1, r)
      else case tr_indexTerms r of None \<Rightarrow> Inl IllegalState
      | Some indexTerms \<Rightarrow>
        bind_r (tr_seekEnum sk (tr_getIndexOffset t indexTerms) indexTerms r) (\<lambda>e.
        bind_r (returns (tr_positionLoop fis rb rbs t e)) (\<lambda>e.
        case te_term e of None \<Rightarrow> Inl OutOfRange
        | Some u \<Rightarrow> Inr (if term_compare t u = 0 then te_position e else -1, r\<lparr>tr_termEnum := e\<rparr>))))"

subsection \<open>The order of the terms\<close>

definition term_key :: "lterm \<Rightarrow> int list \<times> int list" where
  "term_key t = (map sint (fst t), map sint (snd t))"

lemma sint_eq: "sint v = sint w \<longleftrightarrow> v = w" for v w :: uchar
  by (rule word_eq_iff_signed [symmetric])

lemma compareChars_sign:
  "compareChars s t < 0 \<longleftrightarrow> (map sint s :: int list) < map sint t" "compareChars s t = 0 \<longleftrightarrow> s = t"
  by (induction s t rule: compareChars.induct) (auto simp: sint_eq, (case_tac t; simp)+)

lemma map_sint_inject: "(map sint s :: int list) = map sint t \<longleftrightarrow> s = t" for s t :: "uchar list"
  by (rule inj_map_eq_map) (simp add: inj_def sint_eq)

lemma term_compare_sign:
  "term_compare a b < 0 \<longleftrightarrow> term_key a < term_key b" "term_compare a b = 0 \<longleftrightarrow> a = b"
  using compareChars_sign by (cases a; cases b; auto simp: term_compare_def term_key_def less_prod_def map_sint_inject le_less)+

lemma term_key_inject: "term_key a = term_key b \<longleftrightarrow> a = b"
  by (cases a; cases b) (simp add: term_key_def map_sint_inject)

lemma term_compare_pos: "0 < term_compare a b \<longleftrightarrow> term_key b < term_key a"
  using term_compare_sign [of a b] term_key_inject [of a b] by (metis less_linear not_less_iff_gr_or_eq)

lemma term_compare_unset: "fst t \<noteq> [] \<Longrightarrow> 0 < term_compare t ([], [])"
  by (cases t; cases "fst t") (auto simp: term_compare_def)

subsection \<open>Reading the format\<close>

context in_stream begin

lemma reads_vlong: "reads (readVLong rb) (nat_wire (unat i)) i"
  by (rule readsI) (rule byte_source.gets_vlong)

lemma reads_int: "reads (readInt rb) (int_wire i) i"
  by (rule readsI) (rule byte_source.gets_int)

lemma reads_long: "reads (readLong rb) (long_wire i) i"
  by (rule readsI) (rule byte_source.gets_long)

lemma reads_go:
  assumes "reads f bs v" "at D q s" "q \<le> length D" "drop q D = bs @ r"
  shows "\<exists>s'. f s = Inr (v, s') \<and> at D (q + length bs) s' \<and> q + length bs \<le> length D \<and> drop (q + length bs) D = r"
proof -
  have "length D - q = length bs + length r" using assms(4) by (metis length_append length_drop)
  then have "q + length bs \<le> length D" using assms(3) by linarith
  moreover have "drop (q + length bs) D = r" using arg_cong [OF assms(4), of "drop (length bs)"] by (simp add: add.commute)
  ultimately show ?thesis using readsD [OF assms] by blast
qed

end

definition in_int32 :: "int \<Rightarrow> bool" where
  "in_int32 i \<longleftrightarrow> - (2 ^ 31) \<le> i \<and> i < 2 ^ 31"

lemma sint_int32: "in_int32 i \<Longrightarrow> sint (of_int i :: int32) = i"
  unfolding in_int32_def by (simp add: signed_of_int signed_take_bit_int_eq_self)

lemma sint_delta: "0 \<le> i \<Longrightarrow> i < 2 ^ 63 \<Longrightarrow> 0 \<le> j \<Longrightarrow> j < 2 ^ 63 \<Longrightarrow> sint (of_int i - of_int j :: int64) = i - j"
proof -
  assume "0 \<le> i" "i < 2 ^ 63" "0 \<le> j" "j < 2 ^ 63"
  then have "sint (of_int (i - j) :: int64) = i - j" by (simp only: signed_of_int) (simp add: signed_take_bit_int_eq_self)
  then show ?thesis by simp
qed

text \<open>Entries that the format can hold.\<close>

definition bytes_ok :: "byte list \<Rightarrow> bool" where
  "bytes_ok b \<longleftrightarrow> (\<exists>t. string_ok t \<and> b = utf8_bytes t) \<and> size_ok b"

definition info_ok :: "term_info \<Rightarrow> bool" where
  "info_ok ti \<longleftrightarrow> in_int32 (ti_docFreq ti) \<and> in_int32 (ti_skipOffset ti) \<and>
     0 \<le> ti_freqPointer ti \<and> ti_freqPointer ti < 2 ^ 63 \<and> 0 \<le> ti_proxPointer ti \<and> ti_proxPointer ti < 2 ^ 63"

definition dict_entry_ok :: "dict_entry \<Rightarrow> bool" where
  "dict_entry_ok = (\<lambda>(n, b, ti, ptr). in_int32 n \<and> bytes_ok b \<and> info_ok ti \<and> (case ptr of None \<Rightarrow> True | Some p \<Rightarrow> p < 2 ^ 63))"

text \<open>An info as it is read: the offset of the skip data is on file for long postings only, otherwise the one of an
  earlier entry stays.\<close>

definition ti_sim :: "nat \<Rightarrow> term_info \<Rightarrow> term_info \<Rightarrow> bool" where
  "ti_sim skip a b \<longleftrightarrow> ti_docFreq a = ti_docFreq b \<and> ti_freqPointer a = ti_freqPointer b \<and> ti_proxPointer a = ti_proxPointer b \<and>
     (int skip \<le> ti_docFreq b \<longrightarrow> ti_skipOffset a = ti_skipOffset b)"

definition entry_text :: "byte list \<Rightarrow> uchar list" where
  "entry_text b = (case toUnicode b of Inl _ \<Rightarrow> [] | Inr t \<Rightarrow> t)"

definition entry_term :: "field_infos \<Rightarrow> dict_entry \<Rightarrow> lterm" where
  "entry_term fis e = (fis_fieldName fis (fst e), entry_text (fst (snd e)))"

lemma entry_text_bytes: "text_ok t \<Longrightarrow> entry_text (utf8_bytes t) = t"
  by (simp add: entry_text_def toUnicode_text text_ok_def)

lemma bytes_okE:
  assumes "bytes_ok b"
  obtains t where "string_ok t" "b = utf8_bytes t" "toUTF8 t = Inr b" "toUnicode b = Inr t" "entry_text b = t" "length b < 2 ^ 31"
  using assms toUTF8_bytes toUnicode_text entry_text_bytes size_ok_length unfolding bytes_ok_def string_ok_def text_ok_def by blast

definition dict_file :: "bool \<Rightarrow> nat \<Rightarrow> dict_entry list \<Rightarrow> byte list \<Rightarrow> bool" where
  "dict_file isIndex interval es D \<longleftrightarrow> D = dict_header (length es) interval @ dict_wire 16 dict_start es \<and> length es < 2 ^ 31 \<and> interval < 2 ^ 31 \<and>
     (\<forall>e\<in>set es. dict_entry_ok e \<and> (snd (snd (snd e)) = None \<longleftrightarrow> \<not> isIndex))"

lemma foldl_last:
  assumes "k \<le> length es" "\<forall>e\<in>set es. snd (snd (snd e)) = None \<longleftrightarrow> \<not> isIndex"
  shows "foldl last_of dict_start (take k es) = (if k = 0 then [] else fst (snd (es ! (k - 1))), if k = 0 then no_info else fst (snd (snd (es ! (k - 1)))),
    if isIndex \<and> k \<noteq> 0 then int (the (snd (snd (snd (es ! (k - 1)))))) else 0)"
  using assms
proof (induction k)
  case (Suc k)
  obtain n b ti ptr where e: "es ! k = (n, b, ti, ptr)" by (cases "es ! k")
  have "es ! k \<in> set es" using Suc.prems(1) by simp
  then have "ptr = None \<longleftrightarrow> \<not> isIndex" using Suc.prems(2) e by fastforce
  moreover have "take (Suc k) es = take k es @ [es ! k]" using Suc.prems(1) by (simp add: take_Suc_conv_app_nth)
  ultimately show ?case using Suc e by (cases isIndex) (auto simp: last_of_def)
qed simp

lemma entry_offset_file:
  assumes "D = dict_header n interval @ dict_wire 16 dict_start es"
  shows "entry_offset es k \<le> length D" "drop (entry_offset es k) D = dict_wire 16 (foldl last_of dict_start (take k es)) (drop k es)"
proof -
  have "dict_wire 16 dict_start es = dict_wire 16 dict_start (take k es) @ dict_wire 16 (foldl last_of dict_start (take k es)) (drop k es)"
    by (metis append_take_drop_id dict_wire_append)
  then have D: "D = (dict_header n interval @ dict_wire 16 dict_start (take k es)) @ dict_wire 16 (foldl last_of dict_start (take k es)) (drop k es)"
    using assms by simp
  have l: "length (dict_header n interval @ dict_wire 16 dict_start (take k es)) = entry_offset es k" by (simp add: entry_offset_def)
  show "entry_offset es k \<le> length D" using D l by simp
  show "drop (entry_offset es k) D = dict_wire 16 (foldl last_of dict_start (take k es)) (drop k es)" unfolding D l [symmetric] by simp
qed

context in_stream begin

lemma reads_term:
  assumes pb: "string_ok t0" "utf8_bytes t0 = pb" "length pb < 2 ^ 31" and b: "bytes_ok b" and n: "in_int32 n"
  shows "reads (tb_read False fis rb rbs (f0, t0)) (term_wire pb n b) (fis_fieldName fis n, entry_text b)"
proof -
  let ?k = "common_prefix b pb" and ?l = "length b - common_prefix b pb"
  have k: "?k \<le> length b" "?k \<le> length pb" "take ?k pb = take ?k b" using common_prefix_take [of b pb] by simp_all
  from b obtain t where t: "toUnicode b = Inr t" "entry_text b = t" "length b < 2 ^ 31" by (rule bytes_okE)
  have u0: "toUTF8 t0 = Inr pb" using pb(1,2) toUTF8_bytes by blast
  have sk: "sint (of_int (int ?k) :: int32) = int ?k" "sint (of_int (int ?l) :: int32) = int ?l"
    by (rule sint_int32, use k t(3) in \<open>simp add: in_int32_def\<close>)+
  have sn: "sint (of_int n :: int32) = n" using n by (rule sint_int32)
  have lb: "length (drop ?k b) < 2 ^ 31" using t(3) by simp
  have j: "take ?k pb @ drop ?k b = b" using k(3) by simp
  let ?named = "\<lambda>text s. bind_r (readVInt rb s) (\<lambda>(n, s). Inr ((fis_fieldName fis (sint n), text), s))"
  let ?text = "\<lambda>bs s. bind_r (toUnicode (take ?k pb @ bs)) (\<lambda>text. Inr (text, s))"
  have e: "reads (?named t) (vint_wire n) (fis_fieldName fis n, entry_text b)"
    using reads_bind [OF reads_vint reads_return, of "\<lambda>n. (fis_fieldName fis (sint n), t)" "of_int n"] sn t(2) by (simp add: vint_wire_def)
  have "reads (\<lambda>s. bind_r (?text (drop ?k b) s) (\<lambda>(text, s). ?named text s)) (vint_wire n) (fis_fieldName fis n, entry_text b)"
    using e unfolding j t(1) by simp
  from reads_bind [where g = "\<lambda>bs s. bind_r (?text bs s) (\<lambda>(text, s). ?named text s)", OF reads_bytes [OF lb] this]
  have bs: "reads (\<lambda>s. bind_r (rbs ?l s) (\<lambda>(bs, s). bind_r (?text bs s) (\<lambda>(text, s). ?named text s))) (drop ?k b @ vint_wire n) (fis_fieldName fis n, entry_text b)"
    by simp
  let ?g2 = "\<lambda>(start :: int32) (len :: int32) s. let start = sint start; len = sint len in
     bind_r (bind_r (toUTF8 t0) (\<lambda>bytes.
               if start < 0 \<or> len < 0 \<or> int (length bytes) < start then Inl OutOfRange
               else bind_r (rbs (nat len) s) (\<lambda>(bs, s). bind_r (toUnicode (take (nat start) bytes @ bs)) (\<lambda>text. Inr (text, s))))) (\<lambda>(text, s). ?named text s)"
  have "?g2 (of_int (int ?k)) (of_int (int ?l)) = (\<lambda>s. bind_r (rbs ?l s) (\<lambda>(bs, s). bind_r (?text bs s) (\<lambda>(text, s). ?named text s)))"
    using k(2) by (simp only: sk Let_def u0 bind_r_simps) (simp add: split_def bind_r_assoc)
  then have g2: "reads (?g2 (of_int (int ?k)) (of_int (int ?l))) (drop ?k b @ vint_wire n) (fis_fieldName fis n, entry_text b)" using bs by simp
  have "reads (\<lambda>s. bind_r (readVInt rb s) (\<lambda>(len, s). ?g2 (of_int (int ?k)) len s)) (vint_wire (int ?l) @ drop ?k b @ vint_wire n) (fis_fieldName fis n, entry_text b)"
    unfolding vint_wire_def [of "int ?l"] by (rule reads_bind [where g = "\<lambda>len s. ?g2 (of_int (int ?k)) len s", OF reads_vint g2])
  from reads_bind [where g = "\<lambda>start s. bind_r (readVInt rb s) (\<lambda>(len, s). ?g2 start len s)", OF reads_vint this]
  have "reads (\<lambda>s. bind_r (readVInt rb s) (\<lambda>(start, s). bind_r (readVInt rb s) (\<lambda>(len, s). ?g2 start len s))) (term_wire pb n b) (fis_fieldName fis n, entry_text b)"
    unfolding term_wire_def vint_wire_def [of "int ?k"] .
  then show ?thesis unfolding tb_read_def [abs_def] snd_conv if_False .
qed

lemma reads_info:
  assumes e: "te_format e = -4" "te_skipInterval e = int skip" "ti_freqPointer (te_termInfo e) = ti_freqPointer pti" "ti_proxPointer (te_termInfo e) = ti_proxPointer pti"
    and ok: "info_ok ti" "info_ok pti"
  shows "\<exists>ti'. reads (te_readInfo rb e) (info_wire skip pti ti) ti' \<and> ti_sim skip ti' ti"
proof -
  let ?ti = "(te_termInfo e)\<lparr>ti_docFreq := ti_docFreq ti, ti_freqPointer := ti_freqPointer ti, ti_proxPointer := ti_proxPointer ti\<rparr>"
  let ?ti' = "if int skip \<le> ti_docFreq ti then ?ti\<lparr>ti_skipOffset := ti_skipOffset ti\<rparr> else ?ti"
  let ?df = "of_int (ti_docFreq ti) :: int32" and ?fd = "of_int (ti_freqPointer ti - ti_freqPointer pti) :: int64"
    and ?pd = "of_int (ti_proxPointer ti - ti_proxPointer pti) :: int64"
  have d: "sint ?df = ti_docFreq ti" "sint (of_int (ti_skipOffset ti) :: int32) = ti_skipOffset ti"
    using ok sint_int32 by (simp_all add: info_ok_def)
  have f: "sint ?fd = ti_freqPointer ti - ti_freqPointer pti" "sint ?pd = ti_proxPointer ti - ti_proxPointer pti"
    unfolding of_int_diff using ok by (auto intro!: sint_delta simp: info_ok_def)
  have sum: "ti_freqPointer pti + (ti_freqPointer ti - ti_freqPointer pti) = ti_freqPointer ti"
    "ti_proxPointer pti + (ti_proxPointer ti - ti_proxPointer pti) = ti_proxPointer ti" by simp_all
  let ?g = "\<lambda>(docFreq :: int32) (freqDelta :: int64) (proxDelta :: int64) s.
     let ti = (te_termInfo e)\<lparr>ti_docFreq := sint docFreq, ti_freqPointer := ti_freqPointer (te_termInfo e) + sint freqDelta,
                              ti_proxPointer := ti_proxPointer (te_termInfo e) + sint proxDelta\<rparr>
     in if (if te_format e = -1 then \<not> te_isIndex e \<and> te_formatM1SkipInterval e < sint docFreq else te_skipInterval e \<le> sint docFreq)
        then bind_r (readVInt rb s) (\<lambda>(skipOffset, s). Inr (ti\<lparr>ti_skipOffset := sint skipOffset\<rparr>, s)) else Inr (ti, s)"
  let ?w = "if int skip \<le> ti_docFreq ti then vint_wire (ti_skipOffset ti) else []"
  have g: "?g ?df ?fd ?pd = (\<lambda>s. if int skip \<le> ti_docFreq ti
      then bind_r (readVInt rb s) (\<lambda>(skipOffset, s). Inr (?ti\<lparr>ti_skipOffset := sint skipOffset\<rparr>, s)) else Inr (?ti, s))"
    unfolding Let_def d f e sum using e(1) by simp
  have "reads (\<lambda>s. bind_r (readVInt rb s) (\<lambda>(skipOffset, s). Inr (?ti\<lparr>ti_skipOffset := sint skipOffset\<rparr>, s)))
      (vint_wire (ti_skipOffset ti)) (?ti\<lparr>ti_skipOffset := ti_skipOffset ti\<rparr>)"
    using reads_bind [OF reads_vint reads_return, of "\<lambda>x. ?ti\<lparr>ti_skipOffset := sint x\<rparr>" "of_int (ti_skipOffset ti)"] d(2) by (simp add: vint_wire_def)
  then have "reads (?g ?df ?fd ?pd) ?w ?ti'" unfolding g using reads_return [of ?ti] by simp
  from reads_bind [where g = "?g ?df ?fd", OF reads_vlong this]
  have "reads (\<lambda>s. bind_r (readVLong rb s) (\<lambda>(proxDelta, s). ?g ?df ?fd proxDelta s)) (vlong_wire (ti_proxPointer ti - ti_proxPointer pti) @ ?w) ?ti'"
    unfolding vlong_wire_def .
  from reads_bind [where g = "\<lambda>fd s. bind_r (readVLong rb s) (\<lambda>(proxDelta, s). ?g ?df fd proxDelta s)", OF reads_vlong this]
  have "reads (\<lambda>s. bind_r (readVLong rb s) (\<lambda>(fd, s). bind_r (readVLong rb s) (\<lambda>(proxDelta, s). ?g ?df fd proxDelta s)))
      (vlong_wire (ti_freqPointer ti - ti_freqPointer pti) @ vlong_wire (ti_proxPointer ti - ti_proxPointer pti) @ ?w) ?ti'"
    unfolding vlong_wire_def [of "ti_freqPointer ti - ti_freqPointer pti"] .
  from reads_bind [where g = "\<lambda>df s. bind_r (readVLong rb s) (\<lambda>(fd, s). bind_r (readVLong rb s) (\<lambda>(proxDelta, s). ?g df fd proxDelta s))", OF reads_vint this]
  have "reads (te_readInfo rb e) (info_wire skip pti ti) ?ti'"
    unfolding te_readInfo_def [abs_def] info_wire_def vint_wire_def [of "ti_docFreq ti"] .
  moreover have "ti_sim skip ?ti' ti" by (simp add: ti_sim_def)
  ultimately show ?thesis by blast
qed

lemma reads_entry:
  assumes e: "te_format e = -4" "te_skipInterval e = 16" "te_isIndex e \<longleftrightarrow> ptr \<noteq> None" "ptr \<noteq> None \<Longrightarrow> te_indexPointer e = pp"
    and t0: "string_ok (snd (te_termBuffer e))" "utf8_bytes (snd (te_termBuffer e)) = pb" "length pb < 2 ^ 31"
    and ti: "ti_sim 16 (te_termInfo e) pti" "info_ok pti" "0 \<le> pp" "pp < 2 ^ 63" and ok: "dict_entry_ok (n, b, ti, ptr)"
  shows "\<exists>ti' ip. reads (te_readEntry fis rb rbs e) (dict_entry_wire 16 (pb, pti, pp) (n, b, ti, ptr)) (entry_term fis (n, b, ti, ptr), ti', ip) \<and>
    ti_sim 16 ti' ti \<and> (case ptr of None \<Rightarrow> True | Some p \<Rightarrow> ip = int p)"
proof -
  have ok': "in_int32 n" "bytes_ok b" "info_ok ti" "\<And>p. ptr = Some p \<Longrightarrow> p < 2 ^ 63" using ok by (auto simp: dict_entry_ok_def)
  have pre: "te_preUTF8Strings e = False" using e(1) by (simp add: te_preUTF8Strings_def FORMAT_CURRENT_def)
  have t: "reads (tb_read (te_preUTF8Strings e) fis rb rbs (te_termBuffer e)) (term_wire pb n b) (fis_fieldName fis n, entry_text b)"
    unfolding pre using reads_term [OF t0 ok'(2,1), of fis "fst (te_termBuffer e)"] by simp
  obtain ti' where ti': "reads (te_readInfo rb e) (info_wire 16 pti ti) ti'" "ti_sim 16 ti' ti"
    using reads_info [of e 16 pti ti] e(1,2) ti(1,2) ok'(3) by (auto simp: ti_sim_def)
  let ?t = "(fis_fieldName fis n, entry_text b)"
  let ?ptr = "\<lambda>t ti s. if te_isIndex e then bind_r (readVLong rb s) (\<lambda>(delta, s). Inr ((t, ti, te_indexPointer e + sint delta), s))
       else Inr ((t, ti, te_indexPointer e), s)"
  let ?w = "case ptr of None \<Rightarrow> [] | Some p \<Rightarrow> vlong_wire (int p - pp)"
  let ?ip = "case ptr of None \<Rightarrow> te_indexPointer e | Some p \<Rightarrow> int p"
  have "reads (?ptr ?t ti') ?w (?t, ti', ?ip)"
  proof (cases ptr)
    case None
    then show ?thesis using e(3) reads_return [of "(?t, ti', te_indexPointer e)"] by simp
  next
    case (Some p)
    have "sint (of_int (int p) - of_int pp :: int64) = int p - pp" using ok'(4) [OF Some] ti(3,4) by (intro sint_delta) simp_all
    then have "sint (of_int (int p - pp) :: int64) = int p - pp" unfolding of_int_diff .
    then show ?thesis using Some e(3,4) reads_bind [OF reads_vlong reads_return, of "\<lambda>delta. (?t, ti', te_indexPointer e + sint delta)" "of_int (int p - pp)"]
      by (simp add: vlong_wire_def)
  qed
  from reads_bind [where g = "\<lambda>ti s. ?ptr ?t ti s", OF ti'(1) this]
  have "reads (\<lambda>s. bind_r (te_readInfo rb e s) (\<lambda>(ti, s). ?ptr ?t ti s)) (info_wire 16 pti ti @ ?w) (?t, ti', ?ip)" .
  from reads_bind [where g = "\<lambda>t s. bind_r (te_readInfo rb e s) (\<lambda>(ti, s). ?ptr t ti s)", OF t this]
  have "reads (te_readEntry fis rb rbs e) (dict_entry_wire 16 (pb, pti, pp) (n, b, ti, ptr)) (?t, ti', ?ip)"
    unfolding te_readEntry_def [abs_def] dict_entry_wire_def prod.case append_assoc .
  moreover have "entry_term fis (n, b, ti, ptr) = ?t" by (simp add: entry_term_def)
  ultimately show ?thesis using ti'(2) by (intro exI [of _ ti'] exI [of _ ?ip]) (auto split: option.splits)
qed

definition te_const :: "bool \<Rightarrow> dict_entry list \<Rightarrow> 's term_enum \<Rightarrow> bool" where
  "te_const isIndex es e \<longleftrightarrow> te_format e = -4 \<and> te_skipInterval e = 16 \<and> te_isIndex e = isIndex \<and> te_size e = int (length es)"

text \<open>The enumeration stands behind the entry \<open>k - 1\<close>, or in front of all.\<close>

definition te_at :: "field_infos \<Rightarrow> bool \<Rightarrow> byte list \<Rightarrow> dict_entry list \<Rightarrow> nat \<Rightarrow> 's term_enum \<Rightarrow> bool" where
  "te_at fis isIndex D es k e \<longleftrightarrow> te_const isIndex es e \<and> k \<le> length es \<and> te_position e = int k - 1 \<and>
     at D (entry_offset es k) (te_input e) \<and> te_termBuffer e = (if k = 0 then ([], []) else entry_term fis (es ! (k - 1))) \<and>
     ti_sim 16 (te_termInfo e) (if k = 0 then no_info else fst (snd (snd (es ! (k - 1))))) \<and>
     (isIndex \<longrightarrow> te_indexPointer e = (if k = 0 then 0 else int (the (snd (snd (snd (es ! (k - 1)))))))) \<and>
     (te_prevBuffer e = ([], []) \<or> 2 \<le> k \<and> te_prevBuffer e = entry_term fis (es ! (k - 2)))"

definition te_ended :: "bool \<Rightarrow> byte list \<Rightarrow> dict_entry list \<Rightarrow> 's term_enum \<Rightarrow> bool" where
  "te_ended isIndex D es e \<longleftrightarrow> te_const isIndex es e \<and> int (length es) \<le> te_position e \<and> te_termBuffer e = ([], []) \<and>
     (\<exists>p\<le>length D. at D p (te_input e))"

lemma next_entry:
  assumes e: "te_at fis isIndex D es k e" and k: "k < length es" and D: "dict_file isIndex interval es D"
  shows "\<exists>e'. te_next fis rb rbs e = Inr (True, e') \<and> te_at fis isIndex D es (Suc k) e'"
proof -
  note i = e [unfolded te_at_def te_const_def]
  have all: "\<forall>e\<in>set es. dict_entry_ok e" "\<forall>e\<in>set es. snd (snd (snd e)) = None \<longleftrightarrow> \<not> isIndex"
    and D': "D = dict_header (length es) interval @ dict_wire 16 dict_start es" using D by (simp_all add: dict_file_def)
  obtain n b ti ptr where x: "es ! k = (n, b, ti, ptr)" by (cases "es ! k")
  have ok: "dict_entry_ok (n, b, ti, ptr)" "ptr = None \<longleftrightarrow> \<not> isIndex" using all k x nth_mem [OF k] by fastforce+
  obtain pb pti pp where p: "foldl last_of dict_start (take k es) = (pb, pti, pp)" by (metis prod_cases3)
  note p' = foldl_last [OF less_imp_le [OF k] all(2), unfolded p]
  have prev: "string_ok (snd (te_termBuffer e)) \<and> utf8_bytes (snd (te_termBuffer e)) = pb \<and> length pb < 2 ^ 31 \<and> info_ok pti \<and>
      ti_sim 16 (te_termInfo e) pti \<and> 0 \<le> pp \<and> pp < 2 ^ 63 \<and> (ptr \<noteq> None \<longrightarrow> te_indexPointer e = pp)"
  proof (cases "k = 0")
    case True
    then show ?thesis using p' i ok(2) by (auto simp: string_ok_def text_ok_def utf8_bytes_def info_ok_def no_info_def in_int32_def)
  next
    case False
    obtain n0 b0 ti0 ptr0 where x0: "es ! (k - 1) = (n0, b0, ti0, ptr0)" by (cases "es ! (k - 1)")
    have "es ! (k - 1) \<in> set es" using k by simp
    then have ok0: "dict_entry_ok (n0, b0, ti0, ptr0)" "ptr0 = None \<longleftrightarrow> \<not> isIndex" using all x0 by fastforce+
    then have "bytes_ok b0" by (simp add: dict_entry_ok_def)
    then obtain t where t: "string_ok t" "b0 = utf8_bytes t" "entry_text b0 = t" "length b0 < 2 ^ 31" by (rule bytes_okE)
    show ?thesis using False p' x0 t i ok0 ok(2) by (auto simp: entry_term_def dict_entry_ok_def split: option.splits)
  qed
  have wire: "drop (entry_offset es k) D = dict_entry_wire 16 (pb, pti, pp) (n, b, ti, ptr) @ dict_wire 16 (last_of (pb, pti, pp) (n, b, ti, ptr)) (drop (Suc k) es)"
    using entry_offset_file(2) [OF D', of k] unfolding p Cons_nth_drop_Suc [OF k, symmetric] x by simp
  have e1: "te_format e = -4" "te_skipInterval e = 16" "te_isIndex e \<longleftrightarrow> ptr \<noteq> None" using i ok(2) by auto
  from prev have pr: "string_ok (snd (te_termBuffer e))" "utf8_bytes (snd (te_termBuffer e)) = pb" "length pb < 2 ^ 31" "ti_sim 16 (te_termInfo e) pti" "info_ok pti"
    "0 \<le> pp" "pp < 2 ^ 63" "ptr \<noteq> None \<Longrightarrow> te_indexPointer e = pp" by blast+
  from reads_entry [OF e1 pr(8,1-7) ok(1), of fis] obtain ti' ip where
    r: "reads (te_readEntry fis rb rbs e) (dict_entry_wire 16 (pb, pti, pp) (n, b, ti, ptr)) (entry_term fis (n, b, ti, ptr), ti', ip)"
    "ti_sim 16 ti' ti" "case ptr of None \<Rightarrow> True | Some p \<Rightarrow> ip = int p" by blast
  have at: "at D (entry_offset es k) (te_input e)" using i by blast
  from reads_go [OF r(1) at entry_offset_file(1) [OF D'] wire] obtain s where s: "te_readEntry fis rb rbs e (te_input e) = Inr ((entry_term fis (n, b, ti, ptr), ti', ip), s)"
    "at D (entry_offset es k + length (dict_entry_wire 16 (pb, pti, pp) (n, b, ti, ptr))) s" by blast
  have off: "entry_offset es (Suc k) = entry_offset es k + length (dict_entry_wire 16 (pb, pti, pp) (n, b, ti, ptr))"
    using k p x by (simp add: entry_offset_def take_Suc_conv_app_nth dict_wire_append)
  let ?e = "e\<lparr>te_position := te_position e + 1, te_prevBuffer := te_termBuffer e, te_input := s, te_termBuffer := entry_term fis (n, b, ti, ptr),
      te_termInfo := ti', te_indexPointer := ip\<rparr>"
  have "te_next fis rb rbs e = Inr (True, ?e)" using s(1) i k by (simp add: te_next_def)
  moreover have "te_at fis isIndex D es (Suc k) ?e"
    using i k x s(2) off r(2,3) ok(2) by (auto simp: te_at_def te_const_def split: option.splits)
  ultimately show ?thesis by blast
qed

lemma next_end:
  assumes "te_at fis isIndex D es k e" "k = length es" "dict_file isIndex interval es D"
  shows "\<exists>e'. te_next fis rb rbs e = Inr (False, e') \<and> te_ended isIndex D es e'"
  using assms entry_offset_file(1) [of D "length es" interval es k]
  by (auto simp: te_at_def te_const_def te_next_def te_ended_def dict_file_def)

lemma next_ended:
  assumes "te_ended isIndex D es e"
  shows "\<exists>e'. te_next fis rb rbs e = Inr (False, e') \<and> te_ended isIndex D es e'"
  using assms by (auto simp: te_ended_def te_const_def te_next_def)

end

subsection \<open>Lookups\<close>

definition dict_map :: "field_infos \<Rightarrow> dict_entry list \<Rightarrow> (lterm \<times> term_info) list" where
  "dict_map fis es = map (\<lambda>e. (entry_term fis e, fst (snd (snd e)))) es"

abbreviation nth_key :: "field_infos \<Rightarrow> dict_entry list \<Rightarrow> nat \<Rightarrow> int list \<times> int list" where
  "nth_key fis es i \<equiv> term_key (entry_term fis (es ! i))"

definition dict_sorted :: "field_infos \<Rightarrow> dict_entry list \<Rightarrow> bool" where
  "dict_sorted fis es \<longleftrightarrow> sorted_wrt (\<lambda>a b. term_key (entry_term fis a) < term_key (entry_term fis b)) es \<and>
     (\<forall>e\<in>set es. fst (entry_term fis e) \<noteq> [])"

definition lookup_ok :: "field_infos \<Rightarrow> dict_entry list \<Rightarrow> lterm \<Rightarrow> term_info option \<Rightarrow> bool" where
  "lookup_ok fis es t res \<longleftrightarrow> (case map_of (dict_map fis es) t of None \<Rightarrow> res = None | Some ti \<Rightarrow> \<exists>ti'. res = Some ti' \<and> ti_sim 16 ti' ti)"

lemma nth_key_less: "dict_sorted fis es \<Longrightarrow> i < j \<Longrightarrow> j < length es \<Longrightarrow> nth_key fis es i < nth_key fis es j"
  by (simp add: dict_sorted_def sorted_wrt_iff_nth_less)

lemma lookup_present:
  assumes "dict_sorted fis es" "i < length es"
  shows "map_of (dict_map fis es) (entry_term fis (es ! i)) = Some (fst (snd (snd (es ! i))))"
proof -
  have "distinct (map fst (dict_map fis es))"
  proof (unfold distinct_conv_nth, intro allI impI)
    fix a b assume "a < length (map fst (dict_map fis es))" "b < length (map fst (dict_map fis es))" "a \<noteq> b"
    then show "map fst (dict_map fis es) ! a \<noteq> map fst (dict_map fis es) ! b"
      using nth_key_less [OF assms(1), of a b] nth_key_less [OF assms(1), of b a] by (cases "a < b") (auto simp: dict_map_def)
  qed
  moreover have "(entry_term fis (es ! i), fst (snd (snd (es ! i)))) \<in> set (dict_map fis es)"
    using assms(2) by (auto simp: dict_map_def intro!: image_eqI [of _ _ "es ! i"])
  ultimately show ?thesis by (rule map_of_is_SomeI)
qed

lemma above_absent:
  assumes es: "dict_sorted fis es" "j - 1 < length es" and j: "term_key t \<le> nth_key fis es (j - 1)" "t \<noteq> entry_term fis (es ! (j - 1))"
    "\<forall>i. Suc i < j \<longrightarrow> nth_key fis es i < term_key t" and i: "i < length es"
  shows "nth_key fis es i \<noteq> term_key t"
proof -
  have s: "term_key t < nth_key fis es (j - 1)" using j(1,2) term_key_inject [of t "entry_term fis (es ! (j - 1))"] by simp
  consider "Suc i < j" | "i = j - 1" | "j - 1 < i" by linarith
  then show ?thesis
  proof cases
    case 3
    then show ?thesis using s nth_key_less [OF es(1) _ i, of "j - 1"] by (metis less_asym)
  qed (use j(3) s in auto)
qed

lemma lookup_absent:
  assumes "\<And>i. i < length es \<Longrightarrow> nth_key fis es i \<noteq> term_key t"
  shows "map_of (dict_map fis es) t = None"
  unfolding map_of_eq_None_iff
proof
  assume "t \<in> fst ` set (dict_map fis es)"
  then obtain e where "e \<in> set es" "t = entry_term fis e" by (auto simp: dict_map_def)
  then show False using assms by (metis in_set_conv_nth)
qed

context in_stream begin

lemma scan_ok:
  assumes D: "dict_file False interval es D" and t: "fst t \<noteq> []"
  shows "te_at fis False D es k e \<Longrightarrow> \<forall>i. Suc i < k \<longrightarrow> nth_key fis es i < term_key t \<Longrightarrow>
    \<exists>c' e'. te_scan fis rb rbs t c e = Some (Inr (c', e')) \<and>
      ((\<exists>j. te_at fis False D es j e' \<and> 0 < j \<and> term_key t \<le> nth_key fis es (j - 1) \<and> (\<forall>i. Suc i < j \<longrightarrow> nth_key fis es i < term_key t)) \<or>
       te_ended False D es e' \<and> (\<forall>i<length es. nth_key fis es i < term_key t))"
proof (induction "length es - k" arbitrary: k e c)
  case 0
  then have k: "k = length es" by (simp add: te_at_def)
  have buf: "te_termBuffer e = (if k = 0 then ([], []) else entry_term fis (es ! (k - 1)))" using 0 by (simp add: te_at_def)
  show ?case
  proof (cases "0 < term_compare t (te_termBuffer e)")
    case False
    then have "k \<noteq> 0" using buf term_compare_unset [OF t] by (cases "k = 0") simp_all
    then have "te_at fis False D es k e \<and> 0 < k \<and> term_key t \<le> nth_key fis es (k - 1) \<and> (\<forall>i. Suc i < k \<longrightarrow> nth_key fis es i < term_key t)"
      using 0 False buf by (simp add: term_compare_pos not_less)
    then show ?thesis using False by (subst te_scan.simps) auto
  next
    case True
    obtain e' where e': "te_next fis rb rbs e = Inr (False, e')" "te_ended False D es e'" using next_end [OF "0.prems"(1) k D] by blast
    have "nth_key fis es i < term_key t" if "i < length es" for i
    proof (cases "Suc i < k")
      case False
      then have "k \<noteq> 0" "i = k - 1" using that k by auto
      then show ?thesis using True buf by (simp add: term_compare_pos)
    qed (use 0 in simp)
    then show ?thesis using True e' by (subst te_scan.simps) auto
  qed
next
  case (Suc n)
  then have k: "k < length es" by simp
  have buf: "te_termBuffer e = (if k = 0 then ([], []) else entry_term fis (es ! (k - 1)))" using Suc.prems by (simp add: te_at_def)
  show ?case
  proof (cases "0 < term_compare t (te_termBuffer e)")
    case False
    then have "k \<noteq> 0" using buf term_compare_unset [OF t] by (cases "k = 0") simp_all
    then have "te_at fis False D es k e \<and> 0 < k \<and> term_key t \<le> nth_key fis es (k - 1) \<and> (\<forall>i. Suc i < k \<longrightarrow> nth_key fis es i < term_key t)"
      using Suc.prems False buf by (simp add: term_compare_pos not_less)
    then show ?thesis using False by (subst te_scan.simps) auto
  next
    case True
    obtain e' where e': "te_next fis rb rbs e = Inr (True, e')" "te_at fis False D es (Suc k) e'" using next_entry [OF Suc.prems(1) k D] by blast
    have "\<forall>i. Suc i < Suc k \<longrightarrow> nth_key fis es i < term_key t"
    proof (intro allI impI)
      fix i assume "Suc i < Suc k"
      then consider "Suc i < k" | "k \<noteq> 0" "i = k - 1" by linarith
      then show "nth_key fis es i < term_key t" using Suc.prems(2) True buf by cases (simp_all add: term_compare_pos)
    qed
    from Suc.hyps(1) [OF _ e'(2) this, of "c + 1"] Suc.hyps(2) show ?thesis using True e'(1) by (subst te_scan.simps) auto
  qed
qed

text \<open>After a scan the entry of the enumeration decides the lookup.\<close>

lemma scanned_found:
  assumes es: "dict_sorted fis es"
    and e: "(\<exists>j. te_at fis False D es j e \<and> 0 < j \<and> term_key t \<le> nth_key fis es (j - 1) \<and> (\<forall>i. Suc i < j \<longrightarrow> nth_key fis es i < term_key t)) \<or>
       te_ended False D es e \<and> (\<forall>i<length es. nth_key fis es i < term_key t)"
  shows "\<exists>res. tr_found t fill e r = (res, r\<lparr>tr_termEnum := e, tr_cache := (if fill then (case res of None \<Rightarrow> tr_cache r | Some ti \<Rightarrow> lru_put t ti (tr_cache r))
      else tr_cache r)\<rparr>) \<and> lookup_ok fis es t res"
  using e
proof (elim disjE exE conjE)
  assume "te_ended False D es e" "\<forall>i<length es. nth_key fis es i < term_key t"
  moreover then have "map_of (dict_map fis es) t = None" by (intro lookup_absent) auto
  ultimately show ?thesis by (simp add: tr_found_def te_term_def tb_toTerm_def te_ended_def lookup_ok_def)
next
  fix j assume j: "te_at fis False D es j e" "0 < j" "term_key t \<le> nth_key fis es (j - 1)" "\<forall>i. Suc i < j \<longrightarrow> nth_key fis es i < term_key t"
  let ?u = "entry_term fis (es ! (j - 1))"
  have lt: "j - 1 < length es" using j(1,2) by (auto simp: te_at_def)
  then have "es ! (j - 1) \<in> set es" by simp
  then have "fst ?u \<noteq> []" using es by (simp add: dict_sorted_def)
  then have u: "te_term e = Some ?u" using j(1,2) by (simp add: te_term_def tb_toTerm_def te_at_def)
  show ?thesis
  proof (cases "t = ?u")
    case True
    have "ti_sim 16 (te_termInfo e) (fst (snd (snd (es ! (j - 1)))))" using j(1,2) by (simp add: te_at_def)
    then have "lookup_ok fis es t (Some (te_termInfo e))" using lookup_present [OF es lt] True by (simp add: lookup_ok_def)
    then show ?thesis using u True term_compare_sign(2) [of t ?u] by (simp add: tr_found_def Let_def)
  next
    case False
    have "map_of (dict_map fis es) t = None" using above_absent [OF es lt j(3) False j(4)] by (rule lookup_absent)
    then show ?thesis using u False term_compare_sign(2) [of t ?u] by (simp add: tr_found_def Let_def lookup_ok_def)
  qed
qed

lemma new_enum:
  assumes s: "at D 0 s" and D: "dict_file isIndex interval es D"
  shows "\<exists>e. newSegmentTermEnum rb isIndex s = Inr e \<and> te_at fis isIndex D es 0 e \<and> te_indexInterval e = int interval"
proof -
  have D': "D = int_wire FORMAT_CURRENT @ long_wire (of_nat (length es)) @ int_wire (of_nat interval) @ int_wire 16 @ int_wire 10 @ dict_wire 16 dict_start es"
    and n: "length es < 2 ^ 31" "interval < 2 ^ 31" using D by (simp_all add: dict_file_def dict_header_def)
  have "drop 0 D = int_wire FORMAT_CURRENT @ long_wire (of_nat (length es)) @ int_wire (of_nat interval) @ int_wire 16 @ int_wire 10 @ dict_wire 16 dict_start es"
    unfolding D' by simp
  from reads_go [OF reads_int s _ this] obtain s1 q1 where s1: "readInt rb s = Inr (FORMAT_CURRENT, s1)" "at D q1 s1" "q1 \<le> length D"
    "drop q1 D = long_wire (of_nat (length es)) @ int_wire (of_nat interval) @ int_wire 16 @ int_wire 10 @ dict_wire 16 dict_start es" "q1 = length (int_wire FORMAT_CURRENT)"
    by auto
  from reads_go [OF reads_long s1(2-4)] obtain s2 q2 where s2: "readLong rb s1 = Inr (of_nat (length es), s2)" "at D q2 s2" "q2 \<le> length D"
    "drop q2 D = int_wire (of_nat interval) @ int_wire 16 @ int_wire 10 @ dict_wire 16 dict_start es" "q2 = q1 + length (long_wire (of_nat (length es)))" by auto
  from reads_go [OF reads_int s2(2-4)] obtain s3 q3 where s3: "readInt rb s2 = Inr (of_nat interval, s3)" "at D q3 s3" "q3 \<le> length D"
    "drop q3 D = int_wire 16 @ int_wire 10 @ dict_wire 16 dict_start es" "q3 = q2 + length (int_wire (of_nat interval))" by auto
  from reads_go [OF reads_int s3(2-4)] obtain s4 q4 where s4: "readInt rb s3 = Inr (16, s4)" "at D q4 s4" "q4 \<le> length D"
    "drop q4 D = int_wire 10 @ dict_wire 16 dict_start es" "q4 = q3 + length (int_wire 16)" by auto
  from reads_go [OF reads_int s4(2-4)] obtain s5 q5 where s5: "readInt rb s4 = Inr (10, s5)" "at D q5 s5" "q5 = q4 + length (int_wire 10)" by auto
  have q: "q5 = entry_offset es 0" using s1(5) s2(5) s3(5) s4(5) s5(3) by (simp add: entry_offset_def int_wire_def long_wire_def)
  have v: "sint FORMAT_CURRENT = -4" "sint (of_nat interval :: int32) = int interval" "sint (16 :: int32) = 16" "sint (of_nat (length es) :: int64) = int (length es)"
  proof -
    show "sint (of_nat (length es) :: int64) = int (length es)" using n(1) by (simp add: signed_of_nat signed_take_bit_int_eq_self)
  qed (use n(2) sint_of_nat_small in \<open>simp_all add: FORMAT_CURRENT_def\<close>)
  show ?thesis
    unfolding newSegmentTermEnum_def s1(1) bind_r_simps prod.case Let_def v s2(1) s3(1) s4(1) s5(1)
    using s2(1) s3(1) s4(1) s5(1,2) q v by (simp add: te_at_def te_const_def ti_sim_def)
qed

lemma skip_entries:
  assumes D: "dict_file isIndex interval es D"
  shows "te_at fis isIndex D es k e \<Longrightarrow> \<exists>e'. tr_skipEntries fis rb rbs n e = Inr e' \<and>
    (if k + n \<le> length es then te_at fis isIndex D es (k + n) e' else te_ended isIndex D es e')"
proof (induction n arbitrary: k e)
  case 0
  then show ?case by (auto simp: te_at_def)
next
  case (Suc n)
  show ?case
  proof (cases "k < length es")
    case True
    obtain e1 where "te_next fis rb rbs e = Inr (True, e1)" "te_at fis isIndex D es (Suc k) e1" using next_entry [OF Suc.prems True D] by blast
    with Suc.IH [OF this(2)] show ?thesis by (auto simp: add_Suc split: if_splits)
  next
    case False
    then have k: "k = length es" using Suc.prems by (simp add: te_at_def)
    obtain e1 where "te_next fis rb rbs e = Inr (False, e1)" "te_ended isIndex D es e1" using next_end [OF Suc.prems k D] by blast
    then show ?thesis using k by simp
  qed
qed

lemma index_loop:
  assumes D: "dict_file True interval xs D" and d: "0 < divisor" and m: "xs \<noteq> []" "m = (length xs - 1) div divisor + 1"
  shows "i \<le> m \<Longrightarrow> (if i * divisor \<le> length xs then te_at fis True D xs (i * divisor) e else te_ended True D xs e) \<Longrightarrow>
    length terms = m \<Longrightarrow> length infos = m \<Longrightarrow> length ptrs = m \<Longrightarrow>
    \<exists>terms' infos' ptrs'. tr_indexLoop fis rb rbs divisor i (terms, infos, ptrs) e = Some (Inr (terms', infos', ptrs')) \<and>
      length terms' = m \<and> length infos' = m \<and> length ptrs' = m \<and>
      (\<forall>j<i. terms' ! j = terms ! j \<and> infos' ! j = infos ! j \<and> ptrs' ! j = ptrs ! j) \<and>
      (\<forall>j. i \<le> j \<and> j < m \<longrightarrow> terms' ! j = tb_toTerm (entry_term fis (xs ! (j * divisor))) \<and>
         (\<exists>ti. infos' ! j = Some ti \<and> ti_sim 16 ti (fst (snd (snd (xs ! (j * divisor)))))) \<and> ptrs' ! j = int (the (snd (snd (snd (xs ! (j * divisor)))))))"
proof (induction "m - i" arbitrary: i e terms infos ptrs)
  case 0
  then have i: "i = m" by simp
  have "length xs - 1 < m * divisor" unfolding m(2) using d by (simp add: dividend_less_div_times add.commute)
  then have "length xs \<le> m * divisor" using m(1) by (cases xs) simp_all
  then have "\<exists>e'. te_next fis rb rbs e = Inr (False, e')"
    using "0.prems"(2) next_end [OF _ _ D, of fis "m * divisor" e] next_ended [of True D xs e fis] i by (auto split: if_splits)
  then obtain e' where "te_next fis rb rbs e = Inr (False, e')" by blast
  then show ?case using "0.prems" i
    by (intro exI [of _ terms] exI [of _ infos] exI [of _ ptrs]) (auto simp: tr_indexLoop.simps)
next
  case (Suc n)
  then have i: "i < m" by simp
  have "i * divisor \<le> (length xs - 1) div divisor * divisor" using i m(2) by simp
  also have "\<dots> \<le> length xs - 1" by simp
  finally have k: "i * divisor < length xs" using m(1) by (cases xs) simp_all
  then have "te_at fis True D xs (i * divisor) e" using Suc.prems(2) by simp
  from next_entry [OF this k D] obtain e1 where e1: "te_next fis rb rbs e = Inr (True, e1)" "te_at fis True D xs (Suc (i * divisor)) e1" by blast
  have next_block: "Suc (i * divisor) + (divisor - 1) = (i + 1) * divisor" using d by simp
  from skip_entries [OF D e1(2), of "divisor - 1", unfolded next_block] obtain e2 where e2: "tr_skipEntries fis rb rbs (divisor - 1) e1 = Inr e2"
    "if (i + 1) * divisor \<le> length xs then te_at fis True D xs ((i + 1) * divisor) e2 else te_ended True D xs e2"
    by blast
  have at1: "te_term e1 = tb_toTerm (entry_term fis (xs ! (i * divisor)))" "ti_sim 16 (te_termInfo e1) (fst (snd (snd (xs ! (i * divisor)))))"
    "te_indexPointer e1 = int (the (snd (snd (snd (xs ! (i * divisor))))))" using e1(2) by (simp_all add: te_at_def te_term_def)
  let ?terms = "terms[i := te_term e1]" and ?infos = "infos[i := Some (te_termInfo e1)]" and ?ptrs = "ptrs[i := te_indexPointer e1]"
  have step: "tr_indexLoop fis rb rbs divisor i (terms, infos, ptrs) e = tr_indexLoop fis rb rbs divisor (i + 1) (?terms, ?infos, ?ptrs) e2"
    using e1(1) e2(1) i Suc.prems(3-5) by (subst tr_indexLoop.simps) (simp add: arr_set_in)
  have "n = m - (i + 1)" "i + 1 \<le> m" using Suc.hyps(2) i by simp_all
  moreover have "length ?terms = m" "length ?infos = m" "length ?ptrs = m" using Suc.prems(3-5) by simp_all
  ultimately obtain terms' infos' ptrs' where
    r: "tr_indexLoop fis rb rbs divisor (i + 1) (?terms, ?infos, ?ptrs) e2 = Some (Inr (terms', infos', ptrs'))"
      "length terms' = m" "length infos' = m" "length ptrs' = m"
      "\<forall>j<i + 1. terms' ! j = ?terms ! j \<and> infos' ! j = ?infos ! j \<and> ptrs' ! j = ?ptrs ! j"
      "\<forall>j. i + 1 \<le> j \<and> j < m \<longrightarrow> terms' ! j = tb_toTerm (entry_term fis (xs ! (j * divisor))) \<and>
         (\<exists>ti. infos' ! j = Some ti \<and> ti_sim 16 ti (fst (snd (snd (xs ! (j * divisor)))))) \<and> ptrs' ! j = int (the (snd (snd (snd (xs ! (j * divisor))))))"
    using Suc.hyps(1) [of "i + 1" e2 ?terms ?infos ?ptrs] e2(2) by blast
  have "terms' ! i = te_term e1" "infos' ! i = Some (te_termInfo e1)" "ptrs' ! i = te_indexPointer e1" using r(5) i Suc.prems(3-5) by simp_all
  moreover have "\<forall>j<i. terms' ! j = terms ! j \<and> infos' ! j = infos ! j \<and> ptrs' ! j = ptrs ! j" using r(5) by simp
  moreover have "i \<le> j \<Longrightarrow> j = i \<or> i + 1 \<le> j" for j by linarith
  ultimately show ?case unfolding step r(1) using r(2-4,6) at1
    by (intro exI [of _ terms'] exI [of _ infos'] exI [of _ ptrs']) (metis (no_types, lifting))
qed

end

subsection \<open>The index of a dictionary\<close>

lemma length_index: "0 < interval \<Longrightarrow> es \<noteq> [] \<Longrightarrow> length (index_entries interval es) = (length es - 1) div interval + 1"
proof -
  assume i: "0 < interval" and es: "es \<noteq> []"
  have e: "length es + interval - 1 = (length es - 1) + 1 * interval" using es by (cases es) simp_all
  have "((length es - 1) + 1 * interval) div interval = 1 + (length es - 1) div interval" using i by (intro div_mult_self1) simp
  then show ?thesis unfolding index_entries_def e by simp
qed

lemma nth_index:
  assumes "0 < interval" "k < length (index_entries interval es)"
  shows "index_entries interval es ! k = index_entry es (k * interval)" "k * interval < length es"
proof -
  show "index_entries interval es ! k = index_entry es (k * interval)" using assms(2) by (simp add: index_entries_def)
  have es: "es \<noteq> []" using assms by (auto simp: index_entries_def)
  then have "k \<le> (length es - 1) div interval" using assms(2) length_index [OF assms(1)] by simp
  then have "k * interval \<le> (length es - 1) div interval * interval" by (rule mult_le_mono1)
  also have "\<dots> \<le> length es - 1" by simp
  finally show "k * interval < length es" using es by (cases es) simp_all
qed

lemma index_file:
  assumes D: "dict_file False interval es D" and i: "0 < interval" and len: "length D < 2 ^ 63" and X: "X = dict_header (length (index_entries interval es)) interval @
      dict_wire 16 dict_start (index_entries interval es)"
  shows "dict_file True interval (index_entries interval es) X"
proof -
  let ?xs = "index_entries interval es"
  have "length ?xs < 2 ^ 31"
  proof (cases "es = []")
    case False
    have "(length es - 1) div interval + 1 \<le> length es" using False div_le_dividend [of "length es - 1" interval] by (cases es) simp_all
    then show ?thesis using D length_index [OF i False] by (simp add: dict_file_def)
  qed (use i in \<open>simp add: index_entries_def\<close>)
  moreover have "dict_entry_ok x \<and> snd (snd (snd x)) \<noteq> None" if x: "x \<in> set ?xs" for x
  proof -
    obtain k where k: "k < length ?xs" "x = ?xs ! k" using x by (metis in_set_conv_nth)
    note n = nth_index [OF i k(1)]
    have off: "entry_offset es (k * interval) < 2 ^ 63"
      using entry_offset_file(1) [of D "length es" interval es "k * interval"] D len by (simp add: dict_file_def)
    show ?thesis
    proof (cases "k * interval = 0")
      case True
      have "bytes_ok []" unfolding bytes_ok_def by (intro conjI exI [of _ "[]"]) (simp_all add: string_ok_def size_ok_def text_ok_def utf8_bytes_def)
      then show ?thesis using True off k(2) n(1) by (simp add: index_entry_def dict_entry_ok_def info_ok_def no_info_def in_int32_def)
    next
      case False
      have "es ! (k * interval - 1) \<in> set es" using n(2) by simp
      then have "dict_entry_ok (es ! (k * interval - 1))" using D by (simp add: dict_file_def)
      then show ?thesis using False off k(2) n(1) by (auto simp: index_entry_def dict_entry_ok_def split: prod.splits)
    qed
  qed
  ultimately show ?thesis using D X by (auto simp: dict_file_def)
qed

text \<open>What the arrays of a reader hold for the dictionary \<open>es\<close>, every \<open>step\<close>-th entry of it.\<close>

definition index_ok :: "field_infos \<Rightarrow> nat \<Rightarrow> dict_entry list \<Rightarrow> 's infos_reader \<Rightarrow> bool" where
  "index_ok fis step es r \<longleftrightarrow> (\<exists>terms. tr_indexTerms r = Some terms \<and> tr_size r = int (length es) \<and> tr_totalIndexInterval r = int step \<and>
     (es \<noteq> [] \<longrightarrow> length terms = (length es - 1) div step + 1 \<and> length (tr_indexInfos r) = length terms \<and> length (tr_indexPointers r) = length terms \<and>
       (\<forall>j<length terms. terms ! j = (if j = 0 then None else Some (entry_term fis (es ! (j * step - 1)))) \<and>
         (\<exists>ti. tr_indexInfos r ! j = Some ti \<and> ti_sim 16 ti (if j = 0 then no_info else fst (snd (snd (es ! (j * step - 1)))))) \<and>
         tr_indexPointers r ! j = int (entry_offset es (j * step)))))"

definition cache_ok :: "field_infos \<Rightarrow> dict_entry list \<Rightarrow> (lterm, term_info) lru_cache \<Rightarrow> bool" where
  "cache_ok fis es c \<longleftrightarrow> lru_ok c \<and> (\<forall>(t, ti)\<in>set (lru_entries c). lookup_ok fis es t (Some ti))"

lemma last_below: "j \<le> (n - 1) div step \<Longrightarrow> 0 < n \<Longrightarrow> j * step < n" for j n step :: nat
proof -
  assume "j \<le> (n - 1) div step" "0 < n"
  then have "j * step \<le> (n - 1) div step * step" by (intro mult_le_mono1)
  also have "\<dots> \<le> n - 1" by simp
  finally show ?thesis using \<open>0 < n\<close> by simp
qed

lemma index_size:
  assumes "0 < divisor"
  shows "0 \<le> 1 + (int (length xs) - 1) sdiv int divisor" "xs \<noteq> [] \<Longrightarrow> nat (1 + (int (length xs) - 1) sdiv int divisor) = (length xs - 1) div divisor + 1"
proof -
  have s: "(int (length xs) - 1) sdiv int divisor = int ((length xs - 1) div divisor)" if "xs \<noteq> []"
  proof -
    have "int (length xs) - 1 = int (length xs - 1)" using that by (cases xs) simp_all
    moreover have "int (length xs - 1) sdiv int divisor = int (length xs - 1) div int divisor"
      using assms by (cases "length xs - 1") (simp_all only: signed_divide_int_def, simp_all)
    ultimately show ?thesis by (simp only: zdiv_int)
  qed
  then show "xs \<noteq> [] \<Longrightarrow> nat (1 + (int (length xs) - 1) sdiv int divisor) = (length xs - 1) div divisor + 1" by (simp add: nat_add_distrib)
  show "0 \<le> 1 + (int (length xs) - 1) sdiv int divisor"
  proof (cases "xs = []")
    case True
    have "1 div int divisor \<le> 1" using assms by (simp add: div_le_dividend zdiv_int [of 1, simplified, symmetric] flip: zdiv_int)
    then show ?thesis using True assms by (simp add: signed_divide_int_def)
  qed (simp add: s)
qed

lemma index_nth:
  assumes es: "dict_sorted fis es" and step: "0 < interval" "0 < divisor" and ne: "es \<noteq> []" and j: "j \<le> (length es - 1) div (interval * divisor)"
  shows "tb_toTerm (entry_term fis (index_entries interval es ! (j * divisor))) = (if j = 0 then None else Some (entry_term fis (es ! (j * (interval * divisor) - 1))))"
    "fst (snd (snd (index_entries interval es ! (j * divisor)))) = (if j = 0 then no_info else fst (snd (snd (es ! (j * (interval * divisor) - 1)))))"
    "the (snd (snd (snd (index_entries interval es ! (j * divisor))))) = entry_offset es (j * (interval * divisor))"
proof -
  have lt: "j * (interval * divisor) < length es" using last_below [OF j] ne by simp
  have "j \<le> (length es - 1) div interval div divisor" using j by (simp add: div_mult2_eq)
  then have "j * divisor < length (index_entries interval es)"
    using last_below [of j "(length es - 1) div interval + 1" divisor] length_index [OF step(1) ne] by simp
  note n = nth_index(1) [OF step(1) this]
  have e: "j * divisor * interval = j * (interval * divisor)" by simp
  let ?k = "j * (interval * divisor)"
  have k: "?k = 0 \<longleftrightarrow> j = 0" using step by simp
  obtain n b ti ptr where x: "es ! (?k - 1) = (n, b, ti, ptr)" by (cases "es ! (?k - 1)")
  have "es ! (?k - 1) \<in> set es" using lt by simp
  then have f: "fis_fieldName fis n \<noteq> []" using es x unfolding dict_sorted_def entry_term_def by fastforce
  then show "tb_toTerm (entry_term fis (index_entries interval es ! (j * divisor))) = (if j = 0 then None else Some (entry_term fis (es ! (?k - 1))))"
    unfolding n e index_entry_def k x using f by (simp add: entry_term_def tb_toTerm_def) (simp add: fis_fieldName_def)
  show "fst (snd (snd (index_entries interval es ! (j * divisor)))) = (if j = 0 then no_info else fst (snd (snd (es ! (?k - 1)))))"
    "the (snd (snd (snd (index_entries interval es ! (j * divisor))))) = entry_offset es ?k"
    unfolding n e index_entry_def k x by (simp_all split: prod.splits)
qed

context in_stream begin

definition tr_inv :: "field_infos \<Rightarrow> nat \<Rightarrow> byte list \<Rightarrow> dict_entry list \<Rightarrow> 's infos_reader \<Rightarrow> bool" where
  "tr_inv fis step D es r \<longleftrightarrow> index_ok fis step es r \<and> cache_ok fis es (tr_cache r) \<and>
     ((\<exists>k. te_at fis False D es k (tr_termEnum r)) \<or> te_ended False D es (tr_termEnum r))"

lemma new_reader:
  assumes D: "dict_file False interval es D" "length D < 2 ^ 63" and es: "dict_sorted fis es"
    and X: "X = dict_header (length (index_entries interval es)) interval @ dict_wire 16 dict_start (index_entries interval es)"
    and step: "0 < interval" "0 < divisor" "interval * divisor < 2 ^ 31" and s: "at D 0 tis" "at X 0 tii"
  shows "\<exists>r. newTermInfosReader fis rb rbs (int divisor) tis tii = Inr r \<and> tr_inv fis (interval * divisor) D es r"
proof -
  let ?xs = "index_entries interval es"
  have X': "dict_file True interval ?xs X" by (rule index_file [OF D(1) step(1) D(2) X])
  obtain e where e: "newSegmentTermEnum rb False tis = Inr e" "te_at fis False D es 0 e" "te_indexInterval e = int interval"
    using new_enum [OF s(1) D(1)] by blast
  obtain x where x: "newSegmentTermEnum rb True tii = Inr x" "te_at fis True X ?xs 0 x" using new_enum [OF s(2) X'] by blast
  have sz: "te_size e = int (length es)" "te_size x = int (length ?xs)" "length ?xs < 2 ^ 31"
    using e(2) x(2) X' by (simp_all add: te_at_def te_const_def dict_file_def)
  have t: "trunc32 (int (length ?xs)) = int (length ?xs)" "trunc32 (int interval * int divisor) = int (interval * divisor)"
    using sz(3) step(3) by (simp_all add: trunc32_id flip: of_nat_mult)
  have c: "cache_ok fis es (newLRUCache DEFAULT_CACHE_SIZE)" by (simp add: cache_ok_def new_lru_ok)
  define n where "n = nat (1 + (int (length ?xs) - 1) sdiv int divisor)"
  have n: "0 \<le> 1 + (int (length ?xs) - 1) sdiv int divisor" "?xs \<noteq> [] \<Longrightarrow> n = (length ?xs - 1) div divisor + 1"
    using index_size [OF step(2), of ?xs] by (simp_all add: n_def)
  obtain terms infos ptrs where l: "tr_indexLoop fis rb rbs divisor 0 (replicate n None, replicate n None, replicate n 0) x = Some (Inr (terms, infos, ptrs))"
    "es \<noteq> [] \<longrightarrow> length terms = (length es - 1) div (interval * divisor) + 1 \<and> length infos = length terms \<and> length ptrs = length terms \<and>
       (\<forall>j<length terms. terms ! j = (if j = 0 then None else Some (entry_term fis (es ! (j * (interval * divisor) - 1)))) \<and>
         (\<exists>ti. infos ! j = Some ti \<and> ti_sim 16 ti (if j = 0 then no_info else fst (snd (snd (es ! (j * (interval * divisor) - 1)))))) \<and>
         ptrs ! j = int (entry_offset es (j * (interval * divisor))))"
  proof (cases "es = []")
    case True
    then have "?xs = []" using step(1) by (simp add: index_entries_def)
    with next_end [OF x(2) _ X'] obtain x' where "te_next fis rb rbs x = Inr (False, x')" by auto
    then show ?thesis using True that by (subst (asm) tr_indexLoop.simps) simp
  next
    case False
    then have xs: "?xs \<noteq> []" using length_index [OF step(1) False] by auto
    have n': "n = (length es - 1) div (interval * divisor) + 1" using n(2) [OF xs] length_index [OF step(1) False] by (simp add: div_mult2_eq)
    have "\<exists>terms infos ptrs. tr_indexLoop fis rb rbs divisor 0 (replicate n None, replicate n None, replicate n 0) x = Some (Inr (terms, infos, ptrs)) \<and>
        length terms = n \<and> length infos = n \<and> length ptrs = n \<and>
        (\<forall>j. 0 \<le> j \<and> j < n \<longrightarrow> terms ! j = tb_toTerm (entry_term fis (?xs ! (j * divisor))) \<and>
         (\<exists>ti. infos ! j = Some ti \<and> ti_sim 16 ti (fst (snd (snd (?xs ! (j * divisor)))))) \<and> ptrs ! j = int (the (snd (snd (snd (?xs ! (j * divisor)))))))"
      using index_loop [OF X' step(2) xs n(2) [OF xs], of 0 fis x "replicate n None" "replicate n None" "replicate n 0"] x(2) by auto
    then obtain terms infos ptrs where l: "tr_indexLoop fis rb rbs divisor 0 (replicate n None, replicate n None, replicate n 0) x = Some (Inr (terms, infos, ptrs))"
        "length terms = n" "length infos = n" "length ptrs = n"
        "\<And>j. j < n \<Longrightarrow> terms ! j = tb_toTerm (entry_term fis (?xs ! (j * divisor))) \<and>
         (\<exists>ti. infos ! j = Some ti \<and> ti_sim 16 ti (fst (snd (snd (?xs ! (j * divisor)))))) \<and> ptrs ! j = int (the (snd (snd (snd (?xs ! (j * divisor))))))"
      by blast
    have "terms ! j = (if j = 0 then None else Some (entry_term fis (es ! (j * (interval * divisor) - 1)))) \<and>
         (\<exists>ti. infos ! j = Some ti \<and> ti_sim 16 ti (if j = 0 then no_info else fst (snd (snd (es ! (j * (interval * divisor) - 1)))))) \<and>
         ptrs ! j = int (entry_offset es (j * (interval * divisor)))" if j: "j < n" for j
      using l(5) [OF j] index_nth [OF es step(1,2) False, of j] j unfolding n' by (simp add: less_Suc_eq_le)
    then show ?thesis using that l(1-4) n' by blast
  qed
  let ?r = "\<lparr>tr_termEnum = e, tr_size = int (length es), tr_totalIndexInterval = int (interval * divisor), tr_indexTerms = Some terms, tr_indexInfos = infos,
                 tr_indexPointers = ptrs, tr_cache = newLRUCache DEFAULT_CACHE_SIZE\<rparr>"
  have "newTermInfosReader fis rb rbs (int divisor) tis tii = Inr ?r"
    unfolding newTermInfosReader_def e(1) x(1) bind_r_simps Let_def sz(1,2) t(1) n_def [symmetric] nat_int l(1)
    using n step(2) e(3) t(2) by (simp add: n_def l(1))
  moreover have "tr_inv fis (interval * divisor) D es ?r" using c e(2) l(2) by (auto simp: tr_inv_def index_ok_def)
  ultimately show ?thesis by blast
qed

lemma tr_invD:
  assumes "tr_inv fis step D es r" "es \<noteq> []"
  obtains terms where "tr_indexTerms r = Some terms" "tr_size r \<noteq> 0" "tr_totalIndexInterval r = int step" "length terms = (length es - 1) div step + 1"
    "length (tr_indexInfos r) = length terms" "length (tr_indexPointers r) = length terms"
    "\<And>j. j < length terms \<Longrightarrow> terms ! j = (if j = 0 then None else Some (entry_term fis (es ! (j * step - 1)))) \<and>
         (\<exists>ti. tr_indexInfos r ! j = Some ti \<and> ti_sim 16 ti (if j = 0 then no_info else fst (snd (snd (es ! (j * step - 1)))))) \<and>
         tr_indexPointers r ! j = int (entry_offset es (j * step))"
  using assms that by (auto simp: tr_inv_def index_ok_def)

lemma index_ok_update [simp]:
  "index_ok fis step es (r\<lparr>tr_cache := c\<rparr>) = index_ok fis step es r" "index_ok fis step es (r\<lparr>tr_termEnum := e\<rparr>) = index_ok fis step es r"
  by (simp_all add: index_ok_def)

text \<open>The random access path: the last index term that is not above the term is where the enumeration goes.\<close>

lemma upper_bound_index:
  assumes "terms \<noteq> []" "terms ! 0 = None" "\<And>j. j < length terms \<Longrightarrow> 0 < j \<Longrightarrow> terms ! j = Some (f j)"
  shows "\<exists>j. tr_getIndexOffset t terms = int j \<and> j < length terms \<and> (0 < j \<longrightarrow> term_key (f j) \<le> term_key t)"
proof -
  let ?P = "\<lambda>x. \<not> luceneCompare (Some t) x"
  define u where "u = upper_bound luceneCompare terms (Some t)"
  have u: "u = length (takeWhile ?P terms)" by (simp add: u_def upper_bound_def)
  have "?P (terms ! 0)" using assms(2) by (simp add: luceneCompare_def)
  then have pos: "0 < u" using assms(1) unfolding u by (cases terms) simp_all
  have le: "u \<le> length terms" unfolding u by (rule length_takeWhile_le)
  have "takeWhile ?P terms ! (u - 1) = terms ! (u - 1)" using pos unfolding u by (intro takeWhile_nth) simp
  moreover have "takeWhile ?P terms ! (u - 1) \<in> set (takeWhile ?P terms)" using pos unfolding u by (intro nth_mem) simp
  ultimately have p: "?P (terms ! (u - 1))" by (metis set_takeWhileD)
  have "term_key (f (u - 1)) \<le> term_key t" if "0 < u - 1"
  proof -
    have "terms ! (u - 1) = Some (f (u - 1))" using that le by (intro assms(3)) simp_all
    then show ?thesis using p term_compare_sign(1) [of t "f (u - 1)"] by (simp add: luceneCompare_def not_less)
  qed
  moreover have "tr_getIndexOffset t terms = int (u - 1)" using pos by (simp add: tr_getIndexOffset_def u_def)
  ultimately show ?thesis using pos le by (intro exI [of _ "u - 1"]) simp
qed

lemma upper_bound_second:
  assumes "terms ! 0 = None" "1 < length terms" "terms ! 1 = Some u" "\<not> term_key t < term_key u"
  shows "1 < upper_bound luceneCompare terms (Some t)"
proof -
  obtain rest where "terms = None # Some u # rest" using assms(1-3) by (cases terms; cases "List.tl terms") auto
  then show ?thesis using assms(4) by (simp add: upper_bound_def luceneCompare_def term_compare_sign(1))
qed

lemma seekEnum_ok:
  assumes r: "tr_inv fis step D es r" and es: "dict_sorted fis es" "es \<noteq> []" and D: "dict_file False interval es D" and step: "0 < step"
  shows "\<exists>terms k e. tr_indexTerms r = Some terms \<and> tr_seekEnum sk (tr_getIndexOffset t terms) terms r = Inr e \<and> te_at fis False D es k e \<and>
    (\<forall>i. Suc i < k \<longrightarrow> nth_key fis es i < term_key t) \<and> (k = 0 \<longleftrightarrow> length es \<le> step \<or> term_key t < nth_key fis es (step - 1))"
proof -
  from r es(2) obtain terms where i: "tr_indexTerms r = Some terms" "tr_totalIndexInterval r = int step" "length terms = (length es - 1) div step + 1"
    "length (tr_indexInfos r) = length terms" "length (tr_indexPointers r) = length terms"
    "\<And>j. j < length terms \<Longrightarrow> terms ! j = (if j = 0 then None else Some (entry_term fis (es ! (j * step - 1)))) \<and>
         (\<exists>ti. tr_indexInfos r ! j = Some ti \<and> ti_sim 16 ti (if j = 0 then no_info else fst (snd (snd (es ! (j * step - 1)))))) \<and>
         tr_indexPointers r ! j = int (entry_offset es (j * step))" by (rule tr_invD) blast
  have ne: "terms \<noteq> []" "terms ! 0 = None" using i(3) i(6) [of 0] by auto
  obtain j where j: "tr_getIndexOffset t terms = int j" "j < length terms" "0 < j \<longrightarrow> nth_key fis es (j * step - 1) \<le> term_key t"
    using upper_bound_index [OF ne, of "\<lambda>j. entry_term fis (es ! (j * step - 1))" t] i(6) by auto
  obtain ti where ti: "tr_indexInfos r ! j = Some ti" "ti_sim 16 ti (if j = 0 then no_info else fst (snd (snd (es ! (j * step - 1)))))"
    "tr_indexPointers r ! j = int (entry_offset es (j * step))" "terms ! j = (if j = 0 then None else Some (entry_term fis (es ! (j * step - 1))))"
    using i(6) [OF j(2)] by blast
  have lt: "j * step < length es" using j(2) i(3) es(2) by (intro last_below) simp_all
  have off: "entry_offset es (j * step) \<le> length D" using D by (intro entry_offset_file(1)) (simp add: dict_file_def)
  have "\<exists>p. at D p (te_input (tr_termEnum r))" "te_const False es (tr_termEnum r)" using r by (auto simp: tr_inv_def te_at_def te_ended_def)
  then obtain s where s: "sk (entry_offset es (j * step)) (te_input (tr_termEnum r)) = Inr s" "at D (entry_offset es (j * step)) s" using at_seek off by blast
  let ?e = "(tr_termEnum r)\<lparr>te_input := s, te_position := int j * int step - 1, te_termBuffer := tb_set (terms ! j), te_prevBuffer := ([], []), te_termInfo := ti\<rparr>"
  have "tr_seekEnum sk (tr_getIndexOffset t terms) terms r = Inr ?e"
    using j(1,2) i(2,4,5) ti(1,3) s(1) by (simp add: tr_seekEnum_def te_seek_def)
  moreover have "te_at fis False D es (j * step) ?e"
    using s(2) ti(2,4) lt step \<open>te_const False es (tr_termEnum r)\<close> by (simp add: te_at_def te_const_def tb_set_def)
  moreover have "nth_key fis es a < term_key t" if a: "Suc a < j * step" for a
  proof -
    have "0 < j" using a by (cases j) simp_all
    moreover have "nth_key fis es a < nth_key fis es (j * step - 1)" using a lt by (intro nth_key_less [OF es(1)]) simp_all
    ultimately show ?thesis using j(3) by (auto intro: less_le_trans)
  qed
  moreover have "j * step = 0 \<longleftrightarrow> length es \<le> step \<or> term_key t < nth_key fis es (step - 1)"
  proof (cases "j = 0")
    case True
    have "term_key t < nth_key fis es (step - 1)" if "step < length es"
    proof (rule ccontr)
      assume c: "\<not> term_key t < nth_key fis es (step - 1)"
      have "1 \<le> (length es - 1) div step" using that step by (simp add: Suc_le_eq div_greater_zero_iff)
      then have l: "1 < length terms" using i(3) by simp
      then have "terms ! 1 = Some (entry_term fis (es ! (step - 1)))" using i(6) [of 1] by simp
      then have "1 < tr_getIndexOffset t terms + 1"
        using ne l c upper_bound_second [of terms "entry_term fis (es ! (step - 1))" t] by (simp add: tr_getIndexOffset_def)
      then show False using j(1) True by simp
    qed
    then have "length es \<le> step \<or> term_key t < nth_key fis es (step - 1)" using linorder_not_less by blast
    then show ?thesis using True by simp
  next
    case False
    then have "0 < (length es - 1) div step" using j(2) i(3) by simp
    then have s: "step < length es" using es(2) by (auto simp: div_greater_zero_iff)
    have "nth_key fis es (step - 1) \<le> nth_key fis es (j * step - 1)"
    proof (cases "j = 1")
      case False
      then have "2 * step \<le> j * step" using \<open>j \<noteq> 0\<close> by (intro mult_le_mono1) simp
      then have "step - 1 < j * step - 1" using step by linarith
      then show ?thesis using lt by (intro less_imp_le nth_key_less [OF es(1)]) simp_all
    qed simp
    then show ?thesis using False s j(3) step by (auto simp: not_less dest: order_trans)
  qed
  ultimately show ?thesis using i(1) by (intro exI [of _ terms] exI [of _ "j * step"] exI [of _ ?e]) blast
qed

lemma here_ok:
  assumes r: "tr_inv fis step D es r" and es: "dict_sorted fis es" "es \<noteq> []" and len: "length es < 2 ^ 31" and step: "0 < step"
    and terms: "tr_indexTerms r = Some terms"
  shows "\<exists>b. tr_here t terms r = Inr b \<and>
    (b \<longrightarrow> (\<exists>k. te_at fis False D es k (tr_termEnum r) \<and> (\<forall>i. Suc i < k \<longrightarrow> nth_key fis es i < term_key t)))"
proof (cases "te_term (tr_termEnum r)")
  case None
  then show ?thesis by (intro exI [of _ False]) (simp add: tr_here_def)
next
  case (Some u)
  let ?e = "tr_termEnum r"
  from r es(2) obtain terms' where i: "tr_indexTerms r = Some terms'" "tr_totalIndexInterval r = int step" "length terms' = (length es - 1) div step + 1"
    "\<And>j. j < length terms' \<Longrightarrow> terms' ! j = (if j = 0 then None else Some (entry_term fis (es ! (j * step - 1)))) \<and>
         (\<exists>ti. tr_indexInfos r ! j = Some ti \<and> ti_sim 16 ti (if j = 0 then no_info else fst (snd (snd (es ! (j * step - 1)))))) \<and>
         tr_indexPointers r ! j = int (entry_offset es (j * step))" by (rule tr_invD) blast
  have terms': "terms' = terms" using terms i(1) by simp
  have "\<not> te_ended False D es ?e" using Some by (auto simp: te_term_def tb_toTerm_def te_ended_def)
  then obtain k where k: "te_at fis False D es k ?e" using r by (auto simp: tr_inv_def)
  have k0: "k \<noteq> 0"
  proof
    assume "k = 0"
    with k have "te_termBuffer ?e = ([], [])" by (simp add: te_at_def)
    with Some show False by (simp add: te_term_def tb_toTerm_def)
  qed
  then have k': "0 < k" "k \<le> length es" "te_position ?e = int (k - 1)" "u = entry_term fis (es ! (k - 1))"
    using k k0 Some by (simp_all add: te_at_def te_term_def tb_toTerm_def split: if_splits)
  let ?j = "(k - 1) div step + 1"
  have pos: "te_position ?e sdiv int step = int ((k - 1) div step)" unfolding k'(3) using step by (cases "k - 1") (simp_all add: signed_divide_int_def zdiv_int)
  have "(k - 1) div step \<le> k - 1" by (rule div_le_dividend)
  then have "(k - 1) div step < 2 ^ 31" using k'(1,2) len by linarith
  then have off: "trunc32 (te_position ?e sdiv int step) + 1 = int ?j" unfolding pos by (subst trunc32_id) simp_all
  have j: "?j \<le> length terms" using i(3) terms' k'(2) by (simp add: div_le_mono)
  have below: "nth_key fis es a < term_key t" if c: "(case te_prev ?e of None \<Rightarrow> False | Some p \<Rightarrow> 0 < term_compare t p) \<or> 0 \<le> term_compare t u" and a: "Suc a < k" for a
    using c
  proof
    assume p: "case te_prev ?e of None \<Rightarrow> False | Some p \<Rightarrow> 0 < term_compare t p"
    then obtain p where p: "te_prev ?e = Some p" "0 < term_compare t p" by (cases "te_prev ?e") simp_all
    then have "2 \<le> k" "p = entry_term fis (es ! (k - 2))" using k by (auto simp: te_prev_def tb_toTerm_def te_at_def split: if_splits)
    then have "nth_key fis es (k - 2) < term_key t" using p(2) by (simp add: term_compare_pos)
    moreover have "a = k - 2 \<or> a < k - 2" using a by linarith
    moreover have "k - 2 < length es" using k'(1,2) by linarith
    ultimately show ?thesis using nth_key_less [OF es(1), of a "k - 2"] by (metis less_trans)
  next
    assume "0 \<le> term_compare t u"
    then have "nth_key fis es (k - 1) \<le> term_key t" using term_compare_sign(1) [of t u] k'(4) by (simp add: not_less flip: not_less)
    moreover have "nth_key fis es a < nth_key fis es (k - 1)" using a k'(2) by (intro nth_key_less [OF es(1)]) simp_all
    ultimately show ?thesis by (rule less_le_trans [rotated])
  qed
  show ?thesis
  proof (cases "(case te_prev ?e of None \<Rightarrow> False | Some p \<Rightarrow> 0 < term_compare t p) \<or> 0 \<le> term_compare t u")
    case False
    then show ?thesis using Some i(2) step by (intro exI [of _ False]) (simp add: tr_here_def Let_def)
  next
    case True
    have "\<exists>b. tr_here t terms r = Inr b"
    proof (cases "length terms = ?j")
      case True
      then show ?thesis using Some \<open>_ \<or> _\<close> i(2) step off unfolding tr_here_def Let_def by (intro exI [of _ True]) simp
    next
      case False
      then have lt: "?j < length terms" using j by simp
      then have "terms ! ?j = Some (entry_term fis (es ! (?j * step - 1)))" using i(4) [of ?j] terms' by simp
      then show ?thesis using Some \<open>_ \<or> _\<close> i(2) step off lt False unfolding tr_here_def Let_def by (simp del: of_nat_add of_nat_Suc)
    qed
    then show ?thesis using below [OF True] k by blast
  qed
qed

lemma cache_put:
  assumes "cache_ok fis es c" "map_of (lru_entries c) t = None" "case res of None \<Rightarrow> True | Some ti \<Rightarrow> lookup_ok fis es t (Some ti)"
  shows "cache_ok fis es (case res of None \<Rightarrow> c | Some ti \<Rightarrow> lru_put t ti c)"
proof (cases res)
  case (Some ti)
  have c: "lru_ok c" "\<forall>(t, ti)\<in>set (lru_entries c). lookup_ok fis es t (Some ti)" using assms(1) by (simp_all add: cache_ok_def)
  have "set (lru_entries (lru_put t ti c)) \<subseteq> insert (t, ti) (set (lru_entries c))"
    using lru_put_ok [OF c(1) assms(2), of ti] by (auto simp: ref_put_def dest: in_set_takeD)
  then show ?thesis using lru_put_ok [OF c(1) assms(2), of ti] c(2) assms(3) Some by (auto simp: cache_ok_def)
qed (use assms(1) in simp)

lemma get_ok:
  assumes r: "tr_inv fis step D es r" and es: "dict_sorted fis es" and D: "dict_file False interval es D" and step: "0 < step" and t: "fst t \<noteq> []"
  shows "\<exists>res r'. tr_get fis rb rbs sk t useCache r = Inr (res, r') \<and> lookup_ok fis es t res \<and> tr_inv fis step D es r'"
proof (cases "es = []")
  case True
  then have "tr_size r = 0" using r by (auto simp: tr_inv_def index_ok_def)
  then show ?thesis using True r by (simp add: tr_get_def lookup_ok_def dict_map_def)
next
  case ne: False
  obtain terms where terms: "tr_indexTerms r = Some terms" "tr_size r \<noteq> 0" using r ne by (rule tr_invD)
  have c: "lru_ok (tr_cache r)" "\<forall>(t, ti)\<in>set (lru_entries (tr_cache r)). lookup_ok fis es t (Some ti)" using r by (simp_all add: tr_inv_def cache_ok_def)
  obtain cached c1 where c1: "(if useCache then lru_get t (tr_cache r) else Inr (None, tr_cache r)) = Inr (cached, c1)" "cache_ok fis es c1"
    "case cached of None \<Rightarrow> useCache \<longrightarrow> map_of (lru_entries c1) t = None | Some ti \<Rightarrow> lookup_ok fis es t (Some ti)"
  proof (cases useCache)
    case True
    from lru_get_ok [OF c(1), of t] obtain c' where c': "lru_get t (tr_cache r) = Inr (fst (ref_get t (lru_entries (tr_cache r))), c')" "lru_ok c'"
      "lru_entries c' = snd (ref_get t (lru_entries (tr_cache r)))" by blast
    show ?thesis
    proof (cases "map_of (lru_entries (tr_cache r)) t")
      case None
      then show ?thesis using that c' True c(2) by (simp add: ref_get_def cache_ok_def)
    next
      case (Some ti)
      then have "lookup_ok fis es t (Some ti)" using c(2) by (auto dest: map_of_SomeD)
      then show ?thesis using that c' True c(2) Some by (auto simp: ref_get_def cache_ok_def)
    qed
  qed (use that c in \<open>simp add: cache_ok_def\<close>)
  let ?r = "r\<lparr>tr_cache := c1\<rparr>"
  have r1: "tr_inv fis step D es ?r" "tr_indexTerms ?r = Some terms" using r c1(2) terms(1) by (simp_all add: tr_inv_def)
  show ?thesis
  proof (cases cached)
    case (Some ti)
    then show ?thesis using terms c1 r1 by (simp add: tr_get_def)
  next
    case None
    have absent: "useCache \<Longrightarrow> map_of (lru_entries c1) t = None" using c1(3) None by simp
    have after: "\<exists>res r'. tr_found t fill e ?r = (res, r') \<and> lookup_ok fis es t res \<and> tr_inv fis step D es r'"
      if e: "(\<exists>j. te_at fis False D es j e \<and> 0 < j \<and> term_key t \<le> nth_key fis es (j - 1) \<and> (\<forall>i. Suc i < j \<longrightarrow> nth_key fis es i < term_key t)) \<or>
         te_ended False D es e \<and> (\<forall>i<length es. nth_key fis es i < term_key t)" and fill: "fill \<longrightarrow> useCache" for e fill
    proof -
      from scanned_found [OF es e, of fill ?r] obtain res where res: "tr_found t fill e ?r = (res, ?r\<lparr>tr_termEnum := e,
          tr_cache := (if fill then (case res of None \<Rightarrow> tr_cache ?r | Some ti \<Rightarrow> lru_put t ti (tr_cache ?r)) else tr_cache ?r)\<rparr>)" "lookup_ok fis es t res" by blast
      have "cache_ok fis es (if fill then (case res of None \<Rightarrow> c1 | Some ti \<Rightarrow> lru_put t ti c1) else c1)"
        using cache_put [OF c1(2) absent, of res] c1(2) res(2) fill by (cases res) auto
      moreover have "(\<exists>k. te_at fis False D es k e) \<or> te_ended False D es e" using e by blast
      ultimately have "tr_inv fis step D es (?r\<lparr>tr_termEnum := e, tr_cache := (if fill then (case res of None \<Rightarrow> c1 | Some ti \<Rightarrow> lru_put t ti c1) else c1)\<rparr>)"
        using r1(1) by (simp add: tr_inv_def)
      then show ?thesis using res by (cases res; cases fill) simp_all
    qed
    obtain here where here: "tr_here t terms ?r = Inr here"
      "here \<longrightarrow> (\<exists>k. te_at fis False D es k (tr_termEnum ?r) \<and> (\<forall>i. Suc i < k \<longrightarrow> nth_key fis es i < term_key t))"
      using here_ok [OF r1(1) es ne _ step r1(2), of t] D by (auto simp: dict_file_def)
    show ?thesis
    proof (cases here)
      case True
      then obtain k where k: "te_at fis False D es k (tr_termEnum ?r)" "\<forall>i. Suc i < k \<longrightarrow> nth_key fis es i < term_key t" using here(2) by blast
      from scan_ok [OF D t k, of 0] obtain n e where e: "te_scan fis rb rbs t 0 (tr_termEnum ?r) = Some (Inr (n, e))"
        "(\<exists>j. te_at fis False D es j e \<and> 0 < j \<and> term_key t \<le> nth_key fis es (j - 1) \<and> (\<forall>i. Suc i < j \<longrightarrow> nth_key fis es i < term_key t)) \<or>
         te_ended False D es e \<and> (\<forall>i<length es. nth_key fis es i < term_key t)" by blast
      from after [OF e(2), of "useCache \<and> 1 < n"] show ?thesis
        using terms c1(1) None here(1) True e(1) by (auto simp: tr_get_def te_scanTo_def Let_def)
    next
      case False
      obtain k e0 where k: "tr_seekEnum sk (tr_getIndexOffset t terms) terms ?r = Inr e0" "te_at fis False D es k e0" "\<forall>i. Suc i < k \<longrightarrow> nth_key fis es i < term_key t"
        using seekEnum_ok [OF r1(1) es ne D step, of t] r1(2) by auto
      from scan_ok [OF D t k(2,3), of 0] obtain n e where e: "te_scan fis rb rbs t 0 e0 = Some (Inr (n, e))"
        "(\<exists>j. te_at fis False D es j e \<and> 0 < j \<and> term_key t \<le> nth_key fis es (j - 1) \<and> (\<forall>i. Suc i < j \<longrightarrow> nth_key fis es i < term_key t)) \<or>
         te_ended False D es e \<and> (\<forall>i<length es. nth_key fis es i < term_key t)" by blast
      from after [OF e(2), of useCache] show ?thesis
        using terms c1(1) None here(1) False k(1) e(1) by (auto simp: tr_get_def te_scanTo_def Let_def)
    qed
  qed
qed

lemma position_loop:
  assumes D: "dict_file False interval es D" and es: "dict_sorted fis es"
  shows "te_at fis False D es k e \<Longrightarrow> 0 < k \<Longrightarrow> \<forall>i. Suc i < k \<longrightarrow> nth_key fis es i < term_key t \<Longrightarrow>
    \<exists>e'. tr_positionLoop fis rb rbs t e = Some (Inr e') \<and>
      ((\<exists>j. te_at fis False D es j e' \<and> 0 < j \<and> term_key t \<le> nth_key fis es (j - 1) \<and> (\<forall>i. Suc i < j \<longrightarrow> nth_key fis es i < term_key t)) \<or>
       te_ended False D es e' \<and> (\<forall>i<length es. nth_key fis es i < term_key t))"
proof (induction "length es - k" arbitrary: k e)
  case 0
  then have k: "k = length es" by (simp add: te_at_def)
  have "es ! (k - 1) \<in> set es" using 0 k by simp
  then have u: "te_term e = Some (entry_term fis (es ! (k - 1)))" using 0 es by (simp add: te_at_def te_term_def tb_toTerm_def dict_sorted_def)
  show ?case
  proof (cases "0 < term_compare t (entry_term fis (es ! (k - 1)))")
    case False
    then have "te_at fis False D es k e \<and> 0 < k \<and> term_key t \<le> nth_key fis es (k - 1) \<and> (\<forall>i. Suc i < k \<longrightarrow> nth_key fis es i < term_key t)"
      using 0 by (simp add: term_compare_pos not_less)
    then show ?thesis using False u by (subst tr_positionLoop.simps) auto
  next
    case True
    obtain e' where e': "te_next fis rb rbs e = Inr (False, e')" "te_ended False D es e'" using next_end [OF "0.prems"(1) k D] by blast
    have "nth_key fis es i < term_key t" if "i < length es" for i
    proof (cases "Suc i < k")
      case False
      then have "i = k - 1" using that k by linarith
      then show ?thesis using True by (simp add: term_compare_pos)
    qed (use 0 in simp)
    then show ?thesis using True e' u by (subst tr_positionLoop.simps) auto
  qed
next
  case (Suc n)
  then have k: "k < length es" by simp
  then have "es ! (k - 1) \<in> set es" by simp
  then have u: "te_term e = Some (entry_term fis (es ! (k - 1)))" using Suc.prems es by (simp add: te_at_def te_term_def tb_toTerm_def dict_sorted_def)
  show ?case
  proof (cases "0 < term_compare t (entry_term fis (es ! (k - 1)))")
    case False
    then have "te_at fis False D es k e \<and> 0 < k \<and> term_key t \<le> nth_key fis es (k - 1) \<and> (\<forall>i. Suc i < k \<longrightarrow> nth_key fis es i < term_key t)"
      using Suc.prems by (simp add: term_compare_pos not_less)
    then show ?thesis using False u by (subst tr_positionLoop.simps) auto
  next
    case True
    obtain e' where e': "te_next fis rb rbs e = Inr (True, e')" "te_at fis False D es (Suc k) e'" using next_entry [OF Suc.prems(1) k D] by blast
    have b: "\<forall>i. Suc i < Suc k \<longrightarrow> nth_key fis es i < term_key t"
    proof (intro allI impI)
      fix i assume "Suc i < Suc k"
      then consider "Suc i < k" | "i = k - 1" using Suc.prems(2) by linarith
      then show "nth_key fis es i < term_key t" using Suc.prems(3) True by cases (simp_all add: term_compare_pos)
    qed
    have "n = length es - Suc k" using Suc.hyps(2) by simp
    from Suc.hyps(1) [OF this e'(2) zero_less_Suc b] show ?thesis using True e'(1) u by (subst tr_positionLoop.simps) auto
  qed
qed

text \<open>A script of lookups, each with or without the cache.\<close>

end

fun tr_lookups ::
  "field_infos \<Rightarrow> 's reader \<Rightarrow> (nat \<Rightarrow> 's \<Rightarrow> (byte list \<times> 's) result) \<Rightarrow> (nat \<Rightarrow> 's \<Rightarrow> 's result) \<Rightarrow> (lterm \<times> bool) list \<Rightarrow>
   's infos_reader \<Rightarrow> term_info option list result" where
  "tr_lookups fis rb rbs sk [] r = Inr []"
| "tr_lookups fis rb rbs sk ((t, useCache) # ops) r =
     bind_r (tr_get fis rb rbs sk t useCache r) (\<lambda>(res, r). bind_r (tr_lookups fis rb rbs sk ops r) (\<lambda>rs. Inr (res # rs)))"

text \<open>What of an info is on file.\<close>

definition info_view :: "term_info \<Rightarrow> int \<times> int \<times> int \<times> int option" where
  "info_view ti = (ti_docFreq ti, ti_freqPointer ti, ti_proxPointer ti, if 16 \<le> ti_docFreq ti then Some (ti_skipOffset ti) else None)"

lemma view_sim: "ti_sim 16 a b \<Longrightarrow> info_view a = info_view b"
  by (simp add: ti_sim_def info_view_def)

lemma lookup_view: "lookup_ok fis es t res \<Longrightarrow> map_option info_view res = map_option info_view (map_of (dict_map fis es) t)"
  using view_sim by (cases "map_of (dict_map fis es) t") (auto simp: lookup_ok_def)

context in_stream begin

lemma lookups_ok:
  assumes es: "dict_sorted fis es" and D: "dict_file False interval es D" and step: "0 < step"
  shows "tr_inv fis step D es r \<Longrightarrow> \<forall>(t, _)\<in>set ops. fst t \<noteq> [] \<Longrightarrow>
    \<exists>rs. tr_lookups fis rb rbs sk ops r = Inr rs \<and> map (map_option info_view) rs = map (\<lambda>(t, _). map_option info_view (map_of (dict_map fis es) t)) ops"
proof (induction ops arbitrary: r)
  case (Cons x ops)
  obtain t useCache where x: "x = (t, useCache)" by (cases x)
  have t: "fst t \<noteq> []" using Cons.prems(2) x by simp
  from get_ok [OF Cons.prems(1) es D step t] obtain res r' where r': "tr_get fis rb rbs sk t useCache r = Inr (res, r')"
    "lookup_ok fis es t res" "tr_inv fis step D es r'" by blast
  from Cons.IH [OF r'(3)] Cons.prems(2) obtain rs where rs: "tr_lookups fis rb rbs sk ops r' = Inr rs"
    "map (map_option info_view) rs = map (\<lambda>(t, _). map_option info_view (map_of (dict_map fis es) t)) ops" by auto
  show ?case using x r'(1) rs lookup_view [OF r'(2)] by simp
qed simp

end

subsection \<open>The dictionary of a segment\<close>

fun dict_addTerms ::
  "field_infos \<Rightarrow> (lterm \<times> term_info) list \<Rightarrow> fs_out infos_writer \<times> fs_out infos_writer \<Rightarrow> (fs_out infos_writer \<times> fs_out infos_writer) result" where
  "dict_addTerms fis [] ws = Inr ws"
| "dict_addTerms fis ((t, ti) # terms) ws =
     bind_r (tw_addTerm so_writeByte so_writeBytes so_pointer fis t ti ws) (dict_addTerms fis terms)"

text \<open>Both files of a dictionary, once the writer is closed.\<close>

definition dict_write :: "field_infos \<Rightarrow> nat \<Rightarrow> (lterm \<times> term_info) list \<Rightarrow> (byte list \<times> byte list) result" where
  "dict_write fis interval terms =
     bind_r (newTermInfosWriter so_writeByte interval False newSimpleFSIndexOutput) (\<lambda>w.
     bind_r (newTermInfosWriter so_writeByte interval True newSimpleFSIndexOutput) (\<lambda>other.
     bind_r (dict_addTerms fis terms (w, other)) (\<lambda>ws.
     bind_r (tw_close so_writeByte so_seek so_flush ws) (\<lambda>(w, other). Inr (on_disk (tw_output w), on_disk (tw_output other))))))"

definition dict_of :: "field_infos \<Rightarrow> lterm \<times> term_info \<Rightarrow> dict_entry" where
  "dict_of fis = (\<lambda>(t, ti). (fis_fieldNumber fis (fst t), utf8_bytes (snd t), ti, None))"

definition dict_terms_ok :: "field_infos \<Rightarrow> (lterm \<times> term_info) list \<Rightarrow> bool" where
  "dict_terms_ok fis terms \<longleftrightarrow> sorted_wrt (\<lambda>a b. term_compare (fst a) (fst b) < 0) terms \<and> fis_ok fis \<and> length (fis_byNumber fis) < 2 ^ 31 \<and> length terms < 2 ^ 31 \<and>
     (\<forall>(t, ti)\<in>set terms. fst t \<in> set (fis_names fis) \<and> fst t \<noteq> [] \<and> term_ok (snd t) \<and> info_ok ti)"

lemma entry_of:
  assumes "dict_terms_ok fis terms" "(t, ti) \<in> set terms"
  shows "entry_term fis (dict_of fis (t, ti)) = t" "dict_entry_ok (dict_of fis (t, ti))"
proof -
  have t: "fst t \<in> set (fis_names fis)" "string_ok (snd t)" "size_ok (utf8_bytes (snd t))" "info_ok ti" "length (fis_byNumber fis) < 2 ^ 31" "fis_ok fis"
    using assms by (auto simp: dict_terms_ok_def term_ok_def)
  show "entry_term fis (dict_of fis (t, ti)) = t"
    using fieldName_number [OF t(6,1)] entry_text_bytes [of "snd t"] t(2) by (simp add: entry_term_def dict_of_def string_ok_def)
  show "dict_entry_ok (dict_of fis (t, ti))"
    using fieldName_number [OF t(6,1)] t(2-5) by (auto simp: dict_entry_ok_def dict_of_def in_int32_def bytes_ok_def)
qed

lemma dict_map_of: "dict_terms_ok fis terms \<Longrightarrow> dict_map fis (map (dict_of fis) terms) = terms"
proof -
  assume ok: "dict_terms_ok fis terms"
  have "map (\<lambda>e. (entry_term fis e, fst (snd (snd e)))) (map (dict_of fis) terms) = map (\<lambda>x. x) terms"
    unfolding map_map
  proof (rule map_cong)
    fix x assume x: "x \<in> set terms"
    obtain t ti where "x = (t, ti)" by (cases x)
    with entry_of(1) [OF ok, of t ti] x show "((\<lambda>e. (entry_term fis e, fst (snd (snd e)))) \<circ> dict_of fis) x = x" by (simp add: dict_of_def)
  qed simp
  then show ?thesis by (simp add: dict_map_def)
qed

lemma dict_sorted_of: "dict_terms_ok fis terms \<Longrightarrow> dict_sorted fis (map (dict_of fis) terms)"
proof -
  assume ok: "dict_terms_ok fis terms"
  have t: "entry_term fis (dict_of fis x) = fst x" "fst (fst x) \<noteq> []" if "x \<in> set terms" for x
    using that entry_of(1) [OF ok, of "fst x" "snd x"] ok by (auto simp: dict_terms_ok_def)
  have "sorted_wrt (\<lambda>a b. term_compare (fst a) (fst b) < 0) terms" using ok by (simp add: dict_terms_ok_def)
  then show ?thesis using t by (auto simp: dict_sorted_def sorted_wrt_map term_compare_sign(1) intro: sorted_wrt_mono_rel [rotated])
qed

lemma addTerms_ok:
  assumes i: "0 < interval"
  shows "so_out.dict_at interval es ws \<Longrightarrow> \<forall>(t, ti)\<in>set terms. term_ok (snd t) \<Longrightarrow>
    \<exists>ws'. dict_addTerms fis terms ws = Inr ws' \<and> so_out.dict_at interval (es @ map (dict_of fis) terms) ws'"
proof (induction terms arbitrary: es ws)
  case (Cons x terms)
  obtain t ti where x: "x = (t, ti)" by (cases x)
  have "toUTF8 (snd t) = Inr (utf8_bytes (snd t))" using Cons.prems(2) x toUTF8_bytes by (simp add: term_ok_def)
  moreover have "size_ok (utf8_bytes (snd t))" using Cons.prems(2) x by (simp add: term_ok_def)
  moreover from this obtain ws1 where "tw_add so_writeByte so_writeBytes so_pointer (fis_fieldNumber fis (fst t)) (utf8_bytes (snd t)) ti ws = Inr ws1"
    "so_out.dict_at interval (es @ [dict_of fis x]) ws1" using so_out.add_ok [OF Cons.prems(1) i, of "utf8_bytes (snd t)" "fis_fieldNumber fis (fst t)" ti] x
    unfolding dict_of_def by auto
  moreover with Cons.IH [OF this(2)] Cons.prems(2) obtain ws' where "dict_addTerms fis terms ws1 = Inr ws'"
    "so_out.dict_at interval (es @ map (dict_of fis) (x # terms)) ws'" by auto
  ultimately show ?case using x by (auto simp: tw_addTerm_def)
qed simp

lemma dict_written:
  assumes "0 < interval" "\<forall>(t, ti)\<in>set terms. term_ok (snd t)"
  shows "dict_write fis interval terms = Inr (dict_header (length terms) interval @ dict_wire 16 dict_start (map (dict_of fis) terms),
    dict_header (length (index_entries interval (map (dict_of fis) terms))) interval @ dict_wire 16 dict_start (index_entries interval (map (dict_of fis) terms)))"
proof -
  let ?es = "map (dict_of fis) terms"
  obtain w where w: "newTermInfosWriter so_writeByte interval False newSimpleFSIndexOutput = Inr w" "so_out.tw_at interval False [] w"
    using so_out.new_writer [OF new_so_out] by blast
  obtain other where other: "newTermInfosWriter so_writeByte interval True newSimpleFSIndexOutput = Inr other" "so_out.tw_at interval True [] other"
    using so_out.new_writer [OF new_so_out] by blast
  have "so_out.dict_at interval [] (w, other)" using w(2) other(2) assms(1) by (simp add: so_out.dict_at_def index_entries_def)
  from addTerms_ok [OF assms(1) this assms(2), of fis] obtain w' other' where ws: "dict_addTerms fis terms (w, other) = Inr (w', other')"
    "so_out.tw_at interval False ?es w'" "so_out.tw_at interval True (index_entries interval ?es) other'" by (auto simp: so_out.dict_at_def)
  obtain w'' where w'': "tw_closeOne so_writeByte so_seek so_flush w' = Inr w''" "on_disk (tw_output w'') = dict_header (length ?es) interval @ dict_wire 16 dict_start ?es"
    "\<not> tw_isIndex w''" using closeOne_ok [OF ws(2)] by blast
  obtain other'' where other'': "tw_closeOne so_writeByte so_seek so_flush other' = Inr other''"
    "on_disk (tw_output other'') = dict_header (length (index_entries interval ?es)) interval @ dict_wire 16 dict_start (index_entries interval ?es)"
    using closeOne_ok [OF ws(3)] by blast
  show ?thesis using w(1) other(1) ws(1) w'' other'' by (simp add: dict_write_def tw_close_def)
qed

lemma length_vint_wire: "length (vint_wire i) \<le> 5" "length (vlong_wire i) \<le> 10"
proof -
  have "unat (of_int i :: int32) < 2 ^ 32" "unat (of_int i :: int64) < 2 ^ 64" using unsigned_less [of "of_int i :: int32"] unsigned_less [of "of_int i :: int64"] by simp_all
  then show "length (vint_wire i) \<le> 5" "length (vlong_wire i) \<le> 10"
    using length_nat_wire [of "unat (of_int i :: int32)" 4] length_nat_wire [of "unat (of_int i :: int64)" 9] by (simp_all add: vint_wire_def vlong_wire_def)
qed

lemma length_dict_wire:
  "\<forall>e\<in>set es. dict_entry_ok e \<Longrightarrow> length (dict_wire 16 p es) \<le> length es * (2 ^ 31 + 55)"
proof (induction es arbitrary: p)
  case (Cons e es)
  obtain n b ti ptr where e: "e = (n, b, ti, ptr)" by (cases e)
  obtain pb pti pp where p: "p = (pb, pti, pp)" by (cases p)
  have "length b \<le> 2 ^ 31" using Cons.prems e by (auto simp: dict_entry_ok_def bytes_ok_def dest: size_ok_length)
  then have "length (term_wire pb n b) \<le> 2 ^ 31 + 15"
    using length_vint_wire(1) [of "int (common_prefix b pb)"] length_vint_wire(1) [of "int (length b - common_prefix b pb)"] length_vint_wire(1) [of n]
    by (simp add: term_wire_def)
  moreover have "length (info_wire 16 pti ti) \<le> 30"
    using length_vint_wire(1) [of "ti_docFreq ti"] length_vint_wire(1) [of "ti_skipOffset ti"] length_vint_wire(2) [of "ti_freqPointer ti - ti_freqPointer pti"]
      length_vint_wire(2) [of "ti_proxPointer ti - ti_proxPointer pti"] by (simp add: info_wire_def)
  moreover have "length (case ptr of None \<Rightarrow> [] | Some q \<Rightarrow> vlong_wire (int q - pp)) \<le> 10" using length_vint_wire(2) by (cases ptr) simp_all
  ultimately have "length (dict_entry_wire 16 p e) \<le> 2 ^ 31 + 55" by (simp add: dict_entry_wire_def e p)
  with Cons.IH [of "last_of p e"] Cons.prems show ?case by simp
qed simp

lemma dict_file_of:
  assumes ok: "dict_terms_ok fis terms" and i: "interval < 2 ^ 31" and D: "D = dict_header (length terms) interval @ dict_wire 16 dict_start (map (dict_of fis) terms)"
  shows "dict_file False interval (map (dict_of fis) terms) D" "length D < 2 ^ 63"
proof -
  let ?es = "map (dict_of fis) terms"
  have e: "dict_entry_ok e \<and> snd (snd (snd e)) = None" if "e \<in> set ?es" for e
  proof -
    from that obtain t ti where "(t, ti) \<in> set terms" "e = dict_of fis (t, ti)" by auto
    then show ?thesis using entry_of(2) [OF ok] by (simp add: dict_of_def)
  qed
  have n: "length terms < 2 ^ 31" using ok by (simp add: dict_terms_ok_def)
  show "dict_file False interval ?es D" using D e n i by (simp add: dict_file_def)
  have "length (dict_wire 16 dict_start ?es) \<le> length terms * (2 ^ 31 + 55)" using length_dict_wire [of ?es dict_start] e by simp
  also have "\<dots> \<le> 2 ^ 31 * (2 ^ 31 + 55)" using n by (intro mult_le_mono1) simp
  finally show "length D < 2 ^ 63" unfolding D by simp
qed

text \<open>A dictionary written and opened for reading.\<close>

lemma dict_opened:
  assumes "dict_terms_ok fis terms" "0 < interval" "0 < divisor" "interval * divisor < 2 ^ 31" "0 < n" "n < 2 ^ 31"
  shows "\<exists>D X r. dict_write fis interval terms = Inr (D, X) \<and> dict_file False interval (map (dict_of fis) terms) D \<and>
    newTermInfosReader fis (fs_readByte (2 ^ 31 - 1)) (fs_readBytes (2 ^ 31 - 1)) (int divisor) (open_file n D) (open_file n X) = Inr r \<and>
    fs_stream.tr_inv (2 ^ 31 - 1) fis (interval * divisor) D (map (dict_of fis) terms) r"
proof -
  let ?es = "map (dict_of fis) terms"
  have t: "\<forall>(t, ti)\<in>set terms. term_ok (snd t)" using assms(1) by (auto simp: dict_terms_ok_def)
  have "interval * 1 \<le> interval * divisor" using assms(3) by (intro mult_le_mono) simp_all
  then have i: "interval < 2 ^ 31" using assms(4) by linarith
  obtain D where D: "D = dict_header (length terms) interval @ dict_wire 16 dict_start ?es" by blast
  obtain X where X: "X = dict_header (length (index_entries interval ?es)) interval @ dict_wire 16 dict_start (index_entries interval ?es)" by blast
  note f = dict_file_of [OF assms(1) i D]
  from fs_stream.new_reader [OF f dict_sorted_of [OF assms(1)] X assms(2-4) file_opened [OF assms(5,6)] file_opened [OF assms(5,6)]]
  show ?thesis using dict_written [OF assms(2) t, of fis] D X f(1) by auto
qed

text \<open>
  C3. A dictionary of any terms in their order (of known fields, the texts encodable and of a size
  whose buffers an \<^verbatim>\<open>int32_t\<close> can count: \<open>dict_terms_ok\<close>), written through \<^verbatim>\<open>TermInfosWriter\<close> with its
  index and read by \<^verbatim>\<open>TermInfosReader\<close> with any divisor of the index, answers any
  script of lookups, for terms of the dictionary or not, in any order and with or
  without the cache, as the list of the terms and their infos does (the offset of the skip data counts where there is any).
\<close>

theorem dictionary_lookups:
  assumes "dict_terms_ok fis terms" "0 < interval" "0 < divisor" "interval * divisor < 2 ^ 31" "0 < n" "n < 2 ^ 31"
    and "\<forall>(t, _)\<in>set ops. fst t \<noteq> []"
  shows "\<exists>D X r rs. dict_write fis interval terms = Inr (D, X) \<and>
    newTermInfosReader fis (fs_readByte (2 ^ 31 - 1)) (fs_readBytes (2 ^ 31 - 1)) (int divisor) (open_file n D) (open_file n X) = Inr r \<and>
    tr_lookups fis (fs_readByte (2 ^ 31 - 1)) (fs_readBytes (2 ^ 31 - 1)) fs_seek ops r = Inr rs \<and>
    map (map_option info_view) rs = map (\<lambda>(t, _). map_option info_view (map_of terms t)) ops"
proof -
  obtain D X r where r: "dict_write fis interval terms = Inr (D, X)" "dict_file False interval (map (dict_of fis) terms) D"
    "newTermInfosReader fis (fs_readByte (2 ^ 31 - 1)) (fs_readBytes (2 ^ 31 - 1)) (int divisor) (open_file n D) (open_file n X) = Inr r"
    "fs_stream.tr_inv (2 ^ 31 - 1) fis (interval * divisor) D (map (dict_of fis) terms) r" using dict_opened [OF assms(1-6)] by blast
  have "0 < interval * divisor" using assms(2,3) by simp
  from fs_stream.lookups_ok [OF dict_sorted_of [OF assms(1)] r(2) this r(4) assms(7)] show ?thesis
    unfolding dict_map_of [OF assms(1)] using r(1,3) by blast
qed

text \<open>The number of a term in the dictionary, and \<^verbatim>\<open>getPosition\<close>.\<close>

definition term_number :: "lterm list \<Rightarrow> lterm \<Rightarrow> int" where
  "term_number ts t = (case map_of (zip ts [0..<length ts]) t of None \<Rightarrow> -1 | Some i \<Rightarrow> int i)"

lemma term_number_at: "distinct ts \<Longrightarrow> i < length ts \<Longrightarrow> term_number ts (ts ! i) = int i"
  by (simp add: term_number_def map_of_zip_nth)

lemma term_number_absent: "t \<notin> set ts \<Longrightarrow> term_number ts t = -1"
proof -
  assume "t \<notin> set ts"
  then have "map_of (zip ts [0..<length ts]) t = None" by (auto simp: map_of_eq_None_iff dest: set_zip_leftD)
  then show ?thesis by (simp only: term_number_def option.case)
qed

context in_stream begin

lemma position_ok:
  assumes r: "tr_inv fis step D es r" and es: "dict_sorted fis es" "es \<noteq> []" and D: "dict_file False interval es D" and step: "0 < step"
  shows "map_sum id fst (tr_getPosition fis rb rbs sk t r) =
    (if length es \<le> step \<or> term_key t < nth_key fis es (step - 1) \<or> (\<forall>i<length es. nth_key fis es i < term_key t) then Inl OutOfRange
     else Inr (term_number (map (entry_term fis) es) t))"
proof -
  obtain terms where terms: "tr_indexTerms r = Some terms" "tr_size r \<noteq> 0" using r es(2) by (rule tr_invD)
  obtain k e where k: "tr_seekEnum sk (tr_getIndexOffset t terms) terms r = Inr e" "te_at fis False D es k e"
    "\<forall>i. Suc i < k \<longrightarrow> nth_key fis es i < term_key t" "k = 0 \<longleftrightarrow> length es \<le> step \<or> term_key t < nth_key fis es (step - 1)"
    using seekEnum_ok [OF r es D step, of t] terms(1) by auto
  show ?thesis
  proof (cases "k = 0")
    case True
    then have "te_term e = None" using k(2) by (simp add: te_at_def te_term_def tb_toTerm_def)
    then have "tr_positionLoop fis rb rbs t e = Some (Inl OutOfRange)" by (simp add: tr_positionLoop.simps)
    then show ?thesis using True k(1,4) terms by (auto simp: tr_getPosition_def)
  next
    case False
    then obtain e' where e': "tr_positionLoop fis rb rbs t e = Some (Inr e')"
      "(\<exists>j. te_at fis False D es j e' \<and> 0 < j \<and> term_key t \<le> nth_key fis es (j - 1) \<and> (\<forall>i. Suc i < j \<longrightarrow> nth_key fis es i < term_key t)) \<or>
       te_ended False D es e' \<and> (\<forall>i<length es. nth_key fis es i < term_key t)" using position_loop [OF D es(1) k(2) _ k(3)] by auto
    from e'(2) show ?thesis
    proof (elim disjE exE conjE)
      assume "te_ended False D es e'" "\<forall>i<length es. nth_key fis es i < term_key t"
      then show ?thesis using terms k(1) e'(1) by (simp add: tr_getPosition_def te_ended_def te_term_def tb_toTerm_def)
    next
      fix j assume j: "te_at fis False D es j e'" "0 < j" "term_key t \<le> nth_key fis es (j - 1)" "\<forall>i. Suc i < j \<longrightarrow> nth_key fis es i < term_key t"
      let ?u = "entry_term fis (es ! (j - 1))" and ?ts = "map (entry_term fis) es"
      have lt: "j - 1 < length es" using j(1,2) by (auto simp: te_at_def)
      then have "es ! (j - 1) \<in> set es" by simp
      then have u: "te_term e' = Some ?u" using j(1,2) es(1) by (simp add: te_at_def te_term_def tb_toTerm_def dict_sorted_def)
      have n: "term_number ?ts t = (if t = ?u then int (j - 1) else -1)"
      proof (cases "t = ?u")
        case True
        have "distinct ?ts"
        proof (unfold distinct_conv_nth, intro allI impI)
          fix a b assume "a < length ?ts" "b < length ?ts" "a \<noteq> b"
          then show "?ts ! a \<noteq> ?ts ! b" using nth_key_less [OF es(1), of a b] nth_key_less [OF es(1), of b a] by (cases "a < b") auto
        qed
        then show ?thesis using term_number_at [of ?ts "j - 1"] lt True by simp
      next
        case False
        have "map_of (dict_map fis es) t = None" using above_absent [OF es(1) lt j(3) False j(4)] by (rule lookup_absent)
        then have "t \<notin> fst ` set (dict_map fis es)" by (simp only: map_of_eq_None_iff not_False_eq_True)
        moreover have "fst ` set (dict_map fis es) = set ?ts" by (simp add: dict_map_def image_image)
        ultimately have "t \<notin> set ?ts" by simp
        then show ?thesis using term_number_absent False by simp
      qed
      have "\<not> nth_key fis es (j - 1) < term_key t" using j(3) by simp
      then have c: "\<not> (\<forall>i<length es. nth_key fis es i < term_key t)" using lt by blast
      have p: "te_position e' = int (j - 1)" using j(1,2) by (simp add: te_at_def)
      have "map_sum id fst (tr_getPosition fis rb rbs sk t r) = Inr (if t = ?u then int (j - 1) else -1)"
        using terms k(1) e'(1) u p term_compare_sign(2) [of t ?u] by (simp add: tr_getPosition_def)
      then show ?thesis using c k(4) False unfolding n by auto
    qed
  qed
qed

end

text \<open>
  C39. \<^verbatim>\<open>getPosition\<close> gives the number of a term in the dictionary, or -1, only for terms that are not below the
  first term the index holds and not above the last term of the dictionary: for all others, terms of the first
  block included, it compares with a null pointer.
\<close>

theorem dictionary_positions:
  assumes "dict_terms_ok fis terms" "terms \<noteq> []" "0 < interval" "0 < divisor" "interval * divisor < 2 ^ 31" "0 < n" "n < 2 ^ 31"
  shows "\<exists>D X r. dict_write fis interval terms = Inr (D, X) \<and>
    newTermInfosReader fis (fs_readByte (2 ^ 31 - 1)) (fs_readBytes (2 ^ 31 - 1)) (int divisor) (open_file n D) (open_file n X) = Inr r \<and>
    map_sum id fst (tr_getPosition fis (fs_readByte (2 ^ 31 - 1)) (fs_readBytes (2 ^ 31 - 1)) fs_seek t r) =
      (if length terms \<le> interval * divisor \<or> term_compare t (fst (terms ! (interval * divisor - 1))) < 0 \<or> (\<forall>i<length terms. 0 < term_compare t (fst (terms ! i)))
       then Inl OutOfRange else Inr (term_number (map fst terms) t))"
proof -
  let ?es = "map (dict_of fis) terms"
  obtain D X r where r: "dict_write fis interval terms = Inr (D, X)" "dict_file False interval ?es D"
    "newTermInfosReader fis (fs_readByte (2 ^ 31 - 1)) (fs_readBytes (2 ^ 31 - 1)) (int divisor) (open_file n D) (open_file n X) = Inr r"
    "fs_stream.tr_inv (2 ^ 31 - 1) fis (interval * divisor) D ?es r" using dict_opened [OF assms(1,3-7)] by blast
  have step: "0 < interval * divisor" and ne: "?es \<noteq> []" using assms(2-4) by simp_all
  have e: "entry_term fis (?es ! i) = fst (terms ! i)" if "i < length terms" for i
    using entry_of(1) [OF assms(1), of "fst (terms ! i)" "snd (terms ! i)"] that by simp
  have m: "map (entry_term fis) ?es = map fst terms" using e by (intro nth_equalityI) simp_all
  have l: "(\<forall>i<length ?es. nth_key fis ?es i < term_key t) \<longleftrightarrow> (\<forall>i<length terms. 0 < term_compare t (fst (terms ! i)))"
    using e by (simp add: term_compare_pos)
  have f: "length ?es \<le> interval * divisor \<or> term_key t < nth_key fis ?es (interval * divisor - 1) \<longleftrightarrow>
      length terms \<le> interval * divisor \<or> term_compare t (fst (terms ! (interval * divisor - 1))) < 0"
    using e [of "interval * divisor - 1"] by (cases "length terms \<le> interval * divisor") (simp_all add: term_compare_sign(1))
  from fs_stream.position_ok [OF r(4) dict_sorted_of [OF assms(1)] ne r(2) step, of t] show ?thesis
    unfolding m l using f r(1,3) by auto
qed

text \<open>Three terms of two fields, the second with a character outside ASCII and with skip data.\<close>

definition example_fields :: field_infos where
  "example_fields = fis_added [([102], not_indexed\<lparr>ff_isIndexed := True\<rparr>), ([103], not_indexed\<lparr>ff_isIndexed := True\<rparr>)]"

definition example_dict :: "(lterm \<times> term_info) list" where
  "example_dict =
     [(([102], [97]), \<lparr>ti_docFreq = 3, ti_freqPointer = 0, ti_proxPointer = 0, ti_skipOffset = 9\<rparr>),
      (([102], [97, 8364]), \<lparr>ti_docFreq = 20, ti_freqPointer = 9, ti_proxPointer = 30, ti_skipOffset = 77\<rparr>),
      (([103], [98]), \<lparr>ti_docFreq = 1, ti_freqPointer = 300, ti_proxPointer = 30, ti_skipOffset = 2\<rparr>)]"

lemma example_dict_ok: "dict_terms_ok example_fields example_dict"
proof -
  have "utf8_bytes [97] = [97]" "utf8_bytes [98] = [98]" "utf8_bytes [97, 8364] = [97, 0xE2, 0x82, 0xAC]" by code_simp+
  moreover have "fis_ok example_fields" "fis_names example_fields = [[102], [103]]"
    using added_fields [of "[([102], not_indexed\<lparr>ff_isIndexed := True\<rparr>), ([103], not_indexed\<lparr>ff_isIndexed := True\<rparr>)]"] by (simp_all add: example_fields_def first_names_def)
  moreover from this have "length (fis_byNumber example_fields) = 2" by (metis length_map length_Cons list.size(3) numeral_2_eq_2)
  moreover have "text_ok [97]" "text_ok [98]" "text_ok [97, 8364]" by code_simp+
  ultimately show ?thesis
    by (simp add: dict_terms_ok_def example_dict_def term_compare_def info_ok_def in_int32_def term_ok_def string_ok_def size_ok_def)
qed

theorem dictionary_lookups_witness:
  "\<exists>D X r rs. dict_write example_fields 2 example_dict = Inr (D, X) \<and>
    newTermInfosReader example_fields (fs_readByte (2 ^ 31 - 1)) (fs_readBytes (2 ^ 31 - 1)) (int 1) (open_file 4 D) (open_file 4 X) = Inr r \<and>
    tr_lookups example_fields (fs_readByte (2 ^ 31 - 1)) (fs_readBytes (2 ^ 31 - 1)) fs_seek
      [(([102], [97, 8364]), True), (([103], [98]), True), (([102], [97, 8364]), True), (([102], [99]), False), (([102], [97]), True)] r = Inr rs \<and>
    map (map_option info_view) rs = [Some (20, 9, 30, Some 77), Some (1, 300, 30, None), Some (20, 9, 30, Some 77), None, Some (3, 0, 0, None)]"
proof -
  let ?ops = "[(([102], [97, 8364]), True), (([103], [98]), True), (([102], [97, 8364]), True), (([102], [99]), False), (([102], [97]), True)] :: (lterm \<times> bool) list"
  have p: "0 < (2 :: nat)" "0 < (1 :: nat)" "2 * 1 < (2 ^ 31 :: nat)" "0 < (4 :: nat)" "(4 :: nat) < 2 ^ 31" "\<forall>(t, _)\<in>set ?ops. fst t \<noteq> []" by simp_all
  have r: "map (\<lambda>(t, _). map_option info_view (map_of example_dict t)) ?ops =
      [Some (20, 9, 30, Some 77), Some (1, 300, 30, None), Some (20, 9, 30, Some 77), None, Some (3, 0, 0, None)]"
    by (simp add: example_dict_def info_view_def)
  from dictionary_lookups [OF example_dict_ok p] show ?thesis unfolding r .
qed

theorem dictionary_positions_witness:
  "(\<exists>D X r. dict_write example_fields 2 example_dict = Inr (D, X) \<and>
    newTermInfosReader example_fields (fs_readByte (2 ^ 31 - 1)) (fs_readBytes (2 ^ 31 - 1)) (int 1) (open_file 4 D) (open_file 4 X) = Inr r \<and>
    map_sum id fst (tr_getPosition example_fields (fs_readByte (2 ^ 31 - 1)) (fs_readBytes (2 ^ 31 - 1)) fs_seek ([102], [97]) r) = Inl OutOfRange) \<and>
   (\<exists>D X r. dict_write example_fields 2 example_dict = Inr (D, X) \<and>
    newTermInfosReader example_fields (fs_readByte (2 ^ 31 - 1)) (fs_readBytes (2 ^ 31 - 1)) (int 1) (open_file 4 D) (open_file 4 X) = Inr r \<and>
    map_sum id fst (tr_getPosition example_fields (fs_readByte (2 ^ 31 - 1)) (fs_readBytes (2 ^ 31 - 1)) fs_seek ([103], [98]) r) = Inr 2)"
proof -
  have p: "example_dict \<noteq> []" "0 < (2 :: nat)" "0 < (1 :: nat)" "2 * 1 < (2 ^ 31 :: nat)" "0 < (4 :: nat)" "(4 :: nat) < 2 ^ 31" by (simp_all add: example_dict_def)
  have a: "term_compare ([102], [97]) (fst (example_dict ! (2 * 1 - 1))) < 0" by (simp add: example_dict_def term_compare_def)
  have b: "\<not> (length example_dict \<le> 2 * 1 \<or> term_compare ([103], [98]) (fst (example_dict ! (2 * 1 - 1))) < 0 \<or>
      (\<forall>i<length example_dict. 0 < term_compare ([103], [98]) (fst (example_dict ! i))))" "term_number (map fst example_dict) ([103], [98]) = 2"
    by (auto simp: example_dict_def term_compare_def term_number_def intro!: exI [of _ 2])
  note t = dictionary_positions [OF example_dict_ok p]
  have 1: "\<exists>D X r. dict_write example_fields 2 example_dict = Inr (D, X) \<and>
    newTermInfosReader example_fields (fs_readByte (2 ^ 31 - 1)) (fs_readBytes (2 ^ 31 - 1)) (int 1) (open_file 4 D) (open_file 4 X) = Inr r \<and>
    map_sum id fst (tr_getPosition example_fields (fs_readByte (2 ^ 31 - 1)) (fs_readBytes (2 ^ 31 - 1)) fs_seek ([102], [97]) r) = Inl OutOfRange"
    using t [of "([102], [97])"] a by auto
  have 2: "\<exists>D X r. dict_write example_fields 2 example_dict = Inr (D, X) \<and>
    newTermInfosReader example_fields (fs_readByte (2 ^ 31 - 1)) (fs_readBytes (2 ^ 31 - 1)) (int 1) (open_file 4 D) (open_file 4 X) = Inr r \<and>
    map_sum id fst (tr_getPosition example_fields (fs_readByte (2 ^ 31 - 1)) (fs_readBytes (2 ^ 31 - 1)) fs_seek ([103], [98]) r) = Inr 2"
    using t [of "([103], [98])"] unfolding if_not_P [OF b(1)] b(2) .
  from 1 2 show ?thesis by (rule conjI)
qed

end
