(* ===== verification/SegmentIndex.thy ===== *)
theory SegmentIndex imports TermDictReader begin

text \<open>
  A segment as a whole: the consumers of \<^verbatim>\<open>index/FormatPostingsTermsWriter.cpp\<close> and
  \<^verbatim>\<open>index/FormatPostingsDocsWriter.cpp\<close> put each term into the dictionary when its postings are
  written, and \<^verbatim>\<open>SegmentTermDocs::seek\<close> of a term looks it up there.
\<close>

subsection \<open>Writing\<close>

text \<open>The text of a term stands in an array of characters, from \<open>start\<close> to the terminator. The code lets the
  encoder read as many characters as the whole array has from there: without a terminator (or an invalid
  character, which stops the encoder too) it reads past the end of the array when \<open>start\<close> is not 0.\<close>

definition fpw_termBytes :: "uchar list \<Rightarrow> nat \<Rightarrow> byte list result" where
  "fpw_termBytes text start =
     (if text = [] then Inr []
      else bind_r (new_size (trunc32 (int (length text) * int MAX_ENCODING_UTF8_SIZE))) (\<lambda>cap.
        if 0 < start \<and> (\<forall>c\<in>set (drop start text). c \<noteq> UNICODE_TERMINATOR \<and> isValidCodePoint c) then Inl OutOfRange
        else bind_r (utf32to8 cap (drop start text) []) (\<lambda>r. Inr (conv_count r))))"

text \<open>\<^verbatim>\<open>finish\<close> of the documents of a term: the entry of the dictionary, if there are documents.\<close>

definition fpw_finish ::
  "field_desc \<Rightarrow> uchar list \<Rightarrow> nat \<Rightarrow> (fs_out, fs_out) postings_writer \<times> fs_out infos_writer \<times> fs_out infos_writer \<Rightarrow>
   ((fs_out, fs_out) postings_writer \<times> fs_out infos_writer \<times> fs_out infos_writer) result" where
  "fpw_finish fd text start = (\<lambda>(w, termsOut).
     bind_r (pw_finishDocs so_writeByte so_writeBytes so_pointer w) (\<lambda>(ti, w).
     bind_r (fpw_termBytes text start) (\<lambda>bytes.
     case ti of None \<Rightarrow> Inr (w, termsOut)
     | Some ti \<Rightarrow> bind_r (tw_add so_writeByte so_writeBytes so_pointer (int (fd_number fd)) bytes ti termsOut) (\<lambda>termsOut. Inr (w, termsOut)))))"

record seg_term =
  st_field :: field_desc
  st_text :: "uchar list"
  st_start :: nat
  st_postings :: "posting list"

fun index_addTerms ::
  "seg_term list \<Rightarrow> (fs_out, fs_out) postings_writer \<times> fs_out infos_writer \<times> fs_out infos_writer \<Rightarrow>
   ((fs_out, fs_out) postings_writer \<times> fs_out infos_writer \<times> fs_out infos_writer) result" where
  "index_addTerms [] ws = Inr ws"
| "index_addTerms (t # terms) (w, termsOut) =
     bind_r (pw_addPostings so_writeByte so_pointer so_writeByte so_writeBytes so_pointer (st_postings t)
              (pw_addTerm so_pointer so_pointer (pw_setField (fd_postings (st_field t)) w))) (\<lambda>w.
     bind_r (fpw_finish (st_field t) (st_text t) (st_start t) (w, termsOut)) (index_addTerms terms))"

record index_files =
  if_frq :: "byte list"
  if_prx :: "byte list"
  if_tis :: "byte list"
  if_tii :: "byte list"

text \<open>\<^verbatim>\<open>FormatPostingsFieldsWriter\<close>: the dictionary and the skip lists with its intervals, all terms, and the files when
  everything is closed; without a field that has positions there is no file for them, and \<open>if_prx\<close> is empty.\<close>

definition index_write :: "field_infos \<Rightarrow> (nat \<Rightarrow> nat \<Rightarrow> nat) \<Rightarrow> nat \<Rightarrow> nat \<Rightarrow> seg_term list \<Rightarrow> index_files result" where
  "index_write fis floorLog interval totalNumDocs terms =
     bind_r (newTermInfosWriter so_writeByte interval False newSimpleFSIndexOutput) (\<lambda>tis.
     bind_r (newTermInfosWriter so_writeByte interval True newSimpleFSIndexOutput) (\<lambda>tii.
     bind_r (index_addTerms terms (newSegmentWriter (fis_hasProx fis) floorLog (tw_skipInterval tis) (tw_maxSkipLevels tis) totalNumDocs, tis, tii)) (\<lambda>(w, termsOut).
     bind_r (tw_close so_writeByte so_seek so_flush termsOut) (\<lambda>(tis, tii).
     bind_r (so_flush (pw_freqOut w)) (\<lambda>f.
     bind_r (prox_written (pw_proxOut w)) (\<lambda>p.
       Inr \<lparr>if_frq = on_disk f, if_prx = p, if_tis = on_disk (tw_output tis), if_tii = on_disk (tw_output tii)\<rparr>))))))"

subsection \<open>Searching\<close>

text \<open>\<^verbatim>\<open>IndexReader::termDocs\<close> of a term: a new \<^verbatim>\<open>SegmentTermDocs\<close> that seeks the term.\<close>

definition td_seekTerm ::
  "field_infos \<Rightarrow> 's reader \<Rightarrow> (nat \<Rightarrow> 's \<Rightarrow> (byte list \<times> 's) result) \<Rightarrow> (nat \<Rightarrow> 's \<Rightarrow> 's result) \<Rightarrow> (nat \<Rightarrow> 'f \<Rightarrow> 'f result) \<Rightarrow> lterm \<Rightarrow>
   'f term_docs \<Rightarrow> 's infos_reader \<Rightarrow> ('f term_docs \<times> 's infos_reader) result" where
  "td_seekTerm fis rb rbs sk skF t td r =
     bind_r (tr_get fis rb rbs sk t True r) (\<lambda>(ti, r).
     bind_r (td_seek skF ti (map_option fd_postings (fis_fieldInfo fis (fst t))) td) (\<lambda>td. Inr (td, r)))"

text \<open>Queries for terms, each read in blocks of the given sizes.\<close>

fun index_search ::
  "field_infos \<Rightarrow> 's reader \<Rightarrow> (nat \<Rightarrow> 's \<Rightarrow> (byte list \<times> 's) result) \<Rightarrow> (nat \<Rightarrow> 's \<Rightarrow> 's result) \<Rightarrow> 'f reader \<Rightarrow> (nat \<Rightarrow> 'f \<Rightarrow> 'f result) \<Rightarrow>
   bit_vector option \<Rightarrow> 'f \<Rightarrow> (lterm \<times> nat list) list \<Rightarrow> 's infos_reader \<Rightarrow> (int32 \<times> int32) list list list result" where
  "index_search fis rb rbs sk rbF skF dv freqStream [] r = Inr []"
| "index_search fis rb rbs sk rbF skF dv freqStream ((t, ns) # qs) r =
     bind_r (td_seekTerm fis rb rbs sk skF t (newSegmentTermDocs freqStream dv) r) (\<lambda>(td, r).
     bind_r (td_blocks rbF ns td) (\<lambda>blocks.
     bind_r (index_search fis rb rbs sk rbF skF dv freqStream qs r) (\<lambda>rest. Inr (blocks # rest))))"

text \<open>What the segment holds: the postings of each term.\<close>

definition pool_text :: "uchar list \<Rightarrow> uchar list" where
  "pool_text cs = takeWhile (\<lambda>c. c \<noteq> UNICODE_TERMINATOR) cs"

definition st_term :: "seg_term \<Rightarrow> lterm" where
  "st_term t = (fd_name (st_field t), pool_text (drop (st_start t) (st_text t)))"

definition st_entry :: "seg_term \<Rightarrow> field_info \<times> posting list" where
  "st_entry t = (fd_postings (st_field t), st_postings t)"

definition found_docs :: "bit_vector option \<Rightarrow> seg_term list \<Rightarrow> lterm \<Rightarrow> (int32 \<times> int32) list" where
  "found_docs dv terms t =
     (case map_of (map (\<lambda>x. (st_term x, st_entry x)) terms) t of None \<Rightarrow> []
      | Some (fi, ps) \<Rightarrow> doc_freqs (fi_omitTermFreqAndPositions fi) (living dv ps))"

definition st_ok :: "field_infos \<Rightarrow> seg_term \<Rightarrow> bool" where
  "st_ok fis t \<longleftrightarrow> st_field t \<in> set (fis_byNumber fis) \<and> fd_name (st_field t) \<noteq> [] \<and> UNICODE_TERMINATOR \<in> set (drop (st_start t) (st_text t)) \<and>
     term_ok (snd (st_term t)) \<and> 4 * length (st_text t) < 2 ^ 31 \<and> (fi_omitTermFreqAndPositions (fd_postings (st_field t)) \<or> fis_hasProx fis)"

definition index_ok_terms :: "field_infos \<Rightarrow> bit_vector option \<Rightarrow> seg_term list \<Rightarrow> bool" where
  "index_ok_terms fis dv terms \<longleftrightarrow> fis_ok fis \<and> length (fis_byNumber fis) < 2 ^ 31 \<and> length terms < 2 ^ 31 \<and> segment_ok dv (map st_entry terms) \<and>
     sorted_wrt (\<lambda>a b. term_compare (st_term a) (st_term b) < 0) terms \<and> (\<forall>t\<in>set terms. st_ok fis t)"

text \<open>The pointers into the files of the postings fit \<^verbatim>\<open>int64_t\<close>.\<close>

definition postings_fit :: "field_infos \<Rightarrow> (nat \<Rightarrow> nat \<Rightarrow> nat) \<Rightarrow> nat \<Rightarrow> seg_term list \<Rightarrow> bool" where
  "postings_fit fis floorLog totalNumDocs terms \<longleftrightarrow>
     (case seg_write (fis_hasProx fis) floorLog 16 10 totalNumDocs (map st_entry terms) of Inl _ \<Rightarrow> True
      | Inr (_, DF, DP) \<Rightarrow> length DF < 2 ^ 63 \<and> length DP < 2 ^ 63)"

subsection \<open>Terms from the pool\<close>

lemma utf32to8_terminated:
  "text_ok s \<Longrightarrow> length out + 4 * length s < cap \<Longrightarrow> utf32to8 cap (s @ UNICODE_TERMINATOR # r) out = conv_end (out @ utf8_bytes s)"
proof (induction s arbitrary: out)
  case (Cons c s)
  have l: "length (appendChar c) \<le> 4" by (rule length_appendChar)
  then show ?case using Cons.IH [of "out @ appendChar c"] Cons.prems by (simp add: text_ok_def utf8_bytes_def Let_def)
qed (simp add: utf8_bytes_def)

lemma st_ok_bytes: "st_ok fis t \<Longrightarrow> fpw_termBytes (st_text t) (st_start t) = Inr (utf8_bytes (snd (st_term t)))"
proof -
  assume ok: "st_ok fis t"
  let ?cs = "drop (st_start t) (st_text t)"
  have "UNICODE_TERMINATOR \<in> set ?cs" using ok by (simp add: st_ok_def)
  then obtain r where "dropWhile (\<lambda>c. c \<noteq> UNICODE_TERMINATOR) ?cs = UNICODE_TERMINATOR # r"
    by (metis (mono_tags, lifting) dropWhile_eq_Nil_conv hd_dropWhile list.collapse)
  then have cs: "?cs = pool_text ?cs @ UNICODE_TERMINATOR # r" unfolding pool_text_def by (metis takeWhile_dropWhile_id)
  have t: "text_ok (pool_text ?cs)" "4 * length (st_text t) < 2 ^ 31" using ok by (simp_all add: st_ok_def st_term_def term_ok_def string_ok_def)
  have "length (pool_text ?cs) < length ?cs" by (subst (2) cs) simp
  then have "4 * length (pool_text ?cs) < length (st_text t) * MAX_ENCODING_UTF8_SIZE" by (simp add: MAX_ENCODING_UTF8_SIZE_def)
  then have "utf32to8 (length (st_text t) * MAX_ENCODING_UTF8_SIZE) ?cs [] = conv_end (utf8_bytes (pool_text ?cs))"
    using utf32to8_terminated [OF t(1), of "[]" _ r] by (subst cs) simp
  moreover have "UNICODE_TERMINATOR \<in> set ?cs" "st_text t \<noteq> []" using ok by (auto simp: st_ok_def)
  ultimately show ?thesis by (auto simp: fpw_termBytes_def utf8_capacity [OF t(2)] conv_end_def conv_count_def st_term_def)
qed

subsection \<open>What the files hold\<close>

definition dict_entry_of :: "seg_term \<Rightarrow> field_info \<times> term_info \<Rightarrow> lterm \<times> term_info" where
  "dict_entry_of t x = (st_term t, snd x)"

lemma dict_of_entry:
  assumes "fis_ok fis" "st_ok fis t"
  shows "dict_of fis (dict_entry_of t (fi, ti)) = (int (fd_number (st_field t)), utf8_bytes (snd (st_term t)), ti, None)"
proof -
  obtain i where i: "i < length (fis_byNumber fis)" "fis_byNumber fis ! i = st_field t" using assms(2) by (auto simp: st_ok_def in_set_conv_nth)
  then have "fis_byName fis (fd_name (st_field t)) = Some i" using assms(1) by (simp add: fis_ok_def)
  then show ?thesis using i by (simp add: dict_of_def dict_entry_of_def fis_fieldNumber_def fis_fieldInfo_def st_term_def)
qed

lemma index_addTerms_ok:
  assumes "0 < interval" "fis_ok fis"
  shows "seg_out.pw_ready w \<Longrightarrow> so_out.dict_at interval es ds \<Longrightarrow> segment_ok dv (map st_entry terms) \<Longrightarrow> \<forall>t\<in>set terms. st_ok fis t \<Longrightarrow>
    prox_ok (pw_proxOut w \<noteq> None) (map st_entry terms) \<Longrightarrow>
    \<exists>tis w' ds'. seg_writeTerms (map st_entry terms) w = Inr (tis, w') \<and> index_addTerms terms (w, ds) = Inr (w', ds') \<and> seg_out.pw_ready w' \<and>
      length tis = length terms \<and> so_out.dict_at interval (es @ map (dict_of fis) (map2 dict_entry_of terms tis)) ds'"
proof (induction terms arbitrary: w es ds)
  case (Cons t terms)
  have ok: "postings_ok (fd_postings (st_field t)) (st_postings t)" "st_postings t \<noteq> []" "segment_ok dv (map st_entry terms)" "st_ok fis t"
    using Cons.prems(3,4) by (auto simp: segment_ok_def st_entry_def)
  have "fi_omitTermFreqAndPositions (fd_postings (st_field t)) \<or> pw_proxOut w \<noteq> None" using Cons.prems(5) by (auto simp: prox_ok_def st_entry_def)
  from seg_out.writeTerm_ok [OF Cons.prems(1) ok(1,2) this] obtain ti w1 where
    w1: "pw_writeTerm so_writeByte so_writeBytes so_pointer so_writeByte so_writeBytes so_pointer (fd_postings (st_field t)) (st_postings t) w = Inr (Some ti, w1)"
      "seg_out.pw_ready w1" "pw_proxOut w1 = None \<longleftrightarrow> pw_proxOut w = None" by (elim exE conjE) (rule that)
  have p: "prox_ok (pw_proxOut w1 \<noteq> None) (map st_entry terms)" using Cons.prems(5) w1(3) by (auto simp: prox_ok_def)
  from w1(1) obtain w0 where w0: "pw_addPostings so_writeByte so_pointer so_writeByte so_writeBytes so_pointer (st_postings t)
      (pw_addTerm so_pointer so_pointer (pw_setField (fd_postings (st_field t)) w)) = Inr w0"
      "pw_finishDocs so_writeByte so_writeBytes so_pointer w0 = Inr (Some ti, w1)" by (auto simp: pw_writeTerm_def bind_r_Inr_iff)
  let ?e = "(int (fd_number (st_field t)), utf8_bytes (snd (st_term t)), ti, None)"
  have "size_ok (utf8_bytes (snd (st_term t)))" using ok(4) by (simp add: st_ok_def term_ok_def)
  from so_out.add_ok [OF Cons.prems(2) assms(1) this, of "int (fd_number (st_field t))" ti] obtain ds1 where
    ds1: "tw_add so_writeByte so_writeBytes so_pointer (int (fd_number (st_field t))) (utf8_bytes (snd (st_term t))) ti ds = Inr ds1"
      "so_out.dict_at interval (es @ [?e]) ds1" by blast
  from Cons.IH [OF w1(2) ds1(2) ok(3) _ p] Cons.prems(4) obtain tis w' ds' where
    r: "seg_writeTerms (map st_entry terms) w1 = Inr (tis, w')" "index_addTerms terms (w1, ds1) = Inr (w', ds')" "seg_out.pw_ready w'"
      "length tis = length terms" "so_out.dict_at interval ((es @ [?e]) @ map (dict_of fis) (map2 dict_entry_of terms tis)) ds'" by auto
  let ?tis = "(fd_postings (st_field t), ti) # tis"
  have e: "dict_of fis (dict_entry_of t (fd_postings (st_field t), ti)) = ?e" by (rule dict_of_entry [OF assms(2) ok(4)])
  have "seg_writeTerms (map st_entry (t # terms)) w = Inr (?tis, w')" using w1(1) r(1) by (simp add: st_entry_def)
  moreover have "index_addTerms (t # terms) (w, ds) = Inr (w', ds')"
    using w0 st_ok_bytes [OF ok(4)] ds1(1) r(2) by (simp add: fpw_finish_def)
  moreover have "es @ map (dict_of fis) (map2 dict_entry_of (t # terms) ?tis) = (es @ [?e]) @ map (dict_of fis) (map2 dict_entry_of terms tis)" using e by simp
  ultimately show ?case using r(3,4,5) by (metis length_Cons)
qed simp

lemma skipOffset_int32: "seg_writeTerms terms w = Inr (tis, w') \<Longrightarrow> \<forall>x\<in>set tis. in_int32 (ti_skipOffset (snd x))"
proof (induction terms arbitrary: w tis w' rule: list.induct)
  case (Cons t terms)
  obtain fi ps where t: "t = (fi, ps)" by (cases t)
  from Cons.prems obtain ti w1 tis1 where 1: "pw_writeTerm so_writeByte so_writeBytes so_pointer so_writeByte so_writeBytes so_pointer fi ps w = Inr (ti, w1)"
    "seg_writeTerms terms w1 = Inr (tis1, w')" "tis = (case ti of None \<Rightarrow> tis1 | Some ti \<Rightarrow> (fi, ti) # tis1)" by (auto simp: t bind_r_Inr_iff)
  have "in_int32 (trunc32 x)" for x using signed_take_bit_int_greater_eq_minus_exp [of 31 x] signed_take_bit_int_less_exp [of 31 x] by (simp add: in_int32_def trunc32_def)
  then have "case ti of None \<Rightarrow> True | Some ti \<Rightarrow> in_int32 (ti_skipOffset ti)"
    using 1(1) by (auto simp: pw_writeTerm_def pw_finishDocs_def bind_r_Inr_iff Let_def split: if_splits)
  then show ?case using Cons.IH [OF 1(2)] 1(3) by (cases ti) auto
qed simp

lemma index_written:
  assumes ok: "index_ok_terms fis dv terms" and i: "0 < interval" "interval < 2 ^ 31" and fl: "floorLog totalNumDocs 16 \<le> 10"
    and size: "postings_fit fis floorLog totalNumDocs terms"
  shows "\<exists>tis files. index_write fis floorLog interval totalNumDocs terms = Inr files \<and>
    list_all2 (\<lambda>(fi, ps) (fj, ti). fj = fi \<and> term_at (if_frq files) (if_prx files) fi ps ti \<and> deleted_ok dv ps) (map st_entry terms) tis \<and>
    dict_terms_ok fis (map2 dict_entry_of terms tis) \<and> dict_write fis interval (map2 dict_entry_of terms tis) = Inr (if_tis files, if_tii files)"
proof -
  note o = ok [unfolded index_ok_terms_def]
  let ?w = "newSegmentWriter (fis_hasProx fis) floorLog 16 10 totalNumDocs"
  have pw: "seg_out.pw_ready ?w" using newSegmentWriter_ready [of 16 floorLog totalNumDocs 10] fl by simp
  have px: "prox_ok (fis_hasProx fis) (map st_entry terms)" using o by (auto simp: prox_ok_def st_ok_def st_entry_def)
  obtain a where a: "newTermInfosWriter so_writeByte interval False newSimpleFSIndexOutput = Inr a" "so_out.tw_at interval False [] a" "tw_skipInterval a = 16" "tw_maxSkipLevels a = 10"
    using so_out.new_writer [OF new_so_out, of interval False] by (auto simp: newTermInfosWriter_def Let_def bind_r_Inr_iff)
  obtain b where b: "newTermInfosWriter so_writeByte interval True newSimpleFSIndexOutput = Inr b" "so_out.tw_at interval True [] b"
    using so_out.new_writer [OF new_so_out] by blast
  have "so_out.dict_at interval [] (a, b)" using a(2) b(2) i(1) by (simp add: so_out.dict_at_def index_entries_def)
  from index_addTerms_ok [OF i(1) _ pw this, of fis dv terms] o px obtain tis w' a' b' where
    r: "seg_writeTerms (map st_entry terms) ?w = Inr (tis, w')" "index_addTerms terms (?w, a, b) = Inr (w', a', b')" "seg_out.pw_ready w'"
      "length tis = length terms" "so_out.dict_at interval (map (dict_of fis) (map2 dict_entry_of terms tis)) (a', b')" by auto
  let ?ds = "map2 dict_entry_of terms tis"
  have "segment_ok dv (map st_entry terms)" using o by blast
  from segment_written [of 16 floorLog totalNumDocs 10, OF _ fl this px] obtain DF DP where
    seg: "seg_write (fis_hasProx fis) floorLog 16 10 totalNumDocs (map st_entry terms) = Inr (tis, DF, DP)"
      "list_all2 (\<lambda>(fi, ps) (fj, ti). fj = fi \<and> term_at DF DP fi ps ti \<and> deleted_ok dv ps) (map st_entry terms) tis"
    using r(1) by (auto simp: seg_write_def bind_r_Inr_iff)
  then obtain f where out: "so_flush (pw_freqOut w') = Inr f" "on_disk f = DF" "prox_written (pw_proxOut w') = Inr DP"
    using r(1) by (auto simp: seg_write_def bind_r_Inr_iff)
  have len: "length DF < 2 ^ 63" "length DP < 2 ^ 63" using size seg(1) by (simp_all add: postings_fit_def)
  have info: "info_ok (snd (tis ! k))" if k: "k < length terms" for k
  proof -
    have "case (st_entry (terms ! k), tis ! k) of ((fi, ps), (fj, ti)) \<Rightarrow> fj = fi \<and> term_at DF DP fi ps ti \<and> deleted_ok dv ps"
      using list_all2_nthD [OF seg(2), of k] k by (simp add: split_def)
    then obtain fi ps where t: "term_at DF DP fi ps (snd (tis ! k))" by (auto split: prod.splits)
    then obtain q q' where q: "ti_freqPointer (snd (tis ! k)) = int q" "q \<le> length DF" "ti_proxPointer (snd (tis ! k)) = int q'" "q' \<le> length DP"
      "ti_docFreq (snd (tis ! k)) = int (length ps)" "length ps < 2 ^ 31" unfolding term_at_def postings_ok_def by blast
    have "tis ! k \<in> set tis" using k r(4) by simp
    then have "in_int32 (ti_skipOffset (snd (tis ! k)))" using skipOffset_int32 [OF r(1)] by blast
    moreover have "in_int32 (int (length ps))" using q(6) by (simp add: in_int32_def)
    ultimately show ?thesis using q len by (simp add: info_ok_def)
  qed
  have dt: "dict_terms_ok fis ?ds"
    unfolding dict_terms_ok_def
  proof (intro conjI)
    show "sorted_wrt (\<lambda>a b. term_compare (fst a) (fst b) < 0) ?ds"
      using o r(4) by (simp add: sorted_wrt_iff_nth_less dict_entry_of_def)
    show "\<forall>(t, ti)\<in>set ?ds. fst t \<in> set (fis_names fis) \<and> fst t \<noteq> [] \<and> term_ok (snd t) \<and> info_ok ti"
    proof
      fix x assume "x \<in> set ?ds"
      then obtain k where k: "k < length terms" "x = dict_entry_of (terms ! k) (tis ! k)" using r(4) by (auto simp: in_set_conv_nth)
      then have "st_ok fis (terms ! k)" using o by simp
      then show "case x of (t, ti) \<Rightarrow> fst t \<in> set (fis_names fis) \<and> fst t \<noteq> [] \<and> term_ok (snd t) \<and> info_ok ti"
        using k info [OF k(1)] by (auto simp: dict_entry_of_def st_ok_def st_term_def)
    qed
  qed (use o r(4) in simp_all)
  have "so_out.tw_at interval False (map (dict_of fis) ?ds) a'" "so_out.tw_at interval True (index_entries interval (map (dict_of fis) ?ds)) b'"
    using r(5) by (simp_all add: so_out.dict_at_def)
  from closeOne_ok [OF this(1)] closeOne_ok [OF this(2)] obtain a'' b'' where c: "tw_closeOne so_writeByte so_seek so_flush a' = Inr a''" "\<not> tw_isIndex a''"
    "tw_closeOne so_writeByte so_seek so_flush b' = Inr b''"
    "on_disk (tw_output a'') = dict_header (length (map (dict_of fis) ?ds)) interval @ dict_wire 16 dict_start (map (dict_of fis) ?ds)"
    "on_disk (tw_output b'') = dict_header (length (index_entries interval (map (dict_of fis) ?ds))) interval @ dict_wire 16 dict_start (index_entries interval (map (dict_of fis) ?ds))"
    by blast
  have "\<forall>(t, ti)\<in>set ?ds. term_ok (snd t)" using dt by (auto simp: dict_terms_ok_def)
  from dict_written [OF i(1) this, of fis] have d: "dict_write fis interval ?ds = Inr (on_disk (tw_output a''), on_disk (tw_output b''))"
    unfolding c(4,5) by simp
  let ?files = "\<lparr>if_frq = DF, if_prx = DP, if_tis = on_disk (tw_output a''), if_tii = on_disk (tw_output b'')\<rparr>"
  have "index_write fis floorLog interval totalNumDocs terms = Inr ?files"
    using a(1,3,4) b(1) r(2) c(1-3) out by (simp add: index_write_def tw_close_def)
  then show ?thesis using seg(2) dt d by (intro exI [of _ tis] exI [of _ ?files]) simp
qed

lemma field_of_term:
  assumes "fis_ok fis" "st_ok fis t"
  shows "map_option fd_postings (fis_fieldInfo fis (fst (st_term t))) = Some (fst (st_entry t))"
proof -
  obtain i where i: "i < length (fis_byNumber fis)" "fis_byNumber fis ! i = st_field t" using assms(2) by (auto simp: st_ok_def in_set_conv_nth)
  then have "fis_byName fis (fd_name (st_field t)) = Some i" using assms(1) by (simp add: fis_ok_def)
  then show ?thesis using i by (simp add: fis_fieldInfo_def st_term_def st_entry_def)
qed

text \<open>What the lookup of a term finds, in the terms and in the dictionary.\<close>

lemma found_both:
  assumes s: "sorted_wrt (\<lambda>a b. term_compare (st_term a) (st_term b) < 0) terms" and n: "length tis = length terms"
  shows "map_of (map2 dict_entry_of terms tis) t = None \<and> found_docs dv terms t = [] \<or>
    (\<exists>k<length terms. st_term (terms ! k) = t \<and> map_of (map2 dict_entry_of terms tis) t = Some (snd (tis ! k)) \<and>
      found_docs dv terms t = doc_freqs (fi_omitTermFreqAndPositions (fst (st_entry (terms ! k)))) (living dv (snd (st_entry (terms ! k)))))"
proof -
  let ?ds = "map2 dict_entry_of terms tis"
  have lt: "st_term (terms ! i) \<noteq> st_term (terms ! j)" if "i < j" "j < length terms" for i j
    using that s term_compare_sign(2) [of "st_term (terms ! i)" "st_term (terms ! j)"] unfolding sorted_wrt_iff_nth_less by (metis less_irrefl)
  have d: "distinct (map st_term terms)"
    unfolding distinct_conv_nth using lt by (metis length_map linorder_neqE_nat nth_map)
  have f: "map fst ?ds = map st_term terms" using n by (intro nth_equalityI) (simp_all add: dict_entry_of_def)
  show ?thesis
  proof (cases "t \<in> set (map st_term terms)")
    case False
    then have "map_of ?ds t = None" using f by (metis map_of_eq_None_iff set_map)
    moreover have "map_of (map (\<lambda>x. (st_term x, st_entry x)) terms) t = None" using False by (auto simp: map_of_eq_None_iff)
    ultimately show ?thesis by (simp add: found_docs_def)
  next
    case True
    then obtain k where k: "k < length terms" "st_term (terms ! k) = t" by (auto simp: in_set_conv_nth)
    have "?ds ! k = (t, snd (tis ! k))" "k < length ?ds" using k n by (simp_all add: dict_entry_of_def)
    then have "(t, snd (tis ! k)) \<in> set ?ds" by (metis nth_mem)
    then have "map_of ?ds t = Some (snd (tis ! k))" using d f by (metis map_of_eq_Some_iff)
    moreover have "map_of (map (\<lambda>x. (st_term x, st_entry x)) terms) t = Some (st_entry (terms ! k))"
      using d k by (intro map_of_is_SomeI) (auto simp: comp_def)
    ultimately show ?thesis using k by (intro disjI2 exI [of _ k]) (simp add: found_docs_def split_def)
  qed
qed

lemma term_at_sim: "term_at DF DP fi ps ti \<Longrightarrow> ti_sim 16 ti' ti \<Longrightarrow> term_at DF DP fi ps ti'"
  by (simp add: term_at_def ti_sim_def)

context postings_in begin

lemma seek_nothing_docs:
  assumes "atF DF p s" "p \<le> length DF"
  shows "\<exists>t omit. td_seek skF None fi (newSegmentTermDocs s dv) = Inr t \<and> td_at DF omit 0 [] t \<and> td_deletedDocs t = dv"
  using assms by (auto simp: td_seek_def newSegmentTermDocs_def Let_def td_at_def)

end

lemma search_ok:
  assumes ok: "index_ok_terms fis dv terms" and tis: "length tis = length terms"
    and at: "list_all2 (\<lambda>(fi, ps) (fj, ti). fj = fi \<and> term_at DF DP fi ps ti \<and> deleted_ok dv ps) (map st_entry terms) tis"
    and ds: "dict_terms_ok fis (map2 dict_entry_of terms tis)" and D: "dict_file False interval (map (dict_of fis) (map2 dict_entry_of terms tis)) D" and step: "0 < step"
    and f: "stream_at (2 ^ 31 - 1) DF 0 freqStream"
  shows "fs_stream.tr_inv (2 ^ 31 - 1) fis step D (map (dict_of fis) (map2 dict_entry_of terms tis)) r \<Longrightarrow> \<forall>(t, _)\<in>set queries. fst t \<noteq> [] \<Longrightarrow>
    index_search fis (fs_readByte (2 ^ 31 - 1)) (fs_readBytes (2 ^ 31 - 1)) fs_seek (fs_readByte (2 ^ 31 - 1)) fs_seek dv freqStream queries r =
      Inr (map (\<lambda>(t, ns). blocks_of ns (found_docs dv terms t)) queries)"
proof (induction queries arbitrary: r)
  case (Cons q queries)
  obtain t ns where q: "q = (t, ns)" by (cases q)
  let ?rb = "fs_readByte (2 ^ 31 - 1)" and ?rbs = "fs_readBytes (2 ^ 31 - 1)"
  have t: "fst t \<noteq> []" using Cons.prems(2) q by simp
  from fs_stream.get_ok [OF Cons.prems(1) dict_sorted_of [OF ds] D step t, of True] obtain res r' where
    r': "tr_get fis ?rb ?rbs fs_seek t True r = Inr (res, r')" "lookup_ok fis (map (dict_of fis) (map2 dict_entry_of terms tis)) t res"
      "fs_stream.tr_inv (2 ^ 31 - 1) fis step D (map (dict_of fis) (map2 dict_entry_of terms tis)) r'" by blast
  note look = r'(2) [unfolded lookup_ok_def dict_map_of [OF ds]]
  have del: "deleted_ok dv []" and s: "sorted_wrt (\<lambda>a b. term_compare (st_term a) (st_term b) < 0) terms" and fok: "fis_ok fis"
    using ok by (simp_all add: index_ok_terms_def segment_ok_def)
  have "\<exists>td. td_seek fs_seek res (map_option fd_postings (fis_fieldInfo fis (fst t))) (newSegmentTermDocs freqStream dv) = Inr td \<and>
      td_blocks ?rb ns td = Inr (blocks_of ns (found_docs dv terms t))"
    using found_both [OF s tis, of t dv]
  proof (elim disjE exE conjE)
    assume none: "map_of (map2 dict_entry_of terms tis) t = None" "found_docs dv terms t = []"
    then have "res = None" using look by simp
    moreover from seg_in.seek_nothing_docs [OF f] obtain td omit where
      td: "td_seek fs_seek None (map_option fd_postings (fis_fieldInfo fis (fst t))) (newSegmentTermDocs freqStream dv) = Inr td"
        "seg_in.td_at (2 ^ 31 - 1) DF omit 0 [] td" "td_deletedDocs td = dv" by blast
    moreover have "docs_from 0 []" by (simp add: docs_from_def)
    ultimately show ?thesis using seg_in.blocks_ok [OF td(2) _ del td(3), of ns] none(2) by (simp add: living_def doc_freqs_def)
  next
    fix k assume k: "k < length terms" "st_term (terms ! k) = t" "map_of (map2 dict_entry_of terms tis) t = Some (snd (tis ! k))"
      "found_docs dv terms t = doc_freqs (fi_omitTermFreqAndPositions (fst (st_entry (terms ! k)))) (living dv (snd (st_entry (terms ! k))))"
    let ?fi = "fst (st_entry (terms ! k))" and ?ps = "snd (st_entry (terms ! k))"
    have a: "term_at DF DP ?fi ?ps (snd (tis ! k))" "deleted_ok dv ?ps" using list_all2_nthD [OF at, of k] k(1) by (simp_all add: split_def)
    obtain ti where ti: "res = Some ti" "ti_sim 16 ti (snd (tis ! k))" using look k(3) by auto
    have "map_option fd_postings (fis_fieldInfo fis (fst t)) = Some ?fi" using field_of_term [OF fok, of "terms ! k"] ok k(1,2) by (simp add: index_ok_terms_def)
    note m = this
    from seg_in.seek_docs [OF f _ term_at_sim [OF a(1) ti(2)], of dv] obtain td where
      td: "td_seek fs_seek (Some ti) (Some ?fi) (newSegmentTermDocs freqStream dv) = Inr td"
        "seg_in.td_at (2 ^ 31 - 1) DF (fi_omitTermFreqAndPositions ?fi) 0 ?ps td" "td_deletedDocs td = dv" by blast
    have "docs_from 0 ?ps" using a(1) by (intro postings_docs [of ?fi]) (simp add: term_at_def)
    from seg_in.blocks_ok [OF td(2) this a(2) td(3), of ns] show ?thesis unfolding m ti(1) k(4) using td(1) by blast
  qed
  then obtain td where "td_seek fs_seek res (map_option fd_postings (fis_fieldInfo fis (fst t))) (newSegmentTermDocs freqStream dv) = Inr td"
      "td_blocks ?rb ns td = Inr (blocks_of ns (found_docs dv terms t))" by blast
  then show ?case using q r'(1) Cons.IH [OF r'(3)] Cons.prems(2) by (simp add: td_seekTerm_def)
qed simp

subsection \<open>Terms without skip data\<close>

text \<open>A term with fewer documents than the skip interval has nothing behind its postings.\<close>

lemma addPosition_skip:
  "pw_addPosition wbP wbsP q pl w = Inr w' \<Longrightarrow>
   pw_skip w' = pw_skip w \<and> pw_df w' = pw_df w \<and> pw_skipInterval w' = pw_skipInterval w"
  by (auto simp: pw_addPosition_def bind_r_Inr_iff Let_def split: option.splits if_splits)

lemma addPositions_skip:
  "pw_addPositions wbP wbsP pos w = Inr w' \<Longrightarrow>
   pw_skip w' = pw_skip w \<and> pw_df w' = pw_df w \<and> pw_skipInterval w' = pw_skipInterval w"
proof (induction pos arbitrary: w)
  case (Cons x pos)
  obtain q pl where x: "x = (q, pl)" by (cases x)
  from Cons.prems obtain w1 where "pw_addPosition wbP wbsP (int q) pl w = Inr w1" "pw_addPositions wbP wbsP pos w1 = Inr w'"
    unfolding x pw_addPositions.simps bind_r_Inr_iff by blast
  then show ?case using addPosition_skip [of wbP wbsP "int q" pl w w1] Cons.IH [of w1] by simp
qed simp

lemma addDoc_skip:
  "pw_addDoc wbF tellF tellP d freq w = Inr w' \<Longrightarrow> pw_df w + 1 < pw_skipInterval w \<Longrightarrow>
   pw_skip w' = pw_skip w \<and> pw_df w' = pw_df w + 1 \<and> pw_skipInterval w' = pw_skipInterval w"
  by (auto simp: pw_addDoc_def bind_r_Inr_iff Let_def split: if_splits)

lemma addPostings_skip:
  "pw_addPostings wbF tellF wbP wbsP tellP ps w = Inr w' \<Longrightarrow> pw_df w + length ps < pw_skipInterval w \<Longrightarrow>
   pw_skip w' = pw_skip w \<and> pw_skipInterval w' = pw_skipInterval w"
proof (induction ps arbitrary: w)
  case (Cons x ps)
  obtain d pos where x: "x = (d, pos)" by (cases x)
  from Cons.prems(1) obtain w1 w2 where w: "pw_addDoc wbF tellF tellP (int d) (int (length pos)) w = Inr w1"
    "(if pw_omit w1 then Inr w1 else bind_r (pw_addPositions wbP wbsP pos w1) (\<lambda>w. Inr (pw_finishPositions w))) = Inr w2"
    "pw_addPostings wbF tellF wbP wbsP tellP ps w2 = Inr w'"
    unfolding x pw_addPostings.simps bind_r_Inr_iff by blast
  have 1: "pw_skip w1 = pw_skip w" "pw_df w1 = pw_df w + 1" "pw_skipInterval w1 = pw_skipInterval w"
    using addDoc_skip [OF w(1)] Cons.prems(2) by simp_all
  have "pw_skip w2 = pw_skip w1 \<and> pw_df w2 = pw_df w1 \<and> pw_skipInterval w2 = pw_skipInterval w1"
    using w(2) addPositions_skip by (fastforce simp: bind_r_Inr_iff pw_finishPositions_def split: if_splits)
  then show ?case using 1 Cons.IH [OF w(3)] Cons.prems(2) by simp
qed simp

lemma no_skip_data:
  assumes "sw_start w" "fs_out.appending (fst s)" "sw_writeSkip so_writeByte so_writeBytes so_pointer (sw_resetSkip f p w) s = Inr (q, w', s')"
  shows "fs_out.view (fst s') = fs_out.view (fst s)"
proof -
  obtain bs where bs: "sw_skipBuffer (sw_resetSkip f p w) = Some bs" "length bs = sw_numberOfSkipLevels (sw_resetSkip f p w)"
    "\<forall>b\<in>set bs. buffer_ok b \<and> ro_getFilePointer b = 0 \<and> ro_written b = []"
  proof -
    have ok: "sw_ok (sw_resetSkip f p w)" by (rule sw_resetSkip_ok [OF assms(1)])
    have b: "sw_skipBuffer (sw_resetSkip f p w) = sw_skipBuffer (sw_resetBuffers w)" by (auto simp: sw_resetSkip_def Let_def split: option.splits)
    have "\<forall>b\<in>set (case sw_skipBuffer w of None \<Rightarrow> replicate (sw_numberOfSkipLevels w) (newRAMOutputStream newRAMFile) | Some bs \<Rightarrow> map ro_reset bs).
        ro_getFilePointer b = 0 \<and> ro_written b = []"
      using assms(1) new_buffer_ok ro_reset_ok
      by (auto simp: sw_start_def sw_ok_def buffer_ok_def ro_getFilePointer_def ro_reset_def newRAMOutputStream_def split: option.splits)
    then show ?thesis using that ok b by (auto simp: sw_ok_def sw_resetBuffers_def)
  qed
  have "sw_writeLevels so_writeByte so_writeBytes n bs s = Inr (bs, s)" if "n \<le> length bs" for n
    using that bs(3) by (induction n) simp_all
  then have l: "sw_writeLevels so_writeByte so_writeBytes (sw_numberOfSkipLevels (sw_resetSkip f p w)) bs s = Inr (bs, s)" using bs(2) by simp
  show ?thesis
  proof (cases "bs = []")
    case True
    then show ?thesis using assms(3) bs(1) by (simp add: sw_writeSkip_def)
  next
    case False
    then have b: "buffer_ok (bs ! 0)" "ro_written (bs ! 0) = []" "0 < length bs" using bs(3) by simp_all
    from so_out.writeTo_buffer [OF b(1) assms(2)] b(2) obtain s1 where "ro_writeTo so_writeBytes (bs ! 0) s = Inr (ro_flush (bs ! 0), s1)"
      "fs_out.view (fst s1) = fs_out.view (fst s)" by auto
    then show ?thesis using assms(3) bs(1) False l b(3) by (simp add: sw_writeSkip_def Let_def)
  qed
qed

lemma short_writeTerm:
  assumes w: "seg_out.pw_ready w" and ps: "postings_ok fi ps" "ps \<noteq> []" "length ps < pw_skipInterval w"
    and out: "fi_omitTermFreqAndPositions fi \<or> pw_proxOut w \<noteq> None"
  shows "\<exists>ti w'. pw_writeTerm so_writeByte so_writeBytes so_pointer so_writeByte so_writeBytes so_pointer fi ps w = Inr (Some ti, w') \<and> seg_out.pw_ready w' \<and>
    (pw_proxOut w' = None \<longleftrightarrow> pw_proxOut w = None) \<and> pw_skipInterval w' = pw_skipInterval w \<and>
    length (fs_out.view (fst (pw_freqOut w'))) = length (fs_out.view (fst (pw_freqOut w))) + length (docs_wire (fi_omitTermFreqAndPositions fi) 0 ps) \<and>
    length (seg_out.proxBytes w') = length (seg_out.proxBytes w) +
      length (if fi_omitTermFreqAndPositions fi then [] else entries_wire (fi_storePayloads fi) (term_entries (fi_storePayloads fi) ps))"
proof -
  let ?w0 = "pw_addTerm so_pointer so_pointer (pw_setField fi w)"
  from seg_out.writeTerm_ok [OF w ps(1,2) out] obtain ti w' where w':
    "pw_writeTerm so_writeByte so_writeBytes so_pointer so_writeByte so_writeBytes so_pointer fi ps w = Inr (Some ti, w')" "seg_out.pw_ready w'"
    "pw_proxOut w' = None \<longleftrightarrow> pw_proxOut w = None" "seg_out.proxBytes w' = seg_out.proxBytes w @ (if fi_omitTermFreqAndPositions fi then [] else entries_wire (fi_storePayloads fi) (term_entries (fi_storePayloads fi) ps))"
    by (elim exE conjE) (rule that)
  from w'(1) obtain w1 where w1: "pw_addPostings so_writeByte so_pointer so_writeByte so_writeBytes so_pointer ps ?w0 = Inr w1"
    "pw_finishDocs so_writeByte so_writeBytes so_pointer w1 = Inr (Some ti, w')" by (auto simp: pw_writeTerm_def bind_r_Inr_iff)
  from w1(2) obtain q skip f where f: "sw_writeSkip so_writeByte so_writeBytes so_pointer (pw_skip w1) (pw_freqOut w1) = Inr (q, skip, f)"
    "pw_freqOut w' = f" "pw_skipInterval w' = pw_skipInterval w1" by (auto simp: pw_finishDocs_def bind_r_Inr_iff Let_def split: if_splits)
  note i = w [unfolded seg_out.pw_ready_def]
  have z: "pw_lastDocID ?w0 = int 0" "pw_df ?w0 = 0" "pw_lastPosition ?w0 = 0" "pw_lastPayloadLength ?w0 = -1" "pw_skipInterval ?w0 = pw_skipInterval w"
    "pw_freqOut ?w0 = pw_freqOut w" "pw_skip ?w0 = sw_resetSkip (so_pointer (pw_freqOut w)) (map_option so_pointer (pw_proxOut w)) (pw_skip w)"
    using i by (auto simp: pw_addTerm_def pw_setField_def Let_def split: option.split)
  have inv: "seg_out.pw_inv fi ?w0" by (rule seg_out.started_inv [OF w])
  have o0: "fi_omitTermFreqAndPositions fi \<or> pw_proxOut ?w0 \<noteq> None" using out by (auto simp: pw_addTerm_def pw_setField_def Let_def split: option.split)
  have "\<forall>(d, _)\<in>set ps. 0 \<le> d \<and> (0 < pw_df ?w0 \<longrightarrow> 0 < d)" using z(2) by auto
  from seg_out.addPostings_ok [OF inv z(1,3,4) ps(1) this o0] w1(1)
  have v: "fs_out.view (fst (pw_freqOut w1)) = fs_out.view (fst (pw_freqOut w)) @ docs_wire (fi_omitTermFreqAndPositions fi) 0 ps" "seg_out.pw_inv fi w1"
    using z(6) by auto
  have "pw_df ?w0 + length ps < pw_skipInterval ?w0" using z(2,5) ps(3) by simp
  note k = addPostings_skip [OF w1(1) this]
  from z(7) k have sk: "pw_skip w1 = sw_resetSkip (so_pointer (pw_freqOut w)) (map_option so_pointer (pw_proxOut w)) (pw_skip w)" by simp
  have "fs_out.view (fst f) = fs_out.view (fst (pw_freqOut w1))"
    by (rule no_skip_data [of "pw_skip w"]) (use i v(2) f(1) sk in \<open>auto simp: seg_out.pw_inv_def\<close>)
  then show ?thesis using w' f(2,3) v(1) k z(5) by auto
qed

text \<open>The sizes of the two files of postings when all terms are short.\<close>

definition frq_size :: "(field_info \<times> posting list) list \<Rightarrow> nat" where
  "frq_size terms = sum_list (map (\<lambda>(fi, ps). length (docs_wire (fi_omitTermFreqAndPositions fi) 0 ps)) terms)"

definition prx_size :: "(field_info \<times> posting list) list \<Rightarrow> nat" where
  "prx_size terms = sum_list (map (\<lambda>(fi, ps). length (if fi_omitTermFreqAndPositions fi then []
     else entries_wire (fi_storePayloads fi) (term_entries (fi_storePayloads fi) ps))) terms)"

lemma short_writeTerms:
  "seg_out.pw_ready w \<Longrightarrow> segment_ok dv terms \<Longrightarrow> prox_ok (pw_proxOut w \<noteq> None) terms \<Longrightarrow> \<forall>(fi, ps)\<in>set terms. length ps < pw_skipInterval w \<Longrightarrow>
   \<exists>tis w'. seg_writeTerms terms w = Inr (tis, w') \<and> length (fs_out.view (fst (pw_freqOut w'))) = length (fs_out.view (fst (pw_freqOut w))) + frq_size terms \<and>
     length (seg_out.proxBytes w') = length (seg_out.proxBytes w) + prx_size terms"
proof (induction terms arbitrary: w)
  case Nil
  then show ?case by (simp add: frq_size_def prx_size_def)
next
  case (Cons t terms)
  obtain fi ps where t: "t = (fi, ps)" by (cases t)
  have ok: "postings_ok fi ps" "ps \<noteq> []" "length ps < pw_skipInterval w" "segment_ok dv terms" using Cons.prems t by (auto simp: segment_ok_def)
  have out: "fi_omitTermFreqAndPositions fi \<or> pw_proxOut w \<noteq> None" using Cons.prems(3) t by (auto simp: prox_ok_def)
  from short_writeTerm [OF Cons.prems(1) ok(1-3) out] obtain ti w1 where w1:
    "pw_writeTerm so_writeByte so_writeBytes so_pointer so_writeByte so_writeBytes so_pointer fi ps w = Inr (Some ti, w1)" "seg_out.pw_ready w1"
    "pw_proxOut w1 = None \<longleftrightarrow> pw_proxOut w = None" "pw_skipInterval w1 = pw_skipInterval w"
    "length (fs_out.view (fst (pw_freqOut w1))) = length (fs_out.view (fst (pw_freqOut w))) + length (docs_wire (fi_omitTermFreqAndPositions fi) 0 ps)"
    "length (seg_out.proxBytes w1) = length (seg_out.proxBytes w) +
      length (if fi_omitTermFreqAndPositions fi then [] else entries_wire (fi_storePayloads fi) (term_entries (fi_storePayloads fi) ps))" by (elim exE conjE) (rule that)
  have "prox_ok (pw_proxOut w1 \<noteq> None) terms" using Cons.prems(3) w1(3) by (auto simp: prox_ok_def)
  moreover have "\<forall>(fi, ps)\<in>set terms. length ps < pw_skipInterval w1" using Cons.prems(4) w1(4) by simp
  note Cons.IH [OF w1(2) ok(4) calculation this]
  then obtain tis w' where "seg_writeTerms terms w1 = Inr (tis, w')"
    "length (fs_out.view (fst (pw_freqOut w'))) = length (fs_out.view (fst (pw_freqOut w1))) + frq_size terms"
    "length (seg_out.proxBytes w') = length (seg_out.proxBytes w1) + prx_size terms" by blast
  then show ?case using t w1 by (simp add: frq_size_def prx_size_def)
qed

lemma short_terms_fit:
  assumes "segment_ok dv (map st_entry terms)" "prox_ok (fis_hasProx fis) (map st_entry terms)" "\<forall>(fi, ps)\<in>set (map st_entry terms). length ps < 16" "floorLog totalNumDocs 16 \<le> 10"
    "frq_size (map st_entry terms) < 2 ^ 63" "prx_size (map st_entry terms) < 2 ^ 63"
  shows "postings_fit fis floorLog totalNumDocs terms"
proof -
  let ?w = "newSegmentWriter (fis_hasProx fis) floorLog 16 10 totalNumDocs"
  have r: "seg_out.pw_ready ?w" using newSegmentWriter_ready [of 16 floorLog totalNumDocs 10] assms(4) by simp
  have n: "pw_skipInterval ?w = 16" "fs_out.view (fst (pw_freqOut ?w)) = []" "seg_out.proxBytes ?w = []"
    using new_so_out(2) by (simp_all add: newSegmentWriter_def newPostingsWriter_def seg_out.proxBytes_def)
  from short_writeTerms [OF r assms(1)] assms(2,3) n obtain tis w' where w': "seg_writeTerms (map st_entry terms) ?w = Inr (tis, w')"
    "length (fs_out.view (fst (pw_freqOut w'))) = frq_size (map st_entry terms)" "length (seg_out.proxBytes w') = prx_size (map st_entry terms)" by auto
  have r': "seg_out.pw_ready w'" using writeTerms_ok [OF r assms(1)] assms(2) w'(1) by auto
  then have "fs_out.appending (fst (pw_freqOut w'))" by (simp add: seg_out.pw_ready_def)
  then obtain f where "so_flush (pw_freqOut w') = Inr f" "on_disk f = fs_out.view (fst (pw_freqOut w'))" using so_flushed by blast
  then show ?thesis using w' prox_flushed [OF r'] assms(5,6) by (simp add: postings_fit_def seg_write_def)
qed

text \<open>
  C1. A segment of any sorted terms with their postings, written term by term into the four files, answers
  any script of queries for terms over buffered inputs of any buffer size with exactly the
  documents of each term that are not deleted, in order and with their frequencies, in blocks of any
  sizes; a term that the segment does not have gives no document. (The terms are sorted and of known fields, their texts encodable and of a
  size whose buffers an \<^verbatim>\<open>int32_t\<close> can count, \<open>index_ok_terms\<close>; the file pointers of the postings fit \<^verbatim>\<open>int64_t\<close>.)
\<close>

theorem segment_search:
  assumes "index_ok_terms fis dv terms" "0 < interval" "0 < divisor" "interval * divisor < 2 ^ 31" "floorLog totalNumDocs 16 \<le> 10" "0 < n" "n < 2 ^ 31"
    and "postings_fit fis floorLog totalNumDocs terms"
    and "\<forall>(t, _)\<in>set queries. fst t \<noteq> []"
  shows "\<exists>files r. index_write fis floorLog interval totalNumDocs terms = Inr files \<and>
    newTermInfosReader fis (fs_readByte (2 ^ 31 - 1)) (fs_readBytes (2 ^ 31 - 1)) (int divisor) (open_file n (if_tis files)) (open_file n (if_tii files)) = Inr r \<and>
    index_search fis (fs_readByte (2 ^ 31 - 1)) (fs_readBytes (2 ^ 31 - 1)) fs_seek (fs_readByte (2 ^ 31 - 1)) fs_seek dv (open_file n (if_frq files)) queries r =
      Inr (map (\<lambda>(t, ns). blocks_of ns (found_docs dv terms t)) queries)"
proof -
  have "interval * 1 \<le> interval * divisor" using assms(3) by (intro mult_le_mono) simp_all
  then have i: "interval < 2 ^ 31" using assms(4) by linarith
  from index_written [where floorLog = floorLog and totalNumDocs = totalNumDocs, OF assms(1,2) i assms(5,8)] obtain tis files where w: "index_write fis floorLog interval totalNumDocs terms = Inr files"
    "list_all2 (\<lambda>(fi, ps) (fj, ti). fj = fi \<and> term_at (if_frq files) (if_prx files) fi ps ti \<and> deleted_ok dv ps) (map st_entry terms) tis"
    "dict_terms_ok fis (map2 dict_entry_of terms tis)" "dict_write fis interval (map2 dict_entry_of terms tis) = Inr (if_tis files, if_tii files)" by blast
  from dict_opened [OF w(3) assms(2-4,6,7)] w(4) obtain r where r: "dict_file False interval (map (dict_of fis) (map2 dict_entry_of terms tis)) (if_tis files)"
    "newTermInfosReader fis (fs_readByte (2 ^ 31 - 1)) (fs_readBytes (2 ^ 31 - 1)) (int divisor) (open_file n (if_tis files)) (open_file n (if_tii files)) = Inr r"
    "fs_stream.tr_inv (2 ^ 31 - 1) fis (interval * divisor) (if_tis files) (map (dict_of fis) (map2 dict_entry_of terms tis)) r" by auto
  have "length tis = length terms" "0 < interval * divisor" using list_all2_lengthD [OF w(2)] assms(2,3) by simp_all
  from search_ok [OF assms(1) this(1) w(2,3) r(1) this(2) file_opened [OF assms(6,7)] r(3) assms(9)] w(1) r(2) show ?thesis by blast
qed

text \<open>A segment of two fields, one with payloads, one without frequencies, with the document 3 deleted.\<close>

definition example_fis :: field_infos where
  "example_fis = fis_added [([116], not_indexed\<lparr>ff_isIndexed := True, ff_storePayloads := True\<rparr>),
     ([105, 100], not_indexed\<lparr>ff_isIndexed := True, ff_omitTermFreqAndPositions := True\<rparr>)]"

definition example_pool :: "uchar list" where
  "example_pool = [98, 97, UNICODE_TERMINATOR, 98, UNICODE_TERMINATOR, 55, UNICODE_TERMINATOR]"

definition example_seg :: "seg_term list" where
  "example_seg = (let t = fis_byNumber example_fis ! 0; i = fis_byNumber example_fis ! 1 in
     [\<lparr>st_field = i, st_text = example_pool, st_start = 5, st_postings = [(9, [])]\<rparr>,
      \<lparr>st_field = t, st_text = example_pool, st_start = 1, st_postings = [(2, [(0, [7]), (5, [7, 8])]), (3, [(1, [])]), (9, [(4, [1])])]\<rparr>,
      \<lparr>st_field = t, st_text = example_pool, st_start = 3, st_postings = [(3, [(2, [])])]\<rparr>])"

lemma example_fis_fields: "fis_byNumber example_fis =
   [\<lparr>fd_name = [116], fd_number = 0, fd_flags = not_indexed\<lparr>ff_isIndexed := True, ff_storePayloads := True\<rparr>\<rparr>,
    \<lparr>fd_name = [105, 100], fd_number = 1, fd_flags = not_indexed\<lparr>ff_isIndexed := True, ff_omitTermFreqAndPositions := True\<rparr>\<rparr>]"
  by (simp add: example_fis_def fis_add_def fis_addInternal_def newFieldInfos_def newFieldInfo_def Let_def)

lemma example_seg_terms:
  "map st_term example_seg = [([105, 100], [55]), ([116], [97]), ([116], [98])]"
  "map st_entry example_seg = [(\<lparr>fi_omitTermFreqAndPositions = True, fi_storePayloads = False\<rparr>, [(9, [])]),
     (\<lparr>fi_omitTermFreqAndPositions = False, fi_storePayloads = True\<rparr>, [(2, [(0, [7]), (5, [7, 8])]), (3, [(1, [])]), (9, [(4, [1])])]),
     (\<lparr>fi_omitTermFreqAndPositions = False, fi_storePayloads = True\<rparr>, [(3, [(2, [])])])]"
  by (simp_all add: example_seg_def example_fis_fields Let_def st_term_def st_entry_def example_pool_def pool_text_def UNICODE_TERMINATOR_def fd_postings_def not_indexed_def)

lemma example_seg_deleted: "\<exists>v. segment_ok (Some v) (map st_entry example_seg) \<and> deleted_docs (Some v) = {3}"
proof -
  obtain v where v: "bv_ok v" "bv_size v = 20" "bv_docs (bv_bits v) = {}" using newBitVector_ok [of 20] by auto
  from bv_set_step [OF v(1), of 3] v(2,3) obtain w where "bv_ok w" "bv_size w = 20" "bv_docs (bv_bits w) = {3}" by auto
  then show ?thesis unfolding example_seg_terms(2)
    by (intro exI [of _ w]) (auto simp: segment_ok_def deleted_ok_def deleted_docs_def postings_ok_def positions_ok_def)
qed

lemma example_seg_ok: "segment_ok dv (map st_entry example_seg) \<Longrightarrow> index_ok_terms example_fis dv example_seg"
proof -
  assume s: "segment_ok dv (map st_entry example_seg)"
  have f: "fis_ok example_fis" unfolding example_fis_def by (rule added_fields [THEN conjunct1])
  have t: "text_ok [55]" "text_ok [97]" "text_ok [98]" by code_simp+
  have u: "utf8_bytes [55] = [55]" "utf8_bytes [97] = [97]" "utf8_bytes [98] = [98]" by code_simp+
  have k: "term_ok [55]" "term_ok [97]" "term_ok [98]" using t u by (simp_all add: term_ok_def string_ok_def size_ok_def)
  have p: "fis_hasProx example_fis" by (simp add: fis_hasProx_def example_fis_fields not_indexed_def)
  have "\<forall>x\<in>set example_seg. st_ok example_fis x"
    using k p by (simp add: st_ok_def example_seg_def example_fis_fields Let_def st_term_def example_pool_def pool_text_def UNICODE_TERMINATOR_def)
  moreover have "sorted_wrt (\<lambda>a b. term_compare a b < 0) (map st_term example_seg)" unfolding example_seg_terms(1) by (simp add: term_compare_def)
  moreover have "length example_seg = 3" by (simp add: example_seg_def Let_def)
  ultimately show ?thesis using s f by (simp add: index_ok_terms_def sorted_wrt_map example_fis_fields)
qed

theorem segment_search_witness:
  "\<exists>v files r. index_write example_fis (\<lambda>_ _. 1) 2 20 example_seg = Inr files \<and>
    newTermInfosReader example_fis (fs_readByte (2 ^ 31 - 1)) (fs_readBytes (2 ^ 31 - 1)) (int 1) (open_file 4 (if_tis files)) (open_file 4 (if_tii files)) = Inr r \<and>
    index_search example_fis (fs_readByte (2 ^ 31 - 1)) (fs_readBytes (2 ^ 31 - 1)) fs_seek (fs_readByte (2 ^ 31 - 1)) fs_seek (Some v) (open_file 4 (if_frq files))
      [(([116], [97]), [1, 5]), (([116], [98]), [2]), (([116], [99]), [2]), (([105, 100], [55]), [3])] r =
      Inr [[[(2, 2)], [(9, 1)]], [[]], [[]], [[(9, 1)]]]"
proof -
  obtain v where v: "segment_ok (Some v) (map st_entry example_seg)" "deleted_docs (Some v) = {3}" using example_seg_deleted by blast
  let ?qs = "[(([116], [97]), [1, 5]), (([116], [98]), [2]), (([116], [99]), [2]), (([105, 100], [55]), [3])] :: (lterm \<times> nat list) list"
  have fit: "postings_fit example_fis (\<lambda>_ _. 1) 20 example_seg"
    by (rule short_terms_fit [OF v(1)]) (simp_all add: prox_ok_def fis_hasProx_def example_fis_fields not_indexed_def example_seg_terms(2) frq_size_def prx_size_def doc_wire_def entries_wire_def entry_wire_def entry_head_def term_entries_def nat_wire_small)
  have p: "0 < (2 :: nat)" "0 < (1 :: nat)" "2 * 1 < (2 ^ 31 :: nat)" "1 \<le> (10 :: nat)" "0 < (4 :: nat)" "(4 :: nat) < 2 ^ 31" "\<forall>(t, _)\<in>set ?qs. fst t \<noteq> []" by simp_all
  have m: "map (\<lambda>x. (st_term x, st_entry x)) example_seg = zip (map st_term example_seg) (map st_entry example_seg)" by (simp add: zip_map_map zip_same_conv_map)
  have r: "map (\<lambda>(t, ns). blocks_of ns (found_docs (Some v) example_seg t)) ?qs = [[[(2, 2)], [(9, 1)]], [[]], [[]], [[(9, 1)]]]"
    using v(2) unfolding found_docs_def m example_seg_terms by (simp add: doc_freqs_def living_def freq_of_def)
  from segment_search [where floorLog = "\<lambda>_ _. 1" and totalNumDocs = 20, OF example_seg_ok [OF v(1)] p(1-6) fit p(7)] show ?thesis unfolding r by blast
qed

end
