(* ===== verification/Spec2Isabelle.thy ===== *)
theory Spec2Isabelle imports OpenBitSet AccentFilters BitVector TopDocs ChecksumFile BooleanQuery SegmentIndex begin

text \<open>
  Lucene++ is a full-text search library in C++. An \<^verbatim>\<open>IndexWriter\<close> turns documents into the files
  of segments; a searcher runs iterators over the postings in these files and collects the best
  hits. This development models the layers in between: the bits, the bytes and files, the text on
  files, the postings and the term dictionary of a segment, the iterators of boolean search and the collector of the hits.
  Paths below are relative to \<^verbatim>\<open>src/core\<close> of the repository.

  \<^bold>\<open>Conventions.\<close> A C++ object is a record with the members of the class, an operation a function
  from the state to a result and the state after it. \<open>'a result\<close> is \<open>error + 'a\<close>: \<open>Inl\<close> stands for
  a C++ exception, for an access outside an array (\<open>OutOfRange\<close>: undefined behaviour of the code,
  or the exception of a checked access) and, as \<open>NoReturn\<close>, for a loop that does not end. Loops
  without an evident bound are \<open>partial_function (option)\<close>, and every theorem about them shows that they
  return; no loop has fuel. Integers that can wrap have their width: \<open>byte\<close>, \<open>int32\<close>, \<open>int64\<close> are words;
  sizes, indices and file positions, where the code has signed integers, are \<open>nat\<close> or \<open>int\<close> with the
  bounds as hypotheses, and \<open>trunc32\<close> where a value is cut to 32 bits. Characters are
  code points, as \<^verbatim>\<open>wchar_t\<close> of 32 bits holds them. Assertions, which release builds drop, are not
  modelled. Reference counts, locks and messages of exceptions are left out.

  \<^bold>\<open>LucenePrelude\<close>: the types, errors, array accesses and \<^verbatim>\<open>util/MiscUtils.cpp\<close>.

  \<^bold>\<open>Bits.\<close> \<open>BitUtil\<close> is \<^verbatim>\<open>util/BitUtil.cpp\<close>: the parallel sums count the bits (words are read as
  digits in base \<open>2 ^ k\<close>), the carry-save loops over arrays agree with the plain sums, the table-driven searches
  find the least bit. \<open>OpenBitSet\<close> is \<^verbatim>\<open>util/OpenBitSet.cpp\<close>: an invariant on the array and the number of words, the set
  of indices as the abstraction, and every operation refining the one on sets. \<open>BitVector\<close> is
  \<^verbatim>\<open>util/BitVector.cpp\<close>, the deleted documents of a segment with the two formats of their file.
  \<open>SortedVIntList\<close> is \<^verbatim>\<open>util/SortedVIntList.cpp\<close>: a document set as variable-length differences,
  and its iterator.

  \<^bold>\<open>Bytes and files.\<close> \<open>ByteCodec\<close> is \<^verbatim>\<open>store/IndexOutput.cpp\<close> and \<^verbatim>\<open>store/IndexInput.cpp\<close> over the
  virtual \<^verbatim>\<open>writeByte\<close> and \<^verbatim>\<open>readByte\<close>; its locales \<open>byte_sink\<close> and \<open>byte_source\<close> are the contract
  between the formats and the streams, and \<open>puts\<close> and \<open>gets\<close> compose along it. They are interpreted
  on files in memory (\<open>RamStore\<close>: \<^verbatim>\<open>store/RAMFile.cpp\<close>, \<^verbatim>\<open>store/RAMOutputStream.cpp\<close>,
  \<^verbatim>\<open>store/RAMInputStream.cpp\<close>) and on buffered files (\<open>BufferedInput\<close>, \<open>BufferedOutput\<close>:
  \<^verbatim>\<open>store/BufferedIndexInput.cpp\<close>, \<^verbatim>\<open>store/BufferedIndexOutput.cpp\<close> over the
  streams of \<^verbatim>\<open>store/SimpleFSDirectory.cpp\<close>; the locales \<open>internal_file\<close> and \<open>internal_sink\<close> are the contract of the virtual
  functions they call). The streams refine a plain list of bytes with a position: seeks, bulk
  operations, clones on a shared file descriptor, the state after a failed write.
  \<open>ChecksumFile\<close> is \<^verbatim>\<open>store/ChecksumIndexOutput.cpp\<close> and \<^verbatim>\<open>store/ChecksumIndexInput.cpp\<close> with the two
  phases of a commit; the checksum itself (boost) is a parameter.
  \<open>TextCodec\<close> is \<^verbatim>\<open>util/UTF8Stream.cpp\<close>, the conversions of \<^verbatim>\<open>util/StringUtils.cpp\<close> and the strings,
  sets and maps of strings on files.

  \<^bold>\<open>Postings.\<close> \<open>IndexStreams\<close> extends the contracts: an output that knows its file pointer
  (\<open>out_stream\<close>) and an input that can be placed anywhere (\<open>in_stream\<close>). \<open>SkipListWriter\<close> is
  \<^verbatim>\<open>index/MultiLevelSkipListWriter.cpp\<close> with \<^verbatim>\<open>index/DefaultSkipListWriter.cpp\<close>: one buffer in memory for each level; the
  logarithms of the C++ library are the parameter \<open>floorLog\<close>, and the hypothesis that it is at most the maximum of
  levels is what the arrays of the code need. \<open>PostingsWriter\<close> is the three writers
  \<^verbatim>\<open>index/FormatPostings...Writer.cpp\<close> (without an output for positions when no field has any), \<open>PostingsReader\<close> is \<^verbatim>\<open>index/SegmentTermDocs.cpp\<close> and
  \<^verbatim>\<open>index/SegmentTermPositions.cpp\<close>. The locale \<open>postings_out\<close> shows which bytes the writers
  append, \<open>postings_in\<close> that the cursors find the postings in any file that has these bytes where the entry of the
  term says; \<open>tp_inv\<close> relates a cursor to the postings still to come, with the positions that are
  to be skipped lazily and the payload that can be loaded.

  \<^bold>\<open>Dictionary.\<close> \<open>FieldInfos\<close> is \<^verbatim>\<open>index/FieldInfo.cpp\<close> and \<^verbatim>\<open>index/FieldInfos.cpp\<close>: the fields are
  numbered by their first occurrence, their flags merged, and a saved file opens to the same fields. \<open>TermDictWriter\<close> is
  \<^verbatim>\<open>index/TermInfosWriter.cpp\<close>; \<open>dict_wire\<close> is the list of its entries as bytes, each with the prefix it
  shares with the one before, and \<open>index_entries\<close> what the index holds of them.
  \<open>TermDictReader\<close> is \<^verbatim>\<open>index/TermBuffer.cpp\<close>, \<^verbatim>\<open>index/SegmentTermEnum.cpp\<close> and
  \<^verbatim>\<open>index/TermInfosReader.cpp\<close> for one thread: \<open>te_at\<close> places the enumeration on an entry, \<open>tr_inv\<close> keeps the loaded
  index, the enumeration and the cache consistent with the written list over any script of lookups. Its cache is
  \<open>LruCache\<close>, \<^verbatim>\<open>include/lucene++/SimpleLRUCache.h\<close>, which refines one list. \<open>SegmentIndex\<close> joins the writers of the postings with
  the dictionary (\<^verbatim>\<open>FormatPostingsDocsWriter::finish\<close>, \<^verbatim>\<open>index/FormatPostingsFieldsWriter.cpp\<close>) and the cursors with the lookup
  (\<^verbatim>\<open>SegmentTermDocs::seek\<close> of a term): what was added to a segment is what a search for a term finds. The hypothesis
  \<open>postings_fit\<close> there says that the two files of the postings stay below \<open>2 ^ 63\<close> bytes.

  \<^bold>\<open>Search.\<close> \<open>DocIterators\<close> is \<^verbatim>\<open>search/DocIdSetIterator.cpp\<close>, \<^verbatim>\<open>search/Scorer.cpp\<close>,
  \<^verbatim>\<open>search/FilteredDocIdSetIterator.cpp\<close>, \<^verbatim>\<open>search/ReqExclScorer.cpp\<close> and
  \<^verbatim>\<open>search/ReqOptSumScorer.cpp\<close>; its locale \<open>doc_iter\<close> is the contract of \<^verbatim>\<open>nextDoc\<close> and \<^verbatim>\<open>advance\<close>,
  which every iterator built from iterators meets again (\<open>sublocale\<close>).
  \<open>ConjunctionScorer\<close> is \<^verbatim>\<open>search/ConjunctionScorer.cpp\<close>, with \<^verbatim>\<open>advance\<close> as the code has it.
  \<open>BooleanQuery\<close> composes them over lists of documents. \<open>PriorityQueue\<close> is
  \<^verbatim>\<open>include/lucene++/PriorityQueue.h\<close>, \<open>TopDocs\<close> is \<^verbatim>\<open>search/HitQueue.cpp\<close>, \<^verbatim>\<open>search/TopDocsCollector.cpp\<close> and
  \<^verbatim>\<open>search/TopScoreDocCollector.cpp\<close>; scores are a linear order with a least element, since the code only compares them.

  \<^bold>\<open>Text.\<close> \<open>AccentFilters\<close> is \<^verbatim>\<open>analysis/ASCIIFoldingFilter.cpp\<close> and
  \<^verbatim>\<open>analysis/ISOLatin1AccentFilter.cpp\<close>, every case of their two switches included.

  \<^bold>\<open>Bounds.\<close> Hypotheses such as \<open>n < 2 ^ 31\<close> are the ranges of \<^verbatim>\<open>int32_t\<close>: lengths of arrays, document
  numbers, positions, sums of frequencies of one term. Where the code computes the size of an array or an index in
  \<^verbatim>\<open>int32_t\<close> the model truncates (\<open>trunc32\<close>), a negative size is \<open>OutOfRange\<close>, and the theorems have the range in which
  nothing wraps: queues of less than \<open>2 ^ 30\<close> entries (\<^verbatim>\<open>i << 1\<close>), bits below \<open>2 ^ 36\<close> and sets of at most
  \<open>2 ^ 30\<close> words (\<^verbatim>\<open>getNextSize\<close>), \<open>2 ^ 30 - 8\<close> bytes of a \<^verbatim>\<open>SortedVIntList\<close> (\<^verbatim>\<open>size * 2 + 5\<close>), \<open>2 ^ 28\<close> characters to
  fold and less than \<open>2 ^ 29\<close> to encode (\<^verbatim>\<open>length * 4\<close>), terms whose bytes half as much again fit (\<open>term_ok\<close>). The 32-bit
  \<^verbatim>\<open>nextSetBit\<close> is the truncated answer of the 64-bit one. The size of a chunk of \<^verbatim>\<open>SimpleFSIndexInput\<close> is, where
  a theorem has \<open>chunk\<close>, the default of 64-bit builds, \<open>2 ^ 31 - 1\<close>, or one that stays below \<open>2 ^ 31\<close> together with
  the length of the file; elsewhere it is the default.

  \<^bold>\<open>Not modelled.\<close> The indexing chain (\<^verbatim>\<open>IndexWriter\<close>, \<^verbatim>\<open>DocumentsWriter\<close> and what they call), the readers of
  whole indexes, merging and merge policies: shared pools, threads, locks, the clock and a
  Directory, which is I/O. The readers of the skip lists and with
  them \<^verbatim>\<open>skipTo\<close>; stored fields, term vectors and norms.
  The other queries and scorers compute with floating point numbers over a hierarchy of weights.
  The query parser is the output of a generator; \<^verbatim>\<open>util/unicode\<close> and the Snowball stemmers are
  generated or vendored tables. The other analyzers, the highlighter and the in-memory index are clients of
  the layers above.
\<close>

end
